(* ===== verification/Prelude.thy ===== *)
theory Prelude
  imports Main "HOL-Library.List_Lexorder" "HOL-Library.Char_ord" "HOL-Library.AList"
    "HOL-Library.Multiset" "HOL-Library.Word"
begin

text \<open>
  Shared vocabulary of the development.

  The C++ sources abort on a failed \<^verbatim>\<open>assert\<close> (the default CMake build type leaves
  \<^verbatim>\<open>NDEBUG\<close> undefined), throw standard exceptions and call \<^verbatim>\<open>exit\<close>. All of these are
  values of the type \<open>fault\<close>, and a fallible function returns a \<open>result\<close>: \<open>Inl\<close> a
  fault or \<open>Inr\<close> its value. \<open>andThen\<close> sequences such computations.

  The rest of the theory models what the sources use of the C++ standard library: character
  classes, \<^verbatim>\<open>std::find\<close>, the searching members of \<^verbatim>\<open>std::string\<close>, \<^verbatim>\<open>stoi\<close>, decimal
  printing, \<^verbatim>\<open>std::map\<close> (an association list sorted by key, so that iteration order is the
  key order) and \<^verbatim>\<open>std::unordered_map\<close> (an association list with distinct keys). Both maps
  are instances of one interface, the locale \<open>assoc_map\<close>.

  A byte is a \<open>char\<close>, a \<^verbatim>\<open>std::string\<close> or a byte range is a \<open>string\<close>.
\<close>

named_theorems result_simps \<open>rewrite rules for sequenced fallible computations\<close>
named_theorems str_simps \<open>rewrite rules for the string library\<close>

section \<open>Faults and results\<close>

datatype fault =
    AssertFailed     \<comment> \<open>a failed \<^verbatim>\<open>assert\<close>: the process aborts\<close>
  | InvalidArgument  \<comment> \<open>\<^verbatim>\<open>std::invalid_argument\<close>\<close>
  | OutOfRange       \<comment> \<open>\<^verbatim>\<open>std::out_of_range\<close>\<close>
  | BadConversion    \<comment> \<open>\<^verbatim>\<open>YAML::BadConversion\<close>\<close>
  | BadSubscript     \<comment> \<open>\<^verbatim>\<open>YAML::BadSubscript\<close>\<close>
  | InvalidNode      \<comment> \<open>\<^verbatim>\<open>YAML::InvalidNode\<close>\<close>
  | BusError         \<comment> \<open>\<^verbatim>\<open>SIGBUS\<close>: access to a mapped page past the end of the file\<close>
  | LogFatal         \<comment> \<open>\<^verbatim>\<open>LOG_FATAL\<close> or \<^verbatim>\<open>LOG_SYSFATAL\<close>: the process aborts\<close>
  | SegFault         \<comment> \<open>access through a null or dangling pointer: undefined, at best the process is killed\<close>
  | LengthError      \<comment> \<open>\<^verbatim>\<open>std::length_error\<close>: a vector or string beyond its maximal size\<close>
  | BadAlloc         \<comment> \<open>\<^verbatim>\<open>std::bad_alloc\<close>: \<^verbatim>\<open>new\<close> finds no memory\<close>
  | ExitFailure      \<comment> \<open>\<^verbatim>\<open>exit(EXIT_FAILURE)\<close>\<close>
  | BadPushback      \<comment> \<open>\<^verbatim>\<open>YAML::BadPushback\<close>\<close>
  | BadFile          \<comment> \<open>\<^verbatim>\<open>YAML::BadFile\<close>\<close>
  | ParserException string  \<comment> \<open>\<^verbatim>\<open>YAML::ParserException\<close> with its message\<close>

type_synonym 'a result = "fault + 'a"

definition andThen :: "'a result \<Rightarrow> ('a \<Rightarrow> 'b result) \<Rightarrow> 'b result" where
  "andThen r f = (case r of Inl e \<Rightarrow> Inl e | Inr x \<Rightarrow> f x)"

definition check :: "bool \<Rightarrow> unit result" where
  "check b = (if b then Inr () else Inl AssertFailed)"

lemma andThen_simps [simp, result_simps]:
  "andThen (Inl e) f = Inl e"
  "andThen (Inr x) f = f x"
  by (simp_all add: andThen_def)

lemma andThen_cong [fundef_cong]:
  "r = r' \<Longrightarrow> (\<And>x. r' = Inr x \<Longrightarrow> f x = g x) \<Longrightarrow> andThen r f = andThen r' g"
  by (cases r') simp_all

lemma andThen_Inr_iff [result_simps]:
  "andThen r f = Inr y \<longleftrightarrow> (\<exists>x. r = Inr x \<and> f x = Inr y)"
  by (cases r) simp_all

lemma andThen_Inl_iff [result_simps]:
  "andThen r f = Inl e \<longleftrightarrow> r = Inl e \<or> (\<exists>x. r = Inr x \<and> f x = Inl e)"
  by (cases r) simp_all

lemma andThen_assoc: "andThen (andThen r f) g = andThen r (\<lambda>x. andThen (f x) g)"
  by (cases r) simp_all

lemma check_simps [simp, result_simps]:
  "check True = Inr ()"
  "check False = Inl AssertFailed"
  by (simp_all add: check_def)

text \<open>A loop that threads a state through the elements of a list and stops at the first
  fault.\<close>

fun fold_result :: "('a \<Rightarrow> 's \<Rightarrow> 's result) \<Rightarrow> 'a list \<Rightarrow> 's \<Rightarrow> 's result" where
  "fold_result f [] s = Inr s"
| "fold_result f (x # xs) s = andThen (f x s) (fold_result f xs)"

lemma fold_result_invar:
  assumes "fold_result f xs s = Inr s'" "I s" "\<And>x s s'. x \<in> set xs \<Longrightarrow> I s \<Longrightarrow> f x s = Inr s' \<Longrightarrow> I s'"
  shows "I s'"
  using assms
proof (induction xs arbitrary: s)
  case (Cons x xs)
  obtain t where t: "f x s = Inr t" "fold_result f xs t = Inr s'"
    using Cons.prems(1) by (auto simp: andThen_Inr_iff)
  have "I t" using Cons.prems(2,3) t(1) by auto
  with Cons.IH[OF t(2)] Cons.prems(3) show ?case by auto
qed simp

lemma fold_result_append:
  "fold_result f (xs @ ys) s = andThen (fold_result f xs s) (fold_result f ys)"
  by (induction xs arbitrary: s) (simp_all add: andThen_assoc cong: andThen_cong)

lemma check_Inr_iff [result_simps]: "check b = Inr u \<longleftrightarrow> b"
  by (simp add: check_def)

lemma check_Inl_iff [result_simps]: "check b = Inl e \<longleftrightarrow> \<not> b \<and> e = AssertFailed"
  by (auto simp: check_def)

section \<open>Characters and strings\<close>

abbreviation "CR \<equiv> CHR 0x0D"
abbreviation "LF \<equiv> CHR 0x0A"
abbreviation "NUL \<equiv> CHR 0x00"
abbreviation "CRLF \<equiv> [CR, LF]"

text \<open>\<^verbatim>\<open>isspace\<close> in the C locale: space, \<^verbatim>\<open>\t \n \v \f \r\<close>.\<close>

definition isspace :: "char \<Rightarrow> bool" where
  "isspace c = (let n = (of_char c :: nat) in n = 32 \<or> (9 \<le> n \<and> n \<le> 13))"

definition isdigit :: "char \<Rightarrow> bool" where
  "isdigit c = (let n = (of_char c :: nat) in 48 \<le> n \<and> n \<le> 57)"

text \<open>\<^verbatim>\<open>std::find(first, last, c)\<close> as an offset from \<open>first\<close>; the length stands for
  \<open>last\<close>.\<close>

definition find_char :: "char \<Rightarrow> string \<Rightarrow> nat" where
  "find_char c s = length (takeWhile (\<lambda>x. x \<noteq> c) s)"

text \<open>\<^verbatim>\<open>string::find(c)\<close>, \<^verbatim>\<open>string::rfind(c, pos)\<close> and \<^verbatim>\<open>string::find_last_of(c)\<close>;
  \<open>None\<close> is \<^verbatim>\<open>npos\<close>.\<close>

definition str_find :: "char \<Rightarrow> string \<Rightarrow> nat option" where
  "str_find c s = (if find_char c s < length s then Some (find_char c s) else None)"

definition str_rfind :: "char \<Rightarrow> string \<Rightarrow> nat \<Rightarrow> nat option" where
  "str_rfind c s pos =
     (let is = filter (\<lambda>i. s ! i = c) [0..<min (length s) (Suc pos)]
      in if is = [] then None else Some (last is))"

definition str_find_last :: "char \<Rightarrow> string \<Rightarrow> nat option" where
  "str_find_last c s = str_rfind c s (length s)"

text \<open>\<^verbatim>\<open>string::substr(pos, n)\<close> and \<^verbatim>\<open>string::substr(pos)\<close> throw when \<open>pos\<close> is past the
  end.\<close>

definition substr :: "string \<Rightarrow> nat \<Rightarrow> nat \<Rightarrow> string result" where
  "substr s pos n = (if pos \<le> length s then Inr (take n (drop pos s)) else Inl OutOfRange)"

definition substr_from :: "string \<Rightarrow> nat \<Rightarrow> string result" where
  "substr_from s pos = (if pos \<le> length s then Inr (drop pos s) else Inl OutOfRange)"

text \<open>A C string ends at its first NUL, and \<^verbatim>\<open>snprintf\<close> into a buffer of \<open>n\<close> bytes keeps
  the first \<open>n - 1\<close> bytes of the formatted text.\<close>

definition c_str :: "string \<Rightarrow> string" where
  "c_str s = takeWhile (\<lambda>c. c \<noteq> NUL) s"

definition snprintf :: "nat \<Rightarrow> string \<Rightarrow> string" where
  "snprintf n s = take (n - 1) s"

lemma find_char_le [simp]: "find_char c s \<le> length s"
  by (simp add: find_char_def length_takeWhile_le)

lemma find_char_notin: "c \<notin> set s \<Longrightarrow> find_char c s = length s"
  by (induction s) (auto simp: find_char_def)

lemma find_char_less_iff: "find_char c s < length s \<longleftrightarrow> c \<in> set s"
  by (induction s) (auto simp: find_char_def)

lemma find_char_append:
  "c \<notin> set s \<Longrightarrow> find_char c (s @ c # t) = length s"
  by (induction s) (auto simp: find_char_def)

lemma find_char_take: "c \<notin> set (take (find_char c s) s)"
  by (induction s) (auto simp: find_char_def)

lemma find_char_nth: "find_char c s < length s \<Longrightarrow> s ! find_char c s = c"
  by (induction s) (auto simp: find_char_def)

lemma isspace_simps [simp]:
  "isspace CR" "isspace LF" "isspace (CHR '' '')" "\<not> isspace (CHR '':'')"
  by (simp_all add: isspace_def)

lemma le_last_if_sorted: "sorted xs \<Longrightarrow> x \<in> set xs \<Longrightarrow> x \<le> last xs"
  by (induction xs) auto

lemma str_rfind_Some:
  assumes "str_rfind c s pos = Some i"
  shows "i < length s" "i \<le> pos" "s ! i = c"
    "\<And>j. i < j \<Longrightarrow> j < length s \<Longrightarrow> j \<le> pos \<Longrightarrow> s ! j \<noteq> c"
proof -
  let ?is = "filter (\<lambda>i. s ! i = c) [0..<min (length s) (Suc pos)]"
  have ne: "?is \<noteq> []" and i: "i = last ?is"
    using assms by (auto simp: str_rfind_def Let_def split: if_splits)
  have "i \<in> set ?is" unfolding i by (rule last_in_set[OF ne])
  then show "i < length s" "i \<le> pos" "s ! i = c" by auto
  fix j assume j: "i < j" "j < length s" "j \<le> pos"
  show "s ! j \<noteq> c"
  proof
    assume "s ! j = c"
    with j have "j \<in> set ?is" by auto
    moreover have "sorted ?is" by (simp add: sorted_wrt_filter)
    ultimately have "j \<le> last ?is" by (rule le_last_if_sorted[rotated])
    with i j(1) show False by simp
  qed
qed

lemma str_rfind_None:
  "str_rfind c s pos = None \<longleftrightarrow> (\<forall>j < length s. j \<le> pos \<longrightarrow> s ! j \<noteq> c)"
  by (auto simp: str_rfind_def Let_def filter_empty_conv)

lemma c_str_id: "NUL \<notin> set s \<Longrightarrow> c_str s = s"
  by (auto simp: c_str_def takeWhile_eq_all_conv)

lemma snprintf_id: "length s < n \<Longrightarrow> snprintf n s = s"
  by (simp add: snprintf_def)

subsection \<open>Decimal numbers\<close>

text \<open>\<^verbatim>\<open>%d\<close>, \<^verbatim>\<open>%zd\<close> and \<^verbatim>\<open>std::to_string\<close>.\<close>

fun dec_nat :: "nat \<Rightarrow> string" where
  "dec_nat n = (if n < 10 then [char_of (48 + n)]
                else dec_nat (n div 10) @ [char_of (48 + n mod 10)])"

declare dec_nat.simps [simp del]

definition dec_int :: "int \<Rightarrow> string" where
  "dec_int i = (if i < 0 then CHR ''-'' # dec_nat (nat (- i)) else dec_nat (nat i))"

definition digit_val :: "char \<Rightarrow> nat" where
  "digit_val c = of_char c - 48"

definition digits_val :: "string \<Rightarrow> nat" where
  "digits_val s = foldl (\<lambda>a c. 10 * a + digit_val c) 0 s"

text \<open>\<^verbatim>\<open>std::stoi\<close>: leading white space, an optional sign, at least one digit, anything
  after the digits is ignored. No digits is \<^verbatim>\<open>std::invalid_argument\<close>, a value outside
  \<^verbatim>\<open>int\<close> is \<^verbatim>\<open>std::out_of_range\<close>.\<close>

definition int_min :: int where "int_min = - (2 ^ 31)"
definition int_max :: int where "int_max = 2 ^ 31 - 1"

definition stoi :: "string \<Rightarrow> int result" where
  "stoi s =
     (let t = dropWhile isspace s;
          neg = (t \<noteq> [] \<and> hd t = CHR ''-'');
          u = (if t \<noteq> [] \<and> (hd t = CHR ''-'' \<or> hd t = CHR ''+'') then tl t else t);
          ds = takeWhile isdigit u;
          v = (if neg then - int (digits_val ds) else int (digits_val ds))
      in if ds = [] then Inl InvalidArgument
         else if v < int_min \<or> int_max < v then Inl OutOfRange
         else Inr v)"

text \<open>\<^verbatim>\<open>static_cast<size_t>\<close> of an \<^verbatim>\<open>int\<close>: negative values wrap around at \<open>2 ^ 64\<close>.\<close>

definition size_t_of_int :: "int \<Rightarrow> nat" where
  "size_t_of_int i = nat (i mod 2 ^ 64)"

lemma of_char_of_digit: "(n :: nat) < 10 \<Longrightarrow> (of_char (char_of (48 + n) :: char) :: nat) = 48 + n"
  by (simp add: of_char_of)

lemma isdigit_of_digit: "(n :: nat) < 10 \<Longrightarrow> isdigit (char_of (48 + n))"
  by (simp add: isdigit_def of_char_of_digit)

lemma digit_val_of_digit: "(n :: nat) < 10 \<Longrightarrow> digit_val (char_of (48 + n)) = n"
  by (simp add: digit_val_def of_char_of_digit)

lemma dec_nat_nonempty [simp]: "dec_nat n \<noteq> []"
  by (subst dec_nat.simps) simp

lemma dec_nat_digits: "\<forall>c \<in> set (dec_nat n). isdigit c"
proof (induction n rule: dec_nat.induct)
  case (1 n)
  show ?case
  proof (cases "n < 10")
    case True then show ?thesis by (subst dec_nat.simps) (simp add: isdigit_of_digit)
  next
    case False
    with 1 show ?thesis by (subst dec_nat.simps) (simp add: isdigit_of_digit)
  qed
qed

lemma digits_val_append1: "digits_val (s @ [c]) = 10 * digits_val s + digit_val c"
  by (simp add: digits_val_def)

lemma digits_val_dec_nat [simp]: "digits_val (dec_nat n) = n"
proof (induction n rule: dec_nat.induct)
  case (1 n)
  show ?case
  proof (cases "n < 10")
    case True then show ?thesis
      by (subst dec_nat.simps) (simp add: digits_val_def digit_val_of_digit)
  next
    case False
    with 1 show ?thesis
      by (subst dec_nat.simps) (simp add: digits_val_append1 digit_val_of_digit)
  qed
qed

lemma isdigit_not_space: "isdigit c \<Longrightarrow> \<not> isspace c"
  by (auto simp: isdigit_def isspace_def Let_def)

lemma dec_nat_inj: "dec_nat m = dec_nat n \<Longrightarrow> m = n"
  using digits_val_dec_nat by metis

lemma length_dec_nat: "n < 10 ^ Suc k \<Longrightarrow> length (dec_nat n) \<le> Suc k"
proof (induction k arbitrary: n)
  case 0 then show ?case by (simp add: dec_nat.simps)
next
  case (Suc k)
  show ?case
  proof (cases "n < 10")
    case True then show ?thesis by (simp add: dec_nat.simps)
  next
    case False
    have "n div 10 < 10 ^ Suc k" using Suc(2) by (simp add: less_mult_imp_div_less mult.commute)
    with Suc.IH False show ?thesis by (subst dec_nat.simps) simp
  qed
qed

lemma dec_nat_clean: "isdigit c \<or> c \<notin> set (dec_nat n)"
  using dec_nat_digits by blast

lemma dec_nat_notin [simp]: "CHR '' '' \<notin> set (dec_nat n)" "CR \<notin> set (dec_nat n)"
  using dec_nat_clean[of "CHR '' ''" n] dec_nat_clean[of CR n] isdigit_not_space[of "CHR '' ''"]
    isdigit_not_space[of CR] by auto

lemma isdigit_not_sign: "isdigit c \<Longrightarrow> c \<noteq> CHR ''-'' \<and> c \<noteq> CHR ''+''"
  by (auto simp: isdigit_def Let_def)

lemma dec_int_inj:
  assumes "dec_int i = dec_int j"
  shows "i = j"
proof -
  have sign: "CHR ''-'' # s \<noteq> dec_nat n" "dec_nat n \<noteq> CHR ''-'' # s" for s n
    using dec_nat_digits[of n] isdigit_not_sign[of "CHR ''-''"] by (metis list.set_intros(1))+
  show ?thesis
  proof (cases "i < 0")
    case True
    then have "j < 0" using assms sign by (simp add: dec_int_def split: if_splits)
    then show ?thesis using assms True dec_nat_inj[of "nat (- i)" "nat (- j)"] by (simp add: dec_int_def)
  next
    case False
    then have "\<not> j < 0" using assms sign by (simp add: dec_int_def split: if_splits)
    then show ?thesis using assms False dec_nat_inj[of "nat i" "nat j"] by (simp add: dec_int_def)
  qed
qed

lemma stoi_dec_nat:
  assumes "int n \<le> int_max"
  shows "stoi (dec_nat n @ s) =
    (if s \<noteq> [] \<and> isdigit (hd s) then stoi (dec_nat n @ s) else Inr (int n))"
proof (cases "s \<noteq> [] \<and> isdigit (hd s)")
  case True then show ?thesis by simp
next
  case False
  obtain c cs where c: "dec_nat n = c # cs" by (cases "dec_nat n") auto
  have dig: "isdigit c" using dec_nat_digits[of n] c by simp
  have drop: "dropWhile isspace (dec_nat n @ s) = dec_nat n @ s"
    using c isdigit_not_space[OF dig] by simp
  have take: "takeWhile isdigit (dec_nat n @ s) = dec_nat n"
    using dec_nat_digits[of n] False by (cases s) (auto simp: takeWhile_append2)
  have hd: "hd (dec_nat n @ s) \<noteq> CHR ''-''" "hd (dec_nat n @ s) \<noteq> CHR ''+''"
    using isdigit_not_sign[OF dig] c by auto
  have "stoi (dec_nat n @ s) = Inr (int n)"
    unfolding stoi_def Let_def drop using hd assms take
    by (simp add: int_min_def int_max_def)
  with False show ?thesis by simp
qed

lemma stoi_dec_nat_exact: "int n \<le> int_max \<Longrightarrow> stoi (dec_nat n) = Inr (int n)"
  using stoi_dec_nat[of n "[]"] by simp

lemma size_t_of_int_nonneg: "0 \<le> i \<Longrightarrow> i \<le> int_max \<Longrightarrow> size_t_of_int i = nat i"
  by (simp add: size_t_of_int_def int_max_def)

lemma size_t_of_int_neg: "i < 0 \<Longrightarrow> int_min \<le> i \<Longrightarrow> size_t_of_int i = nat (i + 2 ^ 64)"
proof -
  assume i: "i < 0" "int_min \<le> i"
  then have "i mod 2 ^ 64 = (i + 2 ^ 64) mod 2 ^ 64" by simp
  also have "\<dots> = i + 2 ^ 64" using i by (intro mod_pos_pos_trivial) (auto simp: int_min_def)
  finally show ?thesis by (simp add: size_t_of_int_def)
qed

lemma stoi_range: "stoi s = Inr i \<Longrightarrow> int_min \<le> i \<and> i \<le> int_max"
  by (auto simp: stoi_def Let_def split: if_splits)

section \<open>Maps\<close>

text \<open>The interface both kinds of map promise: what a lookup returns after an insertion, and
  that an insertion keeps the representation invariant.\<close>

locale assoc_map =
  fixes emp :: "'m"
    and put :: "'k \<Rightarrow> 'v \<Rightarrow> 'm \<Rightarrow> 'm"
    and get :: "'m \<Rightarrow> 'k \<Rightarrow> 'v option"
    and invar :: "'m \<Rightarrow> bool"
  assumes get_emp: "get emp = Map.empty"
    and get_put: "invar m \<Longrightarrow> get (put k v m) = (get m)(k \<mapsto> v)"
    and invar_emp: "invar emp"
    and invar_put: "invar m \<Longrightarrow> invar (put k v m)"
begin

definition put_all :: "('k \<times> 'v) list \<Rightarrow> 'm \<Rightarrow> 'm" where
  "put_all kvs m = foldl (\<lambda>m (k, v). put k v m) m kvs"

lemma put_all_simps [simp]:
  "put_all [] m = m"
  "put_all ((k, v) # kvs) m = put_all kvs (put k v m)"
  by (simp_all add: put_all_def)

lemma invar_put_all: "invar m \<Longrightarrow> invar (put_all kvs m)"
  by (induction kvs arbitrary: m) (auto simp: invar_put)

text \<open>After a sequence of insertions the last one for a key wins.\<close>

lemma get_put_all: "invar m \<Longrightarrow> get (put_all kvs m) = get m ++ map_of (rev kvs)"
  by (induction kvs arbitrary: m) (auto simp: invar_put get_put map_add_def fun_eq_iff split: option.splits)

end

subsection \<open>Ordered maps\<close>

text \<open>\<^verbatim>\<open>std::map\<close>: \<^verbatim>\<open>m[k] = v\<close> keeps the entries in key order.\<close>

fun omap_put :: "'k::linorder \<Rightarrow> 'v \<Rightarrow> ('k \<times> 'v) list \<Rightarrow> ('k \<times> 'v) list" where
  "omap_put k v [] = [(k, v)]"
| "omap_put k v ((k', v') # m) =
     (if k < k' then (k, v) # (k', v') # m
      else if k = k' then (k, v) # m
      else (k', v') # omap_put k v m)"

definition omap_wf :: "('k::linorder \<times> 'v) list \<Rightarrow> bool" where
  "omap_wf m = sorted_wrt (<) (map fst m)"

definition omap_erase :: "'k \<Rightarrow> ('k \<times> 'v) list \<Rightarrow> ('k \<times> 'v) list" where
  "omap_erase k m = filter (\<lambda>(k', _). k' \<noteq> k) m"

lemma map_of_omap_put [simp]: "map_of (omap_put k v m) = (map_of m)(k \<mapsto> v)"
  by (induction k v m rule: omap_put.induct) (auto simp: fun_eq_iff)

lemma fst_set_omap_put [simp]: "fst ` set (omap_put k v m) = insert k (fst ` set m)"
  by (induction k v m rule: omap_put.induct) auto

lemma omap_wf_put: "omap_wf m \<Longrightarrow> omap_wf (omap_put k v m)"
proof (induction k v m rule: omap_put.induct)
  case (2 k v k' v' m)
  have "\<forall>x \<in> fst ` set (omap_put k v m). k' < x" if "k' < k"
    using 2(2) that by (auto simp: omap_wf_def)
  with 2 show ?case by (auto simp: omap_wf_def)
qed (simp add: omap_wf_def)

lemma omap_wf_distinct: "omap_wf m \<Longrightarrow> distinct (map fst m)"
  by (simp add: omap_wf_def strict_sorted_iff)

lemma omap_wf_Nil [simp]: "omap_wf []"
  by (simp add: omap_wf_def)

lemma omap_wf_erase: "omap_wf m \<Longrightarrow> omap_wf (omap_erase k m)"
  by (induction m) (auto simp: omap_wf_def omap_erase_def)

lemma map_of_omap_erase [simp]: "map_of (omap_erase k m) = (map_of m)(k := None)"
  by (induction m) (auto simp: omap_erase_def fun_eq_iff)

lemma length_omap_erase:
  "omap_wf m \<Longrightarrow> map_of m k = Some v \<Longrightarrow> length m = length (omap_erase k m) + 1"
proof -
  assume wf: "omap_wf m" and k: "map_of m k = Some v"
  have d: "distinct (map fst m)" using wf by (rule omap_wf_distinct)
  from map_of_SomeD[OF k] d show ?thesis
  proof (induction m)
    case (Cons x m)
    show ?case
    proof (cases "fst x = k")
      case True
      then have "omap_erase k m = m" using Cons.prems(2)
        by (auto simp: omap_erase_def filter_id_conv rev_image_eqI)
      then show ?thesis using True by (simp add: omap_erase_def case_prod_beta)
    next
      case False
      with Cons show ?thesis by (auto simp: omap_erase_def)
    qed
  qed simp
qed

interpretation omap: assoc_map "[] :: ('k::linorder \<times> 'v) list" omap_put map_of omap_wf
  by unfold_locales (auto simp: omap_wf_put)

subsection \<open>Unordered maps\<close>

text \<open>\<^verbatim>\<open>std::unordered_map\<close>: the entries, in some order. What the sources do with a map does
  not depend on the order except where they iterate; there the order is a parameter, an
  arbitrary permutation of the entries.\<close>

definition umap_put :: "'k \<Rightarrow> 'v \<Rightarrow> ('k \<times> 'v) list \<Rightarrow> ('k \<times> 'v) list" where
  "umap_put k v m = AList.update k v m"

definition umap_wf :: "('k \<times> 'v) list \<Rightarrow> bool" where
  "umap_wf m = distinct (map fst m)"

lemma map_of_umap_put [simp]: "map_of (umap_put k v m) = (map_of m)(k \<mapsto> v)"
  by (simp add: umap_put_def update_conv')

lemma umap_wf_put: "umap_wf m \<Longrightarrow> umap_wf (umap_put k v m)"
  by (simp add: umap_wf_def umap_put_def distinct_update)

interpretation umap: assoc_map "[] :: ('k \<times> 'v) list" umap_put map_of umap_wf
  by unfold_locales (simp_all add: umap_wf_put, simp add: umap_wf_def)

lemma map_of_permute: "umap_wf m \<Longrightarrow> mset m' = mset m \<Longrightarrow> map_of m' = map_of m"
  by (metis distinct_map mset_eq_setD mset_map map_of_inject_set mset_eq_imp_distinct_iff umap_wf_def)

end
