(* ===== verification/Net_Buffer.thy ===== *)
theory Net_Buffer
  imports Prelude
begin

text \<open>
  The byte buffer of \<^verbatim>\<open>net/Buffer.h\<close> and \<^verbatim>\<open>net/Buffer.cc\<close>: a vector of bytes with a reader
  and a writer index. A pointer into the buffer is an index from \<^verbatim>\<open>begin()\<close>. Every member
  function is a definition over the record \<open>buffer\<close>; its asserts are \<open>check\<close>s, so a call that
  would abort the process returns \<open>Inl AssertFailed\<close>. \<^verbatim>\<open>size_t\<close> is \<open>nat\<close>: the invariant
  \<open>buffer_wf\<close> keeps the indices ordered, so no subtraction of the code wraps around.

  The contract is the locale \<open>byte_fifo\<close>: the readable bytes are a queue, appending never
  aborts and adds at the end, retrieving removes from the front and aborts exactly when asked
  for more than there is. It is interpreted on the model, and the components that print into a
  buffer use its lemmas.
\<close>

section \<open>The interface\<close>

locale byte_fifo =
  fixes content :: "'b \<Rightarrow> string"
    and put :: "string \<Rightarrow> 'b \<Rightarrow> 'b result"
    and discard :: "nat \<Rightarrow> 'b \<Rightarrow> 'b result"
    and invar :: "'b \<Rightarrow> bool"
  assumes put_ok: "invar b \<Longrightarrow> \<exists>b'. put s b = Inr b' \<and> invar b' \<and> content b' = content b @ s"
    and discard_ok: "invar b \<Longrightarrow> n \<le> length (content b) \<Longrightarrow>
      \<exists>b'. discard n b = Inr b' \<and> invar b' \<and> content b' = drop n (content b)"
    and discard_abort: "invar b \<Longrightarrow> length (content b) < n \<Longrightarrow> discard n b = Inl AssertFailed"
begin

fun put_each :: "string list \<Rightarrow> 'b \<Rightarrow> 'b result" where
  "put_each [] b = Inr b"
| "put_each (s # ss) b = andThen (put s b) (put_each ss)"

lemma put_each_ok:
  "invar b \<Longrightarrow> \<exists>b'. put_each ss b = Inr b' \<and> invar b' \<and> content b' = content b @ concat ss"
proof (induction ss arbitrary: b)
  case Nil
  then show ?case by simp
next
  case (Cons s ss)
  from put_ok[OF Cons.prems, of s] obtain b1
    where "put s b = Inr b1" "invar b1" "content b1 = content b @ s" by blast
  with Cons.IH[of b1] show ?case by auto
qed

lemma put_then_discard:
  assumes "invar b" "content b = []"
  shows "\<exists>b' b''. put s b = Inr b' \<and> discard (length s) b' = Inr b'' \<and> content b'' = []"
proof -
  obtain b' where b': "put s b = Inr b'" "invar b'" "content b' = s"
    using put_ok[OF assms(1), of s] assms(2) by auto
  with discard_ok[of b' "length s"] show ?thesis by auto
qed

end

section \<open>The buffer\<close>

record buffer =
  buf_data :: "char list"
  readerIndex :: nat
  writerIndex :: nat

definition kCheapPrepend :: nat where "kCheapPrepend = 8"
definition kInitialSize :: nat where "kInitialSize = 1024"

definition readableBytes :: "buffer \<Rightarrow> nat" where
  "readableBytes b = writerIndex b - readerIndex b"

definition writableBytes :: "buffer \<Rightarrow> nat" where
  "writableBytes b = length (buf_data b) - writerIndex b"

definition prependableBytes :: "buffer \<Rightarrow> nat" where
  "prependableBytes b = readerIndex b"

definition buffer_ctor :: "nat \<Rightarrow> buffer result" where
  "buffer_ctor initialSize =
     (let b = \<lparr>buf_data = replicate (kCheapPrepend + initialSize) NUL,
               readerIndex = kCheapPrepend, writerIndex = kCheapPrepend\<rparr>
      in andThen (check (readableBytes b = 0)) (\<lambda>_.
         andThen (check (writableBytes b = initialSize)) (\<lambda>_.
         andThen (check (prependableBytes b = kCheapPrepend)) (\<lambda>_. Inr b))))"

definition buffer_swap :: "buffer \<Rightarrow> buffer \<Rightarrow> buffer \<times> buffer" where
  "buffer_swap b rhs = (rhs, b)"

definition peek :: "buffer \<Rightarrow> nat" where
  "peek b = readerIndex b"

definition beginWrite :: "buffer \<Rightarrow> nat" where
  "beginWrite b = writerIndex b"

text \<open>The bytes of a pointer range, and the readable bytes.\<close>

definition byte_range :: "buffer \<Rightarrow> nat \<Rightarrow> nat \<Rightarrow> string" where
  "byte_range b i j = take (j - i) (drop i (buf_data b))"

definition content :: "buffer \<Rightarrow> string" where
  "content b = byte_range b (readerIndex b) (writerIndex b)"

definition buffer_wf :: "buffer \<Rightarrow> bool" where
  "buffer_wf b \<longleftrightarrow> readerIndex b \<le> writerIndex b \<and> writerIndex b \<le> length (buf_data b)
     \<and> kCheapPrepend \<le> length (buf_data b)"

subsection \<open>Searching\<close>

text \<open>\<^verbatim>\<open>std::search(first, last, kCRLF, kCRLF+2)\<close> as an offset; \<open>None\<close> is \<open>last\<close>.\<close>

fun search_crlf :: "string \<Rightarrow> nat option" where
  "search_crlf (a # b # s) =
     (if a = CR \<and> b = LF then Some 0 else map_option Suc (search_crlf (b # s)))"
| "search_crlf _ = None"

definition findCRLF :: "buffer \<Rightarrow> nat option" where
  "findCRLF b = map_option (\<lambda>i. peek b + i) (search_crlf (byte_range b (peek b) (beginWrite b)))"

definition findCRLF_from :: "nat \<Rightarrow> buffer \<Rightarrow> nat option result" where
  "findCRLF_from start b =
     andThen (check (peek b \<le> start)) (\<lambda>_.
     andThen (check (start \<le> beginWrite b)) (\<lambda>_.
     Inr (map_option (\<lambda>i. start + i) (search_crlf (byte_range b start (beginWrite b))))))"

definition findEOL :: "buffer \<Rightarrow> nat option" where
  "findEOL b = map_option (\<lambda>i. peek b + i) (str_find LF (byte_range b (peek b) (beginWrite b)))"

definition findEOL_from :: "nat \<Rightarrow> buffer \<Rightarrow> nat option result" where
  "findEOL_from start b =
     andThen (check (peek b \<le> start)) (\<lambda>_.
     andThen (check (start \<le> beginWrite b)) (\<lambda>_.
     Inr (map_option (\<lambda>i. start + i) (str_find LF (byte_range b start (beginWrite b))))))"

subsection \<open>Retrieving\<close>

definition retrieveAll :: "buffer \<Rightarrow> buffer" where
  "retrieveAll b = b\<lparr>readerIndex := kCheapPrepend, writerIndex := kCheapPrepend\<rparr>"

definition retrieve :: "nat \<Rightarrow> buffer \<Rightarrow> buffer result" where
  "retrieve len b =
     andThen (check (len \<le> readableBytes b)) (\<lambda>_.
     Inr (if len < readableBytes b then b\<lparr>readerIndex := readerIndex b + len\<rparr>
          else retrieveAll b))"

definition retrieveUntil :: "nat \<Rightarrow> buffer \<Rightarrow> buffer result" where
  "retrieveUntil end b =
     andThen (check (peek b \<le> end)) (\<lambda>_.
     andThen (check (end \<le> beginWrite b)) (\<lambda>_.
     retrieve (end - peek b) b))"

definition retrieveAsString :: "nat \<Rightarrow> buffer \<Rightarrow> (string \<times> buffer) result" where
  "retrieveAsString len b =
     andThen (check (len \<le> readableBytes b)) (\<lambda>_.
     andThen (retrieve len b) (\<lambda>b'.
     Inr (byte_range b (peek b) (peek b + len), b')))"

definition retrieveAllAsString :: "buffer \<Rightarrow> (string \<times> buffer) result" where
  "retrieveAllAsString b = retrieveAsString (readableBytes b) b"

definition retrieveInt64 :: "buffer \<Rightarrow> buffer result" where "retrieveInt64 = retrieve 8"
definition retrieveInt32 :: "buffer \<Rightarrow> buffer result" where "retrieveInt32 = retrieve 4"
definition retrieveInt16 :: "buffer \<Rightarrow> buffer result" where "retrieveInt16 = retrieve 2"
definition retrieveInt8 :: "buffer \<Rightarrow> buffer result" where "retrieveInt8 = retrieve 1"

subsection \<open>Appending\<close>

text \<open>\<^verbatim>\<open>std::vector::resize\<close> and \<^verbatim>\<open>std::copy\<close> to a position of the vector.\<close>

definition resize :: "nat \<Rightarrow> char list \<Rightarrow> char list" where
  "resize n xs = take n xs @ replicate (n - length xs) NUL"

definition copy_at :: "nat \<Rightarrow> string \<Rightarrow> char list \<Rightarrow> char list" where
  "copy_at i s xs = take i xs @ s @ drop (i + length s) xs"

definition makeSpace :: "nat \<Rightarrow> buffer \<Rightarrow> buffer result" where
  "makeSpace len b =
     (if writableBytes b + prependableBytes b < len + kCheapPrepend
      then Inr (b\<lparr>buf_data := resize (writerIndex b + len) (buf_data b)\<rparr>)
      else
        andThen (check (kCheapPrepend < readerIndex b)) (\<lambda>_.
        let readable = readableBytes b;
            b' = b\<lparr>buf_data := copy_at kCheapPrepend (content b) (buf_data b),
                   readerIndex := kCheapPrepend,
                   writerIndex := kCheapPrepend + readable\<rparr>
        in andThen (check (readable = readableBytes b')) (\<lambda>_. Inr b')))"

definition ensureWritableBytes :: "nat \<Rightarrow> buffer \<Rightarrow> buffer result" where
  "ensureWritableBytes len b =
     andThen (if writableBytes b < len then makeSpace len b else Inr b) (\<lambda>b'.
     andThen (check (len \<le> writableBytes b')) (\<lambda>_. Inr b'))"

definition hasWritten :: "nat \<Rightarrow> buffer \<Rightarrow> buffer result" where
  "hasWritten len b =
     andThen (check (len \<le> writableBytes b)) (\<lambda>_. Inr (b\<lparr>writerIndex := writerIndex b + len\<rparr>))"

definition unwrite :: "nat \<Rightarrow> buffer \<Rightarrow> buffer result" where
  "unwrite len b =
     andThen (check (len \<le> readableBytes b)) (\<lambda>_. Inr (b\<lparr>writerIndex := writerIndex b - len\<rparr>))"

definition buffer_append :: "string \<Rightarrow> buffer \<Rightarrow> buffer result" where
  "buffer_append s b =
     andThen (ensureWritableBytes (length s) b) (\<lambda>b'.
     hasWritten (length s) (b'\<lparr>buf_data := copy_at (beginWrite b') s (buf_data b')\<rparr>))"

definition prepend :: "string \<Rightarrow> buffer \<Rightarrow> buffer result" where
  "prepend s b =
     andThen (check (length s \<le> prependableBytes b)) (\<lambda>_.
     let r = readerIndex b - length s
     in Inr (b\<lparr>readerIndex := r, buf_data := copy_at r s (buf_data b)\<rparr>))"

text \<open>
  \<^verbatim>\<open>toStringPiece\<close> casts the number of readable bytes to \<^verbatim>\<open>int\<close>, and \<^verbatim>\<open>append\<close> casts it back to \<^verbatim>\<open>size_t\<close>. A negative
  length is then close to \<open>2 ^ 64\<close>: the new vector cannot be resized to it, or, when \<open>len + kCheapPrepend\<close> wraps
  around to a small number, the assertion of \<^verbatim>\<open>makeSpace\<close> fails.
\<close>

definition piece_length :: "buffer \<Rightarrow> int" where
  "piece_length b = sint (word_of_nat (readableBytes b) :: 32 word)"

definition shrink :: "nat \<Rightarrow> buffer \<Rightarrow> buffer result" where
  "shrink reserve b =
     andThen (buffer_ctor kInitialSize) (\<lambda>other.
     andThen (ensureWritableBytes (readableBytes b + reserve) other) (\<lambda>other.
     let len = piece_length b in
     andThen (if 0 \<le> len then buffer_append (take (nat len) (content b)) other
              else if len < - int kCheapPrepend then Inl LengthError else Inl AssertFailed) (\<lambda>other.
     Inr (fst (buffer_swap b other)))))"

text \<open>
  \<^verbatim>\<open>Buffer::readFd\<close>. The parameter \<open>readv\<close> is the kernel's \<^verbatim>\<open>readv(2)\<close> on the descriptor: given
  the total length of the iovecs it returns the bytes read, or \<open>None\<close> on error. The result is
  \<^verbatim>\<open>n\<close> (-1 on error).
\<close>

definition extrabuf_size :: nat where "extrabuf_size = 65536"

definition readFd_cap :: "buffer \<Rightarrow> nat" where
  "readFd_cap b = (if writableBytes b < extrabuf_size then writableBytes b + extrabuf_size
                   else writableBytes b)"

definition readFd :: "(nat \<Rightarrow> string option) \<Rightarrow> buffer \<Rightarrow> (int \<times> buffer) result" where
  "readFd readv b =
     (let writable = writableBytes b
      in case readv (readFd_cap b) of
           None \<Rightarrow> Inr (-1, b)
         | Some bs \<Rightarrow>
             let n = length bs;
                 b1 = b\<lparr>buf_data := copy_at (writerIndex b) (take writable bs) (buf_data b)\<rparr>
             in if n \<le> writable
                then Inr (int n, b1\<lparr>writerIndex := writerIndex b + n\<rparr>)
                else andThen (buffer_append (drop writable bs)
                                (b1\<lparr>writerIndex := length (buf_data b1)\<rparr>)) (\<lambda>b2.
                     Inr (int n, b2)))"

text \<open>A sequence of \<^verbatim>\<open>append\<close> calls, as the printers of the HTTP layer make it.\<close>

fun append_each :: "string list \<Rightarrow> buffer \<Rightarrow> buffer result" where
  "append_each [] b = Inr b"
| "append_each (s # ss) b = andThen (buffer_append s b) (append_each ss)"

subsection \<open>Integers in network byte order\<close>

text \<open>
  The memory image of an integer on the little-endian hosts the server is built for, the
  integer a byte sequence is the image of, and the byte swap that \<^verbatim>\<open>htobe16/32/64\<close> and
  \<^verbatim>\<open>be16/32/64toh\<close> are on such hosts (\<^verbatim>\<open>net/Endian.h\<close>). A signed value and the unsigned one it is
  cast to are the same word.
\<close>

definition mem_bytes :: "nat \<Rightarrow> 'a::len word \<Rightarrow> string" where
  "mem_bytes n w = map (\<lambda>i. char_of (unat w div 256 ^ i)) [0..<n]"

definition mem_word :: "string \<Rightarrow> 'a::len word" where
  "mem_word s = of_nat (horner_sum of_char 256 s)"

definition hostToNetwork64 :: "64 word \<Rightarrow> 64 word" where
  "hostToNetwork64 w = mem_word (rev (mem_bytes 8 w))"
definition hostToNetwork32 :: "32 word \<Rightarrow> 32 word" where
  "hostToNetwork32 w = mem_word (rev (mem_bytes 4 w))"
definition hostToNetwork16 :: "16 word \<Rightarrow> 16 word" where
  "hostToNetwork16 w = mem_word (rev (mem_bytes 2 w))"
definition networkToHost64 :: "64 word \<Rightarrow> 64 word" where
  "networkToHost64 w = mem_word (rev (mem_bytes 8 w))"
definition networkToHost32 :: "32 word \<Rightarrow> 32 word" where
  "networkToHost32 w = mem_word (rev (mem_bytes 4 w))"
definition networkToHost16 :: "16 word \<Rightarrow> 16 word" where
  "networkToHost16 w = mem_word (rev (mem_bytes 2 w))"

definition appendInt64 :: "64 word \<Rightarrow> buffer \<Rightarrow> buffer result" where
  "appendInt64 x = buffer_append (mem_bytes 8 (hostToNetwork64 x))"
definition appendInt32 :: "32 word \<Rightarrow> buffer \<Rightarrow> buffer result" where
  "appendInt32 x = buffer_append (mem_bytes 4 (hostToNetwork32 x))"
definition appendInt16 :: "16 word \<Rightarrow> buffer \<Rightarrow> buffer result" where
  "appendInt16 x = buffer_append (mem_bytes 2 (hostToNetwork16 x))"
definition appendInt8 :: "8 word \<Rightarrow> buffer \<Rightarrow> buffer result" where
  "appendInt8 x = buffer_append (mem_bytes 1 x)"

definition peekInt64 :: "buffer \<Rightarrow> 64 word result" where
  "peekInt64 b = andThen (check (8 \<le> readableBytes b)) (\<lambda>_.
     Inr (networkToHost64 (mem_word (byte_range b (peek b) (peek b + 8)))))"
definition peekInt32 :: "buffer \<Rightarrow> 32 word result" where
  "peekInt32 b = andThen (check (4 \<le> readableBytes b)) (\<lambda>_.
     Inr (networkToHost32 (mem_word (byte_range b (peek b) (peek b + 4)))))"
definition peekInt16 :: "buffer \<Rightarrow> 16 word result" where
  "peekInt16 b = andThen (check (2 \<le> readableBytes b)) (\<lambda>_.
     Inr (networkToHost16 (mem_word (byte_range b (peek b) (peek b + 2)))))"
definition peekInt8 :: "buffer \<Rightarrow> 8 word result" where
  "peekInt8 b = andThen (check (1 \<le> readableBytes b)) (\<lambda>_.
     Inr (mem_word (byte_range b (peek b) (peek b + 1))))"

definition readInt64 :: "buffer \<Rightarrow> (64 word \<times> buffer) result" where
  "readInt64 b = andThen (peekInt64 b) (\<lambda>x. andThen (retrieveInt64 b) (\<lambda>b'. Inr (x, b')))"
definition readInt32 :: "buffer \<Rightarrow> (32 word \<times> buffer) result" where
  "readInt32 b = andThen (peekInt32 b) (\<lambda>x. andThen (retrieveInt32 b) (\<lambda>b'. Inr (x, b')))"
definition readInt16 :: "buffer \<Rightarrow> (16 word \<times> buffer) result" where
  "readInt16 b = andThen (peekInt16 b) (\<lambda>x. andThen (retrieveInt16 b) (\<lambda>b'. Inr (x, b')))"
definition readInt8 :: "buffer \<Rightarrow> (8 word \<times> buffer) result" where
  "readInt8 b = andThen (peekInt8 b) (\<lambda>x. andThen (retrieveInt8 b) (\<lambda>b'. Inr (x, b')))"

definition prependInt64 :: "64 word \<Rightarrow> buffer \<Rightarrow> buffer result" where
  "prependInt64 x = prepend (mem_bytes 8 (hostToNetwork64 x))"
definition prependInt32 :: "32 word \<Rightarrow> buffer \<Rightarrow> buffer result" where
  "prependInt32 x = prepend (mem_bytes 4 (hostToNetwork32 x))"
definition prependInt16 :: "16 word \<Rightarrow> buffer \<Rightarrow> buffer result" where
  "prependInt16 x = prepend (mem_bytes 2 (hostToNetwork16 x))"
definition prependInt8 :: "8 word \<Rightarrow> buffer \<Rightarrow> buffer result" where
  "prependInt8 x = prepend (mem_bytes 1 x)"

section \<open>Behaviour\<close>

lemmas buffer_defs = readableBytes_def writableBytes_def prependableBytes_def peek_def
  beginWrite_def byte_range_def content_def buffer_wf_def kCheapPrepend_def kInitialSize_def

definition fresh_buffer :: "nat \<Rightarrow> buffer" where
  "fresh_buffer n = \<lparr>buf_data = replicate (kCheapPrepend + n) NUL,
     readerIndex = kCheapPrepend, writerIndex = kCheapPrepend\<rparr>"

lemma buffer_ctor_eq [simp]: "buffer_ctor n = Inr (fresh_buffer n)"
  by (simp add: buffer_ctor_def fresh_buffer_def Let_def buffer_defs)

lemma fresh_buffer_wf [simp]: "buffer_wf (fresh_buffer n)" "content (fresh_buffer n) = []"
  by (simp_all add: fresh_buffer_def buffer_defs)

lemma length_content: "buffer_wf b \<Longrightarrow> length (content b) = readableBytes b"
  by (auto simp: buffer_defs)

lemma retrieveAll_ok [simp]: "buffer_wf b \<Longrightarrow> buffer_wf (retrieveAll b)" "content (retrieveAll b) = []"
  by (simp_all add: retrieveAll_def buffer_defs)

lemma retrieve_ok:
  assumes "buffer_wf b" "n \<le> length (content b)"
  shows "\<exists>b'. retrieve n b = Inr b' \<and> buffer_wf b' \<and> content b' = drop n (content b)"
proof (cases "n < readableBytes b")
  case True
  with assms show ?thesis
    by (auto simp: retrieve_def buffer_defs drop_take add.commute)
next
  case False
  then show ?thesis using assms by (auto simp: retrieve_def length_content)
qed

lemma retrieve_abort:
  "buffer_wf b \<Longrightarrow> length (content b) < n \<Longrightarrow> retrieve n b = Inl AssertFailed"
  by (simp add: retrieve_def length_content)

lemma retrieveUntil_ok:
  assumes "buffer_wf b" "n \<le> length (content b)"
  shows "\<exists>b'. retrieveUntil (peek b + n) b = Inr b' \<and> buffer_wf b' \<and> content b' = drop n (content b)"
proof -
  have "peek b + n \<le> beginWrite b" using assms by (auto simp: buffer_defs)
  then show ?thesis using retrieve_ok[OF assms] by (simp add: retrieveUntil_def)
qed

lemma makeSpace_ok:
  assumes "buffer_wf b" "writableBytes b < len"
  shows "\<exists>b'. makeSpace len b = Inr b' \<and> buffer_wf b' \<and> content b' = content b
    \<and> len \<le> writableBytes b'"
proof (cases "writableBytes b + prependableBytes b < len + kCheapPrepend")
  case True
  with assms show ?thesis
    by (auto simp: makeSpace_def resize_def buffer_defs intro!: exI[of _ "b\<lparr>buf_data := _\<rparr>"])
next
  case False
  then have r: "kCheapPrepend < readerIndex b" using assms by (simp add: buffer_defs)
  let ?b' = "b\<lparr>buf_data := copy_at kCheapPrepend (content b) (buf_data b),
    readerIndex := kCheapPrepend, writerIndex := kCheapPrepend + readableBytes b\<rparr>"
  have eq: "makeSpace len b = Inr ?b'"
    using False r by (simp add: makeSpace_def Let_def readableBytes_def)
  have "buffer_wf ?b'" "content ?b' = content b" "len \<le> writableBytes ?b'"
    using assms r False by (auto simp: copy_at_def buffer_defs)
  with eq show ?thesis by blast
qed

lemma ensureWritableBytes_ok:
  assumes "buffer_wf b"
  shows "\<exists>b'. ensureWritableBytes len b = Inr b' \<and> buffer_wf b' \<and> content b' = content b
    \<and> len \<le> writableBytes b'"
  using assms makeSpace_ok[OF assms, of len]
  by (cases "writableBytes b < len") (auto simp: ensureWritableBytes_def)

lemma read_back_copy:
  assumes "r \<le> w" "w + length s \<le> length xs"
  shows "take (w + length s - r) (drop r (copy_at w s xs)) = take (w - r) (drop r xs) @ s"
proof -
  have "drop r (copy_at w s xs) = take (w - r) (drop r xs) @ s @ drop (w + length s) xs"
    using assms by (simp add: copy_at_def drop_take)
  moreover have "w + length s - r = length (take (w - r) (drop r xs)) + length s"
    using assms by simp
  ultimately show ?thesis by (simp only: take_append) simp
qed

lemma length_copy_at [simp]: "i + length s \<le> length xs \<Longrightarrow> length (copy_at i s xs) = length xs"
  by (simp add: copy_at_def)

lemma write_at_end:
  assumes "buffer_wf b" "length s \<le> writableBytes b"
  shows "\<exists>b'. hasWritten (length s) (b\<lparr>buf_data := copy_at (beginWrite b) s (buf_data b)\<rparr>) = Inr b'
    \<and> buffer_wf b' \<and> content b' = content b @ s"
  using assms by (auto simp: hasWritten_def buffer_defs read_back_copy)

lemma buffer_append_ok:
  assumes "buffer_wf b"
  shows "\<exists>b'. buffer_append s b = Inr b' \<and> buffer_wf b' \<and> content b' = content b @ s"
proof -
  obtain b1 where "ensureWritableBytes (length s) b = Inr b1" "buffer_wf b1"
      "content b1 = content b" "length s \<le> writableBytes b1"
    using ensureWritableBytes_ok[OF assms] by blast
  with write_at_end[of b1 s] show ?thesis by (auto simp: buffer_append_def)
qed

interpretation buf: byte_fifo content buffer_append retrieve buffer_wf
  by unfold_locales (simp_all add: buffer_append_ok retrieve_ok retrieve_abort)

lemma append_each_put_each: "append_each ss b = buf.put_each ss b"
  by (induction ss arbitrary: b) (auto simp: andThen_def split: sum.splits)

lemmas append_each_ok = buf.put_each_ok[folded append_each_put_each]

text \<open>
  A read either fails and leaves the buffer alone, or adds exactly the bytes the kernel
  delivered, whether they fit the writable space or spill into the stack buffer.
\<close>

lemma readFd_error: "readv (readFd_cap b) = None \<Longrightarrow> readFd readv b = Inr (-1, b)"
  by (simp add: readFd_def Let_def)

lemma readFd_fits:
  assumes "buffer_wf b" "readv (readFd_cap b) = Some bs" "length bs \<le> writableBytes b"
  shows "\<exists>b'. readFd readv b = Inr (int (length bs), b') \<and> buffer_wf b' \<and> content b' = content b @ bs"
  using assms by (auto simp: readFd_def Let_def buffer_defs read_back_copy)

lemma readFd_spills:
  assumes wf: "buffer_wf b" and bs: "readv (readFd_cap b) = Some bs" "writableBytes b < length bs"
  shows "\<exists>b'. readFd readv b = Inr (int (length bs), b') \<and> buffer_wf b' \<and> content b' = content b @ bs"
proof -
  let ?w = "writableBytes b"
  let ?b1 = "b\<lparr>buf_data := copy_at (writerIndex b) (take ?w bs) (buf_data b)\<rparr>"
  let ?b2 = "?b1\<lparr>writerIndex := length (buf_data ?b1)\<rparr>"
  have "buffer_wf ?b2" "content ?b2 = content b @ take ?w bs"
    using assms by (auto simp: copy_at_def buffer_defs min_def drop_take)
  then obtain b3 where "buffer_append (drop ?w bs) ?b2 = Inr b3" "buffer_wf b3"
      "content b3 = content b @ bs"
    using buffer_append_ok[of ?b2 "drop ?w bs"] by auto
  with bs show ?thesis by (auto simp: readFd_def Let_def)
qed

lemma readFd_ok:
  assumes "buffer_wf b" "readv (readFd_cap b) = Some bs"
  shows "\<exists>b'. readFd readv b = Inr (int (length bs), b') \<and> buffer_wf b' \<and> content b' = content b @ bs"
  using readFd_fits[of b readv bs] readFd_spills[of b readv bs] assms by (cases "length bs \<le> writableBytes b") auto

subsection \<open>Other operations\<close>

lemma prepend_ok:
  assumes "buffer_wf b" "length s \<le> prependableBytes b"
  shows "\<exists>b'. prepend s b = Inr b' \<and> buffer_wf b' \<and> content b' = s @ content b"
proof -
  let ?r = "readerIndex b - length s"
  have "drop ?r (copy_at ?r s (buf_data b)) = s @ drop (readerIndex b) (buf_data b)"
    using assms by (auto simp: copy_at_def buffer_defs)
  then show ?thesis using assms by (auto simp: prepend_def Let_def buffer_defs)
qed

lemma prepend_abort:
  "buffer_wf b \<Longrightarrow> prependableBytes b < length s \<Longrightarrow> prepend s b = Inl AssertFailed"
  by (simp add: prepend_def)

lemma unwrite_ok:
  assumes "buffer_wf b" "n \<le> length (content b)"
  shows "\<exists>b'. unwrite n b = Inr b' \<and> buffer_wf b' \<and>
    content b' = take (length (content b) - n) (content b)"
proof -
  have "n \<le> writerIndex b - readerIndex b" using assms by (auto simp: buffer_defs)
  moreover have "length (content b) = writerIndex b - readerIndex b"
    using assms(1) by (simp add: length_content readableBytes_def)
  moreover have "writerIndex b - n - readerIndex b = writerIndex b - readerIndex b - n" by simp
  ultimately show ?thesis using assms(1)
    by (auto simp: unwrite_def buffer_defs)
qed

lemma shrink_ok:
  assumes "buffer_wf b" "length (content b) < 2 ^ 31"
  shows "\<exists>b'. shrink n b = Inr b' \<and> buffer_wf b' \<and> content b' = content b"
proof -
  have len: "piece_length b = int (length (content b))"
    using assms by (simp add: piece_length_def length_content signed_of_nat signed_take_bit_int_eq_self)
  obtain b1 where b1: "ensureWritableBytes (readableBytes b + n) (fresh_buffer kInitialSize) = Inr b1"
      "buffer_wf b1" "content b1 = []"
    using ensureWritableBytes_ok[OF fresh_buffer_wf(1)] by fastforce
  then obtain b2 where "buffer_append (content b) b1 = Inr b2" "buffer_wf b2" "content b2 = content b"
    using buffer_append_ok[of b1 "content b"] by auto
  with b1 show ?thesis by (simp add: shrink_def buffer_swap_def len)
qed

lemma retrieveAllAsString_ok:
  "buffer_wf b \<Longrightarrow> retrieveAllAsString b = Inr (content b, retrieveAll b)"
  by (auto simp: retrieveAllAsString_def retrieveAsString_def retrieve_def buffer_defs)

lemma byte_range_prefix:
  assumes "buffer_wf b" "n \<le> length (content b)"
  shows "byte_range b (peek b) (peek b + n) = take n (content b)"
proof -
  have "n \<le> writerIndex b - readerIndex b" using assms by (auto simp: buffer_defs)
  then show ?thesis by (simp add: buffer_defs min_def)
qed

subsection \<open>Line ends\<close>

lemma search_crlf_Some:
  "search_crlf s = Some i \<Longrightarrow> i + 2 \<le> length s \<and> s = take i s @ CRLF @ drop (i + 2) s"
  by (induction s arbitrary: i rule: search_crlf.induct) (auto split: if_splits)

lemma search_crlf_take: "search_crlf s = Some i \<Longrightarrow> search_crlf (take i s) = None"
proof (induction s arbitrary: i rule: search_crlf.induct)
  case (1 a b s)
  show ?case
  proof (cases "a = CR \<and> b = LF")
    case True with 1 show ?thesis by auto
  next
    case False
    with 1 obtain j where j: "search_crlf (b # s) = Some j" "i = Suc j" by auto
    with 1(1)[OF False j(1)] False show ?thesis by (cases j) auto
  qed
qed auto

lemma search_crlf_append: "search_crlf s = Some i \<Longrightarrow> search_crlf (s @ t) = Some i"
  by (induction s arbitrary: i rule: search_crlf.induct) (auto split: if_splits)

lemma search_crlf_line: "search_crlf s = None \<Longrightarrow> search_crlf (s @ CRLF @ t) = Some (length s)"
  by (induction s rule: search_crlf.induct) (auto split: if_splits)

lemma search_crlf_no_CR: "CR \<notin> set s \<Longrightarrow> search_crlf s = None"
  by (induction s rule: search_crlf.induct) auto

lemma findCRLF_content:
  "findCRLF b = map_option (\<lambda>i. peek b + i) (search_crlf (content b))"
  by (simp add: findCRLF_def content_def peek_def beginWrite_def)

subsection \<open>Network byte order\<close>

lemma of_char_nat_less: "(of_char c :: nat) < 256"
  by (metis mod_less_divisor of_char_mod_256 zero_less_numeral)

lemma map_upt_Suc: "map f [0..<Suc n] = f 0 # map (\<lambda>i. f (Suc i)) [0..<n]"
  by (induction n) auto

lemma horner_char_of:
  "horner_sum of_char 256 (map (\<lambda>i. char_of (m div 256 ^ i)) [0..<n]) = m mod (256 ^ n :: nat)"
proof (induction n arbitrary: m)
  case (Suc n)
  have "horner_sum of_char 256 (map (\<lambda>i. char_of (m div 256 ^ i)) [0..<Suc n])
    = of_char (char_of m :: char) + 256 *
      horner_sum of_char 256 (map (\<lambda>i. char_of (m div 256 div 256 ^ i)) [0..<n])"
    by (simp add: map_upt_Suc div_mult2_eq del: upt_Suc)
  also have "\<dots> = m mod 256 + 256 * (m div 256 mod 256 ^ n)"
    by (simp add: Suc.IH)
  also have "\<dots> = m mod 256 ^ Suc n" by (simp add: mod_mult2_eq)
  finally show ?case .
qed simp

lemma horner_less: "horner_sum of_char 256 s < (256 ^ length s :: nat)"
proof (induction s)
  case (Cons c s)
  have "horner_sum of_char 256 (c # s) = (of_char c :: nat) + 256 * horner_sum of_char 256 s"
    "256 ^ length (c # s) = 256 * (256 ^ length s :: nat)" by simp_all
  with Cons of_char_nat_less[of c] show ?case by linarith
qed simp

lemma char_of_horner:
  "map (\<lambda>i. char_of ((horner_sum of_char 256 s :: nat) div 256 ^ i)) [0..<length s] = s"
proof (induction s)
  case (Cons c s)
  let ?h = "horner_sum of_char 256 s :: nat"
  have c: "(of_char c :: nat) < 256" by (rule of_char_nat_less)
  have "(of_char c + 256 * ?h) div 256 ^ Suc i = ?h div 256 ^ i" for i
    using c by (simp add: div_mult2_eq)
  moreover have "char_of (of_char c + 256 * ?h) = c"
    by (subst char_of_mod_256[symmetric]) (simp del: char_of_mod_256)
  ultimately show ?case using Cons
    by (simp add: map_upt_Suc del: upt_Suc power_Suc)
qed simp

lemma mem_word_mem_bytes:
  fixes w :: "'a::len word"
  assumes "LENGTH('a) = 8 * n"
  shows "mem_word (mem_bytes n w) = w"
proof -
  have "(256 :: nat) ^ n = 2 ^ LENGTH('a)" by (simp add: assms power_mult)
  then have "unat w mod 256 ^ n = unat w" by (simp add: unsigned_less)
  then show ?thesis by (simp add: mem_word_def mem_bytes_def horner_char_of)
qed

lemma mem_bytes_mem_word:
  assumes "LENGTH('a) = 8 * length s"
  shows "mem_bytes (length s) (mem_word s :: 'a::len word) = s"
proof -
  have "(256 :: nat) ^ length s = 2 ^ LENGTH('a)" by (simp add: assms power_mult)
  then have "unat (mem_word s :: 'a word) = horner_sum of_char 256 s"
    using horner_less[of s] by (simp add: mem_word_def unat_of_nat)
  then show ?thesis by (simp add: mem_bytes_def char_of_horner)
qed

lemma length_mem_bytes [simp]: "length (mem_bytes n w) = n"
  by (simp add: mem_bytes_def)

lemma swap_swap:
  assumes "LENGTH('a) = 8 * n"
  shows "mem_word (rev (mem_bytes n (mem_word (rev (mem_bytes n (w :: 'a::len word))) :: 'a word))) = w"
  using mem_bytes_mem_word[of "rev (mem_bytes n w)", where 'a='a] mem_word_mem_bytes[OF assms, of w] assms
  by simp

text \<open>Byte swapping is an involution, so the two directions of \<^verbatim>\<open>net/Endian.h\<close> are inverse.\<close>

lemma network_host_inverse:
  "networkToHost64 (hostToNetwork64 a) = a"
  "networkToHost32 (hostToNetwork32 b) = b"
  "networkToHost16 (hostToNetwork16 c) = c"
  by (simp_all add: networkToHost64_def hostToNetwork64_def networkToHost32_def hostToNetwork32_def
      networkToHost16_def hostToNetwork16_def swap_swap)

lemma wire_bytes:
  "mem_bytes 8 (hostToNetwork64 a) = rev (mem_bytes 8 a)"
  "mem_bytes 4 (hostToNetwork32 b) = rev (mem_bytes 4 b)"
  "mem_bytes 2 (hostToNetwork16 c) = rev (mem_bytes 2 c)"
  using mem_bytes_mem_word[of "rev (mem_bytes 8 a)", where 'a=64]
    mem_bytes_mem_word[of "rev (mem_bytes 4 b)", where 'a=32]
    mem_bytes_mem_word[of "rev (mem_bytes 2 c)", where 'a=16]
  by (simp_all add: hostToNetwork64_def hostToNetwork32_def hostToNetwork16_def)

lemma readInt64_content:
  assumes "buffer_wf b" "content b = mem_bytes 8 (hostToNetwork64 x) @ t"
  shows "\<exists>b'. readInt64 b = Inr (x, b') \<and> buffer_wf b' \<and> content b' = t"
  using assms retrieve_ok[of b 8] byte_range_prefix[of b 8] length_content[of b]
  by (auto simp: readInt64_def peekInt64_def retrieveInt64_def mem_word_mem_bytes network_host_inverse)

lemma readInt32_content:
  assumes "buffer_wf b" "content b = mem_bytes 4 (hostToNetwork32 x) @ t"
  shows "\<exists>b'. readInt32 b = Inr (x, b') \<and> buffer_wf b' \<and> content b' = t"
  using assms retrieve_ok[of b 4] byte_range_prefix[of b 4] length_content[of b]
  by (auto simp: readInt32_def peekInt32_def retrieveInt32_def mem_word_mem_bytes network_host_inverse)

lemma readInt16_content:
  assumes "buffer_wf b" "content b = mem_bytes 2 (hostToNetwork16 x) @ t"
  shows "\<exists>b'. readInt16 b = Inr (x, b') \<and> buffer_wf b' \<and> content b' = t"
  using assms retrieve_ok[of b 2] byte_range_prefix[of b 2] length_content[of b]
  by (auto simp: readInt16_def peekInt16_def retrieveInt16_def mem_word_mem_bytes network_host_inverse)

lemma readInt8_content:
  assumes "buffer_wf b" "content b = mem_bytes 1 x @ t"
  shows "\<exists>b'. readInt8 b = Inr (x, b') \<and> buffer_wf b' \<and> content b' = t"
  using assms retrieve_ok[of b 1] byte_range_prefix[of b 1] length_content[of b]
  by (auto simp: readInt8_def peekInt8_def retrieveInt8_def mem_word_mem_bytes)

lemma appendInt64_read:
  assumes "buffer_wf b" "content b = []"
  shows "\<exists>b1 b2. appendInt64 x b = Inr b1 \<and> content b1 = rev (mem_bytes 8 x)
      \<and> readInt64 b1 = Inr (x, b2) \<and> content b2 = []"
  using buffer_append_ok[OF assms(1), of "mem_bytes 8 (hostToNetwork64 x)"] assms(2)
    readInt64_content[of _ x "[]"] by (fastforce simp: appendInt64_def wire_bytes)

lemma appendInt32_read:
  assumes "buffer_wf b" "content b = []"
  shows "\<exists>b1 b2. appendInt32 x b = Inr b1 \<and> content b1 = rev (mem_bytes 4 x)
      \<and> readInt32 b1 = Inr (x, b2) \<and> content b2 = []"
  using buffer_append_ok[OF assms(1), of "mem_bytes 4 (hostToNetwork32 x)"] assms(2)
    readInt32_content[of _ x "[]"] by (fastforce simp: appendInt32_def wire_bytes)

lemma appendInt16_read:
  assumes "buffer_wf b" "content b = []"
  shows "\<exists>b1 b2. appendInt16 x b = Inr b1 \<and> content b1 = rev (mem_bytes 2 x)
      \<and> readInt16 b1 = Inr (x, b2) \<and> content b2 = []"
  using buffer_append_ok[OF assms(1), of "mem_bytes 2 (hostToNetwork16 x)"] assms(2)
    readInt16_content[of _ x "[]"] by (fastforce simp: appendInt16_def wire_bytes)

lemma appendInt8_read:
  assumes "buffer_wf b" "content b = []"
  shows "\<exists>b1 b2. appendInt8 x b = Inr b1 \<and> readInt8 b1 = Inr (x, b2) \<and> content b2 = []"
  using buffer_append_ok[OF assms(1), of "mem_bytes 1 x"] assms(2)
    readInt8_content[of _ x "[]"] by (fastforce simp: appendInt8_def)

text \<open>Integers of any bytes: the first byte is the most significant.\<close>

lemma network_word:
  "length s = 8 \<Longrightarrow> networkToHost64 (mem_word s) = mem_word (rev s)"
  "length s = 4 \<Longrightarrow> networkToHost32 (mem_word s) = mem_word (rev s)"
  "length s = 2 \<Longrightarrow> networkToHost16 (mem_word s) = mem_word (rev s)"
  using mem_bytes_mem_word[of s, where 'a=64] mem_bytes_mem_word[of s, where 'a=32] mem_bytes_mem_word[of s, where 'a=16]
  by (simp_all add: networkToHost64_def networkToHost32_def networkToHost16_def)

definition big_endian :: "string \<Rightarrow> 'a::len word" where
  "big_endian s = mem_word (rev s)"

lemma readInt_ok:
  assumes "buffer_wf b"
  shows "if 8 \<le> length (content b)
      then \<exists>b'. readInt64 b = Inr (big_endian (take 8 (content b)), b') \<and> buffer_wf b' \<and> content b' = drop 8 (content b)
      else readInt64 b = Inl AssertFailed"
    "if 4 \<le> length (content b)
      then \<exists>b'. readInt32 b = Inr (big_endian (take 4 (content b)), b') \<and> buffer_wf b' \<and> content b' = drop 4 (content b)
      else readInt32 b = Inl AssertFailed"
    "if 2 \<le> length (content b)
      then \<exists>b'. readInt16 b = Inr (big_endian (take 2 (content b)), b') \<and> buffer_wf b' \<and> content b' = drop 2 (content b)
      else readInt16 b = Inl AssertFailed"
    "if 1 \<le> length (content b)
      then \<exists>b'. readInt8 b = Inr (big_endian (take 1 (content b)), b') \<and> buffer_wf b' \<and> content b' = drop 1 (content b)
      else readInt8 b = Inl AssertFailed"
proof -
  have len: "readableBytes b = length (content b)"
    using assms by (simp add: length_content)
  note defs = readInt64_def readInt32_def readInt16_def readInt8_def peekInt64_def peekInt32_def peekInt16_def peekInt8_def
    retrieveInt64_def retrieveInt32_def retrieveInt16_def retrieveInt8_def len network_word big_endian_def byte_range_prefix [OF assms]
  show "if 8 \<le> length (content b)
      then \<exists>b'. readInt64 b = Inr (big_endian (take 8 (content b)), b') \<and> buffer_wf b' \<and> content b' = drop 8 (content b)
      else readInt64 b = Inl AssertFailed"
    using retrieve_ok[OF assms, of 8] by (auto simp: defs)
  show "if 4 \<le> length (content b)
      then \<exists>b'. readInt32 b = Inr (big_endian (take 4 (content b)), b') \<and> buffer_wf b' \<and> content b' = drop 4 (content b)
      else readInt32 b = Inl AssertFailed"
    using retrieve_ok[OF assms, of 4] by (auto simp: defs)
  show "if 2 \<le> length (content b)
      then \<exists>b'. readInt16 b = Inr (big_endian (take 2 (content b)), b') \<and> buffer_wf b' \<and> content b' = drop 2 (content b)
      else readInt16 b = Inl AssertFailed"
    using retrieve_ok[OF assms, of 2] byte_range_prefix[OF assms, of 2] by (auto simp: defs simp del: add_2_eq_Suc')
  have "rev (take 1 (content b)) = take 1 (content b)"
    by (cases "content b") simp_all
  then show "if 1 \<le> length (content b)
      then \<exists>b'. readInt8 b = Inr (big_endian (take 1 (content b)), b') \<and> buffer_wf b' \<and> content b' = drop 1 (content b)
      else readInt8 b = Inl AssertFailed"
    using retrieve_ok[OF assms, of 1] by (auto simp: defs simp del: One_nat_def)
qed

lemma retrieveUntil_abort:
  "buffer_wf b \<Longrightarrow> \<not> (peek b \<le> e \<and> e \<le> beginWrite b) \<Longrightarrow> retrieveUntil e b = Inl AssertFailed"
  by (cases "peek b \<le> e") (simp_all add: retrieveUntil_def)

lemma retrieveAsString_ok:
  assumes "buffer_wf b"
  shows "if n \<le> length (content b)
    then \<exists>b'. retrieveAsString n b = Inr (take n (content b), b') \<and> buffer_wf b' \<and> content b' = drop n (content b)
    else retrieveAsString n b = Inl AssertFailed"
  using retrieve_ok[OF assms, of n] by (auto simp: retrieveAsString_def length_content[OF assms, symmetric] byte_range_prefix[OF assms])

section \<open>Properties\<close>

text \<open>
  (C1) Refinement to a byte queue. On every well-formed buffer, whatever the index positions, each of these keeps the
  buffer well formed and does to the readable bytes what it does to a queue of bytes, or aborts where it has to:
  \<^verbatim>\<open>append\<close> adds at the end and never trips an assert, growing or compacting the vector as needed; \<^verbatim>\<open>ensureWritableBytes\<close> makes room and
  changes nothing; \<^verbatim>\<open>retrieve\<close>, \<^verbatim>\<open>retrieveUntil\<close> and \<^verbatim>\<open>retrieveAsString\<close> take a prefix and abort exactly when more is
  asked for than is there; \<^verbatim>\<open>retrieveAllAsString\<close> takes all; \<^verbatim>\<open>prepend\<close> adds in front and aborts exactly when there is no
  room; \<^verbatim>\<open>unwrite\<close> drops at the end; \<^verbatim>\<open>swap\<close> exchanges; the integers of 64, 32, 16 and 8 bits are appended and
  read most significant byte first; and \<^verbatim>\<open>shrink\<close> changes nothing for fewer than \<open>2 ^ 31\<close> readable bytes (beyond, its cast to \<^verbatim>\<open>int\<close> loses
  the length).
\<close>

theorem buffer_refines_byte_queue:
  assumes "buffer_wf b"
  shows "(\<exists>b1. buffer_append s b = Inr b1 \<and> buffer_wf b1 \<and> content b1 = content b @ s) \<and>
    (\<exists>b1. ensureWritableBytes n b = Inr b1 \<and> buffer_wf b1 \<and> content b1 = content b \<and> n \<le> writableBytes b1) \<and>
    (if n \<le> length (content b)
     then \<exists>b2. retrieve n b = Inr b2 \<and> buffer_wf b2 \<and> content b2 = drop n (content b)
     else retrieve n b = Inl AssertFailed) \<and>
    (if peek b \<le> e \<and> e \<le> beginWrite b
     then \<exists>b2. retrieveUntil e b = Inr b2 \<and> buffer_wf b2 \<and> content b2 = drop (e - peek b) (content b)
     else retrieveUntil e b = Inl AssertFailed) \<and>
    (if n \<le> length (content b)
     then \<exists>b2. retrieveAsString n b = Inr (take n (content b), b2) \<and> buffer_wf b2 \<and> content b2 = drop n (content b)
     else retrieveAsString n b = Inl AssertFailed) \<and>
    (\<exists>b3. retrieveAllAsString b = Inr (content b, b3) \<and> buffer_wf b3 \<and> content b3 = []) \<and>
    (if length s \<le> prependableBytes b
     then \<exists>b4. prepend s b = Inr b4 \<and> buffer_wf b4 \<and> content b4 = s @ content b
     else prepend s b = Inl AssertFailed) \<and>
    (if n \<le> length (content b)
     then \<exists>b5. unwrite n b = Inr b5 \<and> buffer_wf b5 \<and> content b5 = take (length (content b) - n) (content b)
     else unwrite n b = Inl AssertFailed) \<and>
    (length (content b) < 2 ^ 31 \<longrightarrow> (\<exists>b6. shrink n b = Inr b6 \<and> buffer_wf b6 \<and> content b6 = content b)) \<and>
    (\<forall>c. map content [fst (buffer_swap b c), snd (buffer_swap b c)] = [content c, content b]) \<and>
    (\<exists>b7. appendInt64 x64 b = Inr b7 \<and> buffer_wf b7 \<and> content b7 = content b @ rev (mem_bytes 8 x64)) \<and>
    (\<exists>b7. appendInt32 x32 b = Inr b7 \<and> buffer_wf b7 \<and> content b7 = content b @ rev (mem_bytes 4 x32)) \<and>
    (\<exists>b7. appendInt16 x16 b = Inr b7 \<and> buffer_wf b7 \<and> content b7 = content b @ rev (mem_bytes 2 x16)) \<and>
    (\<exists>b7. appendInt8 x8 b = Inr b7 \<and> buffer_wf b7 \<and> content b7 = content b @ mem_bytes 1 x8) \<and>
    (if 8 \<le> length (content b)
      then \<exists>b'. readInt64 b = Inr (big_endian (take 8 (content b)), b') \<and> buffer_wf b' \<and> content b' = drop 8 (content b)
      else readInt64 b = Inl AssertFailed) \<and>
    (if 4 \<le> length (content b)
      then \<exists>b'. readInt32 b = Inr (big_endian (take 4 (content b)), b') \<and> buffer_wf b' \<and> content b' = drop 4 (content b)
      else readInt32 b = Inl AssertFailed) \<and>
    (if 2 \<le> length (content b)
      then \<exists>b'. readInt16 b = Inr (big_endian (take 2 (content b)), b') \<and> buffer_wf b' \<and> content b' = drop 2 (content b)
      else readInt16 b = Inl AssertFailed) \<and>
    (if 1 \<le> length (content b)
      then \<exists>b'. readInt8 b = Inr (big_endian (take 1 (content b)), b') \<and> buffer_wf b' \<and> content b' = drop 1 (content b)
      else readInt8 b = Inl AssertFailed)"
proof (intro conjI readInt_ok[OF assms] retrieveAsString_ok[OF assms])
  show "if peek b \<le> e \<and> e \<le> beginWrite b
     then \<exists>b2. retrieveUntil e b = Inr b2 \<and> buffer_wf b2 \<and> content b2 = drop (e - peek b) (content b)
     else retrieveUntil e b = Inl AssertFailed"
    using retrieveUntil_ok[OF assms, of "e - peek b"] retrieveUntil_abort[OF assms, of e] length_content[OF assms]
    by (auto simp: beginWrite_def peek_def readableBytes_def)
  show "length (content b) < 2 ^ 31 \<longrightarrow> (\<exists>b6. shrink n b = Inr b6 \<and> buffer_wf b6 \<and> content b6 = content b)"
    using shrink_ok[OF assms] by blast
  show "if length s \<le> prependableBytes b then \<exists>b4. prepend s b = Inr b4 \<and> buffer_wf b4 \<and> content b4 = s @ content b
     else prepend s b = Inl AssertFailed"
    using prepend_ok[OF assms, of s] prepend_abort[OF assms, of s] by auto
  show "if n \<le> length (content b)
     then \<exists>b5. unwrite n b = Inr b5 \<and> buffer_wf b5 \<and> content b5 = take (length (content b) - n) (content b)
     else unwrite n b = Inl AssertFailed"
    using unwrite_ok[OF assms, of n] length_content[OF assms] by (auto simp: unwrite_def)
  show "\<exists>b1. ensureWritableBytes n b = Inr b1 \<and> buffer_wf b1 \<and> content b1 = content b \<and> n \<le> writableBytes b1"
    using ensureWritableBytes_ok[OF assms, of n] by blast
  show "\<forall>c. map content [fst (buffer_swap b c), snd (buffer_swap b c)] = [content c, content b]"
    by (simp add: buffer_swap_def)
qed (use assms in \<open>auto simp: buf.put_ok buf.discard_ok buf.discard_abort retrieveAllAsString_ok
    appendInt64_def appendInt32_def appendInt16_def appendInt8_def wire_bytes\<close>)

theorem buffer_refines_byte_queue_witness:
  "buffer_wf (fresh_buffer 4) \<and> writableBytes (fresh_buffer 4) = 4 \<and>
   (\<exists>b1. buffer_append ''hello, world'' (fresh_buffer 4) = Inr b1 \<and> buffer_wf b1
      \<and> content b1 = ''hello, world'') \<and>
   (\<exists>b6. shrink 4 (fresh_buffer 4) = Inr b6 \<and> content b6 = [])"
proof -
  note fresh = buffer_refines_byte_queue[OF fresh_buffer_wf(1), of "''hello, world''" 4 4 0]
  have "writableBytes (fresh_buffer 4) = 4"
    by (simp add: buffer_defs fresh_buffer_def)
  moreover have "\<exists>b1. buffer_append ''hello, world'' (fresh_buffer 4) = Inr b1 \<and> buffer_wf b1 \<and> content b1 = ''hello, world''"
    using fresh [THEN conjunct1] by simp
  moreover have "\<exists>b6. shrink 4 (fresh_buffer 4) = Inr b6 \<and> content b6 = []"
    using fresh [THEN conjunct2, THEN conjunct2, THEN conjunct2, THEN conjunct2, THEN conjunct2, THEN conjunct2,
        THEN conjunct2, THEN conjunct2, THEN conjunct1] by auto
  ultimately show ?thesis by simp
qed

text \<open>
  (C2) \<^verbatim>\<open>Buffer::readFd\<close> is a scatter read that loses and reorders nothing: for every
  answer of the kernel the buffer afterwards holds what it held before followed by exactly the
  bytes read, also when they overflow the writable space into the 64 KB stack buffer, and an
  error leaves it unchanged. The kernel's answer may be any.
\<close>

theorem readFd_appends_exactly:
  assumes "buffer_wf b"
  shows "case readv (readFd_cap b) of
      None \<Rightarrow> readFd readv b = Inr (-1, b)
    | Some bs \<Rightarrow> \<exists>b'. readFd readv b = Inr (int (length bs), b') \<and> buffer_wf b'
                 \<and> content b' = content b @ bs"
  using assms by (auto simp: readFd_error readFd_ok split: option.splits)

theorem readFd_appends_exactly_witness:
  "buffer_wf (fresh_buffer 2) \<and> (\<exists>b'. readFd (\<lambda>_. Some ''GET /'') (fresh_buffer 2) = Inr (5, b')
     \<and> content b' = ''GET /'')"
  using readFd_appends_exactly[OF fresh_buffer_wf(1), of "\<lambda>_. Some ''GET /''" 2] by auto

text \<open>
  Network-order integers round trip through the buffer at every width, and the wire
  image is the big-endian one: reading back what was appended to an empty buffer returns the
  value and leaves the buffer empty.
\<close>

theorem network_integers_roundtrip:
  assumes "buffer_wf b" "content b = []"
  shows "(\<exists>b1 b2. appendInt64 x64 b = Inr b1 \<and> content b1 = rev (mem_bytes 8 x64)
      \<and> readInt64 b1 = Inr (x64, b2) \<and> content b2 = []) \<and>
    (\<exists>b1 b2. appendInt32 x32 b = Inr b1 \<and> content b1 = rev (mem_bytes 4 x32)
      \<and> readInt32 b1 = Inr (x32, b2) \<and> content b2 = []) \<and>
    (\<exists>b1 b2. appendInt16 x16 b = Inr b1 \<and> content b1 = rev (mem_bytes 2 x16)
      \<and> readInt16 b1 = Inr (x16, b2) \<and> content b2 = []) \<and>
    (\<exists>b1 b2. appendInt8 x8 b = Inr b1 \<and> readInt8 b1 = Inr (x8, b2) \<and> content b2 = [])"
  by (intro conjI appendInt64_read[OF assms] appendInt32_read[OF assms] appendInt16_read[OF assms]
      appendInt8_read[OF assms])

theorem network_integers_roundtrip_witness:
  "\<exists>b1 b2. appendInt32 0x12345678 (fresh_buffer 1) = Inr b1
     \<and> content b1 = rev (mem_bytes 4 (0x12345678 :: 32 word))
     \<and> readInt32 b1 = Inr (0x12345678, b2) \<and> content b2 = []"
  using network_integers_roundtrip[OF fresh_buffer_wf(1)[of 1] fresh_buffer_wf(2)[of 1],
      where ?x32.0 = "0x12345678"] by blast

end
