(* ===== verification/Http_Request.thy ===== *)
theory Http_Request
  imports Net_Buffer
begin

text \<open>
  \<^verbatim>\<open>http/HttpRequest.h\<close>: the request message. The class is the record \<open>HttpRequest\<close>; its
  \<^verbatim>\<open>std::map\<close> of headers is an association list in key order. A \<^verbatim>\<open>Timestamp\<close> is the integer of
  microseconds it wraps.
\<close>

type_synonym timestamp = int

datatype http_method = kInvalid | kGet | kPost | kHead | kPut | kDelete | kTrace | kOptions

datatype http_version = kUnknown | kHttp10 | kHttp11

record HttpRequest =
  req_method :: http_method
  req_version :: http_version
  req_path :: string
  req_locationEndPos :: nat
  req_query :: string
  req_receiveTime :: timestamp
  req_headers :: "(string \<times> string) list"
  req_body :: string

definition HttpRequest_ctor :: HttpRequest where
  "HttpRequest_ctor = \<lparr>req_method = kInvalid, req_version = kUnknown, req_path = [],
     req_locationEndPos = 0, req_query = [], req_receiveTime = 0, req_headers = [], req_body = []\<rparr>"

definition setVersion :: "http_version \<Rightarrow> HttpRequest \<Rightarrow> HttpRequest" where
  "setVersion v r = r\<lparr>req_version := v\<rparr>"

definition versionString :: "HttpRequest \<Rightarrow> string" where
  "versionString r = (case req_version r of
     kHttp10 \<Rightarrow> ''HTTP/1.0'' | kHttp11 \<Rightarrow> ''HTTP/1.1'' | _ \<Rightarrow> ''UNKNOWN'')"

text \<open>The method named by a token; \<^verbatim>\<open>setMethod\<close> asserts that none was set before.\<close>

definition method_of :: "string \<Rightarrow> http_method" where
  "method_of m =
     (if m = ''GET'' then kGet
      else if m = ''POST'' then kPost
      else if m = ''HEAD'' then kHead
      else if m = ''PUT'' then kPut
      else if m = ''DELETE'' then kDelete
      else if m = ''TRACE'' then kTrace
      else if m = ''OPTIONS'' then kOptions
      else kInvalid)"

definition setMethod :: "string \<Rightarrow> HttpRequest \<Rightarrow> (bool \<times> HttpRequest) result" where
  "setMethod m r =
     andThen (check (req_method r = kInvalid)) (\<lambda>_.
     Inr (method_of m \<noteq> kInvalid, r\<lparr>req_method := method_of m\<rparr>))"

definition methodString :: "HttpRequest \<Rightarrow> string" where
  "methodString r = (case req_method r of
     kGet \<Rightarrow> ''GET'' | kPost \<Rightarrow> ''POST'' | kHead \<Rightarrow> ''HEAD'' | kPut \<Rightarrow> ''PUT''
   | kDelete \<Rightarrow> ''DELETE'' | kTrace \<Rightarrow> ''TRACE'' | kOptions \<Rightarrow> ''OPTIONS'' | _ \<Rightarrow> ''UNKNOWN'')"

definition setPath :: "string \<Rightarrow> HttpRequest \<Rightarrow> HttpRequest" where
  "setPath p r = r\<lparr>req_path := p, req_locationEndPos := length p\<rparr>"

definition setLocationEndPos :: "nat \<Rightarrow> HttpRequest \<Rightarrow> HttpRequest" where
  "setLocationEndPos pos r = r\<lparr>req_locationEndPos := pos\<rparr>"

definition setQuery :: "string \<Rightarrow> HttpRequest \<Rightarrow> HttpRequest" where
  "setQuery q r = r\<lparr>req_query := q\<rparr>"

definition setBody :: "string \<Rightarrow> HttpRequest \<Rightarrow> HttpRequest" where
  "setBody s r = r\<lparr>req_body := s\<rparr>"

definition setReceiveTime :: "timestamp \<Rightarrow> HttpRequest \<Rightarrow> HttpRequest" where
  "setReceiveTime t r = r\<lparr>req_receiveTime := t\<rparr>"

text \<open>The loops of \<^verbatim>\<open>addHeader\<close> that skip white space before the value and cut it after.\<close>

definition trim :: "string \<Rightarrow> string" where
  "trim s = rev (dropWhile isspace (rev (dropWhile isspace s)))"

definition addHeader_line :: "string \<Rightarrow> nat \<Rightarrow> HttpRequest \<Rightarrow> HttpRequest" where
  "addHeader_line line colon r =
     r\<lparr>req_headers := omap_put (take colon line) (trim (drop (colon + 1) line)) (req_headers r)\<rparr>"

definition addHeader :: "string \<Rightarrow> string \<Rightarrow> HttpRequest \<Rightarrow> HttpRequest" where
  "addHeader field val r = r\<lparr>req_headers := omap_put field val (req_headers r)\<rparr>"

definition getHeader :: "string \<Rightarrow> HttpRequest \<Rightarrow> string" where
  "getHeader field r = (case map_of (req_headers r) field of Some v \<Rightarrow> v | None \<Rightarrow> [])"

text \<open>\<^verbatim>\<open>swap\<close> exchanges every member except \<^verbatim>\<open>locationEndPos_\<close>.\<close>

definition request_swap :: "HttpRequest \<Rightarrow> HttpRequest \<Rightarrow> HttpRequest \<times> HttpRequest" where
  "request_swap a b =
     (b\<lparr>req_locationEndPos := req_locationEndPos a\<rparr>, a\<lparr>req_locationEndPos := req_locationEndPos b\<rparr>)"

definition header_pieces :: "(string \<times> string) list \<Rightarrow> string list" where
  "header_pieces hs = concat (map (\<lambda>(k, v). [k, '': '', v, CRLF]) hs)"

definition request_pieces :: "HttpRequest \<Rightarrow> string list" where
  "request_pieces r =
     [snprintf 64 (methodString r @ '' ''), req_path r, snprintf 64 ('' '' @ versionString r @ CRLF)]
     @ header_pieces (req_headers r)
     @ [CRLF]
     @ (if req_body r \<noteq> [] then [req_body r, CRLF] else [])"

definition request_appendToBuffer :: "HttpRequest \<Rightarrow> buffer \<Rightarrow> buffer result" where
  "request_appendToBuffer r output = append_each (request_pieces r) output"

definition reqLineToString :: "HttpRequest \<Rightarrow> string" where
  "reqLineToString r =
     snprintf 64 (methodString r @ '' '') @ req_path r @ snprintf 64 ('' '' @ versionString r)"

section \<open>Lemmas\<close>

lemmas request_defs = setVersion_def setPath_def setLocationEndPos_def setQuery_def setBody_def
  setReceiveTime_def addHeader_line_def addHeader_def

lemma method_roundtrip: "req_method r \<noteq> kInvalid \<Longrightarrow> method_of (methodString r) = req_method r"
  by (cases "req_method r") (simp_all add: methodString_def method_of_def)

lemma methodString_props:
  "CHR '' '' \<notin> set (methodString r)" "length (methodString r) \<le> 7" "CR \<notin> set (methodString r)"
  by (cases "req_method r"; simp add: methodString_def)+

lemma versionString_length: "length (versionString r) \<le> 8"
  by (cases "req_version r") (simp_all add: versionString_def)

lemma request_pieces_concat:
  "concat (request_pieces r) =
     methodString r @ '' '' @ req_path r @ '' '' @ versionString r @ CRLF
     @ concat (header_pieces (req_headers r)) @ CRLF
     @ (if req_body r \<noteq> [] then req_body r @ CRLF else [])"
  using methodString_props(2)[of r] versionString_length[of r]
  by (simp add: request_pieces_def snprintf_def)

lemma dropWhile_space_id: "s = [] \<or> \<not> isspace (hd s) \<Longrightarrow> dropWhile isspace s = s"
  by (cases s) auto

text \<open>A value with no white space at either end, as \<^verbatim>\<open>addHeader\<close> stores it.\<close>

definition trimmed :: "string \<Rightarrow> bool" where
  "trimmed s \<longleftrightarrow> s = [] \<or> (\<not> isspace (hd s) \<and> \<not> isspace (last s))"

lemma trim_trimmed: "trimmed (trim s)"
proof (cases "trim s = []")
  case False
  let ?u = "dropWhile isspace s"
  have ne: "dropWhile isspace (rev ?u) \<noteq> []" using False by (simp add: trim_def)
  then have u: "?u \<noteq> []" by (metis dropWhile.simps(1) rev.simps(1))
  have "\<not> isspace (last (trim s))"
    using hd_dropWhile[of isspace "rev ?u"] ne by (simp add: trim_def last_rev dropWhile_eq_Nil_conv)
  moreover have "hd (trim s) = hd ?u"
  proof -
    obtain p where "rev ?u = p @ dropWhile isspace (rev ?u)"
      by (metis takeWhile_dropWhile_id)
    then have "?u = rev (dropWhile isspace (rev ?u)) @ rev p" by (metis rev_append rev_rev_ident)
    then show ?thesis using ne by (metis hd_append2 rev_is_Nil_conv trim_def)
  qed
  moreover have "\<not> isspace (hd ?u)" using u hd_dropWhile[of isspace s] by blast
  ultimately show ?thesis by (simp add: trimmed_def)
qed (simp add: trimmed_def)

lemma trim_id: "trimmed v \<Longrightarrow> trim v = v"
  by (cases v rule: rev_cases) (auto simp: trim_def trimmed_def dropWhile_space_id)

lemma trim_pad: "trimmed v \<Longrightarrow> trim (CHR '' '' # v) = v"
  using trim_id[of v] by (simp add: trim_def)

lemma getHeader_addHeader:
  "getHeader f (addHeader f' v r) = (if f = f' then v else getHeader f r)"
  by (simp add: getHeader_def addHeader_def)

end
