(* ===== verification/Http_Context.thy ===== *)
theory Http_Context
  imports Http_Request
begin

text \<open>
  \<^verbatim>\<open>http/HttpContext.h\<close> and \<^verbatim>\<open>http/HttpContext.cpp\<close>: the incremental parser of requests, a
  state machine over the connection's input buffer. \<open>parseRequest\<close> is the loop of the source,
  with its termination proved; \<open>parse_stream\<close> is its specification on a plain byte sequence,
  and \<open>parseRequest_refines\<close> relates the two.
\<close>

datatype HttpRequestParseState = kExpectRequestLine | kExpectHeaders | kExpectBody | kGotAll

datatype HttpParseState = kParseOK | kBadMessage | kParseAgain | kHeaderEnd

record HttpContext =
  ctx_state :: HttpRequestParseState
  ctx_request :: HttpRequest
  ctx_timerPos :: "nat option"

definition HttpContext_ctor :: HttpContext where
  "HttpContext_ctor = \<lparr>ctx_state = kExpectRequestLine, ctx_request = HttpRequest_ctor,
     ctx_timerPos = None\<rparr>"

definition gotAll :: "HttpContext \<Rightarrow> bool" where
  "gotAll c \<longleftrightarrow> ctx_state c = kGotAll"

definition context_reset :: "HttpContext \<Rightarrow> HttpContext" where
  "context_reset c = c\<lparr>ctx_state := kExpectRequestLine,
     ctx_request := fst (request_swap (ctx_request c) HttpRequest_ctor)\<rparr>"

definition setTimerPos :: "nat option \<Rightarrow> HttpContext \<Rightarrow> HttpContext" where
  "setTimerPos p c = c\<lparr>ctx_timerPos := p\<rparr>"

section \<open>Lines\<close>

definition setTarget :: "string \<Rightarrow> HttpRequest \<Rightarrow> HttpRequest" where
  "setTarget target r =
     (let question = find_char (CHR ''?'') target
      in if question \<noteq> length target
         then setQuery (drop question target) (setPath (take question target) r)
         else setPath target r)"

definition parseVersion :: "string \<Rightarrow> HttpRequest \<Rightarrow> bool \<times> HttpRequest" where
  "parseVersion ver r =
     (if length ver = 8 \<and> take 7 ver = ''HTTP/1.'' then
        (if ver ! 7 = CHR ''1'' then (True, setVersion kHttp11 r)
         else if ver ! 7 = CHR ''0'' then (True, setVersion kHttp10 r)
         else (False, r))
      else (False, r))"

definition parseRequestLine :: "string \<Rightarrow> HttpRequest \<Rightarrow> (bool \<times> HttpRequest) result" where
  "parseRequestLine line r =
     (let space = find_char (CHR '' '') line
      in if space = length line then Inr (False, r)
         else andThen (setMethod (take space line) r) (\<lambda>(ok, r).
           if \<not> ok then Inr (False, r)
           else let rest = drop (space + 1) line;
                    space2 = find_char (CHR '' '') rest
                in if space2 = length rest then Inr (False, r)
                   else Inr (parseVersion (drop (space2 + 1) rest) (setTarget (take space2 rest) r))))"

definition parseHeaders :: "string \<Rightarrow> HttpRequest \<Rightarrow> HttpParseState \<times> HttpRequest" where
  "parseHeaders line r =
     (let colon = find_char (CHR '':'') line
      in if colon \<noteq> length line then (kParseAgain, addHeader_line line colon r)
         else if line = [] then (kHeaderEnd, r)
         else (kBadMessage, r))"

text \<open>\<^verbatim>\<open>parseBody\<close>, which no call site of the source uses any more (the body is read by
  \<^verbatim>\<open>HttpPostReadHandler\<close>). Its \<^verbatim>\<open>stoi\<close> is not guarded.\<close>

definition parseBody :: "buffer \<Rightarrow> HttpRequest \<Rightarrow> (bool \<times> HttpRequest \<times> buffer) result" where
  "parseBody buf r =
     (let s = getHeader ''Content-Length'' r
      in if s = [] then Inr (False, r, buf)
         else andThen (stoi s) (\<lambda>i.
           let n = size_t_of_int i
           in if readableBytes buf < n then Inr (False, r, buf)
              else andThen (retrieve n buf) (\<lambda>buf'.
                Inr (True, setBody (byte_range buf (peek buf) (peek buf + n)) r, buf'))))"

section \<open>The state machine\<close>

lemma retrieveUntil_crlf_less:
  assumes "findCRLF b = Some i" "retrieveUntil (i + 2) b = Inr b'"
  shows "readableBytes b' < readableBytes b"
proof -
  obtain j where j: "search_crlf (byte_range b (peek b) (beginWrite b)) = Some j" "i = peek b + j"
    using assms(1) by (auto simp: findCRLF_def)
  with search_crlf_Some[OF j(1)] have "j + 2 \<le> readableBytes b"
    by (auto simp: byte_range_def readableBytes_def peek_def beginWrite_def)
  with assms(2) j(2) show ?thesis
    by (auto simp: retrieveUntil_def retrieve_def retrieveAll_def result_simps readableBytes_def
        peek_def split: if_splits)
qed

fun state_rank :: "HttpRequestParseState \<Rightarrow> nat" where
  "state_rank kExpectRequestLine = 3"
| "state_rank kExpectHeaders = 2"
| "state_rank kExpectBody = 1"
| "state_rank kGotAll = 0"

function parseRequest :: "timestamp \<Rightarrow> HttpContext \<Rightarrow> buffer
    \<Rightarrow> (HttpParseState \<times> HttpContext \<times> buffer) result" where
  "parseRequest t c buf = (case ctx_state c of
     kExpectRequestLine \<Rightarrow>
       (case findCRLF buf of
          Some crlf \<Rightarrow>
            andThen (parseRequestLine (byte_range buf (peek buf) crlf) (ctx_request c)) (\<lambda>(ok, r).
              if ok then
                andThen (retrieveUntil (crlf + 2) buf) (\<lambda>buf'.
                  parseRequest t
                    (c\<lparr>ctx_request := setReceiveTime t r, ctx_state := kExpectHeaders\<rparr>) buf')
              else Inr (kBadMessage, c\<lparr>ctx_request := r\<rparr>, buf))
        | None \<Rightarrow> Inr (kParseAgain, c, buf))
   | kExpectHeaders \<Rightarrow>
       (case findCRLF buf of
          Some crlf \<Rightarrow>
            (case parseHeaders (byte_range buf (peek buf) crlf) (ctx_request c) of (h, r) \<Rightarrow>
               andThen (retrieveUntil (crlf + 2) buf) (\<lambda>buf'.
                 if h = kBadMessage then Inr (kBadMessage, c\<lparr>ctx_request := r\<rparr>, buf')
                 else parseRequest t
                   (c\<lparr>ctx_request := r,
                      ctx_state := (if h = kHeaderEnd then kExpectBody else kExpectHeaders)\<rparr>) buf'))
        | None \<Rightarrow> Inr (kParseAgain, c, buf))
   | kExpectBody \<Rightarrow> parseRequest t (c\<lparr>ctx_state := kGotAll\<rparr>) buf
   | kGotAll \<Rightarrow> Inr (kParseOK, c, buf))"
  by pat_completeness auto
termination
  by (relation "measures [\<lambda>(t, c, b). state_rank (ctx_state c), \<lambda>(t, c, b). readableBytes b]")
    (auto dest: retrieveUntil_crlf_less)

declare parseRequest.simps [simp del]

text \<open>The specification on the byte sequence the buffer holds.\<close>

function parse_stream :: "timestamp \<Rightarrow> HttpContext \<Rightarrow> string
    \<Rightarrow> (HttpParseState \<times> HttpContext \<times> string) result" where
  "parse_stream t c s = (case ctx_state c of
     kExpectRequestLine \<Rightarrow>
       (case search_crlf s of
          Some i \<Rightarrow>
            andThen (parseRequestLine (take i s) (ctx_request c)) (\<lambda>(ok, r).
              if ok then parse_stream t
                (c\<lparr>ctx_request := setReceiveTime t r, ctx_state := kExpectHeaders\<rparr>) (drop (i + 2) s)
              else Inr (kBadMessage, c\<lparr>ctx_request := r\<rparr>, s))
        | None \<Rightarrow> Inr (kParseAgain, c, s))
   | kExpectHeaders \<Rightarrow>
       (case search_crlf s of
          Some i \<Rightarrow>
            (case parseHeaders (take i s) (ctx_request c) of (h, r) \<Rightarrow>
               if h = kBadMessage then Inr (kBadMessage, c\<lparr>ctx_request := r\<rparr>, drop (i + 2) s)
               else parse_stream t
                 (c\<lparr>ctx_request := r,
                    ctx_state := (if h = kHeaderEnd then kExpectBody else kExpectHeaders)\<rparr>)
                 (drop (i + 2) s))
        | None \<Rightarrow> Inr (kParseAgain, c, s))
   | kExpectBody \<Rightarrow> parse_stream t (c\<lparr>ctx_state := kGotAll\<rparr>) s
   | kGotAll \<Rightarrow> Inr (kParseOK, c, s))"
  by pat_completeness auto
termination
  by (relation "measures [\<lambda>(t, c, s). state_rank (ctx_state c), \<lambda>(t, c, s). length s]")
    (auto dest: search_crlf_Some)

declare parse_stream.simps [simp del]

section \<open>Refinement\<close>

text \<open>Results of the two parsers correspond when the buffer left over holds the bytes left
  over.\<close>

fun res_rel :: "(HttpParseState \<times> HttpContext \<times> buffer) result
    \<Rightarrow> (HttpParseState \<times> HttpContext \<times> string) result \<Rightarrow> bool" where
  "res_rel (Inl e) (Inl e') = (e = e')"
| "res_rel (Inr (h, c, b)) (Inr (h', c', s)) = (h = h' \<and> c = c' \<and> buffer_wf b \<and> content b = s)"
| "res_rel _ _ = False"

lemma crlf_step:
  assumes "buffer_wf b" "search_crlf (content b) = Some i"
  shows "\<exists>b'. findCRLF b = Some (peek b + i) \<and> byte_range b (peek b) (peek b + i) = take i (content b)
    \<and> retrieveUntil (peek b + i + 2) b = Inr b' \<and> buffer_wf b' \<and> content b' = drop (i + 2) (content b)"
proof -
  have le: "i + 2 \<le> length (content b)" using search_crlf_Some[OF assms(2)] by simp
  from retrieveUntil_ok[OF assms(1) le] obtain b' where
    "retrieveUntil (peek b + (i + 2)) b = Inr b'" "buffer_wf b'" "content b' = drop (i + 2) (content b)"
    by blast
  with assms le show ?thesis by (auto simp: findCRLF_content byte_range_prefix add.assoc)
qed

lemma parseRequest_refines:
  "buffer_wf b \<Longrightarrow> res_rel (parseRequest t c b) (parse_stream t c (content b))"
proof (induction t c b rule: parseRequest.induct)
  case (1 t c b)
  show ?case
  proof (cases "search_crlf (content b)")
    case None
    then have f: "findCRLF b = None" by (simp add: findCRLF_content)
    show ?thesis
      using 1 None f
      by (cases "ctx_state c") (simp_all add: parseRequest.simps[of t c b] parse_stream.simps[of t c])
  next
    case (Some i)
    obtain b' where b': "findCRLF b = Some (peek b + i)"
      "byte_range b (peek b) (peek b + i) = take i (content b)"
      "retrieveUntil (peek b + i + 2) b = Inr b'" "buffer_wf b'" "content b' = drop (i + 2) (content b)"
      using crlf_step[OF 1(4) Some] by blast
    show ?thesis
    proof (cases "ctx_state c")
      case kExpectRequestLine
      then show ?thesis
        using 1(1)[OF kExpectRequestLine b'(1), unfolded b'(2)] b'(1-4) b'(5)[symmetric] Some 1(4)
        by (cases "parseRequestLine (take i (content b)) (ctx_request c)")
          (auto simp: parseRequest.simps[of t c b] parse_stream.simps[of t c])
    next
      case kExpectHeaders
      then show ?thesis
        using 1(2)[OF kExpectHeaders b'(1), unfolded b'(2)] b'(1-4) b'(5)[symmetric] Some
        by (cases "parseHeaders (take i (content b)) (ctx_request c)")
          (auto simp: parseRequest.simps[of t c b] parse_stream.simps[of t c])
    next
      case kExpectBody
      then show ?thesis
        using 1(3)[OF kExpectBody] 1(4) by (simp add: parseRequest.simps[of t c b] parse_stream.simps[of t c])
    next
      case kGotAll
      then show ?thesis
        using 1(4) by (simp add: parseRequest.simps[of t c b] parse_stream.simps[of t c])
    qed
  qed
qed

section \<open>Incremental parsing\<close>

lemma parse_stream_append:
  "parse_stream t c (s @ m) =
     andThen (parse_stream t c s) (\<lambda>(h, c', rest).
       if h = kParseAgain then parse_stream t c' (rest @ m) else Inr (h, c', rest @ m))"
proof (induction t c s rule: parse_stream.induct)
  case (1 t c s)
  show ?case
  proof (cases "search_crlf s")
    case None
    then show ?thesis using 1(3)
      by (cases "ctx_state c") (simp_all add: parse_stream.simps[of t c])
  next
    case (Some i)
    then have i: "i + 2 \<le> length s" "search_crlf (s @ m) = Some i"
      by (auto dest: search_crlf_Some search_crlf_append)
    then have "take i (s @ m) = take i s" "drop (i + 2) (s @ m) = drop (i + 2) s @ m" by simp_all
    note this [simp]
    show ?thesis
    proof (cases "ctx_state c")
      case kExpectRequestLine
      then show ?thesis using 1(1)[OF kExpectRequestLine Some] Some i
        by (cases "parseRequestLine (take i s) (ctx_request c)")
          (auto simp: parse_stream.simps[of t c])
    next
      case kExpectHeaders
      then show ?thesis using 1(2)[OF kExpectHeaders Some] Some i
        by (cases "parseHeaders (take i s) (ctx_request c)") (auto simp: parse_stream.simps[of t c])
    qed (use 1(3) in \<open>simp_all add: parse_stream.simps[of t c]\<close>)
  qed
qed

text \<open>The receive time is stored, never read: two parses at different times agree on
  everything else.\<close>

definition retime :: "timestamp \<Rightarrow> HttpContext \<Rightarrow> HttpContext" where
  "retime x c = c\<lparr>ctx_request := setReceiveTime x (ctx_request c)\<rparr>"

definition untimed :: "(HttpParseState \<times> HttpContext \<times> string) result
    \<Rightarrow> (HttpParseState \<times> HttpContext \<times> string) result" where
  "untimed r = andThen r (\<lambda>(h, c, s). Inr (h, retime 0 c, s))"

lemma untimed_simps [simp]:
  "untimed (Inl e) = Inl e" "untimed (Inr (h, c, s)) = Inr (h, retime 0 c, s)"
  by (simp_all add: untimed_def)

lemma retime_simps [simp]:
  "ctx_state (retime x c) = ctx_state c"
  "ctx_request (retime x c) = setReceiveTime x (ctx_request c)"
  "retime x (c\<lparr>ctx_state := st\<rparr>) = (retime x c)\<lparr>ctx_state := st\<rparr>"
  "retime x (retime y c) = retime x c"
  by (simp_all add: retime_def setReceiveTime_def)

lemma parseRequestLine_retime:
  "parseRequestLine l (setReceiveTime x r) =
     andThen (parseRequestLine l r) (\<lambda>(ok, r). Inr (ok, setReceiveTime x r))"
proof -
  have m: "setMethod m (setReceiveTime x r) =
      andThen (setMethod m r) (\<lambda>(ok, r). Inr (ok, setReceiveTime x r))" for m
    by (simp add: setMethod_def setReceiveTime_def check_def)
  have v: "parseVersion v (setReceiveTime x r) =
      (case parseVersion v r of (ok, r) \<Rightarrow> (ok, setReceiveTime x r))" for v r
    by (simp add: parseVersion_def setReceiveTime_def setVersion_def)
  have g: "setTarget g (setReceiveTime x r) = setReceiveTime x (setTarget g r)" for g r
    by (simp add: setTarget_def setReceiveTime_def setPath_def setQuery_def Let_def)
  show ?thesis
    by (cases "setMethod (take (find_char (CHR '' '') l) l) r")
      (auto simp: parseRequestLine_def m v g Let_def split: prod.splits)
qed

lemma parseHeaders_retime:
  "parseHeaders l (setReceiveTime x r) = (case parseHeaders l r of (h, r) \<Rightarrow> (h, setReceiveTime x r))"
  by (simp add: parseHeaders_def setReceiveTime_def Let_def addHeader_line_def)

lemma retime_update:
  "(retime x c)\<lparr>ctx_request := r, ctx_state := st\<rparr> = c\<lparr>ctx_request := r, ctx_state := st\<rparr>"
  "(retime x c)\<lparr>ctx_request := r\<rparr> = c\<lparr>ctx_request := r\<rparr>"
  "retime x (c\<lparr>ctx_request := r\<rparr>) = c\<lparr>ctx_request := setReceiveTime x r\<rparr>"
  by (simp_all add: retime_def)

lemma setReceiveTime_twice [simp]: "setReceiveTime x (setReceiveTime y r) = setReceiveTime x r"
  by (simp add: setReceiveTime_def)

lemma parse_stream_untimed: "untimed (parse_stream t' (retime x c) s) = untimed (parse_stream t c s)"
proof (induction t c s arbitrary: x rule: parse_stream.induct)
  case (1 t c s)
  show ?case
  proof (cases "search_crlf s")
    case None
    then show ?thesis using 1(3)[of x]
      by (cases "ctx_state c") (simp_all add: parse_stream.simps[of t c] parse_stream.simps[of t' "retime x c"])
  next
    case (Some i)
    show ?thesis
    proof (cases "ctx_state c")
      case kExpectRequestLine
      then show ?thesis using 1(1)[OF kExpectRequestLine Some, of _ _ _ t'] Some
        by (cases "parseRequestLine (take i s) (ctx_request c)")
          (auto simp: parse_stream.simps[of t c] parse_stream.simps[of t' "retime x c"]
            parseRequestLine_retime retime_update)
    next
      case kExpectHeaders
      then show ?thesis using 1(2)[OF kExpectHeaders Some, of _ _ x] Some
        by (cases "parseHeaders (take i s) (ctx_request c)")
          (auto simp: parse_stream.simps[of t c] parse_stream.simps[of t' "retime x c"]
            parseHeaders_retime retime_update)
    qed (use 1(3)[of x] in \<open>simp_all add: parse_stream.simps[of t c] parse_stream.simps[of t' "retime x c"]\<close>)
  qed
qed

lemma parse_stream_untimed': "untimed (parse_stream t' c s) = untimed (parse_stream t c s)"
  using parse_stream_untimed[of t' "req_receiveTime (ctx_request c)" c s t]
  by (simp add: retime_def setReceiveTime_def)

text \<open>
  The way bytes arrive: each chunk is appended to the input buffer and the parser is called;
  after a final result the remaining chunks have not been looked at.
\<close>

fun feed :: "HttpContext \<Rightarrow> buffer \<Rightarrow> (timestamp \<times> string) list
    \<Rightarrow> (HttpParseState \<times> HttpContext \<times> buffer \<times> (timestamp \<times> string) list) result" where
  "feed c b [] = Inr (kParseAgain, c, b, [])"
| "feed c b ((t, s) # cs) =
     andThen (buffer_append s b) (\<lambda>b.
     andThen (parseRequest t c b) (\<lambda>(h, c, b).
       if h = kParseAgain then feed c b cs else Inr (h, c, b, cs)))"

definition feed_stream :: "(HttpParseState \<times> HttpContext \<times> buffer \<times> (timestamp \<times> string) list) result
    \<Rightarrow> (HttpParseState \<times> HttpContext \<times> string) result" where
  "feed_stream r = andThen r (\<lambda>(h, c, b, cs). Inr (h, c, content b @ concat (map snd cs)))"

lemma feed_stream_simps [simp]:
  "feed_stream (Inl e) = Inl e"
  "feed_stream (Inr (h, c, b, cs)) = Inr (h, c, content b @ concat (map snd cs))"
  by (simp_all add: feed_stream_def)

lemma res_relE:
  assumes "res_rel r r'"
  obtains e where "r = Inl e" "r' = Inl e"
  | h c b where "r = Inr (h, c, b)" "r' = Inr (h, c, content b)" "buffer_wf b"
  using assms by (cases "(r, r')" rule: res_rel.cases) auto

lemma untimed_append:
  "untimed (parse_stream t c (s @ m)) = untimed (andThen (parse_stream u c s) (\<lambda>(h, c', rest).
       if h = kParseAgain then parse_stream t c' (rest @ m) else Inr (h, c', rest @ m)))"
proof -
  have "untimed (parse_stream t c (s @ m)) = untimed (parse_stream u c (s @ m))"
    by (rule parse_stream_untimed')
  also have "\<dots> = untimed (andThen (parse_stream u c s) (\<lambda>(h, c', rest).
       if h = kParseAgain then parse_stream u c' (rest @ m) else Inr (h, c', rest @ m)))"
    by (simp only: parse_stream_append[of u c s m])
  also have "\<dots> = untimed (andThen (parse_stream u c s) (\<lambda>(h, c', rest).
       if h = kParseAgain then parse_stream t c' (rest @ m) else Inr (h, c', rest @ m)))"
    by (cases "parse_stream u c s") (auto simp: parse_stream_untimed'[of u _ _ t])
  finally show ?thesis .
qed

lemma parse_stream_again:
  assumes "parse_stream u c s = Inr (kParseAgain, c1, rest)"
  shows "untimed (parse_stream t c1 rest) = Inr (kParseAgain, retime 0 c1, rest)"
proof -
  have "parse_stream u c1 rest = Inr (kParseAgain, c1, rest)"
    using parse_stream_append[of u c s "[]"] assms by simp
  then show ?thesis using parse_stream_untimed'[of t c1 rest u] by simp
qed

lemma feed_eq_stream:
  "buffer_wf b \<Longrightarrow> cs \<noteq> [] \<Longrightarrow>
    untimed (feed_stream (feed c b cs)) = untimed (parse_stream t c (content b @ concat (map snd cs)))"
proof (induction c b cs rule: feed.induct)
  case (2 c b u s cs)
  obtain b1 where b1: "buffer_append s b = Inr b1" "buffer_wf b1" "content b1 = content b @ s"
    using buffer_append_ok[OF 2(2)] by blast
  have split: "content b @ concat (map snd ((u, s) # cs)) = content b1 @ concat (map snd cs)"
    by (simp add: b1)
  have law: "untimed (parse_stream t c (content b1 @ concat (map snd cs))) =
      untimed (andThen (parse_stream u c (content b1)) (\<lambda>(h, c', rest).
       if h = kParseAgain then parse_stream t c' (rest @ concat (map snd cs))
       else Inr (h, c', rest @ concat (map snd cs))))"
    by (rule untimed_append)
  from parseRequest_refines[OF b1(2), of u c] show ?case
  proof (cases rule: res_relE)
    case (1 e)
    then show ?thesis using b1 law split by simp
  next
    case h: (2 h c1 b2)
    show ?thesis
    proof (cases "h = kParseAgain \<and> cs \<noteq> []")
      case True
      then have "untimed (feed_stream (feed c1 b2 cs)) =
          untimed (parse_stream t c1 (content b2 @ concat (map snd cs)))"
        using 2(1)[OF b1(1) h(1) refl refl] h(3) by simp
      with True h b1 law split show ?thesis by simp
    next
      case False
      with parse_stream_again[of u c "content b1" c1 "content b2" t] h b1 law split
      show ?thesis by auto
    qed
  qed
qed simp

section \<open>Safety\<close>

text \<open>Between messages a context that still expects a request line has no method yet.\<close>

definition context_wf :: "HttpContext \<Rightarrow> bool" where
  "context_wf c \<longleftrightarrow> (ctx_state c = kExpectRequestLine \<longrightarrow> req_method (ctx_request c) = kInvalid)
     \<and> omap_wf (req_headers (ctx_request c))"

lemma parseRequestLine_safe:
  "req_method r = kInvalid \<Longrightarrow> \<exists>ok r'. parseRequestLine l r = Inr (ok, r') \<and> req_headers r' = req_headers r"
  by (auto simp: parseRequestLine_def setMethod_def Let_def parseVersion_def setTarget_def
      setPath_def setQuery_def setVersion_def)

lemma parseHeaders_wf: "omap_wf (req_headers r) \<Longrightarrow> omap_wf (req_headers (snd (parseHeaders l r)))"
  by (simp add: parseHeaders_def Let_def addHeader_line_def omap_wf_put)

definition outcome_ok :: "string \<Rightarrow> HttpParseState \<Rightarrow> HttpContext \<Rightarrow> string \<Rightarrow> bool" where
  "outcome_ok s h c rest \<longleftrightarrow> h \<noteq> kHeaderEnd \<and> (h \<noteq> kBadMessage \<longrightarrow> context_wf c)
     \<and> (h = kParseOK \<longleftrightarrow> gotAll c) \<and> (\<exists>pre. s = pre @ rest)"

lemma outcome_ok_drop: "outcome_ok (drop n s) h c rest \<Longrightarrow> outcome_ok s h c rest"
proof -
  assume a: "outcome_ok (drop n s) h c rest"
  then obtain pre where "drop n s = pre @ rest" by (auto simp: outcome_ok_def)
  then have "s = (take n s @ pre) @ rest" by (metis append.assoc append_take_drop_id)
  with a show ?thesis unfolding outcome_ok_def by blast
qed

lemma parse_stream_safe:
  "context_wf c \<Longrightarrow> \<exists>h c' rest. parse_stream t c s = Inr (h, c', rest) \<and> outcome_ok s h c' rest"
proof (induction t c s rule: parse_stream.induct)
  case (1 t c s)
  show ?case
  proof (cases "search_crlf s")
    case None
    then show ?thesis using 1(3,4)
      by (cases "ctx_state c")
        (auto simp: parse_stream.simps[of t c] outcome_ok_def context_wf_def gotAll_def)
  next
    case (Some i)
    show ?thesis
    proof (cases "ctx_state c")
      case kExpectRequestLine
      obtain ok r where r: "parseRequestLine (take i s) (ctx_request c) = Inr (ok, r)"
          "req_headers r = req_headers (ctx_request c)"
        using parseRequestLine_safe[of "ctx_request c" "take i s"] 1(4) kExpectRequestLine
        by (auto simp: context_wf_def)
      show ?thesis
      proof (cases ok)
        case True
        with 1(1)[OF kExpectRequestLine Some r(1) refl True] 1(4) r kExpectRequestLine Some
        show ?thesis
          by (auto simp: parse_stream.simps[of t c] context_wf_def setReceiveTime_def
              intro: outcome_ok_drop[where n="Suc (Suc i)"])
      next
        case False
        with r kExpectRequestLine Some show ?thesis
          by (auto simp: parse_stream.simps[of t c] outcome_ok_def gotAll_def)
      qed
    next
      case kExpectHeaders
      obtain h r where r: "parseHeaders (take i s) (ctx_request c) = (h, r)"
        by (cases "parseHeaders (take i s) (ctx_request c)")
      have wf: "omap_wf (req_headers r)"
        using parseHeaders_wf[of "ctx_request c" "take i s"] r 1(4) by (simp add: context_wf_def)
      show ?thesis
      proof (cases "h = kBadMessage")
        case True
        with r kExpectHeaders Some show ?thesis
          by (auto simp: parse_stream.simps[of t c] outcome_ok_def gotAll_def)
            (metis append_take_drop_id)
      next
        case False
        let ?c = "c\<lparr>ctx_request := r, ctx_state := (if h = kHeaderEnd then kExpectBody else kExpectHeaders)\<rparr>"
        have "parse_stream t c s = parse_stream t ?c (drop (i + 2) s)"
          using False r kExpectHeaders Some by (simp add: parse_stream.simps[of t c])
        moreover have "context_wf ?c" using wf by (simp add: context_wf_def)
        ultimately show ?thesis
          using 1(2)[OF kExpectHeaders Some r[symmetric] False] outcome_ok_drop by metis
      qed
    qed (use 1(3,4) in \<open>auto simp: parse_stream.simps[of t c] context_wf_def outcome_ok_def gotAll_def\<close>)
  qed
qed

section \<open>Round trip\<close>

text \<open>Requests a printer can put on the wire so that the parser reads them back.\<close>

definition header_ok :: "string \<times> string \<Rightarrow> bool" where
  "header_ok = (\<lambda>(k, v). CHR '':'' \<notin> set k \<and> CR \<notin> set k \<and> CR \<notin> set v \<and> trimmed v)"

definition printable :: "HttpRequest \<Rightarrow> bool" where
  "printable r \<longleftrightarrow> req_method r \<noteq> kInvalid \<and> req_version r \<noteq> kUnknown
     \<and> CHR '' '' \<notin> set (req_path r) \<and> CHR ''?'' \<notin> set (req_path r) \<and> CR \<notin> set (req_path r)
     \<and> omap_wf (req_headers r) \<and> list_all header_ok (req_headers r)"

lemma parseHeaders_line:
  assumes "header_ok (k, v)"
  shows "parseHeaders (k @ '': '' @ v) r =
    (kParseAgain, r\<lparr>req_headers := omap_put k v (req_headers r)\<rparr>)"
proof -
  have "find_char (CHR '':'') (k @ '': '' @ v) = length k"
    using assms by (simp add: header_ok_def find_char_append)
  then show ?thesis using assms
    by (simp add: parseHeaders_def Let_def addHeader_line_def header_ok_def trim_pad)
qed

lemma search_crlf_line': "search_crlf l = None \<Longrightarrow> search_crlf (l @ CR # LF # s) = Some (length l)"
  using search_crlf_line[of l s] by simp

lemma parse_stream_header_line:
  assumes "ctx_state c = kExpectHeaders" "search_crlf l = None"
    "parseHeaders l (ctx_request c) = (kParseAgain, r)"
  shows "parse_stream t c (l @ CRLF @ s) = parse_stream t (c\<lparr>ctx_request := r\<rparr>) s"
  using assms by (cases c) (subst parse_stream.simps, simp add: search_crlf_line')

lemma parse_stream_request_line:
  assumes "ctx_state c = kExpectRequestLine" "search_crlf l = None"
    "parseRequestLine l (ctx_request c) = Inr (True, r)"
  shows "parse_stream t c (l @ CRLF @ s) =
    parse_stream t (c\<lparr>ctx_request := setReceiveTime t r, ctx_state := kExpectHeaders\<rparr>) s"
  using assms by (subst parse_stream.simps) (simp add: search_crlf_line')

lemma parse_stream_headers:
  "list_all header_ok hs \<Longrightarrow> ctx_state c = kExpectHeaders \<Longrightarrow>
   parse_stream t c (concat (header_pieces hs) @ CRLF @ s) =
     Inr (kParseOK, c\<lparr>ctx_state := kGotAll,
       ctx_request := (ctx_request c)\<lparr>req_headers := omap.put_all hs (req_headers (ctx_request c))\<rparr>\<rparr>, s)"
proof (induction hs arbitrary: c)
  case Nil
  let ?c = "c\<lparr>ctx_state := kExpectBody\<rparr>"
  have "parse_stream t c (CRLF @ s) = parse_stream t ?c s"
    using Nil by (simp add: parse_stream.simps[of t c] parseHeaders_def find_char_def)
  then show ?case
    by (simp add: header_pieces_def parse_stream.simps[of t ?c]
        parse_stream.simps[of t "c\<lparr>ctx_state := kGotAll\<rparr>"])
next
  case (Cons h hs)
  obtain k v where h: "h = (k, v)" by (cases h)
  let ?l = "k @ '': '' @ v"
  let ?rest = "concat (header_pieces hs) @ CRLF @ s"
  let ?c = "c\<lparr>ctx_request := (ctx_request c)\<lparr>req_headers := omap_put k v (req_headers (ctx_request c))\<rparr>\<rparr>"
  have sc: "search_crlf ?l = None" using Cons(2) h by (intro search_crlf_no_CR) (auto simp: header_ok_def)
  have eq: "concat (header_pieces (h # hs)) @ CRLF @ s = ?l @ CRLF @ ?rest"
    by (simp add: header_pieces_def h)
  have "parse_stream t c (?l @ CRLF @ ?rest) = parse_stream t ?c ?rest"
    using Cons(2,3) h sc by (intro parse_stream_header_line parseHeaders_line) auto
  also have "\<dots> = Inr (kParseOK, ?c\<lparr>ctx_state := kGotAll,
       ctx_request := (ctx_request ?c)\<lparr>req_headers := omap.put_all hs (req_headers (ctx_request ?c))\<rparr>\<rparr>, s)"
    using Cons by (intro Cons.IH) auto
  finally show ?case unfolding eq by (simp add: h)
qed

lemma parseRequestLine_print:
  assumes "printable r" "req_method r0 = kInvalid"
  shows "parseRequestLine (methodString r @ '' '' @ req_path r @ '' '' @ versionString r) r0 =
    Inr (True, r0\<lparr>req_method := req_method r, req_version := req_version r, req_path := req_path r,
      req_locationEndPos := length (req_path r)\<rparr>)"
proof -
  let ?l = "methodString r @ '' '' @ req_path r @ '' '' @ versionString r"
  have 1: "find_char (CHR '' '') ?l = length (methodString r)"
    using find_char_append[OF methodString_props(1)] by simp
  have 2: "find_char (CHR '' '') (req_path r @ '' '' @ versionString r) = length (req_path r)"
    using assms find_char_append[of "CHR '' ''" "req_path r"] by (simp add: printable_def)
  have 3: "find_char (CHR ''?'') (req_path r) = length (req_path r)"
    using assms by (simp add: printable_def find_char_notin)
  have 4: "parseVersion (versionString r) x = (True, x\<lparr>req_version := req_version r\<rparr>)" for x
    using assms by (cases "req_version r")
      (simp_all add: printable_def parseVersion_def versionString_def setVersion_def nth_Cons')
  have m: "method_of (methodString r) = req_method r" "req_method r \<noteq> kInvalid"
    using assms by (simp_all add: printable_def method_roundtrip)
  show ?thesis
    unfolding parseRequestLine_def Let_def 1
    using assms(2) m by (simp add: setMethod_def 2[simplified] 3 4 setTarget_def setPath_def)
qed

lemma omap_put_last:
  "omap_wf (m @ [(k, v)]) \<Longrightarrow> omap_put k v m = m @ [(k, v)]"
proof (induction m)
  case (Cons p m)
  then have "fst p < k" "omap_wf (m @ [(k, v)])"
    by (auto simp: omap_wf_def sorted_wrt_append)
  with Cons.IH show ?case by (cases p) auto
qed simp

lemma omap_put_all_append: "omap_wf (m @ hs) \<Longrightarrow> omap.put_all hs m = m @ hs"
proof (induction hs arbitrary: m)
  case (Cons p hs)
  obtain k v where p: "p = (k, v)" by (cases p)
  have "omap_wf (m @ [(k, v)])"
    using Cons(2) by (auto simp: p omap_wf_def sorted_wrt_append)
  then have "omap_put k v m = m @ [(k, v)]" by (rule omap_put_last)
  with Cons p show ?case by simp
qed simp

lemma parse_stream_print:
  assumes "printable r" "ctx_state c = kExpectRequestLine" "req_method (ctx_request c) = kInvalid"
    "req_headers (ctx_request c) = []"
  shows "parse_stream t c (concat (request_pieces r) @ s) =
    Inr (kParseOK, c\<lparr>ctx_state := kGotAll, ctx_request := (ctx_request c)\<lparr>req_method := req_method r,
        req_version := req_version r, req_path := req_path r,
        req_locationEndPos := length (req_path r), req_receiveTime := t,
        req_headers := req_headers r\<rparr>\<rparr>,
      (if req_body r \<noteq> [] then req_body r @ CRLF else []) @ s)"
proof -
  let ?l = "methodString r @ '' '' @ req_path r @ '' '' @ versionString r"
  let ?b = "(if req_body r \<noteq> [] then req_body r @ CRLF else []) @ s"
  let ?rest = "concat (header_pieces (req_headers r)) @ CRLF @ ?b"
  have eq: "concat (request_pieces r) @ s = ?l @ CRLF @ ?rest"
    by (simp add: request_pieces_concat)
  have "CR \<notin> set (versionString r)" by (cases "req_version r") (simp_all add: versionString_def)
  then have sc: "search_crlf ?l = None"
    using assms(1) methodString_props(3)[of r]
    by (intro search_crlf_no_CR) (auto simp: printable_def)
  let ?r0 = "(ctx_request c)\<lparr>req_method := req_method r, req_version := req_version r,
      req_path := req_path r, req_locationEndPos := length (req_path r)\<rparr>"
  let ?c = "c\<lparr>ctx_request := setReceiveTime t ?r0, ctx_state := kExpectHeaders\<rparr>"
  have "parse_stream t c (?l @ CRLF @ ?rest) = parse_stream t ?c ?rest"
    by (rule parse_stream_request_line[OF assms(2) sc parseRequestLine_print[OF assms(1,3)]])
  also have "\<dots> = Inr (kParseOK, ?c\<lparr>ctx_state := kGotAll,
       ctx_request := (ctx_request ?c)\<lparr>req_headers := omap.put_all (req_headers r) (req_headers (ctx_request ?c))\<rparr>\<rparr>, ?b)"
    using assms(1) by (intro parse_stream_headers) (auto simp: printable_def)
  also have "omap.put_all (req_headers r) (req_headers (ctx_request ?c)) = req_headers r"
    using omap_put_all_append[of "[]" "req_headers r"] assms(1,4)
    by (simp add: printable_def setReceiveTime_def)
  finally show ?thesis unfolding eq by (simp add: setReceiveTime_def)
qed

section \<open>Properties\<close>

definition buffer_stream :: "(HttpParseState \<times> HttpContext \<times> buffer) result
    \<Rightarrow> (HttpParseState \<times> HttpContext \<times> string) result" where
  "buffer_stream r = andThen r (\<lambda>(h, c, b). Inr (h, c, content b))"

lemma buffer_stream_parse:
  "buffer_wf b \<Longrightarrow> buffer_stream (parseRequest t c b) = parse_stream t c (content b)"
  using parseRequest_refines[of b t c] by (cases rule: res_relE) (auto simp: buffer_stream_def)

text \<open>
  (C3) Segmentation independence of the request parser. However the bytes of a request are
  cut into chunks (each appended to the input buffer and followed by a call of
  \<^verbatim>\<open>parseRequest\<close>), the outcome, the parsed request, the parser state and the bytes left over are
  those of one call on all the bytes; only the stored receive time can differ.
\<close>

theorem parse_chunking_irrelevant:
  assumes "buffer_wf b" "cs \<noteq> []" "buffer_append (concat (map snd cs)) b = Inr b0"
  shows "untimed (feed_stream (feed c b cs)) = untimed (buffer_stream (parseRequest t c b0))"
proof -
  have "buffer_wf b0" "content b0 = content b @ concat (map snd cs)"
    using buffer_append_ok[OF assms(1), of "concat (map snd cs)"] assms(3) by auto
  then show ?thesis using feed_eq_stream[OF assms(1,2), of c t] by (simp add: buffer_stream_parse)
qed

theorem parse_chunking_irrelevant_witness:
  "\<exists>b0. buffer_append ''GET / HTTP/1.1'' (fresh_buffer 1) = Inr b0 \<and>
     untimed (feed_stream (feed HttpContext_ctor (fresh_buffer 1) [(1, ''GET /''), (2, '' HTTP/1.1'')]))
     = untimed (buffer_stream (parseRequest 7 HttpContext_ctor b0))"
proof -
  obtain b0 where "buffer_append ''GET / HTTP/1.1'' (fresh_buffer 1) = Inr b0"
    using buffer_append_ok[OF fresh_buffer_wf(1)] by blast
  then show ?thesis
    using parse_chunking_irrelevant[OF fresh_buffer_wf(1), of "[(1, ''GET /''), (2, '' HTTP/1.1'')]" 1 b0
        HttpContext_ctor 7] by simp
qed

text \<open>
  (C4) The parser is total and memory safe on every input: from a well-formed context and
  buffer it returns (no assert fires, the loop ends) with one of the three outcomes the server
  distinguishes, \<^verbatim>\<open>kParseOK\<close> exactly in the state \<^verbatim>\<open>kGotAll\<close>; it only consumes a prefix of the
  readable bytes, and unless the message was bad the context is well formed for the next call. After
  \<^verbatim>\<open>kBadMessage\<close> it need not be: a method may already be set, and a second call on the same context
  can then fail the assertion of \<^verbatim>\<open>setMethod\<close>.
\<close>

theorem parseRequest_total_and_safe:
  assumes "buffer_wf b" "context_wf c"
  shows "\<exists>h c' b'. parseRequest t c b = Inr (h, c', b') \<and> buffer_wf b' \<and> h \<noteq> kHeaderEnd \<and>
    (h = kParseOK \<longleftrightarrow> gotAll c') \<and> (h \<noteq> kBadMessage \<longrightarrow> context_wf c') \<and>
    (\<exists>pre. content b = pre @ content b')"
  using parse_stream_safe[OF assms(2), of t "content b"] parseRequest_refines[OF assms(1), of t c]
  by (auto elim!: res_relE simp: outcome_ok_def)

theorem parseRequest_total_and_safe_witness:
  "\<exists>h c' b'. parseRequest 5 HttpContext_ctor (fresh_buffer 16) = Inr (h, c', b') \<and> buffer_wf b' \<and>
     h \<noteq> kHeaderEnd"
proof -
  have "context_wf HttpContext_ctor"
    by (simp add: context_wf_def HttpContext_ctor_def HttpRequest_ctor_def)
  from parseRequest_total_and_safe[OF fresh_buffer_wf(1) this, of 5 16] show ?thesis by blast
qed

text \<open>
  (C5) The head of a request survives printing and parsing: a request with a valid method and version, a path without
  spaces, question marks or CR, and headers with trimmed CR-free values and colon- and CR-free names, put on the wire
  by \<^verbatim>\<open>appendToBuffer\<close> and parsed from a fresh context, gives back its method, version, path and headers.
  The query, which the printer leaves out, comes back empty; the body does not come back in the parsed request but
  stays in the buffer for the body reader, followed by the CRLF the printer adds.
\<close>

theorem request_print_parse_roundtrip:
  assumes "printable r" "buffer_wf b" "content b = []"
  shows "\<exists>b1 c b2. request_appendToBuffer r b = Inr b1 \<and>
    parseRequest t HttpContext_ctor b1 = Inr (kParseOK, c, b2) \<and> gotAll c \<and>
    ctx_request c = r\<lparr>req_locationEndPos := length (req_path r), req_query := [],
      req_receiveTime := t, req_body := []\<rparr> \<and>
    content b2 = (if req_body r \<noteq> [] then req_body r @ CRLF else [])"
proof -
  obtain b1 where b1: "request_appendToBuffer r b = Inr b1" "buffer_wf b1"
      "content b1 = concat (request_pieces r)"
    using append_each_ok[OF assms(2), of "request_pieces r"] assms(3)
    by (auto simp: request_appendToBuffer_def)
  have "parse_stream t HttpContext_ctor (content b1) = Inr (kParseOK,
      \<lparr>ctx_state = kGotAll, ctx_request = r\<lparr>req_locationEndPos := length (req_path r),
        req_query := [], req_receiveTime := t, req_body := []\<rparr>, ctx_timerPos = None\<rparr>,
      if req_body r \<noteq> [] then req_body r @ CRLF else [])"
    using parse_stream_print[OF assms(1), of HttpContext_ctor t "[]"]
    by (simp add: b1 HttpContext_ctor_def HttpRequest_ctor_def)
  with parseRequest_refines[OF b1(2), of t HttpContext_ctor] b1 show ?thesis
    by (auto elim!: res_relE simp: gotAll_def)
qed

definition example_request :: HttpRequest where
  "example_request = \<lparr>req_method = kPost, req_version = kHttp11, req_path = ''/api/echo'',
     req_locationEndPos = 0, req_query = [], req_receiveTime = 0,
     req_headers = [(''Content-Length'', ''5''), (''Host'', ''localhost'')], req_body = ''hello''\<rparr>"

theorem request_print_parse_roundtrip_witness:
  "printable example_request \<and>
   (\<exists>b1 c b2. request_appendToBuffer example_request (fresh_buffer 8) = Inr b1 \<and>
      parseRequest 3 HttpContext_ctor b1 = Inr (kParseOK, c, b2) \<and>
      getHeader ''Host'' (ctx_request c) = ''localhost'' \<and> content b2 = ''hello'' @ CRLF)"
proof -
  have p: "printable example_request" by code_simp
  from request_print_parse_roundtrip[OF p fresh_buffer_wf, of 8 3] p show ?thesis
    by (auto simp: example_request_def getHeader_def)
qed

text \<open>
  The request target's query string does not survive forwarding: the parser stores
  everything from the question mark in \<^verbatim>\<open>query_\<close>, and \<^verbatim>\<open>HttpRequest::appendToBuffer\<close>, which
  writes the request for the upstream, prints the path alone.
\<close>

theorem forwarded_request_loses_query:
  assumes "CHR '' '' \<notin> set p" "CHR ''?'' \<notin> set p" "CHR '' '' \<notin> set q"
  shows "\<exists>r. parseRequestLine (''GET '' @ p @ ''?'' @ q @ '' HTTP/1.1'') HttpRequest_ctor = Inr (True, r)
    \<and> req_path r = p \<and> req_query r = ''?'' @ q
    \<and> concat (request_pieces r) = ''GET '' @ p @ '' HTTP/1.1'' @ CRLF @ CRLF"
proof -
  let ?l = "''GET '' @ p @ ''?'' @ q @ '' HTTP/1.1''"
  let ?r = "HttpRequest_ctor\<lparr>req_method := kGet, req_path := p, req_locationEndPos := length p,
    req_query := ''?'' @ q, req_version := kHttp11\<rparr>"
  have 1: "find_char (CHR '' '') ?l = 3" by (simp add: find_char_def)
  have "CHR '' '' \<notin> set (p @ ''?'' @ q)" using assms by simp
  from find_char_append[OF this, of "''HTTP/1.1''"]
  have 2: "find_char (CHR '' '') (p @ CHR ''?'' # q @ '' HTTP/1.1'') = length (p @ ''?'' @ q)" by simp
  have 3: "find_char (CHR ''?'') (p @ CHR ''?'' # q) = length p"
    by (rule find_char_append[OF assms(2)])
  have "parseRequestLine ?l HttpRequest_ctor = Inr (True, ?r)"
    unfolding parseRequestLine_def Let_def 1
    by (simp add: setMethod_def method_of_def HttpRequest_ctor_def 2[simplified] 3 setTarget_def
        parseVersion_def setPath_def setQuery_def setVersion_def)
  moreover have "concat (request_pieces ?r) = ''GET '' @ p @ '' HTTP/1.1'' @ CRLF @ CRLF"
    by (simp add: request_pieces_concat methodString_def versionString_def header_pieces_def
        HttpRequest_ctor_def)
  ultimately show ?thesis by (intro exI[of _ ?r]) (simp add: HttpRequest_ctor_def)
qed

theorem forwarded_request_loses_query_witness:
  "\<exists>r. parseRequestLine (''GET /search?q=isabelle HTTP/1.1'') HttpRequest_ctor = Inr (True, r)
    \<and> req_query r = ''?q=isabelle''
    \<and> concat (request_pieces r) = ''GET /search HTTP/1.1'' @ CRLF @ CRLF"
  using forwarded_request_loses_query[of "''/search''" "''q=isabelle''"] by auto

text \<open>
  Once a request line with a known method was rejected, the context is neither reset nor is the
  line removed from the buffer.
\<close>

lemma parse_stream_rank:
  "parse_stream t c s = Inr (h, c', rest) \<Longrightarrow> state_rank (ctx_state c') \<le> state_rank (ctx_state c)"
proof (induction t c s rule: parse_stream.induct)
  case (1 t c s)
  show ?case
  proof (cases "ctx_state c")
    case kExpectRequestLine
    then show ?thesis by (cases "ctx_state c'") simp_all
  next
    case kExpectHeaders
    show ?thesis
    proof (cases "search_crlf s")
      case None
      with kExpectHeaders 1(4) show ?thesis by (simp add: parse_stream.simps[of t c])
    next
      case (Some i)
      with kExpectHeaders 1(2)[OF kExpectHeaders Some] 1(4) show ?thesis
        by (cases "parseHeaders (take i s) (ctx_request c)")
          (auto simp: parse_stream.simps[of t c] split: if_splits)
    qed
  next
    case kExpectBody
    with 1(3)[OF kExpectBody] 1(4) show ?thesis by (simp add: parse_stream.simps[of t c])
  next
    case kGotAll
    with 1(4) show ?thesis by (simp add: parse_stream.simps[of t c])
  qed
qed

lemma parseRequestLine_again:
  assumes "parseRequestLine l r0 = Inr (False, r)" "req_method r0 = kInvalid" "req_method r \<noteq> kInvalid"
  shows "parseRequestLine l r = Inl AssertFailed"
  using assms by (auto simp: parseRequestLine_def Let_def setMethod_def split: if_splits)

lemma parse_stream_reparse:
  assumes "context_wf c" "parse_stream t c s = Inr (kBadMessage, c1, s1)"
    "ctx_state c1 = kExpectRequestLine" "req_method (ctx_request c1) \<noteq> kInvalid"
  shows "parse_stream t2 c1 (s1 @ m) = Inl AssertFailed"
proof -
  have c: "ctx_state c = kExpectRequestLine"
    using parse_stream_rank[OF assms(2)] assms(3) by (cases "ctx_state c") simp_all
  then have m: "req_method (ctx_request c) = kInvalid" using assms(1) by (simp add: context_wf_def)
  obtain i where i: "search_crlf s = Some i"
    using assms(2) c by (cases "search_crlf s") (simp_all add: parse_stream.simps[of t c])
  obtain ok r where r: "parseRequestLine (take i s) (ctx_request c) = Inr (ok, r)"
    using parseRequestLine_safe[OF m] by blast
  have "\<not> ok"
  proof
    assume ok
    then have "parse_stream t (c\<lparr>ctx_request := setReceiveTime t r, ctx_state := kExpectHeaders\<rparr>)
        (drop (i + 2) s) = Inr (kBadMessage, c1, s1)"
      using assms(2) c i r by (simp add: parse_stream.simps[of t c])
    from parse_stream_rank[OF this] assms(3) show False by simp
  qed
  then have eq: "c1 = c\<lparr>ctx_request := r\<rparr>" "s1 = s"
    using assms(2) c i r by (simp_all add: parse_stream.simps[of t c])
  with assms(4) r \<open>\<not> ok\<close> m have "parseRequestLine (take i s) r = Inl AssertFailed"
    using parseRequestLine_again by simp
  moreover have "search_crlf (s @ m) = Some i" "take i (s @ m) = take i s"
    using search_crlf_append[OF i] search_crlf_Some[OF i] by simp_all
  ultimately show ?thesis
    unfolding eq using c by (simp del: take_append add: parse_stream.simps[of t2 "c\<lparr>ctx_request := r\<rparr>"])
qed

text \<open>
  A rejected request line can take the server down. If \<^verbatim>\<open>parseRequest\<close> rejected a
  request line after its method was recognised, then any further call on the same connection
  (the buffer still starts with that line, whatever arrived since) fails the assert
  \<^verbatim>\<open>method_ == kInvalid\<close> of \<^verbatim>\<open>setMethod\<close>, which aborts the process.
\<close>

theorem bad_request_line_reparse_aborts:
  assumes "buffer_wf b" "context_wf c" "parseRequest t c b = Inr (kBadMessage, c1, b1)"
    "ctx_state c1 = kExpectRequestLine" "req_method (ctx_request c1) \<noteq> kInvalid"
    "buffer_append m b1 = Inr b2"
  shows "parseRequest t2 c1 b2 = Inl AssertFailed"
proof -
  have 1: "parse_stream t c (content b) = Inr (kBadMessage, c1, content b1)" "buffer_wf b1"
    using parseRequest_refines[OF assms(1), of t c] assms(3) by (auto elim: res_relE)
  have 2: "buffer_wf b2" "content b2 = content b1 @ m"
    using buffer_append_ok[OF 1(2), of m] assms(6) by auto
  have "parse_stream t2 c1 (content b2) = Inl AssertFailed"
    unfolding 2(2) by (rule parse_stream_reparse[OF assms(2) 1(1) assms(4,5)])
  with parseRequest_refines[OF 2(1), of t2 c1] show ?thesis by (auto elim: res_relE)
qed

definition bad_line_buffer :: buffer where
  "bad_line_buffer = \<lparr>buf_data = ''--------GET / HTTP/2.0'' @ CRLF, readerIndex = 8, writerIndex = 24\<rparr>"

theorem bad_request_line_reparse_aborts_witness:
  "\<exists>c1 b1 b2. parseRequest 1 HttpContext_ctor bad_line_buffer = Inr (kBadMessage, c1, b1)
     \<and> buffer_append ''x'' b1 = Inr b2 \<and> parseRequest 2 c1 b2 = Inl AssertFailed"
proof -
  let ?c1 = "HttpContext_ctor\<lparr>ctx_request := setPath ''/'' (HttpRequest_ctor\<lparr>req_method := kGet\<rparr>)\<rparr>"
  have wf: "buffer_wf bad_line_buffer" by code_simp
  have c: "context_wf HttpContext_ctor" by code_simp
  have bad: "parseRequest 1 HttpContext_ctor bad_line_buffer = Inr (kBadMessage, ?c1, bad_line_buffer)"
    by code_simp
  have st: "ctx_state ?c1 = kExpectRequestLine" "req_method (ctx_request ?c1) \<noteq> kInvalid"
    by (simp_all add: HttpContext_ctor_def setPath_def)
  obtain b2 where b2: "buffer_append ''x'' bad_line_buffer = Inr b2"
    using buffer_append_ok[OF wf] by blast
  from bad_request_line_reparse_aborts[OF wf c bad st b2, of 2] bad b2 show ?thesis by blast
qed

end
