(* ===== verification/Http_Response.thy ===== *)
theory Http_Response
  imports Http_Request
begin

text \<open>
  \<^verbatim>\<open>http/HttpResponse.{h,cpp}\<close>: the response message, the table of MIME types and the tables of
  status messages and default error bodies. \<^verbatim>\<open>statusMessageMap_\<close> and \<^verbatim>\<open>bodyMessageMap_\<close> are filled
  by the constructor and never written again, so they are constants here. The headers are an
  \<^verbatim>\<open>unordered_map\<close>; printing them takes the iteration order as a parameter. A status code is the
  integer the enumeration wraps.
\<close>

section \<open>MIME types\<close>

definition mime_table :: "(string \<times> string) list" where
  "mime_table =
    [(''.html'', ''text/html''),
     (''.avi'', ''video/x-msvideo''),
     (''.bmp'', ''image/bmp''),
     (''.c'', ''text/plain''),
     (''.doc'', ''application/msword''),
     (''.gif'', ''image/gif''),
     (''.gz'', ''application/x-gzip''),
     (''.htm'', ''text/html''),
     (''.ico'', ''image/x-icon''),
     (''.jpg'', ''image/jpeg''),
     (''.png'', ''image/png''),
     (''.txt'', ''text/plain''),
     (''.mp3'', ''audio/mp3''),
     (''.json'', ''application/json''),
     (''.js'', ''text/javascript''),
     (''.css'', ''text/css''),
     (''default'', ''text/html'')]"

definition getMime :: "string \<Rightarrow> string" where
  "getMime suffix = (case map_of mime_table suffix of
     Some m \<Rightarrow> m
   | None \<Rightarrow> (case map_of mime_table ''default'' of Some d \<Rightarrow> d | None \<Rightarrow> []))"

section \<open>Status tables\<close>

abbreviation (input) "kStatusUnknown \<equiv> 0 :: int"
abbreviation (input) "k200Ok \<equiv> 200 :: int"
abbreviation (input) "k400BadRequest \<equiv> 400 :: int"
abbreviation (input) "k403Forbidden \<equiv> 403 :: int"
abbreviation (input) "k404NotFound \<equiv> 404 :: int"
abbreviation (input) "k500InternalServerError \<equiv> 500 :: int"
abbreviation (input) "k502BadGateway \<equiv> 502 :: int"

definition statusMessageMap :: "(int \<times> string) list" where
  "statusMessageMap =
    [(0, ''Unknown''),
     (200, ''OK''),
     (202, ''No Content''),
     (206, ''Partial Content''),
     (301, ''Moved Permanently''),
     (302, ''Found''),
     (303, ''SeeOther''),
     (304, ''Not Modified''),
     (307, ''Temporary Redirect''),
     (400, ''Bad Request''),
     (401, ''Unauthorized''),
     (403, ''Forbidden''),
     (404, ''Not Found''),
     (500, ''Internal Server Error''),
     (502, ''Bad Gateway''),
     (503, ''Service Unavailable'')]"

definition html_page :: "string \<Rightarrow> string \<Rightarrow> string" where
  "html_page title heading =
     ''<!DOCTYPE html><html lang='' @ [CHR 0x22] @ ''en'' @ [CHR 0x22] @ ''><head><meta charset=''
     @ [CHR 0x22] @ ''UTF-8'' @ [CHR 0x22] @ ''>'' @ ''<title>'' @ title
     @ ''</title></head><body><h1>'' @ heading @ ''</h1></body></html>''"

definition bodyMessageMap :: "(int \<times> string) list" where
  "bodyMessageMap =
    [(401, html_page ''Unauthorized'' ''Unauthorized''),
     (403, html_page ''Forbidden'' ''Forbidden''),
     (404, html_page ''404 Not Found'' ''Not Found''),
     (500, html_page ''Internal Server Error'' ''500 Internal Server Error''),
     (502, html_page ''Bad Gateway'' ''502 Bad Gateway''),
     (503, html_page ''Service Unavailable'' ''503 Service Unavailable'')]"

section \<open>The response\<close>

record HttpResponse =
  resp_headers :: "(string \<times> string) list"
  resp_statusCode :: int
  resp_version :: string
  resp_statusMessage :: string
  resp_closeConnection :: bool
  resp_body :: string
  resp_responseSize :: int
  resp_errorMsg :: string

definition HttpResponse_ctor :: "bool \<Rightarrow> HttpResponse" where
  "HttpResponse_ctor close = \<lparr>resp_headers = [], resp_statusCode = kStatusUnknown,
     resp_version = ''HTTP/1.1'', resp_statusMessage = [], resp_closeConnection = close,
     resp_body = [], resp_responseSize = 0, resp_errorMsg = []\<rparr>"

definition setStatusMessage :: "string \<Rightarrow> HttpResponse \<Rightarrow> HttpResponse" where
  "setStatusMessage m r = r\<lparr>resp_statusMessage := m\<rparr>"

definition resp_setBody :: "string \<Rightarrow> HttpResponse \<Rightarrow> HttpResponse" where
  "resp_setBody b r = r\<lparr>resp_body := b\<rparr>"

definition setStatusCode :: "int \<Rightarrow> HttpResponse \<Rightarrow> HttpResponse" where
  "setStatusCode code r =
     (let r1 = r\<lparr>resp_statusCode := code\<rparr>;
          r2 = (case map_of statusMessageMap code of Some m \<Rightarrow> setStatusMessage m r1 | None \<Rightarrow> r1)
      in case map_of bodyMessageMap code of Some b \<Rightarrow> resp_setBody b r2 | None \<Rightarrow> r2)"

definition resp_setVersion :: "string \<Rightarrow> HttpResponse \<Rightarrow> HttpResponse" where
  "resp_setVersion v r = r\<lparr>resp_version := v\<rparr>"

definition setCloseConnection :: "bool \<Rightarrow> HttpResponse \<Rightarrow> HttpResponse" where
  "setCloseConnection on r = r\<lparr>resp_closeConnection := on\<rparr>"

definition resp_addHeader :: "string \<Rightarrow> string \<Rightarrow> HttpResponse \<Rightarrow> HttpResponse" where
  "resp_addHeader key val r = r\<lparr>resp_headers := umap_put key val (resp_headers r)\<rparr>"

definition setContentType :: "string \<Rightarrow> HttpResponse \<Rightarrow> HttpResponse" where
  "setContentType ct = resp_addHeader ''Content-Type'' ct"

definition resp_addHeader_line :: "string \<Rightarrow> nat \<Rightarrow> HttpResponse \<Rightarrow> HttpResponse" where
  "resp_addHeader_line line colon r =
     r\<lparr>resp_headers := umap_put (take colon line) (trim (drop (colon + 1) line)) (resp_headers r)\<rparr>"

definition resp_getHeader :: "string \<Rightarrow> HttpResponse \<Rightarrow> string" where
  "resp_getHeader field r = (case map_of (resp_headers r) field of Some v \<Rightarrow> v | None \<Rightarrow> [])"

definition isError :: "HttpResponse \<Rightarrow> bool" where
  "isError r \<longleftrightarrow> k500InternalServerError \<le> resp_statusCode r"

definition setResponseSize :: "int \<Rightarrow> HttpResponse \<Rightarrow> HttpResponse" where
  "setResponseSize n r = r\<lparr>resp_responseSize := n\<rparr>"

definition setErrorMsg :: "string \<Rightarrow> HttpResponse \<Rightarrow> HttpResponse" where
  "setErrorMsg m r = r\<lparr>resp_errorMsg := m\<rparr>"

text \<open>\<^verbatim>\<open>swap\<close> leaves \<^verbatim>\<open>responseSize_\<close> and \<^verbatim>\<open>serverErrorMsg_\<close> where they are.\<close>

definition resp_swap :: "HttpResponse \<Rightarrow> HttpResponse \<Rightarrow> HttpResponse \<times> HttpResponse" where
  "resp_swap a b =
     (b\<lparr>resp_responseSize := resp_responseSize a, resp_errorMsg := resp_errorMsg a\<rparr>,
      a\<lparr>resp_responseSize := resp_responseSize b, resp_errorMsg := resp_errorMsg b\<rparr>)"

text \<open>The pieces \<^verbatim>\<open>appendToBuffer\<close> appends; \<open>iter\<close> is the iteration order of the header map.\<close>

type_synonym iteration_order = "(string \<times> string) list \<Rightarrow> (string \<times> string) list"

definition status_pieces :: "HttpResponse \<Rightarrow> string list" where
  "status_pieces r =
     [snprintf 64 (c_str (resp_version r) @ '' '' @ dec_int (resp_statusCode r) @ '' ''),
      resp_statusMessage r, CRLF]"

definition length_pieces :: "HttpResponse \<Rightarrow> string list" where
  "length_pieces r =
     (if resp_body r \<noteq> [] \<and> map_of (resp_headers r) ''Content-Length'' = None
      then [snprintf 64 (''Content-Length: '' @ dec_nat (length (resp_body r)) @ CRLF)] else [])"

definition response_pieces :: "iteration_order \<Rightarrow> HttpResponse \<Rightarrow> string list" where
  "response_pieces iter r =
     status_pieces r @ length_pieces r @ header_pieces (iter (resp_headers r)) @ [CRLF]
     @ (if resp_body r \<noteq> [] then [resp_body r] else [])"

definition response_appendToBuffer :: "iteration_order \<Rightarrow> HttpResponse \<Rightarrow> buffer \<Rightarrow> buffer result" where
  "response_appendToBuffer iter r output = append_each (response_pieces iter r) output"

section \<open>Lemmas\<close>

lemmas response_defs = setStatusMessage_def resp_setBody_def resp_setVersion_def resp_addHeader_line_def
  setCloseConnection_def resp_addHeader_def setContentType_def setResponseSize_def setErrorMsg_def

lemma setStatusCode_fields [simp]:
  "resp_statusCode (setStatusCode c r) = c"
  "resp_headers (setStatusCode c r) = resp_headers r"
  "resp_version (setStatusCode c r) = resp_version r"
  "resp_closeConnection (setStatusCode c r) = resp_closeConnection r"
  "resp_responseSize (setStatusCode c r) = resp_responseSize r"
  "resp_errorMsg (setStatusCode c r) = resp_errorMsg r"
  by (simp_all add: setStatusCode_def Let_def response_defs split: option.splits)

lemma setStatusCode_body:
  "resp_body (setStatusCode c r) =
     (case map_of bodyMessageMap c of Some b \<Rightarrow> b | None \<Rightarrow> resp_body r)"
  by (simp add: setStatusCode_def Let_def response_defs split: option.splits)

lemma response_appendToBuffer_ok:
  "buffer_wf b \<Longrightarrow> \<exists>b1. response_appendToBuffer iter r b = Inr b1 \<and> buffer_wf b1 \<and>
     content b1 = content b @ concat (response_pieces iter r)"
  using append_each_ok unfolding response_appendToBuffer_def by blast

lemma resp_getHeader_addHeader:
  "resp_getHeader f (resp_addHeader f' v r) = (if f = f' then v else resp_getHeader f r)"
  by (simp add: resp_getHeader_def resp_addHeader_def)

end
