(* ===== verification/Net_Inet.thy ===== *)
theory Net_Inet
  imports Net_Buffer
begin

text \<open>
  \<^verbatim>\<open>net/InetAddress.{h,cc}\<close> and the address functions of \<^verbatim>\<open>net/SocketsOps.cc\<close>, for IPv4: a
  \<^verbatim>\<open>sockaddr_in\<close> with address and port in network byte order. \<^verbatim>\<open>inet_pton\<close> and \<^verbatim>\<open>inet_ntop\<close> of the C
  library are written out for \<^verbatim>\<open>AF_INET\<close>. IPv6 addresses are not modelled: the sources create none
  unless asked to.
\<close>

record InetAddress =
  sin_addr :: "32 word"
  sin_port :: "16 word"

definition kInaddrAny :: "32 word" where "kInaddrAny = 0"
definition kInaddrLoopback :: "32 word" where "kInaddrLoopback = 0x7f000001"

definition InetAddress_port :: "16 word \<Rightarrow> bool \<Rightarrow> InetAddress" where
  "InetAddress_port port loopbackOnly =
     \<lparr>sin_addr = hostToNetwork32 (if loopbackOnly then kInaddrLoopback else kInaddrAny),
      sin_port = hostToNetwork16 port\<rparr>"

text \<open>Dotted-quad notation as \<^verbatim>\<open>inet_pton\<close> accepts it: four decimal octets without leading
  zeros.\<close>

fun split_dots :: "string \<Rightarrow> string list" where
  "split_dots [] = [[]]"
| "split_dots (c # s) = (if c = CHR ''.'' then [] # split_dots s
     else (c # hd (split_dots s)) # tl (split_dots s))"

definition octet :: "string \<Rightarrow> nat option" where
  "octet s = (if s \<noteq> [] \<and> list_all isdigit s \<and> (length s = 1 \<or> hd s \<noteq> CHR ''0'') \<and> digits_val s < 256
     then Some (digits_val s) else None)"

definition inet_pton :: "string \<Rightarrow> 32 word option" where
  "inet_pton s =
     (let parts = split_dots s
      in if length parts = 4 \<and> list_all (\<lambda>p. octet p \<noteq> None) parts
         then Some (mem_word (map (\<lambda>p. char_of (the (octet p))) parts)) else None)"

fun join_dots :: "string list \<Rightarrow> string" where
  "join_dots [] = []"
| "join_dots [s] = s"
| "join_dots (s # ss) = s @ ''.'' @ join_dots ss"

definition inet_ntop :: "32 word \<Rightarrow> string" where
  "inet_ntop a = join_dots (map (\<lambda>c. dec_nat (of_char c)) (mem_bytes 4 a))"

text \<open>A string that is no address is logged and leaves the zeroed address.\<close>

definition fromIpPort :: "string \<Rightarrow> 16 word \<Rightarrow> InetAddress \<Rightarrow> InetAddress" where
  "fromIpPort ip port addr =
     (let a = addr\<lparr>sin_port := hostToNetwork16 port\<rparr>
      in case inet_pton (c_str ip) of Some w \<Rightarrow> a\<lparr>sin_addr := w\<rparr> | None \<Rightarrow> a)"

definition InetAddress_ip :: "string \<Rightarrow> 16 word \<Rightarrow> InetAddress" where
  "InetAddress_ip ip port = fromIpPort ip port \<lparr>sin_addr = 0, sin_port = 0\<rparr>"

definition toIp :: "InetAddress \<Rightarrow> string" where
  "toIp a = inet_ntop (sin_addr a)"

definition toPort :: "InetAddress \<Rightarrow> 16 word" where
  "toPort a = networkToHost16 (sin_port a)"

definition toIpPort :: "InetAddress \<Rightarrow> string result" where
  "toIpPort a =
     (let ip = toIp a; n = length ip
      in andThen (check (n < 64)) (\<lambda>_. Inr (ip @ snprintf (64 - n) ('':'' @ dec_nat (unat (toPort a))))))"

definition isSelfConnect :: "InetAddress \<Rightarrow> InetAddress \<Rightarrow> bool" where
  "isSelfConnect local peer \<longleftrightarrow> sin_port local = sin_port peer \<and> sin_addr local = sin_addr peer"

section \<open>Lemmas\<close>

lemma split_dots_nonempty [simp]: "split_dots s \<noteq> []"
  by (cases s) simp_all

lemma split_dots_clean: "CHR ''.'' \<notin> set s \<Longrightarrow> split_dots s = [s]"
  by (induction s) auto

lemma split_dots_append:
  "CHR ''.'' \<notin> set s \<Longrightarrow> split_dots (s @ CHR ''.'' # t) = s # split_dots t"
  by (induction s) auto

lemma split_join_dots:
  "ss \<noteq> [] \<Longrightarrow> list_all (\<lambda>s. CHR ''.'' \<notin> set s) ss \<Longrightarrow> split_dots (join_dots ss) = ss"
  by (induction ss rule: join_dots.induct) (auto simp: split_dots_clean split_dots_append)

lemma dec_nat_no_dot: "CHR ''.'' \<notin> set (dec_nat n)"
  using dec_nat_digits[of n] by (auto simp: isdigit_def)

lemma dec_nat_head: "10 \<le> n \<Longrightarrow> hd (dec_nat n) \<noteq> CHR ''0''"
proof (induction n rule: dec_nat.induct)
  case (1 n)
  have d: "dec_nat n = dec_nat (n div 10) @ [char_of (48 + n mod 10)]"
    using 1(2) by (subst dec_nat.simps) simp
  show ?case
  proof (cases "10 \<le> n div 10")
    case True
    with 1 show ?thesis unfolding d by simp
  next
    case False
    then have "dec_nat (n div 10) = [char_of (48 + n div 10)]" by (subst dec_nat.simps) simp
    moreover have "char_of (48 + n div 10) \<noteq> CHR ''0''"
    proof
      assume "char_of (48 + n div 10) = CHR ''0''"
      then have "digit_val (char_of (48 + n div 10)) = digit_val (CHR ''0'')" by simp
      then have "n div 10 = 0" using digit_val_of_digit[of "n div 10"] False by (simp add: digit_val_def)
      with 1(2) show False by simp
    qed
    ultimately show ?thesis unfolding d by simp
  qed
qed

lemma octet_dec_nat: "n < 256 \<Longrightarrow> octet (dec_nat n) = Some n"
proof -
  assume n: "n < 256"
  have "length (dec_nat n) = 1 \<or> hd (dec_nat n) \<noteq> CHR ''0''"
    using dec_nat_head[of n] by (cases "n < 10") (simp_all add: dec_nat.simps)
  then show ?thesis using n dec_nat_digits[of n] by (simp add: octet_def list_all_iff)
qed

lemma inet_pton_ntop: "inet_pton (inet_ntop a) = Some a"
proof -
  let ?parts = "map (\<lambda>c. dec_nat (of_char c)) (mem_bytes 4 a)"
  have ne: "?parts \<noteq> []" by (metis length_mem_bytes length_map length_0_conv zero_neq_numeral)
  have "split_dots (inet_ntop a) = ?parts"
    unfolding inet_ntop_def by (rule split_join_dots[OF ne]) (simp add: list_all_iff dec_nat_no_dot)
  moreover have "octet (dec_nat (of_char c)) = Some (of_char c)" for c :: char
    by (rule octet_dec_nat) simp
  ultimately show ?thesis
    by (simp add: inet_pton_def Let_def list_all_iff o_def mem_word_mem_bytes)
qed

lemma inet_ntop_length: "length (inet_ntop a) \<le> 15"
proof -
  have b: "length (dec_nat (n mod 256)) \<le> 3" for n
  proof -
    have "n mod 256 < 10 ^ Suc 2" by (rule less_le_trans[of _ 256]) simp_all
    then show ?thesis using length_dec_nat[of "n mod 256" 2] by simp
  qed
  show ?thesis
    using b[of "unat a"] b[of "unat a div 256"] b[of "unat a div 65536"] b[of "unat a div 16777216"]
    by (simp add: inet_ntop_def mem_bytes_def upt_rec)
qed

lemma inet_ntop_no_NUL: "NUL \<notin> set (inet_ntop a)"
proof -
  have "NUL \<notin> set (dec_nat n)" for n using dec_nat_digits[of n] by (auto simp: isdigit_def)
  then show ?thesis by (simp add: inet_ntop_def mem_bytes_def upt_rec)
qed

lemma length_dec_port: "length (dec_nat (unat (p :: 16 word))) \<le> 5"
proof -
  have "unat p < 2 ^ 16" using unsigned_less[of p] by simp
  then show ?thesis using length_dec_nat[of "unat p" 4] by simp
qed

text \<open>
  Addresses round trip: the text form of an IPv4 address, given back to the constructor with
  the port, yields the same address, and \<^verbatim>\<open>toIpPort\<close> is the address, a colon and the port, within
  its 64-byte buffer, so its assert holds and nothing is cut off.
\<close>

theorem inet_address_roundtrip:
  "InetAddress_ip (toIp a) (toPort a) = a \<and>
   toIpPort a = Inr (toIp a @ '':'' @ dec_nat (unat (toPort a))) \<and>
   toPort (InetAddress_port p lo) = p \<and> toPort (InetAddress_ip ip p) = p"
proof -
  have sw: "hostToNetwork16 (networkToHost16 x) = x" for x
    using network_host_inverse(3)[of x] by (simp add: hostToNetwork16_def networkToHost16_def)
  have 1: "InetAddress_ip (toIp a) (toPort a) = a"
    by (simp add: InetAddress_ip_def fromIpPort_def toIp_def toPort_def sw c_str_id inet_ntop_no_NUL inet_pton_ntop)
  have 2: "toIpPort a = Inr (toIp a @ '':'' @ dec_nat (unat (toPort a)))"
    using inet_ntop_length[of "sin_addr a"] length_dec_port[of "toPort a"]
    by (simp add: toIpPort_def toIp_def Let_def snprintf_id)
  have 3: "toPort (InetAddress_port p lo) = p" "toPort (InetAddress_ip ip p) = p"
    by (simp_all add: InetAddress_port_def InetAddress_ip_def fromIpPort_def toPort_def Let_def
        network_host_inverse split: option.splits)
  from 1 2 3 show ?thesis by simp
qed

end
