(* ===== verification/Http_Proxy.thy ===== *)
theory Http_Proxy
  imports Http_Context Http_Response Net_Inet
begin

text \<open>
  \<^verbatim>\<open>http/HttpProxy.{h,cpp}\<close>: the client that forwards one request to an upstream. It buffers the
  printed request until the upstream connection is up. What it asks of a connection is a list of
  actions; \<open>Send\<close> carries the bytes, a delay is in microseconds.
\<close>

datatype conn_action = Send string | Shutdown | ForceClose | ForceCloseWithDelay int

record HttpProxy =
  hp_upstreamAddr :: InetAddress
  hp_name :: string
  hp_forwardBuff :: buffer

definition HttpProxy_ctor :: "InetAddress \<Rightarrow> string \<Rightarrow> HttpProxy result" where
  "HttpProxy_ctor addr name = andThen (buffer_ctor kInitialSize) (\<lambda>b.
     Inr \<lparr>hp_upstreamAddr = addr, hp_name = name, hp_forwardBuff = b\<rparr>)"

text \<open>\<^verbatim>\<open>conn->send(&buf)\<close> of a connected connection sends the readable bytes and empties the buffer.\<close>

definition send_buffer :: "buffer \<Rightarrow> conn_action \<times> buffer" where
  "send_buffer b = (Send (byte_range b (peek b) (peek b + readableBytes b)), retrieveAll b)"

definition forward :: "bool \<Rightarrow> HttpRequest \<Rightarrow> HttpProxy \<Rightarrow> (conn_action list \<times> HttpProxy) result" where
  "forward connected request p =
     andThen (request_appendToBuffer request (hp_forwardBuff p)) (\<lambda>b.
       if connected then (case send_buffer b of (a, b') \<Rightarrow> Inr ([a], p\<lparr>hp_forwardBuff := b'\<rparr>))
       else Inr ([], p\<lparr>hp_forwardBuff := b\<rparr>))"

definition onUpstreamConnected :: "bool \<Rightarrow> HttpProxy \<Rightarrow> conn_action list \<times> HttpProxy" where
  "onUpstreamConnected connected p =
     (if connected \<and> readableBytes (hp_forwardBuff p) \<noteq> 0 then
        (case send_buffer (hp_forwardBuff p) of (a, b') \<Rightarrow> ([a], p\<lparr>hp_forwardBuff := b'\<rparr>))
      else ([], p))"

definition hp_wf :: "HttpProxy \<Rightarrow> bool" where
  "hp_wf p \<longleftrightarrow> buffer_wf (hp_forwardBuff p)"

lemma HttpProxy_ctor_ok:
  "\<exists>p. HttpProxy_ctor addr name = Inr p \<and> hp_wf p \<and> content (hp_forwardBuff p) = [] \<and>
     hp_upstreamAddr p = addr \<and> hp_name p = name"
  by (simp add: HttpProxy_ctor_def hp_wf_def)

lemma forward_unconnected:
  assumes "hp_wf p"
  shows "\<exists>p'. forward False r p = Inr ([], p') \<and> hp_wf p' \<and>
    content (hp_forwardBuff p') = content (hp_forwardBuff p) @ concat (request_pieces r) \<and>
    hp_upstreamAddr p' = hp_upstreamAddr p \<and> hp_name p' = hp_name p"
  using append_each_ok[of "hp_forwardBuff p" "request_pieces r"] assms
  by (auto simp: forward_def request_appendToBuffer_def hp_wf_def)

lemma send_buffer_content: "buffer_wf b \<Longrightarrow> fst (send_buffer b) = Send (content b)"
  by (simp add: send_buffer_def byte_range_prefix length_content[symmetric])

lemma onUpstreamConnected_sends:
  assumes "hp_wf p"
  shows "fst (onUpstreamConnected True p) =
    (if content (hp_forwardBuff p) = [] then [] else [Send (content (hp_forwardBuff p))])"
proof -
  have "readableBytes (hp_forwardBuff p) = length (content (hp_forwardBuff p))"
    using assms by (simp add: hp_wf_def length_content)
  with assms send_buffer_content[of "hp_forwardBuff p"] show ?thesis
    by (auto simp: onUpstreamConnected_def hp_wf_def split: prod.splits)
qed

end
