(* ===== verification/Http_ResponseContext.thy ===== *)
theory Http_ResponseContext
  imports Http_Response Http_Context
begin

text \<open>
  \<^verbatim>\<open>http/HttpResponseContext.{h,cpp}\<close>: the parser of upstream responses. Its loop need not end (the
  body state makes no progress while the body is incomplete), so \<open>parseResponse\<close> is a partial
  function whose value \<open>None\<close> is a call that never returns. Its parameter \<^verbatim>\<open>receiveTime\<close> is unused.
\<close>

datatype HttpResponseParseState = kExpectStatusLine | kExpectHeaders_resp | kExpectBody_resp | kGotAll_resp

record HttpResponseContext =
  rctx_state :: HttpResponseParseState
  rctx_response :: HttpResponse

definition HttpResponseContext_ctor :: HttpResponseContext where
  "HttpResponseContext_ctor = \<lparr>rctx_state = kExpectStatusLine, rctx_response = HttpResponse_ctor False\<rparr>"

definition rctx_gotAll :: "HttpResponseContext \<Rightarrow> bool" where
  "rctx_gotAll c \<longleftrightarrow> rctx_state c = kGotAll_resp"

definition rctx_reset :: "HttpResponseContext \<Rightarrow> HttpResponseContext" where
  "rctx_reset c = \<lparr>rctx_state = kExpectStatusLine,
     rctx_response = fst (resp_swap (rctx_response c) (HttpResponse_ctor False))\<rparr>"

definition parseStatusLine :: "string \<Rightarrow> HttpResponse \<Rightarrow> HttpParseState \<times> HttpResponse" where
  "parseStatusLine line r =
     (let space = find_char (CHR '' '') line
      in if space = length line then (kBadMessage, r)
         else
           let r1 = resp_setVersion (take space line) r;
               rest = drop (space + 1) line;
               space2 = find_char (CHR '' '') rest
           in if space2 = length rest then (kBadMessage, r1)
              else (case stoi (take space2 rest) of
                Inl e \<Rightarrow> (kBadMessage, r1)
              | Inr code \<Rightarrow>
                  let r2 = setStatusCode code r1;
                      message = drop (space2 + 1) rest
                  in if message \<noteq> [] then (kParseOK, setStatusMessage message r2)
                     else (kBadMessage, r2)))"

definition resp_parseHeaders :: "string \<Rightarrow> HttpResponse \<Rightarrow> HttpParseState \<times> HttpResponse" where
  "resp_parseHeaders line r =
     (let colon = find_char (CHR '':'') line
      in if colon \<noteq> length line then (kParseAgain, resp_addHeader_line line colon r)
         else if line = [] then (kHeaderEnd, r)
         else (kBadMessage, r))"

text \<open>The content length the body state waits for: \<open>Inr None\<close> when the header is absent or
  empty.\<close>

definition resp_length :: "HttpResponse \<Rightarrow> nat option result" where
  "resp_length r =
     (let s = resp_getHeader ''Content-Length'' r
      in if s = [] then Inr None else andThen (stoi s) (\<lambda>i. Inr (Some (size_t_of_int i))))"

definition resp_parseBody :: "buffer \<Rightarrow> HttpResponse \<Rightarrow> (HttpParseState \<times> HttpResponse \<times> buffer) result" where
  "resp_parseBody buf r = (case resp_length r of
     Inl e \<Rightarrow> Inr (kBadMessage, r, buf)
   | Inr None \<Rightarrow> Inr (kParseOK, r, buf)
   | Inr (Some n) \<Rightarrow>
       if readableBytes buf < n then Inr (kParseAgain, r, buf)
       else andThen (retrieve n buf) (\<lambda>buf'.
         Inr (kParseOK, resp_setBody (byte_range buf (peek buf) (peek buf + n)) r, buf')))"

partial_function (option) parseResponse :: "HttpResponseContext \<Rightarrow> buffer
    \<Rightarrow> (HttpParseState \<times> HttpResponseContext \<times> buffer) result option" where
  "parseResponse c buf = (case rctx_state c of
     kExpectStatusLine \<Rightarrow>
       (case findCRLF buf of
          Some crlf \<Rightarrow>
            (case parseStatusLine (byte_range buf (peek buf) crlf) (rctx_response c) of (h, r) \<Rightarrow>
               if h = kParseOK \<or> h = kBadMessage then
                 (case retrieveUntil (crlf + 2) buf of
                    Inl e \<Rightarrow> Some (Inl e)
                  | Inr buf' \<Rightarrow>
                      if h = kParseOK
                      then parseResponse (c\<lparr>rctx_response := r, rctx_state := kExpectHeaders_resp\<rparr>) buf'
                      else Some (Inr (kBadMessage, c\<lparr>rctx_response := r\<rparr>, buf')))
               else Some (Inr (kParseAgain, c\<lparr>rctx_response := r\<rparr>, buf)))
        | None \<Rightarrow> Some (Inr (kParseAgain, c, buf)))
   | kExpectHeaders_resp \<Rightarrow>
       (case findCRLF buf of
          Some crlf \<Rightarrow>
            (case resp_parseHeaders (byte_range buf (peek buf) crlf) (rctx_response c) of (h, r) \<Rightarrow>
               (case retrieveUntil (crlf + 2) buf of
                  Inl e \<Rightarrow> Some (Inl e)
                | Inr buf' \<Rightarrow>
                    if h = kBadMessage then Some (Inr (kBadMessage, c\<lparr>rctx_response := r\<rparr>, buf'))
                    else parseResponse
                      (c\<lparr>rctx_response := r,
                         rctx_state := (if h = kHeaderEnd then kExpectBody_resp else kExpectHeaders_resp)\<rparr>)
                      buf'))
        | None \<Rightarrow> Some (Inr (kParseAgain, c, buf)))
   | kExpectBody_resp \<Rightarrow>
       (case resp_parseBody buf (rctx_response c) of
          Inl e \<Rightarrow> Some (Inl e)
        | Inr (h, r, buf') \<Rightarrow>
            if h = kParseOK
            then parseResponse (c\<lparr>rctx_response := r, rctx_state := kGotAll_resp\<rparr>) buf'
            else if h = kParseAgain then parseResponse (c\<lparr>rctx_response := r\<rparr>) buf'
            else Some (Inr (kBadMessage, c\<lparr>rctx_response := r\<rparr>, buf')))
   | kGotAll_resp \<Rightarrow> Some (Inr (kParseOK, c, buf)))"

section \<open>The specification on byte sequences\<close>

datatype response_outcome =
    Returns HttpParseState HttpResponseContext string
  | Spins

fun rstate_rank :: "HttpResponseParseState \<Rightarrow> nat" where
  "rstate_rank kExpectStatusLine = 3"
| "rstate_rank kExpectHeaders_resp = 2"
| "rstate_rank kExpectBody_resp = 1"
| "rstate_rank kGotAll_resp = 0"

function response_stream :: "HttpResponseContext \<Rightarrow> string \<Rightarrow> response_outcome" where
  "response_stream c s = (case rctx_state c of
     kExpectStatusLine \<Rightarrow>
       (case search_crlf s of
          Some i \<Rightarrow>
            (case parseStatusLine (take i s) (rctx_response c) of (h, r) \<Rightarrow>
               if h = kParseOK
               then response_stream (c\<lparr>rctx_response := r, rctx_state := kExpectHeaders_resp\<rparr>) (drop (i + 2) s)
               else Returns kBadMessage (c\<lparr>rctx_response := r\<rparr>) (drop (i + 2) s))
        | None \<Rightarrow> Returns kParseAgain c s)
   | kExpectHeaders_resp \<Rightarrow>
       (case search_crlf s of
          Some i \<Rightarrow>
            (case resp_parseHeaders (take i s) (rctx_response c) of (h, r) \<Rightarrow>
               if h = kBadMessage then Returns kBadMessage (c\<lparr>rctx_response := r\<rparr>) (drop (i + 2) s)
               else response_stream
                 (c\<lparr>rctx_response := r,
                    rctx_state := (if h = kHeaderEnd then kExpectBody_resp else kExpectHeaders_resp)\<rparr>)
                 (drop (i + 2) s))
        | None \<Rightarrow> Returns kParseAgain c s)
   | kExpectBody_resp \<Rightarrow>
       (case resp_length (rctx_response c) of
          Inl e \<Rightarrow> Returns kBadMessage c s
        | Inr None \<Rightarrow> Returns kParseOK (c\<lparr>rctx_state := kGotAll_resp\<rparr>) s
        | Inr (Some n) \<Rightarrow>
            if length s < n then Spins
            else Returns kParseOK
              (c\<lparr>rctx_response := resp_setBody (take n s) (rctx_response c), rctx_state := kGotAll_resp\<rparr>)
              (drop n s))
   | kGotAll_resp \<Rightarrow> Returns kParseOK c s)"
  by pat_completeness auto
termination
  by (relation "measures [\<lambda>(c, s). rstate_rank (rctx_state c), \<lambda>(c, s). length s]")
    (auto dest: search_crlf_Some)

declare response_stream.simps [simp del]

text \<open>What a call on a buffer does when the stream parser gives an outcome.\<close>

definition agrees :: "(HttpParseState \<times> HttpResponseContext \<times> buffer) result option \<Rightarrow> response_outcome \<Rightarrow> bool" where
  "agrees p out = (case out of
     Spins \<Rightarrow> p = None
   | Returns h c s \<Rightarrow> (\<exists>b. p = Some (Inr (h, c, b)) \<and> buffer_wf b \<and> content b = s))"

lemma parseStatusLine_verdict:
  "parseStatusLine l r = (h, r') \<Longrightarrow> h = kParseOK \<or> h = kBadMessage"
  by (auto simp: parseStatusLine_def Let_def split: if_splits sum.splits)

lemma resp_parseHeaders_verdict:
  "resp_parseHeaders l r = (h, r') \<Longrightarrow> h = kHeaderEnd \<or> h = kBadMessage \<or> h = kParseAgain"
  by (auto simp: resp_parseHeaders_def Let_def split: if_splits)

lemma resp_parseBody_content:
  assumes "buffer_wf b"
  shows "resp_length r = Inl e \<Longrightarrow> resp_parseBody b r = Inr (kBadMessage, r, b)"
    "resp_length r = Inr None \<Longrightarrow> resp_parseBody b r = Inr (kParseOK, r, b)"
    "resp_length r = Inr (Some n) \<Longrightarrow> length (content b) < n \<Longrightarrow> resp_parseBody b r = Inr (kParseAgain, r, b)"
    "resp_length r = Inr (Some n) \<Longrightarrow> n \<le> length (content b) \<Longrightarrow>
       \<exists>b'. resp_parseBody b r = Inr (kParseOK, resp_setBody (take n (content b)) r, b')
         \<and> buffer_wf b' \<and> content b' = drop n (content b)"
  using assms retrieve_ok[OF assms, of n]
  by (auto simp: resp_parseBody_def length_content byte_range_prefix)

text \<open>While the body is incomplete an iteration of the loop changes nothing, so no number of
  iterations returns.\<close>

lemma parseResponse_spins:
  assumes "resp_parseBody b (rctx_response c) = Inr (kParseAgain, rctx_response c, b)"
    "rctx_state c = kExpectBody_resp"
  shows "parseResponse c b = None"
proof -
  have "\<not> (c' = c \<and> b' = b)" if "parseResponse c' b' = Some res" for c' b' res
  proof (rule parseResponse.raw_induct[OF _ that, where P = "\<lambda>c' b' _. \<not> (c' = c \<and> b' = b)"], goal_cases)
    case (1 f c' b' res)
    show ?case
    proof
      assume "c' = c \<and> b' = b"
      with 1(2) assms have "f c b = Some res" by simp
      from 1(1)[OF this] show False by simp
    qed
  qed
  then show ?thesis by (cases "parseResponse c b") auto
qed


lemmas parse_once = parseResponse.simps[of c b] response_stream.simps[of c "content b"] for c b

lemma parseResponse_done: "buffer_wf b \<Longrightarrow> rctx_state c = kGotAll_resp \<Longrightarrow>
   parseResponse c b = Some (Inr (kParseOK, c, b))"
  by (simp add: parseResponse.simps)

lemma parseResponse_body:
  assumes "buffer_wf b" "rctx_state c = kExpectBody_resp"
  shows "agrees (parseResponse c b) (response_stream c (content b))"
proof (cases "resp_length (rctx_response c)")
  case (Inl e)
  with assms resp_parseBody_content(1)[OF assms(1) Inl] show ?thesis
    by (simp add: parse_once agrees_def)
next
  case (Inr len)
  show ?thesis
  proof (cases len)
    case None
    with assms Inr resp_parseBody_content(2)[OF assms(1), of "rctx_response c"] show ?thesis
      by (simp add: parse_once agrees_def parseResponse_done)
  next
    case (Some n)
    show ?thesis
    proof (cases "length (content b) < n")
      case True
      with assms Inr Some resp_parseBody_content(3)[OF assms(1), of "rctx_response c" n] show ?thesis
        by (simp add: parseResponse_spins agrees_def response_stream.simps[of c])
    next
      case False
      with Inr Some resp_parseBody_content(4)[OF assms(1), of "rctx_response c" n]
      obtain b' where "resp_parseBody b (rctx_response c) =
            Inr (kParseOK, resp_setBody (take n (content b)) (rctx_response c), b')"
          "buffer_wf b'" "content b' = drop n (content b)"
        by auto
      with assms Inr Some False show ?thesis
        by (simp add: parse_once agrees_def parseResponse_done)
    qed
  qed
qed

lemma parseResponse_refines:
  "buffer_wf b \<Longrightarrow> agrees (parseResponse c b) (response_stream c (content b))"
proof (induction c "content b" arbitrary: b rule: response_stream.induct)
  case (1 c)
  show ?case
  proof (cases "search_crlf (content b)")
    case None
    then have f: "findCRLF b = None" by (simp add: findCRLF_content)
    show ?thesis
      using None f 1(3) parseResponse_body[OF 1(3), of c]
      by (cases "rctx_state c") (simp_all add: parse_once agrees_def)
  next
    case (Some i)
    obtain b' where b': "findCRLF b = Some (peek b + i)"
      "byte_range b (peek b) (peek b + i) = take i (content b)"
      "retrieveUntil (peek b + i + 2) b = Inr b'" "buffer_wf b'" "content b' = drop (i + 2) (content b)"
      using crlf_step[OF 1(3) Some] by blast
    show ?thesis
    proof (cases "rctx_state c")
      case kExpectStatusLine
      obtain h r where h: "parseStatusLine (take i (content b)) (rctx_response c) = (h, r)" by fastforce
      show ?thesis
      proof (cases "h = kParseOK")
        case True
        with 1(1)[OF kExpectStatusLine Some h[symmetric] True _ b'(4)] b' h Some kExpectStatusLine
        show ?thesis by (simp add: parse_once)
      next
        case False
        with parseStatusLine_verdict[OF h] b' h Some kExpectStatusLine show ?thesis
          by (simp add: parse_once agrees_def)
      qed
    next
      case kExpectHeaders_resp
      obtain h r where h: "resp_parseHeaders (take i (content b)) (rctx_response c) = (h, r)" by fastforce
      show ?thesis
      proof (cases "h = kBadMessage")
        case False
        with 1(2)[OF kExpectHeaders_resp Some h[symmetric] False _ b'(4)] b' h Some kExpectHeaders_resp
        show ?thesis by (simp add: parse_once)
      next
        case True
        with b' h Some kExpectHeaders_resp show ?thesis by (simp add: parse_once agrees_def)
      qed
    qed (use 1(3) parseResponse_body[OF 1(3), of c] in \<open>simp_all add: parse_once agrees_def\<close>)
  qed
qed

lemma response_stream_gotAll:
  "response_stream c s = Returns h c' rest \<Longrightarrow> rctx_state c' = kGotAll_resp \<Longrightarrow> h = kParseOK"
proof (induction c s rule: response_stream.induct)
  case (1 c s)
  from 1(3) show ?case
    by (subst (asm) response_stream.simps)
      (use 1(1,2,4) in \<open>auto split: HttpResponseParseState.splits option.splits prod.splits if_splits sum.splits\<close>)
qed

section \<open>Printed responses\<close>

text \<open>Responses that survive printing: a code of the enumeration's range, a version without
  spaces that fits the 64-byte line buffer, a reason phrase, clean headers, and a
  \<^verbatim>\<open>Content-Length\<close> that, if set, tells the truth (it must be set for an empty body when the status
  has a default body).\<close>

definition printable_response :: "HttpResponse \<Rightarrow> bool" where
  "printable_response r \<longleftrightarrow>
     0 \<le> resp_statusCode r \<and> resp_statusCode r < 1024
   \<and> length (resp_version r) \<le> 50
   \<and> CHR '' '' \<notin> set (resp_version r) \<and> NUL \<notin> set (resp_version r) \<and> CR \<notin> set (resp_version r)
   \<and> resp_statusMessage r \<noteq> [] \<and> CR \<notin> set (resp_statusMessage r)
   \<and> umap_wf (resp_headers r) \<and> list_all header_ok (resp_headers r)
   \<and> int (length (resp_body r)) \<le> int_max
   \<and> (case map_of (resp_headers r) ''Content-Length'' of
        Some v \<Rightarrow> v = dec_nat (length (resp_body r))
      | None \<Rightarrow> resp_body r \<noteq> [] \<or> map_of bodyMessageMap (resp_statusCode r) = None)"

definition headers_on_wire :: "iteration_order \<Rightarrow> HttpResponse \<Rightarrow> (string \<times> string) list" where
  "headers_on_wire iter r =
     (if resp_body r \<noteq> [] \<and> map_of (resp_headers r) ''Content-Length'' = None
      then [(''Content-Length'', dec_nat (length (resp_body r)))] else [])
     @ iter (resp_headers r)"

lemma concat_response_pieces:
  assumes "printable_response r"
  shows "concat (response_pieces iter r) =
    (resp_version r @ '' '' @ dec_nat (nat (resp_statusCode r)) @ '' '' @ resp_statusMessage r) @ CRLF @
    concat (header_pieces (headers_on_wire iter r)) @ CRLF @ resp_body r"
proof -
  have 1: "length (dec_nat (nat (resp_statusCode r))) \<le> 4"
    using assms length_dec_nat[of "nat (resp_statusCode r)" 3] by (auto simp: printable_response_def)
  have "length (resp_body r) < 10 ^ Suc 9"
    using assms by (simp add: printable_response_def int_max_def)
  then have 2: "length (dec_nat (length (resp_body r))) \<le> 10" using length_dec_nat by fastforce
  show ?thesis using 1 2 assms
    by (simp add: response_pieces_def status_pieces_def length_pieces_def headers_on_wire_def c_str_id
        snprintf_id header_pieces_def printable_response_def dec_int_def)
qed

lemma dec_nat_trimmed: "trimmed (dec_nat n)"
  using dec_nat_digits[of n] isdigit_not_space by (auto simp: trimmed_def)

lemma headers_on_wire_ok:
  assumes "printable_response r" "mset (iter (resp_headers r)) = mset (resp_headers r)"
  shows "list_all header_ok (headers_on_wire iter r)"
    "map_of (rev (headers_on_wire iter r)) =
       (if resp_body r \<noteq> [] then (map_of (resp_headers r))(''Content-Length'' \<mapsto> dec_nat (length (resp_body r)))
        else map_of (resp_headers r))"
proof -
  have "set (iter (resp_headers r)) = set (resp_headers r)" by (metis assms(2) mset_eq_setD)
  then show "list_all header_ok (headers_on_wire iter r)"
    using assms(1) by (auto simp: headers_on_wire_def printable_response_def list_all_iff header_ok_def
        dec_nat_trimmed)
  have m: "map_of (rev (iter (resp_headers r))) = map_of (resp_headers r)"
    using assms by (intro map_of_permute) (auto simp: printable_response_def)
  show "map_of (rev (headers_on_wire iter r)) =
       (if resp_body r \<noteq> [] then (map_of (resp_headers r))(''Content-Length'' \<mapsto> dec_nat (length (resp_body r)))
        else map_of (resp_headers r))"
    using assms(1)
    by (auto simp: headers_on_wire_def m map_add_def printable_response_def fun_eq_iff split: option.splits)
qed


lemma take_line: "take (length l) (l @ CR # LF # s) = l"
  by simp

lemma drop_line: "drop (length l + 2) (l @ CR # LF # s) = s"
  by simp

lemma resp_parseHeaders_line:
  assumes "header_ok (k, v)"
  shows "resp_parseHeaders (k @ '': '' @ v) r =
    (kParseAgain, r\<lparr>resp_headers := umap_put k v (resp_headers r)\<rparr>)"
proof -
  have "find_char (CHR '':'') (k @ '': '' @ v) = length k"
    using assms by (simp add: header_ok_def find_char_append)
  then show ?thesis using assms
    by (simp add: resp_parseHeaders_def Let_def resp_addHeader_line_def header_ok_def trim_pad)
qed

lemma response_stream_headers:
  "list_all header_ok hs \<Longrightarrow> rctx_state c = kExpectHeaders_resp \<Longrightarrow>
   response_stream c (concat (header_pieces hs) @ CRLF @ s) =
     response_stream (c\<lparr>rctx_state := kExpectBody_resp,
       rctx_response := (rctx_response c)\<lparr>resp_headers := umap.put_all hs (resp_headers (rctx_response c))\<rparr>\<rparr>) s"
proof (induction hs arbitrary: c)
  case Nil
  have e: "c\<lparr>rctx_response := rctx_response c, rctx_state := kExpectBody_resp\<rparr>
      = c\<lparr>rctx_state := kExpectBody_resp, rctx_response := (rctx_response c)\<lparr>resp_headers :=
          umap.put_all [] (resp_headers (rctx_response c))\<rparr>\<rparr>"
    by simp
  show ?case using Nil e
    by (simp add: response_stream.simps[of c] resp_parseHeaders_def find_char_def header_pieces_def)
next
  case (Cons h hs)
  obtain k v where h: "h = (k, v)" by (cases h)
  let ?l = "k @ '': '' @ v"
  let ?rest = "concat (header_pieces hs) @ CRLF @ s"
  let ?r = "(rctx_response c)\<lparr>resp_headers := umap_put k v (resp_headers (rctx_response c))\<rparr>"
  have sc: "search_crlf (?l @ CR # LF # ?rest) = Some (length ?l)"
    using Cons(2) h by (intro search_crlf_line' search_crlf_no_CR) (auto simp: header_ok_def)
  have eq: "concat (header_pieces (h # hs)) @ CRLF @ s = ?l @ CR # LF # ?rest"
    by (simp add: header_pieces_def h)
  have c: "c\<lparr>rctx_response := ?r, rctx_state := kExpectHeaders_resp\<rparr> = c\<lparr>rctx_response := ?r\<rparr>"
    using Cons(3) by (cases c) simp
  have tk: "take (length ?l) (?l @ CR # LF # ?rest) = ?l"
      "drop (length ?l + 2) (?l @ CR # LF # ?rest) = ?rest"
    by (rule take_line, rule drop_line)
  have "response_stream c (?l @ CR # LF # ?rest) = response_stream (c\<lparr>rctx_response := ?r\<rparr>) ?rest"
    using Cons(2,3) h c resp_parseHeaders_line[of k v "rctx_response c"]
    by (subst response_stream.simps) (simp only: sc tk option.case HttpResponseParseState.case list.pred_inject
        prod.case HttpParseState.distinct if_False)
  with Cons show ?case unfolding eq by (simp add: h)
qed

lemma parseStatusLine_print:
  assumes "printable_response r"
  shows "parseStatusLine
      (resp_version r @ '' '' @ dec_nat (nat (resp_statusCode r)) @ '' '' @ resp_statusMessage r) r0 =
    (kParseOK, setStatusMessage (resp_statusMessage r)
      (setStatusCode (resp_statusCode r) (resp_setVersion (resp_version r) r0)))"
proof -
  let ?d = "dec_nat (nat (resp_statusCode r))"
  let ?l = "resp_version r @ '' '' @ ?d @ '' '' @ resp_statusMessage r"
  have 1: "find_char (CHR '' '') ?l = length (resp_version r)"
    using find_char_append[of "CHR '' ''" "resp_version r"] assms by (simp add: printable_response_def)
  have 2: "find_char (CHR '' '') (?d @ '' '' @ resp_statusMessage r) = length ?d"
    using find_char_append[of "CHR '' ''" ?d] by simp
  have 3: "stoi ?d = Inr (resp_statusCode r)"
    using stoi_dec_nat_exact[of "nat (resp_statusCode r)"] assms
    by (auto simp: printable_response_def int_max_def)
  show ?thesis
    unfolding parseStatusLine_def Let_def 1 using assms 2 3
    by (simp add: printable_response_def)
qed

text \<open>The context after the head of a printed response: everything but the body.\<close>

definition head_context :: "iteration_order \<Rightarrow> HttpResponse \<Rightarrow> HttpResponseContext \<Rightarrow> HttpResponseContext" where
  "head_context iter r c =
     (let r0 = setStatusMessage (resp_statusMessage r)
        (setStatusCode (resp_statusCode r) (resp_setVersion (resp_version r) (rctx_response c)))
      in c\<lparr>rctx_state := kExpectBody_resp,
          rctx_response := r0\<lparr>resp_headers := umap.put_all (headers_on_wire iter r) (resp_headers r0)\<rparr>\<rparr>)"

lemma response_stream_head:
  assumes "printable_response r" "mset (iter (resp_headers r)) = mset (resp_headers r)"
    "rctx_state c = kExpectStatusLine"
  shows "response_stream c
    ((resp_version r @ '' '' @ dec_nat (nat (resp_statusCode r)) @ '' '' @ resp_statusMessage r) @ CRLF @
      concat (header_pieces (headers_on_wire iter r)) @ CRLF @ s) =
    response_stream (head_context iter r c) s"
proof -
  let ?l = "resp_version r @ '' '' @ dec_nat (nat (resp_statusCode r)) @ '' '' @ resp_statusMessage r"
  let ?rest = "concat (header_pieces (headers_on_wire iter r)) @ CRLF @ s"
  have sc: "search_crlf (?l @ CR # LF # ?rest) = Some (length ?l)"
    using assms(1) by (intro search_crlf_line' search_crlf_no_CR) (auto simp: printable_response_def)
  have tk: "take (length ?l) (?l @ CR # LF # ?rest) = ?l"
      "drop (length ?l + 2) (?l @ CR # LF # ?rest) = ?rest"
    by (rule take_line, rule drop_line)
  let ?r = "setStatusMessage (resp_statusMessage r)
        (setStatusCode (resp_statusCode r) (resp_setVersion (resp_version r) (rctx_response c)))"
  have "response_stream c (?l @ CR # LF # ?rest) =
      response_stream (c\<lparr>rctx_response := ?r, rctx_state := kExpectHeaders_resp\<rparr>) ?rest"
    using assms(3) parseStatusLine_print[OF assms(1), of "rctx_response c"]
    by (subst response_stream.simps) (simp only: sc tk option.case HttpResponseParseState.case prod.case if_True
        simp_thms)
  also have "\<dots> = response_stream (head_context iter r c) s"
    using headers_on_wire_ok(1)[of r iter, OF assms(1,2)]
    by (subst response_stream_headers) (simp_all add: head_context_def Let_def)
  finally show ?thesis by simp
qed

lemma head_context_length:
  assumes "printable_response r" "mset (iter (resp_headers r)) = mset (resp_headers r)"
    "resp_headers (rctx_response c) = []"
  shows "resp_length (rctx_response (head_context iter r c)) =
    (if resp_body r \<noteq> [] \<or> map_of (resp_headers r) ''Content-Length'' \<noteq> None
     then Inr (Some (length (resp_body r))) else Inr None)"
proof -
  have "map_of (resp_headers (rctx_response (head_context iter r c))) ''Content-Length'' =
      (if resp_body r \<noteq> [] then Some (dec_nat (length (resp_body r)))
       else map_of (resp_headers r) ''Content-Length'')"
    using headers_on_wire_ok(2)[of r iter, OF assms(1,2)] assms(3) umap.get_put_all[of "[]" "headers_on_wire iter r"]
    by (simp add: head_context_def response_defs umap_wf_def)
  moreover have "stoi (dec_nat (length (resp_body r))) = Inr (int (length (resp_body r)))"
    using assms(1) by (simp add: printable_response_def stoi_dec_nat_exact)
  moreover have "size_t_of_int (int (length (resp_body r))) = length (resp_body r)"
    using assms(1) by (simp add: printable_response_def size_t_of_int_nonneg)
  ultimately show ?thesis using assms(1)
    by (auto simp: resp_length_def resp_getHeader_def Let_def printable_response_def split: option.splits)
qed


section \<open>Properties\<close>

text \<open>
  (C6) What a call of \<^verbatim>\<open>parseResponse\<close> does, in terms of the bytes in the buffer: with a
  well-formed buffer no assert fires, and the call returns the verdict, response and remaining
  bytes of the stream parser, except that it never returns when the head is complete and the
  body is not.
\<close>

theorem parseResponse_behaviour:
  assumes "buffer_wf b"
  shows "case response_stream c (content b) of
      Returns h c' rest \<Rightarrow> \<exists>b'. parseResponse c b = Some (Inr (h, c', b')) \<and> buffer_wf b' \<and> content b' = rest
    | Spins \<Rightarrow> parseResponse c b = None"
  using parseResponse_refines[OF assms, of c] by (simp add: agrees_def split: response_outcome.splits)

theorem parseResponse_behaviour_witness:
  "\<exists>b. buffer_wf b \<and> (\<exists>c' b'. parseResponse HttpResponseContext_ctor b = Some (Inr (kBadMessage, c', b'))
     \<and> content b' = ''x'')"
proof -
  let ?s = "''HTTP/1.1 abc OK'' @ CRLF @ ''x''"
  obtain b where b: "buffer_append ?s (fresh_buffer 8) = Inr b" "buffer_wf b" "content b = ?s"
    using buffer_append_ok[OF fresh_buffer_wf(1)[of 8], of ?s] fresh_buffer_wf(2)[of 8] by auto
  have "\<exists>c'. response_stream HttpResponseContext_ctor ?s = Returns kBadMessage c' ''x''"
    by (subst response_stream.simps)
      (simp add: HttpResponseContext_ctor_def parseStatusLine_def Let_def find_char_def stoi_def isspace_def
        isdigit_def)
  with parseResponse_behaviour[OF b(2), of HttpResponseContext_ctor] b(3)
  have "\<exists>c' b'. parseResponse HttpResponseContext_ctor b = Some (Inr (kBadMessage, c', b')) \<and> content b' = ''x''"
    by auto
  with b(2) show ?thesis by blast
qed

text \<open>
  (C7) Round trip of a printable response, whatever the iteration order of its header map: it is parsed back with the
  same version, status, reason phrase and body, with its headers, to which \<^verbatim>\<open>Content-Length\<close> is added when there
  is a body, and the bytes after it are left. Printable means: a status from 0 to 1023; a version of at most 50
  characters without space, NUL and CR; a non-empty reason phrase without CR; header names without colon and CR,
  trimmed values without CR; a \<^verbatim>\<open>Content-Length\<close> header that is absent or the length of the body; a body of at
  most \<open>2 ^ 31 - 1\<close> bytes; and, where the body is empty and no \<^verbatim>\<open>Content-Length\<close> is set, a status for
  which the printer has no body of its own.
\<close>

theorem response_print_parse_roundtrip:
  assumes "printable_response r" "mset (iter (resp_headers r)) = mset (resp_headers r)"
    "buffer_wf b" "content b = []"
  shows "\<exists>b1 b2 c b3. response_appendToBuffer iter r b = Inr b1 \<and> buffer_append extra b1 = Inr b2 \<and>
    parseResponse HttpResponseContext_ctor b2 = Some (Inr (kParseOK, c, b3)) \<and>
    rctx_gotAll c \<and> content b3 = extra \<and>
    resp_version (rctx_response c) = resp_version r \<and>
    resp_statusCode (rctx_response c) = resp_statusCode r \<and>
    resp_statusMessage (rctx_response c) = resp_statusMessage r \<and>
    resp_body (rctx_response c) = resp_body r \<and>
    map_of (resp_headers (rctx_response c)) =
      (if resp_body r \<noteq> [] then (map_of (resp_headers r))(''Content-Length'' \<mapsto> dec_nat (length (resp_body r)))
       else map_of (resp_headers r))"
proof -
  let ?c = "head_context iter r HttpResponseContext_ctor"
  let ?r = "rctx_response ?c"
  obtain b1 where b1: "response_appendToBuffer iter r b = Inr b1" "buffer_wf b1"
      "content b1 = concat (response_pieces iter r)"
    using response_appendToBuffer_ok[OF assms(3), of iter r] assms(4) by auto
  obtain b2 where b2: "buffer_append extra b1 = Inr b2" "buffer_wf b2" "content b2 = content b1 @ extra"
    using buffer_append_ok[OF b1(2), of extra] by blast
  have s: "response_stream HttpResponseContext_ctor (content b2) = response_stream ?c (resp_body r @ extra)"
    using response_stream_head[of r iter HttpResponseContext_ctor "resp_body r @ extra"] assms(1,2)
    by (simp add: b2 b1 concat_response_pieces HttpResponseContext_ctor_def)
  have nil: "resp_headers (rctx_response HttpResponseContext_ctor) = []"
    by (simp add: HttpResponseContext_ctor_def HttpResponse_ctor_def)
  have fields: "resp_version ?r = resp_version r" "resp_statusCode ?r = resp_statusCode r"
      "resp_statusMessage ?r = resp_statusMessage r"
      "resp_headers ?r = umap.put_all (headers_on_wire iter r) []"
      "resp_body ?r = (case map_of bodyMessageMap (resp_statusCode r) of Some t \<Rightarrow> t | None \<Rightarrow> [])"
    by (simp_all add: head_context_def Let_def response_defs setStatusCode_body HttpResponseContext_ctor_def
        HttpResponse_ctor_def split: option.splits)
  have hm: "map_of (resp_headers ?r) =
      (if resp_body r \<noteq> [] then (map_of (resp_headers r))(''Content-Length'' \<mapsto> dec_nat (length (resp_body r)))
       else map_of (resp_headers r))"
    using headers_on_wire_ok(2)[of r iter, OF assms(1,2)] umap.get_put_all[of "[]" "headers_on_wire iter r"]
    by (simp add: fields umap_wf_def)
  have st: "rctx_state ?c = kExpectBody_resp" by (simp add: head_context_def Let_def)
  define c where "c = ?c\<lparr>rctx_response := ?r\<lparr>resp_body := resp_body r\<rparr>, rctx_state := kGotAll_resp\<rparr>"
  have "resp_body ?r = resp_body r" if "resp_body r = []" "map_of (resp_headers r) ''Content-Length'' = None"
    using that assms(1) fields(5) by (simp add: printable_response_def)
  then have "response_stream ?c (resp_body r @ extra) = Returns kParseOK c extra"
    using st head_context_length[of r iter HttpResponseContext_ctor, OF assms(1,2) nil]
    by (subst response_stream.simps) (auto simp: c_def resp_setBody_def)
  with s b1 b2 hm fields parseResponse_refines[OF b2(2), of HttpResponseContext_ctor] show ?thesis
    by (auto simp: agrees_def c_def rctx_gotAll_def)
qed

text \<open>
  (C8) A response whose body arrives in more than one read makes \<^verbatim>\<open>parseResponse\<close> loop for ever: for
  every printable response, the head together with any proper prefix of the body (also the
  empty one) never returns, although the rest of the body would complete it.
\<close>

theorem partial_body_never_returns:
  assumes "printable_response r" "mset (iter (resp_headers r)) = mset (resp_headers r)"
    "buffer_wf b" "content b = take k (concat (response_pieces iter r))"
    "length (concat (response_pieces iter r)) \<le> k + length (resp_body r)"
    "k < length (concat (response_pieces iter r))"
  shows "parseResponse HttpResponseContext_ctor b = None"
proof -
  let ?l = "resp_version r @ '' '' @ dec_nat (nat (resp_statusCode r)) @ '' '' @ resp_statusMessage r"
  let ?h = "?l @ CRLF @ concat (header_pieces (headers_on_wire iter r)) @ CRLF"
  let ?c = "head_context iter r HttpResponseContext_ctor"
  have p: "concat (response_pieces iter r) = ?h @ resp_body r"
    using concat_response_pieces[OF assms(1), of iter] by simp
  define n where "n = k - length ?h"
  have k: "k = length ?h + n" using assms(5) unfolding p n_def by simp
  have n: "n < length (resp_body r)" using assms(6) unfolding p k by simp
  have "take k (?h @ resp_body r) = ?h @ take n (resp_body r)" unfolding k take_append by simp
  then have "response_stream HttpResponseContext_ctor (content b) = response_stream ?c (take n (resp_body r))"
    using response_stream_head[of r iter HttpResponseContext_ctor "take n (resp_body r)", OF assms(1,2)]
    unfolding assms(4) p by (simp add: HttpResponseContext_ctor_def)
  moreover have "resp_length (rctx_response ?c) = Inr (Some (length (resp_body r)))"
    using head_context_length[of r iter HttpResponseContext_ctor, OF assms(1,2)] n
    by (auto simp: HttpResponseContext_ctor_def HttpResponse_ctor_def)
  then have "response_stream ?c (take n (resp_body r)) = Spins"
    using n by (subst response_stream.simps) (simp add: head_context_def Let_def)
  ultimately show ?thesis
    using parseResponse_refines[OF assms(3), of HttpResponseContext_ctor] by (simp add: agrees_def)
qed

definition example_response :: HttpResponse where
  "example_response = \<lparr>resp_headers = [(''Server'', ''up''), (''Content-Type'', ''text/html'')],
     resp_statusCode = 200, resp_version = ''HTTP/1.1'', resp_statusMessage = ''OK'',
     resp_closeConnection = False, resp_body = ''hello'', resp_responseSize = 0, resp_errorMsg = []\<rparr>"

theorem response_print_parse_roundtrip_witness:
  "printable_response example_response \<and>
   (\<exists>b1 b2 c b3. response_appendToBuffer rev example_response (fresh_buffer 8) = Inr b1 \<and>
      buffer_append ''next'' b1 = Inr b2 \<and>
      parseResponse HttpResponseContext_ctor b2 = Some (Inr (kParseOK, c, b3)) \<and>
      resp_body (rctx_response c) = ''hello'' \<and> content b3 = ''next'')"
proof -
  have p: "printable_response example_response" by code_simp
  have f: "buffer_wf (fresh_buffer 8)" "content (fresh_buffer 8) = []" by (simp_all add: fresh_buffer_wf)
  from response_print_parse_roundtrip[of example_response rev "fresh_buffer 8" "''next''"] p f
  show ?thesis by (auto simp: example_response_def)
qed

theorem partial_body_never_returns_witness:
  "\<exists>b. buffer_wf b \<and> content b = ''HTTP/1.1 200 OK'' @ CRLF @ ''Content-Length: 5'' @ CRLF @
       ''Content-Type: text/html'' @ CRLF @ ''Server: up'' @ CRLF @ CRLF @ ''he'' \<and>
     parseResponse HttpResponseContext_ctor b = None"
proof -
  let ?s = "''HTTP/1.1 200 OK'' @ CRLF @ ''Content-Length: 5'' @ CRLF @
       ''Content-Type: text/html'' @ CRLF @ ''Server: up'' @ CRLF @ CRLF @ ''he''"
  obtain b where b: "buffer_append ?s (fresh_buffer 8) = Inr b" "buffer_wf b" "content b = ?s"
    using buffer_append_ok[OF fresh_buffer_wf(1)[of 8], of ?s] fresh_buffer_wf(2)[of 8] by auto
  have p: "printable_response example_response" by code_simp
  have t: "?s = take 77 (concat (response_pieces rev example_response))" by code_simp
  have l: "length (concat (response_pieces rev example_response)) = 80" by code_simp
  from partial_body_never_returns[of example_response rev b 77] p b t l show ?thesis
    by (auto simp: example_response_def)
qed

end
