(* ===== verification/Server_Config.thy ===== *)
theory Server_Config
  imports Prelude
begin

text \<open>
  \<^verbatim>\<open>config/ServerConfig.{h,cpp}\<close>: the configuration tables, the YAML loader and the command line.
  A YAML document is a tree; what the loader uses of \<^verbatim>\<open>yaml-cpp\<close> (subscripts of const nodes,
  iteration, conversion of scalars) is written out on that tree. Reading and parsing the file is
  the parameter \<open>load\<close>, \<open>None\<close> when \<^verbatim>\<open>YAML::LoadFile\<close> throws; the results of \<^verbatim>\<open>getopt_long\<close> are a
  parameter, too. Log output is left out.
\<close>

section \<open>Tables\<close>

record LoggerConfig =
  loggerName :: string
  logSavePath :: string
  rollFileSize :: int

definition LoggerConfig_ctor :: LoggerConfig where
  "LoggerConfig_ctor = \<lparr>loggerName = ''default'', logSavePath = ''defaultLog'', rollFileSize = 0\<rparr>"

record MainConfig =
  maxWorker :: int
  keepAliveTimeout :: int
  maxWorkerConnections :: int
  main_loggers :: "(string \<times> LoggerConfig) list"

definition MainConfig_ctor :: MainConfig where
  "MainConfig_ctor = \<lparr>maxWorker = 4, keepAliveTimeout = 65, maxWorkerConnections = 768, main_loggers = []\<rparr>"

definition setLoggersInfo :: "(string \<times> LoggerConfig) list \<Rightarrow> MainConfig \<Rightarrow> MainConfig" where
  "setLoggersInfo loggersInfo m = m\<lparr>main_loggers := loggersInfo\<rparr>"

record ProxyServer =
  px_location :: string
  px_upstreamName :: string
  px_setHeaders :: "string list"

definition ProxyServer_ctor :: ProxyServer where
  "ProxyServer_ctor = \<lparr>px_location = [], px_upstreamName = [], px_setHeaders = []\<rparr>"

record Upstream =
  up_name :: string
  up_address :: string
  up_maxFails :: int
  up_failTimeSecond :: int

definition Upstream_ctor :: Upstream where
  "Upstream_ctor = \<lparr>up_name = [], up_address = [], up_maxFails = 3, up_failTimeSecond = 30\<rparr>"

record StaticInfo =
  st_location :: string
  st_alias :: string

definition StaticInfo_ctor :: StaticInfo where
  "StaticInfo_ctor = \<lparr>st_location = [], st_alias = []\<rparr>"

record Server =
  listenPort :: nat
  workers :: int
  rootPath :: string
  indexFiles :: "string list"
  proxyLocations :: "string list"
  staticLocations :: "string list"

record ServerConfig =
  configPath :: string
  listenedPorts :: "nat set"
  locations :: "string set"
  serverMainConfig :: MainConfig
  loggersConfig :: "(string \<times> LoggerConfig) list"
  servers :: "(nat \<times> Server) list"
  statics :: "(string \<times> StaticInfo) list"
  proxies :: "(string \<times> ProxyServer) list"
  upstreams :: "(string \<times> Upstream) list"

definition ServerConfig_ctor :: "string \<Rightarrow> ServerConfig" where
  "ServerConfig_ctor conf = \<lparr>configPath = conf, listenedPorts = {}, locations = {},
     serverMainConfig = MainConfig_ctor, loggersConfig = [], servers = [], statics = [],
     proxies = [], upstreams = []\<rparr>"

definition setMainConf :: "MainConfig \<Rightarrow> ServerConfig \<Rightarrow> ServerConfig" where
  "setMainConf conf c = c\<lparr>serverMainConfig := conf\<rparr>"

definition addLoggerInfo :: "string \<Rightarrow> LoggerConfig \<Rightarrow> ServerConfig \<Rightarrow> ServerConfig" where
  "addLoggerInfo name logger c = c\<lparr>loggersConfig := umap_put name logger (loggersConfig c)\<rparr>"

definition configuredLogger :: "ServerConfig \<Rightarrow> bool" where
  "configuredLogger c \<longleftrightarrow> loggersConfig c \<noteq> []"

definition existLogger :: "string \<Rightarrow> ServerConfig \<Rightarrow> bool" where
  "existLogger name c \<longleftrightarrow> map_of (loggersConfig c) name \<noteq> None"

definition addServer :: "Server \<Rightarrow> ServerConfig \<Rightarrow> ServerConfig" where
  "addServer server c = c\<lparr>servers := omap_put (listenPort server) server (servers c),
     listenedPorts := insert (listenPort server) (listenedPorts c)\<rparr>"

definition listenedPort :: "nat \<Rightarrow> ServerConfig \<Rightarrow> bool" where
  "listenedPort port c \<longleftrightarrow> port \<in> listenedPorts c"

text \<open>\<^verbatim>\<open>operator[]\<close> of a map inserts a value-initialised element for a missing key;
  \<open>omap_ref\<close> returns the element and the map after the access.\<close>

definition omap_ref :: "'v \<Rightarrow> 'k::linorder \<Rightarrow> ('k \<times> 'v) list \<Rightarrow> 'v \<times> ('k \<times> 'v) list" where
  "omap_ref d k m = (case map_of m k of Some v \<Rightarrow> (v, m) | None \<Rightarrow> (d, omap_put k d m))"

definition Server_ctor :: Server where
  "Server_ctor = \<lparr>listenPort = 0, workers = 0, rootPath = [], indexFiles = [], proxyLocations = [],
     staticLocations = []\<rparr>"

definition serverConf :: "nat \<Rightarrow> ServerConfig \<Rightarrow> (Server \<times> ServerConfig) result" where
  "serverConf port c = andThen (check (listenedPort port c)) (\<lambda>_.
     case omap_ref Server_ctor port (servers c) of (s, m) \<Rightarrow> Inr (s, c\<lparr>servers := m\<rparr>))"

definition addProxy :: "ProxyServer \<Rightarrow> ServerConfig \<Rightarrow> ServerConfig" where
  "addProxy proxy c = c\<lparr>proxies := omap_put (px_location proxy) proxy (proxies c),
     locations := insert (px_location proxy) (locations c)\<rparr>"

definition existProxy :: "string \<Rightarrow> ServerConfig \<Rightarrow> bool" where
  "existProxy location c \<longleftrightarrow> map_of (proxies c) location \<noteq> None"

definition proxyInfo :: "string \<Rightarrow> ServerConfig \<Rightarrow> ProxyServer result" where
  "proxyInfo location c = (case map_of (proxies c) location of
     Some p \<Rightarrow> Inr p | None \<Rightarrow> Inl AssertFailed)"

definition addUpstream :: "Upstream \<Rightarrow> ServerConfig \<Rightarrow> ServerConfig" where
  "addUpstream upstream c = c\<lparr>upstreams := omap_put (up_name upstream) upstream (upstreams c)\<rparr>"

definition upstreamInfo :: "string \<Rightarrow> ServerConfig \<Rightarrow> Upstream \<times> ServerConfig" where
  "upstreamInfo name c =
     (case omap_ref Upstream_ctor name (upstreams c) of (u, m) \<Rightarrow> (u, c\<lparr>upstreams := m\<rparr>))"

definition existUpstreamInfo :: "string \<Rightarrow> ServerConfig \<Rightarrow> bool" where
  "existUpstreamInfo name c \<longleftrightarrow> map_of (upstreams c) name \<noteq> None"

definition addStatic :: "StaticInfo \<Rightarrow> ServerConfig \<Rightarrow> ServerConfig" where
  "addStatic static_info c = c\<lparr>statics := omap_put (st_location static_info) static_info (statics c),
     locations := insert (st_location static_info) (locations c)\<rparr>"

definition existStatic :: "string \<Rightarrow> ServerConfig \<Rightarrow> bool" where
  "existStatic location c \<longleftrightarrow> map_of (statics c) location \<noteq> None"

definition getStaticInfo :: "string \<Rightarrow> ServerConfig \<Rightarrow> StaticInfo result" where
  "getStaticInfo location c = (case map_of (statics c) location of
     Some s \<Rightarrow> Inr s | None \<Rightarrow> Inl AssertFailed)"

definition staticPath :: "string \<Rightarrow> ServerConfig \<Rightarrow> string result" where
  "staticPath location c = (case map_of (statics c) location of
     Some s \<Rightarrow> Inr (st_alias s) | None \<Rightarrow> Inl AssertFailed)"

definition listenedLocations :: "ServerConfig \<Rightarrow> string set" where
  "listenedLocations c = locations c"

definition indexFilesOf :: "nat \<Rightarrow> ServerConfig \<Rightarrow> string list" where
  "indexFilesOf port c = (case map_of (servers c) port of Some s \<Rightarrow> indexFiles s | None \<Rightarrow> [])"

section \<open>YAML nodes\<close>

datatype yaml = YNull | YScalar string | YSeq "yaml list" | YMap "(yaml \<times> yaml) list"

text \<open>\<^verbatim>\<open>node[key]\<close> of a const node: undefined (\<open>None\<close>) on null, on a sequence (the key is no index)
  and on a map without the key; a scalar node throws.\<close>

definition yaml_get :: "yaml \<Rightarrow> string \<Rightarrow> yaml option result" where
  "yaml_get node key = (case node of
     YMap kvs \<Rightarrow> Inr (map_option snd (List.find (\<lambda>(k, _). k = YScalar key) kvs))
   | YScalar s \<Rightarrow> Inl BadSubscript
   | _ \<Rightarrow> Inr None)"

text \<open>The nodes a range-for visits. The elements of a map are pairs whose \<^verbatim>\<open>Node\<close> part is a zombie:
  every subscript of one throws \<^verbatim>\<open>InvalidNode\<close>. They are \<open>None\<close> here.\<close>

definition yaml_items :: "yaml \<Rightarrow> yaml option list" where
  "yaml_items node = (case node of
     YSeq xs \<Rightarrow> map Some xs | YMap kvs \<Rightarrow> map (\<lambda>_. None) kvs | _ \<Rightarrow> [])"

text \<open>\<^verbatim>\<open>stream >> noskipws >> rhs\<close> with the base taken from the prefix, then only white space.\<close>

definition ishexdigit :: "char \<Rightarrow> bool" where
  "ishexdigit c \<longleftrightarrow> isdigit c \<or> (let n = (of_char c :: nat) in 65 \<le> n \<and> n \<le> 70 \<or> 97 \<le> n \<and> n \<le> 102)"

definition isoctdigit :: "char \<Rightarrow> bool" where
  "isoctdigit c \<longleftrightarrow> isdigit c \<and> (of_char c :: nat) < 56"

definition hex_val :: "char \<Rightarrow> nat" where
  "hex_val c = (let n = (of_char c :: nat) in if n < 58 then n - 48 else if n < 71 then n - 55 else n - 87)"

definition base_val :: "nat \<Rightarrow> string \<Rightarrow> nat" where
  "base_val base ds = foldl (\<lambda>a c. base * a + hex_val c) 0 ds"

definition scan_number :: "string \<Rightarrow> (nat \<times> string) option" where
  "scan_number u =
     (if take 2 u = ''0x'' \<or> take 2 u = ''0X'' then
        (let ds = takeWhile ishexdigit (drop 2 u)
         in if ds = [] then None else Some (base_val 16 ds, dropWhile ishexdigit (drop 2 u)))
      else if take 1 u = ''0'' then Some (base_val 8 (takeWhile isoctdigit u), dropWhile isoctdigit u)
      else
        (let ds = takeWhile isdigit u
         in if ds = [] then None else Some (base_val 10 ds, dropWhile isdigit u)))"

definition scan_int :: "string \<Rightarrow> (bool \<times> nat) option" where
  "scan_int s =
     (let neg = (take 1 s = ''-'');
          u = (if take 1 s = ''-'' \<or> take 1 s = ''+'' then tl s else s)
      in case scan_number u of
           Some (n, rest) \<Rightarrow> if list_all isspace rest then Some (neg, n) else None
         | None \<Rightarrow> None)"

definition yaml_signed :: "nat \<Rightarrow> yaml \<Rightarrow> int result" where
  "yaml_signed w node = (case node of
     YScalar s \<Rightarrow>
       (case scan_int s of
          Some (neg, n) \<Rightarrow>
            (let v = (if neg then - int n else int n)
             in if - (2 ^ (w - 1)) \<le> v \<and> v < 2 ^ (w - 1) then Inr v else Inl BadConversion)
        | None \<Rightarrow> Inl BadConversion)
   | _ \<Rightarrow> Inl BadConversion)"

text \<open>An unsigned 16-bit extraction negates modulo \<open>2 ^ 16\<close>.\<close>

definition yaml_uint16 :: "yaml \<Rightarrow> nat result" where
  "yaml_uint16 node = (case node of
     YScalar s \<Rightarrow>
       (case scan_int s of
          Some (neg, n) \<Rightarrow>
            if n < 65536 then Inr (if neg then (65536 - n) mod 65536 else n) else Inl BadConversion
        | None \<Rightarrow> Inl BadConversion)
   | _ \<Rightarrow> Inl BadConversion)"

definition yaml_string :: "yaml \<Rightarrow> string result" where
  "yaml_string node = (case node of YScalar s \<Rightarrow> Inr s | _ \<Rightarrow> Inl BadConversion)"

definition yaml_strings :: "yaml \<Rightarrow> string list result" where
  "yaml_strings node = (case node of
     YSeq xs \<Rightarrow> fold_result (\<lambda>x acc. andThen (yaml_string x) (\<lambda>s. Inr (acc @ [s]))) xs []
   | _ \<Rightarrow> Inl BadConversion)"

section \<open>The loader\<close>

text \<open>\<^verbatim>\<open>YamlLoader\<close>. The flag \<open>required\<close> is \<^verbatim>\<open>exitOnUndefined\<close>. For an optional node that is
  undefined \<^verbatim>\<open>getNode\<close> returns its argument, which the callers recognise by identity; that case is
  \<open>None\<close> here. A zombie node (\<open>None\<close> as the argument) throws.\<close>

definition node_get :: "yaml option \<Rightarrow> string \<Rightarrow> yaml option result" where
  "node_get node key = (case node of Some y \<Rightarrow> yaml_get y key | None \<Rightarrow> Inl InvalidNode)"

definition loadFile :: "(string \<Rightarrow> yaml option) \<Rightarrow> string \<Rightarrow> yaml result" where
  "loadFile load file = (case load file of Some y \<Rightarrow> Inr y | None \<Rightarrow> Inl ExitFailure)"

definition getNode :: "yaml option \<Rightarrow> string \<Rightarrow> bool \<Rightarrow> yaml option result" where
  "getNode node node_name required =
     andThen (node_get node node_name) (\<lambda>v. case v of
       None \<Rightarrow> if required then Inl ExitFailure else Inr None
     | Some y \<Rightarrow> Inr (Some y))"

definition getVal :: "(yaml \<Rightarrow> 'v result) \<Rightarrow> yaml option \<Rightarrow> string \<Rightarrow> bool \<Rightarrow> 'v \<Rightarrow> 'v result" where
  "getVal conv node property required val =
     andThen (node_get node property) (\<lambda>v. case v of
       None \<Rightarrow> if required then Inl ExitFailure else Inr val
     | Some y \<Rightarrow> conv y)"

definition load_logger :: "yaml option \<Rightarrow> ServerConfig \<Rightarrow> ServerConfig result" where
  "load_logger loggerNode c =
     andThen (getVal yaml_string loggerNode ''name'' True (loggerName LoggerConfig_ctor)) (\<lambda>name.
     andThen (getVal yaml_string loggerNode ''path'' True (logSavePath LoggerConfig_ctor)) (\<lambda>path.
     andThen (getVal (yaml_signed 64) loggerNode ''roll_size'' False (rollFileSize LoggerConfig_ctor)) (\<lambda>roll.
     Inr (addLoggerInfo name \<lparr>loggerName = name, logSavePath = path, rollFileSize = roll\<rparr> c))))"

definition load_main :: "yaml \<Rightarrow> ServerConfig \<Rightarrow> ServerConfig result" where
  "load_main root c =
     andThen (getNode (Some root) ''main'' True) (\<lambda>node.
     andThen (getVal (yaml_signed 32) node ''max_workers'' True (maxWorker MainConfig_ctor)) (\<lambda>mw.
     andThen (getVal (yaml_signed 32) node ''keepalive_timeout'' True (keepAliveTimeout MainConfig_ctor)) (\<lambda>ka.
     andThen (getVal (yaml_signed 32) node ''worker_connections'' True (maxWorkerConnections MainConfig_ctor)) (\<lambda>wc.
     let m = MainConfig_ctor\<lparr>maxWorker := mw, keepAliveTimeout := ka, maxWorkerConnections := wc\<rparr> in
     andThen (getNode node ''log'' False) (\<lambda>logNode. case logNode of
       None \<Rightarrow> Inr (setMainConf m c)
     | Some l \<Rightarrow>
         andThen (fold_result load_logger (yaml_items l) c) (\<lambda>c1.
         Inr (setMainConf (setLoggersInfo (loggersConfig c1) m) c1)))))))"

definition load_upstream :: "yaml option \<Rightarrow> ServerConfig \<Rightarrow> ServerConfig result" where
  "load_upstream upstreamNode c =
     andThen (getVal yaml_string upstreamNode ''name'' True (up_name Upstream_ctor)) (\<lambda>name.
     andThen (getVal yaml_string upstreamNode ''server'' True (up_address Upstream_ctor)) (\<lambda>addr.
     andThen (getVal (yaml_signed 32) upstreamNode ''max_fails'' True (up_maxFails Upstream_ctor)) (\<lambda>mf.
     andThen (getVal (yaml_signed 32) upstreamNode ''fail_timeout'' True (up_failTimeSecond Upstream_ctor)) (\<lambda>ft.
     Inr (addUpstream \<lparr>up_name = name, up_address = addr, up_maxFails = mf, up_failTimeSecond = ft\<rparr> c)))))"

definition load_upstreams :: "yaml \<Rightarrow> ServerConfig \<Rightarrow> ServerConfig result" where
  "load_upstreams root c =
     andThen (getNode (Some root) ''upstream'' False) (\<lambda>node. case node of
       None \<Rightarrow> Inr c
     | Some u \<Rightarrow> fold_result load_upstream (yaml_items u) c)"

definition load_proxy :: "yaml option \<Rightarrow> string list \<times> ServerConfig \<Rightarrow> (string list \<times> ServerConfig) result" where
  "load_proxy proxy_node = (\<lambda>(locs, c).
     andThen (getVal yaml_string proxy_node ''location'' True []) (\<lambda>loc.
     andThen (getVal yaml_string proxy_node ''proxy_pass'' True []) (\<lambda>up.
     andThen (getVal yaml_strings proxy_node ''proxy_set_header'' False []) (\<lambda>hs.
     let c1 = addProxy \<lparr>px_location = loc, px_upstreamName = up, px_setHeaders = hs\<rparr> c in
     if existUpstreamInfo up c1 then Inr (locs @ [loc], c1) else Inl ExitFailure))))"

definition load_static :: "yaml option \<Rightarrow> string list \<times> ServerConfig \<Rightarrow> (string list \<times> ServerConfig) result" where
  "load_static static_node = (\<lambda>(locs, c).
     andThen (getVal yaml_string static_node ''location'' True []) (\<lambda>loc.
     andThen (getVal yaml_string static_node ''alias'' True []) (\<lambda>al.
     Inr (locs @ [loc], addStatic \<lparr>st_location = loc, st_alias = al\<rparr> c))))"

definition load_section :: "(yaml option \<Rightarrow> string list \<times> ServerConfig \<Rightarrow> (string list \<times> ServerConfig) result)
    \<Rightarrow> yaml option \<Rightarrow> string \<Rightarrow> ServerConfig \<Rightarrow> (string list \<times> ServerConfig) result" where
  "load_section item server_node name c =
     andThen (getNode server_node name False) (\<lambda>nodes. case nodes of
       None \<Rightarrow> Inr ([], c)
     | Some ns \<Rightarrow> fold_result item (yaml_items ns) ([], c))"

text \<open>One server. The variable \<^verbatim>\<open>server\<close> is declared outside the loop, so it is threaded from one
  iteration to the next.\<close>

definition load_server :: "yaml option \<Rightarrow> Server \<times> ServerConfig \<Rightarrow> (Server \<times> ServerConfig) result" where
  "load_server server_node = (\<lambda>(server, c).
     andThen (getVal yaml_uint16 server_node ''listen'' True (listenPort server)) (\<lambda>port.
     andThen (getVal (yaml_signed 32) server_node ''workers'' True (workers server)) (\<lambda>w.
     andThen (getVal yaml_string server_node ''root_path'' True (rootPath server)) (\<lambda>root.
     andThen (getVal yaml_strings server_node ''index'' False (indexFiles server)) (\<lambda>index.
     andThen (load_section load_proxy server_node ''proxy'' c) (\<lambda>(pl, c1).
     andThen (load_section load_static server_node ''static'' c1) (\<lambda>(sl, c2).
     let server' = \<lparr>listenPort = port, workers = w, rootPath = root, indexFiles = index,
                    proxyLocations = pl, staticLocations = sl\<rparr>
     in Inr (server', addServer server' c2))))))))"

definition load_servers :: "yaml \<Rightarrow> ServerConfig \<Rightarrow> ServerConfig result" where
  "load_servers root c =
     andThen (getNode (Some root) ''server'' True) (\<lambda>node. case node of
       None \<Rightarrow> Inr c
     | Some ss \<Rightarrow> andThen (fold_result load_server (yaml_items ss) (Server_ctor, c)) (\<lambda>(_, c'). Inr c'))"

definition loadConfig :: "(string \<Rightarrow> yaml option) \<Rightarrow> ServerConfig \<Rightarrow> ServerConfig result" where
  "loadConfig load c =
     andThen (loadFile load (configPath c)) (\<lambda>root.
     andThen (load_main root c) (\<lambda>c1.
     andThen (load_upstreams root c1) (\<lambda>c2.
     load_servers root c2)))"

section \<open>The command line\<close>

text \<open>A result of \<^verbatim>\<open>getopt_long\<close>: the options of the table, \<^verbatim>\<open>'?'\<close>, or anything else.\<close>

datatype getopt = Opt_c string | Opt_h | Opt_unknown | Opt_other

fun parse_command_parameter :: "getopt list \<Rightarrow> bool \<times> string \<Rightarrow> (bool \<times> string) result" where
  "parse_command_parameter [] acc = Inr acc"
| "parse_command_parameter (Opt_c optarg # opts) (success, path) =
     parse_command_parameter opts (True, optarg)"
| "parse_command_parameter (Opt_h # opts) acc = Inl ExitFailure"
| "parse_command_parameter (Opt_unknown # opts) (success, path) =
     parse_command_parameter opts (False, path)"
| "parse_command_parameter (Opt_other # opts) (success, path) =
     parse_command_parameter opts (False, path)"


section \<open>Well-formed configurations\<close>

definition config_wf :: "ServerConfig \<Rightarrow> bool" where
  "config_wf c \<longleftrightarrow>
     listenedPorts c = dom (map_of (servers c)) \<and>
     locations c = dom (map_of (proxies c)) \<union> dom (map_of (statics c)) \<and>
     (\<forall>port s. map_of (servers c) port = Some s \<longrightarrow> listenPort s = port \<and>
        set (proxyLocations s) \<subseteq> dom (map_of (proxies c)) \<and>
        set (staticLocations s) \<subseteq> dom (map_of (statics c))) \<and>
     (\<forall>l p. map_of (proxies c) l = Some p \<longrightarrow> px_location p = l \<and> existUpstreamInfo (px_upstreamName p) c) \<and>
     (\<forall>l s. map_of (statics c) l = Some s \<longrightarrow> st_location s = l) \<and>
     (\<forall>n u. map_of (upstreams c) n = Some u \<longrightarrow> up_name u = n)"

lemmas config_op_defs = setMainConf_def addLoggerInfo_def addServer_def addProxy_def addUpstream_def
  addStatic_def existUpstreamInfo_def setLoggersInfo_def

lemma config_wf_ctor: "config_wf (ServerConfig_ctor p)"
  by (simp add: config_wf_def ServerConfig_ctor_def)

lemma config_wf_ops:
  assumes "config_wf c"
  shows "config_wf (setMainConf m c)" "config_wf (addLoggerInfo n l c)" "config_wf (addUpstream u c)"
    "config_wf (addStatic st c)"
    "existUpstreamInfo (px_upstreamName p) c \<Longrightarrow> config_wf (addProxy p c)"
    "set (proxyLocations s) \<subseteq> dom (map_of (proxies c)) \<Longrightarrow>
     set (staticLocations s) \<subseteq> dom (map_of (statics c)) \<Longrightarrow> config_wf (addServer s c)"
  using assms by (auto simp: config_wf_def config_op_defs subset_iff)

text \<open>Loading a proxy or static section keeps the invariant and returns locations of the table.\<close>

lemma load_proxy_ok:
  assumes "load_proxy n (locs, c) = Inr (locs', c')" "config_wf c" "set locs \<subseteq> dom (map_of (proxies c))"
  shows "config_wf c'" "set locs' \<subseteq> dom (map_of (proxies c'))" "statics c' = statics c"
    "upstreams c' = upstreams c"
proof -
  obtain loc up hs where c': "c' = addProxy \<lparr>px_location = loc, px_upstreamName = up, px_setHeaders = hs\<rparr> c"
      "locs' = locs @ [loc]" "existUpstreamInfo up c'"
    using assms(1) by (auto simp: load_proxy_def result_simps Let_def split: if_splits)
  have "existUpstreamInfo up c" using c' by (simp add: addProxy_def existUpstreamInfo_def)
  with assms(2) show "config_wf c'" unfolding c'(1) by (intro config_wf_ops(5)) auto
  show "set locs' \<subseteq> dom (map_of (proxies c'))" "statics c' = statics c" "upstreams c' = upstreams c"
    using assms(3) c' by (auto simp: addProxy_def)
qed

lemma load_static_ok:
  assumes "load_static n (locs, c) = Inr (locs', c')" "config_wf c" "set locs \<subseteq> dom (map_of (statics c))"
  shows "config_wf c'" "set locs' \<subseteq> dom (map_of (statics c'))" "proxies c' = proxies c"
proof -
  obtain loc al where c': "c' = addStatic \<lparr>st_location = loc, st_alias = al\<rparr> c" "locs' = locs @ [loc]"
    using assms(1) by (auto simp: load_static_def result_simps)
  show "config_wf c'" unfolding c'(1) by (rule config_wf_ops(4)[OF assms(2)])
  show "set locs' \<subseteq> dom (map_of (statics c'))" "proxies c' = proxies c"
    using assms(3) c' by (auto simp: addStatic_def)
qed

lemma load_proxies_ok:
  assumes "load_section load_proxy n nm c = Inr (locs, c')" "config_wf c"
  shows "config_wf c' \<and> set locs \<subseteq> dom (map_of (proxies c'))"
proof -
  let ?I = "\<lambda>(locs, c). config_wf c \<and> set locs \<subseteq> dom (map_of (proxies c))"
  have "?I (locs, c')" if "fold_result load_proxy xs ([], c) = Inr (locs, c')" for xs
    using that assms(2) load_proxy_ok by (rule_tac fold_result_invar[OF that]) fastforce+
  with assms show ?thesis
    by (auto simp: load_section_def result_simps split: option.splits)
qed

lemma load_statics_ok:
  assumes "load_section load_static n nm c = Inr (locs, c')" "config_wf c"
  shows "config_wf c' \<and> set locs \<subseteq> dom (map_of (statics c')) \<and> proxies c' = proxies c"
proof -
  let ?I = "\<lambda>(locs, c'). config_wf c' \<and> set locs \<subseteq> dom (map_of (statics c')) \<and> proxies c' = proxies c"
  have "?I (locs, c')" if "fold_result load_static xs ([], c) = Inr (locs, c')" for xs
    using that assms(2) load_static_ok by (rule_tac fold_result_invar[OF that]) fastforce+
  with assms show ?thesis
    by (auto simp: load_section_def result_simps split: option.splits)
qed

lemma load_server_ok:
  assumes "load_server n (s, c) = Inr (s', c')" "config_wf c"
  shows "config_wf c'"
proof -
  obtain pl c1 sl c2 where 1: "load_section load_proxy n ''proxy'' c = Inr (pl, c1)"
      "load_section load_static n ''static'' c1 = Inr (sl, c2)"
      "c' = addServer s' c2" "proxyLocations s' = pl" "staticLocations s' = sl"
    using assms(1) by (auto simp: load_server_def result_simps Let_def)
  note p = load_proxies_ok[OF 1(1) assms(2)]
  then have "config_wf c1" by simp
  note s = load_statics_ok[OF 1(2) this]
  show ?thesis unfolding 1(3) using p s 1(4,5) by (intro config_wf_ops(6)) auto
qed

lemma load_main_ok: "load_main root c = Inr c' \<Longrightarrow> config_wf c \<Longrightarrow> config_wf c'"
proof -
  assume a: "load_main root c = Inr c'" "config_wf c"
  have "config_wf c1" if "fold_result load_logger xs c = Inr c1" for xs c1
    using a(2) by (rule_tac fold_result_invar[OF that]) (auto simp: load_logger_def result_simps config_wf_ops)
  with a show ?thesis
    by (auto simp: load_main_def result_simps Let_def config_wf_ops split: option.splits)
qed

lemma load_upstreams_ok: "load_upstreams root c = Inr c' \<Longrightarrow> config_wf c \<Longrightarrow> config_wf c'"
proof -
  assume a: "load_upstreams root c = Inr c'" "config_wf c"
  have "config_wf c1" if "fold_result load_upstream xs c = Inr c1" for xs c1
    using a(2) by (rule_tac fold_result_invar[OF that]) (auto simp: load_upstream_def result_simps config_wf_ops)
  with a show ?thesis by (auto simp: load_upstreams_def result_simps split: option.splits)
qed

lemma load_servers_ok: "load_servers root c = Inr c' \<Longrightarrow> config_wf c \<Longrightarrow> config_wf c'"
proof -
  assume a: "load_servers root c = Inr c'" "config_wf c"
  have "config_wf c1" if "fold_result load_server xs (s, c) = Inr (s1, c1)" for xs s s1 c1
    using fold_result_invar[OF that, of "\<lambda>(_, c). config_wf c"] a(2) load_server_ok by fastforce
  with a show ?thesis by (auto simp: load_servers_def result_simps split: option.splits)
qed

lemma loadConfig_wf: "loadConfig load c = Inr c' \<Longrightarrow> config_wf c \<Longrightarrow> config_wf c'"
  by (auto simp: loadConfig_def result_simps dest!: load_main_ok load_upstreams_ok load_servers_ok)


lemma load_section_servers:
  assumes "load_section f n nm c = Inr (locs, c')" "\<And>x s s'. f x s = Inr s' \<Longrightarrow> servers (snd s') = servers (snd s)"
  shows "servers c' = servers c"
  using assms fold_result_invar[of f _ "([], c)" "(locs, c')" "\<lambda>s. servers (snd s) = servers c"]
  by (fastforce simp: load_section_def result_simps split: option.splits)

lemma load_item_servers:
  "load_proxy x s = Inr s' \<Longrightarrow> servers (snd s') = servers (snd s)"
  "load_static x s = Inr s' \<Longrightarrow> servers (snd s') = servers (snd s)"
  by (cases s; fastforce simp: load_proxy_def load_static_def result_simps Let_def addProxy_def addStatic_def
      split: if_splits)+

lemma load_server_servers:
  assumes "load_server n (s, c) = Inr (s', c')"
  shows "servers c' = omap_put (listenPort s') s' (servers c)"
proof -
  obtain pl c1 sl c2 where 1: "load_section load_proxy n ''proxy'' c = Inr (pl, c1)"
      "load_section load_static n ''static'' c1 = Inr (sl, c2)" "c' = addServer s' c2"
    using assms(1) by (auto simp: load_server_def result_simps Let_def)
  with load_section_servers[OF 1(1) load_item_servers(1)] load_section_servers[OF 1(2) load_item_servers(2)]
  show ?thesis by (simp add: addServer_def)
qed

section \<open>Properties\<close>

text \<open>
  (C9) A configuration that loads is consistent: the set of listened ports is the set of
  configured servers and the set of locations is the set of proxies and static directories; the
  accessors guarded by asserts succeed on them; every proxy names a configured upstream, so
  looking it up neither fails nor inserts a default; and every location a server lists is
  configured.
\<close>

theorem loadConfig_consistent:
  assumes "loadConfig load (ServerConfig_ctor path) = Inr c"
  shows "(\<forall>port. listenedPort port c \<longrightarrow>
            (\<exists>s. serverConf port c = Inr (s, c) \<and> listenPort s = port \<and>
               (\<forall>l \<in> set (proxyLocations s). existProxy l c) \<and> (\<forall>l \<in> set (staticLocations s). existStatic l c))) \<and>
         (\<forall>l. l \<in> listenedLocations c \<longleftrightarrow> existProxy l c \<or> existStatic l c) \<and>
         (\<forall>l. existProxy l c \<longrightarrow>
            (\<exists>p u. proxyInfo l c = Inr p \<and> px_location p = l \<and>
               upstreamInfo (px_upstreamName p) c = (u, c) \<and> up_name u = px_upstreamName p)) \<and>
         (\<forall>l. existStatic l c \<longrightarrow> (\<exists>s. getStaticInfo l c = Inr s \<and> st_location s = l \<and>
            staticPath l c = Inr (st_alias s)))"
proof -
  have wf: "config_wf c" by (rule loadConfig_wf[OF assms config_wf_ctor])
  have 1: "\<exists>s. serverConf port c = Inr (s, c) \<and> listenPort s = port \<and>
      (\<forall>l \<in> set (proxyLocations s). existProxy l c) \<and> (\<forall>l \<in> set (staticLocations s). existStatic l c)"
    if "listenedPort port c" for port
    using that wf
    by (fastforce simp: serverConf_def listenedPort_def config_wf_def omap_ref_def existProxy_def existStatic_def)
  have 2: "l \<in> listenedLocations c \<longleftrightarrow> existProxy l c \<or> existStatic l c" for l
    using wf by (auto simp: listenedLocations_def config_wf_def existProxy_def existStatic_def)
  have 3: "\<exists>p u. proxyInfo l c = Inr p \<and> px_location p = l \<and>
      upstreamInfo (px_upstreamName p) c = (u, c) \<and> up_name u = px_upstreamName p" if "existProxy l c" for l
  proof -
    obtain p where p: "map_of (proxies c) l = Some p" using \<open>existProxy l c\<close> by (auto simp: existProxy_def)
    with wf obtain u where "map_of (upstreams c) (px_upstreamName p) = Some u" "px_location p = l"
      unfolding config_wf_def existUpstreamInfo_def by blast
    with p wf show ?thesis by (simp add: proxyInfo_def upstreamInfo_def omap_ref_def config_wf_def)
  qed
  have 4: "\<exists>s. getStaticInfo l c = Inr s \<and> st_location s = l \<and> staticPath l c = Inr (st_alias s)"
    if "existStatic l c" for l
    using that wf by (auto simp: existStatic_def getStaticInfo_def staticPath_def config_wf_def)
  from 1 2 3 4 show ?thesis by blast
qed

definition example_server :: "string \<Rightarrow> (yaml \<times> yaml) list \<Rightarrow> yaml" where
  "example_server port rest = YMap ([(YScalar ''listen'', YScalar port), (YScalar ''workers'', YScalar ''2''),
     (YScalar ''root_path'', YScalar ''/srv'')] @ rest)"

definition example_yaml :: yaml where
  "example_yaml = YMap
     [(YScalar ''main'', YMap [(YScalar ''max_workers'', YScalar ''8''),
         (YScalar ''keepalive_timeout'', YScalar ''65''), (YScalar ''worker_connections'', YScalar ''768'')]),
      (YScalar ''upstream'', YSeq [YMap [(YScalar ''name'', YScalar ''echo''),
         (YScalar ''server'', YScalar ''127.0.0.1:8081''), (YScalar ''max_fails'', YScalar ''3''),
         (YScalar ''fail_timeout'', YScalar ''30'')]]),
      (YScalar ''server'', YSeq
         [example_server ''8080'' [(YScalar ''index'', YSeq [YScalar ''index.html'']),
            (YScalar ''proxy'', YSeq [YMap [(YScalar ''location'', YScalar ''/echo/''),
               (YScalar ''proxy_pass'', YScalar ''echo'')]]),
            (YScalar ''static'', YSeq [YMap [(YScalar ''location'', YScalar ''/''),
               (YScalar ''alias'', YScalar ''/srv/www/'')]])],
          example_server ''8081'' []])]"

definition example_config :: ServerConfig where
  "example_config = \<lparr>configPath = ''c.yaml'', listenedPorts = {8080, 8081}, locations = {''/'', ''/echo/''},
     serverMainConfig = \<lparr>maxWorker = 8, keepAliveTimeout = 65, maxWorkerConnections = 768, main_loggers = []\<rparr>,
     loggersConfig = [],
     servers =
       [(8080, \<lparr>listenPort = 8080, workers = 2, rootPath = ''/srv'', indexFiles = [''index.html''],
          proxyLocations = [''/echo/''], staticLocations = [''/'']\<rparr>),
        (8081, \<lparr>listenPort = 8081, workers = 2, rootPath = ''/srv'', indexFiles = [''index.html''],
          proxyLocations = [], staticLocations = []\<rparr>)],
     statics = [(''/'', \<lparr>st_location = ''/'', st_alias = ''/srv/www/''\<rparr>)],
     proxies = [(''/echo/'', \<lparr>px_location = ''/echo/'', px_upstreamName = ''echo'', px_setHeaders = []\<rparr>)],
     upstreams = [(''echo'', \<lparr>up_name = ''echo'', up_address = ''127.0.0.1:8081'', up_maxFails = 3,
       up_failTimeSecond = 30\<rparr>)]\<rparr>"

lemmas yaml_eval = loadConfig_def loadFile_def load_main_def load_upstreams_def load_servers_def load_server_def
  load_upstream_def load_section_def load_proxy_def load_static_def getNode_def getVal_def node_get_def
  yaml_get_def yaml_items_def yaml_signed_def yaml_uint16_def yaml_string_def yaml_strings_def scan_int_def
  scan_number_def base_val_def hex_val_def isdigit_def Let_def ServerConfig_ctor_def MainConfig_ctor_def
  Server_ctor_def config_op_defs example_yaml_def example_server_def

lemma example_config_loads:
  "loadConfig (\<lambda>_. Some example_yaml) (ServerConfig_ctor ''c.yaml'') = Inr example_config"
  by (simp add: yaml_eval example_config_def insert_commute)

theorem loadConfig_consistent_witness:
  "(\<exists>s. serverConf 8080 example_config = Inr (s, example_config) \<and> listenPort s = 8080) \<and>
   (\<exists>p. proxyInfo ''/echo/'' example_config = Inr p \<and> px_upstreamName p = ''echo'')"
proof -
  have a: "listenedPort 8080 example_config" "existProxy ''/echo/'' example_config"
    and u: "map_option px_upstreamName (map_of (proxies example_config) ''/echo/'') = Some ''echo''"
    by (simp_all add: example_config_def listenedPort_def existProxy_def)
  from loadConfig_consistent[OF example_config_loads] a
  have "\<exists>s. serverConf 8080 example_config = Inr (s, example_config) \<and> listenPort s = 8080"
    "\<exists>p. proxyInfo ''/echo/'' example_config = Inr p" by blast+
  with u show ?thesis by (auto simp: proxyInfo_def split: option.splits)
qed

text \<open>
  The index files of a server leak into the next one: \<^verbatim>\<open>server\<close> is declared outside the
  loop of \<^verbatim>\<open>loadConfig\<close> and its \<^verbatim>\<open>indexFiles\<close> are assigned only when the entry has an \<^verbatim>\<open>index\<close>, so
  a server without one gets the index files of the server before it.
\<close>

theorem index_files_leak:
  assumes "loadConfig load (ServerConfig_ctor path) = Inr c" "load path = Some root"
    "yaml_get root ''server'' = Inr (Some (YSeq (pre @ [a, b])))"
    "yaml_get b ''index'' = Inr None"
    "yaml_get a ''listen'' = Inr (Some la)" "yaml_uint16 la = Inr pa"
    "yaml_get b ''listen'' = Inr (Some lb)" "yaml_uint16 lb = Inr pb" "pa \<noteq> pb"
  shows "indexFilesOf pb c = indexFilesOf pa c"
proof -
  obtain c2 s where "fold_result load_server (map Some (pre @ [a, b])) (Server_ctor, c2) = Inr (s, c)"
    using assms(1,2,3)
    by (auto simp: loadConfig_def load_servers_def getNode_def node_get_def yaml_items_def loadFile_def
        ServerConfig_ctor_def result_simps simp del: map_append split: option.splits)
  then obtain s0 c0 s1 c1 where 1: "load_server (Some a) (s0, c0) = Inr (s1, c1)"
      "load_server (Some b) (s1, c1) = Inr (s, c)"
    by (auto simp: fold_result_append result_simps)
  have a: "listenPort s1 = pa" "map_of (servers c1) pa = Some s1"
    using 1(1) assms(5,6)
    by (auto simp: load_server_def result_simps Let_def addServer_def getVal_def node_get_def)
  have b: "listenPort s = pb" "indexFiles s = indexFiles s1"
    using 1(2) assms(4,7,8)
    by (auto simp: load_server_def result_simps Let_def getVal_def node_get_def)
  have "servers c = omap_put pb s (servers c1)"
    using load_server_servers[OF 1(2)] b(1) by simp
  with a b assms(9) show ?thesis by (simp add: indexFilesOf_def)
qed

theorem index_files_leak_witness:
  "indexFilesOf 8081 example_config = indexFilesOf 8080 example_config \<and>
   indexFilesOf 8080 example_config = [''index.html'']"
proof -
  have "yaml_get example_yaml ''server'' = Inr (Some (YSeq ([] @
      [example_server ''8080'' [(YScalar ''index'', YSeq [YScalar ''index.html'']),
            (YScalar ''proxy'', YSeq [YMap [(YScalar ''location'', YScalar ''/echo/''),
               (YScalar ''proxy_pass'', YScalar ''echo'')]]),
            (YScalar ''static'', YSeq [YMap [(YScalar ''location'', YScalar ''/''),
               (YScalar ''alias'', YScalar ''/srv/www/'')]])],
       example_server ''8081'' []])))"
    by (simp add: example_yaml_def yaml_get_def)
  from index_files_leak[OF example_config_loads refl this, of "YScalar ''8080''" 8080 "YScalar ''8081''" 8081]
  have "indexFilesOf 8081 example_config = indexFilesOf 8080 example_config"
    by (simp add: example_server_def yaml_get_def yaml_uint16_def scan_int_def scan_number_def Let_def
        isdigit_def base_val_def hex_val_def)
  moreover have "indexFilesOf 8080 example_config = [''index.html'']"
    by (simp add: indexFilesOf_def example_config_def)
  ultimately show ?thesis by simp
qed

end
