(* ===== verification/File_Util.thy ===== *)
theory File_Util
  imports Prelude
begin

text \<open>
  \<^verbatim>\<open>base/FileUtil.{h,cc}\<close>: \<^verbatim>\<open>FileStat\<close>, the appending log file and the reader of small files. The
  operating system is a parameter: the record \<open>filesystem\<close> holds what \<^verbatim>\<open>stat\<close>, \<^verbatim>\<open>open\<close> and \<^verbatim>\<open>mmap\<close>
  answer for a path, and the results of \<^verbatim>\<open>fwrite\<close> and \<^verbatim>\<open>read\<close> are functions of the call's number.
\<close>

datatype file_kind = Regular | Directory | Special

text \<open>\<open>fs_mmap path n\<close> is \<open>None\<close> when mapping fails, otherwise what reading the \<open>n\<close> mapped bytes gives.
  \<open>fs_junk\<close> is the size a \<^verbatim>\<open>struct stat\<close> shows that was never filled.\<close>

record filesystem =
  fs_stat :: "string \<Rightarrow> (file_kind \<times> nat) option"
  fs_open :: "string \<Rightarrow> bool"
  fs_mmap :: "string \<Rightarrow> nat \<Rightarrow> string result option"
  fs_junk :: nat

text \<open>The documented behaviour of \<^verbatim>\<open>mmap\<close> on a file with the given bytes (pages of 4096 bytes): an empty mapping fails,
  the rest of the last page reads as zeros, and pages past it fault.\<close>

definition mmap_reads :: "filesystem \<Rightarrow> string \<Rightarrow> string \<Rightarrow> bool" where
  "mmap_reads fs path bytes \<longleftrightarrow> (\<forall>n. fs_mmap fs path n =
     (if n = 0 then None
      else if n \<le> 4096 * ((length bytes + 4095) div 4096) then Some (Inr (take n (bytes @ replicate 4096 NUL)))
      else Some (Inl BusError)))"

record FileStat =
  fstat_exists :: bool
  fstat_kind :: file_kind
  fstat_size :: nat

definition FileStat_ctor :: "filesystem \<Rightarrow> string \<Rightarrow> FileStat" where
  "FileStat_ctor fs filename = (case fs_stat fs (c_str filename) of
     Some (k, n) \<Rightarrow> \<lparr>fstat_exists = True, fstat_kind = k, fstat_size = n\<rparr>
   | None \<Rightarrow> \<lparr>fstat_exists = False, fstat_kind = Special, fstat_size = fs_junk fs\<rparr>)"

definition setFileName :: "filesystem \<Rightarrow> string \<Rightarrow> FileStat \<Rightarrow> FileStat" where
  "setFileName fs filename st = (case fs_stat fs (c_str filename) of
     Some (k, n) \<Rightarrow> \<lparr>fstat_exists = True, fstat_kind = k, fstat_size = n\<rparr>
   | None \<Rightarrow> st\<lparr>fstat_exists := False\<rparr>)"

definition isfile :: "FileStat \<Rightarrow> bool" where
  "isfile st \<longleftrightarrow> fstat_exists st \<and> fstat_kind st = Regular"

definition isdir :: "FileStat \<Rightarrow> bool" where
  "isdir st \<longleftrightarrow> fstat_exists st \<and> fstat_kind st = Directory"

definition isfile_path :: "filesystem \<Rightarrow> string \<Rightarrow> bool" where
  "isfile_path fs filename = (case fs_stat fs (c_str filename) of
     Some (k, _) \<Rightarrow> k = Regular | None \<Rightarrow> False)"

definition isdir_path :: "filesystem \<Rightarrow> string \<Rightarrow> bool" where
  "isdir_path fs dir = (case fs_stat fs (c_str dir) of
     Some (k, _) \<Rightarrow> k = Directory | None \<Rightarrow> False)"

section \<open>Appending\<close>

text \<open>\<^verbatim>\<open>AppendFile\<close>: the bytes the file received and the counter. \<open>fwrite k n\<close> is the number of bytes
  the \<open>k\<close>-th \<^verbatim>\<open>fwrite_unlocked\<close> of a call accepts when asked for \<open>n\<close>.\<close>

record AppendFile =
  af_data :: string
  af_writtenBytes :: nat

definition AppendFile_ctor :: "bool \<Rightarrow> AppendFile result" where
  "AppendFile_ctor opened = andThen (check opened) (\<lambda>_. Inr \<lparr>af_data = [], af_writtenBytes = 0\<rparr>)"

text \<open>The loop after the first write: it stops when everything is written or a write accepts
  nothing.\<close>

function append_rest :: "(nat \<Rightarrow> nat \<Rightarrow> nat) \<Rightarrow> nat \<Rightarrow> string \<Rightarrow> string" where
  "append_rest fwrite k rest =
     (if rest = [] then []
      else let x = min (fwrite k (length rest)) (length rest)
           in if x = 0 then [] else take x rest @ append_rest fwrite (Suc k) (drop x rest))"
  by pat_completeness auto
termination
  by (relation "measure (\<lambda>(_, _, rest). length rest)") auto

declare append_rest.simps [simp del]

definition af_append :: "(nat \<Rightarrow> nat \<Rightarrow> nat) \<Rightarrow> string \<Rightarrow> AppendFile \<Rightarrow> AppendFile" where
  "af_append fwrite logline f =
     (let n = min (fwrite 0 (length logline)) (length logline)
      in f\<lparr>af_data := af_data f @ take n logline @ append_rest fwrite 1 (drop n logline),
           af_writtenBytes := af_writtenBytes f + length logline\<rparr>)"

section \<open>Reading\<close>

text \<open>The read loop of \<^verbatim>\<open>ReadSmallFile::readToString\<close>: \<open>rd k n\<close> is the answer to the \<open>k\<close>-th \<^verbatim>\<open>read\<close> of at most \<open>n\<close>
  bytes, \<open>Inl\<close> the error or \<open>Inr\<close> the bytes (none at the end of the file). The result is the error
  number and the content.\<close>

definition kReadBufferSize :: nat where "kReadBufferSize = 64 * 1024"

function read_loop :: "(nat \<Rightarrow> nat \<Rightarrow> int + string) \<Rightarrow> nat \<Rightarrow> nat \<Rightarrow> int \<Rightarrow> string \<Rightarrow> int \<times> string" where
  "read_loop rd k maxSize err content =
     (if length content < maxSize then
        let toRead = min (maxSize - length content) kReadBufferSize
        in case rd k toRead of
             Inl e \<Rightarrow> (e, content)
           | Inr bytes \<Rightarrow>
               if take toRead bytes = [] then (err, content)
               else read_loop rd (Suc k) maxSize err (content @ take toRead bytes)
      else (err, content))"
  by pat_completeness auto
termination
  by (relation "measure (\<lambda>(_, _, maxSize, _, content). maxSize - length content)")
    (auto simp: min_def kReadBufferSize_def neq_Nil_conv)

declare read_loop.simps [simp del]

text \<open>\<^verbatim>\<open>fstat\<close> of the open descriptor: the error number, or kind, size and times.\<close>

definition readToString :: "int + nat \<Rightarrow> (int + file_kind \<times> nat \<times> int \<times> int) \<Rightarrow> (nat \<Rightarrow> nat \<Rightarrow> int + string) \<Rightarrow> int \<Rightarrow> nat
    \<Rightarrow> int \<times> string option \<times> nat option \<times> (int \<times> int) option" where
  "readToString fd fstat rd eisdir maxSize = (case fd of
     Inl err \<Rightarrow> (err, None, None, None)
   | Inr _ \<Rightarrow>
       (let (err, size, times) = (case fstat of
              Inl e \<Rightarrow> (e, None, None)
            | Inr (k, n, mt, ct) \<Rightarrow>
                (if k = Directory then eisdir else 0, if k = Regular then Some n else None, Some (mt, ct)));
            (err', content) = read_loop rd 0 maxSize err []
        in (err', Some content, size, times)))"

definition readToBuffer :: "int + nat \<Rightarrow> (nat \<Rightarrow> int + string) \<Rightarrow> int \<times> string" where
  "readToBuffer fd pread = (case fd of
     Inl err \<Rightarrow> (err, [])
   | Inr _ \<Rightarrow> (case pread (kReadBufferSize - 1) of
       Inl e \<Rightarrow> (e, []) | Inr bytes \<Rightarrow> (0, take (kReadBufferSize - 1) bytes)))"

section \<open>Lemmas\<close>

lemma append_rest_step:
  assumes "x = min (fwrite k (length rest)) (length rest)"
  shows "append_rest fwrite k rest =
    (if rest = [] \<or> x = 0 then [] else take x rest @ append_rest fwrite (Suc k) (drop x rest))"
  unfolding append_rest.simps[of fwrite k rest] Let_def assms[symmetric] by auto

lemma append_rest_prefix: "\<exists>n. append_rest fwrite k rest = take n rest"
proof (induction fwrite k rest rule: append_rest.induct)
  case (1 fwrite k rest)
  define x where x: "x = min (fwrite k (length rest)) (length rest)"
  show ?case
  proof (cases "rest = [] \<or> x = 0")
    case True
    then have "append_rest fwrite k rest = take 0 rest" by (simp add: append_rest_step[of _ fwrite k rest, OF x])
    then show ?thesis by blast
  next
    case False
    then obtain m where "append_rest fwrite (Suc k) (drop x rest) = take m (drop x rest)"
      using 1[OF _ x] by blast
    then have "append_rest fwrite k rest = take (x + m) rest"
      using False by (simp add: append_rest_step[of _ fwrite k rest, OF x] take_add)
    then show ?thesis by blast
  qed
qed

text \<open>If every write accepts at least one byte, nothing is lost.\<close>

lemma append_rest_complete:
  assumes "\<And>k n. 0 < n \<Longrightarrow> 0 < fwrite k n"
  shows "append_rest fwrite k rest = rest"
  using assms
proof (induction fwrite k rest rule: append_rest.induct)
  case (1 fwrite k rest)
  define x where x: "x = min (fwrite k (length rest)) (length rest)"
  show ?case
  proof (cases "rest = []")
    case False
    then have pos: "x \<noteq> 0" using 1(2)[of "length rest" k] by (simp add: x)
    then have "append_rest fwrite (Suc k) (drop x rest) = drop x rest"
      by (intro 1(1)[OF False x pos]) (rule 1(2))
    with pos False show ?thesis by (simp add: append_rest_step[of _ fwrite k rest, OF x])
  qed (simp add: append_rest.simps)
qed

lemma read_loop_bound:
  "length content \<le> maxSize \<Longrightarrow> length (snd (read_loop rd k maxSize err content)) \<le> maxSize
    \<and> (\<exists>s. snd (read_loop rd k maxSize err content) = content @ s)"
proof (induction rd k maxSize err content rule: read_loop.induct)
  case (1 rd k maxSize err content)
  let ?n = "min (maxSize - length content) kReadBufferSize"
  show ?case
  proof (cases "length content < maxSize")
    case True
    show ?thesis
    proof (cases "rd k ?n")
      case (Inl e)
      with True show ?thesis by (subst (1 2) read_loop.simps) (simp add: Let_def)
    next
      case (Inr bytes)
      show ?thesis
      proof (cases "take ?n bytes = []")
        case True
        with Inr \<open>length content < maxSize\<close> show ?thesis
          by (subst (1 2) read_loop.simps) (simp add: Let_def)
      next
        case False
        have eq: "read_loop rd k maxSize err content = read_loop rd (Suc k) maxSize err (content @ take ?n bytes)"
          using False Inr \<open>length content < maxSize\<close>
          by (subst read_loop.simps) (simp add: Let_def del: take_eq_Nil)
        have "length (content @ take ?n bytes) \<le> maxSize" using \<open>length content < maxSize\<close> by auto
        with 1(1)[OF \<open>length content < maxSize\<close> refl Inr False] show ?thesis unfolding eq by auto
      qed
    qed
  qed (use 1 in \<open>simp add: read_loop.simps\<close>)
qed

end
