(* ===== verification/Http_Handler.thy ===== *)
theory Http_Handler
  imports Http_Proxy Http_ResponseContext Server_Config File_Util
begin

text \<open>
  \<^verbatim>\<open>http/HttpHandler.{h,cpp}\<close>, \<^verbatim>\<open>http/HttpProxyHandler.{h,cpp}\<close> and the handler loop of
  \<^verbatim>\<open>HttpServer::onRequest\<close>. The chain of responsibility (each handler owns the next one) is a list of
  handlers, and a handler takes the rest of the chain as the continuation \<open>next\<close>. What a call may
  read and write is the record \<open>handle_state\<close>: the configuration, the connection's input buffer, the
  request, the response, and the proxy handler's table of client connections together with the
  proxies it created. The loop of \<^verbatim>\<open>onRequest\<close> is a partial function, \<open>None\<close> when it never ends.
\<close>

datatype HttpHandleState = kHandleDone | kHandleError | kHandleAgain | kHandleDecline | kForwarded

text \<open>What the handlers read of a \<^verbatim>\<open>TcpConnection\<close>.\<close>

record conn_info =
  ci_name :: string
  ci_local :: InetAddress
  ci_peer :: InetAddress

record handle_state =
  hs_config :: ServerConfig
  hs_input :: buffer
  hs_request :: HttpRequest
  hs_response :: HttpResponse
  hs_clientConnMap :: "(string \<times> conn_info) list"
  hs_proxies :: "HttpProxy list"

type_synonym handle_result = "(HttpHandleState \<times> handle_state) result"

definition respond :: "int \<Rightarrow> handle_state \<Rightarrow> handle_state" where
  "respond code s = s\<lparr>hs_response := setStatusCode code (hs_response s)\<rparr>"

section \<open>Access\<close>

text \<open>The loop of \<^verbatim>\<open>HttpAccessHandler::handle\<close>: the path, then the prefixes of it that end at a
  slash, from the longest.\<close>

function find_location :: "string set \<Rightarrow> string \<Rightarrow> string option" where
  "find_location locs reqPath =
     (if reqPath \<in> locs then Some reqPath
      else if length reqPath = 1 then None
      else (case str_rfind (CHR ''/'') reqPath (if 2 \<le> length reqPath then length reqPath - 2 else 0) of
              None \<Rightarrow> None
            | Some pos \<Rightarrow> find_location locs (take (pos + 1) reqPath)))"
  by pat_completeness auto
termination
proof (relation "measure (\<lambda>(_, p). length p)", goal_cases)
  case (2 locs p pos)
  then show ?case using str_rfind_Some(1,2)[OF 2(3)] by (auto split: if_splits)
qed simp

declare find_location.simps [simp del]

definition HttpAccessHandler_handle :: "(handle_state \<Rightarrow> handle_result) \<Rightarrow> handle_state \<Rightarrow> handle_result" where
  "HttpAccessHandler_handle next s =
     (let path = req_path (hs_request s);
          reqPath = take (req_locationEndPos (hs_request s)) path
      in if path = [] then Inr (kHandleAgain, s)
         else if reqPath = [] then Inr (kHandleDone, respond k404NotFound s)
         else (case find_location (listenedLocations (hs_config s)) reqPath of
                 None \<Rightarrow> Inr (kHandleDone, respond k404NotFound s)
               | Some l \<Rightarrow> next (s\<lparr>hs_request := setLocationEndPos (length l - 1) (hs_request s)\<rparr>)))"

section \<open>Request bodies\<close>

definition HttpPostReadHandler_handle :: "(handle_state \<Rightarrow> handle_result) \<Rightarrow> handle_state \<Rightarrow> handle_result" where
  "HttpPostReadHandler_handle next s =
     (let len = getHeader ''Content-Length'' (hs_request s)
      in if req_method (hs_request s) = kPost \<and> len \<noteq> [] then
           (case stoi len of
              Inl e \<Rightarrow> Inr (kHandleError, respond k400BadRequest s)
            | Inr i \<Rightarrow>
                let n = size_t_of_int i; buf = hs_input s
                in if readableBytes buf < n then Inr (kHandleAgain, s)
                   else andThen (retrieve n buf) (\<lambda>buf'.
                     next (s\<lparr>hs_request := setBody (byte_range buf (peek buf) (peek buf + n)) (hs_request s),
                             hs_input := buf'\<rparr>)))
         else next s)"

section \<open>Static files\<close>

text \<open>The search for an index file appends every name to the path tried before it.\<close>

fun find_index :: "filesystem \<Rightarrow> string \<Rightarrow> string list \<Rightarrow> string option" where
  "find_index fs fileDir [] = None"
| "find_index fs fileDir (index # rest) =
     (let filePath = fileDir @ index
      in if isfile_path fs filePath then Some filePath else find_index fs filePath rest)"

definition mime_of_path :: "string \<Rightarrow> string result" where
  "mime_of_path filePath = (case str_find_last (CHR ''.'') filePath of
     None \<Rightarrow> Inr (getMime ''default'')
   | Some dot_pos \<Rightarrow> andThen (substr_from filePath dot_pos) (\<lambda>suffix. Inr (getMime suffix)))"

text \<open>The second half of \<^verbatim>\<open>HttpStaticHandler::handle\<close>, once the file is known. The size mapped is
  the one in \<open>fileStat\<close>, which was filled for the path of the request.\<close>

definition serve_file :: "filesystem \<Rightarrow> FileStat \<Rightarrow> string \<Rightarrow> handle_state \<Rightarrow> handle_result" where
  "serve_file fs fileStat filePath s =
     andThen (mime_of_path filePath) (\<lambda>mime_type.
     let s1 = (respond k200Ok s);
         s2 = s1\<lparr>hs_response := setContentType mime_type (hs_response s1)\<rparr>
     in if req_method (hs_request s) = kHead then Inr (kHandleDone, s2)
        else if \<not> fs_open fs (c_str filePath) then Inr (kHandleDecline, respond k404NotFound s2)
        else (case fs_mmap fs (c_str filePath) (fstat_size fileStat) of
                None \<Rightarrow> Inr (kHandleError, respond k500InternalServerError s2)
              | Some mapped \<Rightarrow> andThen mapped (\<lambda>bytes.
                  Inr (kHandleDone, s2\<lparr>hs_response := resp_setBody bytes (hs_response s2)\<rparr>))))"

definition HttpStaticHandler_handle :: "filesystem \<Rightarrow> conn_info \<Rightarrow> (handle_state \<Rightarrow> handle_result)
    \<Rightarrow> handle_state \<Rightarrow> handle_result" where
  "HttpStaticHandler_handle fs conn next s =
     (let request = hs_request s;
          path = req_path request;
          location = take (req_locationEndPos request + 1) path
      in if req_method request \<noteq> kGet \<and> req_method request \<noteq> kHead then next s
         else if \<not> existStatic location (hs_config s) then next s
         else
           andThen (staticPath location (hs_config s)) (\<lambda>alias.
           andThen (substr_from path (req_locationEndPos request + 1)) (\<lambda>rest.
           let fileDir = alias @ rest;
               fileStat = FileStat_ctor fs fileDir
           in if isfile fileStat then serve_file fs fileStat fileDir s
              else if fileDir = [] \<or> last fileDir \<noteq> CHR ''/'' then Inr (kHandleAgain, s)
              else (case find_index fs fileDir (indexFilesOf (unat (toPort (ci_local conn))) (hs_config s)) of
                      None \<Rightarrow> Inr (kHandleAgain, s)
                    | Some filePath \<Rightarrow> serve_file fs fileStat filePath s))))"

section \<open>Forwarding\<close>

definition set_proxy_header :: "conn_info \<Rightarrow> string \<Rightarrow> HttpRequest \<Rightarrow> HttpRequest" where
  "set_proxy_header conn setHeader r =
     (if setHeader = ''X-Real-IP'' then addHeader ''X-Real-IP'' (toIp (ci_peer conn)) r
      else if setHeader = ''X-Forwarded-For'' then addHeader ''X-Forwarded-For'' (toIp (ci_peer conn)) r
      else r)"

text \<open>The upstream's address: without a colon the host is not used at all; the port goes
  through an unguarded \<^verbatim>\<open>stoi\<close> and a cast to 16 bits.\<close>

definition upstream_addr :: "string \<Rightarrow> InetAddress result" where
  "upstream_addr addr = (case str_find (CHR '':'') addr of
     None \<Rightarrow> Inr (InetAddress_ip [] 80)
   | Some colon_pos \<Rightarrow>
       andThen (substr_from addr (colon_pos + 1)) (\<lambda>p.
       andThen (stoi p) (\<lambda>port. Inr (InetAddress_ip (take colon_pos addr) (word_of_int port)))))"

definition setConnInfo :: "string \<Rightarrow> conn_info \<Rightarrow> handle_state \<Rightarrow> handle_state" where
  "setConnInfo connName conn s = s\<lparr>hs_clientConnMap := omap_put connName conn (hs_clientConnMap s)\<rparr>"

text \<open>The new upstream connection is not yet established when \<^verbatim>\<open>forward\<close> is called: connecting
  finishes in a later iteration of the event loop.\<close>

definition HttpProxyHandler_handle :: "conn_info \<Rightarrow> (handle_state \<Rightarrow> handle_result) \<Rightarrow> handle_state \<Rightarrow> handle_result" where
  "HttpProxyHandler_handle conn next s =
     (let location = take (req_locationEndPos (hs_request s) + 1) (req_path (hs_request s))
      in if \<not> existProxy location (hs_config s) then next s
         else
           andThen (proxyInfo location (hs_config s)) (\<lambda>proxy.
           let request = fold (set_proxy_header conn) (px_setHeaders proxy) (hs_request s);
               (upstream, config) = upstreamInfo (px_upstreamName proxy) (hs_config s)
           in andThen (upstream_addr (up_address upstream)) (\<lambda>addr.
              let s1 = setConnInfo (ci_name conn) conn (s\<lparr>hs_request := request, hs_config := config\<rparr>)
              in andThen (HttpProxy_ctor addr (ci_name conn @ ''%'')) (\<lambda>p0.
                 andThen (forward False request p0) (\<lambda>(_, p).
                 Inr (kForwarded, s1\<lparr>hs_proxies := p # hs_proxies s1\<rparr>))))))"

section \<open>The remaining handlers and the chain\<close>

definition HttpDefaultHandler_handle :: "handle_state \<Rightarrow> handle_result" where
  "HttpDefaultHandler_handle s = Inr (kHandleDone, respond k404NotFound s)"

definition HttpPressureTestHandler_handle :: "handle_state \<Rightarrow> handle_result" where
  "HttpPressureTestHandler_handle s =
     (let path = req_path (hs_request s)
      in if path = [] then Inr (kHandleAgain, s)
         else if path = ''/hello/'' then
           Inr (kHandleDone, respond k200Ok
             (s\<lparr>hs_response := resp_setBody (''hello, world!'' @ [LF]) (hs_response s)\<rparr>))
         else if path = ''/'' then
           Inr (kHandleDone, respond k200Ok
             (s\<lparr>hs_response := resp_setBody (''<html><head><title>Pressure Test</title></head>''
                @ ''<body><h1>CuBer. Pressure Test Model</h1>'' @ ''</body></html>'') (hs_response s)\<rparr>))
         else Inr (kHandleDone, respond k404NotFound s))"

datatype handler = HAccess | HStatic | HPostRead | HProxy | HDefault | HPressureTest

definition run_handler :: "filesystem \<Rightarrow> conn_info \<Rightarrow> handler \<Rightarrow> (handle_state \<Rightarrow> handle_result)
    \<Rightarrow> handle_state \<Rightarrow> handle_result" where
  "run_handler fs conn h next = (case h of
     HAccess \<Rightarrow> HttpAccessHandler_handle next
   | HStatic \<Rightarrow> HttpStaticHandler_handle fs conn next
   | HPostRead \<Rightarrow> HttpPostReadHandler_handle next
   | HProxy \<Rightarrow> HttpProxyHandler_handle conn next
   | HDefault \<Rightarrow> HttpDefaultHandler_handle
   | HPressureTest \<Rightarrow> HttpPressureTestHandler_handle)"

text \<open>\<^verbatim>\<open>doHandleNext\<close>: the end of the chain answers \<open>kHandleDone\<close>.\<close>

primrec doHandleNext :: "filesystem \<Rightarrow> conn_info \<Rightarrow> handler list \<Rightarrow> handle_state \<Rightarrow> handle_result" where
  "doHandleNext fs conn [] = (\<lambda>s. Inr (kHandleDone, s))"
| "doHandleNext fs conn (h # hs) = run_handler fs conn h (doHandleNext fs conn hs)"

definition appendHandler :: "handler \<Rightarrow> handler list \<Rightarrow> handler list" where
  "appendHandler h chain = chain @ [h]"

text \<open>The chain the constructor of \<^verbatim>\<open>HttpServer\<close> builds.\<close>

definition server_chain :: "handler list" where
  "server_chain = appendHandler HDefault (appendHandler HProxy (appendHandler HPostRead [HAccess, HStatic]))"

definition pressure_chain :: "handler list" where
  "pressure_chain = appendHandler HDefault (appendHandler HProxy (appendHandler HPostRead [HPressureTest]))"

text \<open>The \<^verbatim>\<open>while (!quitHandle)\<close> loop of \<^verbatim>\<open>HttpServer::onRequest\<close>.\<close>

partial_function (option) handle_loop :: "filesystem \<Rightarrow> conn_info \<Rightarrow> handler list \<Rightarrow> handle_state
    \<Rightarrow> handle_result option" where
  "handle_loop fs conn chain s = (case doHandleNext fs conn chain s of
     Inl e \<Rightarrow> Some (Inl e)
   | Inr (r, s') \<Rightarrow> if r = kHandleAgain then handle_loop fs conn chain s' else Some (Inr (r, s')))"

section \<open>Location matching\<close>

text \<open>The locations a path may match: itself, or a proper prefix that ends at a slash.\<close>

definition location_candidate :: "string \<Rightarrow> string \<Rightarrow> bool" where
  "location_candidate p l \<longleftrightarrow> l \<noteq> [] \<and> (l = p \<or> (\<exists>rest. rest \<noteq> [] \<and> p = l @ rest \<and> last l = CHR ''/''))"

lemma take_candidate:
  "location_candidate p l \<longleftrightarrow> l \<noteq> [] \<and> (l = p \<or> (\<exists>i. i + 1 < length p \<and> p ! i = CHR ''/'' \<and> l = take (i + 1) p))"
proof -
  have "(\<exists>rest. rest \<noteq> [] \<and> p = l @ rest \<and> last l = CHR ''/'') \<longleftrightarrow>
      (\<exists>i. i + 1 < length p \<and> p ! i = CHR ''/'' \<and> l = take (i + 1) p)" if "l \<noteq> []"
  proof
    assume "\<exists>rest. rest \<noteq> [] \<and> p = l @ rest \<and> last l = CHR ''/''"
    then obtain rest where r: "rest \<noteq> []" "p = l @ rest" "last l = CHR ''/''" by blast
    have "p ! (length l - 1) = CHR ''/''" using r that by (simp add: nth_append last_conv_nth)
    with r that show "\<exists>i. i + 1 < length p \<and> p ! i = CHR ''/'' \<and> l = take (i + 1) p"
      by (intro exI[of _ "length l - 1"]) simp
  next
    assume "\<exists>i. i + 1 < length p \<and> p ! i = CHR ''/'' \<and> l = take (i + 1) p"
    then obtain i where i: "i + 1 < length p" "p ! i = CHR ''/''" "l = take (i + 1) p" by blast
    then have "last l = CHR ''/''" by (simp add: take_Suc_conv_app_nth)
    with i show "\<exists>rest. rest \<noteq> [] \<and> p = l @ rest \<and> last l = CHR ''/''"
      by (intro exI[of _ "drop (i + 1) p"]) simp
  qed
  then show ?thesis by (auto simp: location_candidate_def)
qed

lemma find_location_longest:
  "p \<noteq> [] \<Longrightarrow> (case find_location locs p of
     Some l \<Rightarrow> location_candidate p l \<and> l \<in> locs \<and>
       (\<forall>l'. location_candidate p l' \<and> l' \<in> locs \<longrightarrow> length l' \<le> length l)
   | None \<Rightarrow> (\<forall>l. location_candidate p l \<longrightarrow> l \<notin> locs))"
proof (induction locs p rule: find_location.induct)
  case (1 locs p)
  let ?from = "if 2 \<le> length p then length p - 2 else 0"
  show ?case
  proof (cases "p \<in> locs")
    case True
    then show ?thesis
      using 1(2) by (auto simp: find_location.simps[of locs p] location_candidate_def)
  next
    case notin: False
    show ?thesis
    proof (cases "length p = 1")
      case True
      then show ?thesis
        using notin by (auto simp: find_location.simps[of locs p] take_candidate)
    next
      case False
      then have len: "2 \<le> length p" using 1(2) by (cases p; cases "tl p") auto
      show ?thesis
      proof (cases "str_rfind (CHR ''/'') p ?from")
        case None
        then have "p ! j \<noteq> CHR ''/''" if "j + 1 < length p" for j
          using that len by (auto simp: str_rfind_None)
        with None notin False show ?thesis
          by (auto simp: find_location.simps[of locs p] take_candidate)
      next
        case (Some pos)
        then have pos: "pos + 1 < length p" "p ! pos = CHR ''/''"
          "\<And>j. pos < j \<Longrightarrow> j + 1 < length p \<Longrightarrow> p ! j \<noteq> CHR ''/''"
          using len str_rfind_Some[OF Some] by auto
        let ?q = "take (pos + 1) p"
        have q: "?q \<noteq> []" using pos by auto
        have eq: "find_location locs p = find_location locs ?q"
          using notin False Some by (simp add: find_location.simps[of locs p])
        have cand: "location_candidate p l \<longleftrightarrow> l = p \<or> location_candidate ?q l" for l
        proof
          assume "location_candidate p l"
          then consider "l = p" | i where "i + 1 < length p" "p ! i = CHR ''/''" "l = take (i + 1) p"
            by (auto simp: take_candidate)
          then show "l = p \<or> location_candidate ?q l"
          proof cases
            case 2
            then have "i \<le> pos" using pos(3)[of i] by force
            moreover have "i + 1 < length ?q \<and> ?q ! i = CHR ''/'' \<and> l = take (i + 1) ?q" if "i \<noteq> pos"
              using 2 that \<open>i \<le> pos\<close> pos(1) by (simp add: min_def)
            ultimately show ?thesis using 2 q by (cases "i = pos") (auto simp: take_candidate)
          qed simp
        next
          assume "l = p \<or> location_candidate ?q l"
          then consider "l = p" | "l = ?q"
            | i where "i + 1 < length ?q" "?q ! i = CHR ''/''" "l = take (i + 1) ?q"
            by (auto simp: take_candidate)
          then show "location_candidate p l"
          proof cases
            case 3
            then have "i + 1 < length p" "p ! i = CHR ''/''" "l = take (i + 1) p"
              using pos(1) by (simp_all add: min_def)
            then show ?thesis using 1(2) by (auto simp: take_candidate)
          qed (use pos 1(2) q in \<open>auto simp: take_candidate\<close>)
        qed
        from 1(1)[OF notin False Some q] show ?thesis
          unfolding eq cand using notin by (auto split: option.splits)
      qed
    qed
  qed
qed


section \<open>The contract of a handler\<close>

text \<open>The states in which the chain runs: a consistent configuration whose upstream addresses
  parse, and well-formed buffers.\<close>

definition serving :: "handle_state \<Rightarrow> bool" where
  "serving s \<longleftrightarrow> config_wf (hs_config s) \<and> buffer_wf (hs_input s) \<and>
     (\<forall>n u. map_of (upstreams (hs_config s)) n = Some u \<longrightarrow> (\<exists>a. upstream_addr (up_address u) = Inr a))"

text \<open>The access handler has picked a location that is a prefix of the path.\<close>

definition located :: "handle_state \<Rightarrow> bool" where
  "located s \<longleftrightarrow> req_locationEndPos (hs_request s) < length (req_path (hs_request s))"

definition same_target :: "handle_state \<Rightarrow> handle_state \<Rightarrow> bool" where
  "same_target s s' \<longleftrightarrow> req_path (hs_request s') = req_path (hs_request s) \<and>
     req_locationEndPos (hs_request s') = req_locationEndPos (hs_request s)"

text \<open>Reading a mapped file may fault: a page behind the end of the file raises \<^verbatim>\<open>SIGBUS\<close>, as it happens when
  the file was cut off after its size was taken. This is the one fault a handler may end with; otherwise it
  returns, and the result satisfies \<open>P\<close>.\<close>

definition mapping_fault :: "filesystem \<Rightarrow> fault \<Rightarrow> bool" where
  "mapping_fault fs e \<longleftrightarrow> (\<exists>p n. fs_mmap fs p n = Some (Inl e))"

definition handled :: "filesystem \<Rightarrow> (HttpHandleState \<Rightarrow> handle_state \<Rightarrow> bool) \<Rightarrow> handle_result \<Rightarrow> bool" where
  "handled fs P res = (case res of Inl e \<Rightarrow> mapping_fault fs e | Inr (r, s') \<Rightarrow> P r s')"

lemma handled_simps [simp]:
  "handled fs P (Inr (r, s')) = P r s'"
  "handled fs P (Inl e) = mapping_fault fs e"
  by (simp_all add: handled_def)

lemma handled_mono: "handled fs P res \<Longrightarrow> (\<And>r s'. P r s' \<Longrightarrow> Q r s') \<Longrightarrow> handled fs Q res"
  by (auto simp: handled_def split: sum.splits)

lemma handled_cases:
  assumes "handled fs P res"
  obtains (fault) e where "res = Inl e" "mapping_fault fs e" | (returns) r s' where "res = Inr (r, s')" "P r s'"
  using assms by (cases res) (auto simp: handled_def)

text \<open>What a handler promises to the one before it, and the server loop to rely on: in a
  located serving state it returns, but for a faulting mapping, the state keeps serving, when it asks to
  be called again it has not touched the target of the request, and unless the request was forwarded it has changed
  the location and the body of the request at most.\<close>

definition same_head :: "HttpRequest \<Rightarrow> HttpRequest \<Rightarrow> bool" where
  "same_head q q' \<longleftrightarrow> req_method q' = req_method q \<and> req_version q' = req_version q \<and> req_path q' = req_path q \<and>
     req_query q' = req_query q \<and> req_receiveTime q' = req_receiveTime q \<and> req_headers q' = req_headers q"

lemma same_head_refl [simp]: "same_head q q"
  by (simp add: same_head_def)

lemma same_head_trans: "same_head q q' \<Longrightarrow> same_head q' q'' \<Longrightarrow> same_head q q''"
  by (simp add: same_head_def)

lemma same_head_update:
  "same_head (setBody x q) q' \<Longrightarrow> same_head q q'" "same_head (setLocationEndPos n q) q' \<Longrightarrow> same_head q q'"
  by (auto simp: same_head_def setBody_def setLocationEndPos_def)

definition kept :: "handle_state \<Rightarrow> HttpHandleState \<Rightarrow> handle_state \<Rightarrow> bool" where
  "kept s r s' \<longleftrightarrow> serving s' \<and> (r = kHandleAgain \<longrightarrow> same_target s s') \<and>
     (r \<noteq> kForwarded \<longrightarrow> same_head (hs_request s) (hs_request s'))"

locale handler_contract =
  fixes fs :: filesystem and run :: "handle_state \<Rightarrow> handle_result"
  assumes run_ok: "serving s \<Longrightarrow> located s \<Longrightarrow> handled fs (kept s) (run s)"

lemma serving_respond [simp]: "serving (respond c s) = serving s" "hs_request (respond c s) = hs_request s"
  by (simp_all add: serving_def respond_def)

lemma serving_update [simp]:
  "serving (s\<lparr>hs_request := r\<rparr>) = serving s"
  "serving (s\<lparr>hs_response := rp\<rparr>) = serving s"
  "serving (s\<lparr>hs_clientConnMap := m\<rparr>) = serving s"
  "serving (s\<lparr>hs_proxies := ps\<rparr>) = serving s"
  by (simp_all add: serving_def)

lemma mime_of_path_ok: "\<exists>m. mime_of_path p = Inr m"
proof (cases "str_find_last (CHR ''.'') p")
  case (Some i)
  then have "i < length p" unfolding str_find_last_def by (rule str_rfind_Some(1))
  with Some show ?thesis by (simp add: mime_of_path_def substr_from_def)
qed (simp add: mime_of_path_def)

lemma serve_file_ok:
  assumes "serving s"
  shows "handled fs (\<lambda>r s'. serving s' \<and> r \<noteq> kHandleAgain \<and> same_head (hs_request s) (hs_request s')) (serve_file fs st p s)"
proof -
  obtain m where m: "mime_of_path p = Inr m" using mime_of_path_ok by blast
  show ?thesis
  proof (cases "fs_mmap fs (c_str p) (fstat_size st)")
    case None
    with assms m show ?thesis by (simp add: serve_file_def Let_def)
  next
    case (Some r)
    with assms m show ?thesis
      by (cases r) (simp_all add: serve_file_def Let_def, auto simp: mapping_fault_def)
  qed
qed

lemma fold_proxy_headers:
  "req_path (fold (set_proxy_header conn) hs r) = req_path r"
  "req_locationEndPos (fold (set_proxy_header conn) hs r) = req_locationEndPos r"
  by (induction hs arbitrary: r) (simp_all add: set_proxy_header_def addHeader_def)

text \<open>The forwarding branch: the request with the configured headers is printed into the buffer of
  a new proxy for the upstream's address, and the client connection is remembered.\<close>

lemma proxy_forwards:
  assumes "serving s" "existProxy (take (req_locationEndPos (hs_request s) + 1) (req_path (hs_request s))) (hs_config s)"
  shows "\<exists>s' px u p addr. HttpProxyHandler_handle conn run s = Inr (kForwarded, s') \<and> serving s' \<and>
    map_of (proxies (hs_config s)) (take (req_locationEndPos (hs_request s) + 1) (req_path (hs_request s))) = Some px \<and>
    map_of (upstreams (hs_config s)) (px_upstreamName px) = Some u \<and> upstream_addr (up_address u) = Inr addr \<and>
    hs_request s' = fold (set_proxy_header conn) (px_setHeaders px) (hs_request s) \<and>
    hs_clientConnMap s' = omap_put (ci_name conn) conn (hs_clientConnMap s) \<and>
    hs_proxies s' = p # hs_proxies s \<and> hp_wf p \<and> hp_upstreamAddr p = addr \<and> hp_name p = ci_name conn @ ''%'' \<and>
    content (hp_forwardBuff p) = concat (request_pieces (hs_request s'))"
proof -
  let ?l = "take (req_locationEndPos (hs_request s) + 1) (req_path (hs_request s))"
  obtain px where px: "map_of (proxies (hs_config s)) ?l = Some px"
    using assms(2) by (auto simp: existProxy_def)
  then obtain u where u: "map_of (upstreams (hs_config s)) (px_upstreamName px) = Some u"
    using assms(1) unfolding serving_def config_wf_def existUpstreamInfo_def by blast
  then obtain addr where addr: "upstream_addr (up_address u) = Inr addr"
    using assms(1) unfolding serving_def by blast
  have up: "upstreamInfo (px_upstreamName px) (hs_config s) = (u, hs_config s)"
    using u by (simp add: upstreamInfo_def omap_ref_def)
  let ?r = "fold (set_proxy_header conn) (px_setHeaders px) (hs_request s)"
  obtain p0 where p0: "HttpProxy_ctor addr (ci_name conn @ ''%'') = Inr p0" "hp_wf p0"
      "content (hp_forwardBuff p0) = []" "hp_upstreamAddr p0 = addr" "hp_name p0 = ci_name conn @ ''%''"
    using HttpProxy_ctor_ok by blast
  obtain p where p: "forward False ?r p0 = Inr ([], p)" "hp_wf p"
      "content (hp_forwardBuff p) = concat (request_pieces ?r)" "hp_upstreamAddr p = addr"
      "hp_name p = ci_name conn @ ''%''"
    using forward_unconnected[OF p0(2), of ?r] p0 by auto
  show ?thesis
    using assms px u addr up p0(1) p
    by (simp add: HttpProxyHandler_handle_def Let_def proxyInfo_def setConnInfo_def serving_def)
qed

context handler_contract
begin

lemma static_ok: "handler_contract fs (HttpStaticHandler_handle fs conn run)"
proof
  fix s assume s: "serving s" "located s"
  let ?l = "take (req_locationEndPos (hs_request s) + 1) (req_path (hs_request s))"
  show "handled fs (kept s) (HttpStaticHandler_handle fs conn run s)"
  proof (cases "(req_method (hs_request s) = kGet \<or> req_method (hs_request s) = kHead) \<and>
      existStatic ?l (hs_config s)")
    case False
    then show ?thesis using run_ok[OF s] by (auto simp: HttpStaticHandler_handle_def Let_def)
  next
    case True
    then obtain st where st: "staticPath ?l (hs_config s) = Inr st"
      by (auto simp: existStatic_def staticPath_def)
    obtain rest where r: "substr_from (req_path (hs_request s)) (req_locationEndPos (hs_request s) + 1) = Inr rest"
      using s(2) by (simp add: located_def substr_from_def)
    have sf: "handled fs (kept s) (serve_file fs fst p s)" for fst p
      by (rule handled_mono[OF serve_file_ok[OF s(1)]]) (simp add: kept_def)
    from True st r s(1) sf show ?thesis
      by (auto simp: HttpStaticHandler_handle_def Let_def kept_def same_target_def split: option.splits)
  qed
qed

lemma post_read_ok: "handler_contract fs (HttpPostReadHandler_handle run)"
proof
  fix s assume s: "serving s" "located s"
  show "handled fs (kept s) (HttpPostReadHandler_handle run s)"
  proof (cases "req_method (hs_request s) = kPost \<and> getHeader ''Content-Length'' (hs_request s) \<noteq> []")
    case False
    then show ?thesis using run_ok[OF s] by (auto simp: HttpPostReadHandler_handle_def Let_def)
  next
    case True
    show ?thesis
    proof (cases "stoi (getHeader ''Content-Length'' (hs_request s))")
      case (Inl e)
      with True s show ?thesis by (simp add: HttpPostReadHandler_handle_def Let_def kept_def)
    next
      case (Inr i)
      let ?n = "size_t_of_int i" and ?b = "hs_input s"
      show ?thesis
      proof (cases "readableBytes ?b < ?n")
        case True
        with Inr \<open>req_method (hs_request s) = kPost \<and> _\<close> s show ?thesis
          by (simp add: HttpPostReadHandler_handle_def Let_def kept_def same_target_def)
      next
        case False
        have wf: "buffer_wf ?b" using s by (simp add: serving_def)
        then obtain b' where b': "retrieve ?n ?b = Inr b'" "buffer_wf b'"
          using retrieve_ok[of ?b ?n] False by (auto simp: length_content)
        let ?s = "s\<lparr>hs_request := setBody (byte_range ?b (peek ?b) (peek ?b + ?n)) (hs_request s), hs_input := b'\<rparr>"
        have "serving ?s" "located ?s" using s b' by (auto simp: serving_def located_def setBody_def)
        then have "handled fs (kept s) (run ?s)"
          by (intro handled_mono[OF run_ok])
            (auto simp: kept_def same_target_def setBody_def intro: same_head_update(1)[unfolded setBody_def])
        with False Inr \<open>req_method (hs_request s) = kPost \<and> _\<close> b' show ?thesis
          by (simp add: HttpPostReadHandler_handle_def Let_def)
      qed
    qed
  qed
qed

lemma proxy_ok: "handler_contract fs (HttpProxyHandler_handle conn run)"
proof
  fix s assume s: "serving s" "located s"
  show "handled fs (kept s) (HttpProxyHandler_handle conn run s)"
    using run_ok[OF s] proxy_forwards[OF s(1), of conn run]
    by (cases "existProxy (take (req_locationEndPos (hs_request s) + 1) (req_path (hs_request s))) (hs_config s)")
      (auto simp: HttpProxyHandler_handle_def Let_def kept_def)
qed

end

interpretation dflt: handler_contract fs HttpDefaultHandler_handle for fs
  by unfold_locales (simp add: HttpDefaultHandler_handle_def kept_def)

interpretation body_chain: handler_contract fs "doHandleNext fs conn [HPostRead, HProxy, HDefault]" for fs conn
  by (simp add: run_handler_def)
    (intro handler_contract.post_read_ok handler_contract.proxy_ok dflt.handler_contract_axioms)

text \<open>The part of the server's chain behind the access handler fulfils the contract.\<close>

definition tail_chain :: "handler list" where
  "tail_chain = [HStatic, HPostRead, HProxy, HDefault]"

lemma server_chain_eq: "server_chain = HAccess # tail_chain"
  by (simp add: server_chain_def appendHandler_def tail_chain_def)

lemma tail_contract: "handler_contract fs (doHandleNext fs conn tail_chain)"
  using body_chain.static_ok[of fs conn conn] by (simp add: tail_chain_def run_handler_def)

section \<open>The loop\<close>

lemma find_location_Some:
  assumes "find_location locs p = Some l" "p \<noteq> []"
  shows "l \<noteq> []" "length l \<le> length p" "l = take (length l) p" "l \<in> locs"
  using find_location_longest[OF assms(2), of locs] assms(1)
  by (auto simp: location_candidate_def)

text \<open>One iteration either finishes or shortens the location.\<close>

lemma chain_step:
  assumes "serving s" "req_path (hs_request s) \<noteq> []"
  shows "handled fs (\<lambda>r s'. serving s' \<and> (r \<noteq> kForwarded \<longrightarrow> same_head (hs_request s) (hs_request s')) \<and>
    (r = kHandleAgain \<longrightarrow> req_path (hs_request s') = req_path (hs_request s) \<and>
       req_locationEndPos (hs_request s') < req_locationEndPos (hs_request s))) (doHandleNext fs conn server_chain s)"
proof -
  let ?req = "take (req_locationEndPos (hs_request s)) (req_path (hs_request s))"
  have run: "doHandleNext fs conn server_chain s =
      HttpAccessHandler_handle (doHandleNext fs conn tail_chain) s"
    by (simp add: server_chain_eq run_handler_def)
  show ?thesis
  proof (cases "?req = [] \<or> find_location (listenedLocations (hs_config s)) ?req = None")
    case True
    with assms run show ?thesis by (auto simp: HttpAccessHandler_handle_def Let_def)
  next
    case False
    then obtain l where l: "find_location (listenedLocations (hs_config s)) ?req = Some l" "?req \<noteq> []" by auto
    note fl = find_location_Some[OF l]
    let ?s = "s\<lparr>hs_request := setLocationEndPos (length l - 1) (hs_request s)\<rparr>"
    have len: "length l \<le> req_locationEndPos (hs_request s)" "length l \<le> length (req_path (hs_request s))"
      using fl(2) by simp_all
    have "0 < length l" using fl(1) by simp
    with len have "length l - 1 < length (req_path (hs_request s))"
      "length l - 1 < req_locationEndPos (hs_request s)" by linarith+
    then have "located ?s" "length l - 1 < req_locationEndPos (hs_request s)"
      by (simp_all add: located_def setLocationEndPos_def)
    moreover have "doHandleNext fs conn server_chain s = doHandleNext fs conn tail_chain ?s"
      using run l assms(2) by (simp add: HttpAccessHandler_handle_def Let_def)
    moreover have "handled fs (kept ?s) (doHandleNext fs conn tail_chain ?s)"
      using handler_contract.run_ok[OF tail_contract] assms(1) calculation(1) by simp
    ultimately show ?thesis
      by (auto elim!: handled_mono simp: kept_def same_target_def setLocationEndPos_def
          intro: same_head_update(2)[unfolded setLocationEndPos_def])
  qed
qed

lemma handle_loop_returns:
  assumes "serving s" "req_path (hs_request s) \<noteq> []"
  shows "\<exists>res. handle_loop fs conn server_chain s = Some res \<and>
    handled fs (\<lambda>r s'. serving s' \<and> r \<noteq> kHandleAgain \<and>
      (r \<noteq> kForwarded \<longrightarrow> same_head (hs_request s) (hs_request s'))) res"
  using assms
proof (induction "req_locationEndPos (hs_request s)" arbitrary: s rule: less_induct)
  case less
  show ?case
  proof (cases rule: handled_cases[OF chain_step[OF less.prems, of fs conn]])
    case (1 e)
    then show ?thesis by (simp add: handle_loop.simps[of fs conn _ s])
  next
    case (2 r s')
    show ?thesis
    proof (cases "r = kHandleAgain")
      case True
      with 2 less.hyps[of s'] less.prems show ?thesis
        by (auto simp: handle_loop.simps[of fs conn _ s] elim!: handled_mono intro: same_head_trans)
    qed (use 2 in \<open>simp add: handle_loop.simps[of fs conn _ s]\<close>)
  qed
qed

text \<open>A handler that asks to be called again and changes nothing is called for ever.\<close>

lemma handle_loop_diverges:
  assumes "doHandleNext fs conn chain s = Inr (kHandleAgain, s)"
  shows "handle_loop fs conn chain s = None"
proof -
  have "\<not> (fs' = fs \<and> conn' = conn \<and> chain' = chain \<and> s' = s)"
    if "handle_loop fs' conn' chain' s' = Some res" for fs' conn' chain' s' res
  proof (rule handle_loop.raw_induct[OF _ that,
        where P = "\<lambda>f c ch t _. \<not> (f = fs \<and> c = conn \<and> ch = chain \<and> t = s)"], goal_cases)
    case (1 f fs' conn' chain' s' res)
    show ?case
    proof
      assume "fs' = fs \<and> conn' = conn \<and> chain' = chain \<and> s' = s"
      with 1(2) assms have "f fs conn chain s = Some res" by simp
      from 1(1)[OF this] show False by simp
    qed
  qed
  then show ?thesis by (cases "handle_loop fs conn chain s") blast+
qed

lemma empty_path_again:
  "req_path (hs_request s) = [] \<Longrightarrow> doHandleNext fs conn server_chain s = Inr (kHandleAgain, s)"
  by (simp add: server_chain_eq run_handler_def HttpAccessHandler_handle_def Let_def)

section \<open>Choosing the location\<close>

definition longest_location :: "string set \<Rightarrow> string \<Rightarrow> string \<Rightarrow> bool" where
  "longest_location locs p l \<longleftrightarrow> location_candidate p l \<and> l \<in> locs \<and>
     (\<forall>l'. location_candidate p l' \<and> l' \<in> locs \<longrightarrow> length l' \<le> length l)"

lemma candidate_prefix: "location_candidate p l \<Longrightarrow> l = take (length l) p \<and> length l \<le> length p \<and> l \<noteq> []"
  by (auto simp: location_candidate_def)

lemma find_location_eq:
  assumes "longest_location locs p l"
  shows "find_location locs p = Some l"
proof -
  have p: "p \<noteq> []" using assms by (auto simp: longest_location_def location_candidate_def)
  show ?thesis
  proof (cases "find_location locs p")
    case None
    with find_location_longest[OF p, of locs] assms show ?thesis by (auto simp: longest_location_def)
  next
    case (Some l')
    with find_location_longest[OF p, of locs] have l': "longest_location locs p l'"
      by (simp add: longest_location_def)
    then have "length l = length l'" using assms unfolding longest_location_def by (meson le_antisym)
    with l' assms candidate_prefix[of p l] candidate_prefix[of p l'] have "l = l'"
      unfolding longest_location_def by metis
    with Some show ?thesis by simp
  qed
qed

definition at_location :: "string \<Rightarrow> handle_state \<Rightarrow> handle_state" where
  "at_location l s = s\<lparr>hs_request := setLocationEndPos (length l - 1) (hs_request s)\<rparr>"

definition target :: "handle_state \<Rightarrow> string" where
  "target s = take (req_locationEndPos (hs_request s)) (req_path (hs_request s))"

lemma chain_at:
  assumes "longest_location (listenedLocations (hs_config s)) (target s) l"
  shows "doHandleNext fs conn (HAccess # hs) s = doHandleNext fs conn hs (at_location l s)"
    and "take (req_locationEndPos (hs_request (at_location l s)) + 1) (req_path (hs_request (at_location l s))) = l"
    and "located (at_location l s)"
proof -
  have c: "location_candidate (target s) l" using assms by (simp add: longest_location_def)
  note pre = candidate_prefix[OF c]
  then have ne: "target s \<noteq> []" by auto
  then have p: "req_path (hs_request s) \<noteq> []" by (auto simp: target_def)
  show "doHandleNext fs conn (HAccess # hs) s = doHandleNext fs conn hs (at_location l s)"
    using find_location_eq[OF assms] ne p
    by (simp add: run_handler_def HttpAccessHandler_handle_def Let_def target_def at_location_def)
  have "length l \<le> length (req_path (hs_request s))" "length l \<le> req_locationEndPos (hs_request s)"
    using pre by (simp_all add: target_def)
  moreover have "0 < length l" using pre by simp
  ultimately have len: "length l - 1 + 1 = length l" "length l - 1 < length (req_path (hs_request s))"
    "length l \<le> req_locationEndPos (hs_request s)" by linarith+
  show "take (req_locationEndPos (hs_request (at_location l s)) + 1) (req_path (hs_request (at_location l s))) = l"
    using pre len by (simp add: at_location_def setLocationEndPos_def target_def)
  show "located (at_location l s)"
    using len by (simp add: at_location_def located_def setLocationEndPos_def)
qed

lemma at_location_simps [simp]:
  "hs_config (at_location l s) = hs_config s" "hs_input (at_location l s) = hs_input s"
  "hs_response (at_location l s) = hs_response s" "hs_clientConnMap (at_location l s) = hs_clientConnMap s"
  "hs_proxies (at_location l s) = hs_proxies s" "serving (at_location l s) = serving s"
  "req_path (hs_request (at_location l s)) = req_path (hs_request s)"
  "req_method (hs_request (at_location l s)) = req_method (hs_request s)"
  "req_headers (hs_request (at_location l s)) = req_headers (hs_request s)"
  "req_locationEndPos (hs_request (at_location l s)) = length l - 1"
  "req_body (hs_request (at_location l s)) = req_body (hs_request s)"
  by (simp_all add: at_location_def setLocationEndPos_def serving_def)

section \<open>Properties\<close>

text \<open>
  (C10) The access handler serves a request from the longest configured location that is the path
  itself or a prefix of it ending in a slash: if there is one it passes the request on, with that
  location selected; if there is none it answers 404 and reports the request as handled (\<^verbatim>\<open>kHandleDone\<close>,
  where the comment of the class announces \<^verbatim>\<open>kHandleDecline\<close> and an attempt to rewrite the path to a static file).
\<close>

theorem access_selects_longest_location:
  assumes "target s \<noteq> []"
  shows "(\<exists>l. longest_location (listenedLocations (hs_config s)) (target s) l \<and>
            HttpAccessHandler_handle next s = next (at_location l s) \<and>
            take (req_locationEndPos (hs_request (at_location l s)) + 1) (req_path (hs_request s)) = l) \<or>
         ((\<forall>l. location_candidate (target s) l \<longrightarrow> l \<notin> listenedLocations (hs_config s)) \<and>
            HttpAccessHandler_handle next s = Inr (kHandleDone, respond k404NotFound s))"
proof (cases "find_location (listenedLocations (hs_config s)) (target s)")
  case None
  then have "\<forall>l. location_candidate (target s) l \<longrightarrow> l \<notin> listenedLocations (hs_config s)"
    using find_location_longest[OF assms, of "listenedLocations (hs_config s)"] by simp
  moreover have "HttpAccessHandler_handle next s = Inr (kHandleDone, respond k404NotFound s)"
    using None assms by (auto simp: HttpAccessHandler_handle_def Let_def target_def)
  ultimately show ?thesis by blast
next
  case (Some l)
  then have l: "longest_location (listenedLocations (hs_config s)) (target s) l"
    using find_location_longest[OF assms, of "listenedLocations (hs_config s)"]
    by (simp add: longest_location_def)
  moreover have "HttpAccessHandler_handle next s = next (at_location l s)"
    using Some assms by (auto simp: HttpAccessHandler_handle_def Let_def target_def at_location_def)
  moreover note chain_at(2)[OF l]
  ultimately show ?thesis by auto
qed

text \<open>An example: a static tree at \<^verbatim>\<open>/\<close> and a proxy at \<^verbatim>\<open>/echo/\<close>.\<close>

definition example_state :: "http_method \<Rightarrow> string \<Rightarrow> (string \<times> string) list \<Rightarrow> string \<Rightarrow> handle_state" where
  "example_state m path headers input =
     \<lparr>hs_config = example_config,
      hs_input = \<lparr>buf_data = replicate 8 NUL @ input, readerIndex = 8, writerIndex = 8 + length input\<rparr>,
      hs_request = setPath path (HttpRequest_ctor\<lparr>req_method := m, req_version := kHttp11, req_headers := headers\<rparr>),
      hs_response = HttpResponse_ctor False, hs_clientConnMap = [], hs_proxies = []\<rparr>"

definition example_conn :: conn_info where
  "example_conn = \<lparr>ci_name = ''web#1'', ci_local = InetAddress_port 8080 False,
     ci_peer = InetAddress_ip ''10.0.0.7'' 4000\<rparr>"

lemma example_locations: "listenedLocations (hs_config (example_state m p hs i)) = {''/'', ''/echo/''}"
  by (simp add: example_state_def example_config_def listenedLocations_def)

lemma example_target: "target (example_state m p hs i) = p"
  by (simp add: target_def example_state_def setPath_def)

theorem access_selects_longest_location_witness:
  "\<exists>l. longest_location {''/'', ''/echo/''} ''/echo/x'' l \<and>
     HttpAccessHandler_handle (\<lambda>s. Inr (kHandleDone, s)) (example_state kGet ''/echo/x'' [] []) =
       Inr (kHandleDone, at_location l (example_state kGet ''/echo/x'' [] []))"
proof -
  have c: "location_candidate ''/echo/x'' ''/''" by (auto simp: location_candidate_def)
  from access_selects_longest_location[of "example_state kGet ''/echo/x'' [] []" "\<lambda>s. Inr (kHandleDone, s)"]
  show ?thesis unfolding example_locations example_target using c by auto
qed

lemma example_serving: "serving (example_state m p hs i)"
proof -
  have "config_wf example_config" by (rule loadConfig_wf[OF example_config_loads config_wf_ctor])
  moreover have "\<exists>a. upstream_addr ''127.0.0.1:8081'' = Inr a"
    by (simp add: upstream_addr_def str_find_def find_char_def substr_from_def stoi_def isspace_def isdigit_def
        Let_def digits_val_def digit_val_def int_min_def int_max_def)
  moreover have "buffer_wf (hs_input (example_state m p hs i))"
    by (simp add: example_state_def buffer_defs)
  ultimately show ?thesis by (auto simp: serving_def example_state_def example_config_def split: if_splits)
qed

text \<open>A file system with one regular file in one directory.\<close>

definition example_fs :: filesystem where
  "example_fs = \<lparr>fs_stat = (\<lambda>p. if p = ''/srv/www/index.html'' then Some (Regular, 5)
       else if p = ''/srv/www/'' then Some (Directory, 12) else None),
     fs_open = (\<lambda>p. p = ''/srv/www/index.html''),
     fs_mmap = (\<lambda>p n. if n = 0 \<or> 4096 < n then None else Some (Inr (take n (''hello'' @ replicate 4096 NUL)))),
     fs_junk = 0\<rparr>"

lemma example_fs_maps: "\<not> mapping_fault example_fs e"
  by (simp add: mapping_fault_def example_fs_def)



text \<open>
  A request with an empty path is never answered: the access handler returns \<^verbatim>\<open>kHandleAgain\<close>
  without changing anything, so the loop of \<^verbatim>\<open>onRequest\<close> does not end and its event loop is stuck.
  The parser accepts such requests, for instance \<^verbatim>\<open>GET ?x HTTP/1.1\<close>.
\<close>

theorem empty_path_never_answered:
  assumes "req_path (hs_request s) = []"
  shows "handle_loop fs conn server_chain s = None"
  by (rule handle_loop_diverges[OF empty_path_again[OF assms]])

definition query_only_buffer :: buffer where
  "query_only_buffer = \<lparr>buf_data = ''--------GET ?x HTTP/1.1'' @ CRLF @ CRLF, readerIndex = 8, writerIndex = 27\<rparr>"

theorem empty_path_never_answered_witness:
  "\<exists>c b. parseRequest 1 HttpContext_ctor query_only_buffer = Inr (kParseOK, c, b) \<and>
     handle_loop example_fs example_conn server_chain
       ((example_state kGet [] [] [])\<lparr>hs_input := b, hs_request := ctx_request c\<rparr>) = None"
proof -
  let ?r = "HttpRequest_ctor\<lparr>req_method := kGet, req_version := kHttp11, req_query := ''?x'', req_receiveTime := 1\<rparr>"
  have p: "parseRequest 1 HttpContext_ctor query_only_buffer =
      Inr (kParseOK, HttpContext_ctor\<lparr>ctx_state := kGotAll, ctx_request := ?r\<rparr>,
        query_only_buffer\<lparr>readerIndex := 8, writerIndex := 8\<rparr>)"
    by code_simp
  have "req_path (hs_request ((example_state kGet [] [] [])\<lparr>hs_input := b, hs_request := ?r\<rparr>)) = []" for b
    by (simp add: HttpRequest_ctor_def)
  from empty_path_never_answered[OF this] p show ?thesis by auto
qed

text \<open>
  A POST whose body has not arrived completely is answered 404: the body reader returns
  \<^verbatim>\<open>kHandleAgain\<close>, which the loop of \<^verbatim>\<open>onRequest\<close> takes as a request to try a shorter location, until
  none is left; the bytes of the body stay in the input buffer.
\<close>

theorem incomplete_post_answered_404:
  assumes "req_method (hs_request s) = kPost" "req_path (hs_request s) \<noteq> []"
    "stoi (getHeader ''Content-Length'' (hs_request s)) = Inr n" "readableBytes (hs_input s) < size_t_of_int n"
    "getHeader ''Content-Length'' (hs_request s) \<noteq> []"
  shows "\<exists>s'. handle_loop fs conn server_chain s = Some (Inr (kHandleDone, s')) \<and>
    resp_statusCode (hs_response s') = k404NotFound \<and> hs_input s' = hs_input s"
  using assms
proof (induction "req_locationEndPos (hs_request s)" arbitrary: s rule: less_induct)
  case less
  show ?case
  proof (cases "\<exists>l. longest_location (listenedLocations (hs_config s)) (target s) l")
    case True
    then obtain l where l: "longest_location (listenedLocations (hs_config s)) (target s) l" by blast
    let ?s = "at_location l s"
    have g: "getHeader f (hs_request ?s) = getHeader f (hs_request s)" for f by (simp add: getHeader_def)
    have "doHandleNext fs conn server_chain s = Inr (kHandleAgain, ?s)"
      unfolding server_chain_eq chain_at(1)[OF l]
      using less.prems by (simp add: tail_chain_def run_handler_def HttpStaticHandler_handle_def
          HttpPostReadHandler_handle_def Let_def g)
    then have eq: "handle_loop fs conn server_chain s = handle_loop fs conn server_chain ?s"
      by (simp add: handle_loop.simps[of fs conn _ s])
    have "length l \<le> req_locationEndPos (hs_request s)" "l \<noteq> []"
      using candidate_prefix[of "target s" l] l by (auto simp: longest_location_def target_def)
    then have "req_locationEndPos (hs_request ?s) < req_locationEndPos (hs_request s)"
      by (cases l) auto
    from less.hyps[OF this] less.prems eq g show ?thesis by simp
  next
    case False
    have "doHandleNext fs conn server_chain s = Inr (kHandleDone, respond k404NotFound s)"
    proof (cases "target s = []")
      case True
      with less.prems(2) show ?thesis
        by (auto simp: server_chain_eq run_handler_def HttpAccessHandler_handle_def Let_def target_def)
    next
      case ne: False
      have "find_location (listenedLocations (hs_config s)) (target s) = None"
        using find_location_longest[OF ne, of "listenedLocations (hs_config s)"] False
        by (auto simp: longest_location_def split: option.splits)
      with less.prems(2) ne show ?thesis
        by (auto simp: server_chain_eq run_handler_def HttpAccessHandler_handle_def Let_def target_def)
    qed
    then show ?thesis by (simp add: handle_loop.simps[of fs conn _ s] respond_def)
  qed
qed

theorem incomplete_post_answered_404_witness:
  "\<exists>s'. handle_loop example_fs example_conn server_chain
      (example_state kPost ''/echo/x'' [(''Content-Length'', ''5'')] ''he'') = Some (Inr (kHandleDone, s')) \<and>
    resp_statusCode (hs_response s') = 404"
proof -
  let ?s = "example_state kPost ''/echo/x'' [(''Content-Length'', ''5'')] ''he''"
  have "stoi (getHeader ''Content-Length'' (hs_request ?s)) = Inr 5" by code_simp
  moreover have "size_t_of_int 5 = 5" by (simp add: size_t_of_int_def)
  moreover have "readableBytes (hs_input ?s) = 2" by (simp add: example_state_def buffer_defs)
  moreover have "getHeader ''Content-Length'' (hs_request ?s) \<noteq> []"
    by (simp add: example_state_def setPath_def getHeader_def)
  ultimately show ?thesis
    using incomplete_post_answered_404[of ?s 5 example_fs example_conn]
    by (auto simp: example_state_def setPath_def)
qed

lemma static_chain_at:
  assumes "longest_location (listenedLocations (hs_config s)) (target s) l"
    "req_method (hs_request s) = kGet \<or> req_method (hs_request s) = kHead"
    "map_of (statics (hs_config s)) l = Some st"
  shows "doHandleNext fs conn server_chain s =
    (let fileDir = st_alias st @ drop (length l) (req_path (hs_request s));
         fileStat = FileStat_ctor fs fileDir
     in if isfile fileStat then serve_file fs fileStat fileDir (at_location l s)
        else if fileDir = [] \<or> last fileDir \<noteq> CHR ''/'' then Inr (kHandleAgain, at_location l s)
        else (case find_index fs fileDir (indexFilesOf (unat (toPort (ci_local conn))) (hs_config s)) of
                None \<Rightarrow> Inr (kHandleAgain, at_location l s)
              | Some filePath \<Rightarrow> serve_file fs fileStat filePath (at_location l s)))"
proof -
  have "0 < length l" using assms(1) by (auto simp: longest_location_def location_candidate_def)
  then have n: "length l - 1 + 1 = length l" by simp
  have "length l \<le> length (req_path (hs_request s))"
    using chain_at(3)[OF assms(1)] n by (simp add: located_def)
  then have sub: "substr_from (req_path (hs_request s)) (length l) =
      Inr (drop (length l) (req_path (hs_request s)))"
    by (simp add: substr_from_def)
  have tk: "take (length l) (req_path (hs_request s)) = l"
    using chain_at(2)[OF assms(1)] unfolding at_location_simps n .
  have ex: "existStatic l (hs_config s)" "staticPath l (hs_config s) = Inr (st_alias st)"
    using assms(3) by (simp_all add: existStatic_def staticPath_def)
  have "HttpStaticHandler_handle fs conn run (at_location l s) =
    (let fileDir = st_alias st @ drop (length l) (req_path (hs_request s));
         fileStat = FileStat_ctor fs fileDir
     in if isfile fileStat then serve_file fs fileStat fileDir (at_location l s)
        else if fileDir = [] \<or> last fileDir \<noteq> CHR ''/'' then Inr (kHandleAgain, at_location l s)
        else (case find_index fs fileDir (indexFilesOf (unat (toPort (ci_local conn))) (hs_config s)) of
                None \<Rightarrow> Inr (kHandleAgain, at_location l s)
              | Some filePath \<Rightarrow> serve_file fs fileStat filePath (at_location l s)))" for run
    unfolding HttpStaticHandler_handle_def Let_def at_location_simps n tk sub ex(2) andThen_simps
    using ex(1) assms(2) by auto
  moreover have "doHandleNext fs conn server_chain s = doHandleNext fs conn tail_chain (at_location l s)"
    unfolding server_chain_eq by (rule chain_at(1)[OF assms(1)])
  ultimately show ?thesis by (simp add: tail_chain_def run_handler_def)
qed

lemma page_round_up: "(n :: nat) \<le> 4096 * ((n + 4095) div 4096)"
  using div_mult_mod_eq[of "n + 4095" 4096] mod_less_divisor[of 4096 "n + 4095"] by linarith

lemma mime_of_path_suffix:
  "mime_of_path p = Inr (getMime (case str_find_last (CHR ''.'') p of None \<Rightarrow> ''default'' | Some i \<Rightarrow> drop i p))"
proof (cases "str_find_last (CHR ''.'') p")
  case (Some i)
  then have "i < length p" unfolding str_find_last_def by (rule str_rfind_Some(1))
  with Some show ?thesis by (simp add: mime_of_path_def substr_from_def)
qed (simp add: mime_of_path_def)

text \<open>
  (C12) A GET of a readable, non-empty regular file is answered with the file (of an empty one nothing can be
  mapped, and the answer is 500): if the longest location matching the
  path is a static one and the rest of the path under its directory names a readable, non-empty
  regular file, the loop of \<^verbatim>\<open>onRequest\<close> ends in its first iteration with status 200, the content
  type of the file's suffix, and the bytes of the file as the body.
\<close>

theorem static_file_served:
  assumes "longest_location (listenedLocations (hs_config s)) (target s) l"
    "req_method (hs_request s) = kGet" "map_of (statics (hs_config s)) l = Some st"
    "file = st_alias st @ drop (length l) (req_path (hs_request s))"
    "fs_stat fs (c_str file) = Some (Regular, length bytes)" "fs_open fs (c_str file)"
    "mmap_reads fs (c_str file) bytes" "bytes \<noteq> []"
  shows "\<exists>s'. handle_loop fs conn server_chain s = Some (Inr (kHandleDone, s')) \<and>
    resp_statusCode (hs_response s') = k200Ok \<and> resp_body (hs_response s') = bytes \<and>
    resp_getHeader ''Content-Type'' (hs_response s') =
      getMime (case str_find_last (CHR ''.'') file of None \<Rightarrow> ''default'' | Some i \<Rightarrow> drop i file)"
proof -
  let ?st = "FileStat_ctor fs file"
  have st: "isfile ?st" "fstat_size ?st = length bytes" using assms(5) by (simp_all add: FileStat_ctor_def isfile_def)
  have map: "fs_mmap fs (c_str file) (length bytes) = Some (Inr bytes)"
    using assms(7,8) page_round_up[of "length bytes"] by (simp add: mmap_reads_def)
  have "doHandleNext fs conn server_chain s = serve_file fs ?st file (at_location l s)"
    unfolding static_chain_at[OF assms(1) disjI1[OF assms(2)] assms(3)] assms(4)[symmetric] Let_def using st by simp
  with st map assms(2,6) show ?thesis
    by (simp add: handle_loop.simps[of fs conn _ s] serve_file_def mime_of_path_suffix Let_def respond_def
        response_defs resp_getHeader_def)
qed

definition file_fs :: filesystem where
  "file_fs = \<lparr>fs_stat = (\<lambda>p. if p = ''/srv/www/a.txt'' then Some (Regular, 5) else None),
     fs_open = (\<lambda>p. p = ''/srv/www/a.txt''),
     fs_mmap = (\<lambda>p n. if n = 0 then None else if n \<le> 4096 then Some (Inr (take n (''hello'' @ replicate 4096 NUL)))
                      else Some (Inl BusError)), fs_junk = 0\<rparr>"

lemma root_location: "longest_location (listenedLocations (hs_config (example_state m ''/a.txt'' hs i)))
    (target (example_state m ''/a.txt'' hs i)) ''/''"
  unfolding example_locations example_target longest_location_def location_candidate_def
  by (auto simp: append_eq_Cons_conv)

theorem static_file_served_witness:
  "\<exists>s'. handle_loop file_fs example_conn server_chain (example_state kGet ''/a.txt'' [] []) =
      Some (Inr (kHandleDone, s')) \<and>
    resp_statusCode (hs_response s') = 200 \<and> resp_body (hs_response s') = ''hello'' \<and>
    resp_getHeader ''Content-Type'' (hs_response s') = ''text/plain''"
proof -
  let ?s = "example_state kGet ''/a.txt'' [] []" and ?f = "''/srv/www/a.txt''"
  let ?st = "\<lparr>st_location = ''/'', st_alias = ''/srv/www/''\<rparr>"
  have st: "map_of (statics (hs_config ?s)) ''/'' = Some ?st" by (simp add: example_state_def example_config_def)
  have f: "?f = st_alias ?st @ drop (length ''/'') (req_path (hs_request ?s))"
    by (simp add: example_state_def setPath_def)
  have c: "c_str ?f = ?f" by (simp add: c_str_def)
  have fs: "fs_stat file_fs (c_str ?f) = Some (Regular, length ''hello'')" "fs_open file_fs (c_str ?f)"
      "mmap_reads file_fs (c_str ?f) ''hello''"
    unfolding c by (simp_all add: file_fs_def mmap_reads_def)
  have "str_find_last (CHR ''.'') ?f = Some 10" by code_simp
  then have m: "getMime (case str_find_last (CHR ''.'') ?f of None \<Rightarrow> ''default'' | Some i \<Rightarrow> drop i ?f) = ''text/plain''"
    by (simp add: getMime_def mime_table_def)
  have g: "req_method (hs_request ?s) = kGet" by (simp add: example_state_def setPath_def)
  from static_file_served[OF root_location g st f fs, of example_conn] m show ?thesis by simp
qed

text \<open>
  An index page is sent with the size of its directory: \<^verbatim>\<open>fileStat\<close> describes the directory
  the path names, \<^verbatim>\<open>isfile(const char*)\<close> does not update it, and its size is used to map the index
  file. The body is cut off at, or padded with zero bytes to, the size of the directory.
\<close>

theorem index_page_gets_directory_size:
  assumes "longest_location (listenedLocations (hs_config s)) (target s) l"
    "req_method (hs_request s) = kGet" "map_of (statics (hs_config s)) l = Some st"
    "dir = st_alias st @ drop (length l) (req_path (hs_request s))" "dir \<noteq> []" "last dir = CHR ''/''"
    "fs_stat fs (c_str dir) = Some (Directory, d)"
    "indexFilesOf (unat (toPort (ci_local conn))) (hs_config s) = index # rest"
    "fs_stat fs (c_str (dir @ index)) = Some (Regular, length bytes)" "fs_open fs (c_str (dir @ index))"
    "mmap_reads fs (c_str (dir @ index)) bytes" "0 < d" "d \<le> 4096 * ((length bytes + 4095) div 4096)"
  shows "\<exists>s'. handle_loop fs conn server_chain s = Some (Inr (kHandleDone, s')) \<and>
    resp_statusCode (hs_response s') = k200Ok \<and>
    resp_body (hs_response s') = take d (bytes @ replicate 4096 NUL)"
proof -
  let ?st = "FileStat_ctor fs dir"
  have st: "\<not> isfile ?st" "fstat_size ?st = d" using assms(7) by (simp_all add: FileStat_ctor_def isfile_def)
  have map: "fs_mmap fs (c_str (dir @ index)) d = Some (Inr (take d (bytes @ replicate 4096 NUL)))"
    using assms(11-13) by (simp add: mmap_reads_def)
  have "find_index fs dir (index # rest) = Some (dir @ index)" using assms(9) by (simp add: isfile_path_def Let_def)
  then have "doHandleNext fs conn server_chain s = serve_file fs ?st (dir @ index) (at_location l s)"
    unfolding static_chain_at[OF assms(1) disjI1[OF assms(2)] assms(3)] assms(4)[symmetric] assms(8) Let_def
    using st assms(5,6) by simp
  with st map assms(2,10) show ?thesis
    by (simp add: handle_loop.simps[of fs conn _ s] serve_file_def mime_of_path_suffix Let_def respond_def
        response_defs)
qed

definition index_fs :: filesystem where
  "index_fs = \<lparr>fs_stat = (\<lambda>p. if p = ''/srv/www/index.html'' then Some (Regular, 5)
       else if p = ''/srv/www/'' then Some (Directory, 12) else None),
     fs_open = (\<lambda>p. p = ''/srv/www/index.html''),
     fs_mmap = (\<lambda>p n. if n = 0 then None else if n \<le> 4096 then Some (Inr (take n (''hello'' @ replicate 4096 NUL)))
                      else Some (Inl BusError)), fs_junk = 0\<rparr>"

lemma example_port: "unat (toPort (ci_local example_conn)) = 8080"
  by (simp add: example_conn_def InetAddress_port_def toPort_def network_host_inverse)

theorem index_page_gets_directory_size_witness:
  "\<exists>s'. handle_loop index_fs example_conn server_chain (example_state kGet ''/'' [] []) = Some (Inr (kHandleDone, s')) \<and>
     resp_body (hs_response s') = ''hello'' @ replicate 7 NUL"
proof -
  let ?s = "example_state kGet ''/'' [] []" and ?d = "''/srv/www/''"
  let ?st = "\<lparr>st_location = ''/'', st_alias = ''/srv/www/''\<rparr>"
  have l: "longest_location (listenedLocations (hs_config ?s)) (target ?s) ''/''"
    unfolding example_locations example_target longest_location_def location_candidate_def
    by (auto simp: append_eq_Cons_conv)
  have g: "req_method (hs_request ?s) = kGet" by (simp add: example_state_def setPath_def)
  have st: "map_of (statics (hs_config ?s)) ''/'' = Some ?st" by (simp add: example_state_def example_config_def)
  have d: "?d = st_alias ?st @ drop (length ''/'') (req_path (hs_request ?s))" "?d \<noteq> []" "last ?d = CHR ''/''"
    by (simp_all add: example_state_def setPath_def)
  have c: "c_str ?d = ?d" "c_str (?d @ ''index.html'') = ''/srv/www/index.html''" by (simp_all add: c_str_def)
  have i: "indexFilesOf (unat (toPort (ci_local example_conn))) (hs_config ?s) = ''index.html'' # []"
    unfolding example_port by (simp add: example_state_def example_config_def indexFilesOf_def)
  have fs: "fs_stat index_fs (c_str ?d) = Some (Directory, 12)"
      "fs_stat index_fs (c_str (?d @ ''index.html'')) = Some (Regular, length ''hello'')"
      "fs_open index_fs (c_str (?d @ ''index.html''))" "mmap_reads index_fs (c_str (?d @ ''index.html'')) ''hello''"
    unfolding c by (simp_all add: index_fs_def mmap_reads_def)
  have b: "(0::nat) < 12" "12 \<le> 4096 * ((length ''hello'' + 4095) div 4096)" by simp_all
  have t: "take 12 (''hello'' @ replicate 4096 NUL) = ''hello'' @ replicate 7 NUL"
    by (simp add: numeral_eq_Suc)
  show ?thesis
    using index_page_gets_directory_size[OF l g st d fs(1) i fs(2-4) b] unfolding t by blast
qed

lemma chain_forwards:
  assumes "serving s" "longest_location (listenedLocations (hs_config s)) (target s) l"
    "map_of (proxies (hs_config s)) l = Some px" "\<not> existStatic l (hs_config s)"
    "req_method (hs_request s) \<noteq> kPost"
  shows "\<exists>s' u p addr. handle_loop fs conn server_chain s = Some (Inr (kForwarded, s')) \<and>
    hs_request s' = fold (set_proxy_header conn) (px_setHeaders px) (hs_request (at_location l s)) \<and>
    map_of (hs_clientConnMap s') (ci_name conn) = Some conn \<and>
    map_of (upstreams (hs_config s)) (px_upstreamName px) = Some u \<and> upstream_addr (up_address u) = Inr addr \<and>
    hs_proxies s' = p # hs_proxies s \<and> hp_upstreamAddr p = addr \<and>
    fst (onUpstreamConnected True p) = [Send (concat (request_pieces (hs_request s')))]"
proof -
  let ?s = "at_location l s"
  have loc: "take (req_locationEndPos (hs_request ?s) + 1) (req_path (hs_request ?s)) = l"
    by (rule chain_at(2)[OF assms(2)])
  have ex: "existProxy (take (req_locationEndPos (hs_request ?s) + 1) (req_path (hs_request ?s))) (hs_config ?s)"
    unfolding loc using assms(3) by (simp add: existProxy_def)
  have sv: "serving ?s" using assms(1) by simp
  have run: "doHandleNext fs conn server_chain s = HttpProxyHandler_handle conn HttpDefaultHandler_handle ?s"
  proof -
    have "doHandleNext fs conn server_chain s = doHandleNext fs conn tail_chain ?s"
      unfolding server_chain_eq by (rule chain_at(1)[OF assms(2)])
    also have "\<dots> = doHandleNext fs conn [HPostRead, HProxy, HDefault] ?s"
      unfolding tail_chain_def doHandleNext.simps(2)[of _ _ HStatic] run_handler_def handler.case
        HttpStaticHandler_handle_def Let_def loc using assms(4) by simp
    also have "\<dots> = HttpProxyHandler_handle conn HttpDefaultHandler_handle ?s"
      using assms(5) by (simp add: run_handler_def HttpPostReadHandler_handle_def Let_def)
    finally show ?thesis .
  qed
  obtain s' px' u p addr where fw: "HttpProxyHandler_handle conn HttpDefaultHandler_handle ?s = Inr (kForwarded, s')"
      "map_of (proxies (hs_config ?s)) l = Some px'" "map_of (upstreams (hs_config ?s)) (px_upstreamName px') = Some u"
      "upstream_addr (up_address u) = Inr addr"
      "hs_request s' = fold (set_proxy_header conn) (px_setHeaders px') (hs_request ?s)"
      "hs_clientConnMap s' = omap_put (ci_name conn) conn (hs_clientConnMap ?s)"
      "hs_proxies s' = p # hs_proxies ?s" "hp_wf p" "hp_upstreamAddr p = addr"
      "content (hp_forwardBuff p) = concat (request_pieces (hs_request s'))"
    using proxy_forwards[OF sv ex, of conn HttpDefaultHandler_handle] unfolding loc by blast
  have "px' = px" using fw(2) assms(3) by simp
  moreover have "concat (request_pieces (hs_request s')) \<noteq> []" by (simp add: request_pieces_concat)
  ultimately show ?thesis
    using run fw onUpstreamConnected_sends[OF fw(8)] by (simp add: handle_loop.simps[of fs conn _ s])
qed



end
