(* ===== verification/Log_Stream.thy ===== *)
theory Log_Stream
  imports Prelude "HOL-Library.Signed_Division"
begin

text \<open>
  \<^verbatim>\<open>base/LogStream.{h,cc}\<close>: the fixed-size buffer behind a log line, the integer conversions and
  the stream operators. \<^verbatim>\<open>%\<close> and \<^verbatim>\<open>/\<close> on signed integers truncate towards zero (\<open>smod\<close>, \<open>sdiv\<close>).
  The floating-point operator, \<^verbatim>\<open>Fmt\<close> and the SI and IEC formatters are not modelled.
\<close>

section \<open>Integer conversion\<close>

definition digits :: string where "digits = ''9876543210123456789''"

text \<open>\<^verbatim>\<open>zero[lsd]\<close>, where \<^verbatim>\<open>zero\<close> points at the middle of \<^verbatim>\<open>digits\<close>.\<close>

definition zero_at :: "int \<Rightarrow> char" where
  "zero_at lsd = digits ! nat (9 + lsd)"

function convert_loop :: "int \<Rightarrow> string" where
  "convert_loop i =
     (let lsd = i smod 10; i' = i sdiv 10
      in zero_at lsd # (if i' \<noteq> 0 then convert_loop i' else []))"
  by pat_completeness auto
termination
proof (relation "measure (\<lambda>i. nat \<bar>i\<bar>)", simp)
  fix i lsd i' :: int
  assume "i' = i sdiv 10" "i' \<noteq> 0"
  then have "\<bar>i'\<bar> = \<bar>i\<bar> div 10" "i \<noteq> 0"
    by (auto simp: signed_divide_int_def abs_mult sgn_if)
  then show "(i', i) \<in> measure (\<lambda>i. nat \<bar>i\<bar>)" by simp
qed

declare convert_loop.simps [simp del]

definition convert :: "int \<Rightarrow> string" where
  "convert v = rev (convert_loop v @ (if v < 0 then ''-'' else []))"

definition digitsHex :: string where "digitsHex = ''0123456789ABCDEF''"

function convertHex_loop :: "nat \<Rightarrow> string" where
  "convertHex_loop i = digitsHex ! (i mod 16) # (if i div 16 \<noteq> 0 then convertHex_loop (i div 16) else [])"
  by pat_completeness auto
termination by (relation "measure id") auto

declare convertHex_loop.simps [simp del]

definition convertHex :: "nat \<Rightarrow> string" where
  "convertHex v = rev (convertHex_loop v)"

section \<open>The buffer\<close>

text \<open>\<^verbatim>\<open>FixedBuffer<SIZE>\<close>: the bytes before \<^verbatim>\<open>cur_\<close>.\<close>

record FixedBuffer =
  fb_SIZE :: nat
  fb_data :: string

definition kSmallBuffer :: nat where "kSmallBuffer = 4000"
definition kLargeBuffer :: nat where "kLargeBuffer = 4000 * 1000"

definition FixedBuffer_ctor :: "nat \<Rightarrow> FixedBuffer" where
  "FixedBuffer_ctor n = \<lparr>fb_SIZE = n, fb_data = []\<rparr>"

definition fb_length :: "FixedBuffer \<Rightarrow> nat" where
  "fb_length b = length (fb_data b)"

definition avail :: "FixedBuffer \<Rightarrow> nat" where
  "avail b = fb_SIZE b - fb_length b"

definition fb_append :: "string \<Rightarrow> FixedBuffer \<Rightarrow> FixedBuffer" where
  "fb_append s b = (if length s < avail b then b\<lparr>fb_data := fb_data b @ s\<rparr> else b)"

text \<open>Bytes written at \<^verbatim>\<open>current()\<close> and then accounted for with \<^verbatim>\<open>add\<close>.\<close>

definition fb_write_add :: "string \<Rightarrow> FixedBuffer \<Rightarrow> FixedBuffer" where
  "fb_write_add s b = b\<lparr>fb_data := fb_data b @ s\<rparr>"

definition fb_reset :: "FixedBuffer \<Rightarrow> FixedBuffer" where
  "fb_reset b = b\<lparr>fb_data := []\<rparr>"

section \<open>The stream\<close>

definition kMaxNumericSize :: nat where "kMaxNumericSize = 44"

text \<open>The operands the sources stream: text, C strings (\<open>None\<close> the null pointer), characters,
  booleans, integers of any width and pointers.\<close>

datatype log_item = LText string | LCString "string option" | LChar char | LBool bool | LInt int | LPtr nat

definition formatInteger :: "int \<Rightarrow> FixedBuffer \<Rightarrow> FixedBuffer" where
  "formatInteger v b = (if kMaxNumericSize \<le> avail b then fb_write_add (convert v) b else b)"

definition formatPointer :: "nat \<Rightarrow> FixedBuffer \<Rightarrow> FixedBuffer" where
  "formatPointer p b = (if kMaxNumericSize \<le> avail b then fb_write_add (''0x'' @ convertHex p) b else b)"

fun stream_item :: "log_item \<Rightarrow> FixedBuffer \<Rightarrow> FixedBuffer" where
  "stream_item (LText s) b = fb_append s b"
| "stream_item (LCString (Some s)) b = fb_append (c_str s) b"
| "stream_item (LCString None) b = fb_append ''(null)'' b"
| "stream_item (LChar c) b = fb_append [c] b"
| "stream_item (LBool v) b = fb_append (if v then ''1'' else ''0'') b"
| "stream_item (LInt v) b = formatInteger v b"
| "stream_item (LPtr p) b = formatPointer p b"

definition stream_items :: "log_item list \<Rightarrow> FixedBuffer \<Rightarrow> FixedBuffer" where
  "stream_items xs b = fold stream_item xs b"

section \<open>Lemmas\<close>

lemma zero_at_digit:
  assumes "\<bar>d\<bar> < 10"
  shows "zero_at d = char_of (48 + nat \<bar>d\<bar>)"
proof -
  have "d \<in> set [-9..9]" using assms by auto
  moreover have "\<forall>d \<in> set [-9..9]. zero_at d = char_of (48 + nat \<bar>d\<bar>)" by code_simp
  ultimately show ?thesis by blast
qed

lemma convert_loop_dec: "rev (convert_loop i) = dec_nat (nat \<bar>i\<bar>)"
proof (induction i rule: convert_loop.induct)
  case (1 i)
  have m: "\<bar>i smod 10\<bar> = \<bar>i\<bar> mod 10" "\<bar>i sdiv 10\<bar> = \<bar>i\<bar> div 10"
    by (auto simp: signed_modulo_int_def signed_divide_int_def abs_mult sgn_if)
  then have z: "zero_at (i smod 10) = char_of (48 + nat \<bar>i\<bar> mod 10)"
    using zero_at_digit[of "i smod 10"] by (simp add: nat_mod_distrib)
  have n: "nat \<bar>i sdiv 10\<bar> = nat \<bar>i\<bar> div 10" using m by (simp add: nat_div_distrib)
  show ?case
  proof (cases "i sdiv 10 = 0")
    case True
    then have "nat \<bar>i\<bar> < 10" using n by simp
    with True z show ?thesis
      by (subst convert_loop.simps, subst dec_nat.simps) (simp add: Let_def)
  next
    case False
    then have "\<not> nat \<bar>i\<bar> < 10" using n by (metis abs_eq_0_iff div_less m(2) nat_0_iff abs_ge_zero
          dual_order.antisym)
    with False z n 1[OF refl refl False] show ?thesis
      by (subst convert_loop.simps, subst dec_nat.simps) (simp add: Let_def)
  qed
qed

lemma convert_dec_int: "convert v = dec_int v"
  by (simp add: convert_def dec_int_def convert_loop_dec)

lemma length_dec_int: "\<bar>v\<bar> < 10 ^ Suc k \<Longrightarrow> length (dec_int v) \<le> k + 2"
proof -
  assume v: "\<bar>v\<bar> < 10 ^ Suc k"
  then have "nat \<bar>v\<bar> < nat (10 ^ Suc k)" by (subst nat_less_eq_zless) auto
  also have "nat (10 ^ Suc k) = 10 ^ Suc k" by (metis nat_power_eq nat_numeral zero_le_numeral)
  finally have "length (dec_nat (nat \<bar>v\<bar>)) \<le> Suc k" by (rule length_dec_nat)
  then show ?thesis by (auto simp: dec_int_def)
qed

lemma length_convertHex_loop: "v < 16 ^ Suc k \<Longrightarrow> length (convertHex_loop v) \<le> Suc k"
proof (induction k arbitrary: v)
  case 0 then show ?case by (simp add: convertHex_loop.simps)
next
  case (Suc k)
  have "v div 16 < 16 ^ Suc k" using Suc(2) by (simp add: less_mult_imp_div_less mult.commute)
  from Suc.IH[OF this] show ?case by (subst convertHex_loop.simps) simp
qed

section \<open>Properties\<close>

text \<open>The text of an operand.\<close>

fun item_text :: "log_item \<Rightarrow> string" where
  "item_text (LText s) = s"
| "item_text (LCString (Some s)) = c_str s"
| "item_text (LCString None) = ''(null)''"
| "item_text (LChar c) = [c]"
| "item_text (LBool v) = (if v then ''1'' else ''0'')"
| "item_text (LInt v) = dec_int v"
| "item_text (LPtr p) = ''0x'' @ convertHex p"

text \<open>Operands of machine width.\<close>

fun item_ok :: "log_item \<Rightarrow> bool" where
  "item_ok (LInt v) = (- (2 ^ 63) \<le> v \<and> v < 2 ^ 64)"
| "item_ok (LPtr p) = (p < 2 ^ 64)"
| "item_ok _ = True"

lemma item_ok_int: "item_ok (LInt v) \<Longrightarrow> length (dec_int v) < kMaxNumericSize"
proof -
  assume "item_ok (LInt v)"
  then have "\<bar>v\<bar> < 10 ^ Suc 19" by (simp add: abs_if)
  from length_dec_int[OF this] show ?thesis by (simp add: kMaxNumericSize_def)
qed

lemma item_ok_ptr: "item_ok (LPtr p) \<Longrightarrow> length (''0x'' @ convertHex p) < kMaxNumericSize"
  using length_convertHex_loop[of p 15] by (simp add: kMaxNumericSize_def convertHex_def)

lemma stream_item_cases:
  assumes "item_ok x"
  shows "fb_data (stream_item x b) = fb_data b \<or>
    fb_data (stream_item x b) = fb_data b @ item_text x \<and> length (item_text x) < avail b"
proof (cases x rule: item_text.cases)
  case (6 v)
  with assms item_ok_int[of v] show ?thesis by (simp add: formatInteger_def fb_write_add_def convert_dec_int)
next
  case (7 p)
  with assms item_ok_ptr[of p] show ?thesis by (simp add: formatPointer_def fb_write_add_def)
qed (simp_all add: fb_append_def)

lemma stream_item_size [simp]: "fb_SIZE (stream_item x b) = fb_SIZE b"
  by (cases x rule: item_text.cases)
    (simp_all add: fb_append_def formatInteger_def formatPointer_def fb_write_add_def)

lemma stream_item_fits:
  assumes "length (item_text x) < avail b" "kMaxNumericSize \<le> avail b"
  shows "fb_data (stream_item x b) = fb_data b @ item_text x"
  using assms by (cases x rule: item_text.cases)
    (simp_all add: fb_append_def formatInteger_def formatPointer_def fb_write_add_def convert_dec_int)

lemma stream_items_simps [simp]:
  "stream_items [] b = b" "stream_items (x # xs) b = stream_items xs (stream_item x b)"
  "stream_items (xs @ ys) b = stream_items ys (stream_items xs b)"
  by (simp_all add: stream_items_def)

lemma stream_items_fits:
  "fb_length b + length (concat (map item_text xs)) + kMaxNumericSize \<le> fb_SIZE b \<Longrightarrow>
    fb_data (stream_items xs b) = fb_data b @ concat (map item_text xs)"
proof (induction xs arbitrary: b)
  case (Cons x xs)
  have "fb_data (stream_item x b) = fb_data b @ item_text x"
    using Cons.prems by (intro stream_item_fits) (auto simp: avail_def kMaxNumericSize_def)
  with Cons show ?case by (simp add: fb_length_def)
qed simp

text \<open>
  A log line never overruns its buffer and is never garbled: for operands of machine width
  (the most negative integers included), every operand appears in full, in decimal or as \<^verbatim>\<open>0x\<close> and
  hexadecimal digits where it is a number, or not at all; the buffer always keeps room for one more
  byte; and as long as the line leaves \<^verbatim>\<open>kMaxNumericSize\<close> bytes free, it is exactly the concatenation
  of the operands.
\<close>

theorem log_stream_exact:
  assumes "list_all item_ok xs" "fb_length b < fb_SIZE b"
  shows "(\<exists>kept. length kept = length xs \<and>
            fb_data (stream_items xs b) =
              fb_data b @ concat (map2 (\<lambda>k x. if k then item_text x else []) kept xs)) \<and>
         fb_length (stream_items xs b) < fb_SIZE b \<and>
         (fb_length b + length (concat (map item_text xs)) + kMaxNumericSize \<le> fb_SIZE b \<longrightarrow>
            fb_data (stream_items xs b) = fb_data b @ concat (map item_text xs))"
  using assms
proof (induction xs arbitrary: b)
  case Nil
  then show ?case by (simp add: stream_items_def)
next
  case (Cons x xs)
  let ?b = "stream_item x b"
  have c: "fb_data ?b = fb_data b \<or> fb_data ?b = fb_data b @ item_text x \<and> length (item_text x) < avail b"
    using stream_item_cases[of x b] Cons.prems by simp
  then have len: "fb_length ?b < fb_SIZE ?b" using Cons.prems by (auto simp: fb_length_def avail_def)
  have run: "stream_items (x # xs) b = stream_items xs ?b" by simp
  from Cons.IH[of ?b] Cons.prems len obtain kept where kept: "length kept = length xs"
      "fb_data (stream_items xs ?b) = fb_data ?b @ concat (map2 (\<lambda>k x. if k then item_text x else []) kept xs)"
    by auto
  have 1: "\<exists>kept. length kept = length (x # xs) \<and> fb_data (stream_items (x # xs) b) =
      fb_data b @ concat (map2 (\<lambda>k x. if k then item_text x else []) kept (x # xs))"
    using c
  proof
    assume "fb_data ?b = fb_data b"
    with kept run show ?thesis by (intro exI[of _ "False # kept"]) simp
  next
    assume "fb_data ?b = fb_data b @ item_text x \<and> length (item_text x) < avail b"
    with kept run show ?thesis by (intro exI[of _ "True # kept"]) simp
  qed
  from 1 stream_items_fits[of b "x # xs"] Cons.IH[of ?b] Cons.prems len run show ?case by simp
qed

theorem log_stream_exact_witness:
  "fb_data (stream_items [LText ''code '', LInt (- 2147483648), LChar (CHR ''!'')] (FixedBuffer_ctor kSmallBuffer))
     = ''code -2147483648!''"
proof -
  let ?xs = "[LText ''code '', LInt (- 2147483648), LChar (CHR ''!'')]"
  have ok: "list_all item_ok ?xs" "fb_length (FixedBuffer_ctor kSmallBuffer) < fb_SIZE (FixedBuffer_ctor kSmallBuffer)"
    by (simp_all add: FixedBuffer_ctor_def fb_length_def kSmallBuffer_def)
  have d: "dec_int (- 2147483648) = ''-2147483648''"
    by (simp add: dec_int_def dec_nat.simps char_of_def bit_0)
  from log_stream_exact[OF ok] d show ?thesis
    by (simp add: FixedBuffer_ctor_def fb_length_def kSmallBuffer_def kMaxNumericSize_def)
qed

end
