(* ===== verification/Http_Server.thy ===== *)
theory Http_Server
  imports Http_Handler Log_Stream
begin

text \<open>
  \<^verbatim>\<open>http/HttpFilter.{h,cpp}\<close>, \<^verbatim>\<open>http/HttpServer.{h,cpp}\<close> and the callbacks of
  \<^verbatim>\<open>http/HttpProxyHandler.cpp\<close>. The server's state is the record \<open>http_server\<close>; the contexts attached
  to the connections are kept in a table by connection name, as is the proxy handler's table of
  clients. A callback returns what it asks of which connection. The parameters collected in
  \<open>http_env\<close> are the file system, the iteration order of the header map, the text of the current
  time and the user's \<^verbatim>\<open>HttpCallback\<close>.
\<close>

section \<open>Filters\<close>

datatype HttpFilterState = kFilterDone | kFilterError | kFilterAgain | kFilterDecline

datatype filter_kind = FHeaders | FWrite | FLogging

record http_env =
  env_fs :: filesystem
  env_iter :: iteration_order
  env_time :: string
  env_callback :: "HttpRequest \<Rightarrow> HttpResponse \<Rightarrow> HttpResponse"

record filter_state =
  flt_response :: HttpResponse
  flt_actions :: "conn_action list"
  flt_access :: "string list"
  flt_error :: "string list"

type_synonym filter_result = "(HttpFilterState \<times> filter_state) result"

definition keep_alive_timeout :: "ServerConfig \<Rightarrow> int" where
  "keep_alive_timeout config =
     (let t = keepAliveTimeout (serverMainConfig config) in if 10 < t then t - 5 else 5)"

definition wants_close :: "HttpRequest \<Rightarrow> bool" where
  "wants_close req \<longleftrightarrow>
     (let connection = getHeader ''Connection'' req
      in connection = ''close'' \<or> (req_version req = kHttp10 \<and> connection \<noteq> ''Keep-Alive''))"

definition filter_headers :: "ServerConfig \<Rightarrow> HttpRequest \<Rightarrow> HttpResponse \<Rightarrow> HttpResponse" where
  "filter_headers config req response =
     (let r1 = resp_addHeader ''Server'' ''Cuber'' response;
          close = wants_close req;
          r2 = resp_addHeader ''Connection'' (getHeader ''Connection'' req) (setCloseConnection close r1)
      in if close then r2
         else resp_addHeader ''Keep-Alive'' (''timeout='' @ dec_int (keep_alive_timeout config)) r2)"

definition HttpHeadersFilter_filter :: "ServerConfig \<Rightarrow> HttpRequest \<Rightarrow> (filter_state \<Rightarrow> filter_result)
    \<Rightarrow> filter_state \<Rightarrow> filter_result" where
  "HttpHeadersFilter_filter config req next f =
     next (f\<lparr>flt_response := filter_headers config req (flt_response f)\<rparr>)"

definition HttpWriteFilter_filter :: "iteration_order \<Rightarrow> (filter_state \<Rightarrow> filter_result) \<Rightarrow> filter_state
    \<Rightarrow> filter_result" where
  "HttpWriteFilter_filter iter next f =
     andThen (buffer_ctor kInitialSize) (\<lambda>buf.
     andThen (response_appendToBuffer iter (flt_response f) buf) (\<lambda>buf.
     let r = setResponseSize (int (readableBytes buf)) (flt_response f);
         sent = fst (send_buffer buf)
     in next (f\<lparr>flt_response := r,
                flt_actions := flt_actions f @ [sent] @ (if resp_closeConnection r then [Shutdown] else [])\<rparr>)))"

definition dash_if_empty :: "string \<Rightarrow> string" where
  "dash_if_empty s = (if s = [] then ''-'' else s)"

definition access_line :: "string \<Rightarrow> conn_info \<Rightarrow> HttpRequest \<Rightarrow> HttpResponse \<Rightarrow> log_item list" where
  "access_line now conn request response =
     [LText (toIp (ci_peer conn)), LCString (Some '' [''), LText now,
      LCString (Some (''] '' @ [CHR 0x22])), LText (reqLineToString request), LCString (Some ([CHR 0x22] @ '' '')),
      LInt (resp_statusCode response), LCString (Some '' ''), LInt (resp_responseSize response),
      LCString (Some ('' '' @ [CHR 0x22])), LText (getHeader ''User-Agent'' request),
      LCString (Some ([CHR 0x22, LF]))]"

definition error_line :: "string \<Rightarrow> string \<Rightarrow> HttpRequest \<Rightarrow> HttpResponse \<Rightarrow> log_item list" where
  "error_line now peer request response =
     [LCString (Some ''[''), LText now, LCString (Some ''] [error] ''),
      LInt (resp_statusCode response), LCString (Some '' ''), LText (resp_statusMessage response),
      LCString (Some '', ''), LCString (Some ''error msg: [''), LText (dash_if_empty (resp_errorMsg response)),
      LCString (Some ''], ''), LCString (Some ''client: ''), LText peer, LCString (Some '', ''),
      LCString (Some ''server: ''), LText (dash_if_empty (getHeader ''Host'' request)), LCString (Some '', ''),
      LCString (Some (''request: '' @ [CHR 0x22])), LText (reqLineToString request),
      LCString (Some [CHR 0x22, LF])]"

definition log_line :: "log_item list \<Rightarrow> string" where
  "log_line items = fb_data (stream_items items (FixedBuffer_ctor kSmallBuffer))"

definition HttpLoggingFilter_filter :: "string \<Rightarrow> ServerConfig \<Rightarrow> conn_info \<Rightarrow> HttpRequest
    \<Rightarrow> (filter_state \<Rightarrow> filter_result) \<Rightarrow> filter_state \<Rightarrow> filter_result" where
  "HttpLoggingFilter_filter now config conn request next f =
     (let response = flt_response f
      in if \<not> configuredLogger config then next f
         else
           andThen (if isError response \<and> existLogger ''error'' config
                    then andThen (toIpPort (ci_peer conn)) (\<lambda>peer.
                           Inr [log_line (error_line now peer request response)])
                    else Inr []) (\<lambda>errs.
           next (f\<lparr>flt_access := flt_access f @
                     (if existLogger ''access'' config then [log_line (access_line now conn request response)] else []),
                   flt_error := flt_error f @ errs\<rparr>)))"

definition run_filter :: "http_env \<Rightarrow> ServerConfig \<Rightarrow> conn_info \<Rightarrow> HttpRequest \<Rightarrow> filter_kind
    \<Rightarrow> (filter_state \<Rightarrow> filter_result) \<Rightarrow> filter_state \<Rightarrow> filter_result" where
  "run_filter env config conn req k next = (case k of
     FHeaders \<Rightarrow> HttpHeadersFilter_filter config req next
   | FWrite \<Rightarrow> HttpWriteFilter_filter (env_iter env) next
   | FLogging \<Rightarrow> HttpLoggingFilter_filter (env_time env) config conn req next)"

primrec doNextFilter :: "http_env \<Rightarrow> ServerConfig \<Rightarrow> conn_info \<Rightarrow> HttpRequest \<Rightarrow> filter_kind list
    \<Rightarrow> filter_state \<Rightarrow> filter_result" where
  "doNextFilter env config conn req [] = (\<lambda>f. Inr (kFilterDone, f))"
| "doNextFilter env config conn req (k # ks) = run_filter env config conn req k (doNextFilter env config conn req ks)"

definition appendFilter :: "filter_kind \<Rightarrow> filter_kind list \<Rightarrow> filter_kind list" where
  "appendFilter k chain = chain @ [k]"

section \<open>The server\<close>

record http_server =
  hsv_name :: string
  hsv_config :: ServerConfig
  hsv_kMaxConnections :: int
  hsv_numConnected :: int
  hsv_timer :: "string list option"
  hsv_filters :: "filter_kind list"
  hsv_contexts :: "(string \<times> HttpContext) list"
  hsv_clientConnMap :: "(string \<times> conn_info) list"
  hsv_proxies :: "HttpProxy list"
  hsv_access :: "string list"
  hsv_error :: "string list"

text \<open>The constructor, in the build without \<^verbatim>\<open>PRESSURE_TEST\<close>. The keep-alive timer's list of
  connections is empty at first.\<close>

definition HttpServer_ctor :: "string \<Rightarrow> ServerConfig \<Rightarrow> http_server" where
  "HttpServer_ctor name config =
     \<lparr>hsv_name = name, hsv_config = config,
      hsv_kMaxConnections = maxWorkerConnections (serverMainConfig config), hsv_numConnected = 0,
      hsv_timer = (if 0 < keepAliveTimeout (serverMainConfig config) then Some [] else None),
      hsv_filters = (if configuredLogger config then appendFilter FLogging [FHeaders, FWrite] else [FHeaders, FWrite]),
      hsv_contexts = [], hsv_clientConnMap = [], hsv_proxies = [], hsv_access = [], hsv_error = []\<rparr>"

type_synonym actions = "(string \<times> conn_action) list"

text \<open>\<^verbatim>\<open>onConnection\<close>: \<open>connected\<close> and \<open>disconnected\<close> are what the connection answers.\<close>

definition onConnection :: "conn_info \<Rightarrow> bool \<Rightarrow> bool \<Rightarrow> http_server \<Rightarrow> actions \<times> http_server" where
  "onConnection conn connected disconnected srv =
     (let name = ci_name conn
      in if connected then
           (let n = hsv_numConnected srv + 1;
                acts = (if hsv_kMaxConnections srv < n
                        then [(name, Shutdown), (name, ForceCloseWithDelay 3000000)] else []);
                srv1 = srv\<lparr>hsv_numConnected := n\<rparr>
            in case hsv_timer srv1 of
                 Some tracked \<Rightarrow>
                   (acts, srv1\<lparr>hsv_timer := Some (tracked @ [name]),
                      hsv_contexts := umap_put name (setTimerPos (Some (length tracked)) HttpContext_ctor) (hsv_contexts srv1)\<rparr>)
               | None \<Rightarrow> (acts, srv1\<lparr>hsv_contexts := umap_put name HttpContext_ctor (hsv_contexts srv1)\<rparr>))
         else if disconnected then ([(name, ForceClose)], srv\<lparr>hsv_numConnected := hsv_numConnected srv - 1\<rparr>)
         else ([], srv))"

definition run_filters :: "http_env \<Rightarrow> conn_info \<Rightarrow> HttpRequest \<Rightarrow> HttpResponse \<Rightarrow> http_server
    \<Rightarrow> (actions \<times> http_server) result" where
  "run_filters env conn req response srv =
     andThen (doNextFilter env (hsv_config srv) conn req (hsv_filters srv)
        \<lparr>flt_response = response, flt_actions = [], flt_access = [], flt_error = []\<rparr>) (\<lambda>(_, f).
     Inr (map (Pair (ci_name conn)) (flt_actions f),
          srv\<lparr>hsv_access := hsv_access srv @ flt_access f, hsv_error := hsv_error srv @ flt_error f\<rparr>))"

text \<open>\<^verbatim>\<open>onRequest\<close>: the handler loop, then, unless the request was forwarded, the user callback and
  the filters. It returns whether the request is finished, the request as the handlers left it
  and the input buffer.\<close>

definition onRequest :: "http_env \<Rightarrow> conn_info \<Rightarrow> HttpRequest \<Rightarrow> buffer \<Rightarrow> http_server
    \<Rightarrow> (bool \<times> HttpRequest \<times> buffer \<times> actions \<times> http_server) result option" where
  "onRequest env conn req buf srv =
     (case handle_loop (env_fs env) conn server_chain
        \<lparr>hs_config = hsv_config srv, hs_input = buf, hs_request = req, hs_response = HttpResponse_ctor False,
         hs_clientConnMap = hsv_clientConnMap srv, hs_proxies = hsv_proxies srv\<rparr> of
        None \<Rightarrow> None
      | Some (Inl e) \<Rightarrow> Some (Inl e)
      | Some (Inr (r, s)) \<Rightarrow>
          (let srv1 = srv\<lparr>hsv_config := hs_config s, hsv_clientConnMap := hs_clientConnMap s,
                          hsv_proxies := hs_proxies s\<rparr>
           in if r = kForwarded then Some (Inr (False, hs_request s, hs_input s, [], srv1))
              else Some (andThen (run_filters env conn (hs_request s)
                       (env_callback env (hs_request s) (hs_response s)) srv1) (\<lambda>(acts, srv2).
                     Inr (True, hs_request s, hs_input s, acts, srv2)))))"

definition bad_request_response :: "string \<Rightarrow> HttpResponse" where
  "bad_request_response name = resp_addHeader ''Server'' name (setStatusCode k400BadRequest (HttpResponse_ctor True))"

definition onBadMessage :: "http_env \<Rightarrow> conn_info \<Rightarrow> http_server \<Rightarrow> actions result" where
  "onBadMessage env conn srv =
     andThen (buffer_ctor kInitialSize) (\<lambda>buf.
     andThen (response_appendToBuffer (env_iter env) (bad_request_response (hsv_name srv)) buf) (\<lambda>buf.
     Inr [(ci_name conn, fst (send_buffer buf)), (ci_name conn, Shutdown)]))"

text \<open>\<^verbatim>\<open>any_cast\<close> of a context that was never set fails its assert.\<close>

definition context_of :: "string \<Rightarrow> http_server \<Rightarrow> HttpContext result" where
  "context_of name srv = (case map_of (hsv_contexts srv) name of Some c \<Rightarrow> Inr c | None \<Rightarrow> Inl AssertFailed)"

definition set_context :: "string \<Rightarrow> HttpContext \<Rightarrow> http_server \<Rightarrow> http_server" where
  "set_context name c srv = srv\<lparr>hsv_contexts := umap_put name c (hsv_contexts srv)\<rparr>"

definition onMessage :: "http_env \<Rightarrow> conn_info \<Rightarrow> buffer \<Rightarrow> timestamp \<Rightarrow> http_server
    \<Rightarrow> (actions \<times> buffer \<times> http_server) result option" where
  "onMessage env conn buf receiveTime srv =
     (case andThen (context_of (ci_name conn) srv) (\<lambda>c. parseRequest receiveTime c buf) of
        Inl e \<Rightarrow> Some (Inl e)
      | Inr (verdict, c, buf1) \<Rightarrow>
          (let srv1 = set_context (ci_name conn) c srv
           in if verdict = kBadMessage then
                Some (andThen (onBadMessage env conn srv1) (\<lambda>acts. Inr (acts, buf1, srv1)))
              else if verdict = kParseOK then
                (case onRequest env conn (ctx_request c) buf1 srv1 of
                   None \<Rightarrow> None
                 | Some (Inl e) \<Rightarrow> Some (Inl e)
                 | Some (Inr (finished, req, buf2, acts, srv2)) \<Rightarrow>
                     (let c2 = c\<lparr>ctx_request := req\<rparr>
                      in Some (Inr (acts, buf2,
                           set_context (ci_name conn) (if finished then context_reset c2 else c2) srv2))))
              else Some (Inr ([], buf1, srv1))))"

section \<open>Responses from upstreams\<close>

definition proxyResponseCallback :: "http_env \<Rightarrow> conn_info \<Rightarrow> HttpResponse \<Rightarrow> http_server \<Rightarrow> (actions \<times> http_server) result" where
  "proxyResponseCallback env requestConn resp srv =
     andThen (context_of (ci_name requestConn) srv) (\<lambda>c.
     andThen (run_filters env requestConn (ctx_request c) resp srv) (\<lambda>(acts, srv1).
     Inr (acts, set_context (ci_name requestConn) (context_reset c) srv1)))"

text \<open>The client connection of an upstream connection: its name up to the first percent
  sign.\<close>

definition client_of :: "string \<Rightarrow> http_server \<Rightarrow> (string \<times> conn_info) result" where
  "client_of connName srv = (case str_find (CHR ''%'') connName of
     None \<Rightarrow> Inl AssertFailed
   | Some split_pos \<Rightarrow>
       (case map_of (hsv_clientConnMap srv) (take split_pos connName) of
          None \<Rightarrow> Inl AssertFailed
        | Some conn \<Rightarrow> Inr (take split_pos connName, conn)))"

definition erase_client :: "string \<Rightarrow> http_server \<Rightarrow> http_server" where
  "erase_client name srv = srv\<lparr>hsv_clientConnMap := omap_erase name (hsv_clientConnMap srv)\<rparr>"

definition answer_client :: "http_env \<Rightarrow> string \<Rightarrow> HttpResponse \<Rightarrow> http_server \<Rightarrow> (actions \<times> http_server) result" where
  "answer_client env connName resp srv =
     andThen (client_of connName srv) (\<lambda>(requestConnName, req_conn).
     andThen (proxyResponseCallback env req_conn resp srv) (\<lambda>(acts, srv1).
     Inr (acts, erase_client requestConnName srv1)))"

definition doProxyResponse :: "http_env \<Rightarrow> HttpResponseContext \<Rightarrow> string \<Rightarrow> http_server \<Rightarrow> (actions \<times> http_server) result" where
  "doProxyResponse env context responseConn srv =
     andThen (answer_client env responseConn (rctx_response context) srv) (\<lambda>(acts, srv1).
     Inr (acts @ [(responseConn, Shutdown)], srv1))"

definition onBadUpstreamResponse :: "http_env \<Rightarrow> string \<Rightarrow> InetAddress \<Rightarrow> http_server \<Rightarrow> (actions \<times> http_server) result" where
  "onBadUpstreamResponse env responseConn peer srv =
     andThen (toIpPort peer) (\<lambda>addr.
     andThen (answer_client env responseConn
       (setErrorMsg (''Upstream '' @ addr @ '' response Bad Message.'')
         (setStatusCode k500InternalServerError (HttpResponse_ctor False))) srv) (\<lambda>(acts, srv1).
     Inr (acts @ [(responseConn, Shutdown)], srv1)))"

definition onForwardFailed :: "http_env \<Rightarrow> string \<Rightarrow> InetAddress \<Rightarrow> http_server \<Rightarrow> (actions \<times> http_server) result" where
  "onForwardFailed env clientName peer srv =
     andThen (toIpPort peer) (\<lambda>addr.
     answer_client env clientName
       (setErrorMsg (''Upstream '' @ addr @ '' is unreachable'')
         (setStatusCode 503 (HttpResponse_ctor False))) srv)"

definition onResponseMessage :: "http_env \<Rightarrow> string \<Rightarrow> InetAddress \<Rightarrow> HttpResponseContext \<Rightarrow> buffer \<Rightarrow> http_server
    \<Rightarrow> (HttpResponseContext \<times> buffer \<times> actions \<times> http_server) result option" where
  "onResponseMessage env responseConn peer context buff srv =
     (case parseResponse context buff of
        None \<Rightarrow> None
      | Some (Inl e) \<Rightarrow> Some (Inl e)
      | Some (Inr (verdict, c, buff1)) \<Rightarrow>
          if verdict = kBadMessage then
            Some (andThen (onBadUpstreamResponse env responseConn peer srv) (\<lambda>(acts, srv1). Inr (c, buff1, acts, srv1)))
          else if verdict = kParseOK then
            Some (andThen (doProxyResponse env c responseConn srv) (\<lambda>(acts, srv1). Inr (c, buff1, acts, srv1)))
          else Some (Inr (c, buff1, [], srv)))"

section \<open>Lemmas\<close>

text \<open>The two filter chains the constructor builds.\<close>

definition filters_ok :: "filter_kind list \<Rightarrow> bool" where
  "filters_ok ks \<longleftrightarrow> ks = [FHeaders, FWrite] \<or> ks = [FHeaders, FWrite, FLogging]"

lemma HttpServer_ctor_filters: "filters_ok (hsv_filters (HttpServer_ctor name config))"
  by (simp add: HttpServer_ctor_def filters_ok_def appendFilter_def)

text \<open>What the filters make of a response: the bytes on the wire and the closing of the
  connection.\<close>

definition wire_response :: "http_env \<Rightarrow> ServerConfig \<Rightarrow> HttpRequest \<Rightarrow> HttpResponse \<Rightarrow> string" where
  "wire_response env config req response =
     concat (response_pieces (env_iter env) (filter_headers config req response))"

definition answer_actions :: "http_env \<Rightarrow> conn_info \<Rightarrow> ServerConfig \<Rightarrow> HttpRequest \<Rightarrow> HttpResponse \<Rightarrow> actions" where
  "answer_actions env conn config req response =
     (ci_name conn, Send (wire_response env config req response)) #
     (if wants_close req then [(ci_name conn, Shutdown)] else [])"

lemma filter_headers_close: "resp_closeConnection (filter_headers config req r) = wants_close req"
  by (simp add: filter_headers_def Let_def resp_addHeader_def setCloseConnection_def)

lemma toIpPort_ok: "\<exists>t. toIpPort a = Inr t"
  using inet_ntop_length[of "sin_addr a"] by (simp add: toIpPort_def toIp_def Let_def)

lemma logging_filter_ok:
  "\<exists>f'. HttpLoggingFilter_filter now config conn req (\<lambda>f. Inr (kFilterDone, f)) f = Inr (kFilterDone, f') \<and>
     flt_actions f' = flt_actions f"
proof -
  obtain t where "toIpPort (ci_peer conn) = Inr t" using toIpPort_ok by blast
  then show ?thesis by (auto simp: HttpLoggingFilter_filter_def Let_def)
qed

lemma write_filter_ok:
  "\<exists>f'. (\<forall>next. HttpWriteFilter_filter iter next f = next f') \<and>
     flt_actions f' = flt_actions f @ Send (concat (response_pieces iter (flt_response f))) #
       (if resp_closeConnection (flt_response f) then [Shutdown] else [])"
proof -
  obtain b where b: "response_appendToBuffer iter (flt_response f) (fresh_buffer kInitialSize) = Inr b" "buffer_wf b"
      "content b = concat (response_pieces iter (flt_response f))"
    using response_appendToBuffer_ok[OF fresh_buffer_wf(1)[of kInitialSize], of iter "flt_response f"] by auto
  let ?f = "f\<lparr>flt_response := setResponseSize (int (readableBytes b)) (flt_response f),
      flt_actions := flt_actions f @ [fst (send_buffer b)] @
        (if resp_closeConnection (flt_response f) then [Shutdown] else [])\<rparr>"
  have "HttpWriteFilter_filter iter next f = next ?f" for "next"
    using b by (simp add: HttpWriteFilter_filter_def Let_def setResponseSize_def)
  moreover have "flt_actions ?f = flt_actions f @ Send (concat (response_pieces iter (flt_response f))) #
       (if resp_closeConnection (flt_response f) then [Shutdown] else [])"
    using b by (simp add: send_buffer_content)
  ultimately show ?thesis by blast
qed

lemma run_filters_ok:
  assumes "filters_ok (hsv_filters srv)"
  shows "\<exists>srv'. run_filters env conn req response srv =
      Inr (answer_actions env conn (hsv_config srv) req response, srv') \<and>
    (\<exists>acc err. srv' = srv\<lparr>hsv_access := acc, hsv_error := err\<rparr>)"
proof -
  let ?f = "\<lparr>flt_response = filter_headers (hsv_config srv) req response, flt_actions = [], flt_access = [],
     flt_error = []\<rparr>"
  obtain f where f: "\<And>next. HttpWriteFilter_filter (env_iter env) next ?f = next f"
      "flt_actions f = Send (concat (response_pieces (env_iter env) (flt_response ?f))) #
       (if wants_close req then [Shutdown] else [])"
    using write_filter_ok[of "env_iter env" ?f] by (auto simp: filter_headers_close)
  obtain f' where f': "HttpLoggingFilter_filter (env_time env) (hsv_config srv) conn req (\<lambda>f. Inr (kFilterDone, f)) f =
      Inr (kFilterDone, f')" "flt_actions f' = flt_actions f"
    using logging_filter_ok by blast
  have "\<exists>f''. doNextFilter env (hsv_config srv) conn req (hsv_filters srv)
      \<lparr>flt_response = response, flt_actions = [], flt_access = [], flt_error = []\<rparr> = Inr (kFilterDone, f'') \<and>
      flt_actions f'' = flt_actions f"
    using assms f(1) f' by (auto simp: filters_ok_def run_filter_def HttpHeadersFilter_filter_def)
  with f(2) show ?thesis
    by (fastforce simp: run_filters_def answer_actions_def wire_response_def)
qed

lemma parseRequest_verdict: "parseRequest t c b = Inr (kParseOK, c', b') \<Longrightarrow> ctx_state c' = kGotAll"
  by (induction t c b rule: parseRequest.induct, subst (asm) parseRequest.simps)
    (auto simp: result_simps split: HttpRequestParseState.splits option.splits prod.splits if_splits)

lemma context_reset_fresh:
  "ctx_state (context_reset c) = kExpectRequestLine" "req_method (ctx_request (context_reset c)) = kInvalid"
  "req_headers (ctx_request (context_reset c)) = []" "context_wf (context_reset c)"
  by (simp_all add: context_reset_def request_swap_def HttpRequest_ctor_def context_wf_def)

section \<open>Properties\<close>

definition request_state :: "HttpRequest \<Rightarrow> buffer \<Rightarrow> http_server \<Rightarrow> handle_state" where
  "request_state req buf srv =
     \<lparr>hs_config = hsv_config srv, hs_input = buf, hs_request = req, hs_response = HttpResponse_ctor False,
      hs_clientConnMap = hsv_clientConnMap srv, hs_proxies = hsv_proxies srv\<rparr>"

lemma request_state_context [simp]: "request_state q buf (set_context name c srv) = request_state q buf srv"
  by (simp add: request_state_def set_context_def)

text \<open>What \<^verbatim>\<open>onRequest\<close> does with the result of the handler loop.\<close>

lemma onRequest_answers:
  assumes "handle_loop (env_fs env) conn server_chain (request_state req buf srv) = Some (Inr (r, s))"
    "filters_ok (hsv_filters srv)" "r \<noteq> kForwarded"
  shows "\<exists>srv'. onRequest env conn req buf srv = Some (Inr (True, hs_request s, hs_input s,
      answer_actions env conn (hs_config s) (hs_request s) (env_callback env (hs_request s) (hs_response s)), srv'))"
proof -
  let ?srv = "srv\<lparr>hsv_config := hs_config s, hsv_clientConnMap := hs_clientConnMap s, hsv_proxies := hs_proxies s\<rparr>"
  have "filters_ok (hsv_filters ?srv)" using assms(2) by simp
  from run_filters_ok[OF this, of env conn "hs_request s" "env_callback env (hs_request s) (hs_response s)"]
  obtain srv' where "run_filters env conn (hs_request s) (env_callback env (hs_request s) (hs_response s)) ?srv =
      Inr (answer_actions env conn (hs_config s) (hs_request s) (env_callback env (hs_request s) (hs_response s)), srv')"
    by auto
  with assms(1,3) show ?thesis by (auto simp: onRequest_def request_state_def Let_def)
qed

lemma same_head_close: "same_head q q' \<Longrightarrow> wants_close q' = wants_close q"
  by (simp add: same_head_def wants_close_def getHeader_def)

text \<open>The outcomes of a complete request, told from the result of the handler loop on the parsed request.\<close>

definition request_outcome :: "http_env \<Rightarrow> conn_info \<Rightarrow> HttpRequest \<Rightarrow> handle_result
    \<Rightarrow> (actions \<times> buffer \<times> http_server) result \<Rightarrow> bool" where
  "request_outcome env conn q res out = (case (res, out) of
     (Inl e, Inl e') \<Rightarrow> e' = e \<and> (\<exists>p n. fs_mmap (env_fs env) p n = Some (Inl e))
   | (Inr (r, s), Inr (acts, buf2, srv2)) \<Rightarrow> buf2 = hs_input s \<and>
       (\<exists>c2. map_of (hsv_contexts srv2) (ci_name conn) = Some c2 \<and>
        (if r = kForwarded then acts = [] \<and> ctx_state c2 = kGotAll \<and> ctx_request c2 = hs_request s \<and>
           hsv_proxies srv2 = hs_proxies s \<and> hsv_clientConnMap srv2 = hs_clientConnMap s
         else same_head q (hs_request s) \<and>
           acts = (ci_name conn, Send (wire_response env (hs_config s) (hs_request s)
                     (env_callback env (hs_request s) (hs_response s)))) #
             (if getHeader ''Connection'' q = ''close'' \<or>
                 req_version q = kHttp10 \<and> getHeader ''Connection'' q \<noteq> ''Keep-Alive''
              then [(ci_name conn, Shutdown)] else []) \<and>
           ctx_state c2 = kExpectRequestLine \<and> context_wf c2))
   | _ \<Rightarrow> False)"


definition example_env :: http_env where
  "example_env = \<lparr>env_fs = example_fs, env_iter = rev, env_time = ''20200101 00:00:00.000000Z '', env_callback = (\<lambda>_ r. r)\<rparr>"

definition example_server_state :: http_server where
  "example_server_state = (snd (onConnection example_conn True False (HttpServer_ctor ''CuBer'' example_config)))"

definition get_buffer :: buffer where
  "get_buffer = \<lparr>buf_data = ''--------GET /a.txt HTTP/1.1'' @ CRLF @ CRLF, readerIndex = 8, writerIndex = 31\<rparr>"

definition parsed_get :: HttpContext where
  "parsed_get = \<lparr>ctx_state = kGotAll, ctx_request = setPath ''/a.txt'' (HttpRequest_ctor\<lparr>req_method := kGet,
     req_version := kHttp11, req_receiveTime := 7\<rparr>), ctx_timerPos = Some 0\<rparr>"

definition example_context :: HttpContext where
  "example_context = setTimerPos (Some 0) HttpContext_ctor"

lemma example_server_simps:
  "hsv_contexts example_server_state = [(''web#1'', example_context)]"
  "hsv_config example_server_state = example_config" "filters_ok (hsv_filters example_server_state)"
  "hsv_clientConnMap example_server_state = []" "ci_name example_conn = ''web#1''"
  by (simp_all add: example_server_state_def onConnection_def HttpServer_ctor_def example_conn_def filters_ok_def
      example_config_def umap_put_def appendFilter_def example_context_def Let_def)

lemma serving_example: "buffer_wf buf \<Longrightarrow> hsv_config srv = example_config \<Longrightarrow> serving (request_state req buf srv)"
  using example_serving by (simp add: serving_def request_state_def example_state_def)

lemma parsed_get_parse:
  "parseRequest 7 example_context get_buffer = Inr (kParseOK, parsed_get, get_buffer\<lparr>readerIndex := 8, writerIndex := 8\<rparr>)"
  by code_simp

lemma parsed_get_served:
  "\<exists>s. handle_loop file_fs example_conn server_chain (request_state (ctx_request parsed_get) buf example_server_state) =
     Some (Inr (kHandleDone, s))"
proof -
  let ?s = "request_state (ctx_request parsed_get) buf example_server_state"
  have l: "longest_location (listenedLocations (hs_config ?s)) (target ?s) ''/''"
    by (auto simp: longest_location_def location_candidate_def target_def request_state_def parsed_get_def setPath_def
        example_server_simps example_config_def listenedLocations_def Cons_eq_append_conv)
  have m: "req_method (hs_request ?s) = kGet"
    by (simp add: request_state_def parsed_get_def setPath_def)
  have a: "map_of (statics (hs_config ?s)) ''/'' = Some \<lparr>st_location = ''/'', st_alias = ''/srv/www/''\<rparr>"
    by (simp add: request_state_def example_server_simps example_config_def)
  have d: "drop (length ''/'') (req_path (hs_request ?s)) = ''a.txt''"
    by (simp add: request_state_def parsed_get_def setPath_def)
  have f: "FileStat_ctor file_fs ''/srv/www/a.txt'' = \<lparr>fstat_exists = True, fstat_kind = Regular, fstat_size = 5\<rparr>"
    by (simp add: FileStat_ctor_def file_fs_def c_str_def)
  have "doHandleNext file_fs example_conn server_chain ?s =
      serve_file file_fs \<lparr>fstat_exists = True, fstat_kind = Regular, fstat_size = 5\<rparr> ''/srv/www/a.txt'' (at_location ''/'' ?s)"
    unfolding static_chain_at[OF l disjI1[OF m] a] d Let_def by (simp add: f isfile_def)
  moreover have "\<exists>s. serve_file file_fs \<lparr>fstat_exists = True, fstat_kind = Regular, fstat_size = 5\<rparr> ''/srv/www/a.txt''
      (at_location ''/'' ?s) = Inr (kHandleDone, s)"
    using m by (simp add: serve_file_def mime_of_path_suffix file_fs_def c_str_def Let_def)
  ultimately show ?thesis by (auto simp: handle_loop.simps[of _ _ _ ?s])
qed


text \<open>
  (C15) A malformed request is answered with exactly \<^verbatim>\<open>400 Bad Request\<close> and the server's name, and
  the connection is shut down.
\<close>

theorem bad_request_answered_400:
  assumes "map_of (hsv_contexts srv) (ci_name conn) = Some c"
    "parseRequest t c buf = Inr (kBadMessage, c1, buf1)" "\<forall>h. mset (env_iter env h) = mset h"
  shows "onMessage env conn buf t srv =
    Some (Inr ([(ci_name conn, Send (''HTTP/1.1 400 Bad Request'' @ CRLF @ ''Server: '' @ hsv_name srv @ CRLF @ CRLF)),
                (ci_name conn, Shutdown)], buf1, set_context (ci_name conn) c1 srv))"
proof -
  let ?r = "bad_request_response (hsv_name srv)"
  obtain b where b: "response_appendToBuffer (env_iter env) ?r (fresh_buffer kInitialSize) = Inr b" "buffer_wf b"
      "content b = concat (response_pieces (env_iter env) ?r)"
    using response_appendToBuffer_ok[OF fresh_buffer_wf(1)[of kInitialSize], of "env_iter env" ?r] by auto
  have "mset (env_iter env [(''Server'', hsv_name srv)]) = {#(''Server'', hsv_name srv)#}" using assms(3) by simp
  then have it: "env_iter env [(''Server'', hsv_name srv)] = [(''Server'', hsv_name srv)]" by simp
  have r: "resp_headers ?r = [(''Server'', hsv_name srv)]" "resp_statusCode ?r = 400" "resp_body ?r = []"
      "resp_version ?r = ''HTTP/1.1''" "resp_statusMessage ?r = ''Bad Request''"
    by (simp_all add: bad_request_response_def resp_addHeader_def HttpResponse_ctor_def setStatusCode_def Let_def
        statusMessageMap_def bodyMessageMap_def response_defs umap_put_def)
  have d: "dec_int 400 = ''400''" by (simp add: dec_int_def dec_nat.simps char_of_def bit_0)
  have "concat (response_pieces (env_iter env) ?r) =
      ''HTTP/1.1 400 Bad Request'' @ CRLF @ ''Server: '' @ hsv_name srv @ CRLF @ CRLF"
    by (simp add: response_pieces_def status_pieces_def length_pieces_def r d it header_pieces_def c_str_def snprintf_def)
  with b assms(1,2) show ?thesis
    by (simp add: onMessage_def context_of_def onBadMessage_def send_buffer_content set_context_def Let_def)
qed

theorem bad_request_answered_400_witness:
  "\<exists>b1 srv. onMessage example_env example_conn bad_line_buffer 7 example_server_state =
     Some (Inr ([(''web#1'', Send (''HTTP/1.1 400 Bad Request'' @ CRLF @ ''Server: CuBer'' @ CRLF @ CRLF)),
                 (''web#1'', Shutdown)], b1, srv))"
proof -
  let ?c1 = "example_context\<lparr>ctx_request := setPath ''/'' (HttpRequest_ctor\<lparr>req_method := kGet\<rparr>)\<rparr>"
  have c: "map_of (hsv_contexts example_server_state) (ci_name example_conn) = Some example_context"
    by (simp add: example_server_simps)
  have p: "parseRequest 7 example_context bad_line_buffer = Inr (kBadMessage, ?c1, bad_line_buffer)" by code_simp
  have i: "\<forall>h. mset (env_iter example_env h) = mset h" by (simp add: example_env_def)
  have n: "hsv_name example_server_state = ''CuBer''"
    by (simp add: example_server_state_def onConnection_def HttpServer_ctor_def Let_def split: option.splits)
  from bad_request_answered_400[OF c p i] n show ?thesis by (simp add: example_server_simps)
qed

section \<open>Proxying\<close>

lemma client_of_name:
  assumes "CHR ''%'' \<notin> set name"
  shows "client_of (name @ ''%'' @ suffix) srv = (case map_of (hsv_clientConnMap srv) name of
     None \<Rightarrow> Inl AssertFailed | Some conn \<Rightarrow> Inr (name, conn))"
proof -
  have "str_find (CHR ''%'') (name @ ''%'' @ suffix) = Some (length name)"
    using find_char_append[OF assms, of suffix] by (simp add: str_find_def)
  then show ?thesis by (simp add: client_of_def split: option.splits)
qed

lemma answer_client_ok:
  assumes "CHR ''%'' \<notin> set (ci_name client)" "map_of (hsv_clientConnMap srv) (ci_name client) = Some client"
    "map_of (hsv_contexts srv) (ci_name client) = Some c" "filters_ok (hsv_filters srv)"
  shows "\<exists>srv'. answer_client env (ci_name client @ ''%'' @ suffix) resp srv =
      Inr (answer_actions env client (hsv_config srv) (ctx_request c) resp, srv') \<and>
    hsv_clientConnMap srv' = omap_erase (ci_name client) (hsv_clientConnMap srv) \<and>
    map_of (hsv_contexts srv') (ci_name client) = Some (context_reset c)"
proof -
  obtain srv1 acc err where f: "run_filters env client (ctx_request c) resp srv =
      Inr (answer_actions env client (hsv_config srv) (ctx_request c) resp, srv1)"
      "srv1 = srv\<lparr>hsv_access := acc, hsv_error := err\<rparr>"
    using run_filters_ok[OF assms(4), of env client "ctx_request c" resp] by blast
  show ?thesis
    unfolding answer_client_def client_of_name[OF assms(1)]
    using assms(2,3) f by (simp add: proxyResponseCallback_def context_of_def set_context_def erase_client_def)
qed

lemma onResponseMessage_done:
  assumes "CHR ''%'' \<notin> set (ci_name client)" "map_of (hsv_clientConnMap srv) (ci_name client) = Some client"
    "map_of (hsv_contexts srv) (ci_name client) = Some c" "filters_ok (hsv_filters srv)"
    "parseResponse rc buf = Some (Inr (kParseOK, rc1, buf1))"
  shows "\<exists>srv'. onResponseMessage env (ci_name client @ ''%'' @ suffix) peer rc buf srv =
      Some (Inr (rc1, buf1, answer_actions env client (hsv_config srv) (ctx_request c) (rctx_response rc1) @
        [(ci_name client @ ''%'' @ suffix, Shutdown)], srv')) \<and>
    map_of (hsv_clientConnMap srv') (ci_name client) = None \<and>
    map_of (hsv_contexts srv') (ci_name client) = Some (context_reset c)"
proof -
  obtain srv' where a: "answer_client env (ci_name client @ ''%'' @ suffix) (rctx_response rc1) srv =
      Inr (answer_actions env client (hsv_config srv) (ctx_request c) (rctx_response rc1), srv')"
    "hsv_clientConnMap srv' = omap_erase (ci_name client) (hsv_clientConnMap srv)"
    "map_of (hsv_contexts srv') (ci_name client) = Some (context_reset c)"
    using answer_client_ok[OF assms(1-4), of env suffix "rctx_response rc1"] by blast
  with assms(5) show ?thesis by (simp add: onResponseMessage_def doProxyResponse_def)
qed

text \<open>
  (C16) An upstream's response goes to the client that asked: when the upstream connection opened for
  a client completes a response, the client is sent that response (with the server's headers),
  its context is reset for the next request, the upstream connection is shut down and the client's
  entry is removed.
\<close>

theorem upstream_response_reaches_client:
  assumes "CHR ''%'' \<notin> set (ci_name client)" "map_of (hsv_clientConnMap srv) (ci_name client) = Some client"
    "map_of (hsv_contexts srv) (ci_name client) = Some c" "filters_ok (hsv_filters srv)"
    "parseResponse rc buf = Some (Inr (kParseOK, rc1, buf1))"
  shows "\<exists>srv'. onResponseMessage env (ci_name client @ ''%'' @ suffix) peer rc buf srv =
      Some (Inr (rc1, buf1, answer_actions env client (hsv_config srv) (ctx_request c) (rctx_response rc1) @
        [(ci_name client @ ''%'' @ suffix, Shutdown)], srv')) \<and>
    map_of (hsv_clientConnMap srv') (ci_name client) = None \<and>
    map_of (hsv_contexts srv') (ci_name client) = Some (context_reset c)"
  by (rule onResponseMessage_done[OF assms])

definition waiting_server :: http_server where
  "waiting_server = example_server_state\<lparr>hsv_clientConnMap := [(''web#1'', example_conn)],
     hsv_contexts := [(''web#1'', parsed_get)]\<rparr>"

lemma waiting_server_simps:
  "map_of (hsv_clientConnMap waiting_server) (ci_name example_conn) = Some example_conn"
  "map_of (hsv_contexts waiting_server) (ci_name example_conn) = Some parsed_get"
  "filters_ok (hsv_filters waiting_server)" "CHR ''%'' \<notin> set (ci_name example_conn)"
  using example_server_simps(3) by (simp_all add: waiting_server_def example_server_simps)

definition done_context :: HttpResponseContext where
  "done_context = \<lparr>rctx_state = kGotAll_resp, rctx_response = example_response\<rparr>"

lemma done_context_parse: "parseResponse done_context b = Some (Inr (kParseOK, done_context, b))"
  by (simp add: parseResponse.simps done_context_def)

theorem upstream_response_reaches_client_witness:
  "\<exists>srv' acts. onResponseMessage example_env (''web#1'' @ ''%'' @ '':10.0.0.9:80#1'') (InetAddress_port 80 True)
      done_context (fresh_buffer 8) waiting_server = Some (Inr (done_context, fresh_buffer 8, acts, srv')) \<and>
    map_of (hsv_clientConnMap srv') ''web#1'' = None"
  using upstream_response_reaches_client[OF waiting_server_simps(4,1,2,3) done_context_parse,
      of example_env "'':10.0.0.9:80#1''" "InetAddress_port 80 True" "fresh_buffer 8"]
  by (auto simp: example_server_simps)

text \<open>
  Bytes that an upstream sends after its response abort the server: the response context
  stays complete, so the next read of that upstream connection is taken for another complete
  response, whose client is no longer in the table, and an assert fails. A response without
  \<^verbatim>\<open>Content-Length\<close> is complete after its head, so its own body is enough.
\<close>

theorem bytes_after_response_abort:
  assumes "CHR ''%'' \<notin> set (ci_name client)" "map_of (hsv_clientConnMap srv) (ci_name client) = Some client"
    "map_of (hsv_contexts srv) (ci_name client) = Some c" "filters_ok (hsv_filters srv)" "buffer_wf buf"
    "onResponseMessage env (ci_name client @ ''%'' @ suffix) peer rc buf srv = Some (Inr (rc1, buf1, acts, srv1))"
    "rctx_gotAll rc1"
  shows "onResponseMessage env (ci_name client @ ''%'' @ suffix) peer rc1 buf2 srv1 = Some (Inl AssertFailed)"
proof -
  have "map_of (hsv_clientConnMap srv1) (ci_name client) = None"
  proof -
    obtain v where v: "parseResponse rc buf = Some (Inr (v, rc1, buf1))"
      using assms(6) by (auto simp: onResponseMessage_def result_simps split: option.splits sum.splits if_splits)
    have "v = kParseOK"
      using parseResponse_refines[OF assms(5), of rc] v assms(7) response_stream_gotAll[of rc "content buf" v rc1]
      by (auto simp: agrees_def rctx_gotAll_def split: response_outcome.splits)
    with onResponseMessage_done[OF assms(1-4), of rc buf rc1 buf1 env suffix peer] v assms(6)
    show ?thesis by auto
  qed
  then have "answer_client env (ci_name client @ ''%'' @ suffix) r srv1 = Inl AssertFailed" for r
    unfolding answer_client_def client_of_name[OF assms(1)] by simp
  with assms(7) show ?thesis
    by (simp add: onResponseMessage_def parseResponse.simps rctx_gotAll_def doProxyResponse_def)
qed

theorem bytes_after_response_abort_witness:
  "\<exists>rc1 buf1 acts srv1.
     onResponseMessage example_env (''web#1'' @ ''%'' @ '':10.0.0.9:80#1'') (InetAddress_port 80 True)
       done_context (fresh_buffer 8) waiting_server = Some (Inr (rc1, buf1, acts, srv1)) \<and>
     onResponseMessage example_env (''web#1'' @ ''%'' @ '':10.0.0.9:80#1'') (InetAddress_port 80 True)
       rc1 (fresh_buffer 8) srv1 = Some (Inl AssertFailed)"
proof -
  have n: "ci_name example_conn = ''web#1''" by (rule example_server_simps(5))
  obtain acts srv1 where 1: "onResponseMessage example_env (ci_name example_conn @ ''%'' @ '':10.0.0.9:80#1'')
      (InetAddress_port 80 True) done_context (fresh_buffer 8) waiting_server =
      Some (Inr (done_context, fresh_buffer 8, acts, srv1))"
    using onResponseMessage_done[OF waiting_server_simps(4,1,2,3) done_context_parse,
        of example_env "'':10.0.0.9:80#1''" "InetAddress_port 80 True" "fresh_buffer 8"] by blast
  have g: "rctx_gotAll done_context" by (simp add: rctx_gotAll_def done_context_def)
  from bytes_after_response_abort[OF waiting_server_simps(4,1,2,3) fresh_buffer_wf(1) 1 g, of "fresh_buffer 8"] 1
  show ?thesis unfolding n by blast
qed

text \<open>
  Bytes a client sends while its request is with an upstream submit that request again: the
  request context is still complete, so \<^verbatim>\<open>onMessage\<close> runs the handlers on the same request at once, and a
  request that is forwarded again gets a second proxy.
\<close>

theorem bytes_while_forwarding_resubmit:
  assumes "map_of (hsv_contexts srv) (ci_name conn) = Some c" "gotAll c"
    "handle_loop (env_fs env) conn server_chain
       (request_state (ctx_request c) buf (set_context (ci_name conn) c srv)) = Some (Inr (kForwarded, s))"
    "hs_proxies s = p # hsv_proxies srv"
  shows "\<exists>srv'. onMessage env conn buf t srv = Some (Inr ([], hs_input s, srv')) \<and>
    hsv_proxies srv' = p # hsv_proxies srv \<and>
    map_option ctx_state (map_of (hsv_contexts srv') (ci_name conn)) = Some kGotAll"
proof -
  have "parseRequest t c buf = Inr (kParseOK, c, buf)"
    using assms(2) by (subst parseRequest.simps) (simp add: gotAll_def)
  with assms show ?thesis
    by (simp add: onMessage_def context_of_def onRequest_def request_state_def set_context_def Let_def gotAll_def)
qed

definition forwarding_server :: http_server where
  "forwarding_server = waiting_server\<lparr>hsv_contexts := [(''web#1'',
     parsed_get\<lparr>ctx_request := setPath ''/echo/x'' (ctx_request parsed_get)\<rparr>)]\<rparr>"

theorem bytes_while_forwarding_resubmit_witness:
  "\<exists>buf' srv' p. onMessage example_env example_conn (fresh_buffer 8) 9 forwarding_server = Some (Inr ([], buf', srv')) \<and>
     hsv_proxies srv' = p # hsv_proxies forwarding_server"
proof -
  let ?c = "parsed_get\<lparr>ctx_request := setPath ''/echo/x'' (ctx_request parsed_get)\<rparr>"
  let ?s = "request_state (ctx_request ?c) (fresh_buffer 8) (set_context (ci_name example_conn) ?c forwarding_server)"
  have c: "map_of (hsv_contexts forwarding_server) (ci_name example_conn) = Some ?c"
    by (simp add: forwarding_server_def example_server_simps)
  have g: "gotAll ?c" by (simp add: gotAll_def parsed_get_def)
  have cfg: "hsv_config (set_context (ci_name example_conn) ?c forwarding_server) = example_config"
    by (simp add: forwarding_server_def waiting_server_def set_context_def example_server_simps)
  have sv: "serving ?s" by (rule serving_example[OF fresh_buffer_wf(1) cfg])
  have h: "hs_config ?s = example_config" "target ?s = ''/echo/x''"
    using cfg by (simp_all add: request_state_def target_def setPath_def)
  have l: "longest_location (listenedLocations (hs_config ?s)) (target ?s) ''/echo/''"
    unfolding h longest_location_def location_candidate_def
    by (auto simp: example_config_def listenedLocations_def)
  have ex: "map_of (proxies (hs_config ?s)) ''/echo/'' =
      Some \<lparr>px_location = ''/echo/'', px_upstreamName = ''echo'', px_setHeaders = []\<rparr>"
    "\<not> existStatic ''/echo/'' (hs_config ?s)"
    unfolding h by (simp_all add: example_config_def existStatic_def)
  have m: "req_method (hs_request ?s) \<noteq> kPost"
    by (simp add: request_state_def setPath_def parsed_get_def)
  obtain s' p where f: "handle_loop (env_fs example_env) example_conn server_chain ?s = Some (Inr (kForwarded, s'))"
      "hs_proxies s' = p # hsv_proxies forwarding_server"
    using chain_forwards[OF sv l ex m, of "env_fs example_env" example_conn]
    by (auto simp: request_state_def set_context_def)
  from bytes_while_forwarding_resubmit[OF c g f, of 9] show ?thesis by blast
qed

section \<open>Counting connections\<close>

text \<open>A history of connections coming up and going down.\<close>

datatype conn_event = Up conn_info | Down conn_info

definition on_event :: "conn_event \<Rightarrow> http_server \<Rightarrow> actions \<times> http_server" where
  "on_event e srv = (case e of Up c \<Rightarrow> onConnection c True False srv | Down c \<Rightarrow> onConnection c False True srv)"

fun on_events :: "conn_event list \<Rightarrow> http_server \<Rightarrow> actions \<times> http_server" where
  "on_events [] srv = ([], srv)"
| "on_events (e # es) srv =
     (case on_event e srv of (a, srv1) \<Rightarrow> (case on_events es srv1 of (as, srv2) \<Rightarrow> (a @ as, srv2)))"

definition ups :: "conn_event list \<Rightarrow> nat" where
  "ups es = length (filter (\<lambda>e. case e of Up _ \<Rightarrow> True | Down _ \<Rightarrow> False) es)"

definition downs :: "conn_event list \<Rightarrow> nat" where
  "downs es = length (filter (\<lambda>e. case e of Up _ \<Rightarrow> False | Down _ \<Rightarrow> True) es)"

lemma on_event_count:
  "hsv_numConnected (snd (on_event e srv)) =
     hsv_numConnected srv + (case e of Up _ \<Rightarrow> 1 | Down _ \<Rightarrow> - 1)"
  "hsv_kMaxConnections (snd (on_event e srv)) = hsv_kMaxConnections srv"
  by (auto simp: on_event_def onConnection_def Let_def split: conn_event.splits option.splits)

lemma on_events_count:
  "hsv_numConnected (snd (on_events es srv)) = hsv_numConnected srv + int (ups es) - int (downs es)"
  "hsv_kMaxConnections (snd (on_events es srv)) = hsv_kMaxConnections srv"
  by (induction es arbitrary: srv)
    (auto simp: ups_def downs_def on_event_count split: prod.splits conn_event.splits
      dest!: arg_cong[where f = snd])

text \<open>
  (C17) The connection count is exact and the limit is enforced: after any history of connections the
  counter is the number of connections that came up minus the number that went down, and a new
  connection is told to shut down, and to be closed by force three seconds later, if and only if the
  limit of \<^verbatim>\<open>worker_connections\<close> was reached before it.
\<close>

theorem connection_limit_enforced:
  "let (acts, srv) = on_events es (HttpServer_ctor name config);
       (acts', srv') = on_event (Up conn) srv
   in hsv_numConnected srv = int (ups es) - int (downs es) \<and>
      hsv_numConnected srv' = hsv_numConnected srv + 1 \<and>
      acts' = (if maxWorkerConnections (serverMainConfig config) \<le> int (ups es) - int (downs es)
               then [(ci_name conn, Shutdown), (ci_name conn, ForceCloseWithDelay 3000000)] else [])"
proof -
  let ?r = "on_events es (HttpServer_ctor name config)"
  let ?u = "on_event (Up conn) (snd ?r)"
  have n: "hsv_numConnected (snd ?r) = int (ups es) - int (downs es)"
      "hsv_kMaxConnections (snd ?r) = maxWorkerConnections (serverMainConfig config)"
    using on_events_count[of es "HttpServer_ctor name config"] by (simp_all add: HttpServer_ctor_def)
  have "fst ?u = (if maxWorkerConnections (serverMainConfig config) \<le> int (ups es) - int (downs es)
      then [(ci_name conn, Shutdown), (ci_name conn, ForceCloseWithDelay 3000000)] else [])"
    using n by (simp add: on_event_def onConnection_def Let_def split: option.splits)
  moreover have "hsv_numConnected (snd ?u) = hsv_numConnected (snd ?r) + 1"
    using on_event_count(1)[of "Up conn" "snd ?r"] by simp
  ultimately show ?thesis using n by (simp add: case_prod_beta Let_def)
qed

end
