(* ===== verification/Http_Timer.thy ===== *)
theory Http_Timer
  imports Http_Server
begin

text \<open>
  \<^verbatim>\<open>http/HttpTimer.{h,cpp}\<close>: closing idle keep-alive connections. The list of weak pointers is the
  list of connection names \<^verbatim>\<open>HttpServer::onConnection\<close> registered; \<open>lock\<close> is what locking a weak
  pointer gives, \<open>None\<close> once the connection is destroyed. Times are in microseconds.
\<close>

record live_conn =
  lc_lastReceiveTime :: timestamp
  lc_connected :: bool

type_synonym weak_lock = "string \<Rightarrow> live_conn option"

definition addHttpConnection :: "string \<Rightarrow> string list \<Rightarrow> string list \<times> nat" where
  "addHttpConnection conn connectionList = (connectionList @ [conn], length connectionList)"

definition removeHttpConnection :: "nat \<Rightarrow> string list \<Rightarrow> string list" where
  "removeHttpConnection timerPos connectionList = take timerPos connectionList @ drop (timerPos + 1) connectionList"

definition defaultTimeoutCallback :: "string \<Rightarrow> actions" where
  "defaultTimeoutCallback conn = [(conn, Shutdown), (conn, ForceCloseWithDelay 3500000)]"

text \<open>\<^verbatim>\<open>onTimer\<close>: the list afterwards, what is asked of the connections, and the connections whose last
  receive time is set to now.\<close>

fun onTimer :: "timestamp \<Rightarrow> int \<Rightarrow> weak_lock \<Rightarrow> string list \<Rightarrow> string list \<times> actions \<times> string list" where
  "onTimer now expireSeconds lock [] = ([], [], [])"
| "onTimer now expireSeconds lock (conn # rest) = (case lock conn of
     None \<Rightarrow> onTimer now expireSeconds lock rest
   | Some c \<Rightarrow>
       (let age = now - lc_lastReceiveTime c
        in if expireSeconds * 1000000 < age then
             (case onTimer now expireSeconds lock rest of (l, acts, upd) \<Rightarrow>
                (conn # l, (if lc_connected c then defaultTimeoutCallback conn else []) @ acts, upd))
           else if age < 0 then
             (case onTimer now expireSeconds lock rest of (l, acts, upd) \<Rightarrow> (conn # l, acts, conn # upd))
           else (conn # rest, [], [])))"

text \<open>A connection that has been active within the time limit.\<close>

definition active :: "timestamp \<Rightarrow> int \<Rightarrow> weak_lock \<Rightarrow> string \<Rightarrow> bool" where
  "active now expireSeconds lock conn = (case lock conn of
     None \<Rightarrow> False
   | Some c \<Rightarrow> 0 \<le> now - lc_lastReceiveTime c \<and> now - lc_lastReceiveTime c \<le> expireSeconds * 1000000)"

definition idle :: "timestamp \<Rightarrow> int \<Rightarrow> weak_lock \<Rightarrow> string \<Rightarrow> bool" where
  "idle now expireSeconds lock conn = (case lock conn of
     None \<Rightarrow> False
   | Some c \<Rightarrow> expireSeconds * 1000000 < now - lc_lastReceiveTime c \<and> lc_connected c)"

text \<open>
  (C18) A timer tick closes the idle connections in front of the first active one, and only those:
  destroyed connections in that part of the list are dropped from it, every connected idle one is
  shut down and scheduled for a forced close, in order, and nothing happens to the rest of the
  list. Since the list is in the order of connecting and not of activity, an idle connection behind an
  active one is not closed.
\<close>

theorem timer_closes_idle_prefix:
  assumes "0 \<le> expireSeconds"
  shows "let pre = takeWhile (\<lambda>c. \<not> active now expireSeconds lock c) conns;
             post = dropWhile (\<lambda>c. \<not> active now expireSeconds lock c) conns
         in fst (onTimer now expireSeconds lock conns) = filter (\<lambda>c. lock c \<noteq> None) pre @ post \<and>
            fst (snd (onTimer now expireSeconds lock conns)) =
              concat (map defaultTimeoutCallback (filter (idle now expireSeconds lock) pre))"
proof (induction conns)
  case (Cons conn rest)
  show ?case
  proof (cases "lock conn")
    case None
    with Cons show ?thesis by (simp add: active_def idle_def Let_def)
  next
    case (Some c)
    let ?age = "now - lc_lastReceiveTime c"
    consider "expireSeconds * 1000000 < ?age" | "?age < 0" | "0 \<le> ?age" "?age \<le> expireSeconds * 1000000" by linarith
    then show ?thesis
    proof cases
      case 1
      with Cons Some assms show ?thesis
        by (auto simp: active_def idle_def Let_def case_prod_beta)
    next
      case 2
      with Cons Some assms show ?thesis
        by (auto simp: active_def idle_def Let_def case_prod_beta)
    next
      case 3
      with Some show ?thesis by (auto simp: active_def Let_def)
    qed
  qed
qed (simp add: Let_def)

definition example_lock :: weak_lock where
  "example_lock n = (if n = ''a'' then Some \<lparr>lc_lastReceiveTime = 0, lc_connected = True\<rparr>
     else if n = ''b'' then Some \<lparr>lc_lastReceiveTime = 90000000, lc_connected = True\<rparr>
     else if n = ''c'' then Some \<lparr>lc_lastReceiveTime = 0, lc_connected = True\<rparr> else None)"

theorem timer_closes_idle_prefix_witness:
  "fst (onTimer 100000000 65 example_lock [''x'', ''a'', ''b'', ''c'']) = [''a'', ''b'', ''c''] \<and>
   fst (snd (onTimer 100000000 65 example_lock [''x'', ''a'', ''b'', ''c''])) =
     [(''a'', Shutdown), (''a'', ForceCloseWithDelay 3500000)]"
  using timer_closes_idle_prefix[of 65 100000000 example_lock "[''x'', ''a'', ''b'', ''c'']"]
  by (simp add: Let_def active_def idle_def example_lock_def defaultTimeoutCallback_def)

end
