(* ===== verification/Base_Date.thy ===== *)
theory Base_Date
  imports Prelude "HOL-Library.Signed_Division"
begin

text \<open>
  \<^verbatim>\<open>base/Date.{h,cc}\<close>: calendar dates as Julian day numbers, and the conversion in both directions.
  The arithmetic of the source is on \<^verbatim>\<open>int\<close> of 32 bits with division truncated towards zero, here \<open>sdiv\<close> and
  \<open>smod\<close>. \<open>cast_int\<close> reduces to 32 bits; as that commutes with sums and products it is written once around
  every sum or product that is stored, returned or divided. (Overflow is undefined in C++; here it wraps.) \<open>civil_date\<close> and
  \<open>civil_day_number\<close> are the same calendar on unbounded integers: the reference, and the calendar of the C library.
\<close>

record YearMonthDay =
  ymd_year :: int
  ymd_month :: int
  ymd_day :: int

definition kDaysPerWeek :: int where "kDaysPerWeek = 7"

definition cast_int :: "int \<Rightarrow> int" where
  "cast_int x = (x + 2 ^ 31) mod 2 ^ 32 - 2 ^ 31"

definition getJulianDayNumber :: "int \<Rightarrow> int \<Rightarrow> int \<Rightarrow> int" where
  "getJulianDayNumber year month day =
     (let a = cast_int (14 - month) sdiv 12;
          y = cast_int (year + 4800 - a);
          m = cast_int (month + 12 * a - 3)
      in cast_int (day + cast_int (153 * m + 2) sdiv 5 + y * 365 + y sdiv 4 - y sdiv 100 + y sdiv 400 - 32045))"

definition getYearMonthDay :: "int \<Rightarrow> YearMonthDay" where
  "getYearMonthDay julianDayNumber =
     (let a = cast_int (julianDayNumber + 32044);
          b = cast_int (4 * a + 3) sdiv 146097;
          c = cast_int (a - (cast_int (b * 146097) sdiv 4));
          d = cast_int (4 * c + 3) sdiv 1461;
          e = cast_int (c - (cast_int (1461 * d) sdiv 4));
          m = cast_int (5 * e + 2) sdiv 153
      in \<lparr>ymd_year = cast_int (b * 100 + d - 4800 + (m sdiv 10)),
          ymd_month = cast_int (m + 3 - 12 * (m sdiv 10)),
          ymd_day = cast_int (e - (cast_int (153 * m + 2) sdiv 5) + 1)\<rparr>)"

definition kJulianDayOf1970_01_01 :: int where
  "kJulianDayOf1970_01_01 = getJulianDayNumber 1970 1 1"

record Date =
  julianDayNumber :: int

definition Date_ymd :: "int \<Rightarrow> int \<Rightarrow> int \<Rightarrow> Date" where
  "Date_ymd y m d = \<lparr>julianDayNumber = getJulianDayNumber y m d\<rparr>"

definition Date_tm :: "int \<Rightarrow> int \<Rightarrow> int \<Rightarrow> Date" where
  "Date_tm tm_year tm_mon tm_mday =
     \<lparr>julianDayNumber = getJulianDayNumber (cast_int (tm_year + 1900)) (cast_int (tm_mon + 1)) tm_mday\<rparr>"

definition date_valid :: "Date \<Rightarrow> bool" where
  "date_valid dt \<longleftrightarrow> 0 < julianDayNumber dt"

definition yearMonthDay :: "Date \<Rightarrow> YearMonthDay" where
  "yearMonthDay dt = getYearMonthDay (julianDayNumber dt)"

definition weekDay :: "Date \<Rightarrow> int" where
  "weekDay dt = cast_int (julianDayNumber dt + 1) smod kDaysPerWeek"

text \<open>\<^verbatim>\<open>%4d\<close> and \<^verbatim>\<open>%02d\<close>: decimal text padded on the left with blanks, or with zeros after the sign.\<close>

definition pad_blank :: "nat \<Rightarrow> int \<Rightarrow> string" where
  "pad_blank w i = (let s = dec_int i in replicate (w - length s) (CHR '' '') @ s)"

definition pad_zero :: "nat \<Rightarrow> int \<Rightarrow> string" where
  "pad_zero w i =
     (let s = dec_nat (nat \<bar>i\<bar>); sign = (if i < 0 then ''-'' else [])
      in sign @ replicate (w - length sign - length s) (CHR ''0'') @ s)"

definition toIsoString :: "Date \<Rightarrow> string" where
  "toIsoString dt =
     (let ymd = yearMonthDay dt
      in snprintf 32 (pad_blank 4 (ymd_year ymd) @ ''-'' @ pad_zero 2 (ymd_month ymd) @ ''-'' @
           pad_zero 2 (ymd_day ymd)))"

section \<open>The calendar on unbounded integers\<close>

definition civil_day_number :: "int \<Rightarrow> int \<Rightarrow> int \<Rightarrow> int" where
  "civil_day_number year month day =
     (let a = (14 - month) sdiv 12;
          y = year + 4800 - a;
          m = month + 12 * a - 3
      in day + (153 * m + 2) sdiv 5 + y * 365 + y sdiv 4 - y sdiv 100 + y sdiv 400 - 32045)"

definition civil_date :: "int \<Rightarrow> YearMonthDay" where
  "civil_date j =
     (let a = j + 32044;
          b = (4 * a + 3) sdiv 146097;
          c = a - ((b * 146097) sdiv 4);
          d = (4 * c + 3) sdiv 1461;
          e = c - ((1461 * d) sdiv 4);
          m = (5 * e + 2) sdiv 153
      in \<lparr>ymd_year = b * 100 + d - 4800 + (m sdiv 10),
          ymd_month = m + 3 - 12 * (m sdiv 10),
          ymd_day = e - ((153 * m + 2) sdiv 5) + 1\<rparr>)"

lemma cast_int_id: "- 2147483648 \<le> x \<Longrightarrow> x < 2147483648 \<Longrightarrow> cast_int x = x"
  by (simp add: cast_int_def)

lemma sdiv_nonneg: "0 \<le> a \<Longrightarrow> 0 < (b :: int) \<Longrightarrow> a sdiv b = a div b"
  by (simp add: signed_divide_int_def sgn_if zdiv_eq_0_iff)

lemma div_bounds: "0 < k \<Longrightarrow> k * (n div k) \<le> n" "0 < k \<Longrightarrow> n < k * (n div k) + (k :: int)"
  using pos_mod_sign[of k n] pos_mod_bound[of k n] mult_div_mod_eq[of k n] by linarith+

text \<open>The century, the year in it and the day in that year, each within its range, and the day number
  they add up to.\<close>

lemma century_split:
  fixes a :: int
  assumes "0 \<le> a" and b_def: "b = (4 * a + 3) div 146097" and c_def: "c = a - b * 146097 div 4"
  shows "0 \<le> b" "0 \<le> c" "c \<le> 36524" "a = c + 36524 * b + b div 4"
proof -
  show b: "0 \<le> b" using assms(1) by (simp add: b_def pos_imp_zdiv_nonneg_iff)
  have "b * 146097 = b + 36524 * b * 4" by simp
  then have q: "b * 146097 div 4 = 36524 * b + b div 4" by (simp only: div_mult_self1)
  show "a = c + 36524 * b + b div 4" by (simp add: c_def q)
  have r: "146097 * b \<le> 4 * a + 3" "4 * a + 3 < 146097 * b + 146097"
    unfolding b_def by (rule div_bounds; simp)+
  have s: "4 * (b div 4) \<le> b" "b < 4 * (b div 4) + 4" by (rule div_bounds; simp)+
  show "0 \<le> c" "c \<le> 36524" unfolding c_def q using r s by linarith+
qed

lemma year_split:
  fixes c :: int
  assumes "0 \<le> c" "c \<le> 36524" and d_def: "d = (4 * c + 3) div 1461" and e_def: "e = c - 1461 * d div 4"
  shows "0 \<le> d" "d \<le> 99" "0 \<le> e" "e \<le> 365" "c = e + 365 * d + d div 4"
proof -
  have r: "1461 * d \<le> 4 * c + 3" "4 * c + 3 < 1461 * d + 1461" unfolding d_def by (rule div_bounds; simp)+
  show "0 \<le> d" "d \<le> 99" using r assms(1,2) by linarith+
  have "1461 * d = d + 365 * d * 4" by simp
  then have q: "1461 * d div 4 = 365 * d + d div 4" by (simp only: div_mult_self1)
  show "c = e + 365 * d + d div 4" by (simp add: e_def q)
  have s: "4 * (d div 4) \<le> d" "d < 4 * (d div 4) + 4" by (rule div_bounds; simp)+
  show "0 \<le> e" "e \<le> 365" unfolding e_def q using r s by linarith+
qed

lemma month_split:
  fixes e :: int
  assumes "0 \<le> e" "e \<le> 365" and m_def: "m = (5 * e + 2) div 153"
  shows "0 \<le> m" "m \<le> 11" "(153 * m + 2) div 5 \<le> e" "e - (153 * m + 2) div 5 \<le> 30"
proof -
  have r: "153 * m \<le> 5 * e + 2" "5 * e + 2 < 153 * m + 153" unfolding m_def by (rule div_bounds; simp)+
  show "0 \<le> m" "m \<le> 11" using r assms(1,2) by linarith+
  have s: "5 * ((153 * m + 2) div 5) \<le> 153 * m + 2" "153 * m + 2 < 5 * ((153 * m + 2) div 5) + 5"
    by (rule div_bounds; simp)+
  show "(153 * m + 2) div 5 \<le> e" "e - (153 * m + 2) div 5 \<le> 30" using r s by linarith+
qed

text \<open>The fields of a day number, with the century \<open>b\<close>, the year \<open>d\<close> and the month \<open>m\<close> counted from March.\<close>

lemma civil_date_fields:
  assumes "- 32044 \<le> j"
  obtains b d e m where "0 \<le> b" "0 \<le> d" "d \<le> 99" "0 \<le> m" "m \<le> 11" "0 \<le> e"
    "(153 * m + 2) div 5 \<le> e" "e - (153 * m + 2) div 5 \<le> 30"
    "j + 32044 = e + 365 * d + d div 4 + 36524 * b + b div 4"
    "civil_date j = \<lparr>ymd_year = b * 100 + d - 4800 + m div 10, ymd_month = m + 3 - 12 * (m div 10),
       ymd_day = e - (153 * m + 2) div 5 + 1\<rparr>"
proof -
  define a b where "a = j + 32044" and "b = (4 * a + 3) div 146097"
  define c where "c = a - b * 146097 div 4"
  define d where "d = (4 * c + 3) div 1461"
  define e where "e = c - 1461 * d div 4"
  define m where "m = (5 * e + 2) div 153"
  have a: "0 \<le> a" using assms by (simp add: a_def)
  note C = century_split[OF a b_def c_def]
  note Y = year_split[OF C(2,3) d_def e_def]
  note M = month_split[OF Y(3,4) m_def]
  have S1: "(4 * a + 3) sdiv 146097 = b" unfolding b_def using a by (intro sdiv_nonneg) simp_all
  have S2: "a - (b * 146097) sdiv 4 = c" unfolding c_def using C(1) by (subst sdiv_nonneg) simp_all
  have S3: "(4 * c + 3) sdiv 1461 = d" unfolding d_def by (rule sdiv_nonneg) (use C(2) in linarith)+
  have S4: "c - (1461 * d) sdiv 4 = e" unfolding e_def by (subst sdiv_nonneg) (use Y(1) in simp_all)
  have S5: "(5 * e + 2) sdiv 153 = m" unfolding m_def by (rule sdiv_nonneg) (use Y(3) in linarith)+
  have S6: "m sdiv 10 = m div 10" "(153 * m + 2) sdiv 5 = (153 * m + 2) div 5"
    by (rule sdiv_nonneg; use M(1) in linarith)+
  have "civil_date j = \<lparr>ymd_year = b * 100 + d - 4800 + m div 10, ymd_month = m + 3 - 12 * (m div 10),
       ymd_day = e - (153 * m + 2) div 5 + 1\<rparr>"
    unfolding civil_date_def Let_def a_def[symmetric] S1 S2 S3 S4 S5 S6 by (rule refl)
  moreover have "j + 32044 = e + 365 * d + d div 4 + 36524 * b + b div 4"
    using C(4) Y(5) by (simp add: a_def)
  ultimately show ?thesis using that C(1) Y(1-3) M by blast
qed

lemma year_divs:
  fixes b d :: int
  assumes "0 \<le> d" "d \<le> 99"
  shows "(b * 100 + d) div 4 = 25 * b + d div 4" "(b * 100 + d) div 100 = b" "(b * 100 + d) div 400 = b div 4"
proof -
  have "b * 100 + d = d + 25 * b * 4" by simp
  then show "(b * 100 + d) div 4 = 25 * b + d div 4" by (simp only: div_mult_self1)
  show c: "(b * 100 + d) div 100 = b" using assms by simp
  have "(b * 100 + d) div 400 = (b * 100 + d) div 100 div 4" by (simp add: zdiv_zmult2_eq[symmetric])
  then show "(b * 100 + d) div 400 = b div 4" by (simp only: c)
qed

lemma month_of_index:
  assumes "0 \<le> m" "m \<le> (11 :: int)"
  shows "(14 - (m + 3 - 12 * (m div 10))) sdiv 12 = m div 10" "1 \<le> m + 3 - 12 * (m div 10)"
    "m + 3 - 12 * (m div 10) \<le> 12"
proof -
  have "m = 0 \<or> m = 1 \<or> m = 2 \<or> m = 3 \<or> m = 4 \<or> m = 5 \<or> m = 6 \<or> m = 7 \<or> m = 8 \<or> m = 9 \<or> m = 10 \<or> m = 11"
    using assms by presburger
  then show "(14 - (m + 3 - 12 * (m div 10))) sdiv 12 = m div 10" "1 \<le> m + 3 - 12 * (m div 10)"
    "m + 3 - 12 * (m div 10) \<le> 12" by (auto simp: sdiv_nonneg)
qed

lemma civil_date_inverse:
  assumes "- 32044 \<le> j"
  shows "civil_day_number (ymd_year (civil_date j)) (ymd_month (civil_date j))
      (ymd_day (civil_date j)) = j \<and>
    1 \<le> ymd_month (civil_date j) \<and> ymd_month (civil_date j) \<le> 12 \<and>
    1 \<le> ymd_day (civil_date j) \<and> ymd_day (civil_date j) \<le> 31"
proof -
  obtain b d e m where f: "0 \<le> b" "0 \<le> d" "d \<le> 99" "0 \<le> m" "m \<le> 11" "0 \<le> e"
    "(153 * m + 2) div 5 \<le> e" "e - (153 * m + 2) div 5 \<le> 30"
    "j + 32044 = e + 365 * d + d div 4 + 36524 * b + b div 4"
    "civil_date j = \<lparr>ymd_year = b * 100 + d - 4800 + m div 10, ymd_month = m + 3 - 12 * (m div 10),
       ymd_day = e - (153 * m + 2) div 5 + 1\<rparr>"
    using civil_date_fields[OF assms] by metis
  note M = month_of_index[OF f(4,5)]
  have y: "b * 100 + d - 4800 + m div 10 + 4800 - m div 10 = b * 100 + d"
    "m + 3 - 12 * (m div 10) + 12 * (m div 10) - 3 = m" by simp_all
  have "civil_day_number (b * 100 + d - 4800 + m div 10) (m + 3 - 12 * (m div 10))
      (e - (153 * m + 2) div 5 + 1) = j"
    unfolding civil_day_number_def Let_def M(1) y
    using f(1-6,9) year_divs[OF f(2,3), of b] by (simp add: sdiv_nonneg)
  then show ?thesis using f(7,8,10) M(2,3) by simp
qed

section \<open>No overflow\<close>

text \<open>The arithmetic stays within 32 bits up to the day number 536838867, for which \<open>4 * a + 3\<close> is the largest
  \<^verbatim>\<open>int\<close>, and for the years up to 1500000.\<close>

lemma getYearMonthDay_exact:
  assumes "- 32044 \<le> j" "j \<le> 536838867"
  shows "getYearMonthDay j = civil_date j"
proof -
  define a b where "a = j + 32044" and "b = (4 * a + 3) div 146097"
  define c where "c = a - b * 146097 div 4"
  define d where "d = (4 * c + 3) div 1461"
  define e where "e = c - 1461 * d div 4"
  define m where "m = (5 * e + 2) div 153"
  have a: "0 \<le> a" "a \<le> 536870911" using assms by (simp_all add: a_def)
  note C = century_split[OF a(1) b_def c_def]
  note Y = year_split[OF C(2,3) d_def e_def]
  note M = month_split[OF Y(3,4) m_def]
  have b: "b * 146097 \<le> 4 * a + 3" using div_bounds(1)[of 146097 "4 * a + 3"] by (simp add: b_def)
  have cast: "cast_int a = a" "cast_int (4 * a + 3) = 4 * a + 3" "cast_int (b * 146097) = b * 146097" "cast_int c = c"
    "cast_int (4 * c + 3) = 4 * c + 3" "cast_int (1461 * d) = 1461 * d" "cast_int e = e" "cast_int (5 * e + 2) = 5 * e + 2"
    "cast_int (153 * m + 2) = 153 * m + 2"
    by (rule cast_int_id; use a b C(1-3) Y(1-4) M(1,2) in linarith)+
  have S1: "(4 * a + 3) sdiv 146097 = b" unfolding b_def using a by (intro sdiv_nonneg) simp_all
  have S2: "a - (b * 146097) sdiv 4 = c" unfolding c_def using C(1) by (subst sdiv_nonneg) simp_all
  have S3: "(4 * c + 3) sdiv 1461 = d" unfolding d_def by (rule sdiv_nonneg) (use C(2) in linarith)+
  have S4: "c - (1461 * d) sdiv 4 = e" unfolding e_def by (subst sdiv_nonneg) (use Y(1) in simp_all)
  have S5: "(5 * e + 2) sdiv 153 = m" unfolding m_def by (rule sdiv_nonneg) (use Y(3) in linarith)+
  have S6: "m sdiv 10 = m div 10" "(153 * m + 2) sdiv 5 = (153 * m + 2) div 5"
    by (rule sdiv_nonneg; use M(1) in linarith)+
  have m: "0 \<le> m div 10" "m div 10 \<le> 1" using M(1,2) by simp_all
  have ends: "cast_int (b * 100 + d - 4800 + m div 10) = b * 100 + d - 4800 + m div 10"
    "cast_int (m + 3 - 12 * (m div 10)) = m + 3 - 12 * (m div 10)"
    "cast_int (e - (153 * m + 2) div 5 + 1) = e - (153 * m + 2) div 5 + 1"
    by (rule cast_int_id; use a b C(1) Y(1,2) M m in linarith)+
  show ?thesis
    unfolding getYearMonthDay_def civil_date_def Let_def a_def[symmetric] cast S1 S2 S3 S4 S5 S6 ends by (rule refl)
qed

lemma sdiv_small:
  assumes "- 1 \<le> y" "y \<le> 1504800" "4 \<le> (k :: int)"
  shows "0 \<le> y sdiv k \<and> y sdiv k \<le> 400000"
proof (cases "y = - 1")
  case True
  then show ?thesis using assms(3) by (simp add: signed_divide_int_def)
next
  case False
  then have y: "0 \<le> y" using assms(1) by simp
  have "y div k \<le> y div 4" using y assms(3) by (intro zdiv_mono2) simp_all
  moreover have "y div 4 \<le> 376200" using assms(2) by simp
  moreover have "y sdiv k = y div k" using y assms(3) by (intro sdiv_nonneg) simp_all
  ultimately show ?thesis using y assms(3) by (simp add: pos_imp_zdiv_nonneg_iff)
qed

lemma civil_day_number_parts:
  assumes "- 4800 \<le> year" "year \<le> 1500000" "1 \<le> month" "month \<le> 12" "1 \<le> day" "day \<le> 31"
  shows "cast_int (14 - month) = 14 - month"
    "cast_int (year + 4800 - (14 - month) sdiv 12) = year + 4800 - (14 - month) sdiv 12"
    "cast_int (month + 12 * ((14 - month) sdiv 12) - 3) = month + 12 * ((14 - month) sdiv 12) - 3"
    "cast_int (153 * (month + 12 * ((14 - month) sdiv 12) - 3) + 2) = 153 * (month + 12 * ((14 - month) sdiv 12) - 3) + 2"
    "- 500000 \<le> civil_day_number year month day" "civil_day_number year month day \<le> 600000000"
proof -
  define a where "a = (14 - month) sdiv 12"
  have A: "a = (14 - month) div 12" unfolding a_def by (rule sdiv_nonneg) (use assms(4) in simp_all)
  have a: "0 \<le> a" "a \<le> 1" using A assms(3,4) by simp_all
  define y m where "y = year + 4800 - a" and "m = month + 12 * a - 3"
  have m: "0 \<le> m" "m \<le> 21" using A assms(3,4) by (auto simp: m_def)
  have y: "- 1 \<le> y" "y \<le> 1504800" using assms(1,2) a by (simp_all add: y_def)
  show "cast_int (14 - month) = 14 - month"
    "cast_int (year + 4800 - (14 - month) sdiv 12) = year + 4800 - (14 - month) sdiv 12"
    "cast_int (month + 12 * ((14 - month) sdiv 12) - 3) = month + 12 * ((14 - month) sdiv 12) - 3"
    "cast_int (153 * (month + 12 * ((14 - month) sdiv 12) - 3) + 2) = 153 * (month + 12 * ((14 - month) sdiv 12) - 3) + 2"
    unfolding a_def[symmetric] y_def[symmetric] m_def[symmetric] by (rule cast_int_id; use assms(3,4) y m in linarith)+
  have q: "(153 * m + 2) sdiv 5 = (153 * m + 2) div 5" by (rule sdiv_nonneg) (use m in simp_all)
  have p: "0 \<le> (153 * m + 2) div 5" "(153 * m + 2) div 5 \<le> 1000" using m by simp_all
  have k: "0 \<le> y sdiv 4 \<and> y sdiv 4 \<le> 400000" "0 \<le> y sdiv 100 \<and> y sdiv 100 \<le> 400000" "0 \<le> y sdiv 400 \<and> y sdiv 400 \<le> 400000"
    using sdiv_small[OF y] by simp_all
  show "- 500000 \<le> civil_day_number year month day" "civil_day_number year month day \<le> 600000000"
    unfolding civil_day_number_def Let_def a_def[symmetric] y_def[symmetric] m_def[symmetric] q
    using assms(5,6) y p k by linarith+
qed

lemmas civil_day_range = civil_day_number_parts(5,6)

lemma getJulianDayNumber_exact:
  assumes "- 4800 \<le> year" "year \<le> 1500000" "1 \<le> month" "month \<le> 12" "1 \<le> day" "day \<le> 31"
  shows "getJulianDayNumber year month day = civil_day_number year month day"
proof -
  note P = civil_day_number_parts[OF assms]
  have "cast_int (civil_day_number year month day) = civil_day_number year month day"
    by (rule cast_int_id) (use P(5,6) in linarith)+
  then show ?thesis unfolding getJulianDayNumber_def civil_day_number_def Let_def P(1-4) .
qed

text \<open>The year of a day number, within the range above.\<close>

lemma civil_year_range:
  assumes "- 32044 \<le> j" "j \<le> 536838867"
  shows "- 4800 \<le> ymd_year (civil_date j)" "ymd_year (civil_date j) \<le> 1500000"
proof -
  from assms(1) obtain b d e m where f: "0 \<le> b" "0 \<le> d" "d \<le> 99" "0 \<le> m" "m \<le> 11" "0 \<le> e"
    "j + 32044 = e + 365 * d + d div 4 + 36524 * b + b div 4" "ymd_year (civil_date j) = b * 100 + d - 4800 + m div 10"
    by (rule civil_date_fields) (erule that; simp)
  have "0 \<le> m div 10" "m div 10 \<le> 1" "0 \<le> d div 4" "0 \<le> b div 4" using f(1,2,4,5) by simp_all
  then show "- 4800 \<le> ymd_year (civil_date j)" "ymd_year (civil_date j) \<le> 1500000"
    using f assms(2) by linarith+
qed

section \<open>Properties\<close>

text \<open>Calendar dates round trip: every day number from the first day of the range of the algorithm
  on, \<open>-32044\<close>, to the last one before it overflows is converted to a month between 1 and 12 and a day between 1 and 31
  that convert back to the same number, so different days have different dates.\<close>

theorem julian_day_roundtrip:
  assumes "- 32044 \<le> j" "j \<le> 536838867"
  shows "getJulianDayNumber (ymd_year (getYearMonthDay j)) (ymd_month (getYearMonthDay j))
      (ymd_day (getYearMonthDay j)) = j \<and>
    1 \<le> ymd_month (getYearMonthDay j) \<and> ymd_month (getYearMonthDay j) \<le> 12 \<and>
    1 \<le> ymd_day (getYearMonthDay j) \<and> ymd_day (getYearMonthDay j) \<le> 31"
  using civil_date_inverse[OF assms(1)] civil_year_range[OF assms]
  by (simp add: getYearMonthDay_exact[OF assms] getJulianDayNumber_exact)

theorem julian_day_roundtrip_witness:
  "getYearMonthDay 2440588 = \<lparr>ymd_year = 1970, ymd_month = 1, ymd_day = 1\<rparr> \<and>
   getJulianDayNumber 1970 1 1 = 2440588"
proof -
  have "getYearMonthDay 2440588 = \<lparr>ymd_year = 1970, ymd_month = 1, ymd_day = 1\<rparr>"
    by code_simp
  with julian_day_roundtrip[of 2440588] show ?thesis by simp
qed

end
