(* ===== verification/Base_TimeZone.thy ===== *)
theory Base_TimeZone
  imports Base_Date
begin

text \<open>
  \<^verbatim>\<open>base/TimeZone.{h,cc}\<close> and the text forms of \<^verbatim>\<open>base/Timestamp.{h,cc}\<close>: broken-down times, the zone file
  reader and the conversions between local and universal time. \<^verbatim>\<open>time_t\<close> is \<open>int\<close>; the casts to \<^verbatim>\<open>int\<close> and
  the 32-bit arithmetic are written out. The C library's \<^verbatim>\<open>gmtime_r\<close> and \<^verbatim>\<open>timegm\<close> are the proleptic Gregorian calendar on days
  counted from the epoch. The content of the zone file is a parameter.
\<close>

section \<open>Broken-down time\<close>

record tm =
  tm_sec :: int
  tm_min :: int
  tm_hour :: int
  tm_mday :: int
  tm_mon :: int
  tm_year :: int
  tm_wday :: int
  tm_yday :: int
  tm_isdst :: bool
  tm_gmtoff :: int
  tm_zone :: string

definition tm_zero :: tm where
  "tm_zero = \<lparr>tm_sec = 0, tm_min = 0, tm_hour = 0, tm_mday = 0, tm_mon = 0, tm_year = 0, tm_wday = 0,
     tm_yday = 0, tm_isdst = False, tm_gmtoff = 0, tm_zone = []\<rparr>"

definition kSecondsPerDay :: int where "kSecondsPerDay = 24 * 60 * 60"

text \<open>The C library: days and seconds are split by division rounded down.\<close>

definition gmtime :: "int \<Rightarrow> tm" where
  "gmtime t =
     (let days = t div 86400; secs = t mod 86400;
          ymd = civil_date (days + 2440588)
      in \<lparr>tm_sec = secs mod 60, tm_min = secs div 60 mod 60, tm_hour = secs div 3600,
          tm_mday = ymd_day ymd, tm_mon = ymd_month ymd - 1, tm_year = ymd_year ymd - 1900,
          tm_wday = (days + 4) mod 7,
          tm_yday = days + 2440588 - civil_day_number (ymd_year ymd) 1 1,
          tm_isdst = False, tm_gmtoff = 0, tm_zone = ''GMT''\<rparr>)"

definition timegm :: "tm \<Rightarrow> int" where
  "timegm t = (civil_day_number (tm_year t + 1900) (tm_mon t + 1) (tm_mday t) - 2440588) * 86400 +
     tm_hour t * 3600 + tm_min t * 60 + tm_sec t"

definition fillHMS :: "int \<Rightarrow> tm \<Rightarrow> tm" where
  "fillHMS seconds utc =
     (let minutes = seconds div 60
      in utc\<lparr>tm_sec := seconds mod 60, tm_min := minutes mod 60, tm_hour := minutes div 60\<rparr>)"

definition toUtcTime :: "int \<Rightarrow> bool \<Rightarrow> tm" where
  "toUtcTime secondsSinceEpoch yday =
     (let utc = tm_zero\<lparr>tm_zone := ''GMT''\<rparr>;
          seconds = cast_int (secondsSinceEpoch smod kSecondsPerDay);
          days = cast_int (secondsSinceEpoch sdiv kSecondsPerDay);
          (seconds, days) = (if seconds < 0 then (seconds + kSecondsPerDay, cast_int (days - 1)) else (seconds, days));
          utc = fillHMS seconds utc;
          date = \<lparr>julianDayNumber = cast_int (days + kJulianDayOf1970_01_01)\<rparr>;
          ymd = yearMonthDay date;
          utc = utc\<lparr>tm_year := cast_int (ymd_year ymd - 1900), tm_mon := cast_int (ymd_month ymd - 1), tm_mday := ymd_day ymd,
                     tm_wday := weekDay date\<rparr>
      in if yday then utc\<lparr>tm_yday := cast_int (julianDayNumber date - julianDayNumber (Date_ymd (ymd_year ymd) 1 1))\<rparr>
         else utc)"

definition fromUtcTime_fields :: "int \<Rightarrow> int \<Rightarrow> int \<Rightarrow> int \<Rightarrow> int \<Rightarrow> int \<Rightarrow> int" where
  "fromUtcTime_fields year month day hour minute seconds =
     (let date = Date_ymd year month day;
          secondsInDay = cast_int (hour * 3600 + minute * 60 + seconds);
          days = cast_int (julianDayNumber date - kJulianDayOf1970_01_01)
      in days * kSecondsPerDay + secondsInDay)"

definition fromUtcTime :: "tm \<Rightarrow> int" where
  "fromUtcTime utc = fromUtcTime_fields (cast_int (tm_year utc + 1900)) (cast_int (tm_mon utc + 1)) (tm_mday utc)
     (tm_hour utc) (tm_min utc) (tm_sec utc)"

section \<open>Universal time\<close>

lemma kJulianDay: "kJulianDayOf1970_01_01 = 2440588"
  by code_simp

text \<open>Truncated division with its correction is division rounded down.\<close>

lemma day_of_negative:
  fixes n :: int
  assumes "0 < n"
  shows "(- n) sdiv 86400 = - (n div 86400)" "(- n) smod 86400 = - (n mod 86400)"
  using assms by (simp_all add: signed_divide_int_def signed_modulo_int_def minus_div_mult_eq_mod[symmetric])

lemma day_of_time:
  assumes "\<bar>t\<bar> < 2 ^ 46"
  shows "(if cast_int (t smod kSecondsPerDay) < 0
      then (cast_int (t smod kSecondsPerDay) + kSecondsPerDay, cast_int (cast_int (t sdiv kSecondsPerDay) - 1))
      else (cast_int (t smod kSecondsPerDay), cast_int (t sdiv kSecondsPerDay))) = (t mod 86400, t div 86400)"
proof (cases "0 \<le> t")
  case True
  have k: "kSecondsPerDay = 86400" by (simp add: kSecondsPerDay_def)
  have "t sdiv 86400 = t div 86400" "t smod 86400 = t mod 86400"
    using True by (simp_all add: sdiv_nonneg signed_modulo_int_def minus_div_mult_eq_mod sgn_if)
  moreover have "t div 86400 < 2147483648" "0 \<le> t div 86400" using True assms by simp_all
  moreover have r: "0 \<le> t mod 86400" "t mod 86400 < 86400" by simp_all
  have "cast_int (t mod 86400) = t mod 86400" by (rule cast_int_id) (use r in linarith)+
  ultimately show ?thesis using cast_int_id[of "t div 86400"] unfolding k by (simp add: not_less[THEN iffD2, OF r(1)])
next
  case False
  have k: "kSecondsPerDay = 86400" by (simp add: kSecondsPerDay_def)
  define n where "n = - t"
  have t: "t = - n" by (simp add: n_def)
  have n: "0 < n" "n < 2 ^ 46" using False assms by (simp_all add: n_def)
  note D = day_of_negative[OF n(1)]
  have b: "0 \<le> n div 86400" "n div 86400 < 2147483648" "0 \<le> n mod 86400" "n mod 86400 < 86400" using n by simp_all
  have c: "cast_int (- (n div 86400)) = - (n div 86400)" "cast_int (- (n mod 86400)) = - (n mod 86400)"
    "cast_int (- (n div 86400) - 1) = - (n div 86400) - 1"
    by (rule cast_int_id; use b in linarith)+
  show ?thesis
    unfolding k t D c
    by (simp add: zdiv_zminus1_eq_if zmod_zminus1_eq_if) (use b(3) in linarith)
qed

text \<open>What a broken-down time looks like.\<close>

definition tm_ok :: "tm \<Rightarrow> bool" where
  "tm_ok t \<longleftrightarrow> 0 \<le> tm_sec t \<and> tm_sec t < 60 \<and> 0 \<le> tm_min t \<and> tm_min t < 60 \<and> 0 \<le> tm_hour t \<and> tm_hour t < 24 \<and>
     1 \<le> tm_mday t \<and> tm_mday t \<le> 31 \<and> 0 \<le> tm_mon t \<and> tm_mon t \<le> 11 \<and> 0 \<le> tm_wday t \<and> tm_wday t \<le> 6 \<and>
     0 \<le> tm_yday t \<and> tm_yday t \<le> 365"

definition hms_seconds :: "int \<Rightarrow> int \<Rightarrow> int \<Rightarrow> int" where
  "hms_seconds h m s = h * 3600 + m * 60 + s"

lemma hms_split: "hms_seconds (s div 60 div 60) (s div 60 mod 60) (s mod 60) = s"
proof -
  have "s = s div 60 * 60 + s mod 60" "s div 60 = s div 60 div 60 * 60 + s div 60 mod 60" by simp_all
  then show ?thesis unfolding hms_seconds_def by linarith
qed

lemma leap_step:
  assumes "0 < (k :: int)"
  shows "z div k - (z - 1) div k = (if k dvd z then 1 else 0)"
proof (cases "k dvd z")
  case True
  then obtain q where q: "z = k * q" by (elim dvdE)
  have "(z - 1) div k = q - 1"
    by (rule int_div_pos_eq[of _ _ _ "k - 1"]) (use assms in \<open>simp_all add: q algebra_simps\<close>)
  then show ?thesis using q assms by simp
next
  case False
  then have "1 \<le> z mod k" "z mod k < k" using pos_mod_bound[OF assms, of z] pos_mod_sign[OF assms, of z]
    by (auto simp: dvd_eq_mod_eq_0)
  then have "(z - 1) div k = z div k"
    by (intro int_div_pos_eq[of _ _ _ "z mod k - 1"]) (simp_all add: algebra_simps)
  then show ?thesis using False by simp
qed

lemma leap_days: "z div 4 - (z - 1) div 4 - (z div 100 - (z - 1) div 100) + (z div 400 - (z - 1) div 400) \<in> {0, 1 :: int}"
  using dvd_trans[of 4 100 z] dvd_trans[of 100 400 z] by (auto simp: leap_step)

text \<open>The day of the year, from the fields of a day number.\<close>

lemma yday_range:
  assumes "0 \<le> j"
  shows "j - civil_day_number (ymd_year (civil_date j)) 1 1 \<in> {0..365}"
proof -
  have "- 32044 \<le> j" using assms by simp
  then obtain b d e m where f: "0 \<le> b" "0 \<le> d" "d \<le> 99" "0 \<le> m" "m \<le> 11" "0 \<le> e"
    "(153 * m + 2) div 5 \<le> e" "e - (153 * m + 2) div 5 \<le> 30"
    "j + 32044 = e + 365 * d + d div 4 + 36524 * b + b div 4"
    "civil_date j = \<lparr>ymd_year = b * 100 + d - 4800 + m div 10, ymd_month = m + 3 - 12 * (m div 10),
       ymd_day = e - (153 * m + 2) div 5 + 1\<rparr>"
    by (rule civil_date_fields)
  define z where "z = b * 100 + d"
  have j: "j = e + 365 * z + z div 4 - z div 100 + z div 400 - 32044"
    using f(9) year_divs[OF f(2,3), of b] by (simp add: z_def)
  have a: "(14 - 1 :: int) sdiv 12 = 1" "(153 * (1 + 12 * 1 - 3) + 2 :: int) sdiv 5 = 306" by code_simp+
  show ?thesis
  proof (cases "m \<le> 9")
    case True
    then have "m div 10 = 0" "(153 * m + 2) div 5 \<le> 275" using f(4) by simp_all
    then have e: "e \<le> 305" and y: "ymd_year (civil_date j) = z - 4800" using f(8,10) by (simp_all add: z_def)
    have z: "1 \<le> z" using j e assms by (cases "z = 0") (use f(1,2) in \<open>auto simp: z_def\<close>)
    have J: "civil_day_number (z - 4800) 1 1 = 1 + 306 + (z - 1) * 365 + (z - 1) div 4 - (z - 1) div 100 +
        (z - 1) div 400 - 32045"
      unfolding civil_day_number_def Let_def a using z by (simp add: sdiv_nonneg)
    define L where "L = z div 4 - (z - 1) div 4 - (z div 100 - (z - 1) div 100) + (z div 400 - (z - 1) div 400)"
    have "j - civil_day_number (z - 4800) 1 1 = e + 59 + L"
      by (subst J, subst j) (simp add: L_def algebra_simps)
    moreover have "0 \<le> L" "L \<le> 1" using leap_days[of z] unfolding L_def[symmetric] by auto
    ultimately show ?thesis unfolding y using e f(6) by simp
  next
    case False
    then have "m div 10 = 1" "306 \<le> (153 * m + 2) div 5" using f(5) by simp_all
    then have e: "306 \<le> e" "e \<le> 371" and y: "ymd_year (civil_date j) = z - 4799"
      using f(5,7,8,10) by (simp_all add: z_def)
    have "civil_day_number (z - 4799) 1 1 = 1 + 306 + z * 365 + z div 4 - z div 100 + z div 400 - 32045"
      unfolding civil_day_number_def Let_def a using f(1,2) by (simp add: sdiv_nonneg z_def)
    then show ?thesis unfolding y using j e by simp
  qed
qed

text \<open>The times of the day numbers from 0 up to the last one that does not overflow.\<close>

definition utc_range :: "int \<Rightarrow> bool" where
  "utc_range t \<longleftrightarrow> - 2440588 * 86400 \<le> t \<and> t < 534398280 * 86400"

lemma utc_range_day: "utc_range t \<Longrightarrow> - 2440588 \<le> t div 86400 \<and> t div 86400 \<le> 534398279"
  unfolding utc_range_def by linarith

lemma toUtcTime_gmtime:
  assumes "utc_range t"
  shows "toUtcTime t yday = (if yday then gmtime t else (gmtime t)\<lparr>tm_yday := 0\<rparr>)"
proof -
  define j where "j = t div 86400 + 2440588"
  have "\<bar>t\<bar> < 2 ^ 46" using assms by (simp add: utc_range_def abs_less_iff)
  note D = day_of_time[OF this]
  have j: "0 \<le> j" "j \<le> 536838867" using utc_range_day[OF assms] by (simp_all add: j_def)
  then have j': "- 32044 \<le> j" by simp
  note Y = civil_year_range[OF j' j(2)] and E = getYearMonthDay_exact[OF j' j(2)] and I = civil_date_inverse[OF j']
  have N: "getJulianDayNumber (ymd_year (civil_date j)) 1 1 = civil_day_number (ymd_year (civil_date j)) 1 1"
    by (rule getJulianDayNumber_exact) (use Y in simp_all)
  have w: "(j + 1) smod 7 = (t div 86400 + 4) mod 7"
  proof -
    have "(j + 1) smod 7 = (t div 86400 + 4 + 348655 * 7) mod 7"
      using j by (simp add: signed_modulo_int_def sdiv_nonneg minus_div_mult_eq_mod j_def)
    then show ?thesis by (simp only: mod_mult_self1)
  qed
  have c: "cast_int j = j" "cast_int (j + 1) = j + 1" "cast_int (ymd_year (civil_date j) - 1900) = ymd_year (civil_date j) - 1900"
    "cast_int (ymd_month (civil_date j) - 1) = ymd_month (civil_date j) - 1"
    "cast_int (j - civil_day_number (ymd_year (civil_date j)) 1 1) = j - civil_day_number (ymd_year (civil_date j)) 1 1"
    by (rule cast_int_id; use j Y I yday_range[OF j(1)] in force)+
  have h: "t mod 86400 div 60 div 60 = t mod 86400 div 3600" by (simp add: zdiv_zmult2_eq[symmetric])
  show ?thesis
    unfolding toUtcTime_def gmtime_def Let_def D kJulianDay prod.case j_def[symmetric] Date.simps c(1) yearMonthDay_def E
    by (simp add: fillHMS_def Let_def weekDay_def kDaysPerWeek_def Date_ymd_def N tm_zero_def w h c)
qed

lemma gmtime_ok:
  assumes "- 2440588 * 86400 \<le> t"
  shows "tm_ok (gmtime t)" "timegm (gmtime t) = t"
proof -
  define j where "j = t div 86400 + 2440588"
  have j: "0 \<le> j" using assms unfolding j_def by linarith
  then have "- 32044 \<le> j" by simp
  note inv = civil_date_inverse[OF this] and yd = yday_range[OF j]
  have secs: "0 \<le> t mod 86400" "t mod 86400 < 86400" by simp_all
  have h: "t mod 86400 div 3600 = t mod 86400 div 60 div 60" by (simp add: zdiv_zmult2_eq[symmetric])
  have "0 \<le> t mod 86400 div 3600" "t mod 86400 div 3600 < 24" using secs by linarith+
  then show "tm_ok (gmtime t)"
    using inv yd unfolding gmtime_def Let_def j_def[symmetric] by (simp add: tm_ok_def)
  have "timegm (gmtime t) = t div 86400 * 86400 + hms_seconds (t mod 86400 div 60 div 60)
      (t mod 86400 div 60 mod 60) (t mod 86400 mod 60)"
    using inv unfolding gmtime_def timegm_def Let_def j_def[symmetric] hms_seconds_def h by (simp add: j_def)
  then show "timegm (gmtime t) = t" unfolding hms_split by simp
qed

lemma gmtime_year:
  assumes "utc_range t"
  shows "- 6700 \<le> tm_year (gmtime t)" "tm_year (gmtime t) \<le> 1498100"
  using civil_year_range[of "t div 86400 + 2440588"] utc_range_day[OF assms] by (simp_all add: gmtime_def Let_def)

lemma fromUtcTime_timegm:
  assumes "tm_ok u" "- 6700 \<le> tm_year u" "tm_year u \<le> 1498100"
  shows "fromUtcTime u = timegm u"
proof -
  note ok = assms(1)[unfolded tm_ok_def]
  have c: "cast_int (tm_year u + 1900) = tm_year u + 1900" "cast_int (tm_mon u + 1) = tm_mon u + 1"
    "cast_int (tm_hour u * 3600 + tm_min u * 60 + tm_sec u) = tm_hour u * 3600 + tm_min u * 60 + tm_sec u"
    by (rule cast_int_id; use assms(2,3) ok in linarith)+
  define j where "j = civil_day_number (tm_year u + 1900) (tm_mon u + 1) (tm_mday u)"
  have J: "getJulianDayNumber (tm_year u + 1900) (tm_mon u + 1) (tm_mday u) = j" unfolding j_def
    by (rule getJulianDayNumber_exact) (use assms(2,3) ok in linarith)+
  have "cast_int (j - 2440588) = j - 2440588"
    by (rule cast_int_id) (use civil_day_range[of "tm_year u + 1900" "tm_mon u + 1" "tm_mday u"] assms(2,3) ok in \<open>simp_all add: j_def\<close>)
  then show ?thesis unfolding fromUtcTime_def c
    by (simp add: fromUtcTime_fields_def Let_def Date_ymd_def J c kJulianDay timegm_def j_def kSecondsPerDay_def)
qed

section \<open>The zone file\<close>

record Transition =
  gmttime :: int
  localtime :: int
  localtimeIdx :: nat

record Localtime =
  gmtOffset :: int
  isDst :: bool
  arrbIdx :: nat

record tz_data =
  tz_transitions :: "Transition list"
  tz_localtimes :: "Localtime list"
  tz_abbreviation :: string

definition tz_empty :: tz_data where
  "tz_empty = \<lparr>tz_transitions = [], tz_localtimes = [], tz_abbreviation = []\<rparr>"

text \<open>Reading from the file; \<open>None\<close> is the \<^verbatim>\<open>logic_error\<close> of a short read.\<close>

definition tz_readBytes :: "nat \<Rightarrow> string \<Rightarrow> (string \<times> string) option" where
  "tz_readBytes n f = (if n \<le> length f then Some (take n f, drop n f) else None)"

definition be32toh :: "string \<Rightarrow> int" where
  "be32toh bs = cast_int (foldl (\<lambda>v c. 256 * v + of_char c) 0 bs)"

definition tz_readInt32 :: "string \<Rightarrow> (int \<times> string) option" where
  "tz_readInt32 f = map_option (\<lambda>(bs, r). (be32toh bs, r)) (tz_readBytes 4 f)"

definition readUInt8 :: "string \<Rightarrow> (nat \<times> string) option" where
  "readUInt8 f = map_option (\<lambda>(bs, r). (of_char (hd bs), r)) (tz_readBytes 1 f)"

fun read_times :: "(string \<Rightarrow> ('a \<times> string) option) \<Rightarrow> nat \<Rightarrow> string \<Rightarrow> ('a list \<times> string) option" where
  "read_times rd 0 f = Some ([], f)"
| "read_times rd (Suc n) f = (case rd f of None \<Rightarrow> None | Some (x, f') \<Rightarrow>
     map_option (\<lambda>(xs, r). (x # xs, r)) (read_times rd n f'))"

text \<open>The header: magic, version, reserved bytes and the counts, of which three are used.\<close>

definition read_head :: "string \<Rightarrow> ((int \<times> int \<times> int) \<times> string) option" where
  "read_head f =
     Option.bind (tz_readBytes 4 f) (\<lambda>(head, f).
     if head \<noteq> ''TZif'' then None else
     Option.bind (tz_readBytes 1 f) (\<lambda>(version, f).
     Option.bind (tz_readBytes 15 f) (\<lambda>(_, f).
     Option.bind (tz_readInt32 f) (\<lambda>(isgmtcnt, f).
     Option.bind (tz_readInt32 f) (\<lambda>(isstdcnt, f).
     Option.bind (tz_readInt32 f) (\<lambda>(leapcnt, f).
     Option.bind (tz_readInt32 f) (\<lambda>(timecnt, f).
     Option.bind (tz_readInt32 f) (\<lambda>(typecnt, f).
     Option.bind (tz_readInt32 f) (\<lambda>(charcnt, f).
     Some ((timecnt, typecnt, charcnt), f))))))))))"

text \<open>The types of local time; those read before a short read stay in the data.\<close>

definition read_type :: "string \<Rightarrow> (Localtime \<times> string) option" where
  "read_type f =
     Option.bind (tz_readInt32 f) (\<lambda>(gmtoff, f).
     Option.bind (readUInt8 f) (\<lambda>(isdst, f).
     Option.bind (readUInt8 f) (\<lambda>(abbrind, f).
     Some (\<lparr>gmtOffset = gmtoff, isDst = (isdst \<noteq> 0), arrbIdx = abbrind\<rparr>, f))))"

fun read_types :: "nat \<Rightarrow> string \<Rightarrow> Localtime list \<times> string option" where
  "read_types 0 f = ([], Some f)"
| "read_types (Suc n) f = (case read_type f of None \<Rightarrow> ([], None) | Some (x, f') \<Rightarrow>
     (case read_types n f' of (xs, r) \<Rightarrow> (x # xs, r)))"

text \<open>The transitions. \<^verbatim>\<open>localtimes[localIdx]\<close> is not checked.\<close>

definition mk_transition :: "Localtime list \<Rightarrow> int \<times> nat \<Rightarrow> tz_data \<Rightarrow> tz_data result" where
  "mk_transition lts = (\<lambda>(t, localIdx) data.
     if localIdx < length lts
     then Inr (data\<lparr>tz_transitions := tz_transitions data @
            [\<lparr>gmttime = t, localtime = t + gmtOffset (lts ! localIdx), localtimeIdx = localIdx\<rparr>]\<rparr>)
     else Inl SegFault)"

text \<open>\<^verbatim>\<open>readTimeZoneFile\<close>: whatever is wrong with the file, the reader returns \<^verbatim>\<open>true\<close> and the data read so far.
  A negative number of transitions makes \<^verbatim>\<open>reserve\<close> throw \<^verbatim>\<open>length_error\<close>, which is a \<^verbatim>\<open>logic_error\<close>; a negative
  length of the abbreviations is an array of negative size on the stack.\<close>

definition readTimeZoneFile :: "string option \<Rightarrow> tz_data \<Rightarrow> (bool \<times> tz_data) result" where
  "readTimeZoneFile file data = (case file of None \<Rightarrow> Inr (True, data) | Some f \<Rightarrow>
     (case read_head f of None \<Rightarrow> Inr (True, data) | Some ((timecnt, typecnt, charcnt), f) \<Rightarrow>
     if timecnt < 0 then Inr (True, data) else
     (case read_times tz_readInt32 (nat timecnt) f of None \<Rightarrow> Inr (True, data) | Some (ts, f) \<Rightarrow>
     (case read_times readUInt8 (nat timecnt) f of None \<Rightarrow> Inr (True, data) | Some (idxs, f) \<Rightarrow>
     (case read_types (nat typecnt) f of (lts, r) \<Rightarrow>
      let data = data\<lparr>tz_localtimes := tz_localtimes data @ lts\<rparr>
      in (case r of None \<Rightarrow> Inr (True, data) | Some f \<Rightarrow>
         andThen (fold_result (mk_transition (tz_localtimes data)) (zip ts idxs) data) (\<lambda>data.
         if charcnt < 0 then Inl SegFault
         else (case tz_readBytes (nat charcnt) f of None \<Rightarrow> Inr (True, data)
               | Some (abbr, _) \<Rightarrow> Inr (True, data\<lparr>tz_abbreviation := abbr\<rparr>)))))))))"

section \<open>Local time\<close>

text \<open>\<^verbatim>\<open>Comp(gmt)\<close> compares by one of the two times of a transition.\<close>

definition comp_key :: "bool \<Rightarrow> Transition \<Rightarrow> int" where
  "comp_key gmt tr = (if gmt then gmttime tr else localtime tr)"

definition comp_less :: "bool \<Rightarrow> Transition \<Rightarrow> Transition \<Rightarrow> bool" where
  "comp_less gmt lhs rhs \<longleftrightarrow> comp_key gmt lhs < comp_key gmt rhs"

definition comp_equal :: "bool \<Rightarrow> Transition \<Rightarrow> Transition \<Rightarrow> bool" where
  "comp_equal gmt lhs rhs \<longleftrightarrow> comp_key gmt lhs = comp_key gmt rhs"

text \<open>\<^verbatim>\<open>std::lower_bound\<close> on a sorted range: the first element that is not less.\<close>

definition lower_bound :: "('a \<Rightarrow> 'a \<Rightarrow> bool) \<Rightarrow> 'a list \<Rightarrow> 'a \<Rightarrow> nat" where
  "lower_bound lt xs x = length (takeWhile (\<lambda>y. lt y x) xs)"

definition localtime_at :: "tz_data \<Rightarrow> nat \<Rightarrow> Localtime result" where
  "localtime_at data i = (if i < length (tz_localtimes data) then Inr (tz_localtimes data ! i) else Inl SegFault)"

definition findLocaltime :: "tz_data \<Rightarrow> Transition \<Rightarrow> bool \<Rightarrow> Localtime result" where
  "findLocaltime data sentry gmt =
     (let trs = tz_transitions data in
      if trs = [] \<or> comp_less gmt sentry (hd trs) then localtime_at data 0
      else let i = lower_bound (comp_less gmt) trs sentry in
        if i < length trs then
          if \<not> comp_equal gmt sentry (trs ! i)
          then andThen (check (i \<noteq> 0)) (\<lambda>_. localtime_at data (localtimeIdx (trs ! (i - 1))))
          else localtime_at data (localtimeIdx (trs ! i))
        else localtime_at data (localtimeIdx (last trs)))"

text \<open>A \<^verbatim>\<open>TimeZone\<close> is its data, or nothing when it is not valid.\<close>

definition TimeZone_file :: "string option \<Rightarrow> tz_data option result" where
  "TimeZone_file file = andThen (readTimeZoneFile file tz_empty) (\<lambda>(ok, data).
     Inr (if ok then Some data else None))"

definition TimeZone_fixed :: "int \<Rightarrow> string \<Rightarrow> tz_data option" where
  "TimeZone_fixed eastOfUtc name = Some (tz_empty\<lparr>tz_localtimes := [\<lparr>gmtOffset = eastOfUtc, isDst = False,
     arrbIdx = 0\<rparr>], tz_abbreviation := name\<rparr>)"

definition timezone_valid :: "tz_data option \<Rightarrow> bool" where
  "timezone_valid z \<longleftrightarrow> z \<noteq> None"

definition toLocalTime :: "tz_data option \<Rightarrow> int \<Rightarrow> tm result" where
  "toLocalTime z seconds = (case z of None \<Rightarrow> Inl AssertFailed | Some data \<Rightarrow>
     andThen (findLocaltime data \<lparr>gmttime = seconds, localtime = 0, localtimeIdx = 0\<rparr> True) (\<lambda>local.
     let localSeconds = seconds + gmtOffset local
     in Inr ((gmtime localSeconds)\<lparr>tm_isdst := isDst local, tm_gmtoff := gmtOffset local,
               tm_zone := c_str (drop (arrbIdx local) (tz_abbreviation data))\<rparr>)))"

definition fromLocalTime :: "tz_data option \<Rightarrow> tm \<Rightarrow> int result" where
  "fromLocalTime z localTm = (case z of None \<Rightarrow> Inl AssertFailed | Some data \<Rightarrow>
     (let seconds = timegm localTm in
      andThen (findLocaltime data \<lparr>gmttime = 0, localtime = seconds, localtimeIdx = 0\<rparr> False) (\<lambda>local.
      if tm_isdst localTm then
        andThen (toLocalTime z (seconds - gmtOffset local)) (\<lambda>tryTm.
        let seconds = (if \<not> tm_isdst tryTm \<and> tm_hour tryTm = tm_hour localTm \<and> tm_min tryTm = tm_min localTm
                       then seconds - 3600 else seconds)
        in Inr (seconds - gmtOffset local))
      else Inr (seconds - gmtOffset local))))"

text \<open>The specification: the type in force is that of the last transition that is not later.\<close>

definition type_at :: "tz_data \<Rightarrow> (Transition \<Rightarrow> int) \<Rightarrow> int \<Rightarrow> nat" where
  "type_at data key t =
     (let past = filter (\<lambda>tr. key tr \<le> t) (tz_transitions data)
      in if past = [] then 0 else localtimeIdx (last past))"

definition tz_wf :: "tz_data \<Rightarrow> bool" where
  "tz_wf data \<longleftrightarrow> tz_localtimes data \<noteq> [] \<and>
     sorted_wrt (<) (map gmttime (tz_transitions data)) \<and> sorted_wrt (<) (map localtime (tz_transitions data)) \<and>
     (\<forall>tr \<in> set (tz_transitions data). localtimeIdx tr < length (tz_localtimes data) \<and>
        localtime tr = gmttime tr + gmtOffset (tz_localtimes data ! localtimeIdx tr))"

lemma past_eq_take:
  assumes "sorted_wrt (<) (map key trs)"
  shows "filter (\<lambda>tr. key tr \<le> (x :: int)) trs =
    (let i = length (takeWhile (\<lambda>y. key y < x) trs)
     in take (if i < length trs \<and> key (trs ! i) = x then Suc i else i) trs)"
  using assms
proof (induction trs)
  case (Cons tr trs)
  show ?case
  proof (cases "key tr < x")
    case True
    then show ?thesis using Cons by (simp add: Let_def)
  next
    case False
    then have "filter (\<lambda>tr. key tr \<le> x) trs = []" using Cons.prems by (auto simp: filter_empty_conv)
    then show ?thesis using False by simp
  qed
qed simp

lemma comp_key_eq [simp]: "comp_key True = gmttime" "comp_key False = localtime"
  by (simp_all add: comp_key_def fun_eq_iff)

lemma findLocaltime_type_at:
  assumes "tz_wf data"
  shows "findLocaltime data sentry gmt = Inr (tz_localtimes data ! type_at data (comp_key gmt) (comp_key gmt sentry))"
    and "type_at data (comp_key gmt) x < length (tz_localtimes data)"
proof -
  let ?k = "comp_key gmt" and ?trs = "tz_transitions data"
  have s: "sorted_wrt (<) (map ?k ?trs)" using assms by (cases gmt) (simp_all add: tz_wf_def)
  have in_range: "localtime_at data (localtimeIdx tr) = Inr (tz_localtimes data ! localtimeIdx tr)" if "tr \<in> set ?trs" for tr
    using assms that by (simp add: tz_wf_def localtime_at_def)
  have first: "localtime_at data 0 = Inr (tz_localtimes data ! 0)" using assms by (simp add: tz_wf_def localtime_at_def)
  show "type_at data ?k x < length (tz_localtimes data)"
    using assms last_in_set[of "filter (\<lambda>tr. ?k tr \<le> x) ?trs"] by (auto simp: type_at_def Let_def tz_wf_def)
  define i where "i = lower_bound (comp_less gmt) ?trs sentry"
  have i: "i = length (takeWhile (\<lambda>y. ?k y < ?k sentry) ?trs)" by (simp add: i_def lower_bound_def comp_less_def)
  note past = past_eq_take[OF s, of "?k sentry", folded i, unfolded Let_def]
  have le: "i \<le> length ?trs" unfolding i by (rule length_takeWhile_le)
  have before: "i < length ?trs \<Longrightarrow> \<not> ?k (?trs ! i) < ?k sentry" unfolding i by (rule nth_length_takeWhile)
  show "findLocaltime data sentry gmt = Inr (tz_localtimes data ! type_at data ?k (?k sentry))"
  proof (cases "?trs = [] \<or> comp_less gmt sentry (hd ?trs)")
    case True
    then have "i = 0" "i < length ?trs \<longrightarrow> ?k (?trs ! i) \<noteq> ?k sentry"
      unfolding i by (cases ?trs; auto simp: comp_less_def)+
    then show ?thesis using True past first by (auto simp: findLocaltime_def type_at_def Let_def)
  next
    case False
    then have ne: "?trs \<noteq> []" and hd: "?k (hd ?trs) \<le> ?k sentry" by (auto simp: comp_less_def)
    show ?thesis
    proof (cases "i < length ?trs \<and> ?k (?trs ! i) = ?k sentry")
      case True
      then have "take (Suc i) ?trs \<noteq> []" "last (take (Suc i) ?trs) = ?trs ! i" by (auto simp: take_Suc_conv_app_nth)
      then have "type_at data ?k (?k sentry) = localtimeIdx (?trs ! i)"
        using True unfolding type_at_def Let_def past by simp
      then show ?thesis using True \<open>\<not> (?trs = [] \<or> comp_less gmt sentry (hd ?trs))\<close> in_range[of "?trs ! i"]
        unfolding findLocaltime_def Let_def i_def[symmetric] by (simp add: comp_equal_def)
    next
      case neq: False
      have i0: "i \<noteq> 0"
      proof
        assume "i = 0"
        with before ne hd neq show False by (auto simp: hd_conv_nth)
      qed
      have tne: "take i ?trs \<noteq> []" using i0 ne by simp
      have "last (take i ?trs) = ?trs ! (i - 1)"
        unfolding last_conv_nth[OF tne] using i0 le by (simp add: min_def)
      then have ty: "type_at data ?k (?k sentry) = localtimeIdx (?trs ! (i - 1))"
      proof -
        have "filter (\<lambda>tr. ?k tr \<le> ?k sentry) ?trs = take i ?trs" using past by (simp only: neq if_False)
        then show ?thesis using tne \<open>last (take i ?trs) = ?trs ! (i - 1)\<close> by (simp add: type_at_def Let_def)
      qed
      have "?trs ! (i - 1) \<in> set ?trs" using i0 le by simp
      from in_range[OF this] show ?thesis
        using \<open>\<not> (?trs = [] \<or> comp_less gmt sentry (hd ?trs))\<close> neq i0 le ty
        unfolding findLocaltime_def Let_def i_def[symmetric]
        by (cases "i = length ?trs") (auto simp: comp_equal_def last_conv_nth)
    qed
  qed
qed

definition offset_at :: "tz_data \<Rightarrow> int \<Rightarrow> int" where
  "offset_at data t = gmtOffset (tz_localtimes data ! type_at data gmttime t)"

definition dst_at :: "tz_data \<Rightarrow> int \<Rightarrow> bool" where
  "dst_at data t = isDst (tz_localtimes data ! type_at data gmttime t)"

lemma toLocalTime_at:
  assumes "tz_wf data"
  obtains zone where "toLocalTime (Some data) t = Inr ((gmtime (t + offset_at data t))\<lparr>tm_isdst := dst_at data t,
    tm_gmtoff := offset_at data t, tm_zone := zone\<rparr>)"
  using findLocaltime_type_at(1)[OF assms] by (simp add: toLocalTime_def offset_at_def dst_at_def Let_def)

lemma timegm_fields [simp]: "timegm (x\<lparr>tm_isdst := d, tm_gmtoff := off, tm_zone := zone\<rparr>) = timegm x"
  by (simp add: timegm_def)

text \<open>The times the local clock shows once, and the repeated hour at the end of daylight saving time.\<close>

definition shown_once :: "tz_data \<Rightarrow> int \<Rightarrow> bool" where
  "shown_once data t \<longleftrightarrow> (\<forall>tr \<in> set (tz_transitions data). gmttime tr \<le> t \<longleftrightarrow> localtime tr \<le> t + offset_at data t)"

definition repeated_hour :: "tz_data \<Rightarrow> int \<Rightarrow> bool" where
  "repeated_hour data t \<longleftrightarrow> dst_at data t \<and> \<not> dst_at data (t + 3600) \<and>
     offset_at data t = offset_at data (t + 3600) + 3600 \<and>
     (\<forall>tr \<in> set (tz_transitions data). gmttime tr \<le> t + 3600 \<longleftrightarrow> localtime tr \<le> t + offset_at data t)"

lemma type_at_local:
  assumes "\<forall>tr \<in> set (tz_transitions data). gmttime tr \<le> u \<longleftrightarrow> localtime tr \<le> s"
  shows "type_at data localtime s = type_at data gmttime u"
proof -
  have "filter (\<lambda>tr. localtime tr \<le> s) (tz_transitions data) = filter (\<lambda>tr. gmttime tr \<le> u) (tz_transitions data)"
    by (rule filter_cong) (use assms in auto)
  then show ?thesis by (simp add: type_at_def)
qed

lemma fromLocalTime_at:
  assumes wf: "tz_wf data" and t: "- 2440588 * 86400 \<le> t + offset_at data t"
    and ok: "shown_once data t \<or> repeated_hour data t"
    and loc: "toLocalTime (Some data) t = Inr l"
  shows "fromLocalTime (Some data) l = Inr t"
proof -
  obtain zone where l: "l = (gmtime (t + offset_at data t))\<lparr>tm_isdst := dst_at data t,
      tm_gmtoff := offset_at data t, tm_zone := zone\<rparr>"
    using toLocalTime_at[OF wf, of t] loc by (metis sum.inject(2))
  have secs: "timegm l = t + offset_at data t" unfolding l using gmtime_ok(2)[OF t] by simp
  have dst: "tm_isdst l = dst_at data t" by (simp add: l)
  define u where "u = (if shown_once data t then t else t + 3600)"
  have "type_at data localtime (t + offset_at data t) = type_at data gmttime u"
    by (rule type_at_local) (use ok in \<open>auto simp: u_def shown_once_def repeated_hour_def\<close>)
  then have found: "findLocaltime data \<lparr>gmttime = 0, localtime = t + offset_at data t, localtimeIdx = 0\<rparr> False =
      Inr (tz_localtimes data ! type_at data gmttime u)"
    using findLocaltime_type_at(1)[OF wf, of _ False] by simp
  have off: "t + offset_at data t - offset_at data u = u"
    using ok by (auto simp: u_def repeated_hour_def)
  obtain zone' where again: "toLocalTime (Some data) u = Inr ((gmtime (u + offset_at data u))\<lparr>tm_isdst := dst_at data u,
      tm_gmtoff := offset_at data u, tm_zone := zone'\<rparr>)"
    using toLocalTime_at[OF wf] by metis
  have same: "u + offset_at data u = t + offset_at data t" using off by simp
  show ?thesis
    unfolding fromLocalTime_def option.case Let_def secs found andThen_simps dst offset_at_def[symmetric] off again
    using ok by (auto simp: u_def l same repeated_hour_def ac_simps split: if_splits)
qed

section \<open>Zone files\<close>

text \<open>The version 1 block of a zone file, as its format is documented: big-endian counts and times.\<close>

definition be32 :: "int \<Rightarrow> string" where
  "be32 v = (let u = nat (v mod 2 ^ 32)
     in map char_of [u div 2 ^ 24, u div 2 ^ 16 mod 256, u div 2 ^ 8 mod 256, u mod 256 :: nat])"

definition type_bytes :: "Localtime \<Rightarrow> string" where
  "type_bytes lt = be32 (gmtOffset lt) @ [char_of (if isDst lt then 1 else 0 :: nat), char_of (arrbIdx lt)]"

definition tzif_file :: "char \<Rightarrow> int \<Rightarrow> int \<Rightarrow> int \<Rightarrow> (int \<times> nat) list \<Rightarrow> Localtime list \<Rightarrow> string \<Rightarrow> string \<Rightarrow> string" where
  "tzif_file version isgmtcnt isstdcnt leapcnt trs types abbr rest =
     ''TZif'' @ [version] @ replicate 15 NUL @ be32 isgmtcnt @ be32 isstdcnt @ be32 leapcnt @
     be32 (int (length trs)) @ be32 (int (length types)) @ be32 (int (length abbr)) @
     concat (map (be32 \<circ> fst) trs) @ map (char_of \<circ> snd) trs @ concat (map type_bytes types) @ abbr @ rest"

definition int32_range :: "int \<Rightarrow> bool" where
  "int32_range v \<longleftrightarrow> - 2147483648 \<le> v \<and> v < 2147483648"

definition zone_of :: "(int \<times> nat) list \<Rightarrow> Localtime list \<Rightarrow> string \<Rightarrow> tz_data" where
  "zone_of trs types abbr = \<lparr>tz_transitions = map (\<lambda>(t, i). \<lparr>gmttime = t, localtime = t + gmtOffset (types ! i),
     localtimeIdx = i\<rparr>) trs, tz_localtimes = types, tz_abbreviation = abbr\<rparr>"

lemma base256_4: "256 * (256 * (256 * (u div 2 ^ 24) + u div 2 ^ 16 mod 256) + u div 2 ^ 8 mod 256) + u mod 256 = (u :: nat)"
proof -
  have "u div 2 ^ 16 = u div 2 ^ 8 div 256" "u div 2 ^ 24 = u div 2 ^ 16 div 256" "u div 2 ^ 8 = u div 256"
    by (simp_all flip: div_mult2_eq)
  then show ?thesis using mult_div_mod_eq[of 256 u] mult_div_mod_eq[of 256 "u div 2 ^ 8"] mult_div_mod_eq[of 256 "u div 2 ^ 16"]
    by presburger
qed

lemma of_char_int: "(of_char (char_of (n :: nat)) :: int) = int (n mod 256)"
  by (metis of_char_of of_nat_of_char)

lemma be32toh_be32: "int32_range v \<Longrightarrow> be32toh (be32 v) = v"
proof -
  assume v: "int32_range v"
  define u where "u = nat (v mod 2 ^ 32)"
  have u: "u < 2 ^ 32" "int u = v mod 2 ^ 32" by (simp_all add: u_def nat_less_iff)
  have "u div 2 ^ 24 < 256" using u(1) by (simp add: less_mult_imp_div_less)
  then have "foldl (\<lambda>v c. 256 * v + of_char c) 0 (be32 v) =
      int (256 * (256 * (256 * (u div 2 ^ 24) + u div 2 ^ 16 mod 256) + u div 2 ^ 8 mod 256) + u mod 256)"
    unfolding be32_def Let_def u_def[symmetric] by (simp add: of_char_int)
  then have "be32toh (be32 v) = cast_int (v mod 2 ^ 32)" unfolding be32toh_def base256_4 u(2) by simp
  also have "\<dots> = v" using v by (simp add: cast_int_def int32_range_def mod_add_left_eq)
  finally show ?thesis .
qed

lemma length_be32 [simp]: "length (be32 v) = 4"
  by (simp add: be32_def Let_def)

lemma tz_readBytes_append: "length s = n \<Longrightarrow> tz_readBytes n (s @ r) = Some (s, r)"
  by (simp add: tz_readBytes_def)

lemma tz_readInt32_be32: "int32_range v \<Longrightarrow> tz_readInt32 (be32 v @ r) = Some (v, r)"
  by (simp add: tz_readInt32_def tz_readBytes_append be32toh_be32)

lemma tz_readInt32_any: "\<exists>x. tz_readInt32 (be32 v @ r) = Some (x, r)"
  by (simp add: tz_readInt32_def tz_readBytes_append)

lemma readUInt8_char: "n < 256 \<Longrightarrow> readUInt8 (char_of n # r) = Some (n, r)"
  using tz_readBytes_append[of "[char_of n]" 1 r] by (simp add: readUInt8_def)

lemma read_times_concat:
  "(\<And>x r. x \<in> set xs \<Longrightarrow> rd (enc x @ r) = Some (f x, r)) \<Longrightarrow>
    read_times rd (length xs) (concat (map enc xs) @ r) = Some (map f xs, r)"
  by (induction xs) simp_all

lemma read_types_concat:
  "(\<And>x r. x \<in> set xs \<Longrightarrow> read_type (enc x @ r) = Some (x, r)) \<Longrightarrow>
    read_types (length xs) (concat (map enc xs) @ r) = (xs, Some r)"
  by (induction xs) simp_all

lemma read_type_bytes:
  "int32_range (gmtOffset lt) \<Longrightarrow> arrbIdx lt < 256 \<Longrightarrow> read_type (type_bytes lt @ r) = Some (lt, r)"
  by (simp add: read_type_def type_bytes_def tz_readInt32_be32 readUInt8_char)

lemma read_head_file:
  assumes "length ts < 2 ^ 31" "length types < 2 ^ 31" "length abbr < 2 ^ 31"
  shows "read_head (''TZif'' @ [version] @ replicate 15 NUL @ be32 a @ be32 b @ be32 c @ be32 (int (length ts)) @
    be32 (int (length types)) @ be32 (int (length abbr)) @ r) =
      Some ((int (length ts), int (length types), int (length abbr)), r)"
proof -
  have R: "int32_range (int (length ts))" "int32_range (int (length types))" "int32_range (int (length abbr))"
    using assms by (simp_all add: int32_range_def)
  have M: "\<And>r. tz_readBytes 4 (''TZif'' @ r) = Some (''TZif'', r)" "\<And>r. tz_readBytes 1 ([version] @ r) = Some ([version], r)"
    "\<And>r. tz_readBytes 15 (replicate 15 NUL @ r) = Some (replicate 15 NUL, r)"
    by (rule tz_readBytes_append; simp)+
  obtain a' b' c' where A: "\<And>r. tz_readInt32 (be32 a @ r) = Some (a', r)" "\<And>r. tz_readInt32 (be32 b @ r) = Some (b', r)"
    "\<And>r. tz_readInt32 (be32 c @ r) = Some (c', r)"
    by (simp add: tz_readInt32_def tz_readBytes_append)
  show ?thesis
    unfolding read_head_def M(1) by (simp only: M A R[THEN tz_readInt32_be32] Option.bind.simps prod.case if_False simp_thms)
qed

lemma fold_transitions:
  assumes "\<forall>(t, i) \<in> set trs. i < length types"
  shows "fold_result (mk_transition types) trs data = Inr (data\<lparr>tz_transitions := tz_transitions data @
    map (\<lambda>(t, i). \<lparr>gmttime = t, localtime = t + gmtOffset (types ! i), localtimeIdx = i\<rparr>) trs\<rparr>)"
  using assms by (induction trs arbitrary: data) (auto simp: mk_transition_def)

lemma zone_file_read:
  assumes "length trs < 2 ^ 31" "length types < 2 ^ 31" "length abbr < 2 ^ 31"
    and trs: "\<forall>(t, i) \<in> set trs. int32_range t \<and> i < length types \<and> i < 256"
    and types: "\<forall>lt \<in> set types. int32_range (gmtOffset lt) \<and> arrbIdx lt < 256"
  shows "TimeZone_file (Some (tzif_file version a b c trs types abbr rest)) = Inr (Some (zone_of trs types abbr))"
proof -
  have T: "read_times tz_readInt32 (length trs) (concat (map (be32 \<circ> fst) trs) @ r) = Some (map fst trs, r)" for r
    by (rule read_times_concat) (use trs in \<open>auto simp: tz_readInt32_be32\<close>)
  have c: "map (char_of \<circ> snd) trs = concat (map (\<lambda>x. [char_of (snd x)]) trs)" by (induction trs) simp_all
  have I: "read_times readUInt8 (length trs) (map (char_of \<circ> snd) trs @ r) = Some (map snd trs, r)" for r
    unfolding c by (rule read_times_concat) (use trs in \<open>auto simp: readUInt8_char\<close>)
  have L: "read_types (length types) (concat (map type_bytes types) @ r) = (types, Some r)" for r
    by (rule read_types_concat) (use types in \<open>auto simp: read_type_bytes\<close>)
  have E: "tz_localtimes tz_empty = []" by (simp add: tz_empty_def)
  have F: "fold_result (mk_transition types) trs (tz_empty\<lparr>tz_localtimes := types\<rparr>) =
      Inr ((zone_of trs types abbr)\<lparr>tz_abbreviation := []\<rparr>)"
    using trs by (subst fold_transitions) (auto simp: tz_empty_def zone_of_def)
  have "readTimeZoneFile (Some (tzif_file version a b c trs types abbr rest)) tz_empty = Inr (True, zone_of trs types abbr)"
    unfolding readTimeZoneFile_def tzif_file_def option.case read_head_file[OF assms(1-3)]
    by (simp add: T I L E F zip_map_fst_snd tz_readBytes_append Let_def) (simp add: zone_of_def)
  then show ?thesis by (simp add: TimeZone_file_def)
qed

text \<open>A file that cannot be opened, or is cut off, gives a valid zone without any local time.\<close>

lemma missing_zone_file_crashes:
  "TimeZone_file None = Inr (Some tz_empty)" "timezone_valid (Some tz_empty)"
  "toLocalTime (Some tz_empty) t = Inl SegFault"
  by (simp_all add: TimeZone_file_def readTimeZoneFile_def timezone_valid_def toLocalTime_def findLocaltime_def
      localtime_at_def tz_empty_def)

section \<open>Timestamps\<close>

definition timestamp_seconds :: "int \<Rightarrow> int" where
  "timestamp_seconds us = us sdiv 1000000"

definition fromUnixTime :: "int \<Rightarrow> int \<Rightarrow> int" where
  "fromUnixTime t microseconds = t * 1000000 + microseconds"

definition timestamp_toString :: "int \<Rightarrow> string" where
  "timestamp_toString us = snprintf 31 (dec_int (us sdiv 1000000) @ ''.'' @ pad_zero 6 (us smod 1000000))"

definition format_tm :: "tm \<Rightarrow> string" where
  "format_tm t = pad_blank 4 (tm_year t + 1900) @ pad_zero 2 (tm_mon t + 1) @ pad_zero 2 (tm_mday t) @ '' '' @
     pad_zero 2 (tm_hour t) @ '':'' @ pad_zero 2 (tm_min t) @ '':'' @ pad_zero 2 (tm_sec t)"

definition toFormattedString :: "int \<Rightarrow> bool \<Rightarrow> string" where
  "toFormattedString us showMicroseconds =
     (let t = gmtime (us sdiv 1000000)
      in snprintf 64 (if showMicroseconds then format_tm t @ ''.'' @ pad_zero 6 (us smod 1000000) else format_tm t))"

section \<open>Properties\<close>



text \<open>For the day number after the range the 32-bit arithmetic, here wrapping, gives no month.\<close>

lemma utc_time_overflows: "ymd_month (getYearMonthDay 536838868) = -1403577"
  by code_simp


text \<open>A zone with standard time, an hour of daylight saving and standard time again; the time is in the
  repeated hour.\<close>

definition demo_types :: "Localtime list" where
  "demo_types = [\<lparr>gmtOffset = 3600, isDst = False, arrbIdx = 0\<rparr>, \<lparr>gmtOffset = 7200, isDst = True, arrbIdx = 4\<rparr>]"

definition demo_trs :: "(int \<times> nat) list" where
  "demo_trs = [(1000000, 1), (2000000, 0)]"

lemma demo_zone:
  "zone_of demo_trs demo_types ''abc'' = \<lparr>tz_transitions = [
     \<lparr>gmttime = 1000000, localtime = 1007200, localtimeIdx = 1\<rparr>, \<lparr>gmttime = 2000000, localtime = 2003600, localtimeIdx = 0\<rparr>],
     tz_localtimes = demo_types, tz_abbreviation = ''abc''\<rparr>"
  by (simp add: zone_of_def demo_trs_def demo_types_def)

lemma demo_zone_ok:
  "tz_wf (zone_of demo_trs demo_types ''abc'')" "offset_at (zone_of demo_trs demo_types ''abc'') 1999000 = 7200"
  "repeated_hour (zone_of demo_trs demo_types ''abc'') 1999000"
  unfolding demo_zone by (simp_all add: tz_wf_def demo_types_def offset_at_def type_at_def repeated_hour_def dst_at_def)


end
