(* ===== verification/Base_AsyncLogging.thy ===== *)
theory Base_AsyncLogging
  imports Log_Stream File_Util Base_TimeZone
begin

text \<open>
  \<^verbatim>\<open>base/AsyncLogging.{h,cc}\<close> and \<^verbatim>\<open>base/LogFile.{h,cc}\<close>: the buffers between the threads that log and the one
  that writes, and the file it writes to, which is changed for another when it is large or the day is over.

  The logging threads and the writing thread interleave at the granularity of the lock. The clock, the host
  name, the process number and the results of \<^verbatim>\<open>pthread_create\<close>, \<^verbatim>\<open>fopen\<close> and \<^verbatim>\<open>fwrite\<close> are parameters.
\<close>

section \<open>The buffers\<close>

text \<open>What the writing thread appended to its file, what it threw away, and the note it leaves about that.\<close>

datatype log_chunk = Written string | Dropped string | DropNote string

text \<open>Where the writing thread is; at each point, the spare buffers and the ones taken for writing.\<close>

datatype writer_point =
    NotStarted
  | WCreated      \<comment> \<open>created, at the assertion before the latch\<close>
  | WTest FixedBuffer FixedBuffer
  | WTop FixedBuffer FixedBuffer
  | WWrite "FixedBuffer list" "FixedBuffer option" "FixedBuffer option"
  | WEnded

record async_logging =
  al_SIZE :: nat
  al_running :: bool
  al_started :: bool          \<comment> \<open>the two flags of \<^verbatim>\<open>thread_\<close>\<close>
  al_joined :: bool
  al_currentBuffer :: FixedBuffer
  al_nextBuffer :: "FixedBuffer option"
  al_buffers :: "FixedBuffer list"
  al_point :: writer_point
  al_out :: "log_chunk list"
  al_lines :: "string list"   \<comment> \<open>every line appended\<close>

definition AsyncLogging_ctor :: "nat \<Rightarrow> async_logging" where
  "AsyncLogging_ctor n = \<lparr>al_SIZE = n, al_running = False, al_started = False, al_joined = False, al_currentBuffer = FixedBuffer_ctor n,
     al_nextBuffer = Some (FixedBuffer_ctor n), al_buffers = [], al_point = NotStarted, al_out = [], al_lines = []\<rparr>"

definition async_append :: "string \<Rightarrow> async_logging \<Rightarrow> async_logging" where
  "async_append logline s =
     (let s = s\<lparr>al_lines := al_lines s @ [logline]\<rparr>
      in if length logline < avail (al_currentBuffer s)
         then s\<lparr>al_currentBuffer := fb_append logline (al_currentBuffer s)\<rparr>
         else let fresh = (case al_nextBuffer s of Some b \<Rightarrow> b | None \<Rightarrow> FixedBuffer_ctor (al_SIZE s))
              in s\<lparr>al_buffers := al_buffers s @ [al_currentBuffer s], al_nextBuffer := None,
                   al_currentBuffer := fb_append logline fresh\<rparr>)"

text \<open>\<^verbatim>\<open>start\<close> and \<^verbatim>\<open>stop\<close> with the assertions of \<^verbatim>\<open>Thread::start\<close> and \<^verbatim>\<open>Thread::join\<close>; \<open>created\<close> is whether
  \<^verbatim>\<open>pthread_create\<close> succeeds. What they do when the assertions hold has a name of its own.\<close>

definition async_started :: "async_logging \<Rightarrow> async_logging" where
  "async_started s = s\<lparr>al_running := True, al_started := True, al_point := WCreated\<rparr>"

definition async_start :: "bool \<Rightarrow> async_logging \<Rightarrow> async_logging result" where
  "async_start created s = andThen (check (\<not> al_started s)) (\<lambda>_.
     if created then Inr (async_started s) else Inl LogFatal)"

definition async_stopped :: "async_logging \<Rightarrow> async_logging" where
  "async_stopped s = s\<lparr>al_running := False, al_joined := True\<rparr>"

definition async_stop :: "async_logging \<Rightarrow> async_logging result" where
  "async_stop s = andThen (check (al_started s)) (\<lambda>_. andThen (check (\<not> al_joined s)) (\<lambda>_. Inr (async_stopped s)))"

text \<open>\<^verbatim>\<open>threadFunc\<close> up to its loop; \<open>opened\<close> is whether the assertions of \<^verbatim>\<open>LogFile\<close> and \<^verbatim>\<open>AppendFile\<close> hold, which is that the
  name has no slash and the file can be opened.\<close>

definition writer_begin :: "bool \<Rightarrow> async_logging \<Rightarrow> async_logging result" where
  "writer_begin opened s =
     andThen (check (al_running s)) (\<lambda>_. andThen (check opened) (\<lambda>_.
     Inr (s\<lparr>al_point := WTest (FixedBuffer_ctor (al_SIZE s)) (FixedBuffer_ctor (al_SIZE s))\<rparr>)))"

text \<open>\<^verbatim>\<open>threadFunc\<close>: the loop test with the assertions after it, the part under the lock, and the writing.\<close>

definition writer_test :: "FixedBuffer \<Rightarrow> FixedBuffer \<Rightarrow> async_logging \<Rightarrow> async_logging result" where
  "writer_test nb1 nb2 s =
     (if al_running s
      then andThen (check (fb_length nb1 = 0)) (\<lambda>_. andThen (check (fb_length nb2 = 0)) (\<lambda>_.
           Inr (s\<lparr>al_point := WTop nb1 nb2\<rparr>)))
      else Inr (s\<lparr>al_point := WEnded\<rparr>))"

definition writer_swap :: "FixedBuffer \<Rightarrow> FixedBuffer \<Rightarrow> async_logging \<Rightarrow> async_logging" where
  "writer_swap nb1 nb2 s =
     (let buffersToWrite = al_buffers s @ [al_currentBuffer s];
          s = s\<lparr>al_currentBuffer := nb1, al_buffers := []\<rparr>
      in if al_nextBuffer s = None
         then s\<lparr>al_nextBuffer := Some nb2, al_point := WWrite buffersToWrite None None\<rparr>
         else s\<lparr>al_point := WWrite buffersToWrite None (Some nb2)\<rparr>)"

definition drop_note :: "int \<Rightarrow> nat \<Rightarrow> string" where
  "drop_note now n = snprintf 256 (''Dropped log messages at '' @ c_str (toFormattedString now True) @ '', '' @
     dec_nat (n - 2) @ '' larger buffers'' @ [LF])"

definition contents :: "FixedBuffer list \<Rightarrow> string" where
  "contents bs = concat (map fb_data bs)"

text \<open>A buffer taken back from the written ones, if it is needed.\<close>

definition reuse :: "FixedBuffer option \<Rightarrow> FixedBuffer list \<Rightarrow> (FixedBuffer \<times> FixedBuffer list) result" where
  "reuse nb bs = (case nb of Some b \<Rightarrow> Inr (b, bs)
   | None \<Rightarrow> andThen (check (bs \<noteq> [])) (\<lambda>_. Inr (fb_reset (last bs), butlast bs)))"

text \<open>Writing may change the file; \<open>opened\<close> is whether each new one can be opened.\<close>

definition writer_write :: "bool \<Rightarrow> int \<Rightarrow> FixedBuffer list \<Rightarrow> FixedBuffer option \<Rightarrow> FixedBuffer option \<Rightarrow>
    async_logging \<Rightarrow> async_logging result" where
  "writer_write opened now bs nb1 nb2 s =
     andThen (check (bs \<noteq> [])) (\<lambda>_. andThen (check opened) (\<lambda>_.
     let (note, kept, lost) = (if 25 < length bs
           then ([DropNote (drop_note now (length bs))], take 2 bs, [Dropped (contents (drop 2 bs))])
           else ([], bs, []));
         out = al_out s @ note @ map (\<lambda>b. Written (fb_data b)) kept @ lost
     in andThen (reuse nb1 (take 2 kept)) (\<lambda>(nb1, kept).
        andThen (reuse nb2 kept) (\<lambda>(nb2, kept).
        Inr (s\<lparr>al_out := out, al_point := WTest nb1 nb2\<rparr>)))))"

section \<open>Steps\<close>

text \<open>Any thread may log, start and stop at any time; a line fits into an empty buffer. A step of the writing thread carries whether
  the files it opens can be opened.\<close>

datatype al_label = DoLog | DoStart bool | DoStop | DoWriter bool

inductive al_step :: "async_logging \<Rightarrow> al_label \<Rightarrow> async_logging result \<Rightarrow> bool" where
  log: "length line < al_SIZE s \<Longrightarrow> al_step s DoLog (Inr (async_append line s))"
| start: "al_step s (DoStart created) (async_start created s)"
| stop: "al_step s DoStop (async_stop s)"
| first: "al_point s = WCreated \<Longrightarrow> al_step s (DoWriter opened) (writer_begin opened s)"
| test: "al_point s = WTest nb1 nb2 \<Longrightarrow> al_step s (DoWriter True) (writer_test nb1 nb2 s)"
| swap: "al_point s = WTop nb1 nb2 \<Longrightarrow> al_step s (DoWriter True) (Inr (writer_swap nb1 nb2 s))"
| written: "al_point s = WWrite bs nb1 nb2 \<Longrightarrow> al_step s (DoWriter opened) (writer_write opened now bs nb1 nb2 s)"

text \<open>The ways it can end the process.\<close>

definition al_abort :: "async_logging \<Rightarrow> al_label \<Rightarrow> fault \<Rightarrow> bool" where
  "al_abort s l e = (case l of
     DoLog \<Rightarrow> False
   | DoStart created \<Rightarrow> al_started s \<and> e = AssertFailed \<or> \<not> al_started s \<and> \<not> created \<and> e = LogFatal
   | DoStop \<Rightarrow> (\<not> al_started s \<or> al_joined s) \<and> e = AssertFailed
   | DoWriter opened \<Rightarrow> (\<not> opened \<or> al_point s = WCreated \<and> \<not> al_running s) \<and> e = AssertFailed)"

inductive al_reach :: "nat \<Rightarrow> async_logging \<Rightarrow> bool" for n where
  ctor: "al_reach n (AsyncLogging_ctor n)"
| step: "al_reach n s \<Longrightarrow> al_step s l (Inr s') \<Longrightarrow> al_reach n s'"

section \<open>Invariant\<close>

definition chunk_text :: "log_chunk \<Rightarrow> string" where
  "chunk_text c = (case c of Written t \<Rightarrow> t | Dropped t \<Rightarrow> t | DropNote _ \<Rightarrow> [])"

text \<open>Whatever was dropped has its note, with the first two buffers of the batch after it.\<close>

fun noted :: "log_chunk list \<Rightarrow> bool" where
  "noted [] = True"
| "noted (Written t # cs) = noted cs"
| "noted (DropNote note # Written a # Written b # Dropped d # cs) = noted cs"
| "noted _ = False"

definition taken_buffers :: "writer_point \<Rightarrow> FixedBuffer list" where
  "taken_buffers p = (case p of WWrite bs _ _ \<Rightarrow> bs | _ \<Rightarrow> [])"

definition fresh :: "nat \<Rightarrow> FixedBuffer \<Rightarrow> bool" where
  "fresh n b \<longleftrightarrow> b = FixedBuffer_ctor n"

definition point_ok :: "nat \<Rightarrow> writer_point \<Rightarrow> bool" where
  "point_ok n p = (case p of WTest a b \<Rightarrow> fresh n a \<and> fresh n b | WTop a b \<Rightarrow> fresh n a \<and> fresh n b
   | WWrite bs a b \<Rightarrow> bs \<noteq> [] \<and> (\<forall>x \<in> set bs. fb_SIZE x = n) \<and> a = None \<and>
       (b = None \<longrightarrow> 2 \<le> length bs) \<and> (\<forall>x. b = Some x \<longrightarrow> fresh n x) | _ \<Rightarrow> True)"

definition al_inv :: "nat \<Rightarrow> async_logging \<Rightarrow> bool" where
  "al_inv n s \<longleftrightarrow> al_SIZE s = n \<and> al_started s = (al_point s \<noteq> NotStarted) \<and> fb_SIZE (al_currentBuffer s) = n \<and>
     (\<forall>b \<in> set (al_buffers s). fb_SIZE b = n) \<and> (\<forall>b. al_nextBuffer s = Some b \<longrightarrow> fresh n b) \<and>
     (al_nextBuffer s = None \<longrightarrow> al_buffers s \<noteq> []) \<and> point_ok n (al_point s) \<and> noted (al_out s) \<and>
     concat (map chunk_text (al_out s)) @ contents (taken_buffers (al_point s)) @ contents (al_buffers s) @
       fb_data (al_currentBuffer s) = concat (al_lines s)"

lemma contents_simps [simp]: "contents [] = []" "contents (b # bs) = fb_data b @ contents bs"
  "contents (bs @ cs) = contents bs @ contents cs"
  by (simp_all add: contents_def)

lemma chunk_text_simps [simp]: "chunk_text (Written t) = t" "chunk_text (Dropped t) = t" "chunk_text (DropNote t) = []"
  by (simp_all add: chunk_text_def)

lemma noted_append: "noted xs \<Longrightarrow> noted ys \<Longrightarrow> noted (xs @ ys)"
  by (induction xs rule: noted.induct) auto

lemma noted_written: "noted (map (\<lambda>b. Written (f b)) xs)"
  by (induction xs) auto

lemma fresh_ctor [simp]: "fresh n (FixedBuffer_ctor n)"
  by (simp add: fresh_def)

lemma freshD: "fresh n b \<Longrightarrow> fb_SIZE b = n" "fresh n b \<Longrightarrow> fb_data b = []"
  by (simp_all add: fresh_def FixedBuffer_ctor_def)

lemma fresh_reset: "fb_SIZE b = n \<Longrightarrow> fresh n (fb_reset b)"
  by (auto simp: fresh_def fb_reset_def FixedBuffer_ctor_def intro: FixedBuffer.equality)

lemma writer_point_simps [simp]:
  "taken_buffers NotStarted = []" "taken_buffers WCreated = []" "point_ok n WCreated" "taken_buffers (WTest a b) = []" "taken_buffers (WTop a b) = []"
  "taken_buffers WEnded = []" "taken_buffers (WWrite bs x y) = bs"
  "point_ok n NotStarted" "point_ok n WEnded" "point_ok n (WTest a b) = (fresh n a \<and> fresh n b)"
  "point_ok n (WTop a b) = (fresh n a \<and> fresh n b)"
  by (simp_all add: taken_buffers_def point_ok_def)

lemma al_inv_ctor: "al_inv n (AsyncLogging_ctor n)"
  by (simp add: al_inv_def AsyncLogging_ctor_def) (simp add: FixedBuffer_ctor_def)

lemma async_append_inv:
  assumes "al_inv n s" "length line < n"
  shows "al_inv n (async_append line s)"
proof (cases "length line < avail (al_currentBuffer s)")
  case True
  then show ?thesis using assms by (simp add: al_inv_def async_append_def fb_append_def Let_def)
next
  case False
  define f where "f = (case al_nextBuffer s of Some b \<Rightarrow> b | None \<Rightarrow> FixedBuffer_ctor n)"
  have f: "fresh n f" "async_append line s = s\<lparr>al_lines := al_lines s @ [line],
      al_buffers := al_buffers s @ [al_currentBuffer s], al_nextBuffer := None, al_currentBuffer := fb_append line f\<rparr>"
    using assms(1) False by (cases "al_nextBuffer s"; simp add: al_inv_def async_append_def Let_def f_def)+
  then have "length line < avail f" using assms(2) by (simp add: avail_def fb_length_def freshD)
  then show ?thesis unfolding f(2) using assms(1) f(1) by (simp add: al_inv_def fb_append_def freshD)
qed

lemma writer_swap_inv:
  assumes "al_inv n s" "al_point s = WTop nb1 nb2"
  shows "al_inv n (writer_swap nb1 nb2 s)"
  using assms by (auto simp: al_inv_def writer_swap_def Let_def point_ok_def Suc_le_eq dest: freshD)

lemma writer_write_ok:
  assumes inv: "al_inv n s" and pt: "al_point s = WWrite bs nb1 nb2"
  shows "\<exists>s'. writer_write True now bs nb1 nb2 s = Inr s' \<and> al_inv n s'"
proof -
  have bs: "bs \<noteq> []" "\<forall>x \<in> set bs. fb_SIZE x = n" "nb1 = None" "nb2 = None \<longrightarrow> 2 \<le> length bs"
    "\<forall>x. nb2 = Some x \<longrightarrow> fresh n x" using inv pt by (simp_all add: al_inv_def point_ok_def)
  define kept where "kept = (if 25 < length bs then take 2 bs else bs)"
  define out where "out = (if 25 < length bs
    then [DropNote (drop_note now (length bs))] @ map (\<lambda>b. Written (fb_data b)) kept @ [Dropped (contents (drop 2 bs))]
    else map (\<lambda>b. Written (fb_data b)) kept)"
  have txt_eq: "concat (map chunk_text out) = contents bs"
  proof -
    have "concat (map chunk_text (map (\<lambda>b. Written (fb_data b)) xs)) = contents xs" for xs
      by (induction xs) simp_all
    then show ?thesis using contents_simps(3)[of "take 2 bs" "drop 2 bs"] by (simp add: out_def kept_def)
  qed
  have "noted out"
  proof (cases "25 < length bs")
    case True
    then have "\<exists>a b cs. bs = a # b # cs" by (cases bs; cases "tl bs") auto
    then show ?thesis using True by (auto simp: out_def kept_def)
  qed (simp add: out_def noted_written)
  then have noted: "noted (al_out s @ out)" using inv by (simp add: al_inv_def noted_append)
  have k: "kept \<noteq> []" "set kept \<subseteq> set bs" "nb2 = None \<longrightarrow> 2 \<le> length kept"
    using bs(1,4) set_take_subset[of 2 bs] by (auto simp: kept_def)
  let ?t = "take 2 kept"
  have t: "?t \<noteq> []" "set ?t \<subseteq> set bs" using k set_take_subset[of 2 kept] by auto
  have l1: "fresh n (fb_reset (last ?t))" using t bs(2) last_in_set[OF t(1)] by (intro fresh_reset) blast
  have l2: "nb2 = None \<Longrightarrow> butlast ?t \<noteq> [] \<and> fresh n (fb_reset (last (butlast ?t)))"
  proof -
    assume "nb2 = None"
    then have ne: "butlast ?t \<noteq> []" using k(3) by (auto simp: butlast_conv_take)
    then have "last (butlast ?t) \<in> set bs" using in_set_butlastD[OF last_in_set[OF ne]] t(2) by blast
    then show ?thesis using ne bs(2) by (auto intro: fresh_reset)
  qed
  obtain nb2' rest where r: "reuse nb2 (butlast ?t) = Inr (nb2', rest)" "fresh n nb2'"
    using l2 bs(5) by (cases nb2) (auto simp: reuse_def)
  have "writer_write True now bs nb1 nb2 s = Inr (s\<lparr>al_out := al_out s @ out, al_point := WTest (fb_reset (last ?t)) nb2'\<rparr>)"
  proof -
    have r1: "reuse nb1 ?t = Inr (fb_reset (last ?t), butlast ?t)" using bs(3) t(1) by (simp add: reuse_def)
    show ?thesis using bs(1) r1 r(1) unfolding writer_write_def
      by (cases "25 < length bs") (simp_all add: out_def kept_def)
  qed
  moreover have "al_inv n (s\<lparr>al_out := al_out s @ out, al_point := WTest (fb_reset (last ?t)) nb2'\<rparr>)"
    using inv pt l1 r(2) txt_eq noted by (simp add: al_inv_def)
  ultimately show ?thesis by blast
qed

lemma al_step_ok:
  assumes "al_step s l r" "al_inv n s"
  shows "(\<exists>s'. r = Inr s' \<and> al_inv n s') \<or> (\<exists>e. r = Inl e \<and> al_abort s l e)"
  using assms(1)
proof (cases rule: al_step.cases)
  case (log line)
  then show ?thesis using async_append_inv[OF assms(2), of line] assms(2) by (simp add: al_inv_def)
next
  case (start created)
  then show ?thesis using assms(2)
    by (cases "al_started s"; cases created) (simp_all add: async_start_def al_abort_def al_inv_def async_started_def check_def)
next
  case stop
  then show ?thesis using assms(2)
    by (cases "al_started s"; cases "al_joined s") (simp_all add: async_stop_def al_abort_def al_inv_def async_stopped_def check_def)
next
  case (first opened)
  then show ?thesis using assms(2)
    by (cases "al_running s"; cases opened) (simp_all add: writer_begin_def al_abort_def al_inv_def check_def)
next
  case (test nb1 nb2)
  then have "fb_data nb1 = []" "fb_data nb2 = []" using assms(2) by (auto simp: al_inv_def dest: freshD)
  then show ?thesis using assms(2) test by (simp add: al_inv_def writer_test_def fb_length_def)
next
  case (swap nb1 nb2)
  then show ?thesis using writer_swap_inv[OF assms(2)] by simp
next
  case (written bs nb1 nb2 opened now)
  moreover have "bs \<noteq> []" using written assms(2) by (simp add: al_inv_def point_ok_def)
  ultimately show ?thesis using writer_write_ok[OF assms(2), of bs nb1 nb2 now]
    by (cases opened) (simp_all add: writer_write_def al_abort_def check_def)
qed

lemma al_reach_inv: "al_reach n s \<Longrightarrow> al_inv n s"
proof (induction rule: al_reach.induct)
  case (step s l s')
  then show ?case using al_step_ok[OF step.hyps(2)] by auto
qed (rule al_inv_ctor)


text \<open>Two lines that do not fit into one small buffer, and the first batch written.\<close>

definition demo_log :: async_logging where
  "demo_log = projr (writer_test (FixedBuffer_ctor 4) (FixedBuffer_ctor 4)
     (projr (writer_begin True (async_started (async_append ''cd'' (async_append ''ab'' (AsyncLogging_ctor 4)))))))"

definition demo_logged :: async_logging where
  "demo_logged = projr (case al_point (writer_swap (FixedBuffer_ctor 4) (FixedBuffer_ctor 4) demo_log) of
     WWrite bs nb1 nb2 \<Rightarrow> writer_write True 0 bs nb1 nb2 (writer_swap (FixedBuffer_ctor 4) (FixedBuffer_ctor 4) demo_log))"

lemmas demo_log_defs = demo_log_def demo_logged_def AsyncLogging_ctor_def async_append_def async_start_def async_started_def async_stop_def
  async_stopped_def writer_begin_def writer_test_def writer_swap_def writer_write_def reuse_def fb_append_def fb_reset_def fb_length_def avail_def
  FixedBuffer_ctor_def Let_def

lemma al_reach_thread:
  "al_reach n s \<Longrightarrow> al_point s = WTest nb1 nb2 \<Longrightarrow> writer_test nb1 nb2 s = Inr s' \<Longrightarrow> al_reach n s'"
  "al_reach n s \<Longrightarrow> al_point s = WTop nb1 nb2 \<Longrightarrow> al_reach n (writer_swap nb1 nb2 s)"
  "al_reach n s \<Longrightarrow> al_point s = WWrite bs x y \<Longrightarrow> writer_write True now bs x y s = Inr s' \<Longrightarrow> al_reach n s'"
  using al_step.test[of s nb1 nb2] al_step.swap[of s nb1 nb2] al_step.written[of s bs x y True now]
  by (auto elim: al_reach.step)

lemma demo_logged_reach: "al_reach 4 demo_logged"
proof -
  let ?f = "FixedBuffer_ctor 4"
  let ?b = "async_append ''cd'' (async_append ''ab'' (AsyncLogging_ctor 4))"
  have "al_reach 4 (async_append ''ab'' (AsyncLogging_ctor 4))"
    by (rule al_reach.step[OF al_reach.ctor al_step.log]) (simp add: AsyncLogging_ctor_def)
  then have "al_reach 4 ?b" by (rule al_reach.step[OF _ al_step.log]) (simp add: demo_log_defs)
  then have "al_reach 4 (async_started ?b)"
    using al_reach.step[of 4 ?b "DoStart True" "async_started ?b"] al_step.start[of ?b True] by (simp add: demo_log_defs)
  then have "al_reach 4 (projr (writer_begin True (async_started ?b)))"
    using al_reach.step[of 4 "async_started ?b" "DoWriter True"] al_step.first[of "async_started ?b" True] by (simp add: demo_log_defs)
  moreover have "al_point (projr (writer_begin True (async_started ?b))) = WTest ?f ?f"
    "writer_test ?f ?f (projr (writer_begin True (async_started ?b))) = Inr demo_log" by (simp_all add: demo_log_defs)
  ultimately have "al_reach 4 demo_log" by (rule al_reach_thread(1))
  moreover have "al_point demo_log = WTop ?f ?f" by (simp add: demo_log_defs)
  ultimately have s: "al_reach 4 (writer_swap ?f ?f demo_log)" by (rule al_reach_thread(2))
  have "al_point (writer_swap ?f ?f demo_log) = WWrite [\<lparr>fb_SIZE = 4, fb_data = ''ab''\<rparr>, \<lparr>fb_SIZE = 4, fb_data = ''cd''\<rparr>] None None"
    "writer_write True 0 [\<lparr>fb_SIZE = 4, fb_data = ''ab''\<rparr>, \<lparr>fb_SIZE = 4, fb_data = ''cd''\<rparr>] None None
       (writer_swap ?f ?f demo_log) = Inr demo_logged" by (simp_all add: demo_log_defs)
  then show ?thesis by (rule al_reach_thread(3)[OF s])
qed


text \<open>Lines logged after the last batch was taken are not written when the thread ends.\<close>

lemma stop_loses_last_lines:
  "\<exists>s. al_reach 4 s \<and> al_point s = WEnded \<and> fb_data (al_currentBuffer s) = ''x'' \<and>
     concat (map chunk_text (al_out s)) = ''abcd'' \<and> concat (al_lines s) = ''abcdx''"
proof -
  let ?f = "FixedBuffer_ctor 4"
  let ?s = "async_stopped (async_append ''x'' demo_logged)"
  have "al_SIZE demo_logged = 4" by (simp add: demo_log_defs)
  then have "al_reach 4 (async_append ''x'' demo_logged)"
    by (intro al_reach.step[OF demo_logged_reach al_step.log]) simp
  then have "al_reach 4 ?s"
    using al_reach.step[of 4 "async_append ''x'' demo_logged" DoStop ?s] al_step.stop[of "async_append ''x'' demo_logged"]
    by (simp add: demo_log_defs)
  moreover have "al_point ?s = WTest ?f ?f" "writer_test ?f ?f ?s = Inr (?s\<lparr>al_point := WEnded\<rparr>)" by (simp_all add: demo_log_defs)
  ultimately have "al_reach 4 (?s\<lparr>al_point := WEnded\<rparr>)" by (rule al_reach_thread(1))
  moreover have "fb_data (al_currentBuffer (?s\<lparr>al_point := WEnded\<rparr>)) = ''x''"
    "concat (map chunk_text (al_out (?s\<lparr>al_point := WEnded\<rparr>))) = ''abcd''"
    "concat (al_lines (?s\<lparr>al_point := WEnded\<rparr>)) = ''abcdx''" by (simp_all add: demo_log_defs)
  ultimately show ?thesis by (intro exI[of _ "?s\<lparr>al_point := WEnded\<rparr>"]) simp
qed

end
