(* ===== verification/Base_Logging.thy ===== *)
theory Base_Logging
  imports Base_TimeZone Base_AsyncLogging
begin

text \<open>
  \<^verbatim>\<open>base/Logging.{h,cc}\<close>, \<^verbatim>\<open>base/FileLogging.{h,cc}\<close> and the thread numbers of \<^verbatim>\<open>base/CurrentThread\<close>: the log line a
  statement writes, and the loggers with a name. The time of a line is formatted once a second and kept per
  thread. The clock, the thread number, \<^verbatim>\<open>errno\<close> and \<^verbatim>\<open>strerror_r\<close> are parameters; where \<^verbatim>\<open>g_output\<close> sends a line is left
  open, the lines are collected.
\<close>

section \<open>Levels, files and threads\<close>

datatype LogLevel = TRACE | DEBUG | INFO | WARN | ERROR | FATAL

fun level_num :: "LogLevel \<Rightarrow> nat" where
  "level_num TRACE = 0" | "level_num DEBUG = 1" | "level_num INFO = 2"
| "level_num WARN = 3" | "level_num ERROR = 4" | "level_num FATAL = 5"

fun LogLevelName :: "LogLevel \<Rightarrow> string" where
  "LogLevelName TRACE = ''TRACE ''" | "LogLevelName DEBUG = ''DEBUG ''" | "LogLevelName INFO = ''INFO  ''"
| "LogLevelName WARN = ''WARN  ''" | "LogLevelName ERROR = ''ERROR ''" | "LogLevelName FATAL = ''FATAL ''"

definition initLogLevel :: "(string \<Rightarrow> string option) \<Rightarrow> LogLevel" where
  "initLogLevel getenv = (if getenv ''CUBER_LOG_TRACE'' \<noteq> None then TRACE
     else if getenv ''CUBER_LOG_DEBUG'' \<noteq> None then DEBUG else INFO)"

text \<open>The base name of a source file, from the literal \<^verbatim>\<open>__FILE__\<close>; \<^verbatim>\<open>strrchr\<close> searches up to the first NUL.\<close>

definition SourceFile_literal :: "string \<Rightarrow> string" where
  "SourceFile_literal arr = (case str_find_last (CHR ''/'') (c_str arr) of None \<Rightarrow> arr | Some i \<Rightarrow> drop (i + 1) arr)"

definition SourceFile_ptr :: "string \<Rightarrow> string" where
  "SourceFile_ptr filename = (case str_find_last (CHR ''/'') (c_str filename) of
     None \<Rightarrow> c_str filename | Some i \<Rightarrow> c_str (drop (i + 1) filename))"

text \<open>The time text of a thread with the second it shows, and the text of its number.\<close>

record time_cache =
  t_time :: string
  t_lastSecond :: int

record log_thread =
  lt_cache :: time_cache
  t_cachedTid :: int
  t_tidString :: string
  t_tidStringLength :: nat

definition log_thread_new :: log_thread where
  "log_thread_new = \<lparr>lt_cache = \<lparr>t_time = [], t_lastSecond = 0\<rparr>, t_cachedTid = 0, t_tidString = [], t_tidStringLength = 6\<rparr>"

definition cacheTid :: "int \<Rightarrow> log_thread \<Rightarrow> log_thread" where
  "cacheTid tid th = (if t_cachedTid th = 0
     then let s = pad_blank 5 tid @ '' ''
          in th\<lparr>t_cachedTid := tid, t_tidString := snprintf 32 s, t_tidStringLength := length s\<rparr>
     else th)"

definition currentThread_tid :: "int \<Rightarrow> log_thread \<Rightarrow> log_thread" where
  "currentThread_tid tid th = (if t_cachedTid th = 0 then cacheTid tid th else th)"

section \<open>A log line\<close>

record log_globals =
  g_logLevel :: LogLevel
  g_logTimeZone :: "tz_data option"

definition setLogLevel :: "LogLevel \<Rightarrow> log_globals \<Rightarrow> log_globals" where
  "setLogLevel level g = g\<lparr>g_logLevel := level\<rparr>"

definition setTimeZone :: "tz_data option \<Rightarrow> log_globals \<Rightarrow> log_globals" where
  "setTimeZone tz g = g\<lparr>g_logTimeZone := tz\<rparr>"

record logger =
  lg_stream :: FixedBuffer
  lg_level :: LogLevel
  lg_line :: int
  lg_basename :: string

text \<open>\<^verbatim>\<open>T\<close>: text whose length is known.\<close>

definition stream_T :: "string \<Rightarrow> nat \<Rightarrow> FixedBuffer \<Rightarrow> FixedBuffer result" where
  "stream_T str len b = andThen (check (length (c_str str) = len)) (\<lambda>_. Inr (stream_item (LText (take len str)) b))"

text \<open>The first part of \<^verbatim>\<open>formatTime\<close>, which renews the text of the second, and the text of the microseconds.
  \<^verbatim>\<open>FileLogger::formatTime\<close> has the same two parts over a cache of its own.\<close>

definition refresh_time :: "tz_data option \<Rightarrow> int \<Rightarrow> time_cache \<Rightarrow> time_cache result" where
  "refresh_time zone seconds c = (if seconds \<noteq> t_lastSecond c then
     andThen (if timezone_valid zone then toLocalTime zone seconds else Inr (gmtime seconds)) (\<lambda>tm_time.
     let text = format_tm tm_time
     in andThen (check (length text = 17)) (\<lambda>_. Inr \<lparr>t_time = snprintf 64 text, t_lastSecond = seconds\<rparr>))
   else Inr c)"

definition fmt_microseconds :: "tz_data option \<Rightarrow> int \<Rightarrow> string result" where
  "fmt_microseconds zone microseconds =
     (let us = (if timezone_valid zone then ''.'' @ pad_zero 6 microseconds @ '' '' else ''.'' @ pad_zero 6 microseconds @ ''Z '')
      in andThen (check (length us < 32)) (\<lambda>_.
         andThen (check (length us = (if timezone_valid zone then 8 else 9))) (\<lambda>_. Inr us)))"

definition impl_formatTime :: "tz_data option \<Rightarrow> int \<Rightarrow> time_cache \<Rightarrow> FixedBuffer \<Rightarrow> (time_cache \<times> FixedBuffer) result" where
  "impl_formatTime zone us c b =
     andThen (refresh_time zone (us sdiv 1000000) c) (\<lambda>c.
     andThen (fmt_microseconds zone (us smod 1000000)) (\<lambda>text.
     andThen (stream_T (t_time c) 17 b) (\<lambda>b.
     andThen (stream_T text (if timezone_valid zone then 8 else 9) b) (\<lambda>b. Inr (c, b)))))"

definition filelogger_formatTime :: "tz_data option \<Rightarrow> int \<Rightarrow> time_cache \<Rightarrow> (time_cache \<times> string) result" where
  "filelogger_formatTime zone us c =
     andThen (refresh_time zone (us sdiv 1000000) c) (\<lambda>c.
     andThen (fmt_microseconds zone (us smod 1000000)) (\<lambda>text. Inr (c, c_str (t_time c) @ c_str text)))"

text \<open>What a statement takes from the system: the thread number and the text of an error number.\<close>

record log_sys =
  sys_tid :: int
  sys_strerror :: "int \<Rightarrow> string"

definition errno_items :: "log_sys \<Rightarrow> int \<Rightarrow> log_item list" where
  "errno_items sys savedErrno = (if savedErrno \<noteq> 0
     then [LCString (Some (sys_strerror sys savedErrno)), LCString (Some '' (errno=''), LInt savedErrno, LCString (Some '') '')]
     else [])"

definition Impl_ctor :: "log_globals \<Rightarrow> log_sys \<Rightarrow> int \<Rightarrow> LogLevel \<Rightarrow> int \<Rightarrow> string \<Rightarrow> int \<Rightarrow> log_thread \<Rightarrow>
    (logger \<times> log_thread) result" where
  "Impl_ctor g sys now level savedErrno file line th =
     andThen (impl_formatTime (g_logTimeZone g) now (lt_cache th) (FixedBuffer_ctor kSmallBuffer)) (\<lambda>(c, b).
     let th = currentThread_tid (sys_tid sys) (th\<lparr>lt_cache := c\<rparr>)
     in andThen (stream_T (t_tidString th) (t_tidStringLength th) b) (\<lambda>b.
        andThen (stream_T (LogLevelName level) 6 b) (\<lambda>b.
        Inr (\<lparr>lg_stream = stream_items (errno_items sys savedErrno) b, lg_level = level, lg_line = line, lg_basename = file\<rparr>, th))))"

definition impl_finish :: "logger \<Rightarrow> logger" where
  "impl_finish l = l\<lparr>lg_stream := stream_items [LCString (Some '' - ''), LText (lg_basename l), LChar (CHR '':''),
     LInt (lg_line l), LChar LF] (lg_stream l)\<rparr>"

text \<open>The four constructors.\<close>

datatype logger_args = Plain | WithLevel LogLevel | WithFunc LogLevel string | ToAbort bool

fun Logger_ctor :: "logger_args \<Rightarrow> log_globals \<Rightarrow> log_sys \<Rightarrow> int \<Rightarrow> int \<Rightarrow> string \<Rightarrow> int \<Rightarrow> log_thread \<Rightarrow>
    (logger \<times> log_thread) result" where
  "Logger_ctor Plain g sys now errno file line th = Impl_ctor g sys now INFO 0 file line th"
| "Logger_ctor (WithFunc level func) g sys now errno file line th =
     andThen (Impl_ctor g sys now level 0 file line th) (\<lambda>(l, th).
     Inr (l\<lparr>lg_stream := stream_items [LCString (Some func), LChar (CHR '' '')] (lg_stream l)\<rparr>, th))"
| "Logger_ctor (WithLevel level) g sys now errno file line th = Impl_ctor g sys now level 0 file line th"
| "Logger_ctor (ToAbort toAbort) g sys now errno file line th =
     Impl_ctor g sys now (if toAbort then FATAL else ERROR) errno file line th"

text \<open>The destructor: the line that is put out, and whether the process is aborted after it.\<close>

definition Logger_dtor :: "logger \<Rightarrow> string \<times> bool" where
  "Logger_dtor l = (let l = impl_finish l in (fb_data (lg_stream l), lg_level l = FATAL))"

text \<open>The macros, with the level test the first three of them have.\<close>

datatype log_macro = LOG_TRACE string | LOG_DEBUG string | LOG_INFO | LOG_WARN | LOG_ERROR | LOG_FATAL | LOG_SYSERR | LOG_SYSFATAL

fun macro_enabled :: "LogLevel \<Rightarrow> log_macro \<Rightarrow> bool" where
  "macro_enabled level (LOG_TRACE _) = (level_num level \<le> level_num TRACE)"
| "macro_enabled level (LOG_DEBUG _) = (level_num level \<le> level_num DEBUG)"
| "macro_enabled level LOG_INFO = (level_num level \<le> level_num INFO)"
| "macro_enabled level _ = True"

fun macro_args :: "log_macro \<Rightarrow> logger_args" where
  "macro_args (LOG_TRACE func) = WithFunc TRACE func" | "macro_args (LOG_DEBUG func) = WithFunc DEBUG func"
| "macro_args LOG_INFO = Plain" | "macro_args LOG_WARN = WithLevel WARN" | "macro_args LOG_ERROR = WithLevel ERROR"
| "macro_args LOG_FATAL = WithLevel FATAL" | "macro_args LOG_SYSERR = ToAbort False" | "macro_args LOG_SYSFATAL = ToAbort True"

record log_stmt =
  st_macro :: log_macro
  st_file :: string
  st_line :: int
  st_items :: "log_item list"
  st_now :: int
  st_errno :: int

definition log_statement :: "log_globals \<Rightarrow> log_sys \<Rightarrow> log_stmt \<Rightarrow> log_thread \<Rightarrow> (log_thread \<times> (string \<times> bool) option) result" where
  "log_statement g sys st th = (if macro_enabled (g_logLevel g) (st_macro st)
     then andThen (Logger_ctor (macro_args (st_macro st)) g sys (st_now st) (st_errno st) (SourceFile_literal (st_file st)) (st_line st) th)
       (\<lambda>(l, th). Inr (th, Some (Logger_dtor (l\<lparr>lg_stream := stream_items (st_items st) (lg_stream l)\<rparr>))))
     else Inr (th, None))"

text \<open>The statements a thread runs, up to the one that aborts: the lines and whether it aborted.\<close>

fun log_run :: "log_globals \<Rightarrow> log_sys \<Rightarrow> log_stmt list \<Rightarrow> log_thread \<Rightarrow> (string list \<times> bool) result" where
  "log_run g sys [] th = Inr ([], False)"
| "log_run g sys (st # sts) th = andThen (log_statement g sys st th) (\<lambda>(th, r). case r of
     None \<Rightarrow> log_run g sys sts th
   | Some (line, aborted) \<Rightarrow> if aborted then Inr ([line], True)
       else andThen (log_run g sys sts th) (\<lambda>(lines, a). Inr (line # lines, a)))"

section \<open>Loggers with a name\<close>

text \<open>A logger of \<^verbatim>\<open>FileLogging\<close>; the registry owns them, so that a line logged through the pointer it returns
  changes its entry. \<open>None\<close> is the logger that does nothing.\<close>

record file_logger =
  fl_name :: string
  fl_path :: string
  fl_rollSize :: int
  fl_async :: async_logging

definition ROLL_SIZE :: int where "ROLL_SIZE = 500 * 1024 * 1024"

text \<open>The constructor starts the thread of its own fresh \<^verbatim>\<open>AsyncLogging\<close>, where the assertions of \<^verbatim>\<open>start\<close> hold, and the
  destructor stops it.\<close>

definition FileLogger_ctor :: "string \<Rightarrow> string \<Rightarrow> int \<Rightarrow> file_logger" where
  "FileLogger_ctor name path rollSize = \<lparr>fl_name = name, fl_path = path, fl_rollSize = rollSize,
     fl_async = async_started (AsyncLogging_ctor kLargeBuffer)\<rparr>"

definition FileLogger_dtor :: "file_logger \<Rightarrow> file_logger" where
  "FileLogger_dtor l = l\<lparr>fl_async := async_stopped (fl_async l)\<rparr>"

definition FileLogger_info :: "string \<Rightarrow> file_logger \<Rightarrow> file_logger" where
  "FileLogger_info str l = l\<lparr>fl_async := async_append str (fl_async l)\<rparr>"

definition addLogger :: "string \<Rightarrow> string \<Rightarrow> int \<Rightarrow> (string \<times> file_logger) list \<Rightarrow> (string \<times> file_logger) list" where
  "addLogger name path rollSize dict = (if map_of dict name = None
     then if rollSize = 0 then umap_put name (FileLogger_ctor name path ROLL_SIZE) dict
          else umap_put name (FileLogger_ctor name path rollSize) dict
     else dict)"

definition addLogger_pair :: "string \<times> string \<Rightarrow> (string \<times> file_logger) list \<Rightarrow> (string \<times> file_logger) list" where
  "addLogger_pair logPair dict = (if map_of dict (fst logPair) = None
     then umap_put (fst logPair) (FileLogger_ctor (fst logPair) (snd logPair) ROLL_SIZE) dict else dict)"

definition addLogger_list :: "(string \<times> string) list \<Rightarrow> (string \<times> file_logger) list \<Rightarrow> (string \<times> file_logger) list" where
  "addLogger_list dictLst dict = fold addLogger_pair dictLst dict"

definition getFileLogger :: "string \<Rightarrow> (string \<times> file_logger) list \<Rightarrow> file_logger option" where
  "getFileLogger name dict = map_of dict name"

definition onProcessExit :: "(string \<times> file_logger) list \<Rightarrow> (string \<times> file_logger) list" where
  "onProcessExit dict = map (\<lambda>(name, l). (name, FileLogger_dtor l)) dict"

text \<open>What the program does with the registry.\<close>

datatype logger_op = AddLogger string string int | AddLoggers "(string \<times> string) list" | Info string string

fun logger_do :: "logger_op \<Rightarrow> (string \<times> file_logger) list \<Rightarrow> (string \<times> file_logger) list" where
  "logger_do (AddLogger name path rollSize) dict = addLogger name path rollSize dict"
| "logger_do (AddLoggers dictLst) dict = addLogger_list dictLst dict"
| "logger_do (Info name str) dict = (case getFileLogger name dict of
     None \<Rightarrow> dict | Some l \<Rightarrow> umap_put name (FileLogger_info str l) dict)"

section \<open>The text of a time\<close>

lemma isdigit_NUL [simp]: "\<not> isdigit NUL"
  by (simp add: isdigit_def)

lemma dec_nat_NUL [simp]: "NUL \<notin> set (dec_nat n)"
  using dec_nat_clean[of NUL n] by simp

lemma padded_NUL [simp]: "NUL \<notin> set (pad_zero w i)" "NUL \<notin> set (pad_blank w i)"
  by (auto simp: pad_zero_def pad_blank_def dec_int_def Let_def)

lemma length_pad_zero: "0 \<le> i \<Longrightarrow> i < 10 ^ Suc k \<Longrightarrow> length (pad_zero (Suc k) i) = Suc k"
  using length_dec_nat[of "nat i" k] by (simp add: pad_zero_def Let_def nat_less_iff)

lemma length_pad_blank: "0 \<le> i \<Longrightarrow> i < 10 ^ Suc k \<Longrightarrow> length (pad_blank (Suc k) i) = Suc k"
  using length_dec_nat[of "nat i" k] by (simp add: pad_blank_def dec_int_def Let_def nat_less_iff)

lemma new_year_day: "0 \<le> y + 4799 \<Longrightarrow> civil_day_number y 1 1 =
    365 * (y + 4799) + (y + 4799) div 4 - (y + 4799) div 100 + (y + 4799) div 400 - 31738"
proof -
  assume y: "0 \<le> y + 4799"
  have a: "(14 - 1 :: int) sdiv 12 = 1" "(153 * (1 + 12 * 1 - 3) + 2 :: int) sdiv 5 = 306" by code_simp+
  show ?thesis unfolding civil_day_number_def Let_def a using y by (simp add: sdiv_nonneg algebra_simps)
qed

text \<open>The years of four digits from the epoch on.\<close>

lemma four_digit_year:
  assumes "0 \<le> t" "t < 253402300800"
  shows "0 \<le> tm_year (gmtime t) + 1900" "tm_year (gmtime t) + 1900 \<le> 9999"
proof -
  define j where "j = t div 86400 + 2440588"
  define y where "y = ymd_year (civil_date j)"
  have j: "2440588 \<le> j" "j \<le> 5373484" using assms unfolding j_def by simp_all
  have yd: "0 \<le> j - civil_day_number y 1 1" "j - civil_day_number y 1 1 \<le> 365"
    using yday_range[of j] j unfolding y_def by simp_all
  have y0: "- 4800 \<le> y"
  proof -
    have "- 32044 \<le> j" using j by simp
    then show ?thesis unfolding y_def by (rule civil_date_fields) simp
  qed
  have "tm_year (gmtime t) + 1900 = y" by (simp add: gmtime_def Let_def y_def j_def)
  moreover have "y \<le> 9999"
  proof (rule ccontr)
    assume "\<not> y \<le> 9999"
    then show False using new_year_day[of y] yd j by simp
  qed
  moreover have "0 \<le> y"
  proof (rule ccontr)
    assume n: "\<not> 0 \<le> y"
    show False
    proof (cases "y = - 4800")
      case True
      have "civil_day_number (- 4800) 1 1 < 0" by code_simp
      then show False using True yd j by simp
    next
      case False
      then show False using new_year_day[of y] y0 n yd j by simp
    qed
  qed
  ultimately show "0 \<le> tm_year (gmtime t) + 1900" "tm_year (gmtime t) + 1900 \<le> 9999" by simp_all
qed

lemma format_tm_clean [simp]: "NUL \<notin> set (format_tm x)"
  by (simp add: format_tm_def)

lemma length_format_tm:
  assumes "0 \<le> t" "t < 253402300800"
  shows "length (format_tm (gmtime t)) = 17"
proof -
  have ok: "tm_ok (gmtime t)" using gmtime_ok(1)[of t] assms(1) by simp
  have "length (pad_zero 2 i) = 2" if "0 \<le> i" "i < 100" for i
    using length_pad_zero[of i 1] that by (simp add: numeral_2_eq_2)
  moreover have "length (pad_blank 4 (tm_year (gmtime t) + 1900)) = 4"
    using length_pad_blank[of "tm_year (gmtime t) + 1900" 3] four_digit_year[OF assms] by (simp add: numeral_eq_Suc)
  ultimately show ?thesis using ok unfolding tm_ok_def by (simp add: format_tm_def)
qed

section \<open>The caches of a thread\<close>

text \<open>The time a zone shows, and the times of four-digit years after the first second of the epoch.\<close>

definition shown_seconds :: "tz_data option \<Rightarrow> int \<Rightarrow> int" where
  "shown_seconds zone t = (case zone of None \<Rightarrow> t | Some data \<Rightarrow> t + offset_at data t)"

definition time_ok :: "tz_data option \<Rightarrow> int \<Rightarrow> bool" where
  "time_ok zone t \<longleftrightarrow> 0 < t \<and> (case zone of None \<Rightarrow> True | Some data \<Rightarrow> tz_wf data) \<and>
     0 \<le> shown_seconds zone t \<and> shown_seconds zone t < 253402300800"

definition second_text :: "tz_data option \<Rightarrow> int \<Rightarrow> string" where
  "second_text zone t = format_tm (gmtime (shown_seconds zone t))"

definition log_time :: "tz_data option \<Rightarrow> int \<Rightarrow> string" where
  "log_time zone us = second_text zone (us div 1000000) @ ''.'' @ pad_zero 6 (us mod 1000000) @
     (if zone = None then ''Z '' else '' '')"

definition cache_ok :: "tz_data option \<Rightarrow> time_cache \<Rightarrow> bool" where
  "cache_ok zone c \<longleftrightarrow> t_lastSecond c = 0 \<or> time_ok zone (t_lastSecond c) \<and> t_time c = second_text zone (t_lastSecond c)"

lemma length_second_text: "time_ok zone t \<Longrightarrow> length (second_text zone t) = 17"
  by (simp add: time_ok_def second_text_def length_format_tm)

lemma zone_tm:
  assumes "time_ok zone t"
  obtains x where "(if timezone_valid zone then toLocalTime zone t else Inr (gmtime t)) = Inr x" "format_tm x = second_text zone t"
proof (cases zone)
  case None
  then show ?thesis using that by (simp add: timezone_valid_def second_text_def shown_seconds_def)
next
  case (Some data)
  then have "tz_wf data" using assms by (simp add: time_ok_def)
  from toLocalTime_at[OF this, of t] obtain z where "toLocalTime (Some data) t =
      Inr ((gmtime (t + offset_at data t))\<lparr>tm_isdst := dst_at data t, tm_gmtoff := offset_at data t, tm_zone := z\<rparr>)" by blast
  then show ?thesis using that Some by (simp add: timezone_valid_def second_text_def shown_seconds_def format_tm_def)
qed

lemma refresh_time_ok:
  assumes "cache_ok zone c" "time_ok zone t"
  shows "refresh_time zone t c = Inr \<lparr>t_time = second_text zone t, t_lastSecond = t\<rparr>"
proof (cases "t = t_lastSecond c")
  case True
  then show ?thesis using assms by (cases c) (auto simp: refresh_time_def cache_ok_def time_ok_def)
next
  case False
  obtain x where "(if timezone_valid zone then toLocalTime zone t else Inr (gmtime t)) = Inr x" "format_tm x = second_text zone t"
    by (rule zone_tm[OF assms(2)])
  then show ?thesis using False length_second_text[OF assms(2)]
    by (simp add: refresh_time_def Let_def snprintf_id)
qed

lemma microseconds_ok:
  assumes "0 \<le> us"
  shows "fmt_microseconds zone (us mod 1000000) = Inr (''.'' @ pad_zero 6 (us mod 1000000) @ (if zone = None then ''Z '' else '' ''))"
proof -
  have "length (pad_zero 6 (us mod 1000000)) = 6" using length_pad_zero[of "us mod 1000000" 5] by (simp add: numeral_eq_Suc)
  then show ?thesis by (simp add: fmt_microseconds_def timezone_valid_def Let_def)
qed

lemma stream_T_ok: "NUL \<notin> set s \<Longrightarrow> length s = n \<Longrightarrow> stream_T s n b = Inr (stream_item (LText s) b)"
  by (simp add: stream_T_def c_str_id)

lemma smod_million: "0 \<le> (us :: int) \<Longrightarrow> us smod 1000000 = us mod 1000000"
  by (simp add: signed_modulo_int_def sdiv_nonneg minus_div_mult_eq_mod sgn_if)

lemma impl_formatTime_ok:
  assumes "cache_ok zone c" "time_ok zone (us div 1000000)" "0 \<le> us"
  shows "\<exists>c' xs. impl_formatTime zone us c b = Inr (c', stream_items xs b) \<and> cache_ok zone c' \<and>
    concat (map item_text xs) = log_time zone us"
proof -
  let ?t = "us div 1000000" and ?z = "if zone = None then ''Z '' else '' ''"
  have l: "length (pad_zero 6 (us mod 1000000)) = 6" using length_pad_zero[of "us mod 1000000" 5] by (simp add: numeral_eq_Suc)
  have T: "stream_T (second_text zone ?t) 17 b = Inr (stream_item (LText (second_text zone ?t)) b)" for b
    by (rule stream_T_ok) (simp_all add: second_text_def length_second_text[OF assms(2), unfolded second_text_def])
  have U: "stream_T (''.'' @ pad_zero 6 (us mod 1000000) @ ?z) (if timezone_valid zone then 8 else 9) b =
      Inr (stream_item (LText (''.'' @ pad_zero 6 (us mod 1000000) @ ?z)) b)" for b
    by (rule stream_T_ok) (simp_all add: l timezone_valid_def)
  let ?xs = "[LText (second_text zone ?t), LText (''.'' @ pad_zero 6 (us mod 1000000) @ ?z)]"
  have "impl_formatTime zone us c b = Inr (\<lparr>t_time = second_text zone ?t, t_lastSecond = ?t\<rparr>, stream_items ?xs b)"
    using refresh_time_ok[OF assms(1,2)] microseconds_ok[OF assms(3), of zone] T U assms(3)
    by (simp add: impl_formatTime_def sdiv_nonneg smod_million del: stream_item.simps)
  moreover have "concat (map item_text ?xs) = log_time zone us" by (simp add: log_time_def)
  moreover have "cache_ok zone \<lparr>t_time = second_text zone ?t, t_lastSecond = ?t\<rparr>" using assms(2) by (simp add: cache_ok_def)
  ultimately show ?thesis by blast
qed

definition tid_text :: "int \<Rightarrow> string" where
  "tid_text tid = pad_blank 5 tid @ '' ''"

definition thread_ok :: "tz_data option \<Rightarrow> int \<Rightarrow> log_thread \<Rightarrow> bool" where
  "thread_ok zone tid th \<longleftrightarrow> cache_ok zone (lt_cache th) \<and>
     (t_cachedTid th = 0 \<or> t_cachedTid th = tid \<and> t_tidString th = tid_text tid \<and> t_tidStringLength th = length (tid_text tid))"

lemma tid_text_ok:
  assumes "0 < tid" "tid < 2 ^ 31"
  shows "length (tid_text tid) < 32" "NUL \<notin> set (tid_text tid)"
proof -
  have "length (dec_nat (nat tid)) \<le> 10" using length_dec_nat[of "nat tid" 9] assms by (simp add: nat_less_iff)
  then show "length (tid_text tid) < 32" using assms by (simp add: tid_text_def pad_blank_def dec_int_def Let_def)
  show "NUL \<notin> set (tid_text tid)" by (simp add: tid_text_def)
qed

lemma currentThread_ok:
  assumes "thread_ok zone tid th" "0 < tid" "tid < 2 ^ 31" "cache_ok zone c"
  shows "thread_ok zone tid (currentThread_tid tid (th\<lparr>lt_cache := c\<rparr>))"
    "t_tidString (currentThread_tid tid (th\<lparr>lt_cache := c\<rparr>)) = tid_text tid"
    "t_tidStringLength (currentThread_tid tid (th\<lparr>lt_cache := c\<rparr>)) = length (tid_text tid)"
  using assms tid_text_ok[OF assms(2,3)]
  by (auto simp: currentThread_tid_def cacheTid_def thread_ok_def Let_def tid_text_def[symmetric] snprintf_id)

section \<open>The line of a statement\<close>

fun macro_level :: "log_macro \<Rightarrow> LogLevel" where
  "macro_level (LOG_TRACE _) = TRACE" | "macro_level (LOG_DEBUG _) = DEBUG" | "macro_level LOG_INFO = INFO"
| "macro_level LOG_WARN = WARN" | "macro_level LOG_ERROR = ERROR" | "macro_level LOG_FATAL = FATAL"
| "macro_level LOG_SYSERR = ERROR" | "macro_level LOG_SYSFATAL = FATAL"

definition errno_text :: "log_sys \<Rightarrow> int \<Rightarrow> string" where
  "errno_text sys e = (if e = 0 then [] else c_str (sys_strerror sys e) @ '' (errno='' @ dec_int e @ '') '')"

fun macro_text :: "log_sys \<Rightarrow> int \<Rightarrow> log_macro \<Rightarrow> string" where
  "macro_text sys e (LOG_TRACE func) = c_str func @ '' ''" | "macro_text sys e (LOG_DEBUG func) = c_str func @ '' ''"
| "macro_text sys e LOG_SYSERR = errno_text sys e" | "macro_text sys e LOG_SYSFATAL = errno_text sys e"
| "macro_text sys e _ = []"

text \<open>The specification of a line has its own words: the name of the level is filled up to six characters, the base name is what
  follows the last slash, and a statement is shown when its level is at least the configured one or is a warning or worse.\<close>

fun level_word :: "LogLevel \<Rightarrow> string" where
  "level_word TRACE = ''TRACE''" | "level_word DEBUG = ''DEBUG''" | "level_word INFO = ''INFO''"
| "level_word WARN = ''WARN''" | "level_word ERROR = ''ERROR''" | "level_word FATAL = ''FATAL''"

definition level_field :: "LogLevel \<Rightarrow> string" where
  "level_field level = level_word level @ replicate (6 - length (level_word level)) (CHR '' '')"

definition base_name :: "string \<Rightarrow> string" where
  "base_name path = rev (takeWhile (\<lambda>c. c \<noteq> CHR ''/'') (rev path))"

definition shown :: "LogLevel \<Rightarrow> LogLevel \<Rightarrow> bool" where
  "shown configured level = (case level of TRACE \<Rightarrow> configured = TRACE | DEBUG \<Rightarrow> configured \<in> {TRACE, DEBUG}
   | INFO \<Rightarrow> configured \<in> {TRACE, DEBUG, INFO} | _ \<Rightarrow> True)"

definition log_text :: "log_globals \<Rightarrow> log_sys \<Rightarrow> log_stmt \<Rightarrow> string" where
  "log_text g sys st = log_time (g_logTimeZone g) (st_now st) @ tid_text (sys_tid sys) @ level_field (macro_level (st_macro st)) @
     macro_text sys (st_errno st) (st_macro st) @ concat (map item_text (st_items st)) @
     '' - '' @ base_name (st_file st) @ '':'' @ dec_int (st_line st) @ [LF]"

fun log_spec :: "log_globals \<Rightarrow> log_sys \<Rightarrow> log_stmt list \<Rightarrow> string list \<times> bool" where
  "log_spec g sys [] = ([], False)"
| "log_spec g sys (st # sts) = (if \<not> shown (g_logLevel g) (macro_level (st_macro st)) then log_spec g sys sts
     else if macro_level (st_macro st) = FATAL then ([log_text g sys st], True)
     else (log_text g sys st # fst (log_spec g sys sts), snd (log_spec g sys sts)))"

definition stmt_ok :: "log_globals \<Rightarrow> log_sys \<Rightarrow> log_stmt \<Rightarrow> bool" where
  "stmt_ok g sys st \<longleftrightarrow> time_ok (g_logTimeZone g) (st_now st div 1000000) \<and> NUL \<notin> set (st_file st) \<and>
     length (log_text g sys st) + kMaxNumericSize \<le> kSmallBuffer"

lemma macro_enabled_shown: "macro_enabled level m = shown level (macro_level m)"
  by (cases m; cases level) (simp_all add: shown_def)

lemma LogLevelName_field: "LogLevelName level = level_field level"
  by (cases level) (simp_all add: level_field_def numeral_2_eq_2)

lemma SourceFile_base_name:
  assumes "NUL \<notin> set arr"
  shows "SourceFile_literal arr = base_name arr"
proof (cases "str_find_last (CHR ''/'') arr")
  case None
  then have "CHR ''/'' \<notin> set arr" by (auto simp: str_find_last_def str_rfind_None in_set_conv_nth)
  then have "takeWhile (\<lambda>c. c \<noteq> CHR ''/'') (rev arr) = rev arr" unfolding takeWhile_eq_all_conv by auto
  then have "base_name arr = arr" by (simp only: base_name_def rev_rev_ident)
  with None show ?thesis using assms by (simp add: SourceFile_literal_def c_str_id)
next
  case (Some i)
  note i = str_rfind_Some[OF Some[unfolded str_find_last_def]]
  have tl: "CHR ''/'' \<notin> set (drop (Suc i) arr)" using i(4) by (auto simp: in_set_conv_nth)
  have arr: "rev arr = rev (drop (Suc i) arr) @ CHR ''/'' # rev (take i arr)"
    using arg_cong[OF id_take_nth_drop[OF i(1)], of rev] i(3) by simp
  have "takeWhile (\<lambda>c. c \<noteq> CHR ''/'') (rev arr) = rev (drop (Suc i) arr)"
    unfolding arr by (subst takeWhile_append2) (use tl in auto)
  with Some show ?thesis using assms by (simp add: SourceFile_literal_def base_name_def c_str_id)
qed

lemma c_str_literals [simp]: "c_str '' - '' = '' - ''" "c_str '' (errno='' = '' (errno=''" "c_str '') '' = '') ''"
  by code_simp+

lemma length_LogLevelName [simp]: "length (LogLevelName level) = 6" "NUL \<notin> set (LogLevelName level)"
  by (cases level; simp)+

text \<open>A logger in the making: what it has streamed, and the level it will end with.\<close>

definition logger_has :: "logger \<Rightarrow> string \<Rightarrow> LogLevel \<Rightarrow> string \<Rightarrow> int \<Rightarrow> bool" where
  "logger_has l text level file line \<longleftrightarrow> (\<exists>xs. lg_stream l = stream_items xs (FixedBuffer_ctor kSmallBuffer) \<and>
     concat (map item_text xs) = text) \<and> lg_level l = level \<and> lg_basename l = file \<and> lg_line l = line"

lemma logger_has_items:
  assumes "logger_has l text level file line"
  shows "logger_has (l\<lparr>lg_stream := stream_items ys (lg_stream l)\<rparr>) (text @ concat (map item_text ys)) level file line"
proof -
  obtain xs where "lg_stream l = stream_items xs (FixedBuffer_ctor kSmallBuffer)" "concat (map item_text xs) = text"
    using assms unfolding logger_has_def by blast
  then show ?thesis using assms unfolding logger_has_def by (intro conjI exI[of _ "xs @ ys"]) simp_all
qed

lemma Impl_ctor_ok:
  assumes "thread_ok (g_logTimeZone g) (sys_tid sys) th" "time_ok (g_logTimeZone g) (now div 1000000)"
    "0 < sys_tid sys" "sys_tid sys < 2 ^ 31"
  shows "\<exists>l th'. Impl_ctor g sys now level e file line th = Inr (l, th') \<and> thread_ok (g_logTimeZone g) (sys_tid sys) th' \<and>
    logger_has l (log_time (g_logTimeZone g) now @ tid_text (sys_tid sys) @ LogLevelName level @ errno_text sys e) level file line"
proof -
  let ?z = "g_logTimeZone g" and ?tid = "sys_tid sys"
  have c: "cache_ok ?z (lt_cache th)" using assms(1) by (simp add: thread_ok_def)
  have "0 < now div 1000000" using assms(2) by (simp add: time_ok_def)
  then have "0 \<le> now" by linarith
  from impl_formatTime_ok[OF c assms(2) this] obtain c' xs where
    f: "impl_formatTime ?z now (lt_cache th) (FixedBuffer_ctor kSmallBuffer) = Inr (c', stream_items xs (FixedBuffer_ctor kSmallBuffer))"
      "cache_ok ?z c'" "concat (map item_text xs) = log_time ?z now" by blast
  note T = currentThread_ok[OF assms(1,3,4) f(2)]
  let ?th = "currentThread_tid ?tid (th\<lparr>lt_cache := c'\<rparr>)"
  let ?ys = "xs @ [LText (tid_text ?tid), LText (LogLevelName level)] @ errno_items sys e"
  let ?l = "\<lparr>lg_stream = stream_items ?ys (FixedBuffer_ctor kSmallBuffer), lg_level = level, lg_line = line, lg_basename = file\<rparr>"
  have "stream_T (tid_text ?tid) (length (tid_text ?tid)) b = Inr (stream_item (LText (tid_text ?tid)) b)" for b
    using tid_text_ok(2)[OF assms(3,4)] by (rule stream_T_ok) simp
  moreover have "stream_T (LogLevelName level) 6 b = Inr (stream_item (LText (LogLevelName level)) b)" for b
    by (rule stream_T_ok) simp_all
  ultimately have "Impl_ctor g sys now level e file line th = Inr (?l, ?th)"
    using f(1) T(2,3) by (simp add: Impl_ctor_def Let_def del: stream_item.simps)
  moreover have tx: "concat (map item_text ?ys) = log_time ?z now @ tid_text ?tid @ LogLevelName level @ errno_text sys e"
    using f(3) by (simp add: errno_items_def errno_text_def)
  have "logger_has ?l (log_time ?z now @ tid_text ?tid @ LogLevelName level @ errno_text sys e) level file line"
    unfolding logger_has_def tx[symmetric] by (intro conjI exI[of _ ?ys]) (simp_all only: logger.simps)
  ultimately show ?thesis using T(1) by blast
qed

lemma Logger_ctor_ok:
  assumes "thread_ok (g_logTimeZone g) (sys_tid sys) th" "time_ok (g_logTimeZone g) (now div 1000000)"
    "0 < sys_tid sys" "sys_tid sys < 2 ^ 31"
  shows "\<exists>l th'. Logger_ctor (macro_args m) g sys now e file line th = Inr (l, th') \<and> thread_ok (g_logTimeZone g) (sys_tid sys) th' \<and>
    logger_has l (log_time (g_logTimeZone g) now @ tid_text (sys_tid sys) @ LogLevelName (macro_level m) @ macro_text sys e m)
      (macro_level m) file line"
proof -
  note I = Impl_ctor_ok[OF assms, of _ _ "file" line]
  have func: "\<exists>l th'. Logger_ctor (WithFunc level func) g sys now e file line th = Inr (l, th') \<and>
      thread_ok (g_logTimeZone g) (sys_tid sys) th' \<and> logger_has l (log_time (g_logTimeZone g) now @ tid_text (sys_tid sys) @
        LogLevelName level @ c_str func @ '' '') level file line" for level func
  proof -
    obtain l th' where l: "Impl_ctor g sys now level 0 file line th = Inr (l, th')" "thread_ok (g_logTimeZone g) (sys_tid sys) th'"
      "logger_has l (log_time (g_logTimeZone g) now @ tid_text (sys_tid sys) @ LogLevelName level @ errno_text sys 0) level file line"
      using I[of level 0] by blast
    from logger_has_items[OF l(3), of "[LCString (Some func), LChar (CHR '' '')]"] l(1,2) show ?thesis
      by (simp add: errno_text_def)
  qed
  have [simp]: "errno_text sys 0 = []" by (simp add: errno_text_def)
  show ?thesis
  proof (cases m)
    case (LOG_TRACE f)
    then show ?thesis using func[of TRACE f] by (simp del: Logger_ctor.simps)
  next
    case (LOG_DEBUG f)
    then show ?thesis using func[of DEBUG f] by (simp del: Logger_ctor.simps)
  qed (use I[of INFO 0] I[of WARN 0] I[of ERROR 0] I[of FATAL 0] I[of ERROR e] I[of FATAL e] in simp_all)
qed

lemma log_statement_ok:
  assumes "thread_ok (g_logTimeZone g) (sys_tid sys) th" "stmt_ok g sys st" "0 < sys_tid sys" "sys_tid sys < 2 ^ 31"
    "macro_enabled (g_logLevel g) (st_macro st)"
  shows "\<exists>th'. log_statement g sys st th = Inr (th', Some (log_text g sys st, macro_level (st_macro st) = FATAL)) \<and>
    thread_ok (g_logTimeZone g) (sys_tid sys) th'"
proof -
  let ?file = "SourceFile_literal (st_file st)"
  have t: "time_ok (g_logTimeZone g) (st_now st div 1000000)" using assms(2) by (simp add: stmt_ok_def)
  obtain l th' where l: "Logger_ctor (macro_args (st_macro st)) g sys (st_now st) (st_errno st) ?file (st_line st) th = Inr (l, th')"
    "thread_ok (g_logTimeZone g) (sys_tid sys) th'"
    "logger_has l (log_time (g_logTimeZone g) (st_now st) @ tid_text (sys_tid sys) @ LogLevelName (macro_level (st_macro st)) @
       macro_text sys (st_errno st) (st_macro st)) (macro_level (st_macro st)) ?file (st_line st)"
    using Logger_ctor_ok[OF assms(1) t assms(3,4)] by blast
  let ?l = "l\<lparr>lg_stream := stream_items (st_items st) (lg_stream l)\<rparr>"
  let ?tail = "[LCString (Some '' - ''), LText ?file, LChar (CHR '':''), LInt (st_line st), LChar LF]"
  have f: "lg_basename l = ?file" "lg_line l = st_line st" "lg_level l = macro_level (st_macro st)"
    using l(3) by (simp_all add: logger_has_def)
  from logger_has_items[OF logger_has_items[OF l(3)], of ?tail "st_items st"] obtain xs where
    xs: "stream_items ?tail (lg_stream ?l) = stream_items xs (FixedBuffer_ctor kSmallBuffer)" "concat (map item_text xs) = log_text g sys st"
    unfolding logger_has_def using assms(2)
    by (auto simp: log_text_def LogLevelName_field SourceFile_base_name stmt_ok_def)
  have "fb_data (stream_items xs (FixedBuffer_ctor kSmallBuffer)) = log_text g sys st"
    using stream_items_fits[of "FixedBuffer_ctor kSmallBuffer" xs] assms(2) xs(2)
    by (simp add: FixedBuffer_ctor_def fb_length_def stmt_ok_def)
  then have "Logger_dtor ?l = (log_text g sys st, macro_level (st_macro st) = FATAL)"
    using xs(1) f by (simp add: Logger_dtor_def impl_finish_def Let_def)
  then show ?thesis using l(1,2) assms(5) by (simp add: log_statement_def)
qed

section \<open>The registry\<close>

text \<open>The specification of one name: absent, or the path of the first configuration with the lines since.\<close>

fun name_step :: "string \<Rightarrow> logger_op \<Rightarrow> (string \<times> string list) option \<Rightarrow> (string \<times> string list) option" where
  "name_step n (AddLogger name path rollSize) v = (if v = None \<and> name = n then Some (path, []) else v)"
| "name_step n (AddLoggers dictLst) v = (case v of Some x \<Rightarrow> Some x | None \<Rightarrow> map_option (\<lambda>p. (p, [])) (map_of dictLst n))"
| "name_step n (Info name str) v = (if name = n then map_option (\<lambda>(p, ls). (p, ls @ [str])) v else v)"

definition logger_view :: "file_logger \<Rightarrow> string \<times> string list" where
  "logger_view l = (fl_path l, al_lines (fl_async l))"

lemma logger_view_simps [simp]:
  "logger_view (FileLogger_ctor name path rollSize) = (path, [])"
  "logger_view (FileLogger_info str l) = (fst (logger_view l), snd (logger_view l) @ [str])"
  by (simp_all add: logger_view_def FileLogger_ctor_def FileLogger_info_def async_started_def AsyncLogging_ctor_def async_append_def Let_def)

lemma addLogger_pairs:
  "map_of (fold addLogger_pair ps dict) n = (case map_of dict n of Some l \<Rightarrow> Some l
     | None \<Rightarrow> map_option (\<lambda>p. FileLogger_ctor n p ROLL_SIZE) (map_of ps n))"
  by (induction ps arbitrary: dict) (auto simp: addLogger_pair_def split: option.splits)

lemma logger_do_view:
  "map_option logger_view (map_of (logger_do op dict) n) = name_step n op (map_option logger_view (map_of dict n))"
proof (cases op)
  case (AddLoggers ps)
  then show ?thesis by (simp add: addLogger_list_def addLogger_pairs option.map_comp comp_def split: option.splits)
qed (auto simp: addLogger_def getFileLogger_def split_def split: option.splits)

theorem file_loggers_route:
  "map_option logger_view (getFileLogger n (fold logger_do ops [])) = fold (name_step n) ops None"
proof -
  have "map_option logger_view (map_of (fold logger_do ops dict) n) = fold (name_step n) ops (map_option logger_view (map_of dict n))" for dict
    by (induction ops arbitrary: dict) (simp_all add: logger_do_view)
  from this[of "[]"] show ?thesis by (simp add: getFileLogger_def)
qed

section \<open>Properties\<close>

text \<open>(C32) Log lines are what they should be. Let a thread have a positive number, and let its statements be made at times after the
  epoch in four-digit years, in files whose name has no NUL, with lines that leave the 4000 bytes of the stream room for a number (44 bytes;
  of a longer line operands, or its end, are lost). Then the statements put out exactly the shown
  ones, one line each in order: time, thread, level, error or function, operands, base name and line
  number, newline. Shown are traces at level TRACE, debug lines at DEBUG and below, information at INFO and below, and everything else always. The second kept from the last statement never shows in the text, whichever way the
  clock moves. Warnings and worse are never suppressed, no assertion fails, and the first fatal line is put out
  before the process aborts.\<close>

theorem log_lines_exact:
  assumes "0 < sys_tid sys" "sys_tid sys < 2 ^ 31" "list_all (stmt_ok g sys) sts"
  shows "log_run g sys sts log_thread_new = Inr (log_spec g sys sts)"
proof -
  have "log_run g sys sts th = Inr (log_spec g sys sts)" if "thread_ok (g_logTimeZone g) (sys_tid sys) th" for th
    using that assms(3)
  proof (induction sts arbitrary: th)
    case (Cons st sts)
    then have ok: "stmt_ok g sys st" "list_all (stmt_ok g sys) sts" by simp_all
    show ?case
    proof (cases "macro_enabled (g_logLevel g) (st_macro st)")
      case True
      then have "shown (g_logLevel g) (macro_level (st_macro st))" by (simp add: macro_enabled_shown)
      moreover obtain th' where "log_statement g sys st th = Inr (th', Some (log_text g sys st, macro_level (st_macro st) = FATAL))"
        "thread_ok (g_logTimeZone g) (sys_tid sys) th'"
        using log_statement_ok[OF Cons.prems(1) ok(1) assms(1,2) True] by blast
      ultimately show ?thesis using Cons.IH[OF _ ok(2)] by (simp add: split_def)
    next
      case False
      then have "\<not> shown (g_logLevel g) (macro_level (st_macro st))" by (simp add: macro_enabled_shown)
      with False show ?thesis using Cons.IH[OF Cons.prems(1) ok(2)] by (simp add: log_statement_def)
    qed
  qed simp
  then show ?thesis by (simp add: thread_ok_def cache_ok_def log_thread_new_def)
qed

text \<open>Three statements in one second: one below the level, one at it and a fatal one.\<close>

definition demo_globals :: log_globals where
  "demo_globals = \<lparr>g_logLevel = INFO, g_logTimeZone = None\<rparr>"

definition demo_sys :: log_sys where
  "demo_sys = \<lparr>sys_tid = 1234, sys_strerror = (\<lambda>_. ''Bad file descriptor'')\<rparr>"

definition demo_stmts :: "log_stmt list" where
  "demo_stmts =
     [\<lparr>st_macro = LOG_DEBUG ''f'', st_file = ''net/a.cc'', st_line = 6, st_items = [], st_now = 1000000000000004, st_errno = 0\<rparr>,
      \<lparr>st_macro = LOG_INFO, st_file = ''net/a.cc'', st_line = 7, st_items = [LText ''fd '', LInt 5], st_now = 1000000000000005, st_errno = 9\<rparr>,
      \<lparr>st_macro = LOG_SYSFATAL, st_file = ''net/a.cc'', st_line = 8, st_items = [], st_now = 1000000000000250, st_errno = 9\<rparr>,
      \<lparr>st_macro = LOG_INFO, st_file = ''net/a.cc'', st_line = 9, st_items = [], st_now = 1000000000000251, st_errno = 0\<rparr>]"

lemma demo_second: "second_text None 1000000000 = ''20010909 01:46:40''"
proof -
  have ymd: "civil_date 2452162 = \<lparr>ymd_year = 2001, ymd_month = 9, ymd_day = 9\<rparr>"
    by (simp add: civil_date_def Let_def sdiv_nonneg)
  have pads: "pad_blank 4 2001 = ''2001''" "pad_zero 2 9 = ''09''" "pad_zero 2 1 = ''01''" "pad_zero 2 46 = ''46''"
    "pad_zero 2 40 = ''40''" by code_simp+
  show ?thesis by (simp add: second_text_def shown_seconds_def gmtime_def ymd Let_def format_tm_def pads)
qed

lemma demo_pieces:
  "pad_zero 6 5 = ''000005''" "pad_zero 6 250 = ''000250''" "tid_text 1234 = '' 1234 ''" "dec_int 5 = ''5''"
  "dec_int 7 = ''7''" "dec_int 8 = ''8''" "dec_int 9 = ''9''" "base_name ''net/a.cc'' = ''a.cc''"
  "pad_zero 6 4 = ''000004''" "pad_zero 6 251 = ''000251''" "dec_int 6 = ''6''"
  "c_str ''Bad file descriptor'' = ''Bad file descriptor''" "c_str ''f'' = ''f''"
  by code_simp+

lemmas demo_log_line_simps = demo_globals_def demo_sys_def demo_stmts_def log_text_def log_time_def demo_second demo_pieces errno_text_def
  level_field_def shown_def numeral_2_eq_2

lemma demo_stmts_ok: "list_all (stmt_ok demo_globals demo_sys) demo_stmts"
  by (simp add: demo_log_line_simps stmt_ok_def time_ok_def shown_seconds_def kMaxNumericSize_def kSmallBuffer_def)

lemma demo_spec: "log_spec demo_globals demo_sys demo_stmts =
  ([''20010909 01:46:40.000005Z  1234 INFO  fd 5 - a.cc:7'' @ [LF],
    ''20010909 01:46:40.000250Z  1234 FATAL Bad file descriptor (errno=9)  - a.cc:8'' @ [LF]], True)"
  by (simp add: demo_log_line_simps)

theorem log_lines_exact_witness:
  "log_run demo_globals demo_sys demo_stmts log_thread_new =
    Inr ([''20010909 01:46:40.000005Z  1234 INFO  fd 5 - a.cc:7'' @ [LF],
          ''20010909 01:46:40.000250Z  1234 FATAL Bad file descriptor (errno=9)  - a.cc:8'' @ [LF]], True)"
proof -
  have "0 < sys_tid demo_sys" "sys_tid demo_sys < 2 ^ 31" by (simp_all add: demo_sys_def)
  from log_lines_exact[OF this demo_stmts_ok] show ?thesis by (simp only: demo_spec)
qed

end
