(* ===== verification/Base_LogFile.thy ===== *)
theory Base_LogFile
  imports File_Util Base_TimeZone
begin

text \<open>
  \<^verbatim>\<open>base/LogFile.{h,cc}\<close>: the file the log goes to. It is changed for a new one, named after the second it was
  begun, when it has grown past a size, and when a line is logged on another day. The clock, the host
  name, the process number, whether \<^verbatim>\<open>fopen\<close> succeeds and what \<^verbatim>\<open>fwrite\<close> accepts are parameters. The mutex only
  orders the calls.
\<close>

record log_file =
  lf_basename :: string
  lf_rollSize :: int
  lf_flushInterval :: int
  lf_checkEveryN :: int
  lf_count :: int
  lf_startOfPeriod :: int
  lf_lastRoll :: int
  lf_lastFlush :: int
  lf_file :: "(string \<times> AppendFile) option"   \<comment> \<open>\<^verbatim>\<open>file_\<close> with its name\<close>
  lf_closed :: "(string \<times> string) list"         \<comment> \<open>the files closed before, with their content\<close>

record log_env =
  env_hostname :: string
  env_pid :: int
  env_fopen :: "string \<Rightarrow> bool"
  env_fwrite :: "nat \<Rightarrow> nat \<Rightarrow> nat"

definition kRollPerSeconds :: int where "kRollPerSeconds = 60 * 60 * 24"

text \<open>\<^verbatim>\<open>strftime\<close> with \<^verbatim>\<open>.%Y%m%d-%H%M%S.\<close>\<close>

definition roll_time :: "tm \<Rightarrow> string" where
  "roll_time t = ''.'' @ dec_int (tm_year t + 1900) @ pad_zero 2 (tm_mon t + 1) @ pad_zero 2 (tm_mday t) @ ''-'' @
     pad_zero 2 (tm_hour t) @ pad_zero 2 (tm_min t) @ pad_zero 2 (tm_sec t) @ ''.''"

definition getLogFileName :: "log_env \<Rightarrow> string \<Rightarrow> int \<Rightarrow> string" where
  "getLogFileName env basename now =
     basename @ roll_time (gmtime now) @ env_hostname env @ snprintf 32 (''.'' @ dec_int (env_pid env)) @ ''.log''"

definition rollFile :: "log_env \<Rightarrow> int \<Rightarrow> log_file \<Rightarrow> (bool \<times> log_file) result" where
  "rollFile env now s =
     (let filename = getLogFileName env (lf_basename s) now;
          start = now sdiv kRollPerSeconds * kRollPerSeconds
      in if lf_lastRoll s < now
         then andThen (AppendFile_ctor (env_fopen env filename)) (\<lambda>f.
              Inr (True, s\<lparr>lf_lastRoll := now, lf_lastFlush := now, lf_startOfPeriod := start,
                lf_closed := lf_closed s @ (case lf_file s of None \<Rightarrow> [] | Some (n, old) \<Rightarrow> [(n, af_data old)]),
                lf_file := Some (filename, f)\<rparr>))
         else Inr (False, s))"

definition LogFile_ctor :: "log_env \<Rightarrow> int \<Rightarrow> string \<Rightarrow> int \<Rightarrow> int \<Rightarrow> int \<Rightarrow> log_file result" where
  "LogFile_ctor env now basename rollSize flushInterval checkEveryN =
     andThen (rollFile env now \<lparr>lf_basename = basename, lf_rollSize = rollSize, lf_flushInterval = flushInterval,
       lf_checkEveryN = checkEveryN, lf_count = 0, lf_startOfPeriod = 0, lf_lastRoll = 0, lf_lastFlush = 0,
       lf_file = None, lf_closed = []\<rparr>) (\<lambda>(_, s). Inr s)"

text \<open>\<^verbatim>\<open>append_unlocked\<close>: \<open>t1\<close> is the time the period is checked with, \<open>t2\<close> the one \<^verbatim>\<open>rollFile\<close> reads.\<close>

definition lf_append :: "log_env \<Rightarrow> int \<Rightarrow> int \<Rightarrow> string \<Rightarrow> log_file \<Rightarrow> log_file result" where
  "lf_append env t1 t2 logline s = (case lf_file s of None \<Rightarrow> Inl SegFault | Some (name, f) \<Rightarrow>
     (let f = af_append (env_fwrite env) logline f;
          s = s\<lparr>lf_file := Some (name, f)\<rparr>
      in if lf_rollSize s < int (af_writtenBytes f) then andThen (rollFile env t2 s) (\<lambda>(_, s). Inr s)
         else let s = s\<lparr>lf_count := lf_count s + 1\<rparr>
              in if lf_checkEveryN s \<le> lf_count s then
                   let s = s\<lparr>lf_count := 0\<rparr>;
                       thisPeriod = t1 sdiv kRollPerSeconds * kRollPerSeconds
                   in if thisPeriod \<noteq> lf_startOfPeriod s then andThen (rollFile env t2 s) (\<lambda>(_, s). Inr s)
                      else if lf_flushInterval s < t1 - lf_lastFlush s then Inr (s\<lparr>lf_lastFlush := t1\<rparr>)
                      else Inr s
                 else Inr s))"

text \<open>A run: the lines with the two clock readings of each call.\<close>

definition lf_run :: "log_env \<Rightarrow> (string \<times> int \<times> int) list \<Rightarrow> log_file \<Rightarrow> log_file result" where
  "lf_run env = fold_result (\<lambda>(line, t1, t2). lf_append env t1 t2 line)"

section \<open>Names\<close>

lemma digits_val_zeros: "digits_val (replicate k (CHR ''0'') @ s) = digits_val s"
  by (induction k) (simp_all add: digits_val_def digit_val_def)

lemma pad_zero_2:
  assumes "0 \<le> i" "i < 100"
  shows "length (pad_zero 2 i) = 2" "digits_val (pad_zero 2 i) = nat i"
proof -
  have "length (dec_nat (nat i)) \<le> 2" using length_dec_nat[of "nat i" 1] assms by (simp add: numeral_2_eq_2)
  then show "length (pad_zero 2 i) = 2" using assms by (simp add: pad_zero_def Let_def)
  show "digits_val (pad_zero 2 i) = nat i"
    using assms by (simp add: pad_zero_def Let_def digits_val_zeros digits_val_dec_nat)
qed

lemma pad_zero_2_inj:
  assumes "0 \<le> i" "i < 100" "0 \<le> j" "j < 100" "pad_zero 2 i @ xs = pad_zero 2 j @ ys"
  shows "i = j \<and> xs = ys"
proof -
  have "pad_zero 2 i = pad_zero 2 j" "xs = ys"
    using assms(5) pad_zero_2(1)[OF assms(1,2)] pad_zero_2(1)[OF assms(3,4)] by (auto simp: append_eq_append_conv)
  then show ?thesis using pad_zero_2(2)[OF assms(1,2)] pad_zero_2(2)[OF assms(3,4)] assms(1,3) by simp
qed

lemma roll_time_inj:
  assumes "tm_ok a" "tm_ok b" "roll_time a = roll_time b"
  shows "timegm a = timegm b"
proof -
  let ?r = "\<lambda>t. pad_zero 2 (tm_mon t + 1) @ pad_zero 2 (tm_mday t) @ ''-'' @
     pad_zero 2 (tm_hour t) @ pad_zero 2 (tm_min t) @ pad_zero 2 (tm_sec t) @ ''.''"
  have len: "length (?r t) = 12" if "tm_ok t" for t
    using that by (simp add: tm_ok_def pad_zero_2(1))
  have eq: "dec_int (tm_year a + 1900) @ ?r a = dec_int (tm_year b + 1900) @ ?r b" using assms(3) by (simp add: roll_time_def)
  have L: "length (?r a) = length (?r b)" using len[OF assms(1)] len[OF assms(2)] by metis
  have y: "dec_int (tm_year a + 1900) = dec_int (tm_year b + 1900)" and r: "?r a = ?r b"
    using iffD1[OF append_eq_append_conv[OF disjI2[OF L]] eq] by blast+
  have 1: "tm_mon a + 1 = tm_mon b + 1 \<and> pad_zero 2 (tm_mday a) @ ''-'' @ pad_zero 2 (tm_hour a) @ pad_zero 2 (tm_min a) @
      pad_zero 2 (tm_sec a) @ ''.'' = pad_zero 2 (tm_mday b) @ ''-'' @ pad_zero 2 (tm_hour b) @ pad_zero 2 (tm_min b) @
      pad_zero 2 (tm_sec b) @ ''.''"
    by (rule pad_zero_2_inj[OF _ _ _ _ r]) (use assms(1,2) in \<open>simp_all add: tm_ok_def\<close>)
  have 2: "tm_mday a = tm_mday b \<and> ''-'' @ pad_zero 2 (tm_hour a) @ pad_zero 2 (tm_min a) @
      pad_zero 2 (tm_sec a) @ ''.'' = ''-'' @ pad_zero 2 (tm_hour b) @ pad_zero 2 (tm_min b) @ pad_zero 2 (tm_sec b) @ ''.''"
    by (rule pad_zero_2_inj[OF _ _ _ _ conjunct2[OF 1]]) (use assms(1,2) in \<open>simp_all add: tm_ok_def\<close>)
  then have r2: "pad_zero 2 (tm_hour a) @ pad_zero 2 (tm_min a) @ pad_zero 2 (tm_sec a) @ ''.'' =
      pad_zero 2 (tm_hour b) @ pad_zero 2 (tm_min b) @ pad_zero 2 (tm_sec b) @ ''.''" by simp
  have 3: "tm_hour a = tm_hour b \<and> pad_zero 2 (tm_min a) @ pad_zero 2 (tm_sec a) @ ''.'' =
      pad_zero 2 (tm_min b) @ pad_zero 2 (tm_sec b) @ ''.''"
    by (rule pad_zero_2_inj[OF _ _ _ _ r2]) (use assms(1,2) in \<open>simp_all add: tm_ok_def\<close>)
  have 4: "tm_min a = tm_min b \<and> pad_zero 2 (tm_sec a) @ ''.'' = pad_zero 2 (tm_sec b) @ ''.''"
    by (rule pad_zero_2_inj[OF _ _ _ _ conjunct2[OF 3]]) (use assms(1,2) in \<open>simp_all add: tm_ok_def\<close>)
  have 5: "tm_sec a = tm_sec b \<and> ''.'' = ''.''"
    by (rule pad_zero_2_inj[OF _ _ _ _ conjunct2[OF 4]]) (use assms(1,2) in \<open>simp_all add: tm_ok_def\<close>)
  show ?thesis using 1 2 3 4 5 dec_int_inj[OF y] by (simp add: timegm_def)
qed

lemma getLogFileName_inj:
  assumes "0 \<le> t" "0 \<le> u" "getLogFileName env base t = getLogFileName env base u"
  shows "t = u"
proof -
  have "roll_time (gmtime t) = roll_time (gmtime u)" using assms(3) by (simp add: getLogFileName_def)
  moreover have "tm_ok (gmtime t)" "timegm (gmtime t) = t" "tm_ok (gmtime u)" "timegm (gmtime u) = u"
    using assms(1,2) by (auto intro!: gmtime_ok)
  ultimately show ?thesis using roll_time_inj by metis
qed

section \<open>Nothing is lost\<close>

text \<open>What is assumed of the operating system: files open, and \<^verbatim>\<open>fwrite\<close> accepts at least a byte.\<close>

definition env_ok :: "log_env \<Rightarrow> bool" where
  "env_ok env \<longleftrightarrow> (\<forall>n. env_fopen env n) \<and> (\<forall>k n. 0 < n \<longrightarrow> 0 < env_fwrite env k n)"

text \<open>The files hold whole lines, in order; each is named after a later second than the one before.\<close>

definition lf_inv :: "log_env \<Rightarrow> string list \<Rightarrow> log_file \<Rightarrow> bool" where
  "lf_inv env lines s \<longleftrightarrow>
     (\<exists>ts gs g f. lf_file s = Some (getLogFileName env (lf_basename s) (lf_lastRoll s), f) \<and>
        af_writtenBytes f = length (af_data f) \<and> sorted_wrt (<) (0 # ts @ [lf_lastRoll s]) \<and>
        map fst (lf_closed s) = map (getLogFileName env (lf_basename s)) ts \<and>
        map snd (lf_closed s) = map concat gs \<and> af_data f = concat g \<and> concat gs @ g = lines)"

definition lf_fields :: "log_file \<Rightarrow> string \<times> int" where
  "lf_fields s = (lf_basename s, lf_rollSize s)"

lemma rollFile_ok:
  assumes "env_ok env" "lf_inv env lines s"
  shows "\<exists>b s'. rollFile env now s = Inr (b, s') \<and> lf_inv env lines s' \<and> lf_fields s' = lf_fields s \<and>
    now \<le> lf_lastRoll s'"
proof (cases "lf_lastRoll s < now")
  case True
  obtain ts gs g f where I: "lf_file s = Some (getLogFileName env (lf_basename s) (lf_lastRoll s), f)"
    "af_writtenBytes f = length (af_data f)" "sorted_wrt (<) (0 # ts @ [lf_lastRoll s])"
    "map fst (lf_closed s) = map (getLogFileName env (lf_basename s)) ts"
    "map snd (lf_closed s) = map concat gs" "af_data f = concat g" "concat gs @ g = lines"
    using assms(2) unfolding lf_inv_def by blast
  define s' where "s' = s\<lparr>lf_lastRoll := now, lf_lastFlush := now, lf_startOfPeriod := now sdiv kRollPerSeconds * kRollPerSeconds,
      lf_closed := lf_closed s @ [(getLogFileName env (lf_basename s) (lf_lastRoll s), af_data f)],
      lf_file := Some (getLogFileName env (lf_basename s) now, \<lparr>af_data = [], af_writtenBytes = 0\<rparr>)\<rparr>"
  have "rollFile env now s = Inr (True, s')"
    using True assms(1) I(1) by (simp add: rollFile_def AppendFile_ctor_def env_ok_def Let_def s'_def)
  moreover have "lf_inv env lines s'"
    unfolding lf_inv_def
    by (rule exI[of _ "ts @ [lf_lastRoll s]"], rule exI[of _ "gs @ [g]"], rule exI[of _ "[]"],
        rule exI[of _ "\<lparr>af_data = [], af_writtenBytes = 0\<rparr>"])
      (use True I in \<open>auto simp: s'_def sorted_wrt_append\<close>)
  ultimately show ?thesis using True by (auto simp: s'_def lf_fields_def)
next
  case False
  then show ?thesis using assms(2) by (auto simp: rollFile_def Let_def)
qed

lemma af_append_ok:
  assumes "env_ok env"
  shows "af_data (af_append (env_fwrite env) line f) = af_data f @ line"
    "af_writtenBytes (af_append (env_fwrite env) line f) = af_writtenBytes f + length line"
proof -
  have "append_rest (env_fwrite env) k rest = rest" for k rest
    using assms by (intro append_rest_complete) (simp add: env_ok_def)
  then show "af_data (af_append (env_fwrite env) line f) = af_data f @ line"
    "af_writtenBytes (af_append (env_fwrite env) line f) = af_writtenBytes f + length line"
    by (simp_all add: af_append_def Let_def)
qed

lemma lf_inv_count [simp]:
  "lf_inv env lines (s\<lparr>lf_count := c\<rparr>) = lf_inv env lines s" "lf_inv env lines (s\<lparr>lf_lastFlush := t\<rparr>) = lf_inv env lines s"
  by (simp_all add: lf_inv_def)

definition not_oversize :: "int \<Rightarrow> log_file \<Rightarrow> bool" where
  "not_oversize t s \<longleftrightarrow> (\<forall>n f. lf_file s = Some (n, f) \<and> lf_rollSize s < int (af_writtenBytes f) \<longrightarrow> t \<le> lf_lastRoll s)"

lemma lf_append_ok:
  assumes env: "env_ok env" and inv: "lf_inv env lines s"
  shows "\<exists>s'. lf_append env t1 t2 line s = Inr s' \<and> lf_inv env (lines @ [line]) s' \<and> lf_fields s' = lf_fields s \<and>
    not_oversize t2 s'"
proof -
  obtain ts gs g f where I: "lf_file s = Some (getLogFileName env (lf_basename s) (lf_lastRoll s), f)"
    "af_writtenBytes f = length (af_data f)" "sorted_wrt (<) (0 # ts @ [lf_lastRoll s])"
    "map fst (lf_closed s) = map (getLogFileName env (lf_basename s)) ts"
    "map snd (lf_closed s) = map concat gs" "af_data f = concat g" "concat gs @ g = lines"
    using inv unfolding lf_inv_def by blast
  define f' where "f' = af_append (env_fwrite env) line f"
  define s1 where "s1 = s\<lparr>lf_file := Some (getLogFileName env (lf_basename s) (lf_lastRoll s), f')\<rparr>"
  have inv1: "lf_inv env (lines @ [line]) s1"
    unfolding lf_inv_def by (rule exI[of _ ts], rule exI[of _ gs], rule exI[of _ "g @ [line]"], rule exI[of _ f'])
      (use I in \<open>simp add: s1_def f'_def af_append_ok[OF env]\<close>)
  have fields: "lf_fields s1 = lf_fields s" by (simp add: s1_def lf_fields_def)
  have roll: "\<exists>s'. andThen (rollFile env t2 x) (\<lambda>(_, s). Inr s) = Inr s' \<and> lf_inv env (lines @ [line]) s' \<and>
      lf_fields s' = lf_fields s \<and> not_oversize t2 s'" if "lf_inv env (lines @ [line]) x" "lf_fields x = lf_fields s" for x
    using rollFile_ok[OF env that(1), of t2] that(2) by (auto simp: not_oversize_def)
  have small: "not_oversize t2 x" if "lf_file x = lf_file s1" "lf_rollSize x = lf_rollSize s"
    "\<not> lf_rollSize s < int (af_writtenBytes f')" for x
    using that by (simp add: not_oversize_def s1_def)
  let ?c = "s1\<lparr>lf_count := lf_count s1 + 1\<rparr>" and ?z = "s1\<lparr>lf_count := 0\<rparr>"
  have run: "lf_append env t1 t2 line s = (if lf_rollSize s < int (af_writtenBytes f')
      then andThen (rollFile env t2 s1) (\<lambda>(_, s). Inr s)
      else if \<not> lf_checkEveryN s \<le> lf_count s + 1 then Inr ?c
      else if t1 sdiv kRollPerSeconds * kRollPerSeconds \<noteq> lf_startOfPeriod s then andThen (rollFile env t2 ?z) (\<lambda>(_, s). Inr s)
      else if lf_flushInterval s < t1 - lf_lastFlush s then Inr (?z\<lparr>lf_lastFlush := t1\<rparr>) else Inr ?z)"
    using I(1) by (simp add: lf_append_def Let_def f'_def s1_def)
  show ?thesis
    unfolding run using roll[OF inv1 fields] roll[of ?z] inv1 fields
    by (auto simp: lf_fields_def s1_def intro!: small)
qed

lemma lf_run_ok:
  assumes "env_ok env" "lf_inv env lines s"
  shows "\<exists>s'. lf_run env es s = Inr s' \<and> lf_inv env (lines @ map fst es) s' \<and> lf_fields s' = lf_fields s"
  using assms(2)
proof (induction es arbitrary: lines s)
  case (Cons e es)
  obtain line t1 t2 where e: "e = (line, t1, t2)" by (cases e)
  obtain s1 where s1: "lf_append env t1 t2 line s = Inr s1" "lf_inv env (lines @ [line]) s1" "lf_fields s1 = lf_fields s"
    using lf_append_ok[OF assms(1) Cons.prems] by blast
  then show ?case using Cons.IH[OF s1(2)] by (auto simp: lf_run_def e)
qed (simp add: lf_run_def)

text \<open>The files so far, the current one last.\<close>

definition lf_files :: "log_file \<Rightarrow> (string \<times> string) list" where
  "lf_files s = lf_closed s @ (case lf_file s of None \<Rightarrow> [] | Some (n, f) \<Rightarrow> [(n, af_data f)])"

lemma lf_inv_files:
  assumes "lf_inv env lines s"
  shows "\<exists>gs. map snd (lf_files s) = map concat gs \<and> concat gs = lines" "distinct (map fst (lf_files s))"
proof -
  obtain ts gs g f where I: "lf_file s = Some (getLogFileName env (lf_basename s) (lf_lastRoll s), f)"
    "sorted_wrt (<) (0 # ts @ [lf_lastRoll s])" "map fst (lf_closed s) = map (getLogFileName env (lf_basename s)) ts"
    "map snd (lf_closed s) = map concat gs" "af_data f = concat g" "concat gs @ g = lines"
    using assms unfolding lf_inv_def by blast
  have "map snd (lf_files s) = map concat (gs @ [g])" using I by (simp add: lf_files_def)
  moreover have "concat (gs @ [g]) = lines" using I(6) by simp
  ultimately show "\<exists>gs. map snd (lf_files s) = map concat gs \<and> concat gs = lines" by blast
  let ?ts = "ts @ [lf_lastRoll s]"
  have "distinct ?ts" "\<forall>t \<in> set ?ts. 0 < t"
    using I(2) strict_sorted_iff[of ?ts] by (simp_all add: sorted_wrt_append ball_Un)
  moreover have "inj_on (getLogFileName env (lf_basename s)) (set ?ts)"
    using calculation(2) by (intro inj_onI getLogFileName_inj) (auto simp: less_imp_le)
  moreover have "map fst (lf_files s) = map (getLogFileName env (lf_basename s)) ?ts"
    using I(1,3) by (simp add: lf_files_def)
  ultimately show "distinct (map fst (lf_files s))" by (simp only: distinct_map)
qed

lemma LogFile_ctor_inv:
  assumes "env_ok env" "0 < now"
  shows "\<exists>s. LogFile_ctor env now base rollSize flushInterval checkEveryN = Inr s \<and> lf_inv env [] s"
  using assms
  by (auto simp: LogFile_ctor_def rollFile_def AppendFile_ctor_def env_ok_def lf_inv_def Let_def
      intro!: exI[of _ "[]"])

section \<open>Properties\<close>

text \<open>(C30) Log files: as long as files can be opened and \<^verbatim>\<open>fwrite\<close> makes progress, logging never fails whatever the
  clock shows. The files hold exactly the lines logged, in order, and no line is spread over two files; no
  file name is used twice. After a line the current file is larger than the roll size only if the last
  change of files was in the same second or later by the clock.\<close>

theorem log_files_hold_lines:
  assumes "env_ok env" "0 < now"
  shows "\<exists>s0 s. LogFile_ctor env now base rollSize flushInterval checkEveryN = Inr s0 \<and> lf_run env es s0 = Inr s \<and>
    (\<exists>gs. map snd (lf_files s) = map concat gs \<and> concat gs = map fst es) \<and> distinct (map fst (lf_files s)) \<and>
    (\<forall>t1 t2 line. \<exists>s'. lf_append env t1 t2 line s = Inr s' \<and> not_oversize t2 s')"
proof -
  obtain s0 where s0: "LogFile_ctor env now base rollSize flushInterval checkEveryN = Inr s0" "lf_inv env [] s0"
    using LogFile_ctor_inv[OF assms] by blast
  obtain s where s: "lf_run env es s0 = Inr s" "lf_inv env (map fst es) s"
    using lf_run_ok[OF assms(1) s0(2)] by auto
  have "\<forall>t1 t2 line. \<exists>s'. lf_append env t1 t2 line s = Inr s' \<and> not_oversize t2 s'"
    using lf_append_ok[OF assms(1) s(2)] by blast
  then show ?thesis using s0(1) s(1) lf_inv_files[OF s(2)] by blast
qed

definition demo_env :: log_env where
  "demo_env = \<lparr>env_hostname = ''h'', env_pid = 1, env_fopen = (\<lambda>_. True), env_fwrite = (\<lambda>_ n. n)\<rparr>"

theorem log_files_hold_lines_witness:
  "\<exists>s0 s. LogFile_ctor demo_env 1 ''log'' 3 3 1024 = Inr s0 \<and>
     lf_run demo_env [(''ab'', 1, 1), (''cd'', 1, 2), (''ef'', 2, 2)] s0 = Inr s \<and> distinct (map fst (lf_files s))"
proof -
  have "env_ok demo_env" by (simp add: env_ok_def demo_env_def)
  then show ?thesis using log_files_hold_lines[of demo_env 1 "''log''" 3 3 1024] by (meson zero_less_one)
qed

end
