(* ===== verification/Base_StringPiece.thy ===== *)
theory Base_StringPiece
  imports Base_TimeZone "HOL-Library.Sublist"
begin

text \<open>
  \<^verbatim>\<open>base/StringPiece.h\<close>, a window into bytes somebody else owns, and the readers of the process file system in
  \<^verbatim>\<open>base/ProcessInfo.cc\<close> that pick their answers out of text. A piece is the memory from its pointer on and an
  \<^verbatim>\<open>int\<close> length; casts to \<^verbatim>\<open>int\<close> are \<open>cast_int\<close>. What the files and directories under \<^verbatim>\<open>/proc/self\<close> hold is a parameter.
\<close>

section \<open>Pieces\<close>

record StringPiece =
  sp_ptr :: string
  sp_length :: int

definition StringPiece_default :: StringPiece where
  "StringPiece_default = \<lparr>sp_ptr = [], sp_length = 0\<rparr>"

definition StringPiece_cstr :: "string \<Rightarrow> StringPiece" where
  "StringPiece_cstr str = \<lparr>sp_ptr = str, sp_length = cast_int (int (length (c_str str)))\<rparr>"

definition StringPiece_string :: "string \<Rightarrow> StringPiece" where
  "StringPiece_string str = \<lparr>sp_ptr = str, sp_length = cast_int (int (length str))\<rparr>"

definition sp_clear :: "StringPiece \<Rightarrow> StringPiece" where
  "sp_clear x = \<lparr>sp_ptr = [], sp_length = 0\<rparr>"

definition sp_set :: "string \<Rightarrow> int \<Rightarrow> StringPiece \<Rightarrow> StringPiece" where
  "sp_set buffer len x = \<lparr>sp_ptr = buffer, sp_length = len\<rparr>"

definition remove_prefix :: "nat \<Rightarrow> StringPiece \<Rightarrow> StringPiece" where
  "remove_prefix n x = x\<lparr>sp_ptr := drop n (sp_ptr x), sp_length := sp_length x - int n\<rparr>"

definition remove_suffix :: "nat \<Rightarrow> StringPiece \<Rightarrow> StringPiece" where
  "remove_suffix n x = x\<lparr>sp_length := sp_length x - int n\<rparr>"

definition as_string :: "StringPiece \<Rightarrow> string" where
  "as_string x = take (nat (sp_length x)) (sp_ptr x)"

text \<open>\<^verbatim>\<open>memcmp\<close> on \<open>n\<close> bytes compares them as unsigned; reading past the memory does not occur for pieces that lie
  within theirs.\<close>

fun memcmp :: "nat \<Rightarrow> string \<Rightarrow> string \<Rightarrow> int" where
  "memcmp (Suc n) (a # as) (b # bs) = (if a = b then memcmp n as bs else if (of_char a :: nat) < of_char b then - 1 else 1)"
| "memcmp _ _ _ = 0"

definition sp_memcmp :: "StringPiece \<Rightarrow> StringPiece \<Rightarrow> int" where
  "sp_memcmp x y = memcmp (nat (if sp_length x < sp_length y then sp_length x else sp_length y)) (sp_ptr x) (sp_ptr y)"

definition sp_eq :: "StringPiece \<Rightarrow> StringPiece \<Rightarrow> bool" where
  "sp_eq x y \<longleftrightarrow> sp_length x = sp_length y \<and> memcmp (nat (sp_length x)) (sp_ptr x) (sp_ptr y) = 0"

definition sp_less :: "StringPiece \<Rightarrow> StringPiece \<Rightarrow> bool" where
  "sp_less x y \<longleftrightarrow> sp_memcmp x y < 0 \<or> sp_memcmp x y = 0 \<and> sp_length x < sp_length y"

definition sp_le :: "StringPiece \<Rightarrow> StringPiece \<Rightarrow> bool" where
  "sp_le x y \<longleftrightarrow> sp_memcmp x y < 0 \<or> sp_memcmp x y = 0 \<and> sp_length x \<le> sp_length y"

definition sp_ge :: "StringPiece \<Rightarrow> StringPiece \<Rightarrow> bool" where
  "sp_ge x y \<longleftrightarrow> sp_memcmp x y > 0 \<or> sp_memcmp x y = 0 \<and> sp_length x \<ge> sp_length y"

definition sp_gt :: "StringPiece \<Rightarrow> StringPiece \<Rightarrow> bool" where
  "sp_gt x y \<longleftrightarrow> sp_memcmp x y > 0 \<or> sp_memcmp x y = 0 \<and> sp_length x > sp_length y"

definition sp_compare :: "StringPiece \<Rightarrow> StringPiece \<Rightarrow> int" where
  "sp_compare x y = (let r = sp_memcmp x y
     in if r = 0 then if sp_length x < sp_length y then - 1 else if sp_length x > sp_length y then 1 else r else r)"

definition starts_with :: "StringPiece \<Rightarrow> StringPiece \<Rightarrow> bool" where
  "starts_with x y \<longleftrightarrow> sp_length x \<ge> sp_length y \<and> memcmp (nat (sp_length y)) (sp_ptr x) (sp_ptr y) = 0"

section \<open>The process file system\<close>

text \<open>\<^verbatim>\<open>string::find\<close> of a text, and \<^verbatim>\<open>atoi\<close>: no digits is 0, and the C library saturates at \<^verbatim>\<open>long\<close> and casts.\<close>

definition find_text :: "string \<Rightarrow> string \<Rightarrow> nat option" where
  "find_text pat s = find (\<lambda>i. take (length pat) (drop i s) = pat) [0..<Suc (length s)]"

definition atoi :: "string \<Rightarrow> int" where
  "atoi s =
     (let t = dropWhile isspace s;
          neg = (t \<noteq> [] \<and> hd t = CHR ''-'');
          u = (if t \<noteq> [] \<and> (hd t = CHR ''-'' \<or> hd t = CHR ''+'') then tl t else t);
          v = int (digits_val (takeWhile isdigit u))
      in cast_int (min (2 ^ 63 - 1) (max (- (2 ^ 63)) (if neg then - v else v))))"

definition procname :: "string \<Rightarrow> StringPiece" where
  "procname stat = (case (str_find (CHR ''('') stat, str_find_last (CHR '')'') stat) of
     (Some lp, Some rp) \<Rightarrow> if lp < rp then sp_set (drop (lp + 1) stat) (cast_int (int (rp - lp - 1))) StringPiece_default
                            else StringPiece_default
   | _ \<Rightarrow> StringPiece_default)"

definition numThreads :: "string \<Rightarrow> int" where
  "numThreads status = (case find_text ''Threads:'' status of None \<Rightarrow> 0 | Some pos \<Rightarrow> atoi (c_str (drop (pos + 8) status)))"

text \<open>The entries of a directory; the filters keep none, so that \<^verbatim>\<open>scandir\<close> returns no list.\<close>

definition digit_name :: "string \<Rightarrow> bool" where
  "digit_name d \<longleftrightarrow> d \<noteq> [] \<and> isdigit (hd d)"

definition openedFiles :: "string list \<Rightarrow> int" where
  "openedFiles entries = fold (\<lambda>d n. if digit_name d then n + 1 else n) entries 0"

definition threads_of :: "string list \<Rightarrow> int list" where
  "threads_of entries = sort (fold (\<lambda>d pids. if digit_name d then pids @ [atoi d] else pids) entries [])"

definition maxOpenFiles :: "nat option \<Rightarrow> string list \<Rightarrow> int" where
  "maxOpenFiles rlim_cur entries = (case rlim_cur of None \<Rightarrow> openedFiles entries | Some n \<Rightarrow> cast_int (int n))"

definition pidString :: "int \<Rightarrow> string" where
  "pidString pid = snprintf 32 (dec_int pid)"

definition hostname_text :: "string option \<Rightarrow> string" where
  "hostname_text name = (case name of Some buf \<Rightarrow> c_str (take 255 buf) | None \<Rightarrow> ''unknownhost'')"

section \<open>Order\<close>

definition sp_valid :: "StringPiece \<Rightarrow> bool" where
  "sp_valid x \<longleftrightarrow> 0 \<le> sp_length x \<and> sp_length x \<le> int (length (sp_ptr x))"

lemma sp_validD:
  assumes "sp_valid x"
  shows "0 \<le> sp_length x" "nat (sp_length x) \<le> length (sp_ptr x)" "length (as_string x) = nat (sp_length x)"
  using assms by (auto simp: sp_valid_def as_string_def min_def nat_le_iff)

lemma memcmp_take: "memcmp n as bs = memcmp n (take n as) (take n bs)"
  by (induction n as bs rule: memcmp.induct) simp_all

lemma memcmp_values: "memcmp n as bs \<in> {- 1, 0, 1}"
  by (induction n as bs rule: memcmp.induct) simp_all

lemma memcmp_zero: "n \<le> length as \<Longrightarrow> n \<le> length bs \<Longrightarrow> memcmp n as bs = 0 \<longleftrightarrow> take n as = take n bs"
  by (induction n as bs rule: memcmp.induct) auto

text \<open>The sign of \<^verbatim>\<open>memcmp\<close> on the common length, then the lengths, decide as the order of strings does.\<close>

lemma memcmp_less:
  "memcmp (min (length u) (length v)) u v < 0 \<or> memcmp (min (length u) (length v)) u v = 0 \<and> length u < length v \<longleftrightarrow> u < v"
proof (induction u arbitrary: v)
  case Nil
  then show ?case by (cases v) simp_all
next
  case (Cons a u)
  show ?case
  proof (cases v)
    case (Cons b w)
    show ?thesis using Cons.IH[of w] Cons by (auto simp: less_char_def)
  qed simp
qed

lemma memcmp_swap: "memcmp n v u = - memcmp n u v"
proof (induction n u v rule: memcmp.induct)
  case (1 n a as b bs)
  then show ?case by (auto simp flip: less_char_def)
qed simp_all

lemma sp_memcmp_strings:
  assumes "sp_valid x" "sp_valid y"
  shows "sp_memcmp x y = memcmp (min (length (as_string x)) (length (as_string y))) (as_string x) (as_string y)"
    "sp_length x = int (length (as_string x))" "sp_length y = int (length (as_string y))"
proof -
  let ?m = "nat (sp_length x)" and ?n = "nat (sp_length y)"
  note len = sp_validD(3)[OF assms(1)] sp_validD(3)[OF assms(2)]
  have "memcmp (min ?m ?n) (sp_ptr x) (sp_ptr y) = memcmp (min ?m ?n) (as_string x) (as_string y)"
    by (subst memcmp_take, subst (2) memcmp_take) (simp add: as_string_def)
  moreover have "nat (if sp_length x < sp_length y then sp_length x else sp_length y) = min ?m ?n" by (auto simp: min_def)
  ultimately show "sp_memcmp x y = memcmp (min (length (as_string x)) (length (as_string y))) (as_string x) (as_string y)"
    unfolding len by (simp add: sp_memcmp_def)
  show "sp_length x = int (length (as_string x))" "sp_length y = int (length (as_string y))"
    using sp_validD(1)[OF assms(1)] sp_validD(1)[OF assms(2)] by (simp_all add: len)
qed

lemma sp_less_iff:
  assumes "sp_valid x" "sp_valid y"
  shows "sp_less x y \<longleftrightarrow> as_string x < as_string y" "sp_gt x y \<longleftrightarrow> as_string y < as_string x"
proof -
  note M = sp_memcmp_strings[OF assms]
  show "sp_less x y \<longleftrightarrow> as_string x < as_string y"
    using memcmp_less[of "as_string x" "as_string y"] by (simp add: sp_less_def M)
  show "sp_gt x y \<longleftrightarrow> as_string y < as_string x"
    using memcmp_less[of "as_string y" "as_string x"] memcmp_swap[of _ "as_string x" "as_string y"]
    by (simp add: sp_gt_def M min.commute)
qed

lemma sp_eq_iff:
  assumes "sp_valid x" "sp_valid y"
  shows "sp_eq x y \<longleftrightarrow> as_string x = as_string y"
proof (cases "sp_length x = sp_length y")
  case True
  then show ?thesis using memcmp_zero[OF sp_validD(2)[OF assms(1)], of "sp_ptr y"] sp_validD(2)[OF assms(2)]
    by (simp add: sp_eq_def as_string_def)
next
  case False
  then show ?thesis using sp_memcmp_strings(2,3)[OF assms] by (auto simp: sp_eq_def)
qed

text \<open>The comparisons of pieces are the lexicographic order of the bytes they show, a linear order, and the tests and
  cuts are those of strings; a cut past the length leaves a piece with a negative one.\<close>

theorem string_piece_order:
  assumes "sp_valid x" "sp_valid y"
  shows "(sp_eq x y \<longleftrightarrow> as_string x = as_string y) \<and> (sp_less x y \<longleftrightarrow> as_string x < as_string y) \<and>
    (sp_le x y \<longleftrightarrow> as_string x \<le> as_string y) \<and> (sp_ge x y \<longleftrightarrow> as_string y \<le> as_string x) \<and>
    (sp_gt x y \<longleftrightarrow> as_string y < as_string x) \<and> (sp_compare x y < 0 \<longleftrightarrow> sp_less x y) \<and> (sp_compare x y = 0 \<longleftrightarrow> sp_eq x y) \<and>
    (starts_with x y \<longleftrightarrow> prefix (as_string y) (as_string x)) \<and>
    (int n \<le> sp_length x \<longrightarrow> sp_valid (remove_prefix n x) \<and> as_string (remove_prefix n x) = drop n (as_string x) \<and>
       sp_valid (remove_suffix n x) \<and> as_string (remove_suffix n x) = take (length (as_string x) - n) (as_string x))"
proof -
  note L = sp_less_iff[OF assms] and E = sp_eq_iff[OF assms]
  have le: "sp_le x y \<longleftrightarrow> \<not> sp_gt x y" "sp_ge x y \<longleftrightarrow> \<not> sp_less x y" "sp_compare x y < 0 \<longleftrightarrow> sp_less x y"
    "sp_compare x y = 0 \<longleftrightarrow> \<not> sp_less x y \<and> \<not> sp_gt x y"
    by (auto simp: sp_le_def sp_gt_def sp_ge_def sp_less_def sp_compare_def Let_def)
  have "starts_with x y \<longleftrightarrow> prefix (as_string y) (as_string x)"
  proof (cases "sp_length y \<le> sp_length x")
    case True
    have "starts_with x y \<longleftrightarrow> take (nat (sp_length y)) (as_string x) = as_string y"
      using True memcmp_zero[of "nat (sp_length y)" "sp_ptr x" "sp_ptr y"] sp_validD(2)[OF assms(1)] sp_validD(2)[OF assms(2)]
      by (simp add: starts_with_def as_string_def min_def)
    then show ?thesis using sp_validD(3)[OF assms(2)] by (metis append_eq_conv_conj prefix_def take_is_prefix)
  next
    case False
    then show ?thesis using sp_memcmp_strings(2,3)[OF assms] prefix_length_le[of "as_string y" "as_string x"]
      by (auto simp: starts_with_def)
  qed
  moreover have "sp_valid (remove_prefix n x) \<and> as_string (remove_prefix n x) = drop n (as_string x) \<and>
      sp_valid (remove_suffix n x) \<and> as_string (remove_suffix n x) = take (length (as_string x) - n) (as_string x)"
    if "int n \<le> sp_length x"
    unfolding sp_validD(3)[OF assms(1)] using that assms(1) sp_validD(2)[OF assms(1)]
    by (simp add: sp_valid_def remove_prefix_def remove_suffix_def as_string_def drop_take nat_diff_distrib min_def)
  ultimately show ?thesis using L E le by (auto simp: not_less)
qed

text \<open>The process name is what stands between the first opening and the last closing parenthesis, whatever parentheses
  the name itself holds.\<close>

theorem procname_between_parentheses:
  assumes "CHR ''('' \<notin> set pid" "CHR '')'' \<notin> set stats" "length name < 2 ^ 31"
  shows "as_string (procname (pid @ ''('' @ name @ '')'' @ stats)) = name"
proof -
  let ?s = "pid @ ''('' @ name @ '')'' @ stats" and ?rp = "length pid + 1 + length name"
  have lp: "str_find (CHR ''('') ?s = Some (length pid)"
    using find_char_append[OF assms(1), of "name @ '')'' @ stats"] by (simp add: str_find_def)
  have at: "?s ! ?rp = CHR '')''" by (simp add: nth_append)
  obtain i where i: "str_rfind (CHR '')'') ?s (length ?s) = Some i"
    using str_rfind_None[of "CHR '')''" ?s "length ?s"] at by (cases "str_rfind (CHR '')'') ?s (length ?s)") auto
  have "\<not> i < ?rp" using str_rfind_Some(4)[OF i, of ?rp] at by auto
  moreover have "\<not> ?rp < i"
  proof
    assume gt: "?rp < i"
    define k where "k = i - ?rp - 1"
    have ik: "i = length (pid @ ''('' @ name @ '')'') + k" using gt by (simp add: k_def)
    have "?s ! i = stats ! (i - ?rp - 1)"
      using nth_append_length_plus[of "pid @ ''('' @ name @ '')''" stats k] unfolding ik by (simp add: k_def[symmetric])
    moreover have "i - ?rp - 1 < length stats" using gt str_rfind_Some(1)[OF i] by simp
    ultimately show False using str_rfind_Some(3)[OF i] assms(2) by (metis nth_mem)
  qed
  ultimately have rp: "str_find_last (CHR '')'') ?s = Some ?rp" using i by (simp add: str_find_last_def)
  have "cast_int (int (length name)) = int (length name)" using assms(3) by (intro cast_int_id) simp_all
  then show ?thesis unfolding procname_def lp rp by (simp add: sp_set_def as_string_def)
qed

end
