(* ===== verification/Net_Channel.thy ===== *)
theory Net_Channel
  imports Prelude
begin

text \<open>
  \<^verbatim>\<open>net/Channel.{h,cc}\<close>: a file descriptor, the events it is interested in and the dispatch of the
  events the poller reports. A \<^verbatim>\<open>Channel*\<close> is an address, and the channels live in a heap, because
  the pollers change the index and the received events of channels they only hold pointers to.
  The \<^verbatim>\<open>int\<close> event masks are 32-bit words. What \<^verbatim>\<open>update\<close> and \<^verbatim>\<open>remove\<close> call on the loop is a
  parameter here; the pollers and the event loop provide it.

  A callback is known here by its presence only; \<open>handleEvent\<close> returns the callbacks it invokes,
  in order. No callback of the sources changes the received events or the callbacks of its own
  channel while it runs.
\<close>

unbundle bit_operations_syntax

section \<open>Event masks\<close>

type_synonym events = "32 word"

definition POLLIN :: events where "POLLIN = 0x1"
definition POLLPRI :: events where "POLLPRI = 0x2"
definition POLLOUT :: events where "POLLOUT = 0x4"
definition POLLERR :: events where "POLLERR = 0x8"
definition POLLHUP :: events where "POLLHUP = 0x10"
definition POLLNVAL :: events where "POLLNVAL = 0x20"
definition POLLRDHUP :: events where "POLLRDHUP = 0x2000"

definition kNoneEvent :: events where "kNoneEvent = 0"
definition kReadEvent :: events where "kReadEvent = POLLIN OR POLLPRI"
definition kWriteEvent :: events where "kWriteEvent = POLLOUT"

lemmas poll_masks = POLLIN_def POLLPRI_def POLLOUT_def POLLERR_def POLLHUP_def POLLNVAL_def
  POLLRDHUP_def kNoneEvent_def kReadEvent_def kWriteEvent_def

section \<open>The channel\<close>

record channel =
  ch_fd :: int
  ch_events :: events
  ch_revents :: events
  ch_index :: int
  ch_logHup :: bool
  ch_tied :: bool
  ch_eventHandling :: bool
  ch_addedToLoop :: bool
  ch_readCallback :: bool
  ch_writeCallback :: bool
  ch_closeCallback :: bool
  ch_errorCallback :: bool

type_synonym chan_ptr = nat
type_synonym chan_heap = "chan_ptr \<Rightarrow> channel"

definition Channel_ctor :: "int \<Rightarrow> channel" where
  "Channel_ctor fd = \<lparr>ch_fd = fd, ch_events = 0, ch_revents = 0, ch_index = -1, ch_logHup = True,
     ch_tied = False, ch_eventHandling = False, ch_addedToLoop = False, ch_readCallback = False,
     ch_writeCallback = False, ch_closeCallback = False, ch_errorCallback = False\<rparr>"

definition Channel_dtor :: "bool \<Rightarrow> bool \<Rightarrow> channel \<Rightarrow> unit result" where
  "Channel_dtor inLoopThread hasChannel ch =
     andThen (check (\<not> ch_eventHandling ch)) (\<lambda>_.
     andThen (check (\<not> ch_addedToLoop ch)) (\<lambda>_.
     if inLoopThread then check (\<not> hasChannel) else Inr ()))"

definition channel_tie :: "channel \<Rightarrow> channel" where
  "channel_tie ch = ch\<lparr>ch_tied := True\<rparr>"

definition set_revents :: "events \<Rightarrow> channel \<Rightarrow> channel" where
  "set_revents r ch = ch\<lparr>ch_revents := r\<rparr>"

definition set_index :: "int \<Rightarrow> channel \<Rightarrow> channel" where
  "set_index i ch = ch\<lparr>ch_index := i\<rparr>"

definition isNoneEvent :: "channel \<Rightarrow> bool" where
  "isNoneEvent ch \<longleftrightarrow> ch_events ch = kNoneEvent"

definition isWriting :: "channel \<Rightarrow> bool" where
  "isWriting ch \<longleftrightarrow> ch_events ch AND kWriteEvent \<noteq> 0"

definition isReading :: "channel \<Rightarrow> bool" where
  "isReading ch \<longleftrightarrow> ch_events ch AND kReadEvent \<noteq> 0"

section \<open>Changing the interest\<close>

text \<open>The state a channel operation acts on: the heap of channels and the poller.\<close>

type_synonym 'p reg_state = "chan_heap \<times> 'p"
type_synonym 'p reg_op = "chan_ptr \<Rightarrow> 'p reg_state \<Rightarrow> 'p reg_state result"

definition set_events :: "chan_ptr \<Rightarrow> events \<Rightarrow> 'p reg_state \<Rightarrow> 'p reg_state" where
  "set_events c e s = (case s of (h, p) \<Rightarrow> (h(c := (h c)\<lparr>ch_events := e\<rparr>), p))"

definition channel_update :: "'p reg_op \<Rightarrow> 'p reg_op" where
  "channel_update updateChannel c s =
     (case s of (h, p) \<Rightarrow> updateChannel c (h(c := (h c)\<lparr>ch_addedToLoop := True\<rparr>), p))"

definition channel_remove :: "'p reg_op \<Rightarrow> 'p reg_op" where
  "channel_remove removeChannel c s = (case s of (h, p) \<Rightarrow>
     andThen (check (isNoneEvent (h c))) (\<lambda>_.
       removeChannel c (h(c := (h c)\<lparr>ch_addedToLoop := False\<rparr>), p)))"

definition enableReading :: "'p reg_op \<Rightarrow> 'p reg_op" where
  "enableReading upd c s =
     channel_update upd c (set_events c (ch_events (fst s c) OR kReadEvent) s)"

definition disableReading :: "'p reg_op \<Rightarrow> 'p reg_op" where
  "disableReading upd c s =
     channel_update upd c (set_events c (ch_events (fst s c) AND NOT kReadEvent) s)"

definition enableWriting :: "'p reg_op \<Rightarrow> 'p reg_op" where
  "enableWriting upd c s =
     channel_update upd c (set_events c (ch_events (fst s c) OR kWriteEvent) s)"

definition disableWriting :: "'p reg_op \<Rightarrow> 'p reg_op" where
  "disableWriting upd c s =
     channel_update upd c (set_events c (ch_events (fst s c) AND NOT kWriteEvent) s)"

definition disableAll :: "'p reg_op \<Rightarrow> 'p reg_op" where
  "disableAll upd c s = channel_update upd c (set_events c kNoneEvent s)"

section \<open>Dispatching events\<close>

datatype channel_callback = CloseCallback | ErrorCallback | ReadCallback int | WriteCallback

definition handleEventWithGuard :: "int \<Rightarrow> channel \<Rightarrow> channel_callback list \<times> channel" where
  "handleEventWithGuard receiveTime ch =
     (let r = ch_revents ch;
          close = (if r AND POLLHUP \<noteq> 0 \<and> \<not> (r AND POLLIN \<noteq> 0) \<and> ch_closeCallback ch
                   then [CloseCallback] else []);
          error = (if r AND (POLLERR OR POLLNVAL) \<noteq> 0 \<and> ch_errorCallback ch
                   then [ErrorCallback] else []);
          read = (if r AND (POLLIN OR POLLPRI OR POLLRDHUP) \<noteq> 0 \<and> ch_readCallback ch
                  then [ReadCallback receiveTime] else []);
          write = (if r AND POLLOUT \<noteq> 0 \<and> ch_writeCallback ch then [WriteCallback] else [])
      in (close @ error @ read @ write, ch\<lparr>ch_eventHandling := False\<rparr>))"

text \<open>\<open>ownerAlive\<close> is the result of locking the weak pointer of a tied channel.\<close>

definition handleEvent :: "bool \<Rightarrow> int \<Rightarrow> channel \<Rightarrow> channel_callback list \<times> channel" where
  "handleEvent ownerAlive receiveTime ch =
     (if ch_tied ch then
        (if ownerAlive then handleEventWithGuard receiveTime ch else ([], ch))
      else handleEventWithGuard receiveTime ch)"

definition eventsToString :: "int \<Rightarrow> events \<Rightarrow> string" where
  "eventsToString fd ev =
     dec_int fd @ '': '' @
     (if ev AND POLLIN \<noteq> 0 then ''IN '' else '''') @
     (if ev AND POLLPRI \<noteq> 0 then ''PRI '' else '''') @
     (if ev AND POLLOUT \<noteq> 0 then ''OUT '' else '''') @
     (if ev AND POLLHUP \<noteq> 0 then ''HUP '' else '''') @
     (if ev AND POLLRDHUP \<noteq> 0 then ''RDHUP '' else '''') @
     (if ev AND POLLERR \<noteq> 0 then ''ERR '' else '''') @
     (if ev AND POLLNVAL \<noteq> 0 then ''NVAL '' else '''')"

section \<open>Lemmas\<close>

text \<open>Reading and writing interest are independent bits: each operation changes its own and keeps
  the other.\<close>

lemma read_write_disjoint: "kReadEvent AND kWriteEvent = 0" "kWriteEvent AND kReadEvent = 0"
  by (simp_all add: poll_masks)

lemma masks_nonzero [simp]: "kReadEvent \<noteq> 0" "kWriteEvent \<noteq> 0" "kNoneEvent = 0"
  by (simp_all add: poll_masks)

lemma and_or_mask: "(e OR m) AND m = (m :: 'a::len word)"
  by (auto simp: bit_eq_iff bit_simps)

lemma and_or_other: "m AND n = 0 \<Longrightarrow> (e OR m) AND n = (e AND n :: 'a::len word)"
  by (simp add: bit.conj_disj_distrib2)

lemma and_not_mask: "(e AND NOT m) AND m = (0 :: 'a::len word)"
  by (simp add: and.assoc)

lemma and_not_other: "m AND n = 0 \<Longrightarrow> (e AND NOT m) AND n = (e AND n :: 'a::len word)"
proof -
  assume "m AND n = 0"
  then have "NOT m AND n = n"
    by (auto simp: bit_eq_iff bit_simps bit_imp_le_length)
  then show ?thesis by (simp add: and.assoc)
qed

lemma or_mask_nonzero: "m \<noteq> 0 \<Longrightarrow> e OR m \<noteq> (0 :: 'a::len word)"
  by (metis and_or_mask and_zero_eq and.commute)

lemma isReading_interest:
  "isReading (ch\<lparr>ch_events := e OR kReadEvent\<rparr>)"
  "\<not> isReading (ch\<lparr>ch_events := e AND NOT kReadEvent\<rparr>)"
  "isReading (ch\<lparr>ch_events := e OR kWriteEvent\<rparr>) \<longleftrightarrow> e AND kReadEvent \<noteq> 0"
  "isReading (ch\<lparr>ch_events := e AND NOT kWriteEvent\<rparr>) \<longleftrightarrow> e AND kReadEvent \<noteq> 0"
  by (simp_all add: isReading_def and_or_mask and_not_mask and_or_other and_not_other
      read_write_disjoint)

lemma isWriting_interest:
  "isWriting (ch\<lparr>ch_events := e OR kWriteEvent\<rparr>)"
  "\<not> isWriting (ch\<lparr>ch_events := e AND NOT kWriteEvent\<rparr>)"
  "isWriting (ch\<lparr>ch_events := e OR kReadEvent\<rparr>) \<longleftrightarrow> e AND kWriteEvent \<noteq> 0"
  "isWriting (ch\<lparr>ch_events := e AND NOT kReadEvent\<rparr>) \<longleftrightarrow> e AND kWriteEvent \<noteq> 0"
  by (simp_all add: isWriting_def and_or_mask and_not_mask and_or_other and_not_other
      read_write_disjoint)

lemma handleEvent_state [simp]:
  "snd (handleEvent alive t ch) = (if ch_tied ch \<and> \<not> alive then ch else ch\<lparr>ch_eventHandling := False\<rparr>)"
  by (simp add: handleEvent_def handleEventWithGuard_def Let_def)

text \<open>A tied channel whose owner is gone runs nothing.\<close>

lemma handleEvent_dead: "ch_tied ch \<Longrightarrow> fst (handleEvent False t ch) = []"
  by (simp add: handleEvent_def)

lemma handleEvent_once: "distinct (fst (handleEvent alive t ch))"
  by (auto simp: handleEvent_def handleEventWithGuard_def Let_def)

end
