(* ===== verification/Net_Poller.thy ===== *)
theory Net_Poller
  imports Net_Channel
begin

text \<open>
  The contract of \<^verbatim>\<open>net/Poller.h\<close>. The two pollers promise the event loop the locale \<open>poller\<close>:
  which channels are registered and which events the kernel is asked to watch after each operation.
  What the locale shows of the life of a channel holds for either poller.
\<close>

section \<open>The life of a channel\<close>

text \<open>How a connection uses its channel: it starts reading, turns writing on (\<open>True\<close>) and off
  (\<open>False\<close>) as its output buffer fills and drains, and at the end disables everything and removes
  the channel.\<close>

definition toggle_writing :: "'p reg_op \<Rightarrow> chan_ptr \<Rightarrow> bool \<Rightarrow> 'p reg_state \<Rightarrow> 'p reg_state result" where
  "toggle_writing upd c w = (if w then enableWriting upd c else disableWriting upd c)"

definition channel_life :: "'p reg_op \<Rightarrow> 'p reg_op \<Rightarrow> chan_ptr \<Rightarrow> bool list \<Rightarrow> 'p reg_state \<Rightarrow>
    'p reg_state result" where
  "channel_life upd rem c ws s =
     andThen (enableReading upd c s) (\<lambda>s1.
     andThen (fold_result (toggle_writing upd c) ws s1) (\<lambda>s2.
     andThen (disableAll upd c s2) (channel_remove rem c)))"

section \<open>The contract\<close>

definition same_upto_index :: "chan_heap \<Rightarrow> chan_heap \<Rightarrow> bool" where
  "same_upto_index h h' \<longleftrightarrow> (\<exists>f. h' = (\<lambda>d. (h d)\<lparr>ch_index := f d\<rparr>))"

lemma same_upto_index_refl [simp]: "same_upto_index h h"
  by (rule exI[of _ "\<lambda>d. ch_index (h d)", THEN same_upto_index_def[THEN iffD2]]) simp

lemma same_upto_index_set [simp]: "same_upto_index h (h(c := set_index i (h c)))"
  unfolding same_upto_index_def set_index_def
  by (rule exI[of _ "\<lambda>d. if d = c then i else ch_index (h d)"]) (simp add: fun_eq_iff)

text \<open>The interest masks channels can have.\<close>

definition ev_ok :: "events \<Rightarrow> bool" where
  "ev_ok e \<longleftrightarrow> e AND NOT (kReadEvent OR kWriteEvent) = 0"

locale poller =
  fixes upd :: "'p reg_op" and rem :: "'p reg_op"
    and inv :: "'p reg_state \<Rightarrow> bool"
    and reg :: "'p \<Rightarrow> int \<rightharpoonup> chan_ptr"
    and watch :: "'p \<Rightarrow> int \<rightharpoonup> events"
  assumes inv_heap: "inv (h, p) \<Longrightarrow>
      (\<And>d. ch_fd (h' d) = ch_fd (h d) \<and> ch_index (h' d) = ch_index (h d)) \<Longrightarrow> inv (h', p)"
    and upd_new: "inv (h, p) \<Longrightarrow> 0 \<le> ch_fd (h c) \<Longrightarrow> ev_ok (ch_events (h c)) \<Longrightarrow> ch_index (h c) = -1 \<Longrightarrow>
      reg p (ch_fd (h c)) = None \<Longrightarrow>
      \<exists>h' p'. upd c (h, p) = Inr (h', p') \<and> inv (h', p') \<and> same_upto_index h h' \<and>
        reg p' = (reg p)(ch_fd (h c) \<mapsto> c) \<and> watch p' = (watch p)(ch_fd (h c) \<mapsto> ch_events (h c))"
    and upd_on: "inv (h, p) \<Longrightarrow> 0 \<le> ch_fd (h c) \<Longrightarrow> ev_ok (ch_events (h c)) \<Longrightarrow> ch_events (h c) \<noteq> 0 \<Longrightarrow>
      reg p (ch_fd (h c)) = Some c \<Longrightarrow>
      \<exists>h' p'. upd c (h, p) = Inr (h', p') \<and> inv (h', p') \<and> same_upto_index h h' \<and>
        reg p' = reg p \<and> watch p' = (watch p)(ch_fd (h c) \<mapsto> ch_events (h c))"
    and upd_off: "inv (h, p) \<Longrightarrow> 0 \<le> ch_fd (h c) \<Longrightarrow> ch_events (h c) = 0 \<Longrightarrow>
      reg p (ch_fd (h c)) = Some c \<Longrightarrow> watch p (ch_fd (h c)) \<noteq> None \<Longrightarrow>
      \<exists>h' p'. upd c (h, p) = Inr (h', p') \<and> inv (h', p') \<and> same_upto_index h h' \<and>
        reg p' = reg p \<and> watch p' = (watch p)(ch_fd (h c) := None)"
    and rem_off: "inv (h, p) \<Longrightarrow> 0 \<le> ch_fd (h c) \<Longrightarrow> ch_events (h c) = 0 \<Longrightarrow>
      reg p (ch_fd (h c)) = Some c \<Longrightarrow> watch p (ch_fd (h c)) = None \<Longrightarrow>
      \<exists>h' p'. rem c (h, p) = Inr (h', p') \<and> inv (h', p') \<and> same_upto_index h h' \<and>
        reg p' = (reg p)(ch_fd (h c) := None) \<and> watch p' = watch p"
    and inv_unregistered: "inv (h, p) \<Longrightarrow> (\<And>fd. reg p fd \<noteq> Some c) \<Longrightarrow> inv (h(c := ch), p)"
    and watch_reg: "inv (h, p) \<Longrightarrow> reg p fd = None \<Longrightarrow> watch p fd = None"
begin

text \<open>A registered channel that is watched for exactly the events it is interested in.\<close>

definition live :: "chan_ptr \<Rightarrow> 'p reg_state \<Rightarrow> bool" where
  "live c s = (case s of (h, p) \<Rightarrow> inv (h, p) \<and> 0 \<le> ch_fd (h c) \<and> ev_ok (ch_events (h c)) \<and>
     ch_events (h c) \<noteq> 0 \<and> reg p (ch_fd (h c)) = Some c \<and> watch p (ch_fd (h c)) = Some (ch_events (h c)))"

text \<open>What an operation on a channel leaves alone: its descriptor and what the poller holds for
  other descriptors.\<close>

definition frame :: "chan_ptr \<Rightarrow> 'p reg_state \<Rightarrow> 'p reg_state \<Rightarrow> bool" where
  "frame c s s' \<longleftrightarrow> ch_fd (fst s' c) = ch_fd (fst s c) \<and>
     (\<forall>fd. fd \<noteq> ch_fd (fst s c) \<longrightarrow> reg (snd s') fd = reg (snd s) fd \<and> watch (snd s') fd = watch (snd s) fd)"

lemma frame_trans: "frame c s s1 \<Longrightarrow> frame c s1 s2 \<Longrightarrow> frame c s s2"
  by (simp add: frame_def)

lemma frame_refl [simp]: "frame c s s"
  by (simp add: frame_def)

text \<open>Giving a channel a new interest mask before it is handed to the poller.\<close>

lemma inv_mask:
  "inv (h, p) \<Longrightarrow> inv (h(c := (h c)\<lparr>ch_events := e, ch_addedToLoop := b\<rparr>), p)"
  by (erule inv_heap) simp

lemma same_upto_indexD:
  assumes "same_upto_index h h'"
  shows "ch_fd (h' d) = ch_fd (h d)" "ch_events (h' d) = ch_events (h d)"
  using assms by (auto simp: same_upto_index_def)

lemma update_live:
  assumes "live c s" "ev_ok e" "e \<noteq> 0"
  shows "\<exists>s'. channel_update upd c (set_events c e s) = Inr s' \<and> live c s' \<and> frame c s s' \<and>
    ch_events (fst s' c) = e"
proof -
  obtain h p where s: "s = (h, p)" by fastforce
  let ?h = "h(c := (h c)\<lparr>ch_events := e, ch_addedToLoop := True\<rparr>)"
  have "inv (?h, p)" using assms(1) by (intro inv_mask) (simp add: live_def s)
  from upd_on[OF this, of c] assms obtain h' p' where
    u: "upd c (?h, p) = Inr (h', p')" "inv (h', p')" "same_upto_index ?h h'" "reg p' = reg p"
      "watch p' = (watch p)(ch_fd (h c) \<mapsto> e)"
    by (auto simp: live_def s)
  from same_upto_indexD[OF u(3), of c] u(2,4,5) assms
  have "live c (h', p')" "frame c s (h', p')" "ch_events (h' c) = e"
    by (simp_all add: live_def frame_def s)
  with u(1) show ?thesis by (simp add: channel_update_def set_events_def s)
qed

lemma ev_ok_masks: "ev_ok e \<Longrightarrow> ev_ok (e OR kReadEvent)" "ev_ok e \<Longrightarrow> ev_ok (e OR kWriteEvent)"
  "ev_ok e \<Longrightarrow> ev_ok (e AND NOT kWriteEvent)" "ev_ok e \<Longrightarrow> ev_ok (e AND NOT kReadEvent)"
  by (auto simp: ev_ok_def bit_eq_iff bit_simps)

lemma start_reading:
  assumes "inv (h, p)" "0 \<le> ch_fd (h c)" "ev_ok (ch_events (h c))" "ch_index (h c) = -1"
    "reg p (ch_fd (h c)) = None"
  shows "\<exists>s'. enableReading upd c (h, p) = Inr s' \<and> live c s' \<and> frame c (h, p) s' \<and>
    isReading (fst s' c) \<and> ch_events (fst s' c) = ch_events (h c) OR kReadEvent"
proof -
  let ?e = "ch_events (h c) OR kReadEvent"
  let ?h = "h(c := (h c)\<lparr>ch_events := ?e, ch_addedToLoop := True\<rparr>)"
  have "inv (?h, p)" using assms(1) by (rule inv_mask)
  from upd_new[OF this, of c] assms ev_ok_masks(1)[OF assms(3)] obtain h' p' where
    u: "upd c (?h, p) = Inr (h', p')" "inv (h', p')" "same_upto_index ?h h'"
      "reg p' = (reg p)(ch_fd (h c) \<mapsto> c)" "watch p' = (watch p)(ch_fd (h c) \<mapsto> ?e)"
    by auto
  have "?e \<noteq> 0" by (rule or_mask_nonzero) simp
  with same_upto_indexD[OF u(3), of c] u(2,4,5) assms ev_ok_masks(1)[OF assms(3)]
  have "live c (h', p')" "frame c (h, p) (h', p')" "isReading (h' c)" "ch_events (h' c) = ?e"
    by (simp_all add: live_def frame_def isReading_def and_or_mask)
  with u(1) show ?thesis by (simp add: enableReading_def channel_update_def set_events_def)
qed

lemma toggle_live:
  assumes "live c s" "isReading (fst s c)"
  shows "\<exists>s'. toggle_writing upd c w s = Inr s' \<and> live c s' \<and> frame c s s' \<and> isReading (fst s' c) \<and>
    isWriting (fst s' c) = w"
proof -
  let ?e = "ch_events (fst s c)"
  let ?e' = "if w then ?e OR kWriteEvent else ?e AND NOT kWriteEvent"
  have r: "?e' AND kReadEvent \<noteq> 0"
    using assms(2) by (simp add: isReading_def and_or_other and_not_other read_write_disjoint)
  then have "?e' \<noteq> 0" by (rule contrapos_nn) (simp only: zero_and_eq)
  moreover have "ev_ok ?e'" using assms(1) ev_ok_masks by (auto simp: live_def)
  ultimately obtain s' where s': "channel_update upd c (set_events c ?e' s) = Inr s'" "live c s'"
    "frame c s s'" "ch_events (fst s' c) = ?e'"
    using update_live[OF assms(1)] by blast
  moreover have "isWriting (fst s' c) = w" by (simp add: isWriting_def s'(4) and_or_mask and_not_mask)
  moreover have "toggle_writing upd c w s = channel_update upd c (set_events c ?e' s)"
    by (simp add: toggle_writing_def enableWriting_def disableWriting_def)
  ultimately show ?thesis using r by (simp add: isReading_def)
qed

lemma toggles_live:
  assumes "live c s" "isReading (fst s c)"
  shows "\<exists>s'. fold_result (toggle_writing upd c) ws s = Inr s' \<and> live c s' \<and> frame c s s'"
  using assms
proof (induction ws arbitrary: s)
  case (Cons w ws)
  from toggle_live[OF Cons.prems, of w] obtain s1 where
    "toggle_writing upd c w s = Inr s1" "live c s1" "frame c s s1" "isReading (fst s1 c)" by blast
  with Cons.IH[of s1] show ?case by (auto intro: frame_trans)
qed simp

text \<open>A registered channel with no interest that is not watched.\<close>

definition closed :: "chan_ptr \<Rightarrow> 'p reg_state \<Rightarrow> bool" where
  "closed c s = (case s of (h, p) \<Rightarrow> inv (h, p) \<and> 0 \<le> ch_fd (h c) \<and> ch_events (h c) = 0 \<and>
     reg p (ch_fd (h c)) = Some c \<and> watch p (ch_fd (h c)) = None)"

lemma stop_live:
  assumes "live c s"
  shows "\<exists>s'. disableAll upd c s = Inr s' \<and> closed c s' \<and> frame c s s'"
proof -
  obtain h p where s: "s = (h, p)" by fastforce
  let ?h = "h(c := (h c)\<lparr>ch_events := 0, ch_addedToLoop := True\<rparr>)"
  have "inv (?h, p)" using assms by (intro inv_mask) (simp add: live_def s)
  from upd_off[OF this, of c] assms obtain h1 p1 where
    u: "upd c (?h, p) = Inr (h1, p1)" "inv (h1, p1)" "same_upto_index ?h h1" "reg p1 = reg p"
      "watch p1 = (watch p)(ch_fd (h c) := None)"
    by (auto simp: live_def s)
  with same_upto_indexD[OF u(3), of c] assms show ?thesis
    by (auto simp: disableAll_def channel_update_def set_events_def closed_def live_def frame_def s)
qed

lemma remove_closed:
  assumes "closed c s"
  shows "\<exists>s'. channel_remove rem c s = Inr s' \<and> inv s' \<and> frame c s s' \<and>
    reg (snd s') (ch_fd (fst s c)) = None \<and> watch (snd s') (ch_fd (fst s c)) = None \<and>
    \<not> ch_addedToLoop (fst s' c) \<and> ch_events (fst s' c) = 0"
proof -
  obtain h p where s: "s = (h, p)" by fastforce
  let ?h = "h(c := (h c)\<lparr>ch_addedToLoop := False\<rparr>)"
  have "inv (h, p)" using assms by (simp add: closed_def s)
  then have "inv (?h, p)" by (rule inv_heap) simp
  from rem_off[OF this, of c] assms obtain h2 p2 where
    v: "rem c (?h, p) = Inr (h2, p2)" "inv (h2, p2)" "same_upto_index ?h h2"
      "reg p2 = (reg p)(ch_fd (h c) := None)" "watch p2 = watch p"
    by (auto simp: closed_def s)
  moreover have "ch_fd (h2 c) = ch_fd (h c)" "\<not> ch_addedToLoop (h2 c)" "ch_events (h2 c) = ch_events (h c)"
    using v(3) by (auto simp: same_upto_index_def)
  ultimately show ?thesis using assms
    by (simp add: channel_remove_def isNoneEvent_def closed_def frame_def s)
qed

theorem lifecycle:
  assumes fresh: "inv (h, p)" "0 \<le> ch_fd (h c)" "ev_ok (ch_events (h c))" "ch_index (h c) = -1"
    "reg p (ch_fd (h c)) = None"
  shows "\<exists>h' p'. channel_life upd rem c ws (h, p) = Inr (h', p') \<and> inv (h', p') \<and>
    reg p' = reg p \<and> watch p' = watch p"
proof -
  obtain s1 where s1: "enableReading upd c (h, p) = Inr s1" "live c s1" "frame c (h, p) s1"
    "isReading (fst s1 c)" using start_reading[OF fresh] by blast
  obtain s2 where s2: "fold_result (toggle_writing upd c) ws s1 = Inr s2" "live c s2" "frame c s1 s2"
    using toggles_live[OF s1(2,4)] by blast
  obtain s3 where s3: "disableAll upd c s2 = Inr s3" "closed c s3" "frame c s2 s3"
    using stop_live[OF s2(2)] by blast
  obtain s4 where s4: "channel_remove rem c s3 = Inr s4" "inv s4" "frame c s3 s4"
    "reg (snd s4) (ch_fd (fst s3 c)) = None" "watch (snd s4) (ch_fd (fst s3 c)) = None"
    using remove_closed[OF s3(2)] by blast
  have fr3: "frame c (h, p) s3" using s1(3) s2(3) s3(3) by (blast intro: frame_trans)
  then have fr: "frame c (h, p) s4" using s4(3) by (rule frame_trans)
  have fd: "ch_fd (fst s3 c) = ch_fd (h c)" using fr3 by (simp add: frame_def)
  have "reg (snd s4) f = reg p f \<and> watch (snd s4) f = watch p f" for f
    using fr s4(4,5) fd fresh(5) watch_reg[OF fresh(1,5)] by (cases "f = ch_fd (h c)") (auto simp: frame_def)
  then have "reg (snd s4) = reg p" "watch (snd s4) = watch p" by blast+
  then show ?thesis using s1(1) s2(1) s3(1) s4(1,2)
    by (intro exI[of _ "fst s4"] exI[of _ "snd s4"]) (simp add: channel_life_def)
qed

end

end
