(* ===== verification/Net_PollPoller.thy ===== *)
theory Net_PollPoller
  imports Net_Poller
begin

text \<open>
  \<^verbatim>\<open>net/poller/PollPoller.cc\<close>, the poller over \<^verbatim>\<open>poll(2)\<close>. It keeps the map \<^verbatim>\<open>channels_\<close> from
  descriptors to channels and a vector of \<^verbatim>\<open>struct pollfd\<close>; the index of a channel is its position in
  the vector. A channel with no interest has the descriptor \<open>- fd - 1\<close> there, so that the kernel
  ignores it. The theory models every operation, shows that the map, the vector and the indexes stay
  consistent, and that the poller is an interpretation of the contract. The system call is a parameter.
\<close>

section \<open>The poll poller\<close>

record pollfd =
  pfd_fd :: int
  pfd_events :: "16 word"
  pfd_revents :: "16 word"

record poll_poller =
  pp_channels :: "(int \<times> chan_ptr) list"
  pp_pollfds :: "pollfd list"

type_synonym pp_state = "poll_poller reg_state"

definition PollPoller_ctor :: poll_poller where
  "PollPoller_ctor = \<lparr>pp_channels = [], pp_pollfds = []\<rparr>"

definition pp_hasChannel :: "chan_ptr \<Rightarrow> pp_state \<Rightarrow> bool" where
  "pp_hasChannel c s = (case s of (h, p) \<Rightarrow>
     (case map_of (pp_channels p) (ch_fd (h c)) of None \<Rightarrow> False | Some d \<Rightarrow> d = c))"

definition pp_updateChannel :: "chan_ptr \<Rightarrow> pp_state \<Rightarrow> pp_state result" where
  "pp_updateChannel c s = (case s of (h, p) \<Rightarrow>
     let ch = h c; fd = ch_fd ch in
     if ch_index ch < 0 then
       andThen (check (map_of (pp_channels p) fd = None)) (\<lambda>_.
         let pfd = \<lparr>pfd_fd = fd, pfd_events = ucast (ch_events ch), pfd_revents = 0\<rparr>;
             pfds = pp_pollfds p @ [pfd]
         in Inr (h(c := set_index (int (length pfds) - 1) ch),
                 p\<lparr>pp_pollfds := pfds, pp_channels := omap_put fd c (pp_channels p)\<rparr>))
     else
       andThen (check (map_of (pp_channels p) fd \<noteq> None)) (\<lambda>_.
       andThen (check (map_of (pp_channels p) fd = Some c)) (\<lambda>_.
       let idx = ch_index ch in
       andThen (check (0 \<le> idx \<and> idx < int (length (pp_pollfds p)))) (\<lambda>_.
       let pfd = pp_pollfds p ! nat idx in
       andThen (check (pfd_fd pfd = fd \<or> pfd_fd pfd = - fd - 1)) (\<lambda>_.
       let pfd1 = pfd\<lparr>pfd_fd := fd, pfd_events := ucast (ch_events ch), pfd_revents := 0\<rparr>;
           pfd2 = (if isNoneEvent ch then pfd1\<lparr>pfd_fd := - fd - 1\<rparr> else pfd1)
       in Inr (h, p\<lparr>pp_pollfds := (pp_pollfds p)[nat idx := pfd2]\<rparr>))))))"

text \<open>\<^verbatim>\<open>pfd.events == channel->events()\<close> compares a \<^verbatim>\<open>short\<close> with an \<^verbatim>\<open>int\<close>: it is sign-extended.\<close>

definition pp_removeChannel :: "chan_ptr \<Rightarrow> pp_state \<Rightarrow> pp_state result" where
  "pp_removeChannel c s = (case s of (h, p) \<Rightarrow>
     let ch = h c; fd = ch_fd ch in
     andThen (check (map_of (pp_channels p) fd \<noteq> None)) (\<lambda>_.
     andThen (check (map_of (pp_channels p) fd = Some c)) (\<lambda>_.
     andThen (check (isNoneEvent ch)) (\<lambda>_.
     let idx = ch_index ch in
     andThen (check (0 \<le> idx \<and> idx < int (length (pp_pollfds p)))) (\<lambda>_.
     let pfds = pp_pollfds p; pfd = pfds ! nat idx in
     andThen (check (pfd_fd pfd = - fd - 1 \<and> scast (pfd_events pfd) = ch_events ch)) (\<lambda>_.
     let chans = omap_erase fd (pp_channels p) in
     andThen (check (length (pp_channels p) = length chans + 1)) (\<lambda>_.
     if nat idx = length pfds - 1 then
       Inr (h, p\<lparr>pp_channels := chans, pp_pollfds := butlast pfds\<rparr>)
     else
       let e = pfd_fd (last pfds);
           swapped = pfds[nat idx := last pfds, length pfds - 1 := pfds ! nat idx];
           channelAtEnd = (if e < 0 then - e - 1 else e)
       in (case map_of chans channelAtEnd of
             None \<Rightarrow> Inl SegFault
           | Some d \<Rightarrow> Inr (h(d := set_index idx (h d)),
                           p\<lparr>pp_channels := chans, pp_pollfds := butlast swapped\<rparr>)))))))))"

fun pp_fill :: "pollfd list \<Rightarrow> int \<Rightarrow> (int \<times> chan_ptr) list \<Rightarrow> chan_heap \<Rightarrow> chan_ptr list \<Rightarrow>
    (chan_heap \<times> chan_ptr list) result" where
  "pp_fill [] n chans h active = Inr (h, active)"
| "pp_fill (pfd # pfds) n chans h active =
     (if \<not> 0 < n then Inr (h, active)
      else if 0 < sint (pfd_revents pfd) then
        (case map_of chans (pfd_fd pfd) of
           None \<Rightarrow> Inl AssertFailed
         | Some c \<Rightarrow>
             andThen (check (ch_fd (h c) = pfd_fd pfd)) (\<lambda>_.
               pp_fill pfds (n - 1) chans (h(c := set_revents (scast (pfd_revents pfd)) (h c)))
                 (active @ [c])))
      else pp_fill pfds n chans h active)"

text \<open>\<^verbatim>\<open>PollPoller::poll\<close>: the system call \<open>sys_poll\<close> returns its result and the vector with the
  received events filled in. A negative result is an error, logged unless it is an interrupt.\<close>

definition pp_poll :: "(pollfd list \<Rightarrow> int \<times> pollfd list) \<Rightarrow> pp_state \<Rightarrow>
    (pp_state \<times> chan_ptr list) result" where
  "pp_poll sys_poll s = (case s of (h, p) \<Rightarrow>
     (case sys_poll (pp_pollfds p) of (numEvents, pfds) \<Rightarrow>
        let p' = p\<lparr>pp_pollfds := pfds\<rparr> in
        if 0 < numEvents then
          andThen (pp_fill pfds numEvents (pp_channels p') h []) (\<lambda>(h', active).
            Inr ((h', p'), active))
        else Inr ((h, p'), [])))"

section \<open>The poll poller keeps its contract\<close>

lemma ev_ok_cast:
  assumes "ev_ok e"
  shows "scast (ucast e :: 16 word) = e"
proof -
  have m: "kReadEvent OR kWriteEvent = (7 :: events)" by (simp add: poll_masks)
  have "e = (e AND NOT 7) OR (e AND 7)" by (auto simp: bit_eq_iff bit_simps)
  also have "\<dots> = e AND 7" using assms by (simp add: ev_ok_def m)
  finally have e: "e = e AND 7" .
  then have "e \<le> 7" by (metis word_and_le1)
  then have "unat e \<le> 7" by (simp add: word_le_nat_alt)
  then have "unat e \<in> {0, 1, 2, 3, 4, 5, 6, 7}" by auto
  then have "e \<in> {0, 1, 2, 3, 4, 5, 6, 7}"
    by (auto simp: word_unat_eq_iff)
  then show ?thesis by auto
qed

definition pfd_key :: "pollfd \<Rightarrow> int" where
  "pfd_key x = (if pfd_fd x < 0 then - pfd_fd x - 1 else pfd_fd x)"

definition pfd_map :: "pollfd list \<Rightarrow> int \<rightharpoonup> pollfd" where
  "pfd_map xs = map_of (map (\<lambda>x. (pfd_key x, x)) xs)"

definition pfd_watch :: "pollfd option \<Rightarrow> events option" where
  "pfd_watch x = (case x of None \<Rightarrow> None | Some x \<Rightarrow> if pfd_fd x < 0 then None else Some (scast (pfd_events x)))"

definition pp_watch :: "poll_poller \<Rightarrow> int \<rightharpoonup> events" where
  "pp_watch p fd = pfd_watch (pfd_map (pp_pollfds p) fd)"

definition pp_reg :: "poll_poller \<Rightarrow> int \<rightharpoonup> chan_ptr" where
  "pp_reg p = map_of (pp_channels p)"

definition pp_inv :: "pp_state \<Rightarrow> bool" where
  "pp_inv s = (case s of (h, p) \<Rightarrow>
     omap_wf (pp_channels p) \<and> distinct (map pfd_key (pp_pollfds p)) \<and>
     pfd_key ` set (pp_pollfds p) = dom (pp_reg p) \<and>
     (\<forall>x \<in> set (pp_pollfds p). pfd_fd x < 0 \<longrightarrow> pfd_events x = 0) \<and>
     (\<forall>fd c. pp_reg p fd = Some c \<longrightarrow> 0 \<le> fd \<and> ch_fd (h c) = fd \<and> 0 \<le> ch_index (h c) \<and>
        ch_index (h c) < int (length (pp_pollfds p)) \<and> pfd_key (pp_pollfds p ! nat (ch_index (h c))) = fd))"

lemma pfd_map_append: "pfd_key x \<notin> pfd_key ` set xs \<Longrightarrow> pfd_map (xs @ [x]) = (pfd_map xs)(pfd_key x \<mapsto> x)"
  by (auto simp: pfd_map_def map_add_def fun_eq_iff split: option.splits dest!: map_of_SomeD)

lemma pfd_map_perm: "distinct (map pfd_key xs) \<Longrightarrow> mset ys = mset xs \<Longrightarrow> pfd_map ys = pfd_map xs"
  unfolding pfd_map_def by (rule map_of_permute) (simp_all add: umap_wf_def comp_def)

lemma pfd_map_nth: "distinct (map pfd_key xs) \<Longrightarrow> i < length xs \<Longrightarrow> pfd_map xs (pfd_key (xs ! i)) = Some (xs ! i)"
  by (auto simp: pfd_map_def comp_def intro!: map_of_is_SomeI)

lemma keys_update:
  "i < length xs \<Longrightarrow> pfd_key x = pfd_key (xs ! i) \<Longrightarrow> map pfd_key (xs[i := x]) = map pfd_key xs"
  by (simp add: map_update list_update_same_conv)

lemma pfd_map_update:
  assumes "distinct (map pfd_key xs)" "i < length xs" "pfd_key x = pfd_key (xs ! i)"
  shows "pfd_map (xs[i := x]) = (pfd_map xs)(pfd_key x \<mapsto> x)"
proof -
  let ?rest = "take i xs @ drop (Suc i) xs"
  have a: "mset (xs ! i # ?rest) = mset xs"
    using id_take_nth_drop[OF assms(2)] by (metis mset.simps(2) mset_append union_mset_add_mset_right)
  have b: "mset (x # ?rest) = mset (xs[i := x])"
    using assms(2) by (simp add: upd_conv_take_nth_drop)
  have "distinct (map pfd_key (xs[i := x]))" using keys_update[OF assms(2,3)] assms(1) by simp
  from pfd_map_perm[OF this b] have "pfd_map (xs[i := x]) = pfd_map (x # ?rest)" by simp
  also have "\<dots> = (pfd_map (xs ! i # ?rest))(pfd_key x \<mapsto> x)"
    using assms(3) by (simp add: pfd_map_def fun_eq_iff)
  also have "pfd_map (xs ! i # ?rest) = pfd_map xs" by (rule pfd_map_perm[OF assms(1) a])
  finally show ?thesis .
qed

definition swap_pop :: "nat \<Rightarrow> 'a list \<Rightarrow> 'a list" where
  "swap_pop i xs = (if i = length xs - 1 then butlast xs
     else butlast (xs[i := last xs, length xs - 1 := xs ! i]))"

lemma swap_pop_mset: "i < length xs \<Longrightarrow> mset xs = add_mset (xs ! i) (mset (swap_pop i xs))"
proof -
  assume i: "i < length xs"
  define ys where "ys = xs[i := last xs, length xs - 1 := xs ! i]"
  have ne: "xs \<noteq> []" "ys \<noteq> []" using i by (auto simp: ys_def)
  have "mset ys = mset xs"
    using mset_swap[of "length xs - 1" xs i] i ne(1) by (simp add: ys_def last_conv_nth)
  moreover have "last ys = xs ! i" using ne i by (simp add: ys_def last_conv_nth)
  moreover have "mset ys = add_mset (last ys) (mset (butlast ys))"
    by (metis append_butlast_last_id mset_append mset_single_iff add_mset_add_single mset.simps ne(2))
  moreover have "mset xs = add_mset (last xs) (mset (butlast xs))"
    by (metis append_butlast_last_id mset_append add_mset_add_single mset.simps ne(1))
  ultimately show ?thesis
    using ne(1) by (cases "i = length xs - 1") (simp_all add: swap_pop_def ys_def last_conv_nth)
qed

lemma swap_pop_nth:
  "i < length xs \<Longrightarrow> j < length xs - 1 \<Longrightarrow> swap_pop i xs ! j = (if j = i then last xs else xs ! j)"
  by (auto simp: swap_pop_def nth_butlast nth_list_update last_conv_nth)

lemma length_swap_pop [simp]: "length (swap_pop i xs) = length xs - 1"
  by (simp add: swap_pop_def)

lemma pfd_map_swap_pop:
  assumes "distinct (map pfd_key xs)" "i < length xs"
  shows "pfd_map (swap_pop i xs) = (pfd_map xs)(pfd_key (xs ! i) := None)"
    and "distinct (map pfd_key (swap_pop i xs))"
    and "pfd_key ` set (swap_pop i xs) = pfd_key ` set xs - {pfd_key (xs ! i)}"
    and "set (swap_pop i xs) \<subseteq> set xs"
proof -
  let ?ys = "xs ! i # swap_pop i xs"
  have m: "mset ?ys = mset xs" using swap_pop_mset[OF assms(2)] by simp
  then have k: "mset (map pfd_key ?ys) = mset (map pfd_key xs)" by (metis mset_map)
  have d: "distinct (map pfd_key ?ys)" using assms(1) mset_eq_imp_distinct_iff[OF k] by blast
  then show "distinct (map pfd_key (swap_pop i xs))" by simp
  show "set (swap_pop i xs) \<subseteq> set xs" using mset_eq_setD[OF m] by auto
  show "pfd_key ` set (swap_pop i xs) = pfd_key ` set xs - {pfd_key (xs ! i)}"
    using mset_eq_setD[OF k] d by simp blast
  have "pfd_map xs = pfd_map ?ys" using pfd_map_perm[OF assms(1) m] by simp
  moreover have "pfd_map (swap_pop i xs) (pfd_key (xs ! i)) = None"
    using d by (auto simp: pfd_map_def map_of_eq_None_iff)
  ultimately show "pfd_map (swap_pop i xs) = (pfd_map xs)(pfd_key (xs ! i) := None)"
    by (auto simp: pfd_map_def fun_eq_iff)
qed

lemma pp_inv_heap:
  "pp_inv (h, p) \<Longrightarrow> (\<And>d. ch_fd (h' d) = ch_fd (h d) \<and> ch_index (h' d) = ch_index (h d)) \<Longrightarrow> pp_inv (h', p)"
  by (simp add: pp_inv_def)

lemma pp_inv_unregistered: "pp_inv (h, p) \<Longrightarrow> (\<And>fd. pp_reg p fd \<noteq> Some c) \<Longrightarrow> pp_inv (h(c := ch), p)"
  by (auto simp: pp_inv_def)

lemma pp_inv_entry:
  assumes "pp_inv (h, p)" "pp_reg p fd = Some c"
  shows "0 \<le> fd" "ch_fd (h c) = fd" "0 \<le> ch_index (h c)" "\<not> ch_index (h c) < 0"
    "ch_index (h c) < int (length (pp_pollfds p))" "nat (ch_index (h c)) < length (pp_pollfds p)"
    "pfd_key (pp_pollfds p ! nat (ch_index (h c))) = fd"
proof -
  have "0 \<le> fd \<and> ch_fd (h c) = fd \<and> 0 \<le> ch_index (h c) \<and>
    ch_index (h c) < int (length (pp_pollfds p)) \<and> pfd_key (pp_pollfds p ! nat (ch_index (h c))) = fd"
    using assms by (simp add: pp_inv_def)
  then show "0 \<le> fd" "ch_fd (h c) = fd" "0 \<le> ch_index (h c)" "\<not> ch_index (h c) < 0"
    "ch_index (h c) < int (length (pp_pollfds p))" "nat (ch_index (h c)) < length (pp_pollfds p)"
    "pfd_key (pp_pollfds p ! nat (ch_index (h c))) = fd"
    by (simp_all add: nat_less_iff)
qed

lemma pp_upd_new:
  assumes inv: "pp_inv (h, p)" and fd: "0 \<le> ch_fd (h c)" and ev: "ev_ok (ch_events (h c))"
    and ix: "ch_index (h c) = -1" and new: "pp_reg p (ch_fd (h c)) = None"
  shows "\<exists>h' p'. pp_updateChannel c (h, p) = Inr (h', p') \<and> pp_inv (h', p') \<and> same_upto_index h h' \<and>
    pp_reg p' = (pp_reg p)(ch_fd (h c) \<mapsto> c) \<and> pp_watch p' = (pp_watch p)(ch_fd (h c) \<mapsto> ch_events (h c))"
proof -
  let ?x = "\<lparr>pfd_fd = ch_fd (h c), pfd_events = ucast (ch_events (h c)) :: 16 word, pfd_revents = 0\<rparr>"
  let ?h = "h(c := set_index (int (length (pp_pollfds p))) (h c))"
  let ?p = "p\<lparr>pp_pollfds := pp_pollfds p @ [?x], pp_channels := omap_put (ch_fd (h c)) c (pp_channels p)\<rparr>"
  have key: "pfd_key ?x = ch_fd (h c)" using fd by (simp add: pfd_key_def)
  have notin: "pfd_key ?x \<notin> pfd_key ` set (pp_pollfds p)"
    using inv new key by (auto simp: pp_inv_def)
  have c: "pp_reg p fd' \<noteq> Some c" for fd'
  proof
    assume "pp_reg p fd' = Some c"
    with inv have "0 \<le> ch_index (h c)" by (auto simp: pp_inv_def)
    with ix show False by simp
  qed
  have reg: "pp_reg ?p = (pp_reg p)(ch_fd (h c) \<mapsto> c)" by (simp add: pp_reg_def)
  have "pp_updateChannel c (h, p) = Inr (?h, ?p)"
    using ix new by (simp add: pp_updateChannel_def pp_reg_def Let_def)
  moreover have "pp_inv (?h, ?p)"
  proof -
    have "omap_wf (pp_channels ?p)" using inv by (simp add: pp_inv_def omap_wf_put)
    moreover have "distinct (map pfd_key (pp_pollfds ?p))" using inv notin by (auto simp: pp_inv_def)
    moreover have "pfd_key ` set (pp_pollfds ?p) = dom (pp_reg ?p)"
      using inv key by (auto simp: pp_inv_def reg)
    moreover have "\<forall>x \<in> set (pp_pollfds ?p). pfd_fd x < 0 \<longrightarrow> pfd_events x = 0"
      using inv fd by (auto simp: pp_inv_def)
    moreover have "0 \<le> f \<and> ch_fd (?h d) = f \<and> 0 \<le> ch_index (?h d) \<and>
        ch_index (?h d) < int (length (pp_pollfds ?p)) \<and> pfd_key (pp_pollfds ?p ! nat (ch_index (?h d))) = f"
      if d: "pp_reg ?p f = Some d" for f d
    proof (cases "d = c")
      case True
      then have "f = ch_fd (h c)" using d c[of f] by (auto simp: reg split: if_splits)
      then show ?thesis using fd True key by (simp add: set_index_def)
    next
      case False
      then have "pp_reg p f = Some d" using d by (auto simp: reg split: if_splits)
      from pp_inv_entry[OF inv this] False show ?thesis by (simp add: nth_append)
    qed
    ultimately show ?thesis by (simp add: pp_inv_def)
  qed
  moreover have "pp_watch ?p = (pp_watch p)(ch_fd (h c) \<mapsto> ch_events (h c))"
    using pfd_map_append[OF notin] fd key ev_ok_cast[OF ev]
    by (auto simp: pp_watch_def pfd_watch_def fun_eq_iff)
  ultimately show ?thesis using reg by (intro exI[of _ ?h] exI[of _ ?p]) simp
qed

text \<open>Updating a registered channel rewrites its entry of the vector.\<close>

lemma pp_upd_entry:
  assumes inv: "pp_inv (h, p)" and r: "pp_reg p (ch_fd (h c)) = Some c"
    and x: "pfd_key x = ch_fd (h c)" "pfd_fd x < 0 \<longrightarrow> pfd_events x = 0"
  shows "pp_inv (h, p\<lparr>pp_pollfds := (pp_pollfds p)[nat (ch_index (h c)) := x]\<rparr>)"
    and "pfd_map ((pp_pollfds p)[nat (ch_index (h c)) := x]) = (pfd_map (pp_pollfds p))(ch_fd (h c) \<mapsto> x)"
proof -
  let ?i = "nat (ch_index (h c))"
  let ?xs = "(pp_pollfds p)[?i := x]"
  have i: "?i < length (pp_pollfds p)" "pfd_key (pp_pollfds p ! ?i) = ch_fd (h c)"
    using pp_inv_entry[OF inv r] by simp_all
  have d: "distinct (map pfd_key (pp_pollfds p))" using inv by (simp add: pp_inv_def)
  have k: "map pfd_key ?xs = map pfd_key (pp_pollfds p)" using keys_update[OF i(1)] i(2) x(1) by simp
  then have img: "pfd_key ` set ?xs = pfd_key ` set (pp_pollfds p)" by (metis set_map)
  have nth: "pfd_key (?xs ! j) = pfd_key (pp_pollfds p ! j)" if "j < length (pp_pollfds p)" for j
    using k that by (metis length_list_update nth_map)
  show "pfd_map ?xs = (pfd_map (pp_pollfds p))(ch_fd (h c) \<mapsto> x)"
    using pfd_map_update[OF d i(1)] i(2) x(1) by simp
  have "\<forall>y \<in> set ?xs. pfd_fd y < 0 \<longrightarrow> pfd_events y = 0"
    using inv x(2) set_update_subset_insert[of "pp_pollfds p" ?i x] by (auto simp: pp_inv_def)
  moreover have "pfd_key (?xs ! nat (ch_index (h e))) = f" if e: "map_of (pp_channels p) f = Some e" for f e
    using nth[of "nat (ch_index (h e))"] pp_inv_entry[OF inv e[folded pp_reg_def]] by simp
  ultimately show "pp_inv (h, p\<lparr>pp_pollfds := ?xs\<rparr>)"
    using inv k img unfolding pp_inv_def pp_reg_def by simp
qed

lemma pp_upd_registered:
  assumes inv: "pp_inv (h, p)" and r: "pp_reg p (ch_fd (h c)) = Some c"
    and ev: "ev_ok (ch_events (h c))"
  shows "\<exists>p'. pp_updateChannel c (h, p) = Inr (h, p') \<and> pp_inv (h, p') \<and> pp_reg p' = pp_reg p \<and>
    pp_watch p' = (pp_watch p)(ch_fd (h c) := if ch_events (h c) = 0 then None else Some (ch_events (h c)))"
proof -
  let ?fd = "ch_fd (h c)" and ?i = "nat (ch_index (h c))"
  let ?old = "pp_pollfds p ! ?i"
  let ?x1 = "?old\<lparr>pfd_fd := ?fd, pfd_events := ucast (ch_events (h c)), pfd_revents := 0\<rparr>"
  let ?x = "if ch_events (h c) = 0 then ?x1\<lparr>pfd_fd := - ?fd - 1\<rparr> else ?x1"
  let ?p = "p\<lparr>pp_pollfds := (pp_pollfds p)[?i := ?x]\<rparr>"
  have fd: "0 \<le> ?fd" and i: "\<not> ch_index (h c) < 0" "0 \<le> ch_index (h c)"
    "ch_index (h c) < int (length (pp_pollfds p))" "pfd_key ?old = ?fd"
    using pp_inv_entry[OF inv r] by simp_all
  have old: "pfd_fd ?old = ?fd \<or> pfd_fd ?old = - ?fd - 1"
    using i(4) by (auto simp: pfd_key_def split: if_splits)
  have x: "pfd_key ?x = ?fd" "pfd_fd ?x < 0 \<longrightarrow> pfd_events ?x = 0"
    using fd by (auto simp: pfd_key_def)
  have "pp_updateChannel c (h, p) = Inr (h, ?p)"
    unfolding pp_updateChannel_def Let_def isNoneEvent_def split_conv
    using i old r[unfolded pp_reg_def] by simp
  moreover note pp_upd_entry(1)[OF inv r x]
  moreover have "pp_watch ?p = (pp_watch p)(?fd := if ch_events (h c) = 0 then None else Some (ch_events (h c)))"
    using pp_upd_entry(2)[OF inv r x] ev_ok_cast[OF ev] fd
    by (auto simp: pp_watch_def pfd_watch_def fun_eq_iff)
  ultimately show ?thesis by (intro exI[of _ ?p]) (simp add: pp_reg_def)
qed

text \<open>Removing an entry by moving the last one into its place: the channel of the moved entry gets
  the freed index, every other channel keeps its own.\<close>

lemma pp_inv_swap_pop:
  fixes p h c b
  defines "xs \<equiv> pp_pollfds p" and "i \<equiv> nat (ch_index (h c))"
  defines "h' \<equiv> h(b := set_index (ch_index (h c)) (h b))"
  assumes inv: "pp_inv (h, p)" and r: "pp_reg p (ch_fd (h c)) = Some c"
    and b: "pp_reg p (pfd_key (last xs)) = Some b"
  shows "pp_inv (h', p\<lparr>pp_channels := omap_erase (ch_fd (h c)) (pp_channels p), pp_pollfds := swap_pop i xs\<rparr>)"
proof -
  note e = pp_inv_entry[OF inv r, folded xs_def i_def] and eb = pp_inv_entry[OF inv b, folded xs_def]
  have I: "distinct (map pfd_key xs)" "omap_wf (pp_channels p)" "pfd_key ` set xs = dom (pp_reg p)"
    "\<forall>x \<in> set xs. pfd_fd x < 0 \<longrightarrow> pfd_events x = 0"
    using inv by (simp_all add: pp_inv_def xs_def)
  have ne: "xs \<noteq> []" using e(6) by auto
  have "0 \<le> f \<and> ch_fd (h' a) = f \<and> 0 \<le> ch_index (h' a) \<and> ch_index (h' a) < int (length xs - 1) \<and>
      pfd_key (swap_pop i xs ! nat (ch_index (h' a))) = f"
    if a: "pp_reg p f = Some a" and f: "f \<noteq> ch_fd (h c)" for f a
  proof -
    note ea = pp_inv_entry[OF inv a, folded xs_def]
    have same: "f = g" if "nat (ch_index (h a)) = j" "pfd_key (xs ! j) = g" for g j
      using ea(7) that by simp
    have ai: "nat (ch_index (h a)) \<noteq> i" using same e(7) f by blast
    show ?thesis
    proof (cases "a = b")
      case True
      then have fl: "f = pfd_key (last xs)" using ea(2) eb(2) by simp
      then have "i \<noteq> length xs - 1" using e(7) f last_conv_nth[OF ne] by auto
      then have "i < length xs - 1" using e(6) by simp
      with True fl ea e swap_pop_nth[OF e(6) this] show ?thesis
        by (simp add: h'_def set_index_def i_def)
    next
      case False
      have "nat (ch_index (h a)) \<noteq> length xs - 1"
        using same[of "length xs - 1" "pfd_key (last xs)"] last_conv_nth[OF ne] a b False by auto
      then have "nat (ch_index (h a)) < length xs - 1" using ea(6) by simp
      with False ea ai swap_pop_nth[OF e(6) this] show ?thesis by (simp add: h'_def)
    qed
  qed
  then show ?thesis
    using pfd_map_swap_pop(2-4)[OF I(1) e(6), unfolded e(7)] omap_wf_erase[OF I(2)] I(3,4)
    by (auto simp: pp_inv_def pp_reg_def)
qed

lemma pp_rem_off:
  assumes inv: "pp_inv (h, p)" and off: "ch_events (h c) = 0"
    and r: "pp_reg p (ch_fd (h c)) = Some c" and w: "pp_watch p (ch_fd (h c)) = None"
  shows "\<exists>h' p'. pp_removeChannel c (h, p) = Inr (h', p') \<and> pp_inv (h', p') \<and> same_upto_index h h' \<and>
    pp_reg p' = (pp_reg p)(ch_fd (h c) := None) \<and> pp_watch p' = pp_watch p"
proof -
  define xs fd i where "xs = pp_pollfds p" and "fd = ch_fd (h c)" and "i = nat (ch_index (h c))"
  define chans where "chans = omap_erase fd (pp_channels p)"
  note e = pp_inv_entry[OF inv r, folded xs_def fd_def i_def]
  have I: "distinct (map pfd_key xs)" "omap_wf (pp_channels p)" "pfd_key ` set xs = dom (pp_reg p)"
    "\<forall>x \<in> set xs. pfd_fd x < 0 \<longrightarrow> pfd_events x = 0"
    using inv by (simp_all add: pp_inv_def xs_def)
  have ne: "xs \<noteq> []" using e(6) by auto
  have "pfd_fd (xs ! i) < 0" using pfd_map_nth[OF I(1) e(6)] e(7) w
    by (simp add: pp_watch_def pfd_watch_def xs_def[symmetric] fd_def[symmetric] split: if_splits)
  then have x: "pfd_fd (xs ! i) = - fd - 1" "pfd_events (xs ! i) = 0"
    using e(6,7) I(4) by (auto simp: pfd_key_def)
  let ?p = "p\<lparr>pp_channels := chans, pp_pollfds := swap_pop i xs\<rparr>"
  have watch: "pp_watch ?p = pp_watch p"
    using pfd_map_swap_pop(1)[OF I(1) e(6), unfolded e(7)] w
    by (auto simp: pp_watch_def pfd_watch_def fun_eq_iff xs_def fd_def)
  have "pfd_key (last xs) \<in> dom (pp_reg p)" using I(3) last_in_set[OF ne] by auto
  then obtain b where b: "pp_reg p (pfd_key (last xs)) = Some b" by auto
  let ?h = "h(b := set_index (ch_index (h c)) (h b))"
  have last_i: "h = ?h" if "i = length xs - 1"
    using that b r e(7) last_conv_nth[OF ne] by (auto simp: fd_def fun_eq_iff set_index_def)
  have not_last: "map_of chans (pfd_key (last xs)) = Some b" if "i \<noteq> length xs - 1"
    using that b I(1) e(6,7) last_conv_nth[OF ne] ne
    by (auto simp: chans_def pp_reg_def distinct_conv_nth)
  have run: "pp_removeChannel c (h, p) = (if i = length xs - 1 then Inr (h, ?p)
      else case map_of chans (pfd_key (last xs)) of None \<Rightarrow> Inl SegFault
        | Some b \<Rightarrow> Inr (h(b := set_index (ch_index (h c)) (h b)), ?p))"
    unfolding pp_removeChannel_def Let_def isNoneEvent_def split_conv xs_def[symmetric] fd_def[symmetric]
      i_def[symmetric] chans_def[symmetric] pfd_key_def[of "last xs"]
    using r[unfolded pp_reg_def, folded fd_def] off e(3-6) x
      length_omap_erase[OF I(2) r[unfolded pp_reg_def, folded fd_def], folded chans_def]
    by (simp add: swap_pop_def split: option.splits)
  have "pp_removeChannel c (h, p) = Inr (?h, ?p)"
    unfolding run using last_i not_last by (cases "i = length xs - 1") simp_all
  moreover have "pp_inv (?h, ?p)"
    using pp_inv_swap_pop[OF inv r b[unfolded xs_def]] by (simp add: xs_def fd_def i_def chans_def)
  ultimately show ?thesis using watch
    by (intro exI[of _ ?h] exI[of _ ?p]) (simp add: pp_reg_def chans_def fd_def)
qed

lemma pp_watch_reg: "pp_inv (h, p) \<Longrightarrow> pp_reg p fd = None \<Longrightarrow> pp_watch p fd = None"
proof -
  assume "pp_inv (h, p)" "pp_reg p fd = None"
  then have "fd \<notin> pfd_key ` set (pp_pollfds p)" by (auto simp: pp_inv_def)
  then have "pfd_map (pp_pollfds p) fd = None" by (auto simp: pfd_map_def map_of_eq_None_iff)
  then show ?thesis by (simp add: pp_watch_def pfd_watch_def)
qed

interpretation pp: poller pp_updateChannel pp_removeChannel pp_inv pp_reg pp_watch
proof
  show "\<exists>h' p'. pp_updateChannel c (h, p) = Inr (h', p') \<and> pp_inv (h', p') \<and> same_upto_index h h' \<and>
      pp_reg p' = pp_reg p \<and> pp_watch p' = (pp_watch p)(ch_fd (h c) := None)"
    if "pp_inv (h, p)" "ch_events (h c) = 0" "pp_reg p (ch_fd (h c)) = Some c" for h p c
    using pp_upd_registered[OF that(1,3)] that(2) by (auto simp: ev_ok_def)
  show "\<exists>h' p'. pp_updateChannel c (h, p) = Inr (h', p') \<and> pp_inv (h', p') \<and> same_upto_index h h' \<and>
      pp_reg p' = pp_reg p \<and> pp_watch p' = (pp_watch p)(ch_fd (h c) \<mapsto> ch_events (h c))"
    if "pp_inv (h, p)" "ev_ok (ch_events (h c))" "ch_events (h c) \<noteq> 0" "pp_reg p (ch_fd (h c)) = Some c" for h p c
    using pp_upd_registered[OF that(1,4,2)] that(3) by auto
qed (auto intro: pp_inv_heap pp_inv_unregistered pp_upd_new pp_rem_off pp_watch_reg)

section \<open>Polling\<close>

text \<open>The heap after the received events of some channels have been set.\<close>

definition receive :: "(events \<times> chan_ptr) list \<Rightarrow> chan_heap \<Rightarrow> chan_heap" where
  "receive evs h = fold (\<lambda>(ev, c) h. h(c := set_revents ev (h c))) evs h"

lemma receive_simps [simp]:
  "receive [] h = h"
  "receive ((ev, c) # evs) h = receive evs (h(c := set_revents ev (h c)))"
  by (simp_all add: receive_def)

lemma receive_fields [simp]:
  "ch_fd (receive evs h d) = ch_fd (h d)" "ch_index (receive evs h d) = ch_index (h d)"
  "ch_events (receive evs h d) = ch_events (h d)"
  by (induction evs arbitrary: h) (auto simp: set_revents_def)

lemma receive_other: "d \<notin> snd ` set evs \<Longrightarrow> receive evs h d = h d"
  by (induction evs arbitrary: h) auto

lemma receive_revents:
  "distinct (map snd evs) \<Longrightarrow> (ev, c) \<in> set evs \<Longrightarrow> ch_revents (receive evs h c) = ev"
proof (induction evs arbitrary: h)
  case (Cons x evs)
  obtain e d where x: "x = (e, d)" by fastforce
  show ?case
  proof (cases "x = (ev, c)")
    case True
    then have "c \<notin> snd ` set evs" using Cons.prems(1) by auto
    from receive_other[OF this] show ?thesis by (simp add: True set_revents_def)
  next
    case False
    with Cons.prems x have "(ev, c) \<in> set evs" "distinct (map snd evs)" by auto
    with Cons.IH x show ?thesis by simp
  qed
qed simp

text \<open>The entries of the vector that report something, at most \<open>n\<close> of them, with the channels they
  belong to.\<close>

definition pp_ready :: "pollfd list \<Rightarrow> (int \<times> chan_ptr) list \<Rightarrow> (events \<times> chan_ptr) list" where
  "pp_ready pfds chans = map (\<lambda>x. (scast (pfd_revents x), the (map_of chans (pfd_fd x))))
     (filter (\<lambda>x. 0 < sint (pfd_revents x)) pfds)"

lemma pp_fill_ok:
  assumes "\<forall>x \<in> set pfds. 0 < sint (pfd_revents x) \<longrightarrow>
    (\<exists>c. map_of chans (pfd_fd x) = Some c \<and> ch_fd (h c) = pfd_fd x)" "0 \<le> n"
  shows "pp_fill pfds n chans h active =
    Inr (receive (take (nat n) (pp_ready pfds chans)) h, active @ map snd (take (nat n) (pp_ready pfds chans)))"
  using assms
proof (induction pfds arbitrary: h active n)
  case (Cons x pfds)
  show ?case
  proof (cases "0 < n \<and> 0 < sint (pfd_revents x)")
    case True
    then obtain c where c: "map_of chans (pfd_fd x) = Some c" "ch_fd (h c) = pfd_fd x"
      using Cons.prems(1) by auto
    let ?h = "h(c := set_revents (scast (pfd_revents x)) (h c))"
    have "\<forall>y \<in> set pfds. 0 < sint (pfd_revents y) \<longrightarrow>
        (\<exists>d. map_of chans (pfd_fd y) = Some d \<and> ch_fd (?h d) = pfd_fd y)"
      using Cons.prems(1) by (auto simp: set_revents_def)
    note IH = Cons.IH[OF this, of "n - 1" "active @ [c]"]
    have n: "nat n = Suc (nat (n - 1))" using True by linarith
    have r: "pp_ready (x # pfds) chans = (scast (pfd_revents x), c) # pp_ready pfds chans"
      using True c by (simp add: pp_ready_def)
    show ?thesis using True c IH unfolding n r by (simp del: fun_upd_apply)
  next
    case False
    with Cons show ?thesis by (auto simp: pp_ready_def not_less)
  qed
qed (simp add: pp_ready_def)

end
