(* ===== verification/Net_EPollPoller.thy ===== *)
theory Net_EPollPoller
  imports Net_PollPoller
begin

text \<open>
  \<^verbatim>\<open>net/poller/EPollPoller.cc\<close>, the poller over \<^verbatim>\<open>epoll(7)\<close>, and the properties both pollers have.
  The index of a channel is one of the states new, added and deleted.

  The kernel is a parameter: it decides from the calls it has accepted so far whether the next one
  succeeds. The hypothesis \<open>kernel_ok\<close> is what \<^verbatim>\<open>epoll_ctl(2)\<close> documents, that adding an absent
  descriptor and changing or deleting a present one succeed.
\<close>

section \<open>The epoll poller\<close>

datatype ctl_op = EPOLL_CTL_ADD | EPOLL_CTL_DEL | EPOLL_CTL_MOD

type_synonym epoll_call = "ctl_op \<times> int \<times> events \<times> chan_ptr"
type_synonym epoll_kernel = "epoll_call list \<Rightarrow> ctl_op \<Rightarrow> int \<Rightarrow> bool"

text \<open>The descriptor \<^verbatim>\<open>epollfd_\<close> stands for a kernel object: the calls it has accepted and how it
  decides on the next one.\<close>

record epoll_poller =
  ep_channels :: "(int \<times> chan_ptr) list"
  ep_kernel :: epoll_kernel
  ep_log :: "epoll_call list"
  ep_events_size :: nat

type_synonym ep_state = "epoll_poller reg_state"

definition kInitEventListSize :: nat where "kInitEventListSize = 16"
definition kNew :: int where "kNew = -1"
definition kAdded :: int where "kAdded = 1"
definition kDeleted :: int where "kDeleted = 2"

lemmas ep_index_defs = kNew_def kAdded_def kDeleted_def

definition EPollPoller_ctor :: "epoll_kernel option \<Rightarrow> epoll_poller result" where
  "EPollPoller_ctor epoll_create1 = (case epoll_create1 of
     None \<Rightarrow> Inl LogFatal
   | Some k \<Rightarrow> Inr \<lparr>ep_channels = [], ep_kernel = k, ep_log = [], ep_events_size = kInitEventListSize\<rparr>)"

definition ep_hasChannel :: "chan_ptr \<Rightarrow> ep_state \<Rightarrow> bool" where
  "ep_hasChannel c s = (case s of (h, p) \<Rightarrow>
     (case map_of (ep_channels p) (ch_fd (h c)) of None \<Rightarrow> False | Some d \<Rightarrow> d = c))"

definition ep_update :: "ctl_op \<Rightarrow> chan_ptr \<Rightarrow> ep_state \<Rightarrow> ep_state result" where
  "ep_update operation c s = (case s of (h, p) \<Rightarrow>
     let fd = ch_fd (h c) in
     if ep_kernel p (ep_log p) operation fd then
       Inr (h, p\<lparr>ep_log := ep_log p @ [(operation, fd, ch_events (h c), c)]\<rparr>)
     else if operation = EPOLL_CTL_DEL then Inr (h, p)
     else Inl LogFatal)"

definition ep_updateChannel :: "chan_ptr \<Rightarrow> ep_state \<Rightarrow> ep_state result" where
  "ep_updateChannel c s = (case s of (h, p) \<Rightarrow>
     let ch = h c; index = ch_index ch; fd = ch_fd ch in
     if index = kNew \<or> index = kDeleted then
       andThen
         (if index = kNew then
            andThen (check (map_of (ep_channels p) fd = None)) (\<lambda>_.
              Inr (p\<lparr>ep_channels := omap_put fd c (ep_channels p)\<rparr>))
          else
            andThen (check (map_of (ep_channels p) fd \<noteq> None)) (\<lambda>_.
            andThen (check (map_of (ep_channels p) fd = Some c)) (\<lambda>_. Inr p)))
         (\<lambda>p'. ep_update EPOLL_CTL_ADD c (h(c := set_index kAdded ch), p'))
     else
       andThen (check (map_of (ep_channels p) fd \<noteq> None)) (\<lambda>_.
       andThen (check (map_of (ep_channels p) fd = Some c)) (\<lambda>_.
       andThen (check (index = kAdded)) (\<lambda>_.
       if isNoneEvent ch then
         andThen (ep_update EPOLL_CTL_DEL c (h, p)) (\<lambda>(h', p').
           Inr (h'(c := set_index kDeleted (h' c)), p'))
       else ep_update EPOLL_CTL_MOD c (h, p)))))"

definition ep_removeChannel :: "chan_ptr \<Rightarrow> ep_state \<Rightarrow> ep_state result" where
  "ep_removeChannel c s = (case s of (h, p) \<Rightarrow>
     let ch = h c; fd = ch_fd ch; index = ch_index ch in
     andThen (check (map_of (ep_channels p) fd \<noteq> None)) (\<lambda>_.
     andThen (check (map_of (ep_channels p) fd = Some c)) (\<lambda>_.
     andThen (check (isNoneEvent ch)) (\<lambda>_.
     andThen (check (index = kAdded \<or> index = kDeleted)) (\<lambda>_.
     let chans = omap_erase fd (ep_channels p) in
     andThen (check (length (ep_channels p) = length chans + 1)) (\<lambda>_.
     andThen (if index = kAdded then ep_update EPOLL_CTL_DEL c (h, p\<lparr>ep_channels := chans\<rparr>)
              else Inr (h, p\<lparr>ep_channels := chans\<rparr>)) (\<lambda>(h', p').
     Inr (h'(c := set_index kNew (h' c)), p'))))))))"

fun ep_fill :: "(events \<times> chan_ptr) list \<Rightarrow> (int \<times> chan_ptr) list \<Rightarrow> chan_heap \<Rightarrow> chan_ptr list \<Rightarrow>
    (chan_heap \<times> chan_ptr list) result" where
  "ep_fill [] chans h active = Inr (h, active)"
| "ep_fill ((ev, c) # evs) chans h active =
     andThen (check (map_of chans (ch_fd (h c)) \<noteq> None)) (\<lambda>_.
     andThen (check (map_of chans (ch_fd (h c)) = Some c)) (\<lambda>_.
       ep_fill evs chans (h(c := set_revents ev (h c))) (active @ [c])))"

definition ep_fillActiveChannels :: "nat \<Rightarrow> (events \<times> chan_ptr) list \<Rightarrow> ep_state \<Rightarrow>
    (chan_heap \<times> chan_ptr list) result" where
  "ep_fillActiveChannels numEvents evs s = (case s of (h, p) \<Rightarrow>
     andThen (check (numEvents \<le> ep_events_size p)) (\<lambda>_.
       ep_fill (take numEvents evs) (ep_channels p) h []))"

text \<open>\<^verbatim>\<open>EPollPoller::poll\<close>: the system call \<open>epoll_wait\<close> is given the capacity of the event array and
  returns its result and the array.\<close>

definition ep_poll :: "(nat \<Rightarrow> int \<times> (events \<times> chan_ptr) list) \<Rightarrow> ep_state \<Rightarrow>
    (ep_state \<times> chan_ptr list) result" where
  "ep_poll epoll_wait s = (case s of (h, p) \<Rightarrow>
     (case epoll_wait (ep_events_size p) of (numEvents, evs) \<Rightarrow>
        if 0 < numEvents then
          andThen (ep_fillActiveChannels (nat numEvents) evs (h, p)) (\<lambda>(h', active).
            Inr ((h', if nat numEvents = ep_events_size p
                      then p\<lparr>ep_events_size := ep_events_size p * 2\<rparr> else p), active))
        else Inr ((h, p), [])))"

definition operationToString :: "ctl_op \<Rightarrow> string" where
  "operationToString operation = (case operation of
     EPOLL_CTL_ADD \<Rightarrow> ''ADD'' | EPOLL_CTL_DEL \<Rightarrow> ''DEL'' | EPOLL_CTL_MOD \<Rightarrow> ''MOD'')"

section \<open>The epoll poller keeps its contract\<close>

text \<open>The interest list of \<^verbatim>\<open>epoll(7)\<close> after a sequence of accepted calls.\<close>

fun ctl_effect :: "epoll_call \<Rightarrow> (int \<rightharpoonup> events) \<Rightarrow> (int \<rightharpoonup> events)" where
  "ctl_effect (EPOLL_CTL_ADD, fd, e, c) m = m(fd \<mapsto> e)"
| "ctl_effect (EPOLL_CTL_MOD, fd, e, c) m = m(fd \<mapsto> e)"
| "ctl_effect (EPOLL_CTL_DEL, fd, e, c) m = m(fd := None)"

definition interest :: "epoll_call list \<Rightarrow> int \<rightharpoonup> events" where
  "interest log = fold ctl_effect log Map.empty"

definition kernel_ok :: "epoll_kernel \<Rightarrow> bool" where
  "kernel_ok k \<longleftrightarrow> (\<forall>log operation fd.
     (interest log fd = None \<longleftrightarrow> operation = EPOLL_CTL_ADD) \<longrightarrow> k log operation fd)"

definition ep_reg :: "epoll_poller \<Rightarrow> int \<rightharpoonup> chan_ptr" where
  "ep_reg p = map_of (ep_channels p)"

definition ep_watch :: "epoll_poller \<Rightarrow> int \<rightharpoonup> events" where
  "ep_watch p = interest (ep_log p)"

definition ep_inv :: "ep_state \<Rightarrow> bool" where
  "ep_inv s = (case s of (h, p) \<Rightarrow>
     omap_wf (ep_channels p) \<and> kernel_ok (ep_kernel p) \<and> dom (ep_watch p) \<subseteq> dom (ep_reg p) \<and>
     (\<forall>fd c. ep_reg p fd = Some c \<longrightarrow> ch_fd (h c) = fd \<and>
        ch_index (h c) = (if ep_watch p fd = None then kDeleted else kAdded)))"

lemma interest_snoc [simp]: "interest (log @ [x]) = ctl_effect x (interest log)"
  by (simp add: interest_def)

lemma ep_update_ok:
  assumes "kernel_ok (ep_kernel p)" "ep_watch p (ch_fd (h c)) = None \<longleftrightarrow> operation = EPOLL_CTL_ADD"
  shows "ep_update operation c (h, p) =
    Inr (h, p\<lparr>ep_log := ep_log p @ [(operation, ch_fd (h c), ch_events (h c), c)]\<rparr>)"
  using assms by (simp add: ep_update_def kernel_ok_def ep_watch_def)

lemma ep_inv_parts:
  assumes "ep_inv (h, p)"
  shows "omap_wf (ep_channels p)" "kernel_ok (ep_kernel p)" "dom (ep_watch p) \<subseteq> dom (ep_reg p)"
    and "ep_reg p fd = Some c \<Longrightarrow> ch_fd (h c) = fd"
    and "ep_reg p fd = Some c \<Longrightarrow> ch_index (h c) = (if ep_watch p fd = None then kDeleted else kAdded)"
  using assms by (simp_all add: ep_inv_def)

lemma ep_inv_heap:
  "ep_inv (h, p) \<Longrightarrow> (\<And>d. ch_fd (h' d) = ch_fd (h d) \<and> ch_index (h' d) = ch_index (h d)) \<Longrightarrow> ep_inv (h', p)"
  by (simp add: ep_inv_def)

lemma ep_inv_unregistered: "ep_inv (h, p) \<Longrightarrow> (\<And>fd. ep_reg p fd \<noteq> Some c) \<Longrightarrow> ep_inv (h(c := ch), p)"
  by (auto simp: ep_inv_def)

text \<open>Changing the index of one channel and its entries of the two tables.\<close>

lemma ep_inv_change:
  assumes inv: "ep_inv (h, p)" and wf: "omap_wf (ep_channels p')" and k: "ep_kernel p' = ep_kernel p"
    and reg: "ep_reg p' = (ep_reg p)(ch_fd (h c) := r)" and watch: "ep_watch p' = (ep_watch p)(ch_fd (h c) := w)"
    and r: "r = Some c \<and> i = (if w = None then kDeleted else kAdded) \<or> r = None \<and> w = None"
    and c: "\<And>fd. ep_reg p fd = Some c \<Longrightarrow> fd = ch_fd (h c)"
  shows "ep_inv (h(c := set_index i (h c)), p')"
proof -
  note parts = ep_inv_parts[OF inv]
  have "dom (ep_watch p') \<subseteq> dom (ep_reg p')"
    using parts(3) r by (auto simp: reg watch split: if_splits)
  moreover have "ch_fd ((h(c := set_index i (h c))) d) = fd \<and> ch_index ((h(c := set_index i (h c))) d) =
      (if ep_watch p' fd = None then kDeleted else kAdded)" if d: "ep_reg p' fd = Some d" for fd d
  proof (cases "fd = ch_fd (h c)")
    case True
    with d r show ?thesis by (auto simp: reg watch set_index_def)
  next
    case False
    then have "ep_reg p fd = Some d" using d by (simp add: reg)
    with parts(4,5)[OF this] c[of fd] False show ?thesis by (auto simp: watch)
  qed
  ultimately show ?thesis using wf parts(2) k by (simp add: ep_inv_def)
qed

lemma ep_upd_new:
  assumes inv: "ep_inv (h, p)" and ix: "ch_index (h c) = -1" and new: "ep_reg p (ch_fd (h c)) = None"
  shows "\<exists>h' p'. ep_updateChannel c (h, p) = Inr (h', p') \<and> ep_inv (h', p') \<and> same_upto_index h h' \<and>
    ep_reg p' = (ep_reg p)(ch_fd (h c) \<mapsto> c) \<and> ep_watch p' = (ep_watch p)(ch_fd (h c) \<mapsto> ch_events (h c))"
proof -
  let ?fd = "ch_fd (h c)"
  let ?h = "h(c := set_index kAdded (h c))"
  let ?p1 = "p\<lparr>ep_channels := omap_put ?fd c (ep_channels p)\<rparr>"
  let ?p = "?p1\<lparr>ep_log := ep_log p @ [(EPOLL_CTL_ADD, ?fd, ch_events (h c), c)]\<rparr>"
  note parts = ep_inv_parts[OF inv]
  have w: "ep_watch p ?fd = None" using parts(3) new by auto
  have c: "fd = ?fd" if "ep_reg p fd = Some c" for fd using parts(4)[OF that] by simp
  have reg: "ep_reg ?p = (ep_reg p)(?fd \<mapsto> c)" by (simp add: ep_reg_def)
  have watch: "ep_watch ?p = (ep_watch p)(?fd \<mapsto> ch_events (h c))" by (simp add: ep_watch_def)
  have "ep_updateChannel c (h, p) = ep_update EPOLL_CTL_ADD c (?h, ?p1)"
    using ix new by (simp add: ep_updateChannel_def ep_index_defs ep_reg_def Let_def)
  also have "\<dots> = Inr (?h, ?p)"
    using ep_update_ok[of ?p1 ?h c EPOLL_CTL_ADD] parts(2) w by (simp add: set_index_def ep_watch_def)
  finally have "ep_updateChannel c (h, p) = Inr (?h, ?p)" .
  moreover have "ep_inv (?h, ?p)"
    by (rule ep_inv_change[OF inv _ _ reg watch]) (use c parts(1) omap_wf_put in auto)
  ultimately show ?thesis using reg watch by (intro exI[of _ ?h] exI[of _ ?p]) simp
qed

lemma set_index_same [simp]: "ch_index (h c) = i \<Longrightarrow> h(c := set_index i (h c)) = h"
  by (simp add: set_index_def fun_eq_iff)

lemma ep_upd_on:
  assumes inv: "ep_inv (h, p)" and ev: "ch_events (h c) \<noteq> 0" and r: "ep_reg p (ch_fd (h c)) = Some c"
  shows "\<exists>h' p'. ep_updateChannel c (h, p) = Inr (h', p') \<and> ep_inv (h', p') \<and> same_upto_index h h' \<and>
    ep_reg p' = ep_reg p \<and> ep_watch p' = (ep_watch p)(ch_fd (h c) \<mapsto> ch_events (h c))"
proof -
  let ?fd = "ch_fd (h c)"
  define operation where "operation = (if ep_watch p ?fd = None then EPOLL_CTL_ADD else EPOLL_CTL_MOD)"
  let ?h = "h(c := set_index kAdded (h c))"
  let ?p = "p\<lparr>ep_log := ep_log p @ [(operation, ?fd, ch_events (h c), c)]\<rparr>"
  note parts = ep_inv_parts[OF inv]
  have ix: "ch_index (h c) = (if ep_watch p ?fd = None then kDeleted else kAdded)" using parts(5)[OF r] .
  have c: "fd = ?fd" if "ep_reg p fd = Some c" for fd using parts(4)[OF that] by simp
  have reg: "ep_reg ?p = (ep_reg p)(?fd := Some c)" using r by (simp add: ep_reg_def fun_upd_idem)
  have watch: "ep_watch ?p = (ep_watch p)(?fd \<mapsto> ch_events (h c))"
    by (simp add: ep_watch_def operation_def)
  have "ep_updateChannel c (h, p) = ep_update operation c (?h, p)"
    using ix r ev
    by (auto simp: ep_updateChannel_def ep_index_defs ep_reg_def operation_def isNoneEvent_def Let_def)
  also have "\<dots> = Inr (?h, ?p)"
    using ep_update_ok[of p ?h c operation] parts(2) by (simp add: set_index_def operation_def)
  finally have "ep_updateChannel c (h, p) = Inr (?h, ?p)" .
  moreover have "ep_inv (?h, ?p)"
    by (rule ep_inv_change[OF inv _ _ reg watch]) (use c parts(1) in auto)
  moreover have "ep_reg ?p = ep_reg p" by (simp add: ep_reg_def)
  ultimately show ?thesis using watch by (intro exI[of _ ?h] exI[of _ ?p]) simp
qed

lemma ep_upd_off:
  assumes inv: "ep_inv (h, p)" and ev: "ch_events (h c) = 0" and r: "ep_reg p (ch_fd (h c)) = Some c"
    and w: "ep_watch p (ch_fd (h c)) \<noteq> None"
  shows "\<exists>h' p'. ep_updateChannel c (h, p) = Inr (h', p') \<and> ep_inv (h', p') \<and> same_upto_index h h' \<and>
    ep_reg p' = ep_reg p \<and> ep_watch p' = (ep_watch p)(ch_fd (h c) := None)"
proof -
  let ?fd = "ch_fd (h c)"
  let ?h = "h(c := set_index kDeleted (h c))"
  let ?p = "p\<lparr>ep_log := ep_log p @ [(EPOLL_CTL_DEL, ?fd, ch_events (h c), c)]\<rparr>"
  note parts = ep_inv_parts[OF inv]
  have ix: "ch_index (h c) = kAdded" using parts(5)[OF r] w by simp
  have c: "fd = ?fd" if "ep_reg p fd = Some c" for fd using parts(4)[OF that] by simp
  have reg: "ep_reg ?p = (ep_reg p)(?fd := Some c)" using r by (simp add: ep_reg_def fun_upd_idem)
  have watch: "ep_watch ?p = (ep_watch p)(?fd := None)" by (simp add: ep_watch_def)
  have "ep_updateChannel c (h, p) = Inr (?h, ?p)"
    using ix r ev ep_update_ok[of p h c EPOLL_CTL_DEL] parts(2) w
    by (simp add: ep_updateChannel_def ep_index_defs ep_reg_def isNoneEvent_def Let_def)
  moreover have "ep_inv (?h, ?p)"
    by (rule ep_inv_change[OF inv _ _ reg watch]) (use c parts(1) in auto)
  moreover have "ep_reg ?p = ep_reg p" by (simp add: ep_reg_def)
  ultimately show ?thesis using watch by (intro exI[of _ ?h] exI[of _ ?p]) simp
qed

lemma ep_rem:
  assumes inv: "ep_inv (h, p)" and ev: "ch_events (h c) = 0" and r: "ep_reg p (ch_fd (h c)) = Some c"
  shows "\<exists>h' p'. ep_removeChannel c (h, p) = Inr (h', p') \<and> ep_inv (h', p') \<and> same_upto_index h h' \<and>
    ep_reg p' = (ep_reg p)(ch_fd (h c) := None) \<and> ep_watch p' = (ep_watch p)(ch_fd (h c) := None)"
proof -
  let ?fd = "ch_fd (h c)"
  let ?h = "h(c := set_index kNew (h c))"
  let ?log = "if ep_watch p ?fd = None then ep_log p
    else ep_log p @ [(EPOLL_CTL_DEL, ?fd, ch_events (h c), c)]"
  let ?p1 = "p\<lparr>ep_channels := omap_erase ?fd (ep_channels p)\<rparr>"
  let ?p = "?p1\<lparr>ep_log := ?log\<rparr>"
  note parts = ep_inv_parts[OF inv]
  have ix: "ch_index (h c) = (if ep_watch p ?fd = None then kDeleted else kAdded)" using parts(5)[OF r] .
  have c: "fd = ?fd" if "ep_reg p fd = Some c" for fd using parts(4)[OF that] by simp
  have reg: "ep_reg ?p = (ep_reg p)(?fd := None)" by (simp add: ep_reg_def)
  have watch: "ep_watch ?p = (ep_watch p)(?fd := None)" by (simp add: ep_watch_def fun_upd_idem)
  have "ep_removeChannel c (h, p) = Inr (?h, ?p)"
    using ix r ev ep_update_ok[of ?p1 h c EPOLL_CTL_DEL] parts(2)
      length_omap_erase[OF parts(1) r[unfolded ep_reg_def]]
    by (simp add: ep_removeChannel_def ep_index_defs ep_reg_def ep_watch_def isNoneEvent_def Let_def)
  moreover have "ep_inv (?h, ?p)"
    by (rule ep_inv_change[OF inv _ _ reg watch]) (use c parts(1) omap_wf_erase in auto)
  ultimately show ?thesis using reg watch by (intro exI[of _ ?h] exI[of _ ?p]) simp
qed

lemma ep_watch_reg: "ep_inv (h, p) \<Longrightarrow> ep_reg p fd = None \<Longrightarrow> ep_watch p fd = None"
  using ep_inv_parts(3)[of h p] by auto

interpretation ep: poller ep_updateChannel ep_removeChannel ep_inv ep_reg ep_watch
proof
  show "\<exists>h' p'. ep_removeChannel c (h, p) = Inr (h', p') \<and> ep_inv (h', p') \<and> same_upto_index h h' \<and>
      ep_reg p' = (ep_reg p)(ch_fd (h c) := None) \<and> ep_watch p' = ep_watch p"
    if "ep_inv (h, p)" "ch_events (h c) = 0" "ep_reg p (ch_fd (h c)) = Some c"
      "ep_watch p (ch_fd (h c)) = None" for h p c
    using ep_rem[OF that(1-3)] that(4) by (simp add: fun_upd_idem)
qed (auto intro: ep_inv_heap ep_inv_unregistered ep_upd_new ep_upd_on ep_upd_off simp: ep_watch_reg)

section \<open>Polling\<close>

lemma ep_fill_ok:
  assumes "\<forall>(ev, c) \<in> set evs. map_of chans (ch_fd (h c)) = Some c"
  shows "ep_fill evs chans h active = Inr (receive evs h, active @ map snd evs)"
  using assms
proof (induction evs arbitrary: h active)
  case (Cons x evs)
  obtain e d where x: "x = (e, d)" by fastforce
  have "\<forall>(ev, c) \<in> set evs. map_of chans (ch_fd ((h(d := set_revents e (h d))) c)) = Some c"
    using Cons.prems by (auto simp: set_revents_def)
  note IH = Cons.IH[OF this, of "active @ [d]"]
  show ?case using Cons.prems by (simp add: x IH del: fun_upd_apply)
qed simp

section \<open>Properties\<close>

text \<open>(C19) Either poller carries a channel through its whole life without failing an assertion or
  aborting: registered for reading, writing interest switched on and off any number of times,
  everything disabled, removed. Afterwards the registered channels and the events the kernel
  watches for them are what they were before, and the poller's invariant holds again.\<close>

theorem pollers_carry_channel_life:
  assumes "0 \<le> ch_fd (h c)" "ch_index (h c) = -1" "ch_events (h c) = 0"
    and "pp_inv (h, p)" "pp_reg p (ch_fd (h c)) = None"
    and "ep_inv (h, q)" "ep_reg q (ch_fd (h c)) = None"
  shows "(\<exists>h' p'. channel_life pp_updateChannel pp_removeChannel c ws (h, p) = Inr (h', p') \<and>
      pp_inv (h', p') \<and> pp_reg p' = pp_reg p \<and> pp_watch p' = pp_watch p) \<and>
    (\<exists>h' q'. channel_life ep_updateChannel ep_removeChannel c ws (h, q) = Inr (h', q') \<and>
      ep_inv (h', q') \<and> ep_reg q' = ep_reg q \<and> ep_watch q' = ep_watch q)"
  using pp.lifecycle[of h p c ws] ep.lifecycle[of h q c ws] assms by (simp add: ev_ok_def)

text \<open>The kernel that accepts exactly the calls \<^verbatim>\<open>epoll_ctl(2)\<close> says it accepts.\<close>

definition strict_kernel :: epoll_kernel where
  "strict_kernel log operation fd \<longleftrightarrow> (interest log fd = None \<longleftrightarrow> operation = EPOLL_CTL_ADD)"

theorem pollers_carry_channel_life_witness:
  "\<exists>h' q'. channel_life ep_updateChannel ep_removeChannel 0 [True, False]
     (\<lambda>_. Channel_ctor 7, \<lparr>ep_channels = [], ep_kernel = strict_kernel, ep_log = [], ep_events_size = 16\<rparr>) =
     Inr (h', q') \<and> ep_reg q' = Map.empty"
proof -
  let ?q = "\<lparr>ep_channels = [], ep_kernel = strict_kernel, ep_log = [], ep_events_size = 16\<rparr>"
  have "pp_inv (\<lambda>_. Channel_ctor 7, PollPoller_ctor)"
    by (simp add: pp_inv_def PollPoller_ctor_def pp_reg_def)
  moreover have "ep_inv (\<lambda>_. Channel_ctor 7, ?q)"
    by (simp add: ep_inv_def ep_reg_def ep_watch_def interest_def kernel_ok_def strict_kernel_def)
  ultimately show ?thesis
    using pollers_carry_channel_life[of "\<lambda>_. Channel_ctor 7" 0 PollPoller_ctor ?q "[True, False]"]
    by (simp add: Channel_ctor_def PollPoller_ctor_def pp_reg_def ep_reg_def) blast
qed

text \<open>(C20) What \<^verbatim>\<open>poll\<close> hands to the event loop. The epoll poller returns exactly the channels the
  kernel reported, in that order, each with its received events, and doubles its event array when it
  was filled completely. The poll poller returns the channels of the vector entries with received
  events, in vector order. Neither fails an assertion as long as the kernel reports registered
  descriptors only.\<close>

theorem poll_returns_ready_channels:
  assumes ep: "epoll_wait (ep_events_size q) = (int (length evs), evs)" "length evs \<le> ep_events_size q"
      "\<And>ev c. (ev, c) \<in> set evs \<Longrightarrow> ep_reg q (ch_fd (h c)) = Some c" "distinct (map snd evs)"
    and pp: "pp_inv (h, p)" "sys_poll (pp_pollfds p) = (n, pfds)" "map pfd_fd pfds = map pfd_fd (pp_pollfds p)"
      "n = int (length (filter (\<lambda>x. 0 < sint (pfd_revents x)) pfds))"
      "\<And>x. x \<in> set pfds \<Longrightarrow> 0 < sint (pfd_revents x) \<Longrightarrow> 0 \<le> pfd_fd x"
  shows "(\<exists>h' q'. ep_poll epoll_wait (h, q) = Inr ((h', q'), map snd evs) \<and>
      (\<forall>ev c. (ev, c) \<in> set evs \<longrightarrow> ch_revents (h' c) = ev) \<and>
      ep_events_size q' = (if evs \<noteq> [] \<and> length evs = ep_events_size q then 2 * ep_events_size q
        else ep_events_size q)) \<and>
    (\<exists>h' p'. pp_poll sys_poll (h, p) = Inr ((h', p'), map snd (pp_ready pfds (pp_channels p))))"
proof
  have fill: "ep_fill evs (ep_channels q) h [] = Inr (receive evs h, map snd evs)"
    using ep_fill_ok[of evs "ep_channels q" h "[]"] ep(3) by (auto simp: ep_reg_def)
  show "\<exists>h' q'. ep_poll epoll_wait (h, q) = Inr ((h', q'), map snd evs) \<and>
      (\<forall>ev c. (ev, c) \<in> set evs \<longrightarrow> ch_revents (h' c) = ev) \<and>
      ep_events_size q' = (if evs \<noteq> [] \<and> length evs = ep_events_size q then 2 * ep_events_size q
        else ep_events_size q)"
    using ep(1,2) fill receive_revents[OF ep(4)]
    by (cases "evs = []") (auto simp: ep_poll_def ep_fillActiveChannels_def)
  have "\<forall>x \<in> set pfds. 0 < sint (pfd_revents x) \<longrightarrow>
      (\<exists>c. map_of (pp_channels p) (pfd_fd x) = Some c \<and> ch_fd (h c) = pfd_fd x)"
  proof (intro ballI impI)
    fix x assume x: "x \<in> set pfds" "0 < sint (pfd_revents x)"
    then have "pfd_fd x \<in> set (map pfd_fd (pp_pollfds p))" using pp(3) by (metis image_eqI set_map)
    then obtain y where "y \<in> set (pp_pollfds p)" "pfd_fd y = pfd_fd x" by auto
    moreover from this have "pfd_key y = pfd_fd x" using pp(5)[OF x] by (simp add: pfd_key_def)
    ultimately have "pfd_fd x \<in> pfd_key ` set (pp_pollfds p)" by (metis image_eqI)
    then obtain c where c: "pp_reg p (pfd_fd x) = Some c" using pp(1) by (auto simp: pp_inv_def)
    with pp_inv_entry(2)[OF pp(1) c] show "\<exists>c. map_of (pp_channels p) (pfd_fd x) = Some c \<and> ch_fd (h c) = pfd_fd x"
      by (auto simp: pp_reg_def)
  qed
  from pp_fill_ok[OF this, of n "[]"] pp(2,4)
  show "\<exists>h' p'. pp_poll sys_poll (h, p) = Inr ((h', p'), map snd (pp_ready pfds (pp_channels p)))"
    by (auto simp: pp_poll_def pp_ready_def Let_def)
qed

theorem poll_returns_ready_channels_witness:
  "\<exists>h' q'. ep_poll (\<lambda>_. (1, [(1, 0)])) (\<lambda>_. (Channel_ctor 7)\<lparr>ch_index := 0\<rparr>,
     \<lparr>ep_channels = [(7, 0)], ep_kernel = strict_kernel, ep_log = [], ep_events_size = 1\<rparr>) =
     Inr ((h', q'), [0]) \<and> ep_events_size q' = 2"
proof -
  let ?h = "\<lambda>_ :: nat. (Channel_ctor 7)\<lparr>ch_index := 0\<rparr>"
  let ?q = "\<lparr>ep_channels = [(7, 0)], ep_kernel = strict_kernel, ep_log = [], ep_events_size = 1\<rparr>"
  let ?p = "\<lparr>pp_channels = [(7, 0)], pp_pollfds = [\<lparr>pfd_fd = 7, pfd_events = 3, pfd_revents = 0\<rparr>]\<rparr>"
  let ?pfds = "[\<lparr>pfd_fd = 7, pfd_events = 3, pfd_revents = 1\<rparr>]"
  have "pp_inv (?h, ?p)"
    by (simp add: pp_inv_def pp_reg_def pfd_key_def Channel_ctor_def omap_wf_def)
  then show ?thesis
    using poll_returns_ready_channels[of "\<lambda>_. (1, [(1, 0)])" ?q "[(1, 0)]" ?h ?p "\<lambda>_. (1, ?pfds)" 1 ?pfds]
    by (simp add: ep_reg_def Channel_ctor_def) blast
qed

end
