(* ===== verification/Net_TcpConnection.thy ===== *)
theory Net_TcpConnection
  imports Net_EPollPoller Net_Buffer
begin

text \<open>
  \<^verbatim>\<open>net/TcpConnection.{h,cc}\<close>: the life of a connection from \<^verbatim>\<open>kConnecting\<close> to \<^verbatim>\<open>kDisconnected\<close>, its
  input and output buffers, and the writing interest of its channel.

  The record \<open>tcp\<close> holds the members of the object, the channels and the poller it is registered
  with, the functors it has queued in its loop, and a trace of what it did to the outside: bytes
  written to the socket, the write side shut down, callbacks invoked. The results of \<^verbatim>\<open>write\<close> and
  \<^verbatim>\<open>readv\<close> are parameters. A callback of the user is the last thing a handler does, or is made in
  the state \<^verbatim>\<open>kDisconnected\<close> where \<^verbatim>\<open>send\<close>, \<^verbatim>\<open>shutdown\<close> and \<^verbatim>\<open>forceClose\<close> do nothing, so what the
  user does in it appears as further steps.

  The lemmas about the registration are proved in the locale \<open>poller\<close> of the pollers' contract; the
  properties are stated for both pollers.
\<close>

section \<open>The connection\<close>

datatype StateE = kDisconnected | kConnecting | kConnected | kDisconnecting

datatype errno = EWOULDBLOCK | EPIPE | ECONNRESET | OtherErrno nat

datatype io_result = IoOk nat | IoErr errno

type_synonym sys_write = "string \<Rightarrow> io_result"

datatype tcp_functor =
    SendInLoop string
  | ShutdownInLoop
  | ForceCloseInLoop
  | StartReadInLoop
  | StopReadInLoop
  | WriteComplete
  | HighWaterMark nat

datatype tcp_event =
    EvSend string               \<comment> \<open>a message taken by \<^verbatim>\<open>sendInLoop\<close>\<close>
  | EvWrote string              \<comment> \<open>bytes the kernel accepted\<close>
  | EvFault                     \<comment> \<open>the peer is gone: a message is dropped\<close>
  | EvShutdownWrite
  | EvConnection StateE         \<comment> \<open>\<^verbatim>\<open>connectionCallback_\<close> in this state\<close>
  | EvMessage int               \<comment> \<open>\<^verbatim>\<open>messageCallback_\<close>\<close>
  | EvClose                     \<comment> \<open>\<^verbatim>\<open>closeCallback_\<close>\<close>
  | EvRunAfter int              \<comment> \<open>\<^verbatim>\<open>forceClose\<close> scheduled with a delay\<close>

record 'p tcp =
  ts_name :: string
  ts_state :: StateE
  ts_reading :: bool
  ts_chan :: chan_ptr
  ts_hasWriteComplete :: bool
  ts_hasHighWater :: bool
  ts_highWaterMark :: nat
  ts_input :: buffer
  ts_output :: buffer
  ts_lastReceiveTime :: int
  ts_reg :: "'p reg_state"
  ts_pending :: "tcp_functor list"
  ts_trace :: "tcp_event list"

definition ts_channel :: "'p tcp \<Rightarrow> channel" where
  "ts_channel s = fst (ts_reg s) (ts_chan s)"

definition emit :: "tcp_event \<Rightarrow> 'p tcp \<Rightarrow> 'p tcp" where
  "emit e s = s\<lparr>ts_trace := ts_trace s @ [e]\<rparr>"

definition queueInLoop :: "tcp_functor \<Rightarrow> 'p tcp \<Rightarrow> 'p tcp" where
  "queueInLoop f s = s\<lparr>ts_pending := ts_pending s @ [f]\<rparr>"

definition on_channel :: "'p reg_op \<Rightarrow> 'p tcp \<Rightarrow> 'p tcp result" where
  "on_channel f s = andThen (f (ts_chan s) (ts_reg s)) (\<lambda>r. Inr (s\<lparr>ts_reg := r\<rparr>))"

definition setState :: "StateE \<Rightarrow> 'p tcp \<Rightarrow> 'p tcp" where
  "setState st s = s\<lparr>ts_state := st\<rparr>"

definition tcp_connected :: "'p tcp \<Rightarrow> bool" where
  "tcp_connected s \<longleftrightarrow> ts_state s = kConnected"

definition tcp_disconnected :: "'p tcp \<Rightarrow> bool" where
  "tcp_disconnected s \<longleftrightarrow> ts_state s = kDisconnected"

text \<open>The constructor creates the channel of the socket in the heap and sets its four callbacks.\<close>

definition TcpConnection_ctor :: "string \<Rightarrow> chan_ptr \<Rightarrow> int \<Rightarrow> int \<Rightarrow> 'p reg_state \<Rightarrow> 'p tcp result" where
  "TcpConnection_ctor name c sockfd now r =
     andThen (buffer_ctor kInitialSize) (\<lambda>inp.
     andThen (buffer_ctor kInitialSize) (\<lambda>out.
       let ch = (Channel_ctor sockfd)\<lparr>ch_readCallback := True, ch_writeCallback := True,
                  ch_closeCallback := True, ch_errorCallback := True\<rparr>
       in Inr \<lparr>ts_name = name, ts_state = kConnecting, ts_reading = True, ts_chan = c,
               ts_hasWriteComplete = False, ts_hasHighWater = False,
               ts_highWaterMark = 64 * 1024 * 1024, ts_input = inp, ts_output = out,
               ts_lastReceiveTime = now, ts_reg = ((fst r)(c := ch), snd r),
               ts_pending = [], ts_trace = []\<rparr>))"

definition TcpConnection_dtor :: "'p tcp \<Rightarrow> unit result" where
  "TcpConnection_dtor s = check (ts_state s = kDisconnected)"

definition setWriteCompleteCallback :: "'p tcp \<Rightarrow> 'p tcp" where
  "setWriteCompleteCallback s = s\<lparr>ts_hasWriteComplete := True\<rparr>"

definition setHighWaterMarkCallback :: "nat \<Rightarrow> 'p tcp \<Rightarrow> 'p tcp" where
  "setHighWaterMarkCallback m s = s\<lparr>ts_hasHighWater := True, ts_highWaterMark := m\<rparr>"

definition stateToString :: "StateE \<Rightarrow> string" where
  "stateToString st = (case st of
     kDisconnected \<Rightarrow> ''kDisconnected'' | kConnecting \<Rightarrow> ''kConnecting''
   | kConnected \<Rightarrow> ''kConnected'' | kDisconnecting \<Rightarrow> ''kDisconnecting'')"

section \<open>Sending\<close>

text \<open>The second half of \<^verbatim>\<open>sendInLoop\<close>: what is left after the direct write goes to the output
  buffer, and the channel is asked to report writability.\<close>

definition send_rest :: "'p reg_op \<Rightarrow> string \<Rightarrow> nat \<Rightarrow> nat \<Rightarrow> bool \<Rightarrow> 'p tcp \<Rightarrow> 'p tcp result" where
  "send_rest upd data nwrote remaining faultError s =
     andThen (check (remaining \<le> length data)) (\<lambda>_.
     if \<not> faultError \<and> 0 < remaining then
       let oldLen = readableBytes (ts_output s);
           s1 = (if ts_highWaterMark s \<le> oldLen + remaining \<and> oldLen < ts_highWaterMark s \<and> ts_hasHighWater s
                 then queueInLoop (HighWaterMark (oldLen + remaining)) s else s)
       in andThen (buffer_append (take remaining (drop nwrote data)) (ts_output s1)) (\<lambda>b.
          let s2 = s1\<lparr>ts_output := b\<rparr>
          in if \<not> isWriting (ts_channel s2) then on_channel (enableWriting upd) s2 else Inr s2)
     else Inr s)"

definition sendInLoop :: "'p reg_op \<Rightarrow> sys_write \<Rightarrow> string \<Rightarrow> 'p tcp \<Rightarrow> 'p tcp result" where
  "sendInLoop upd wr data s =
     (if ts_state s = kDisconnected then Inr s
      else
        let s0 = emit (EvSend data) s; len = length data in
        if \<not> isWriting (ts_channel s0) \<and> readableBytes (ts_output s0) = 0 then
          (case wr data of
             IoOk nwrote \<Rightarrow>
               let remaining = size_t_of_int (int len - int nwrote);
                   s1 = emit (EvWrote (take nwrote data)) s0;
                   s2 = (if remaining = 0 \<and> ts_hasWriteComplete s1 then queueInLoop WriteComplete s1 else s1)
               in send_rest upd data nwrote remaining False s2
           | IoErr e \<Rightarrow>
               if e \<noteq> EWOULDBLOCK \<and> (e = EPIPE \<or> e = ECONNRESET)
               then send_rest upd data 0 len True (emit EvFault s0)
               else send_rest upd data 0 len False s0)
        else send_rest upd data 0 len False s0)"

definition tcp_send :: "'p reg_op \<Rightarrow> sys_write \<Rightarrow> bool \<Rightarrow> string \<Rightarrow> 'p tcp \<Rightarrow> 'p tcp result" where
  "tcp_send upd wr inLoopThread message s =
     (if ts_state s = kConnected then
        if inLoopThread then sendInLoop upd wr message s
        else Inr (queueInLoop (SendInLoop message) s)
      else Inr s)"

text \<open>\<^verbatim>\<open>send(Buffer*)\<close> also returns the emptied buffer.\<close>

definition tcp_send_buffer :: "'p reg_op \<Rightarrow> sys_write \<Rightarrow> bool \<Rightarrow> buffer \<Rightarrow> 'p tcp \<Rightarrow>
    (buffer \<times> 'p tcp) result" where
  "tcp_send_buffer upd wr inLoopThread buf s =
     (if ts_state s = kConnected then
        if inLoopThread then
          andThen (sendInLoop upd wr (byte_range buf (peek buf) (peek buf + readableBytes buf)) s) (\<lambda>s'.
            Inr (retrieveAll buf, s'))
        else
          andThen (retrieveAllAsString buf) (\<lambda>(message, buf').
            Inr (buf', queueInLoop (SendInLoop message) s))
      else Inr (buf, s))"

section \<open>Closing\<close>

definition shutdownInLoop :: "'p tcp \<Rightarrow> 'p tcp" where
  "shutdownInLoop s = (if \<not> isWriting (ts_channel s) then emit EvShutdownWrite s else s)"

definition tcp_shutdown :: "bool \<Rightarrow> 'p tcp \<Rightarrow> 'p tcp" where
  "tcp_shutdown inLoopThread s =
     (if ts_state s = kConnected then
        let s1 = setState kDisconnecting s
        in if inLoopThread then shutdownInLoop s1 else queueInLoop ShutdownInLoop s1
      else s)"

definition forceClose :: "'p tcp \<Rightarrow> 'p tcp" where
  "forceClose s =
     (if ts_state s = kConnected \<or> ts_state s = kDisconnecting
      then queueInLoop ForceCloseInLoop (setState kDisconnecting s) else s)"

definition forceCloseWithDelay :: "int \<Rightarrow> 'p tcp \<Rightarrow> 'p tcp" where
  "forceCloseWithDelay delay s =
     (if ts_state s = kConnected \<or> ts_state s = kDisconnecting
      then emit (EvRunAfter delay) (setState kDisconnecting s) else s)"

definition handleClose :: "'p reg_op \<Rightarrow> 'p tcp \<Rightarrow> 'p tcp result" where
  "handleClose upd s =
     andThen (check (ts_state s = kConnected \<or> ts_state s = kDisconnecting)) (\<lambda>_.
     andThen (on_channel (disableAll upd) (setState kDisconnected s)) (\<lambda>s1.
     Inr (emit EvClose (emit (EvConnection kDisconnected) s1))))"

definition forceCloseInLoop :: "'p reg_op \<Rightarrow> 'p tcp \<Rightarrow> 'p tcp result" where
  "forceCloseInLoop upd s =
     (if ts_state s = kConnected \<or> ts_state s = kDisconnecting then handleClose upd s else Inr s)"

section \<open>Reading interest\<close>

definition startReadInLoop :: "'p reg_op \<Rightarrow> 'p tcp \<Rightarrow> 'p tcp result" where
  "startReadInLoop upd s =
     (if \<not> ts_reading s \<or> \<not> isReading (ts_channel s) then
        andThen (on_channel (enableReading upd) s) (\<lambda>s1. Inr (s1\<lparr>ts_reading := True\<rparr>))
      else Inr s)"

definition stopReadInLoop :: "'p reg_op \<Rightarrow> 'p tcp \<Rightarrow> 'p tcp result" where
  "stopReadInLoop upd s =
     (if ts_reading s \<or> isReading (ts_channel s) then
        andThen (on_channel (disableReading upd) s) (\<lambda>s1. Inr (s1\<lparr>ts_reading := False\<rparr>))
      else Inr s)"

definition startRead :: "'p reg_op \<Rightarrow> bool \<Rightarrow> 'p tcp \<Rightarrow> 'p tcp result" where
  "startRead upd inLoopThread s =
     (if inLoopThread then startReadInLoop upd s else Inr (queueInLoop StartReadInLoop s))"

definition stopRead :: "'p reg_op \<Rightarrow> bool \<Rightarrow> 'p tcp \<Rightarrow> 'p tcp result" where
  "stopRead upd inLoopThread s =
     (if inLoopThread then stopReadInLoop upd s else Inr (queueInLoop StopReadInLoop s))"

section \<open>Events\<close>

definition connectEstablished :: "'p reg_op \<Rightarrow> 'p tcp \<Rightarrow> 'p tcp result" where
  "connectEstablished upd s =
     andThen (check (ts_state s = kConnecting)) (\<lambda>_.
     let s1 = setState kConnected s;
         s2 = (case ts_reg s1 of (h, p) \<Rightarrow>
                 s1\<lparr>ts_reg := (h(ts_chan s1 := channel_tie (h (ts_chan s1))), p)\<rparr>)
     in andThen (on_channel (enableReading upd) s2) (\<lambda>s3.
        Inr (emit (EvConnection (ts_state s3)) s3)))"

definition connectDestroyed :: "'p reg_op \<Rightarrow> 'p reg_op \<Rightarrow> 'p tcp \<Rightarrow> 'p tcp result" where
  "connectDestroyed upd rem s =
     andThen
       (if ts_state s = kConnected then
          andThen (on_channel (disableAll upd) (setState kDisconnected s)) (\<lambda>s1.
            Inr (emit (EvConnection kDisconnected) s1))
        else Inr s)
       (on_channel (channel_remove rem))"

definition handleRead :: "'p reg_op \<Rightarrow> (nat \<Rightarrow> string option) \<Rightarrow> int \<Rightarrow> 'p tcp \<Rightarrow> 'p tcp result" where
  "handleRead upd readv receiveTime s =
     andThen (readFd readv (ts_input s)) (\<lambda>(n, b).
     let s1 = s\<lparr>ts_lastReceiveTime := receiveTime, ts_input := b\<rparr>
     in if 0 < n then Inr (emit (EvMessage receiveTime) s1)
        else if n = 0 then handleClose upd s1
        else Inr s1)"

definition handleWrite :: "'p reg_op \<Rightarrow> sys_write \<Rightarrow> 'p tcp \<Rightarrow> 'p tcp result" where
  "handleWrite upd wr s =
     (if isWriting (ts_channel s) then
        let out = ts_output s;
            data = byte_range out (peek out) (peek out + readableBytes out)
        in (case wr data of
              IoErr e \<Rightarrow> Inr s
            | IoOk n \<Rightarrow>
                if 0 < n then
                  andThen (retrieve n out) (\<lambda>b.
                  let s1 = emit (EvWrote (take n data)) (s\<lparr>ts_output := b\<rparr>)
                  in if readableBytes b = 0 then
                       andThen (on_channel (disableWriting upd) s1) (\<lambda>s2.
                       let s3 = (if ts_hasWriteComplete s2 then queueInLoop WriteComplete s2 else s2)
                       in Inr (if ts_state s3 = kDisconnecting then shutdownInLoop s3 else s3))
                     else Inr s1)
                else Inr s)
      else Inr s)"

text \<open>Running a functor of the loop; \<^verbatim>\<open>writeCompleteCallback_\<close> and \<^verbatim>\<open>highWaterMarkCallback_\<close> are the
  user's.\<close>

definition run_functor :: "'p reg_op \<Rightarrow> sys_write \<Rightarrow> tcp_functor \<Rightarrow> 'p tcp \<Rightarrow> 'p tcp result" where
  "run_functor upd wr f s = (case f of
     SendInLoop message \<Rightarrow> sendInLoop upd wr message s
   | ShutdownInLoop \<Rightarrow> Inr (shutdownInLoop s)
   | ForceCloseInLoop \<Rightarrow> forceCloseInLoop upd s
   | StartReadInLoop \<Rightarrow> startReadInLoop upd s
   | StopReadInLoop \<Rightarrow> stopReadInLoop upd s
   | WriteComplete \<Rightarrow> Inr s
   | HighWaterMark n \<Rightarrow> Inr s)"

section \<open>Steps\<close>

text \<open>The dispatch of the channel: the callbacks of a report are called one after the other, and what the user's code calls
  in one of them comes before the next. \<open>dr_calls\<close> are the callbacks of the report in hand that are still to be called.\<close>

record 'p driven =
  dr_conn :: "'p tcp"
  dr_revents :: events
  dr_calls :: "channel_callback list"
  dr_established :: bool
  dr_destroyed :: bool

definition on_conn :: "('p tcp \<Rightarrow> 'p tcp result) \<Rightarrow> 'p driven \<Rightarrow> 'p driven result" where
  "on_conn f d = andThen (f (dr_conn d)) (\<lambda>s. Inr (d\<lparr>dr_conn := s\<rparr>))"

definition report :: "events \<Rightarrow> int \<Rightarrow> 'p driven \<Rightarrow> 'p driven" where
  "report r t d =
     (let s = dr_conn d; h = fst (ts_reg s);
          (calls, ch) = handleEvent True t (set_revents r (h (ts_chan s)))
      in d\<lparr>dr_conn := s\<lparr>ts_reg := (h(ts_chan s := ch), snd (ts_reg s))\<rparr>, dr_revents := r, dr_calls := calls\<rparr>)"

definition run_callback :: "'p reg_op \<Rightarrow> (nat \<Rightarrow> string option) \<Rightarrow> sys_write \<Rightarrow> channel_callback \<Rightarrow> 'p tcp \<Rightarrow> 'p tcp result" where
  "run_callback upd readv wr cb s = (case cb of
     CloseCallback \<Rightarrow> handleClose upd s
   | ErrorCallback \<Rightarrow> Inr s
   | ReadCallback t \<Rightarrow> handleRead upd readv t s
   | WriteCallback \<Rightarrow> handleWrite upd wr s)"

text \<open>\<open>write_ok\<close> is what \<^verbatim>\<open>write(2)\<close> documents: it never accepts more bytes than it is given; \<open>revents_ok\<close> is what
  \<^verbatim>\<open>poll(2)\<close> and \<^verbatim>\<open>epoll_ctl(2)\<close> document: only events asked for are reported, and errors and hang-ups.\<close>

definition write_ok :: "sys_write \<Rightarrow> bool" where
  "write_ok wr \<longleftrightarrow> (\<forall>data n. wr data = IoOk n \<longrightarrow> n \<le> length data)"

definition revents_ok :: "events \<Rightarrow> events \<Rightarrow> bool" where
  "revents_ok asked r \<longleftrightarrow> r AND NOT (asked OR (POLLERR OR POLLHUP OR POLLNVAL)) = 0"

text \<open>What can happen to a connection in its loop: it is established, once; the user calls \<^verbatim>\<open>send\<close>,
  \<^verbatim>\<open>shutdown\<close> or \<^verbatim>\<open>forceClose\<close> from any thread and in any callback; the poller reports any events for a channel that has
  some interest, and the callbacks of the report are called; the loop runs the next functor; and it is destroyed, once.
  A step may end in a fault. \<^verbatim>\<open>startRead\<close> and \<^verbatim>\<open>stopRead\<close> have no caller in the program and are no steps.\<close>

datatype tcp_label = DoEstablish | DoCall | DoReport | DoCallback channel_callback | DoFunctor | DoDestroy

inductive tcp_step :: "'p reg_op \<Rightarrow> 'p reg_op \<Rightarrow> 'p driven \<Rightarrow> tcp_label \<Rightarrow> 'p driven result \<Rightarrow> bool" for upd rem where
  established: "\<not> dr_established d \<Longrightarrow>
    tcp_step upd rem d DoEstablish (on_conn (connectEstablished upd) (d\<lparr>dr_established := True\<rparr>))"
| send: "write_ok wr \<Longrightarrow> length message < 2 ^ 64 \<Longrightarrow>
    tcp_step upd rem d DoCall (on_conn (tcp_send upd wr inLoop message) d)"
| shutdown: "tcp_step upd rem d DoCall (on_conn (\<lambda>s. Inr (tcp_shutdown inLoop s)) d)"
| force_close: "tcp_step upd rem d DoCall (on_conn (\<lambda>s. Inr (forceClose s)) d)"
| force_close_later: "tcp_step upd rem d DoCall (on_conn (\<lambda>s. Inr (forceCloseWithDelay delay s)) d)"
| reported: "dr_calls d = [] \<Longrightarrow> \<not> isNoneEvent (ts_channel (dr_conn d)) \<Longrightarrow>
    revents_ok (ch_events (ts_channel (dr_conn d))) r \<Longrightarrow> tcp_step upd rem d DoReport (Inr (report r t d))"
| callback: "dr_calls d = cb # cbs \<Longrightarrow> write_ok wr \<Longrightarrow>
    tcp_step upd rem d (DoCallback cb) (on_conn (run_callback upd readv wr cb) (d\<lparr>dr_calls := cbs\<rparr>))"
| run: "dr_calls d = [] \<Longrightarrow> ts_pending (dr_conn d) = f # fs \<Longrightarrow> write_ok wr \<Longrightarrow>
    tcp_step upd rem d DoFunctor (on_conn (\<lambda>s. run_functor upd wr f (s\<lparr>ts_pending := fs\<rparr>)) d)"
| destroyed: "dr_calls d = [] \<Longrightarrow> dr_established d \<Longrightarrow> \<not> dr_destroyed d \<Longrightarrow>
    tcp_step upd rem d DoDestroy (on_conn (connectDestroyed upd rem) (d\<lparr>dr_destroyed := True\<rparr>))"

definition driven_start :: "'p tcp \<Rightarrow> 'p driven" where
  "driven_start s = \<lparr>dr_conn = s, dr_revents = 0, dr_calls = [], dr_established = False, dr_destroyed = False\<rparr>"

inductive tcp_reach :: "'p reg_op \<Rightarrow> 'p reg_op \<Rightarrow> 'p tcp \<Rightarrow> 'p driven \<Rightarrow> bool" for upd rem s0 where
  start: "tcp_reach upd rem s0 (driven_start s0)"
| step: "tcp_reach upd rem s0 d \<Longrightarrow> tcp_step upd rem d l (Inr d') \<Longrightarrow> tcp_reach upd rem s0 d'"

section \<open>The trace\<close>

definition sent :: "tcp_event list \<Rightarrow> string" where
  "sent tr = concat (map (\<lambda>e. case e of EvSend d \<Rightarrow> d | _ \<Rightarrow> []) tr)"

definition wrote :: "tcp_event list \<Rightarrow> string" where
  "wrote tr = concat (map (\<lambda>e. case e of EvWrote d \<Rightarrow> d | _ \<Rightarrow> []) tr)"

text \<open>Whenever the write side is shut down on an open connection (one whose end was not announced) that lost nothing, everything
  sent so far has been written.\<close>

definition shutdown_safe :: "tcp_event list \<Rightarrow> bool" where
  "shutdown_safe tr \<longleftrightarrow> (\<forall>i < length tr. tr ! i = EvShutdownWrite \<longrightarrow>
     EvFault \<notin> set (take i tr) \<longrightarrow> EvConnection kDisconnected \<notin> set (take i tr) \<longrightarrow> wrote (take i tr) = sent (take i tr))"

lemma sent_simps [simp]: "sent [] = []" "sent (e # tr) = (case e of EvSend d \<Rightarrow> d | _ \<Rightarrow> []) @ sent tr"
  "sent (tr @ tr') = sent tr @ sent tr'"
  by (simp_all add: sent_def)

lemma wrote_simps [simp]: "wrote [] = []" "wrote (e # tr) = (case e of EvWrote d \<Rightarrow> d | _ \<Rightarrow> []) @ wrote tr"
  "wrote (tr @ tr') = wrote tr @ wrote tr'"
  by (simp_all add: wrote_def)

lemma shutdown_safe_Nil [simp]: "shutdown_safe []"
  by (simp add: shutdown_safe_def)

lemma shutdown_safe_snoc [simp]:
  "shutdown_safe (tr @ [e]) \<longleftrightarrow> shutdown_safe tr \<and> (e = EvShutdownWrite \<longrightarrow> EvFault \<notin> set tr \<longrightarrow>
     EvConnection kDisconnected \<notin> set tr \<longrightarrow> wrote tr = sent tr)"
  by (auto simp: shutdown_safe_def less_Suc_eq nth_append)

lemma shutdown_safe_snoc2 [simp]:
  "shutdown_safe (tr @ [d, e]) \<longleftrightarrow> shutdown_safe (tr @ [d]) \<and> (e = EvShutdownWrite \<longrightarrow>
     EvFault \<notin> set (tr @ [d]) \<longrightarrow> EvConnection kDisconnected \<notin> set (tr @ [d]) \<longrightarrow> wrote (tr @ [d]) = sent (tr @ [d]))"
  using shutdown_safe_snoc[of "tr @ [d]" e] by simp

section \<open>The invariant\<close>

lemma emit_simps [simp]:
  "ts_state (emit e s) = ts_state s" "ts_chan (emit e s) = ts_chan s" "ts_reg (emit e s) = ts_reg s"
  "ts_channel (emit e s) = ts_channel s" "ts_input (emit e s) = ts_input s" "ts_output (emit e s) = ts_output s"
  "ts_pending (emit e s) = ts_pending s" "ts_trace (emit e s) = ts_trace s @ [e]"
  "ts_hasWriteComplete (emit e s) = ts_hasWriteComplete s"
  by (simp_all add: emit_def ts_channel_def)

lemma queueInLoop_simps [simp]:
  "ts_state (queueInLoop f s) = ts_state s" "ts_chan (queueInLoop f s) = ts_chan s"
  "ts_reg (queueInLoop f s) = ts_reg s" "ts_channel (queueInLoop f s) = ts_channel s"
  "ts_input (queueInLoop f s) = ts_input s" "ts_output (queueInLoop f s) = ts_output s"
  "ts_pending (queueInLoop f s) = ts_pending s @ [f]" "ts_trace (queueInLoop f s) = ts_trace s"
  by (simp_all add: queueInLoop_def ts_channel_def)

lemma setState_simps [simp]:
  "ts_state (setState st s) = st" "ts_chan (setState st s) = ts_chan s" "ts_reg (setState st s) = ts_reg s"
  "ts_channel (setState st s) = ts_channel s" "ts_input (setState st s) = ts_input s"
  "ts_output (setState st s) = ts_output s" "ts_pending (setState st s) = ts_pending s"
  "ts_trace (setState st s) = ts_trace s"
  by (simp_all add: setState_def ts_channel_def)

lemma ts_channel_upd [simp]:
  "ts_channel (s\<lparr>ts_reg := r\<rparr>) = fst r (ts_chan s)" "ts_channel (s\<lparr>ts_output := b\<rparr>) = ts_channel s"
  "ts_channel (s\<lparr>ts_input := b\<rparr>) = ts_channel s" "ts_channel (s\<lparr>ts_pending := fs\<rparr>) = ts_channel s"
  "ts_channel (s\<lparr>ts_lastReceiveTime := t\<rparr>) = ts_channel s"
  by (simp_all add: ts_channel_def)

definition functor_ok :: "tcp_functor \<Rightarrow> bool" where
  "functor_ok f \<longleftrightarrow> (case f of StartReadInLoop \<Rightarrow> False | StopReadInLoop \<Rightarrow> False
     | SendInLoop m \<Rightarrow> length m < 2 ^ 64 | _ \<Rightarrow> True)"

definition data_inv :: "'p tcp \<Rightarrow> bool" where
  "data_inv s \<longleftrightarrow> buffer_wf (ts_input s) \<and> buffer_wf (ts_output s) \<and> (\<forall>f \<in> set (ts_pending s). functor_ok f) \<and>
     (EvFault \<notin> set (ts_trace s) \<longrightarrow> sent (ts_trace s) = wrote (ts_trace s) @ content (ts_output s)) \<and>
     shutdown_safe (ts_trace s)"

lemma readable_content: "buffer_wf b \<Longrightarrow> readableBytes b = 0 \<longleftrightarrow> content b = []"
  by (metis length_0_conv length_content)

lemma size_t_of_diff: "n \<le> m \<Longrightarrow> m < 2 ^ 64 \<Longrightarrow> size_t_of_int (int m - int n) = m - n"
  by (simp add: size_t_of_int_def)

context poller
begin

definition phase_inv :: "'p tcp \<Rightarrow> bool" where
  "phase_inv s \<longleftrightarrow> (case ts_state s of
     kConnecting \<Rightarrow> inv (ts_reg s) \<and> 0 \<le> ch_fd (ts_channel s) \<and> ch_events (ts_channel s) = 0 \<and>
       ch_index (ts_channel s) = -1 \<and> reg (snd (ts_reg s)) (ch_fd (ts_channel s)) = None \<and>
       content (ts_output s) = [] \<and> ts_pending s = []
   | kDisconnected \<Rightarrow> closed (ts_chan s) (ts_reg s) \<and> EvConnection kDisconnected \<in> set (ts_trace s)
   | _ \<Rightarrow> live (ts_chan s) (ts_reg s) \<and> isReading (ts_channel s) \<and>
       (isWriting (ts_channel s) \<longleftrightarrow> content (ts_output s) \<noteq> []))"

definition tcp_inv :: "'p tcp \<Rightarrow> bool" where
  "tcp_inv s \<longleftrightarrow> data_inv s \<and> phase_inv s"

lemma on_toggle:
  assumes "live (ts_chan s) (ts_reg s)" "isReading (ts_channel s)"
  shows "\<exists>r. on_channel (\<lambda>c. toggle_writing upd c w) s = Inr (s\<lparr>ts_reg := r\<rparr>) \<and> live (ts_chan s) r \<and>
    isReading (fst r (ts_chan s)) \<and> isWriting (fst r (ts_chan s)) = w"
proof -
  obtain r where "toggle_writing upd (ts_chan s) w (ts_reg s) = Inr r" "live (ts_chan s) r"
    "isReading (fst r (ts_chan s))" "isWriting (fst r (ts_chan s)) = w"
    using toggle_live[OF assms(1) assms(2)[unfolded ts_channel_def], of w] by blast
  then show ?thesis by (intro exI[of _ r]) (simp add: on_channel_def)
qed

lemma on_enableWriting:
  assumes "live (ts_chan s) (ts_reg s)" "isReading (ts_channel s)"
  shows "\<exists>r. on_channel (enableWriting upd) s = Inr (s\<lparr>ts_reg := r\<rparr>) \<and> live (ts_chan s) r \<and>
    isReading (fst r (ts_chan s)) \<and> isWriting (fst r (ts_chan s))"
  using on_toggle[OF assms, of True] by (simp add: toggle_writing_def)

lemma on_disableWriting:
  assumes "live (ts_chan s) (ts_reg s)" "isReading (ts_channel s)"
  shows "\<exists>r. on_channel (disableWriting upd) s = Inr (s\<lparr>ts_reg := r\<rparr>) \<and> live (ts_chan s) r \<and>
    isReading (fst r (ts_chan s)) \<and> \<not> isWriting (fst r (ts_chan s))"
  using on_toggle[OF assms, of False] by (simp add: toggle_writing_def)

lemma on_disableAll:
  assumes "live (ts_chan s) (ts_reg s)"
  shows "\<exists>r. on_channel (disableAll upd) s = Inr (s\<lparr>ts_reg := r\<rparr>) \<and> closed (ts_chan s) r"
proof -
  obtain r where "disableAll upd (ts_chan s) (ts_reg s) = Inr r" "closed (ts_chan s) r"
    using stop_live[OF assms] by blast
  then show ?thesis by (intro exI[of _ r]) (simp add: on_channel_def)
qed

lemma phase_open:
  "ts_state s = kConnected \<or> ts_state s = kDisconnecting \<Longrightarrow> phase_inv s \<longleftrightarrow>
    live (ts_chan s) (ts_reg s) \<and> isReading (ts_channel s) \<and>
    (isWriting (ts_channel s) \<longleftrightarrow> content (ts_output s) \<noteq> [])"
  by (auto simp: phase_inv_def)

lemma watched_open:
  "phase_inv s \<Longrightarrow> \<not> isNoneEvent (ts_channel s) \<Longrightarrow> ts_state s = kConnected \<or> ts_state s = kDisconnecting"
  by (cases "ts_state s") (auto simp: phase_inv_def isNoneEvent_def closed_def ts_channel_def)

text \<open>What follows a direct write: \<open>d\<close> is the part that is still to be sent.\<close>

lemma send_rest_ok:
  assumes open_: "ts_state s = kConnected \<or> ts_state s = kDisconnecting" "phase_inv s"
    and wf: "buffer_wf (ts_input s)" "buffer_wf (ts_output s)" "\<forall>f \<in> set (ts_pending s). functor_ok f"
      "shutdown_safe (ts_trace s)"
    and d: "nwrote \<le> length data"
      "EvFault \<notin> set (ts_trace s) \<longrightarrow> sent (ts_trace s) = wrote (ts_trace s) @ content (ts_output s) @ drop nwrote data"
  shows "\<exists>s'. send_rest upd data nwrote (length data - nwrote) False s = Inr s' \<and> tcp_inv s'"
proof (cases "nwrote = length data")
  case True
  then show ?thesis using assms by (auto simp: send_rest_def tcp_inv_def data_inv_def)
next
  case False
  let ?n = "length data - nwrote"
  define s1 where "s1 = (if ts_highWaterMark s \<le> readableBytes (ts_output s) + ?n \<and>
      readableBytes (ts_output s) < ts_highWaterMark s \<and> ts_hasHighWater s
    then queueInLoop (HighWaterMark (readableBytes (ts_output s) + ?n)) s else s)"
  have s1: "ts_output s1 = ts_output s" "ts_input s1 = ts_input s" "ts_trace s1 = ts_trace s"
    "ts_state s1 = ts_state s" "ts_chan s1 = ts_chan s" "ts_reg s1 = ts_reg s"
    "\<forall>f \<in> set (ts_pending s1). functor_ok f"
    using wf(3) by (auto simp: s1_def queueInLoop_def functor_ok_def)
  obtain b where b: "buffer_append (drop nwrote data) (ts_output s1) = Inr b" "buffer_wf b"
    "content b = content (ts_output s1) @ drop nwrote data"
    using buffer_append_ok[of "ts_output s1" "drop nwrote data"] wf(2) s1(1) by auto
  let ?s2 = "s1\<lparr>ts_output := b\<rparr>"
  have ne: "content b \<noteq> []" using b(3) False d(1) by auto
  have data: "data_inv (?s2\<lparr>ts_reg := r\<rparr>)" for r
    using b(2,3) wf d(2) s1 by (auto simp: data_inv_def)
  have act: "live (ts_chan ?s2) (ts_reg ?s2)" "isReading (ts_channel ?s2)"
    using open_ s1 by (auto simp: phase_open ts_channel_def)
  have run: "send_rest upd data nwrote ?n False s =
      (if \<not> isWriting (ts_channel ?s2) then on_channel (enableWriting upd) ?s2 else Inr ?s2)"
    unfolding send_rest_def Let_def s1_def[symmetric] using False d(1) b(1) by simp
  show ?thesis
  proof (cases "isWriting (ts_channel ?s2)")
    case True
    have "phase_inv ?s2" using True act ne open_(1) s1(4) by (subst phase_open) auto
    then show ?thesis using run True data[of "ts_reg s1"] by (simp add: tcp_inv_def)
  next
    case False
    obtain r where r: "on_channel (enableWriting upd) ?s2 = Inr (?s2\<lparr>ts_reg := r\<rparr>)" "live (ts_chan ?s2) r"
      "isReading (fst r (ts_chan ?s2))" "isWriting (fst r (ts_chan ?s2))"
      using on_enableWriting[OF act] by auto
    have "phase_inv (?s2\<lparr>ts_reg := r\<rparr>)"
      using r ne open_(1) s1(4) by (subst phase_open) (auto simp: ts_channel_def)
    then show ?thesis using run False r(1) data[of r] by (simp add: tcp_inv_def)
  qed
qed

end

lemma functor_ok_simps [simp]: "functor_ok ShutdownInLoop" "functor_ok ForceCloseInLoop"
  "functor_ok WriteComplete" "functor_ok (HighWaterMark n)" "functor_ok (SendInLoop m) \<longleftrightarrow> length m < 2 ^ 64"
  "\<not> functor_ok StartReadInLoop" "\<not> functor_ok StopReadInLoop"
  by (simp_all add: functor_ok_def)

context poller
begin

lemma tcp_invD:
  assumes "tcp_inv s"
  shows "phase_inv s" "data_inv s" "buffer_wf (ts_input s)" "buffer_wf (ts_output s)"
    "\<forall>f \<in> set (ts_pending s). functor_ok f" "shutdown_safe (ts_trace s)"
    "EvFault \<notin> set (ts_trace s) \<longrightarrow> sent (ts_trace s) = wrote (ts_trace s) @ content (ts_output s)"
  using assms by (simp_all add: tcp_inv_def data_inv_def)

lemma sendInLoop_open:
  assumes inv: "tcp_inv s" and st: "ts_state s = kConnected \<or> ts_state s = kDisconnecting"
    and wr: "write_ok wr" and len: "length data < 2 ^ 64"
  shows "\<exists>s'. sendInLoop upd wr data s = Inr s' \<and> tcp_inv s'"
proof -
  note I = tcp_invD[OF inv]
  have ph: "phase_inv t" if "ts_state t = ts_state s" "ts_reg t = ts_reg s" "ts_chan t = ts_chan s"
      "ts_output t = ts_output s" for t :: "'p tcp"
    using I(1) st that by (simp add: phase_open ts_channel_def)
  have nd: "ts_state s \<noteq> kDisconnected" using st by auto
  let ?s0 = "emit (EvSend data) s"
  have buffered: "\<exists>s'. send_rest upd data 0 (length data) False ?s0 = Inr s' \<and> tcp_inv s'"
    using send_rest_ok[of ?s0 0 data] st I by (simp add: ph)
  show ?thesis
  proof (cases "\<not> isWriting (ts_channel s) \<and> readableBytes (ts_output s) = 0")
    case False
    then have "sendInLoop upd wr data s = send_rest upd data 0 (length data) False ?s0"
      using nd unfolding sendInLoop_def Let_def by auto
    then show ?thesis using buffered by simp
  next
    case direct: True
    then have out: "content (ts_output s) = []" using readable_content[OF I(4)] by simp
    show ?thesis
    proof (cases "wr data")
      case (IoErr e)
      show ?thesis
      proof (cases "e = EPIPE \<or> e = ECONNRESET")
        case True
        then have "sendInLoop upd wr data s = Inr (emit EvFault ?s0)"
          using nd direct IoErr by (auto simp: sendInLoop_def Let_def send_rest_def)
        moreover have "tcp_inv (emit EvFault ?s0)" using I by (auto simp: tcp_inv_def data_inv_def ph)
        ultimately show ?thesis by simp
      next
        case False
        then have "sendInLoop upd wr data s = send_rest upd data 0 (length data) False ?s0"
          using nd direct IoErr by (simp add: sendInLoop_def Let_def)
        then show ?thesis using buffered by simp
      qed
    next
      case (IoOk n)
      then have n: "n \<le> length data" using wr by (simp add: write_ok_def)
      let ?s1 = "emit (EvWrote (take n data)) ?s0"
      let ?s2 = "if length data - n = 0 \<and> ts_hasWriteComplete ?s1 then queueInLoop WriteComplete ?s1 else ?s1"
      have "sendInLoop upd wr data s = send_rest upd data n (length data - n) False ?s2"
        unfolding sendInLoop_def Let_def size_t_of_diff[OF n len, symmetric] using nd direct IoOk by simp
      moreover have "\<exists>s'. send_rest upd data n (length data - n) False ?s2 = Inr s' \<and> tcp_inv s'"
        by (rule send_rest_ok) (use st I n out in \<open>auto simp: ph\<close>)
      ultimately show ?thesis by simp
    qed
  qed
qed

lemma handleClose_open:
  assumes inv: "tcp_inv s" and st: "ts_state s = kConnected \<or> ts_state s = kDisconnecting"
  shows "\<exists>s'. handleClose upd s = Inr s' \<and> tcp_inv s' \<and> ts_state s' = kDisconnected"
proof -
  note I = tcp_invD[OF inv]
  have "live (ts_chan s) (ts_reg s)" using I(1) st by (simp add: phase_open)
  then obtain r where r: "on_channel (disableAll upd) (setState kDisconnected s) =
      Inr ((setState kDisconnected s)\<lparr>ts_reg := r\<rparr>)" "closed (ts_chan s) r"
    using on_disableAll[of "setState kDisconnected s"] by auto
  let ?s' = "emit EvClose (emit (EvConnection kDisconnected) ((setState kDisconnected s)\<lparr>ts_reg := r\<rparr>))"
  have "handleClose upd s = Inr ?s'" using st r(1) by (simp add: handleClose_def)
  moreover have "tcp_inv ?s'" using I r(2) by (simp add: tcp_inv_def data_inv_def phase_inv_def)
  ultimately show ?thesis by simp
qed

lemma shutdownInLoop_inv:
  assumes inv: "tcp_inv s" and st: "ts_state s \<noteq> kConnecting"
  shows "tcp_inv (shutdownInLoop s)"
proof (cases "isWriting (ts_channel s)")
  case True then show ?thesis using inv by (simp add: shutdownInLoop_def)
next
  case False
  note I = tcp_invD[OF inv]
  have "shutdown_safe (ts_trace s @ [EvShutdownWrite])"
  proof (cases "ts_state s = kDisconnected")
    case True then show ?thesis using I(1,6) by (simp add: phase_inv_def)
  next
    case open_: False
    then have "content (ts_output s) = []" using I(1) False st by (cases "ts_state s") (auto simp: phase_open)
    then show ?thesis using I(6,7) by simp
  qed
  moreover have "phase_inv (emit EvShutdownWrite s)"
    using I(1) st by (cases "ts_state s") (auto simp: phase_inv_def)
  ultimately show ?thesis using I False by (auto simp: shutdownInLoop_def tcp_inv_def data_inv_def)
qed

lemma handleWrite_open:
  assumes inv: "tcp_inv s" and st: "ts_state s = kConnected \<or> ts_state s = kDisconnecting" and wr: "write_ok wr"
  shows "\<exists>s'. handleWrite upd wr s = Inr s' \<and> tcp_inv s'"
proof -
  note I = tcp_invD[OF inv]
  define data where "data = content (ts_output s)"
  have data: "byte_range (ts_output s) (peek (ts_output s)) (peek (ts_output s) + readableBytes (ts_output s)) = data"
    using byte_range_prefix[OF I(4)] length_content[OF I(4)] by (simp add: data_def)
  consider (idle) "handleWrite upd wr s = Inr s" | (wrote) n where "isWriting (ts_channel s)" "wr data = IoOk n" "0 < n"
  proof (cases "\<exists>n. isWriting (ts_channel s) \<and> wr data = IoOk n \<and> 0 < n")
    case True then show ?thesis using wrote by blast
  next
    case False
    then have "handleWrite upd wr s = Inr s"
      unfolding handleWrite_def Let_def data by (auto split: io_result.splits)
    then show ?thesis by (rule idle)
  qed
  then show ?thesis
  proof cases
    case idle then show ?thesis using inv by simp
  next
    case wrote
    have "n \<le> length data" using wr wrote by (simp add: write_ok_def)
    then obtain b where b: "retrieve n (ts_output s) = Inr b" "buffer_wf b" "content b = drop n data"
      using retrieve_ok[OF I(4), of n] by (auto simp: data_def)
    let ?s1 = "emit (EvWrote (take n data)) (s\<lparr>ts_output := b\<rparr>)"
    have d1: "data_inv (?s1\<lparr>ts_reg := r\<rparr>)" for r
      using I b by (simp add: data_inv_def data_def[symmetric])
    have live1: "live (ts_chan ?s1) (ts_reg ?s1)" "isReading (ts_channel ?s1)"
      using I(1) st by (auto simp: phase_open)
    show ?thesis
    proof (cases "readableBytes b = 0")
      case False
      have "phase_inv ?s1" using live1 st wrote(1) False readable_content[OF b(2)]
        by (subst phase_open) auto
      then show ?thesis using False wrote b(1) d1[of "ts_reg s"]
        by (simp add: handleWrite_def Let_def data tcp_inv_def) (simp add: emit_def)
    next
      case True
      obtain r where r: "on_channel (disableWriting upd) ?s1 = Inr (?s1\<lparr>ts_reg := r\<rparr>)" "live (ts_chan ?s1) r"
        "isReading (fst r (ts_chan ?s1))" "\<not> isWriting (fst r (ts_chan ?s1))"
        using on_disableWriting[OF live1] by auto
      let ?s2 = "?s1\<lparr>ts_reg := r\<rparr>"
      let ?s3 = "if ts_hasWriteComplete ?s2 then queueInLoop WriteComplete ?s2 else ?s2"
      have e: "content b = []" using True readable_content[OF b(2)] by simp
      have "phase_inv ?s3" using r st e by (subst phase_open) auto
      moreover have "data_inv ?s3" using d1[of r] by (auto simp: data_inv_def)
      ultimately have inv3: "tcp_inv ?s3" by (simp add: tcp_inv_def)
      have "handleWrite upd wr s = Inr (if ts_state ?s3 = kDisconnecting then shutdownInLoop ?s3 else ?s3)"
        using wrote b(1) True r(1) by (simp add: handleWrite_def Let_def data)
      then show ?thesis using inv3 shutdownInLoop_inv[OF inv3] st by auto
    qed
  qed
qed

lemma handleRead_open:
  assumes inv: "tcp_inv s" and st: "ts_state s = kConnected \<or> ts_state s = kDisconnecting"
  shows "\<exists>s'. handleRead upd readv t s = Inr s' \<and> tcp_inv s'"
proof -
  note I = tcp_invD[OF inv]
  obtain n b where b: "readFd readv (ts_input s) = Inr (n, b)" "buffer_wf b"
    using readFd_error[of readv "ts_input s"] readFd_ok[OF I(3), of readv] I(3)
    by (cases "readv (readFd_cap (ts_input s))") auto
  let ?s1 = "s\<lparr>ts_lastReceiveTime := t, ts_input := b\<rparr>"
  have ph: "phase_inv ?s1" "phase_inv (emit (EvMessage t) ?s1)" using I(1) st by (auto simp: phase_open)
  have inv1: "tcp_inv ?s1" "tcp_inv (emit (EvMessage t) ?s1)"
    using I b(2) ph by (simp_all add: tcp_inv_def data_inv_def)
  show ?thesis using b(1) inv1 handleClose_open[OF inv1(1)] st
    by (auto simp: handleRead_def Let_def)
qed

lemma connectEstablished_ok:
  assumes inv: "tcp_inv s" and st: "ts_state s = kConnecting"
  shows "\<exists>s'. connectEstablished upd s = Inr s' \<and> tcp_inv s' \<and> ts_state s' = kConnected"
proof -
  note I = tcp_invD[OF inv]
  obtain h p where r: "ts_reg s = (h, p)" by fastforce
  let ?c = "ts_chan s"
  let ?h = "h(?c := channel_tie (h ?c))"
  have P: "inv (h, p)" "0 \<le> ch_fd (h ?c)" "ch_events (h ?c) = 0" "ch_index (h ?c) = -1"
    "reg p (ch_fd (h ?c)) = None" "content (ts_output s) = []" "ts_pending s = []"
    using I(1) st r by (auto simp: phase_inv_def ts_channel_def)
  have "inv (?h, p)" using P(1) by (rule inv_heap) (simp add: channel_tie_def)
  then obtain r' where r': "enableReading upd ?c (?h, p) = Inr r'" "live ?c r'" "isReading (fst r' ?c)"
    "ch_events (fst r' ?c) = kReadEvent"
    using start_reading[of ?h p ?c] P by (auto simp: channel_tie_def ev_ok_def)
  have w: "\<not> isWriting (fst r' ?c)" using r'(4) by (simp add: isWriting_def read_write_disjoint)
  let ?s' = "emit (EvConnection kConnected) ((setState kConnected s)\<lparr>ts_reg := r'\<rparr>)"
  have "connectEstablished upd s = Inr ?s'"
    using st r r'(1) by (simp add: connectEstablished_def on_channel_def setState_def)
  moreover have "tcp_inv ?s'" using I P r' w by (simp add: tcp_inv_def data_inv_def phase_open)
  ultimately show ?thesis by simp
qed

lemma pending_inv: "tcp_inv s \<Longrightarrow> ts_pending s = f # fs \<Longrightarrow> tcp_inv (s\<lparr>ts_pending := fs\<rparr>)"
  by (cases "ts_state s") (auto simp: tcp_inv_def data_inv_def phase_inv_def)

lemma state_inv:
  assumes "tcp_inv s" "ts_state s = kConnected \<or> ts_state s = kDisconnecting"
  shows "tcp_inv (setState kDisconnecting s)"
  using assms by (auto simp: tcp_inv_def data_inv_def phase_inv_def)

lemma queue_inv:
  "tcp_inv s \<Longrightarrow> ts_state s \<noteq> kConnecting \<Longrightarrow> functor_ok f \<Longrightarrow> tcp_inv (queueInLoop f s)"
  by (cases "ts_state s") (auto simp: tcp_inv_def data_inv_def phase_inv_def)

lemma run_functor_ok:
  assumes inv: "tcp_inv s" and p: "ts_pending s = f # fs" and wr: "write_ok wr"
  shows "\<exists>s'. run_functor upd wr f (s\<lparr>ts_pending := fs\<rparr>) = Inr s' \<and> tcp_inv s'"
proof -
  let ?s = "s\<lparr>ts_pending := fs\<rparr>"
  have inv': "tcp_inv ?s" by (rule pending_inv[OF inv p])
  have nc: "ts_state ?s \<noteq> kConnecting" using tcp_invD(1)[OF inv] p by (auto simp: phase_inv_def)
  have f: "functor_ok f" using tcp_invD(5)[OF inv] p by simp
  show ?thesis
  proof (cases f)
    case (SendInLoop m)
    show ?thesis
    proof (cases "ts_state ?s = kDisconnected")
      case True then show ?thesis using SendInLoop inv' by (simp add: run_functor_def sendInLoop_def)
    next
      case False
      then have "ts_state ?s = kConnected \<or> ts_state ?s = kDisconnecting" using nc by (cases "ts_state ?s") auto
      from sendInLoop_open[OF inv' this wr] f SendInLoop show ?thesis by (simp add: run_functor_def)
    qed
  next
    case ForceCloseInLoop
    then show ?thesis using handleClose_open[OF inv'] inv'
      by (auto simp: run_functor_def forceCloseInLoop_def)
  qed (use f inv' shutdownInLoop_inv[OF inv' nc] in \<open>auto simp: run_functor_def\<close>)
qed

text \<open>Destroying a connection: fine once it is disconnected or while it is connected, an assertion
  failure while it is still disconnecting, because the channel is then still reading.\<close>

definition gone :: "'p tcp \<Rightarrow> bool" where
  "gone s \<longleftrightarrow> data_inv s \<and> ts_state s = kDisconnected \<and> ch_events (ts_channel s) = 0 \<and>
     EvConnection kDisconnected \<in> set (ts_trace s)"

lemma destroy_ok:
  assumes inv: "tcp_inv s" and st: "ts_state s = kDisconnected \<or> ts_state s = kConnected"
  shows "\<exists>s'. connectDestroyed upd rem s = Inr s' \<and> gone s' \<and> inv (ts_reg s') \<and>
    reg (snd (ts_reg s')) (ch_fd (ts_channel s)) = None"
proof -
  note I = tcp_invD[OF inv]
  obtain s1 where s1: "(if ts_state s = kConnected then
        andThen (on_channel (disableAll upd) (setState kDisconnected s)) (\<lambda>s1.
          Inr (emit (EvConnection kDisconnected) s1)) else Inr s) = Inr s1"
    "closed (ts_chan s) (ts_reg s1)" "ts_state s1 = kDisconnected" "ts_chan s1 = ts_chan s"
    "ch_fd (ts_channel s1) = ch_fd (ts_channel s)" "data_inv s1" "EvConnection kDisconnected \<in> set (ts_trace s1)"
  proof (cases "ts_state s = kConnected")
    case False
    with st I(1,2) that[of s] show ?thesis by (simp add: phase_inv_def)
  next
    case True
    then have "live (ts_chan s) (ts_reg s)" using I(1) by (simp add: phase_open)
    from stop_live[OF this] obtain r where "disableAll upd (ts_chan s) (ts_reg s) = Inr r"
      "closed (ts_chan s) r" "frame (ts_chan s) (ts_reg s) r" by blast
    with True that[of "emit (EvConnection kDisconnected) ((setState kDisconnected s)\<lparr>ts_reg := r\<rparr>)"]
    show ?thesis using I(2) by (simp add: on_channel_def frame_def ts_channel_def data_inv_def)
  qed
  from remove_closed[OF s1(2)] obtain r where r: "channel_remove rem (ts_chan s) (ts_reg s1) = Inr r"
    "inv r" "reg (snd r) (ch_fd (fst (ts_reg s1) (ts_chan s))) = None" "ch_events (fst r (ts_chan s)) = 0" by blast
  with s1 show ?thesis
    by (simp add: connectDestroyed_def on_channel_def ts_channel_def gone_def data_inv_def)
qed

lemma destroy_aborts:
  assumes inv: "tcp_inv s" and st: "ts_state s = kDisconnecting"
  shows "connectDestroyed upd rem s = Inl AssertFailed"
proof -
  have "live (ts_chan s) (ts_reg s)" using tcp_invD(1)[OF inv] st by (simp add: phase_open)
  then have "\<not> isNoneEvent (fst (ts_reg s) (ts_chan s))" by (auto simp: live_def isNoneEvent_def)
  with st show ?thesis
    by (simp add: connectDestroyed_def on_channel_def channel_remove_def case_prod_beta)
qed

text \<open>A connection that is destroyed ignores everything but the functors that are left, which do nothing but shut
  down the write side again.\<close>

lemma gone_calls:
  assumes "gone s"
  shows "tcp_send upd wr inLoop m s = Inr s" "tcp_shutdown inLoop s = s" "forceClose s = s"
    "forceCloseWithDelay delay s = s"
  using assms by (simp_all add: gone_def tcp_send_def tcp_shutdown_def forceClose_def forceCloseWithDelay_def)

lemma gone_run:
  assumes "gone s" "ts_pending s = f # fs"
  shows "\<exists>s'. run_functor upd wr f (s\<lparr>ts_pending := fs\<rparr>) = Inr s' \<and> gone s'"
  using assms by (cases f) (auto simp: run_functor_def gone_def data_inv_def sendInLoop_def forceCloseInLoop_def
      shutdownInLoop_def)

end

section \<open>Open connections\<close>

definition open_conn :: "'p tcp \<Rightarrow> bool" where
  "open_conn s \<longleftrightarrow> ts_state s = kConnected \<or> ts_state s = kDisconnecting"

lemma on_channel_state: "on_channel f s = Inr s' \<Longrightarrow> ts_state s' = ts_state s"
  by (auto simp: on_channel_def andThen_Inr_iff)

lemma send_rest_state: "send_rest upd data n k e s = Inr s' \<Longrightarrow> ts_state s' = ts_state s"
  by (auto simp: send_rest_def Let_def andThen_Inr_iff dest!: on_channel_state split: if_splits)

lemma sendInLoop_state: "sendInLoop upd wr data s = Inr s' \<Longrightarrow> ts_state s' = ts_state s"
  by (auto simp: sendInLoop_def Let_def dest!: send_rest_state split: if_splits io_result.splits)

lemma tcp_send_state: "tcp_send upd wr inLoop m s = Inr s' \<Longrightarrow> ts_state s' = ts_state s"
  by (auto simp: tcp_send_def dest: sendInLoop_state split: if_splits)

lemma shutdownInLoop_state [simp]: "ts_state (shutdownInLoop s) = ts_state s"
  by (simp add: shutdownInLoop_def)

lemma handleWrite_state: "handleWrite upd wr s = Inr s' \<Longrightarrow> ts_state s' = ts_state s"
  by (auto simp: handleWrite_def Let_def andThen_Inr_iff dest!: on_channel_state
      split: if_splits io_result.splits)

lemma handleClose_state: "handleClose upd s = Inr s' \<Longrightarrow> ts_state s' = kDisconnected"
  by (auto simp: handleClose_def andThen_Inr_iff dest!: on_channel_state)

lemma run_functor_state:
  "run_functor upd wr f s = Inr s' \<Longrightarrow> ts_state s' = ts_state s \<or> ts_state s' = kDisconnected"
  by (auto simp: run_functor_def forceCloseInLoop_def startReadInLoop_def stopReadInLoop_def andThen_Inr_iff
      dest!: on_channel_state sendInLoop_state handleClose_state split: tcp_functor.splits if_splits)

lemma closing_calls_state:
  "ts_state (tcp_shutdown inLoop s) = (if ts_state s = kConnected then kDisconnecting else ts_state s)"
  "ts_state (forceClose s) = (if open_conn s then kDisconnecting else ts_state s)"
  "ts_state (forceCloseWithDelay delay s) = (if open_conn s then kDisconnecting else ts_state s)"
  by (simp_all add: tcp_shutdown_def forceClose_def forceCloseWithDelay_def open_conn_def Let_def)

text \<open>The callbacks of a report: the close callback comes first, and a read callback behind it belongs to a
  report of a hang-up with urgent data and no readable data.\<close>

definition urgent_hangup :: "events \<Rightarrow> bool" where
  "urgent_hangup r \<longleftrightarrow> r AND POLLHUP \<noteq> 0 \<and> r AND POLLPRI \<noteq> 0 \<and> r AND POLLIN = 0"

fun calls_ok :: "bool \<Rightarrow> bool \<Rightarrow> channel_callback list \<Rightarrow> bool" where
  "calls_ok opn u [] \<longleftrightarrow> True"
| "calls_ok opn u (CloseCallback # cs) \<longleftrightarrow> opn \<and> calls_ok False u cs"
| "calls_ok opn u (ErrorCallback # cs) \<longleftrightarrow> calls_ok opn u cs"
| "calls_ok opn u (ReadCallback t # cs) \<longleftrightarrow> (opn \<or> u) \<and> calls_ok False u cs"
| "calls_ok opn u (WriteCallback # cs) \<longleftrightarrow> calls_ok opn u cs"

lemma calls_ok_mono: "calls_ok opn u cs \<Longrightarrow> (opn \<Longrightarrow> opn') \<Longrightarrow> calls_ok opn' u cs"
  by (induction opn u cs arbitrary: opn' rule: calls_ok.induct) auto

lemma and_zero_within: "a AND NOT b = 0 \<Longrightarrow> b AND c = 0 \<Longrightarrow> a AND c = 0" for a b c :: "'a::len word"
  by (auto simp: bit_eq_iff bit_simps)

lemma no_rdhup: "ev_ok e \<Longrightarrow> revents_ok e r \<Longrightarrow> r AND POLLRDHUP = 0"
proof -
  assume e: "ev_ok e" and r: "revents_ok e r"
  have "e AND POLLRDHUP = 0"
    by (rule and_zero_within[OF e[unfolded ev_ok_def]]) (simp add: poll_masks)
  moreover have "(POLLERR OR POLLHUP OR POLLNVAL) AND POLLRDHUP = 0" by (simp add: poll_masks)
  ultimately show ?thesis
    by (intro and_zero_within[OF r[unfolded revents_ok_def]]) (simp add: bit.conj_disj_distrib2)
qed

lemma dispatch_ok:
  assumes "ev_ok (ch_events ch)" "revents_ok (ch_events ch) r"
  shows "calls_ok True (urgent_hangup r) (fst (handleEvent True t (set_revents r ch)))"
proof -
  have "r AND (POLLIN OR POLLPRI OR POLLRDHUP) = (r AND POLLIN) OR (r AND POLLPRI) OR (r AND POLLRDHUP)"
    by (simp add: bit.conj_disj_distrib)
  then show ?thesis
    using no_rdhup[OF assms] by (auto simp: handleEvent_def handleEventWithGuard_def Let_def urgent_hangup_def set_revents_def)
qed

text \<open>The two ways a step can fail.\<close>

definition known_abort :: "'p driven \<Rightarrow> tcp_label \<Rightarrow> bool" where
  "known_abort d l \<longleftrightarrow>
     (l = DoDestroy \<and> ts_state (dr_conn d) = kDisconnecting) \<or>
     ((\<exists>t. l = DoCallback (ReadCallback t)) \<and> ts_state (dr_conn d) = kDisconnected \<and> urgent_hangup (dr_revents d))"

context poller
begin

definition driven_inv :: "'p driven \<Rightarrow> bool" where
  "driven_inv d \<longleftrightarrow> (if dr_destroyed d then gone (dr_conn d) \<and> dr_calls d = [] else tcp_inv (dr_conn d)) \<and>
     (dr_established d \<longleftrightarrow> ts_state (dr_conn d) \<noteq> kConnecting) \<and> (dr_calls d \<noteq> [] \<longrightarrow> dr_established d) \<and>
     calls_ok (open_conn (dr_conn d)) (urgent_hangup (dr_revents d)) (dr_calls d)"

lemma on_conn_cases:
  assumes "\<exists>s'. f (dr_conn d) = Inr s' \<and> P s'"
  shows "\<exists>d'. on_conn f d = Inr d' \<and> P (dr_conn d') \<and> d' = d\<lparr>dr_conn := dr_conn d'\<rparr>"
  using assms by (auto simp: on_conn_def)

lemma report_inv:
  assumes "driven_inv d" "\<not> isNoneEvent (ts_channel (dr_conn d))" "revents_ok (ch_events (ts_channel (dr_conn d))) r"
  shows "driven_inv (report r t d)"
proof -
  let ?s = "dr_conn d"
  have inv: "\<not> dr_destroyed d" "tcp_inv ?s" using assms(1,2) by (auto simp: driven_inv_def gone_def isNoneEvent_def poll_masks split: if_splits)
  have op: "open_conn ?s" using watched_open[OF tcp_invD(1)[OF inv(2)] assms(2)] by (simp add: open_conn_def)
  obtain h p where hp: "ts_reg ?s = (h, p)" by fastforce
  obtain calls ch where ev: "handleEvent True t (set_revents r (h (ts_chan ?s))) = (calls, ch)" by fastforce
  have ch: "ch = (set_revents r (h (ts_chan ?s)))\<lparr>ch_eventHandling := False\<rparr>"
    using handleEvent_state[of True t "set_revents r (h (ts_chan ?s))"] ev by simp
  let ?s' = "?s\<lparr>ts_reg := (h(ts_chan ?s := ch), p)\<rparr>"
  have live: "live (ts_chan ?s) (h, p)" "isReading (h (ts_chan ?s))"
      "isWriting (h (ts_chan ?s)) \<longleftrightarrow> content (ts_output ?s) \<noteq> []"
    using tcp_invD(1)[OF inv(2)] op hp by (auto simp: phase_open open_conn_def ts_channel_def)
  have "inv (h(ts_chan ?s := ch), p)"
    by (rule inv_heap[of h p]) (use live in \<open>auto simp: live_def ch set_revents_def\<close>)
  then have "live (ts_chan ?s) (h(ts_chan ?s := ch), p)" using live(1) by (simp add: live_def ch set_revents_def)
  with live(2,3) have "phase_inv ?s'"
    using op by (subst phase_open) (auto simp: open_conn_def ts_channel_def ch set_revents_def isReading_def isWriting_def)
  then have "tcp_inv ?s'" using tcp_invD(2)[OF inv(2)] by (simp add: tcp_inv_def data_inv_def)
  moreover have "calls_ok True (urgent_hangup r) calls"
    using dispatch_ok[of "h (ts_chan ?s)" r t] live(1) assms(3) ev hp by (simp add: live_def ts_channel_def)
  moreover have "report r t d = d\<lparr>dr_conn := ?s', dr_revents := r, dr_calls := calls\<rparr>"
    by (simp add: report_def hp ev Let_def)
  ultimately show ?thesis using inv op assms(1) by (auto simp: driven_inv_def open_conn_def)
qed

text \<open>A read on a connection that is closed already.\<close>

lemma handleRead_closed:
  assumes "tcp_inv s" "ts_state s = kDisconnected"
  shows "(\<exists>s'. handleRead upd readv t s = Inr s' \<and> tcp_inv s' \<and> ts_state s' = kDisconnected) \<or>
    handleRead upd readv t s = Inl AssertFailed"
proof -
  note I = tcp_invD[OF assms(1)]
  obtain n b where b: "readFd readv (ts_input s) = Inr (n, b)" "buffer_wf b"
    using readFd_error[of readv "ts_input s"] readFd_ok[OF I(3), of readv] I(3)
    by (cases "readv (readFd_cap (ts_input s))") auto
  let ?s1 = "s\<lparr>ts_lastReceiveTime := t, ts_input := b\<rparr>"
  have "tcp_inv ?s1" "tcp_inv (emit (EvMessage t) ?s1)"
    using I b(2) assms(2) by (simp_all add: tcp_inv_def data_inv_def phase_inv_def)
  with b(1) assms(2) show ?thesis by (auto simp: handleRead_def handleClose_def check_def Let_def)
qed

lemma handleRead_state:
  assumes "handleRead upd readv t s = Inr s'"
  shows "ts_state s' = ts_state s \<or> ts_state s' = kDisconnected"
  using assms by (auto simp: handleRead_def handleClose_def Let_def andThen_Inr_iff check_def
      dest!: on_channel_state split: if_splits)

lemma callback_inv:
  assumes inv: "driven_inv d" and cb: "dr_calls d = cb # cbs" and wr: "write_ok wr"
  shows "(\<exists>d'. on_conn (run_callback upd readv wr cb) (d\<lparr>dr_calls := cbs\<rparr>) = Inr d' \<and> driven_inv d') \<or>
    (on_conn (run_callback upd readv wr cb) (d\<lparr>dr_calls := cbs\<rparr>) = Inl AssertFailed \<and> known_abort d (DoCallback cb))"
proof -
  let ?s = "dr_conn d" and ?u = "urgent_hangup (dr_revents d)"
  have I: "\<not> dr_destroyed d" "tcp_inv ?s" "dr_established d \<longleftrightarrow> ts_state ?s \<noteq> kConnecting"
      "calls_ok (open_conn ?s) ?u (cb # cbs)" "ts_state ?s \<noteq> kConnecting" "dr_established d"
    using inv cb by (auto simp: driven_inv_def split: if_splits)
  have resume: "driven_inv (d\<lparr>dr_calls := cbs, dr_conn := s'\<rparr>)"
    if "tcp_inv s'" "ts_state s' \<noteq> kConnecting" "calls_ok (open_conn s') ?u cbs" for s'
    using that I by (simp add: driven_inv_def)
  show ?thesis
  proof (cases cb)
    case CloseCallback
    with I(4) have "ts_state ?s = kConnected \<or> ts_state ?s = kDisconnecting" "calls_ok False ?u cbs"
      by (simp_all add: open_conn_def)
    with handleClose_open[OF I(2)] CloseCallback show ?thesis
      by (auto simp: on_conn_def run_callback_def open_conn_def intro!: resume)
  next
    case ErrorCallback
    with I show ?thesis using resume[of ?s] by (auto simp: on_conn_def run_callback_def)
  next
    case (ReadCallback t)
    with I(4) have r: "open_conn ?s \<or> ?u" "calls_ok False ?u cbs" by simp_all
    show ?thesis
    proof (cases "open_conn ?s")
      case True
      then obtain s' where s': "handleRead upd readv t ?s = Inr s'" "tcp_inv s'"
        using handleRead_open[OF I(2)] by (auto simp: open_conn_def)
      then have "ts_state s' \<noteq> kConnecting" using handleRead_state[OF s'(1)] True by (auto simp: open_conn_def)
      with s' r(2) ReadCallback show ?thesis
        by (auto simp: on_conn_def run_callback_def intro!: resume elim: calls_ok_mono)
    next
      case False
      then have st: "ts_state ?s = kDisconnected" using I(5) by (cases "ts_state ?s") (auto simp: open_conn_def)
      from handleRead_closed[OF I(2) st, of readv t] r(2) ReadCallback st False r(1) show ?thesis
        by (auto simp: on_conn_def run_callback_def known_abort_def open_conn_def intro!: resume)
    qed
  next
    case WriteCallback
    show ?thesis
    proof (cases "open_conn ?s")
      case True
      then obtain s' where s': "handleWrite upd wr ?s = Inr s'" "tcp_inv s'"
        using handleWrite_open[OF I(2) _ wr] by (auto simp: open_conn_def)
      with handleWrite_state[OF s'(1)] WriteCallback I True show ?thesis
        by (auto simp: on_conn_def run_callback_def open_conn_def intro!: resume)
    next
      case False
      then have "ts_state ?s = kDisconnected" using I(5) by (cases "ts_state ?s") (auto simp: open_conn_def)
      then have "\<not> isWriting (ts_channel ?s)"
        using tcp_invD(1)[OF I(2)] by (simp add: phase_inv_def closed_def ts_channel_def isWriting_def case_prod_beta)
      with WriteCallback I show ?thesis using resume[of ?s] by (auto simp: on_conn_def run_callback_def handleWrite_def)
    qed
  qed
qed

lemma call_inv:
  assumes inv: "driven_inv d" and f: "gone (dr_conn d) \<Longrightarrow> f (dr_conn d) = Inr (dr_conn d)"
    and ok: "tcp_inv (dr_conn d) \<Longrightarrow> \<exists>s'. f (dr_conn d) = Inr s' \<and> tcp_inv s' \<and>
      (ts_state s' = ts_state (dr_conn d) \<or> (open_conn (dr_conn d) \<and> ts_state s' = kDisconnecting))"
  shows "\<exists>d'. on_conn f d = Inr d' \<and> driven_inv d'"
proof (cases "dr_destroyed d")
  case True
  with inv f show ?thesis by (simp add: driven_inv_def on_conn_def)
next
  case False
  with inv ok obtain s' where s': "f (dr_conn d) = Inr s'" "tcp_inv s'"
      "ts_state s' = ts_state (dr_conn d) \<or> (open_conn (dr_conn d) \<and> ts_state s' = kDisconnecting)"
    by (auto simp: driven_inv_def)
  then have "open_conn s' \<longleftrightarrow> open_conn (dr_conn d)" by (auto simp: open_conn_def)
  with s' inv False show ?thesis by (auto simp: driven_inv_def on_conn_def open_conn_def)
qed

lemma send_call:
  assumes "tcp_inv s" "write_ok wr" "length m < 2 ^ 64"
  shows "\<exists>s'. tcp_send upd wr inLoop m s = Inr s' \<and> tcp_inv s' \<and> ts_state s' = ts_state s"
  using sendInLoop_open[OF assms(1) _ assms(2,3)] queue_inv[OF assms(1), of "SendInLoop m"] assms
  by (fastforce simp: tcp_send_def dest: sendInLoop_state)

lemma closing_calls:
  assumes "tcp_inv s"
  shows "tcp_inv (tcp_shutdown inLoop s)" "tcp_inv (forceClose s)" "tcp_inv (forceCloseWithDelay delay s)"
  using assms state_inv[of s] shutdownInLoop_inv[of "setState kDisconnecting s"]
    queue_inv[of "setState kDisconnecting s" ShutdownInLoop] queue_inv[of "setState kDisconnecting s" ForceCloseInLoop]
  by (auto simp: tcp_shutdown_def forceClose_def forceCloseWithDelay_def Let_def tcp_inv_def data_inv_def phase_inv_def)

lemma run_inv:
  assumes inv: "driven_inv d" and p: "dr_calls d = []" "ts_pending (dr_conn d) = f # fs" and wr: "write_ok wr"
  shows "\<exists>d'. on_conn (\<lambda>s. run_functor upd wr f (s\<lparr>ts_pending := fs\<rparr>)) d = Inr d' \<and> driven_inv d'"
proof (cases "dr_destroyed d")
  case True
  with gone_run[of "dr_conn d" f fs wr] inv p show ?thesis
    by (auto simp: driven_inv_def on_conn_def gone_def)
next
  case False
  with inv have t: "tcp_inv (dr_conn d)" by (simp add: driven_inv_def)
  then have nc: "ts_state (dr_conn d) \<noteq> kConnecting" using tcp_invD(1)[OF t] p(2) by (auto simp: phase_inv_def)
  obtain s' where s': "run_functor upd wr f ((dr_conn d)\<lparr>ts_pending := fs\<rparr>) = Inr s'" "tcp_inv s'"
    using run_functor_ok[OF t p(2) wr] by blast
  have "ts_state s' \<noteq> kConnecting" using run_functor_state[OF s'(1)] nc by auto
  with s' inv False p(1) nc show ?thesis by (simp add: driven_inv_def on_conn_def)
qed

lemma destroy_inv:
  assumes inv: "driven_inv d" and p: "dr_calls d = []" "dr_established d" "\<not> dr_destroyed d"
  shows "(\<exists>d'. on_conn (connectDestroyed upd rem) (d\<lparr>dr_destroyed := True\<rparr>) = Inr d' \<and> driven_inv d') \<or>
    on_conn (connectDestroyed upd rem) (d\<lparr>dr_destroyed := True\<rparr>) = Inl AssertFailed \<and> known_abort d DoDestroy"
proof -
  have t: "tcp_inv (dr_conn d)" "ts_state (dr_conn d) \<noteq> kConnecting" using inv p by (auto simp: driven_inv_def)
  show ?thesis
  proof (cases "ts_state (dr_conn d) = kDisconnecting")
    case True
    with destroy_aborts[OF t(1)] show ?thesis by (simp add: on_conn_def known_abort_def)
  next
    case False
    with t(2) have "ts_state (dr_conn d) = kDisconnected \<or> ts_state (dr_conn d) = kConnected"
      by (cases "ts_state (dr_conn d)") auto
    from destroy_ok[OF t(1) this] obtain s' where s': "connectDestroyed upd rem (dr_conn d) = Inr s'" "gone s'" by blast
    then have "ts_state s' = kDisconnected" by (simp add: gone_def)
    with s' p show ?thesis by (simp add: on_conn_def driven_inv_def)
  qed
qed

lemma tcp_step_inv:
  assumes "tcp_step upd rem d l r" "driven_inv d"
  shows "(\<exists>d'. r = Inr d' \<and> driven_inv d') \<or> r = Inl AssertFailed \<and> known_abort d l"
  using assms
proof (induction rule: tcp_step.cases)
  case (established d)
  then have "tcp_inv (dr_conn d)" "ts_state (dr_conn d) = kConnecting" "\<not> dr_destroyed d" "dr_calls d = []"
    by (auto simp: driven_inv_def gone_def split: if_splits)
  moreover from this obtain s' where "connectEstablished upd (dr_conn d) = Inr s'" "tcp_inv s'" "ts_state s' = kConnected"
    using connectEstablished_ok[of "dr_conn d"] by blast
  ultimately show ?thesis unfolding established by (simp add: on_conn_def driven_inv_def)
next
  case (send wr message d inLoop)
  then show ?thesis using call_inv[of d "tcp_send upd wr inLoop message"] gone_calls(1) send_call by blast
next
  case (shutdown d inLoop)
  then show ?thesis using call_inv[of d "\<lambda>s. Inr (tcp_shutdown inLoop s)"]
    by (simp add: gone_calls closing_calls closing_calls_state open_conn_def)
next
  case (force_close d)
  then show ?thesis using call_inv[of d "\<lambda>s. Inr (forceClose s)"]
    by (simp add: gone_calls closing_calls closing_calls_state)
next
  case (force_close_later d delay)
  then show ?thesis using call_inv[of d "\<lambda>s. Inr (forceCloseWithDelay delay s)"]
    by (simp add: gone_calls closing_calls closing_calls_state)
next
  case (reported d r t)
  then show ?thesis using report_inv by blast
next
  case (callback d cb cbs wr readv)
  then show ?thesis using callback_inv by blast
next
  case (run d f fs wr)
  then show ?thesis using run_inv by blast
next
  case (destroyed d)
  then show ?thesis using destroy_inv by blast
qed

lemma start_inv: "tcp_inv s \<Longrightarrow> ts_state s = kConnecting \<Longrightarrow> driven_inv (driven_start s)"
  by (simp add: driven_inv_def driven_start_def)

lemma tcp_reach_inv: "tcp_reach upd rem s0 d \<Longrightarrow> tcp_inv s0 \<Longrightarrow> ts_state s0 = kConnecting \<Longrightarrow> driven_inv d"
proof (induction rule: tcp_reach.induct)
  case (step d l d')
  then show ?case using tcp_step_inv[OF step.hyps(2)] by auto
qed (simp add: start_inv)

lemma ctor_inv:
  assumes "inv (h, p)" "0 \<le> fd" "reg p fd = None" "\<And>f. reg p f \<noteq> Some c"
  shows "\<exists>s. TcpConnection_ctor name c fd now (h, p) = Inr s \<and> tcp_inv s"
  using assms inv_unregistered[of h p c]
  by (auto simp: TcpConnection_ctor_def tcp_inv_def data_inv_def phase_inv_def ts_channel_def Channel_ctor_def
      Let_def)

lemma reach_from_ctor:
  assumes "inv (h, p)" "0 \<le> fd" "reg p fd = None" "\<And>f. reg p f \<noteq> Some c"
    and "TcpConnection_ctor name c fd now (h, p) = Inr s0" "tcp_reach upd rem s0 d"
  shows "driven_inv d"
proof -
  have "ts_state s0 = kConnecting"
    using assms(5) by (auto simp: TcpConnection_ctor_def Let_def andThen_Inr_iff)
  with ctor_inv[OF assms(1-4), of name now] assms(5) tcp_reach_inv[OF assms(6)] show ?thesis by auto
qed

end

section \<open>Properties\<close>

definition stream_ok :: "'p tcp \<Rightarrow> bool" where
  "stream_ok s \<longleftrightarrow>
     (EvFault \<notin> set (ts_trace s) \<longrightarrow> sent (ts_trace s) = wrote (ts_trace s) @ content (ts_output s)) \<and>
     (ts_state s = kConnected \<or> ts_state s = kDisconnecting \<longrightarrow>
        (isWriting (ts_channel s) \<longleftrightarrow> content (ts_output s) \<noteq> [])) \<and>
     shutdown_safe (ts_trace s)"

context poller
begin

lemma driven_stream: "driven_inv d \<Longrightarrow> stream_ok (dr_conn d)"
  by (auto simp: driven_inv_def stream_ok_def gone_def tcp_inv_def data_inv_def phase_open split: if_splits)

end


definition demo_epoll :: epoll_poller where
  "demo_epoll = \<lparr>ep_channels = [], ep_kernel = strict_kernel, ep_log = [], ep_events_size = 16\<rparr>"

lemma demo_epoll_ok: "ep_inv (h, demo_epoll)" "ep_reg demo_epoll fd = None"
  by (simp_all add: demo_epoll_def ep_inv_def ep_reg_def ep_watch_def interest_def kernel_ok_def strict_kernel_def)

definition demo_conn :: "epoll_poller tcp" where
  "demo_conn = (case TcpConnection_ctor ''c'' 0 7 0 (\<lambda>_. Channel_ctor 0, demo_epoll) of Inr s \<Rightarrow> s)"

lemma demo_conn_ctor: "TcpConnection_ctor ''c'' 0 7 0 (\<lambda>_. Channel_ctor 0, demo_epoll) = Inr demo_conn"
  by (simp add: demo_conn_def TcpConnection_ctor_def Let_def)


text \<open>The second of the two: a hang-up with urgent data and no readable data, on which a read gives nothing.\<close>

lemma read_after_close_aborts:
  assumes "buffer_wf (ts_input s)" "ts_state s = kDisconnected" "readv (readFd_cap (ts_input s)) = Some []"
  shows "run_callback upd readv wr (ReadCallback t) s = Inl AssertFailed"
  using readFd_ok[of "ts_input s" readv "[]"] assms
  by (auto simp: run_callback_def handleRead_def handleClose_def check_def Let_def)


text \<open>A connection that is established, sends three bytes and is shut down.\<close>

definition demo_write :: sys_write where
  "demo_write data = IoOk (length data)"

definition demo_established :: "epoll_poller tcp" where
  "demo_established = (case connectEstablished ep_updateChannel demo_conn of Inr s \<Rightarrow> s)"

definition demo_sent :: "epoll_poller tcp" where
  "demo_sent = (case tcp_send ep_updateChannel demo_write True ''GET'' demo_established of Inr s \<Rightarrow> s)"

lemmas demo_defs = demo_established_def demo_conn_def demo_epoll_def TcpConnection_ctor_def connectEstablished_def
  on_channel_def enableReading_def channel_update_def set_events_def ep_updateChannel_def ep_update_def
  strict_kernel_def interest_def setState_def channel_tie_def Channel_ctor_def set_index_def ep_index_defs

lemma demo_established_step: "connectEstablished ep_updateChannel demo_conn = Inr demo_established"
  "ts_state demo_established = kConnected" "\<not> isWriting (ts_channel demo_established)"
  "readableBytes (ts_output demo_established) = 0" "ts_trace demo_established = [EvConnection kConnected]"
  by (simp_all add: demo_defs Let_def ts_channel_def isWriting_def read_write_disjoint readable_content)


lemma demo_sent_step: "tcp_send ep_updateChannel demo_write True ''GET'' demo_established = Inr demo_sent"
  "ts_trace demo_sent = [EvConnection kConnected, EvSend ''GET'', EvWrote ''GET'']"
  "ts_state demo_sent = kConnected" "\<not> isWriting (ts_channel demo_sent)"
  using demo_established_step
  by (simp_all add: demo_sent_def tcp_send_def sendInLoop_def send_rest_def demo_write_def size_t_of_int_def Let_def
      split: if_splits)

definition demo_end :: "epoll_poller driven" where
  "demo_end = (driven_start (tcp_shutdown True demo_sent))\<lparr>dr_established := True\<rparr>"

lemma demo_reach: "tcp_reach ep_updateChannel ep_removeChannel demo_conn demo_end"
proof -
  let ?d0 = "driven_start demo_conn" and ?step = "tcp_step ep_updateChannel ep_removeChannel"
  let ?d1 = "?d0\<lparr>dr_conn := demo_established, dr_established := True\<rparr>"
  have "?step ?d0 DoEstablish (Inr ?d1)"
    using tcp_step.established[of ?d0 ep_updateChannel ep_removeChannel] demo_established_step(1)
    by (simp add: on_conn_def driven_start_def)
  moreover have "?step ?d1 DoCall (Inr (?d1\<lparr>dr_conn := demo_sent\<rparr>))"
    using tcp_step.send[of demo_write "''GET''" ep_updateChannel ep_removeChannel ?d1 True] demo_sent_step(1)
    by (simp add: on_conn_def write_ok_def demo_write_def)
  moreover have "?step (?d1\<lparr>dr_conn := demo_sent\<rparr>) DoCall (Inr demo_end)"
    using tcp_step.shutdown[of ep_updateChannel ep_removeChannel "?d1\<lparr>dr_conn := demo_sent\<rparr>" True]
    by (simp add: on_conn_def demo_end_def driven_start_def)
  ultimately show ?thesis using tcp_reach.start tcp_reach.step by metis
qed


text \<open>Destroying a connection. When it is disconnected or still fully connected,
  \<^verbatim>\<open>connectDestroyed\<close> leaves it disconnected and unregistered from the poller. When \<^verbatim>\<open>shutdown\<close> or
  \<^verbatim>\<open>forceClose\<close> has been called and the connection is not closed yet, which is the case
  \<^verbatim>\<open>~TcpServer\<close> can meet, the channel is still reading and the assertion of \<^verbatim>\<open>Channel::remove\<close>
  aborts the process.\<close>

theorem destroy_while_disconnecting_aborts:
  assumes "ep_inv (h, q)" "0 \<le> fd" "ep_reg q fd = None" "\<And>f. ep_reg q f \<noteq> Some c"
    "TcpConnection_ctor name c fd now (h, q) = Inr s0" "tcp_reach ep_updateChannel ep_removeChannel s0 d"
    "\<not> dr_destroyed d" "s = dr_conn d"
  shows "(ts_state s = kDisconnecting \<longrightarrow>
      connectDestroyed ep_updateChannel ep_removeChannel s = Inl AssertFailed) \<and>
    (ts_state s = kDisconnected \<or> ts_state s = kConnected \<longrightarrow>
      (\<exists>s'. connectDestroyed ep_updateChannel ep_removeChannel s = Inr s' \<and> ts_state s' = kDisconnected \<and>
        ep_reg (snd (ts_reg s')) (ch_fd (ts_channel s)) = None))"
proof -
  have "ep.tcp_inv s" using ep.reach_from_ctor[OF assms(1-6)] assms(7,8) by (simp add: ep.driven_inv_def)
  then show ?thesis using ep.destroy_ok[of s] ep.destroy_aborts[of s] by (auto simp: ep.gone_def)
qed

theorem destroy_while_disconnecting_aborts_witness:
  "connectDestroyed ep_updateChannel ep_removeChannel (tcp_shutdown True demo_sent) = Inl AssertFailed"
proof -
  have "ts_state (tcp_shutdown True demo_sent) = kDisconnecting"
    using demo_sent_step by (simp add: tcp_shutdown_def shutdownInLoop_def Let_def)
  with destroy_while_disconnecting_aborts[OF demo_epoll_ok(1) _ demo_epoll_ok(2) _ demo_conn_ctor demo_reach _ refl]
  show ?thesis by (simp add: demo_epoll_ok demo_end_def driven_start_def)
qed

end
