(* ===== verification/Net_TimerQueue.thy ===== *)
theory Net_TimerQueue
  imports Prelude "HOL-Library.Product_Lexorder"
begin

text \<open>
  \<^verbatim>\<open>net/Timer.{h,cc}\<close>, \<^verbatim>\<open>net/TimerId.h\<close> and \<^verbatim>\<open>net/TimerQueue.cc\<close>: the timers of an event loop. A
  \<^verbatim>\<open>Timer*\<close> is an address in a heap; \<^verbatim>\<open>delete\<close> removes the address, and using a deleted timer is a
  \<open>SegFault\<close> of the model. A \<^verbatim>\<open>std::set\<close> is a sorted list without repetitions. Times are in
  microseconds since the epoch; the interval of a timer is kept as the number of microseconds
  \<^verbatim>\<open>addTime\<close> adds, beside the flag \<^verbatim>\<open>repeat_\<close>. The descriptor \<^verbatim>\<open>timerfd_\<close> is the expiration it was
  last armed for, \<open>None\<close> once it has fired.

  A timer callback is the list of operations it performs on the queue: it may add timers and cancel
  any, also the ones that are just running.
\<close>

section \<open>Timers\<close>

record timer =
  tm_expiration :: int
  tm_delta :: int
  tm_repeat :: bool
  tm_sequence :: int

type_synonym timer_ptr = nat
type_synonym timer_entry = "int \<times> timer_ptr"
type_synonym active_timer = "timer_ptr \<times> int"

definition kMicroSecondsPerSecond :: int where "kMicroSecondsPerSecond = 1000 * 1000"

definition addTime :: "int \<Rightarrow> int \<Rightarrow> int" where
  "addTime timestamp delta = timestamp + delta"

definition timestamp_valid :: "int \<Rightarrow> bool" where
  "timestamp_valid t \<longleftrightarrow> 0 < t"

definition Timer_ctor :: "int \<Rightarrow> int \<Rightarrow> bool \<Rightarrow> int \<Rightarrow> timer" where
  "Timer_ctor when delta repeat seq =
     \<lparr>tm_expiration = when, tm_delta = delta, tm_repeat = repeat, tm_sequence = seq\<rparr>"

definition timer_restart :: "int \<Rightarrow> timer \<Rightarrow> timer" where
  "timer_restart now t =
     (if tm_repeat t then t\<lparr>tm_expiration := addTime now (tm_delta t)\<rparr> else t\<lparr>tm_expiration := 0\<rparr>)"

text \<open>\<^verbatim>\<open>howMuchTimeFromNow\<close>: seconds and nanoseconds until an expiration, at least 100 microseconds.\<close>

definition howMuchTimeFromNow :: "int \<Rightarrow> int \<Rightarrow> int \<times> int" where
  "howMuchTimeFromNow now when =
     (let microseconds = when - now;
          microseconds = (if microseconds < 100 then 100 else microseconds)
      in (microseconds div kMicroSecondsPerSecond, (microseconds mod kMicroSecondsPerSecond) * 1000))"

section \<open>The queue\<close>

record timer_queue =
  tq_heap :: "timer_ptr \<rightharpoonup> timer"
  tq_numCreated :: int
  tq_timers :: "timer_entry list"
  tq_active :: "active_timer list"
  tq_calling :: bool
  tq_canceling :: "active_timer list"
  tq_armed :: "int option"

definition TimerQueue_ctor :: timer_queue where
  "TimerQueue_ctor = \<lparr>tq_heap = Map.empty, tq_numCreated = 0, tq_timers = [], tq_active = [],
     tq_calling = False, tq_canceling = [], tq_armed = None\<rparr>"

text \<open>\<^verbatim>\<open>std::set::insert\<close> with the flag whether it inserted, and \<^verbatim>\<open>std::set::erase\<close> with the number of
  elements it removed.\<close>

definition set_insert :: "'a::linorder \<Rightarrow> 'a list \<Rightarrow> 'a list \<times> bool" where
  "set_insert x xs = (insort_insert x xs, x \<notin> set xs)"

definition set_erase :: "'a \<Rightarrow> 'a list \<Rightarrow> 'a list \<times> nat" where
  "set_erase x xs = (remove1 x xs, if x \<in> set xs then 1 else 0)"

definition check_sizes :: "timer_queue \<Rightarrow> unit result" where
  "check_sizes q = check (length (tq_timers q) = length (tq_active q))"

definition deref :: "timer_ptr \<Rightarrow> timer_queue \<Rightarrow> timer result" where
  "deref p q = (case tq_heap q p of None \<Rightarrow> Inl SegFault | Some t \<Rightarrow> Inr t)"

definition resetTimerfd :: "int \<Rightarrow> timer_queue \<Rightarrow> timer_queue" where
  "resetTimerfd expiration q = q\<lparr>tq_armed := Some expiration\<rparr>"

definition tq_insert :: "timer_ptr \<Rightarrow> timer_queue \<Rightarrow> (bool \<times> timer_queue) result" where
  "tq_insert p q =
     andThen (check_sizes q) (\<lambda>_.
     andThen (deref p q) (\<lambda>t.
     let when = tm_expiration t;
         earliestChanged = (tq_timers q = [] \<or> when < fst (hd (tq_timers q)));
         (timers, ok1) = set_insert (when, p) (tq_timers q);
         (active, ok2) = set_insert (p, tm_sequence t) (tq_active q);
         q' = q\<lparr>tq_timers := timers, tq_active := active\<rparr>
     in andThen (check ok1) (\<lambda>_.
        andThen (check ok2) (\<lambda>_.
        andThen (check_sizes q') (\<lambda>_. Inr (earliestChanged, q'))))))"

definition addTimerInLoop :: "timer_ptr \<Rightarrow> timer_queue \<Rightarrow> timer_queue result" where
  "addTimerInLoop p q =
     andThen (tq_insert p q) (\<lambda>(earliestChanged, q').
     if earliestChanged then andThen (deref p q') (\<lambda>t. Inr (resetTimerfd (tm_expiration t) q'))
     else Inr q')"

text \<open>\<^verbatim>\<open>addTimer\<close> in the loop thread; \<open>new\<close> is the allocator, which may find no memory, and the
  result holds the \<^verbatim>\<open>TimerId\<close>.\<close>

type_synonym allocator = "(timer_ptr \<rightharpoonup> timer) \<Rightarrow> timer_ptr option"

definition addTimer :: "allocator \<Rightarrow> int \<Rightarrow> int \<Rightarrow> bool \<Rightarrow> timer_queue \<Rightarrow> (active_timer \<times> timer_queue) result" where
  "addTimer new when delta repeat q =
     (case new (tq_heap q) of
        None \<Rightarrow> Inl BadAlloc
      | Some p \<Rightarrow>
          let seq = tq_numCreated q + 1;
              q1 = q\<lparr>tq_heap := (tq_heap q)(p \<mapsto> Timer_ctor when delta repeat seq), tq_numCreated := seq\<rparr>
          in andThen (addTimerInLoop p q1) (\<lambda>q2. Inr ((p, seq), q2)))"

definition cancelInLoop :: "active_timer \<Rightarrow> timer_queue \<Rightarrow> timer_queue result" where
  "cancelInLoop tid q =
     andThen (check_sizes q) (\<lambda>_.
     andThen
       (if tid \<in> set (tq_active q) then
          andThen (deref (fst tid) q) (\<lambda>t.
          let (timers, n) = set_erase (tm_expiration t, fst tid) (tq_timers q)
          in andThen (check (n = 1)) (\<lambda>_.
             Inr (q\<lparr>tq_timers := timers, tq_heap := (tq_heap q)(fst tid := None),
                    tq_active := fst (set_erase tid (tq_active q))\<rparr>)))
        else if tq_calling q then Inr (q\<lparr>tq_canceling := insort_insert tid (tq_canceling q)\<rparr>)
        else Inr q)
       (\<lambda>q'. andThen (check_sizes q') (\<lambda>_. Inr q')))"

definition UINTPTR_MAX :: nat where "UINTPTR_MAX = 2 ^ 64 - 1"

definition erase_active :: "timer_entry \<Rightarrow> timer_queue \<Rightarrow> timer_queue result" where
  "erase_active e q =
     andThen (deref (snd e) q) (\<lambda>t.
     let (active, n) = set_erase (snd e, tm_sequence t) (tq_active q)
     in andThen (check (n = 1)) (\<lambda>_. Inr (q\<lparr>tq_active := active\<rparr>)))"

definition getExpired :: "int \<Rightarrow> timer_queue \<Rightarrow> (timer_entry list \<times> timer_queue) result" where
  "getExpired now q =
     andThen (check_sizes q) (\<lambda>_.
     let sentry = (now, UINTPTR_MAX);
         expired = takeWhile (\<lambda>e. e < sentry) (tq_timers q);
         rest = dropWhile (\<lambda>e. e < sentry) (tq_timers q)
     in andThen (check (rest = [] \<or> now < fst (hd rest))) (\<lambda>_.
        andThen (fold_result erase_active expired (q\<lparr>tq_timers := rest\<rparr>)) (\<lambda>q'.
        andThen (check_sizes q') (\<lambda>_. Inr (expired, q')))))"

definition reset_entry :: "int \<Rightarrow> timer_entry \<Rightarrow> timer_queue \<Rightarrow> timer_queue result" where
  "reset_entry now e q =
     andThen (deref (snd e) q) (\<lambda>t.
     if tm_repeat t \<and> (snd e, tm_sequence t) \<notin> set (tq_canceling q) then
       andThen (tq_insert (snd e) (q\<lparr>tq_heap := (tq_heap q)(snd e \<mapsto> timer_restart now t)\<rparr>)) (\<lambda>(_, q').
         Inr q')
     else Inr (q\<lparr>tq_heap := (tq_heap q)(snd e := None)\<rparr>))"

definition tq_reset :: "timer_entry list \<Rightarrow> int \<Rightarrow> timer_queue \<Rightarrow> timer_queue result" where
  "tq_reset expired now q =
     andThen (fold_result (reset_entry now) expired q) (\<lambda>q'.
     andThen (case tq_timers q' of [] \<Rightarrow> Inr 0 | e # _ \<Rightarrow>
                andThen (deref (snd e) q') (\<lambda>t. Inr (tm_expiration t))) (\<lambda>nextExpire.
     Inr (if timestamp_valid nextExpire then resetTimerfd nextExpire q' else q')))"

section \<open>Callbacks\<close>

datatype timer_op = AddTimer int int bool | Cancel active_timer

definition do_op :: "allocator \<Rightarrow> timer_op \<Rightarrow> timer_queue \<Rightarrow> timer_queue result" where
  "do_op new a q = (case a of
     AddTimer when delta repeat \<Rightarrow> andThen (addTimer new when delta repeat q) (\<lambda>(_, q'). Inr q')
   | Cancel tid \<Rightarrow> cancelInLoop tid q)"

text \<open>\<open>run_timer\<close> runs the callback of an expired timer; \<open>cb\<close> gives the operations by the timer's
  address and sequence number.\<close>

definition run_timer :: "allocator \<Rightarrow> (active_timer \<Rightarrow> timer_op list) \<Rightarrow> timer_entry \<Rightarrow> timer_queue \<Rightarrow> timer_queue result" where
  "run_timer new cb e q =
     andThen (deref (snd e) q) (\<lambda>t. fold_result (do_op new) (cb (snd e, tm_sequence t)) q)"

text \<open>\<^verbatim>\<open>handleRead\<close>: the descriptor has fired. The result also holds the expired entries, whose
  callbacks were run in this order.\<close>

definition tq_handleRead :: "allocator \<Rightarrow> (active_timer \<Rightarrow> timer_op list) \<Rightarrow> int \<Rightarrow> timer_queue \<Rightarrow>
    (timer_entry list \<times> timer_queue) result" where
  "tq_handleRead new cb now q =
     andThen (getExpired now (q\<lparr>tq_armed := None\<rparr>)) (\<lambda>(expired, q1).
     andThen (fold_result (run_timer new cb) expired (q1\<lparr>tq_calling := True, tq_canceling := []\<rparr>)) (\<lambda>q2.
     andThen (tq_reset expired now (q2\<lparr>tq_calling := False\<rparr>)) (\<lambda>q3.
     Inr (expired, q3))))"

section \<open>The invariant\<close>

text \<open>\<open>E\<close> are the addresses of the timers that have expired and are waiting to be reset: alive, but in
  neither set.\<close>

definition tq_inv :: "timer_ptr set \<Rightarrow> timer_queue \<Rightarrow> bool" where
  "tq_inv E q \<longleftrightarrow> sorted (tq_timers q) \<and> distinct (tq_timers q) \<and> sorted (tq_active q) \<and> distinct (tq_active q) \<and>
     (\<forall>t p. (t, p) \<in> set (tq_timers q) \<longrightarrow> (\<exists>tm. tq_heap q p = Some tm \<and> tm_expiration tm = t \<and> 0 < t)) \<and>
     set (tq_active q) = (\<lambda>(t, p). (p, tm_sequence (the (tq_heap q p)))) ` set (tq_timers q) \<and>
     (\<forall>p \<in> E. tq_heap q p \<noteq> None \<and> (\<forall>t. (t, p) \<notin> set (tq_timers q))) \<and>
     (\<forall>p tm. tq_heap q p = Some tm \<longrightarrow> p < UINTPTR_MAX \<and> (tm_repeat tm \<longrightarrow> 0 \<le> tm_delta tm))"

text \<open>The descriptor is armed no later than the earliest expiration.\<close>

definition armed_ok :: "timer_queue \<Rightarrow> bool" where
  "armed_ok q \<longleftrightarrow> tq_timers q = [] \<or> (\<exists>a. tq_armed q = Some a \<and> a \<le> fst (hd (tq_timers q)))"

definition new_ok :: "allocator \<Rightarrow> bool" where
  "new_ok new \<longleftrightarrow> (\<forall>h p. new h = Some p \<longrightarrow> h p = None \<and> p < UINTPTR_MAX)"

lemma tq_invD:
  assumes "tq_inv E q"
  shows "sorted (tq_timers q)" "distinct (tq_timers q)" "sorted (tq_active q)" "distinct (tq_active q)"
    "\<And>t p. (t, p) \<in> set (tq_timers q) \<Longrightarrow> \<exists>tm. tq_heap q p = Some tm \<and> tm_expiration tm = t \<and> 0 < t"
    "set (tq_active q) = (\<lambda>(t, p). (p, tm_sequence (the (tq_heap q p)))) ` set (tq_timers q)"
    "\<And>p. p \<in> E \<Longrightarrow> tq_heap q p \<noteq> None" "\<And>p t. p \<in> E \<Longrightarrow> (t, p) \<notin> set (tq_timers q)"
    "\<And>p tm. tq_heap q p = Some tm \<Longrightarrow> p < UINTPTR_MAX"
    "\<And>p tm. tq_heap q p = Some tm \<Longrightarrow> tm_repeat tm \<Longrightarrow> 0 \<le> tm_delta tm"
  using assms unfolding tq_inv_def by blast+

lemma tq_unique: "tq_inv E q \<Longrightarrow> (t, p) \<in> set (tq_timers q) \<Longrightarrow> (t', p) \<in> set (tq_timers q) \<Longrightarrow> t = t'"
  using tq_invD(5)[of E q t p] tq_invD(5)[of E q t' p] by auto

lemma tq_active_iff:
  assumes "tq_inv E q"
  shows "(p, s) \<in> set (tq_active q) \<longleftrightarrow> (\<exists>t tm. (t, p) \<in> set (tq_timers q) \<and> tq_heap q p = Some tm \<and> tm_sequence tm = s)"
  using tq_invD(6)[OF assms] tq_invD(5)[OF assms] by force

lemma tq_key_inj:
  "tq_inv E q \<Longrightarrow> inj_on (\<lambda>(t, p). (p, tm_sequence (the (tq_heap q p)))) (set (tq_timers q))"
  using tq_unique[of E q] by (auto simp: inj_on_def)

lemma tq_sizes:
  assumes "tq_inv E q"
  shows "length (tq_timers q) = length (tq_active q)"
proof -
  have "card (set (tq_active q)) = card (set (tq_timers q))"
    by (simp add: tq_invD(6)[OF assms] card_image[OF tq_key_inj[OF assms]])
  then show ?thesis using tq_invD(2,4)[OF assms] by (simp add: distinct_card)
qed

lemma tq_sizes_check [simp]: "tq_inv E q \<Longrightarrow> check_sizes q = Inr ()"
  by (simp add: check_sizes_def tq_sizes)

lemma tq_inv_fields [simp]:
  "tq_inv E (q\<lparr>tq_calling := b\<rparr>) = tq_inv E q" "tq_inv E (q\<lparr>tq_canceling := c\<rparr>) = tq_inv E q"
  "tq_inv E (q\<lparr>tq_armed := a\<rparr>) = tq_inv E q" "tq_inv E (q\<lparr>tq_numCreated := n\<rparr>) = tq_inv E q"
  by (simp_all add: tq_inv_def)

lemma tq_insert_ok:
  assumes inv: "tq_inv E q" and p: "tq_heap q p = Some tm" "\<And>t. (t, p) \<notin> set (tq_timers q)" "0 < tm_expiration tm"
  defines "q' \<equiv> q\<lparr>tq_timers := insort_insert (tm_expiration tm, p) (tq_timers q),
    tq_active := insort_insert (p, tm_sequence tm) (tq_active q)\<rparr>"
  shows "tq_insert p q = Inr (tq_timers q = [] \<or> tm_expiration tm < fst (hd (tq_timers q)), q')"
    and "tq_inv (E - {p}) q'"
proof -
  note I = tq_invD[OF inv]
  have na: "(p, tm_sequence tm) \<notin> set (tq_active q)" using tq_active_iff[OF inv] p(2) by blast
  have act: "set (tq_active q') = (\<lambda>(t, p). (p, tm_sequence (the (tq_heap q' p)))) ` set (tq_timers q')"
    using I(6) p(1) by (simp add: q'_def set_insort_insert)
  show inv': "tq_inv (E - {p}) q'"
    unfolding tq_inv_def act
    using I(1-5) I(7-10) p by (auto simp: q'_def sorted_insort_insert distinct_insort_insert set_insort_insert)
  show "tq_insert p q = Inr (tq_timers q = [] \<or> tm_expiration tm < fst (hd (tq_timers q)), q')"
    using tq_sizes_check[OF inv] tq_sizes_check[OF inv'] p na
    by (simp add: tq_insert_def deref_def set_insert_def q'_def Let_def)
qed

lemma hd_insort_insert:
  "sorted xs \<Longrightarrow> fst (hd (insort_insert (w, p) xs)) = (if xs = [] \<or> w < fst (hd xs) then w else fst (hd xs))"
  by (cases xs) (auto simp: insort_insert_key_def less_eq_prod_def)

section \<open>Operations keep the invariant\<close>

definition op_ok :: "timer_op \<Rightarrow> bool" where
  "op_ok a = (case a of AddTimer when delta repeat \<Rightarrow> 0 < when \<and> (repeat \<longrightarrow> 0 \<le> delta) | Cancel tid \<Rightarrow> True)"

text \<open>A computation that may run out of memory but fails in no other way.\<close>

definition safely :: "'a result \<Rightarrow> ('a \<Rightarrow> bool) \<Rightarrow> bool" where
  "safely r Q = (case r of Inl e \<Rightarrow> e = BadAlloc | Inr x \<Rightarrow> Q x)"

lemma safely_simps [simp]: "safely (Inr x) Q = Q x" "safely (Inl e) Q = (e = BadAlloc)"
  by (simp_all add: safely_def)

lemma safely_andThen: "safely r P \<Longrightarrow> (\<And>x. P x \<Longrightarrow> safely (f x) Q) \<Longrightarrow> safely (andThen r f) Q"
  by (cases r) simp_all

lemma safely_mono: "safely r P \<Longrightarrow> (\<And>x. P x \<Longrightarrow> Q x) \<Longrightarrow> safely r Q"
  by (cases r) simp_all

text \<open>What the operations of a callback leave alone: the expired timers.\<close>

definition keeps :: "timer_ptr set \<Rightarrow> timer_queue \<Rightarrow> timer_queue \<Rightarrow> bool" where
  "keeps E q q' \<longleftrightarrow> tq_calling q' = tq_calling q \<and> (\<forall>p \<in> E. tq_heap q' p = tq_heap q p)"

lemma addTimer_ok:
  assumes inv: "tq_inv E q" and new: "new_ok new" and t: "0 < when" "repeat \<longrightarrow> 0 \<le> delta"
  shows "safely (addTimer new when delta repeat q) (\<lambda>(tid, q'). tq_inv E q' \<and> keeps E q q' \<and>
    tq_canceling q' = tq_canceling q \<and> (armed_ok q \<longrightarrow> armed_ok q') \<and>
    tq_heap q (fst tid) = None \<and> (when, fst tid) \<in> set (tq_timers q') \<and> tid \<in> set (tq_active q'))"
proof (cases "new (tq_heap q)")
  case None
  then show ?thesis by (simp add: addTimer_def)
next
  case (Some p)
  then have p: "tq_heap q p = None" "p < UINTPTR_MAX" using new by (auto simp: new_ok_def)
  note I = tq_invD[OF inv]
  define tm where "tm = Timer_ctor when delta repeat (tq_numCreated q + 1)"
  define q1 where "q1 = q\<lparr>tq_heap := (tq_heap q)(p \<mapsto> tm), tq_numCreated := tq_numCreated q + 1\<rparr>"
  have np: "(t, p) \<notin> set (tq_timers q)" for t using I(5)[of t p] p by auto
  have pE: "p \<notin> E" using I(7) p by blast
  have tm: "tm_expiration tm = when" "tm_repeat tm = repeat" "tm_delta tm = delta"
    "tm_sequence tm = tq_numCreated q + 1"
    by (simp_all add: tm_def Timer_ctor_def)
  have act: "set (tq_active q1) = (\<lambda>(t, p). (p, tm_sequence (the (tq_heap q1 p)))) ` set (tq_timers q1)"
    unfolding q1_def using I(6) np by (auto intro!: image_cong)
  have h: "tq_heap q1 r = (if r = p then Some tm else tq_heap q r)" for r by (simp add: q1_def)
  have "\<exists>tm'. tq_heap q1 r = Some tm' \<and> tm_expiration tm' = u \<and> 0 < u" if "(u, r) \<in> set (tq_timers q)" for u r
    using I(5)[OF that] np that by (cases "r = p") (auto simp: h)
  moreover have "tq_heap q1 r \<noteq> None" if "r \<in> E" for r using I(7)[OF that] by (simp add: h)
  moreover have "r < UINTPTR_MAX \<and> (tm_repeat tm' \<longrightarrow> 0 \<le> tm_delta tm')" if "tq_heap q1 r = Some tm'" for r tm'
    using that I(9,10)[of r tm'] p t tm by (cases "r = p") (auto simp: h)
  ultimately have inv1: "tq_inv E q1"
    unfolding tq_inv_def act using I(1-4) I(8) by (simp add: q1_def[symmetric]) (simp add: q1_def)
  have h1: "tq_heap q1 p = Some tm" and t1: "tq_timers q1 = tq_timers q" by (simp_all add: q1_def)
  note ins = tq_insert_ok[OF inv1 h1, unfolded t1 tm, OF np t(1)]
  define q2 where "q2 = q1\<lparr>tq_timers := insort_insert (when, p) (tq_timers q),
    tq_active := insort_insert (p, tq_numCreated q + 1) (tq_active q1)\<rparr>"
  define q3 where "q3 = (if tq_timers q = [] \<or> when < fst (hd (tq_timers q)) then resetTimerfd when q2 else q2)"
  have d: "deref p q2 = Inr tm" by (simp add: deref_def q2_def h1)
  have "addTimerInLoop p q1 = Inr q3"
    using ins(1) d by (simp add: addTimerInLoop_def q2_def[symmetric] q3_def tm)
  moreover have "addTimer new when delta repeat q = andThen (addTimerInLoop p q1) (\<lambda>q'. Inr ((p, tq_numCreated q + 1), q'))"
    by (simp add: addTimer_def Some q1_def tm_def Let_def)
  ultimately have "addTimer new when delta repeat q = Inr ((p, tq_numCreated q + 1), q3)" by simp
  moreover have "tq_inv E q3" using ins(2) pE by (simp add: q3_def q2_def resetTimerfd_def)
  moreover have "keeps E q q3" using pE by (auto simp: keeps_def q3_def q2_def q1_def resetTimerfd_def)
  moreover have "armed_ok q \<longrightarrow> armed_ok q3"
    using hd_insort_insert[OF I(1)] by (auto simp: armed_ok_def q3_def q2_def q1_def resetTimerfd_def)
  ultimately show ?thesis using p
    by (simp add: q3_def q2_def q1_def resetTimerfd_def set_insort_insert)
qed

lemma hd_remove1: "sorted xs \<Longrightarrow> remove1 x xs \<noteq> [] \<Longrightarrow> hd xs \<le> hd (remove1 x xs)"
  by (cases xs) (auto dest: hd_in_set notin_set_remove1 simp: order.trans)

lemma cancel_ok:
  assumes inv: "tq_inv E q"
  shows "\<exists>q'. cancelInLoop tid q = Inr q' \<and> tq_inv E q' \<and> keeps E q q' \<and> (armed_ok q \<longrightarrow> armed_ok q') \<and>
    tid \<notin> set (tq_active q') \<and>
    (tid \<in> set (tq_active q) \<longrightarrow> tq_canceling q' = tq_canceling q \<and> tq_heap q' (fst tid) = None) \<and>
    (tid \<notin> set (tq_active q) \<longrightarrow> set (tq_canceling q') = set (tq_canceling q) \<union> (if tq_calling q then {tid} else {}) \<and>
       tq_timers q' = tq_timers q)"
proof (cases "tid \<in> set (tq_active q)")
  case False
  let ?q = "if tq_calling q then q\<lparr>tq_canceling := insort_insert tid (tq_canceling q)\<rparr> else q"
  have "cancelInLoop tid q = Inr ?q" using False inv by (simp add: cancelInLoop_def)
  moreover have "tq_inv E ?q" "keeps E q ?q" "armed_ok q \<longrightarrow> armed_ok ?q"
    using inv by (simp_all add: keeps_def armed_ok_def)
  ultimately show ?thesis using False by (auto simp: set_insort_insert)
next
  case True
  note I = tq_invD[OF inv]
  obtain p s where tid: "tid = (p, s)" by fastforce
  obtain t tm where t: "(t, p) \<in> set (tq_timers q)" "tq_heap q p = Some tm" "tm_sequence tm = s"
    using True tq_active_iff[OF inv] tid by blast
  have e: "tm_expiration tm = t" using I(5)[OF t(1)] t(2) by auto
  let ?q = "q\<lparr>tq_timers := remove1 (t, p) (tq_timers q), tq_heap := (tq_heap q)(p := None),
    tq_active := remove1 tid (tq_active q)\<rparr>"
  have other: "r \<noteq> p" if "(u, r) \<in> set (tq_timers q)" "(u, r) \<noteq> (t, p)" for u r
    using tq_unique[OF inv _ t(1)] that by auto
  have same: "u = t" if "(u, p) \<in> set (tq_timers q)" for u using tq_unique[OF inv that t(1)] .
  have pE: "p \<notin> E" using I(8) t(1) by blast
  have rm: "set (remove1 (t, p) (tq_timers q)) = set (tq_timers q) - {(t, p)}"
    "set (remove1 tid (tq_active q)) = set (tq_active q) - {tid}"
    using I(2,4) by (simp_all add: set_remove1_eq)
  have act: "set (tq_active ?q) = (\<lambda>(t, p). (p, tm_sequence (the (tq_heap ?q p)))) ` set (tq_timers ?q)"
  proof -
    let ?f = "\<lambda>(t, p). (p, tm_sequence (the (tq_heap q p)))"
    have "set (tq_active ?q) = ?f ` set (tq_timers q) - ?f ` {(t, p)}"
      using I(6) rm(2) tid t(2,3) by simp
    also have "\<dots> = ?f ` (set (tq_timers q) - {(t, p)})"
      using inj_on_image_set_diff[OF tq_key_inj[OF inv], of "set (tq_timers q)" "{(t, p)}"] t(1) by simp
    also have "\<dots> = (\<lambda>(t, p). (p, tm_sequence (the (tq_heap ?q p)))) ` (set (tq_timers q) - {(t, p)})"
    proof (rule image_cong[OF refl])
      fix e assume "e \<in> set (tq_timers q) - {(t, p)}"
      with other[of "fst e" "snd e"] have "snd e \<noteq> p" by auto
      then show "?f e = (\<lambda>(t, p). (p, tm_sequence (the (tq_heap ?q p)))) e" by (simp add: case_prod_beta)
    qed
    finally show ?thesis using rm(1) by simp
  qed
  have inv': "tq_inv E ?q"
    unfolding tq_inv_def act using I(1-5) I(7-10) pE same by (auto simp: sorted_remove1 rm)
  have "cancelInLoop tid q = Inr ?q"
    using True inv inv' t e tid by (simp add: cancelInLoop_def deref_def set_erase_def)
  moreover have "armed_ok q \<longrightarrow> armed_ok ?q"
  proof (cases "remove1 (t, p) (tq_timers q) = []")
    case False
    then have "fst (hd (tq_timers q)) \<le> fst (hd (remove1 (t, p) (tq_timers q)))"
      using hd_remove1[OF I(1), of "(t, p)"] by (auto simp: less_eq_prod_def)
    then show ?thesis using False by (auto simp: armed_ok_def)
  qed (simp add: armed_ok_def)
  moreover have "keeps E q ?q" using pE by (auto simp: keeps_def)
  ultimately show ?thesis using True inv' rm tid by simp
qed

section \<open>Expiry\<close>

text \<open>The cancellations of timers \<open>K\<close> that a list of operations asks for.\<close>

definition cancels :: "timer_op list \<Rightarrow> active_timer set" where
  "cancels ops = {tid. Cancel tid \<in> set ops}"

lemma cancels_simps [simp]: "cancels [] = {}" "cancels (a # ops) = (case a of Cancel tid \<Rightarrow> {tid} | _ \<Rightarrow> {}) \<union> cancels ops"
  by (auto simp: cancels_def split: timer_op.splits)

text \<open>The state while callbacks run: \<open>E\<close> are the expired timers, alive as they were in \<open>q0\<close>, and of
  them exactly those in \<open>C\<close> have been cancelled.\<close>

definition running :: "timer_queue \<Rightarrow> timer_ptr set \<Rightarrow> active_timer set \<Rightarrow> timer_queue \<Rightarrow> bool" where
  "running q0 E C q \<longleftrightarrow> tq_inv E q \<and> tq_calling q \<and> (\<forall>p \<in> E. tq_heap q p = tq_heap q0 p) \<and>
     (\<forall>p \<in> E. \<forall>s. (p, s) \<in> set (tq_canceling q) \<longleftrightarrow> (p, s) \<in> C)"

lemma do_op_running:
  assumes "running q0 E C q" "new_ok new" "op_ok a"
  shows "safely (do_op new a q) (running q0 E (C \<union> cancels [a]))"
proof (cases a)
  case (AddTimer w delta repeat)
  with assms(3) have t: "0 < w" "repeat \<longrightarrow> 0 \<le> delta" by (auto simp: op_ok_def)
  have inv: "tq_inv E q" using assms(1) by (simp add: running_def)
  show ?thesis unfolding do_op_def AddTimer timer_op.case
    by (rule safely_andThen[OF addTimer_ok[OF inv assms(2) t]])
      (use assms(1) in \<open>auto simp: running_def keeps_def AddTimer\<close>)
next
  case (Cancel tid)
  have inv: "tq_inv E q" using assms(1) by (simp add: running_def)
  obtain q' where q': "cancelInLoop tid q = Inr q'" "tq_inv E q'" "keeps E q q'"
    "tid \<in> set (tq_active q) \<longrightarrow> tq_canceling q' = tq_canceling q"
    "tid \<notin> set (tq_active q) \<longrightarrow> set (tq_canceling q') = set (tq_canceling q) \<union> {tid}"
    using cancel_ok[OF inv, of tid] assms(1) by (auto simp: running_def)
  have na: "tid \<notin> set (tq_active q)" if "fst tid \<in> E"
    using tq_active_iff[OF inv, of "fst tid" "snd tid"] tq_invD(8)[OF inv that] by auto
  have "(p, s) \<in> set (tq_canceling q') \<longleftrightarrow> (p, s) \<in> C \<union> {tid}" if "p \<in> E" for p s
    using q'(4,5) na assms(1) that by (cases "tid \<in> set (tq_active q)") (auto simp: running_def)
  then have "running q0 E (C \<union> {tid}) q'"
    using q'(2,3) assms(1) by (simp add: running_def keeps_def)
  then show ?thesis using q'(1) by (simp add: do_op_def Cancel)
qed

lemma ops_running:
  assumes "running q0 E C q" "new_ok new" "\<forall>a \<in> set ops. op_ok a"
  shows "safely (fold_result (do_op new) ops q) (running q0 E (C \<union> cancels ops))"
  using assms(1,3)
proof (induction ops arbitrary: q C)
  case (Cons a ops)
  have "safely (do_op new a q) (running q0 E (C \<union> cancels [a]))"
    using do_op_running[OF Cons.prems(1) assms(2)] Cons.prems(2) by simp
  then show ?case
    unfolding fold_result.simps
  proof (rule safely_andThen)
    fix x assume "running q0 E (C \<union> cancels [a]) x"
    from Cons.IH[OF this] Cons.prems(2)
    show "safely (fold_result (do_op new) ops x) (running q0 E (C \<union> cancels (a # ops)))"
      by (simp add: Un_assoc)
  qed
qed simp

text \<open>All cancellations made by the callbacks of a list of expired entries.\<close>

definition cb_cancels :: "(active_timer \<Rightarrow> timer_op list) \<Rightarrow> timer_queue \<Rightarrow> timer_entry list \<Rightarrow> active_timer set" where
  "cb_cancels cb q es = (\<Union>(t, p) \<in> set es. cancels (cb (p, tm_sequence (the (tq_heap q p)))))"

lemma callbacks_running:
  assumes "running q0 E C q" "new_ok new" "\<forall>tid. \<forall>a \<in> set (cb tid). op_ok a" "snd ` set es \<subseteq> E"
  shows "safely (fold_result (run_timer new cb) es q) (running q0 E (C \<union> cb_cancels cb q0 es))"
  using assms(1,4)
proof (induction es arbitrary: q C)
  case (Cons e es)
  obtain t p where e: "e = (t, p)" by fastforce
  then have "p \<in> E" using Cons.prems(2) by auto
  then obtain tm where tm: "tq_heap q p = Some tm" "tq_heap q0 p = Some tm"
    using Cons.prems(1) tq_invD(7)[of E q p] by (auto simp: running_def)
  let ?ops = "cb (p, tm_sequence tm)"
  have "safely (run_timer new cb e q) (running q0 E (C \<union> cancels ?ops))"
    using ops_running[OF Cons.prems(1) assms(2), of ?ops] assms(3) tm(1)
    by (simp add: run_timer_def deref_def e)
  then show ?case
    unfolding fold_result.simps
  proof (rule safely_andThen)
    fix x assume "running q0 E (C \<union> cancels ?ops) x"
    from Cons.IH[OF this] Cons.prems(2)
    show "safely (fold_result (run_timer new cb) es x) (running q0 E (C \<union> cb_cancels cb q0 (e # es)))"
      by (simp add: cb_cancels_def e tm(2) Un_assoc)
  qed
qed (simp add: cb_cancels_def)

text \<open>The entries in front of the sentry are exactly the ones that are due.\<close>

lemma takeWhile_sorted:
  assumes "sorted xs" "\<And>x y. x \<le> y \<Longrightarrow> P y \<Longrightarrow> P x"
  shows "takeWhile P xs = filter P xs"
  using assms(1)
proof (induction xs)
  case (Cons x xs)
  have "\<forall>y \<in> set xs. \<not> P y" if "\<not> P x" using Cons.prems assms(2) that by auto
  then show ?case using Cons by (auto simp: filter_empty_conv)
qed simp

lemma dropWhile_sorted:
  assumes "sorted xs" "\<And>x y. x \<le> y \<Longrightarrow> P y \<Longrightarrow> P x"
  shows "dropWhile P xs = filter (\<lambda>x. \<not> P x) xs"
  using assms(1)
proof (induction xs)
  case (Cons x xs)
  have "\<forall>y \<in> set xs. \<not> P y" if "\<not> P x" using Cons.prems assms(2) that by auto
  then show ?case using Cons by (auto simp: filter_id_conv)
qed simp

lemma sentry_due:
  "p < UINTPTR_MAX \<Longrightarrow> (t :: int, p) < (now, UINTPTR_MAX) \<longleftrightarrow> t \<le> now"
  by (auto simp: less_prod_def')

definition entry_key :: "timer_queue \<Rightarrow> timer_entry \<Rightarrow> active_timer" where
  "entry_key q e = (snd e, tm_sequence (the (tq_heap q (snd e))))"

lemma erase_fold:
  assumes "distinct (map snd es)" "distinct (tq_active q)"
    "\<forall>e \<in> set es. tq_heap q (snd e) \<noteq> None \<and> entry_key q e \<in> set (tq_active q)"
  shows "fold_result erase_active es q = Inr (q\<lparr>tq_active := filter (\<lambda>x. x \<notin> entry_key q ` set es) (tq_active q)\<rparr>)"
  using assms
proof (induction es arbitrary: q)
  case (Cons e es)
  let ?q = "q\<lparr>tq_active := remove1 (entry_key q e) (tq_active q)\<rparr>"
  have ne: "entry_key q x \<noteq> entry_key q e" if "x \<in> set es" for x
    using Cons.prems(1) that by (auto simp: entry_key_def rev_image_eqI)
  have k: "entry_key ?q = entry_key q" by (simp add: entry_key_def fun_eq_iff)
  have step: "erase_active e q = Inr ?q"
    using Cons.prems(3) by (auto simp: erase_active_def deref_def set_erase_def entry_key_def)
  have "fold_result erase_active es ?q = Inr (?q\<lparr>tq_active := filter (\<lambda>x. x \<notin> entry_key ?q ` set es) (tq_active ?q)\<rparr>)"
    using Cons.prems ne by (intro Cons.IH) (auto simp: k)
  moreover have "filter (\<lambda>x. x \<notin> entry_key q ` set es) (remove1 (entry_key q e) (tq_active q)) =
      filter (\<lambda>x. x \<notin> entry_key q ` set (e # es)) (tq_active q)"
    using Cons.prems(2) by (auto simp: distinct_remove1_removeAll removeAll_filter_not_eq intro: filter_cong)
  ultimately show ?case by (simp add: k step)
qed simp

lemma getExpired_ok:
  fixes q now
  assumes inv: "tq_inv {} q"
  defines "due \<equiv> filter (\<lambda>(t, p). t \<le> now) (tq_timers q)"
  shows "\<exists>q'. getExpired now q = Inr (due, q') \<and> tq_inv (snd ` set due) q' \<and> tq_heap q' = tq_heap q \<and>
    tq_timers q' = filter (\<lambda>(t, p). now < t) (tq_timers q) \<and> distinct (map snd due) \<and>
    tq_calling q' = tq_calling q"
proof -
  note I = tq_invD[OF inv]
  let ?P = "\<lambda>e. e < (now, UINTPTR_MAX)"
  let ?rest = "filter (\<lambda>(t, p). now < t) (tq_timers q)"
  have le: "?P e \<longleftrightarrow> fst e \<le> now" if "e \<in> set (tq_timers q)" for e
    using I(5)[of "fst e" "snd e"] I(9)[of "snd e"] sentry_due[of "snd e" "fst e" now] that by auto
  have tw: "takeWhile ?P (tq_timers q) = due" "dropWhile ?P (tq_timers q) = ?rest"
    using takeWhile_sorted[OF I(1), of ?P] dropWhile_sorted[OF I(1), of ?P] le order.strict_trans1
    unfolding due_def by (auto intro!: filter_cong simp del: less_prod_simp)
  have rest: "?rest = [] \<or> now < fst (hd ?rest)"
    by (cases ?rest) (auto dest!: filter_eq_ConsD)
  have dist: "distinct (map snd due)"
    using I(2) tq_unique[OF inv] unfolding due_def by (auto simp: distinct_map inj_on_def)
  have key: "entry_key q = (\<lambda>(t, p). (p, tm_sequence (the (tq_heap q p))))" by (auto simp: entry_key_def)
  have alive: "\<forall>e \<in> set due. tq_heap q (snd e) \<noteq> None \<and> entry_key q e \<in> set (tq_active q)"
  proof
    fix e assume "e \<in> set due"
    then have e: "(fst e, snd e) \<in> set (tq_timers q)" by (simp add: due_def)
    with I(5)[OF e] I(6) show "tq_heap q (snd e) \<noteq> None \<and> entry_key q e \<in> set (tq_active q)"
      by (auto simp: key intro!: rev_image_eqI[OF e])
  qed
  let ?q1 = "q\<lparr>tq_timers := ?rest\<rparr>"
  let ?q2 = "?q1\<lparr>tq_active := filter (\<lambda>x. x \<notin> entry_key q ` set due) (tq_active q)\<rparr>"
  have k1: "entry_key ?q1 = entry_key q" by (simp add: entry_key_def fun_eq_iff)
  have fold: "fold_result erase_active due ?q1 = Inr ?q2"
    using erase_fold[of due ?q1] dist alive I(4) by (simp add: k1)
  have split_: "set (tq_timers q) = set ?rest \<union> set due" "set ?rest = set (tq_timers q) - set due"
    unfolding due_def by auto
  have act: "set (tq_active ?q2) = (\<lambda>(t, p). (p, tm_sequence (the (tq_heap ?q2 p)))) ` set (tq_timers ?q2)"
  proof -
    have "set (tq_active ?q2) = entry_key q ` set (tq_timers q) - entry_key q ` set due"
      using I(6) by (auto simp: key)
    also have "\<dots> = entry_key q ` (set (tq_timers q) - set due)"
      by (rule inj_on_image_set_diff[OF tq_key_inj[OF inv, folded key], symmetric]) (auto simp: due_def)
    also have "set (tq_timers q) - set due = set ?rest" by (rule split_(2)[symmetric])
    finally show ?thesis by (simp add: key)
  qed
  have E: "(u, p) \<notin> set ?rest" if "p \<in> snd ` set due" for u p
    using that tq_unique[OF inv] unfolding due_def by fastforce
  have inv2: "tq_inv (snd ` set due) ?q2"
    unfolding tq_inv_def act
  proof (intro conjI allI impI ballI)
    show "sorted (tq_timers ?q2)" "distinct (tq_timers ?q2)" "sorted (tq_active ?q2)" "distinct (tq_active ?q2)"
      using I(1-4) by (simp_all add: sorted_wrt_filter)
  qed (use I(5) I(9,10) alive E in auto)
  have "getExpired now q = Inr (due, ?q2)"
    unfolding getExpired_def Let_def tw using rest fold tq_sizes_check[OF inv] tq_sizes_check[OF inv2] by simp
  then show ?thesis using inv2 dist by simp
qed

text \<open>Resetting the expired timers: the repeating ones that were not cancelled start again from
  \<open>now\<close>, the others are deleted.\<close>

definition restarts :: "timer_queue \<Rightarrow> timer_ptr \<Rightarrow> timer \<Rightarrow> bool" where
  "restarts q p tm \<longleftrightarrow> tm_repeat tm \<and> (p, tm_sequence tm) \<notin> set (tq_canceling q)"

lemma tq_inv_heap_E:
  assumes inv: "tq_inv E q" and p: "p \<in> E" "tq_heap q p = Some tm"
  shows "(tm_repeat tm' \<longrightarrow> 0 \<le> tm_delta tm') \<Longrightarrow>
      tq_inv E (q\<lparr>tq_heap := (tq_heap q)(p \<mapsto> tm')\<rparr>)"
    and "tq_inv (E - {p}) (q\<lparr>tq_heap := (tq_heap q)(p := None)\<rparr>)"
proof -
  note I = tq_invD[OF inv]
  have np: "(t, p) \<notin> set (tq_timers q)" for t using I(8)[OF p(1)] .
  have img: "(\<lambda>(t, p). (p, tm_sequence (the (((tq_heap q)(p' := x)) p)))) ` set (tq_timers q) = set (tq_active q)"
    if "p' = p" for p' x
    unfolding I(6) that by (rule image_cong[OF refl]) (use np in auto)
  have old: "\<exists>tm. ((tq_heap q)(p := x)) r = Some tm \<and> tm_expiration tm = t \<and> 0 < t"
    if "(t, r) \<in> set (tq_timers q)" for t r x
    using I(5)[OF that] np that by (cases "r = p") auto
  show "tq_inv E (q\<lparr>tq_heap := (tq_heap q)(p \<mapsto> tm')\<rparr>)" if "tm_repeat tm' \<longrightarrow> 0 \<le> tm_delta tm'"
    using I(1-4) I(7-10) old img[OF refl, of "Some tm'"] that p(2) unfolding tq_inv_def by simp
  show "tq_inv (E - {p}) (q\<lparr>tq_heap := (tq_heap q)(p := None)\<rparr>)"
    using I(1-4) I(7-10) old img[OF refl, of None] unfolding tq_inv_def by simp
qed

lemma reset_entry_ok:
  assumes inv: "tq_inv E q" and p: "p \<in> E" "tq_heap q p = Some tm" and now: "0 < now"
  shows "\<exists>q'. reset_entry now (t, p) q = Inr q' \<and> tq_inv (E - {p}) q' \<and> tq_canceling q' = tq_canceling q \<and> tq_calling q' = tq_calling q \<and>
    (\<forall>r. r \<noteq> p \<longrightarrow> tq_heap q' r = tq_heap q r) \<and>
    set (tq_timers q') = set (tq_timers q) \<union> (if restarts q p tm then {(now + tm_delta tm, p)} else {}) \<and>
    (\<not> restarts q p tm \<longrightarrow> tq_heap q' p = None)"
proof (cases "restarts q p tm")
  case False
  then have "reset_entry now (t, p) q = Inr (q\<lparr>tq_heap := (tq_heap q)(p := None)\<rparr>)"
    using p(2) by (auto simp: reset_entry_def deref_def restarts_def)
  then show ?thesis using False tq_inv_heap_E(2)[OF inv p] by simp
next
  case True
  let ?tm = "timer_restart now tm"
  let ?q = "q\<lparr>tq_heap := (tq_heap q)(p \<mapsto> ?tm)\<rparr>"
  have tm: "tm_expiration ?tm = now + tm_delta tm" "tm_sequence ?tm = tm_sequence tm" "0 \<le> tm_delta tm"
    "tm_repeat ?tm" "tm_delta ?tm = tm_delta tm"
    using True tq_invD(10)[OF inv p(2)] by (simp_all add: restarts_def timer_restart_def addTime_def)
  have inv1: "tq_inv E ?q" using tq_inv_heap_E(1)[OF inv p, of ?tm] tm by simp
  have h: "tq_heap ?q p = Some ?tm" by simp
  have np: "(u, p) \<notin> set (tq_timers ?q)" for u using tq_invD(8)[OF inv1 p(1)] .
  note ins = tq_insert_ok[OF inv1 h np]
  have pos: "0 < tm_expiration ?tm" using tm now by simp
  show ?thesis using True p(2) ins[OF pos] tm
    by (simp add: reset_entry_def deref_def restarts_def set_insort_insert)
qed

lemma reset_fold:
  assumes "tq_inv E q" "distinct (map snd es)" "snd ` set es = E" "0 < now"
  shows "\<exists>q'. fold_result (reset_entry now) es q = Inr q' \<and> tq_inv {} q' \<and> tq_canceling q' = tq_canceling q \<and> tq_calling q' = tq_calling q \<and>
    (\<forall>r. r \<notin> E \<longrightarrow> tq_heap q' r = tq_heap q r) \<and>
    set (tq_timers q') = set (tq_timers q) \<union> {(now + tm_delta tm, p) | p tm. p \<in> E \<and> tq_heap q p = Some tm \<and> restarts q p tm} \<and>
    (\<forall>p tm. p \<in> E \<longrightarrow> tq_heap q p = Some tm \<longrightarrow> \<not> restarts q p tm \<longrightarrow> tq_heap q' p = None)"
  using assms
proof (induction es arbitrary: E q)
  case (Cons e es)
  obtain t p where e: "e = (t, p)" by fastforce
  have pE: "p \<in> E" and np: "p \<notin> snd ` set es" and E': "snd ` set es = E - {p}" using Cons.prems e by auto
  obtain tm where tm: "tq_heap q p = Some tm" using tq_invD(7)[OF Cons.prems(1) pE] by auto
  obtain q1 where q1: "reset_entry now e q = Inr q1" "tq_inv (E - {p}) q1" "tq_canceling q1 = tq_canceling q \<and> tq_calling q1 = tq_calling q"
    "\<forall>r. r \<noteq> p \<longrightarrow> tq_heap q1 r = tq_heap q r"
    "set (tq_timers q1) = set (tq_timers q) \<union> (if restarts q p tm then {(now + tm_delta tm, p)} else {})"
    "\<not> restarts q p tm \<longrightarrow> tq_heap q1 p = None"
    using reset_entry_ok[OF Cons.prems(1) pE tm Cons.prems(4), of t] unfolding e by blast
  have r: "restarts q1 = restarts q" using q1(3) by (simp add: restarts_def fun_eq_iff)
  obtain q' where q': "fold_result (reset_entry now) es q1 = Inr q'" "tq_inv {} q'" "tq_canceling q' = tq_canceling q1 \<and> tq_calling q' = tq_calling q1"
    "\<forall>r. r \<notin> E - {p} \<longrightarrow> tq_heap q' r = tq_heap q1 r"
    "set (tq_timers q') = set (tq_timers q1) \<union>
      {(now + tm_delta tm, r) | r tm. r \<in> E - {p} \<and> tq_heap q1 r = Some tm \<and> restarts q r tm}"
    "\<forall>r tm. r \<in> E - {p} \<longrightarrow> tq_heap q1 r = Some tm \<longrightarrow> \<not> restarts q r tm \<longrightarrow> tq_heap q' r = None"
    using Cons.IH[OF q1(2) _ E' Cons.prems(4)] Cons.prems(2) unfolding r by auto
  have set_eq: "{(now + tm_delta tm, r) | r tm. r \<in> E - {p} \<and> tq_heap q1 r = Some tm \<and> restarts q r tm} \<union>
      (if restarts q p tm then {(now + tm_delta tm, p)} else {}) =
      {(now + tm_delta tm, r) | r tm. r \<in> E \<and> tq_heap q r = Some tm \<and> restarts q r tm}"
  proof -
    have *: "r \<in> E \<and> tq_heap q r = Some tm' \<and> restarts q r tm' \<longleftrightarrow> r \<in> E - {p} \<and> tq_heap q1 r = Some tm' \<and> restarts q r tm' \<or>
      restarts q p tm \<and> r = p \<and> tm' = tm" for r tm'
      using q1(4) pE tm by (cases "r = p") auto
    show ?thesis unfolding * by auto
  qed
  have "tq_heap q' r = None" if "r \<in> E" "tq_heap q r = Some tm'" "\<not> restarts q r tm'" for r tm'
    using q'(4,6) q1(4,6) that tm by (cases "r = p") auto
  moreover have "set (tq_timers q') = set (tq_timers q) \<union>
      {(now + tm_delta tm, r) | r tm. r \<in> E \<and> tq_heap q r = Some tm \<and> restarts q r tm}"
    unfolding set_eq[symmetric] q'(5) q1(5) by blast
  moreover have "\<forall>r. r \<notin> E \<longrightarrow> tq_heap q' r = tq_heap q r" using q1(4) q'(4) pE by (metis DiffD1)
  ultimately show ?case using q1(1,3) q'(1-3) by simp
qed auto

lemma tq_reset_ok:
  assumes "tq_inv (snd ` set es) q" "distinct (map snd es)" "0 < now"
  shows "\<exists>q'. tq_reset es now q = Inr q' \<and> tq_inv {} q' \<and> armed_ok q' \<and> tq_calling q' = tq_calling q \<and>
    set (tq_timers q') = set (tq_timers q) \<union>
      {(now + tm_delta tm, p) | p tm. p \<in> snd ` set es \<and> tq_heap q p = Some tm \<and> restarts q p tm} \<and>
    (\<forall>p tm. p \<in> snd ` set es \<longrightarrow> tq_heap q p = Some tm \<longrightarrow> \<not> restarts q p tm \<longrightarrow> tq_heap q' p = None)"
proof -
  from reset_fold[OF assms(1,2) refl assms(3)] obtain q1 where
    q1: "fold_result (reset_entry now) es q = Inr q1" "tq_inv {} q1" "tq_canceling q1 = tq_canceling q"
      "tq_calling q1 = tq_calling q" "\<forall>r. r \<notin> snd ` set es \<longrightarrow> tq_heap q1 r = tq_heap q r"
      "set (tq_timers q1) = set (tq_timers q) \<union>
        {(now + tm_delta tm, p) | p tm. p \<in> snd ` set es \<and> tq_heap q p = Some tm \<and> restarts q p tm}"
      "\<forall>p tm. p \<in> snd ` set es \<longrightarrow> tq_heap q p = Some tm \<longrightarrow> \<not> restarts q p tm \<longrightarrow> tq_heap q1 p = None"
    by (elim exE conjE)
  show ?thesis
  proof (cases "tq_timers q1")
    case Nil
    then have "tq_reset es now q = Inr q1" using q1(1) by (simp add: tq_reset_def timestamp_valid_def)
    moreover have "armed_ok q1" using Nil by (simp add: armed_ok_def)
    ultimately show ?thesis using q1(2,4,6,7) by auto
  next
    case (Cons e rest)
    obtain tm where tm: "tq_heap q1 (snd e) = Some tm" "tm_expiration tm = fst e" "0 < fst e"
      using tq_invD(5)[OF q1(2), of "fst e" "snd e"] Cons by auto
    have "tq_reset es now q = Inr (resetTimerfd (fst e) q1)"
      using q1(1) Cons tm by (simp add: tq_reset_def deref_def timestamp_valid_def)
    moreover have "armed_ok (resetTimerfd (fst e) q1)" "tq_inv {} (resetTimerfd (fst e) q1)"
      "tq_calling (resetTimerfd (fst e) q1) = tq_calling q"
      using Cons q1(2,4) by (simp_all add: armed_ok_def resetTimerfd_def)
    ultimately show ?thesis using q1(6,7) by (intro exI[of _ "resetTimerfd (fst e) q1"]) (simp add: resetTimerfd_def)
  qed
qed

section \<open>Properties\<close>

definition tq_ok :: "timer_queue \<Rightarrow> bool" where
  "tq_ok q \<longleftrightarrow> tq_inv {} q \<and> armed_ok q \<and> \<not> tq_calling q"

lemma handleRead_ok:
  assumes ok: "tq_ok q" and new: "new_ok new" and ops: "\<forall>tid. \<forall>a \<in> set (cb tid). op_ok a" and now: "0 < now"
  defines "due \<equiv> filter (\<lambda>(t, p). t \<le> now) (tq_timers q)"
  shows "safely (tq_handleRead new cb now q) (\<lambda>(expired, q'). expired = due \<and> tq_ok q' \<and>
    (\<forall>p tm. p \<in> snd ` set due \<longrightarrow> tq_heap q p = Some tm \<longrightarrow>
      (if tm_repeat tm \<and> (p, tm_sequence tm) \<notin> cb_cancels cb q due
       then (now + tm_delta tm, p) \<in> set (tq_timers q') else tq_heap q' p = None)))"
proof -
  define E where "E = snd ` set due"
  have inv0: "tq_inv {} (q\<lparr>tq_armed := None\<rparr>)" using ok by (simp add: tq_ok_def)
  obtain q1 where q1: "getExpired now (q\<lparr>tq_armed := None\<rparr>) = Inr (due, q1)" "tq_inv E q1" "tq_heap q1 = tq_heap q"
    "distinct (map snd due)"
    using getExpired_ok[OF inv0, of now] by (auto simp: due_def E_def)
  let ?q1 = "q1\<lparr>tq_calling := True, tq_canceling := []\<rparr>"
  have "running q E {} ?q1" using q1(2,3) by (simp add: running_def)
  note run = callbacks_running[OF this new ops eq_refl[OF E_def[symmetric]]]
  have fin: "safely (andThen (tq_reset due now (q2\<lparr>tq_calling := False\<rparr>)) (\<lambda>q3. Inr (due, q3)))
      (\<lambda>(expired, q'). expired = due \<and> tq_ok q' \<and>
    (\<forall>p tm. p \<in> snd ` set due \<longrightarrow> tq_heap q p = Some tm \<longrightarrow>
      (if tm_repeat tm \<and> (p, tm_sequence tm) \<notin> cb_cancels cb q due
       then (now + tm_delta tm, p) \<in> set (tq_timers q') else tq_heap q' p = None)))"
    if r: "running q E ({} \<union> cb_cancels cb q due) q2" for q2
  proof -
    let ?q2 = "q2\<lparr>tq_calling := False\<rparr>"
    have "tq_inv E ?q2" using r by (simp add: running_def)
    from tq_reset_ok[OF this[unfolded E_def] q1(4) now, folded E_def] obtain q3 where q3: "tq_reset due now ?q2 = Inr q3" "tq_inv {} q3" "armed_ok q3"
      "\<not> tq_calling q3"
      "set (tq_timers q3) = set (tq_timers q2) \<union>
        {(now + tm_delta tm, p) | p tm. p \<in> E \<and> tq_heap q2 p = Some tm \<and> restarts ?q2 p tm}"
      "\<forall>p tm. p \<in> E \<longrightarrow> tq_heap q2 p = Some tm \<longrightarrow> \<not> restarts ?q2 p tm \<longrightarrow> tq_heap q3 p = None"
      by auto
    have "restarts ?q2 p tm \<longleftrightarrow> tm_repeat tm \<and> (p, tm_sequence tm) \<notin> cb_cancels cb q due"
      "tq_heap q2 p = tq_heap q p" if "p \<in> E" for p tm
      using r that by (simp_all add: running_def restarts_def)
    then show ?thesis using q3 by (auto simp: tq_ok_def E_def[symmetric])
  qed
  show ?thesis unfolding tq_handleRead_def q1(1) andThen_simps split_conv
    by (rule safely_andThen[OF run], erule fin)
qed

lemma howMuchTimeFromNow_range:
  "howMuchTimeFromNow now when = (sec, nsec) \<Longrightarrow> 0 \<le> sec \<and> 0 \<le> nsec \<and> nsec < 1000000000 \<and>
     sec * 1000000 + nsec div 1000 = max 100 (when - now)"
proof -
  assume "howMuchTimeFromNow now when = (sec, nsec)"
  then have s: "sec = max 100 (when - now) div 1000000" "nsec = (max 100 (when - now) mod 1000000) * 1000"
    by (auto simp: howMuchTimeFromNow_def Let_def kMicroSecondsPerSecond_def max_def split: if_splits)
  have "0 \<le> sec" unfolding s(1) by (rule pos_imp_zdiv_nonneg_iff[THEN iffD2]) simp_all
  moreover have "0 \<le> nsec" "nsec < 1000000000"
    unfolding s(2) using pos_mod_bound[of 1000000 "max 100 (when - now)"]
    by (simp_all add: zero_le_mult_iff)
  moreover have "sec * 1000000 + nsec div 1000 = max 100 (when - now)"
    unfolding s by (simp add: mult.commute)
  ultimately show ?thesis by simp
qed

text \<open>(C23) The two sets of the timer queue stay consistent: adding a timer, cancelling any timer,
  existing or not, and handling an expiry with callbacks that add and cancel timers themselves, never
  fail one of the assertions or touch a deleted timer; the only possible failure is running out of
  memory. Afterwards both sets describe the same timers, and the timer descriptor is armed no later
  than the earliest expiration, so no timer is forgotten. The relative time it is armed with is a
  normalised, positive \<^verbatim>\<open>timespec\<close> of at least 100 microseconds.\<close>

theorem timer_queue_consistent:
  assumes "tq_ok q" "new_ok new" "0 < when" "repeat \<Longrightarrow> 0 \<le> delta" "0 < now"
    "\<And>tid a. a \<in> set (cb tid) \<Longrightarrow> op_ok a"
  shows "safely (addTimer new when delta repeat q) (\<lambda>(tid, q'). tq_ok q' \<and> (when, fst tid) \<in> set (tq_timers q')) \<and>
    (\<exists>q'. cancelInLoop tid q = Inr q' \<and> tq_ok q' \<and> tid \<notin> set (tq_active q')) \<and>
    safely (tq_handleRead new cb now q) (\<lambda>(expired, q'). tq_ok q') \<and>
    (case howMuchTimeFromNow now when of (sec, nsec) \<Rightarrow> 0 \<le> sec \<and> 0 \<le> nsec \<and> nsec < 1000000000 \<and>
       sec * 1000000 + nsec div 1000 = max 100 (when - now))"
proof (intro conjI)
  have q: "tq_inv {} q" "armed_ok q" "\<not> tq_calling q" using assms(1) by (simp_all add: tq_ok_def)
  show "safely (addTimer new when delta repeat q) (\<lambda>(tid, q'). tq_ok q' \<and> (when, fst tid) \<in> set (tq_timers q'))"
    by (rule safely_mono[OF addTimer_ok[OF q(1) assms(2,3)]]) (use assms(4) q in \<open>auto simp: tq_ok_def keeps_def\<close>)
  show "\<exists>q'. cancelInLoop tid q = Inr q' \<and> tq_ok q' \<and> tid \<notin> set (tq_active q')"
    using cancel_ok[OF q(1), of tid] q by (auto simp: tq_ok_def keeps_def)
  show "safely (tq_handleRead new cb now q) (\<lambda>(expired, q'). tq_ok q')"
    by (rule safely_mono[OF handleRead_ok[OF assms(1,2) _ assms(5)]]) (use assms(6) in auto)
  show "case howMuchTimeFromNow now when of (sec, nsec) \<Rightarrow> 0 \<le> sec \<and> 0 \<le> nsec \<and> nsec < 1000000000 \<and>
       sec * 1000000 + nsec div 1000 = max 100 (when - now)"
    using howMuchTimeFromNow_range[of now "when"] by (auto split: prod.splits)
qed

text \<open>A queue with one repeating timer, and an allocator with two cells.\<close>

definition demo_new :: allocator where
  "demo_new h = (if h 1 = None then Some 1 else if h 2 = None then Some 2 else None)"

definition demo_tq :: timer_queue where
  "demo_tq = \<lparr>tq_heap = [1 \<mapsto> Timer_ctor 100 50 True 1], tq_numCreated = 1, tq_timers = [(100, 1)],
     tq_active = [(1, 1)], tq_calling = False, tq_canceling = [], tq_armed = Some 100\<rparr>"

lemma demo_tq_ok: "tq_ok demo_tq" "new_ok demo_new"
  by (auto simp: tq_ok_def tq_inv_def armed_ok_def demo_tq_def Timer_ctor_def UINTPTR_MAX_def new_ok_def
      demo_new_def split: if_splits)

theorem timer_queue_consistent_witness:
  "\<exists>tid q'. addTimer demo_new 80 0 False demo_tq = Inr (tid, q') \<and> tq_ok q'"
proof -
  have "\<exists>r. addTimer demo_new 80 0 False demo_tq = Inr r"
    by (simp add: addTimer_def demo_new_def demo_tq_def addTimerInLoop_def tq_insert_def check_sizes_def
        deref_def set_insert_def insort_insert_key_def Timer_ctor_def resetTimerfd_def)
  with timer_queue_consistent[OF demo_tq_ok, of 80 False 0 1 "\<lambda>_. []"] show ?thesis by auto
qed

text \<open>(C24) What an expiry does. The callbacks that run are those of exactly the timers due at \<open>now\<close>, each
  once, in order of expiration; a repeating timer that no callback cancelled is scheduled again at
  \<open>now\<close> plus its interval, and every other expired timer is deleted, in particular a repeating timer
  cancelled from its own callback.\<close>

theorem expired_timers_run_once:
  assumes "tq_ok q" "new_ok new" "\<And>tid a. a \<in> set (cb tid) \<Longrightarrow> op_ok a" "0 < now"
    "tq_handleRead new cb now q = Inr (expired, q')"
  shows "expired = filter (\<lambda>(t, p). t \<le> now) (tq_timers q) \<and> sorted expired \<and> distinct expired \<and>
    (\<forall>t p tm. (t, p) \<in> set expired \<longrightarrow> tq_heap q p = Some tm \<longrightarrow>
      (if tm_repeat tm \<and> (p, tm_sequence tm) \<notin> cb_cancels cb q expired
       then (now + tm_delta tm, p) \<in> set (tq_timers q') else tq_heap q' p = None))"
proof -
  have "\<forall>tid. \<forall>a \<in> set (cb tid). op_ok a" using assms(3) by blast
  from handleRead_ok[OF assms(1,2) this assms(4)] assms(5)
  have *: "expired = filter (\<lambda>(t, p). t \<le> now) (tq_timers q)"
    "\<forall>p tm. p \<in> snd ` set expired \<longrightarrow> tq_heap q p = Some tm \<longrightarrow>
      (if tm_repeat tm \<and> (p, tm_sequence tm) \<notin> cb_cancels cb q expired
       then (now + tm_delta tm, p) \<in> set (tq_timers q') else tq_heap q' p = None)" by simp_all
  have "sorted (tq_timers q)" "distinct (tq_timers q)" using assms(1) tq_invD(1,2) by (auto simp: tq_ok_def)
  then have "sorted expired" "distinct expired" unfolding *(1) by (simp_all add: sorted_wrt_filter)
  moreover have "p \<in> snd ` set expired" if "(t, p) \<in> set expired" for t p using that by force
  ultimately show ?thesis using * by blast
qed

theorem expired_timers_run_once_witness:
  "\<exists>q'. tq_handleRead demo_new (\<lambda>_. []) 120 demo_tq = Inr ([(100, 1)], q') \<and> (170, 1) \<in> set (tq_timers q')"
proof -
  have "\<exists>r. tq_handleRead demo_new (\<lambda>_. []) 120 demo_tq = Inr r"
    by (simp add: tq_handleRead_def getExpired_def demo_tq_def check_sizes_def erase_active_def deref_def
        set_erase_def Timer_ctor_def UINTPTR_MAX_def run_timer_def tq_reset_def reset_entry_def timer_restart_def
        addTime_def tq_insert_def set_insert_def insort_insert_key_def timestamp_valid_def)
  then obtain expired q' where r: "tq_handleRead demo_new (\<lambda>_. []) 120 demo_tq = Inr (expired, q')" by auto
  from expired_timers_run_once[OF demo_tq_ok _ _ r]
  show ?thesis using r by (auto simp: demo_tq_def Timer_ctor_def cb_cancels_def)
qed

end
