(* ===== verification/Net_EventLoop.thy ===== *)
theory Net_EventLoop
  imports Net_TimerQueue
begin

text \<open>
  \<^verbatim>\<open>net/EventLoop.{h,cc}\<close>: the loop of a thread and the queue of functors other threads hand to it. The
  pollers, the channels and the timers it drives are in their own theories; a channel and a functor are
  numbers here, and what a callback does is the list of calls it makes on the loop.

  The loop thread and the other threads interleave at the granularity of the locks: the loop is a step
  relation over the points of \<^verbatim>\<open>loop()\<close>, and another thread that queues a functor or quits is, between that
  and its write to the wakeup descriptor, counted in \<open>el_wakers\<close>.
\<close>

section \<open>State\<close>

datatype loop_point =
    Outside            \<comment> \<open>not in \<^verbatim>\<open>loop()\<close>\<close>
  | AtTest             \<comment> \<open>before \<^verbatim>\<open>while (!quit_)\<close>\<close>
  | AtPoll             \<comment> \<open>in \<^verbatim>\<open>poll\<close>\<close>
  | InEvents "nat list"    \<comment> \<open>the active channels still to be handled\<close>
  | InFunctors "nat list"  \<comment> \<open>the functors taken from the queue still to be run\<close>

text \<open>The calls a callback running in the loop thread makes on the loop.\<close>

datatype loop_action = RunInLoop nat "loop_action list" | QueueInLoop nat | Quit | RemoveChannel nat

record event_loop =
  el_looping :: bool
  el_quit :: bool
  el_eventHandling :: bool
  el_callingPendingFunctors :: bool
  el_iteration :: int
  el_activeChannels :: "nat list"
  el_currentActiveChannel :: "nat option"
  el_pendingFunctors :: "nat list"
  el_eventfd :: nat          \<comment> \<open>the counter of \<^verbatim>\<open>wakeupFd_\<close>\<close>
  el_point :: loop_point
  el_calls :: "loop_action list"  \<comment> \<open>what the running callback has still to do\<close>
  el_wakers :: nat
  el_queued :: "nat list"    \<comment> \<open>every functor queued, in order\<close>
  el_ran :: "nat list"       \<comment> \<open>every functor taken from the queue and run, in order\<close>
  el_early :: bool           \<comment> \<open>the loop thread queued outside \<^verbatim>\<open>loop()\<close>, and that is still pending\<close>

definition EventLoop_ctor :: event_loop where
  "EventLoop_ctor = \<lparr>el_looping = False, el_quit = False, el_eventHandling = False,
     el_callingPendingFunctors = False, el_iteration = 0, el_activeChannels = [], el_currentActiveChannel = None,
     el_pendingFunctors = [], el_eventfd = 0, el_point = Outside, el_calls = [], el_wakers = 0, el_queued = [],
     el_ran = [], el_early = False\<rparr>"

section \<open>The functor queue\<close>

text \<open>\<^verbatim>\<open>wakeup\<close> adds one to the counter of the descriptor; the kernel refuses the write at the largest value.\<close>

definition wakeup :: "event_loop \<Rightarrow> event_loop" where
  "wakeup s = (if el_eventfd s < 2 ^ 64 - 2 then s\<lparr>el_eventfd := el_eventfd s + 1\<rparr> else s)"

text \<open>\<^verbatim>\<open>handleRead\<close>: reading takes the whole counter.\<close>

definition loop_handleRead :: "event_loop \<Rightarrow> event_loop" where
  "loop_handleRead s = s\<lparr>el_eventfd := 0\<rparr>"

definition push_functor :: "nat \<Rightarrow> event_loop \<Rightarrow> event_loop" where
  "push_functor f s = s\<lparr>el_pendingFunctors := el_pendingFunctors s @ [f], el_queued := el_queued s @ [f]\<rparr>"

definition loop_queueInLoop :: "bool \<Rightarrow> nat \<Rightarrow> event_loop \<Rightarrow> event_loop" where
  "loop_queueInLoop inLoopThread f s =
     (let s' = push_functor f s
      in if \<not> inLoopThread \<or> el_callingPendingFunctors s' then wakeup s' else s')"

definition queueSize :: "event_loop \<Rightarrow> nat" where
  "queueSize s = length (el_pendingFunctors s)"

definition loop_quit :: "bool \<Rightarrow> event_loop \<Rightarrow> event_loop" where
  "loop_quit inLoopThread s =
     (let s' = s\<lparr>el_quit := True\<rparr> in if \<not> inLoopThread then wakeup s' else s')"

text \<open>\<^verbatim>\<open>removeChannel\<close>, up to the poller's part: while events are handled, only the channel being handled or
  one that is not active may go.\<close>

definition loop_removeChannel :: "nat \<Rightarrow> event_loop \<Rightarrow> event_loop result" where
  "loop_removeChannel c s =
     andThen (check (el_eventHandling s \<longrightarrow>
       el_currentActiveChannel s = Some c \<or> c \<notin> set (el_activeChannels s))) (\<lambda>_. Inr s)"

text \<open>A call of the running callback. In the loop thread \<^verbatim>\<open>runInLoop\<close> runs the functor at once: its calls come
  first.\<close>

fun loop_call :: "loop_action \<Rightarrow> event_loop \<Rightarrow> event_loop result" where
  "loop_call (RunInLoop f body) s = Inr (s\<lparr>el_calls := body @ el_calls s\<rparr>)"
| "loop_call (QueueInLoop f) s = Inr (let s' = loop_queueInLoop True f s in
     if el_looping s' then s' else s'\<lparr>el_early := True\<rparr>)"
| "loop_call Quit s = Inr (loop_quit True s)"
| "loop_call (RemoveChannel c) s = loop_removeChannel c s"

section \<open>\<^verbatim>\<open>loop()\<close>\<close>

definition loop_enter :: "event_loop \<Rightarrow> event_loop result" where
  "loop_enter s = andThen (check (\<not> el_looping s)) (\<lambda>_.
     Inr (s\<lparr>el_looping := True, el_quit := False, el_point := AtTest\<rparr>))"

definition loop_test :: "event_loop \<Rightarrow> event_loop" where
  "loop_test s = (if \<not> el_quit s then s\<lparr>el_activeChannels := [], el_point := AtPoll\<rparr>
     else s\<lparr>el_looping := False, el_point := Outside\<rparr>)"

text \<open>\<^verbatim>\<open>poll\<close> fills in the active channels.\<close>

definition loop_polled :: "nat list \<Rightarrow> event_loop \<Rightarrow> event_loop" where
  "loop_polled active s = s\<lparr>el_activeChannels := el_activeChannels s @ active, el_iteration := el_iteration s + 1,
     el_eventHandling := True, el_point := InEvents (el_activeChannels s @ active)\<rparr>"

text \<open>The next active channel, number 0 the wakeup channel; without one \<^verbatim>\<open>doPendingFunctors\<close> takes the queue.\<close>

definition loop_dispatch :: "loop_action list \<Rightarrow> nat \<Rightarrow> nat list \<Rightarrow> event_loop \<Rightarrow> event_loop" where
  "loop_dispatch body c rest s =
     (let s' = s\<lparr>el_currentActiveChannel := Some c, el_point := InEvents rest\<rparr>
      in if c = 0 then loop_handleRead s' else s'\<lparr>el_calls := body\<rparr>)"

definition loop_take_functors :: "event_loop \<Rightarrow> event_loop" where
  "loop_take_functors s = s\<lparr>el_currentActiveChannel := None, el_eventHandling := False,
     el_callingPendingFunctors := True, el_pendingFunctors := [], el_early := False,
     el_point := InFunctors (el_pendingFunctors s)\<rparr>"

definition loop_run_functor :: "loop_action list \<Rightarrow> nat \<Rightarrow> nat list \<Rightarrow> event_loop \<Rightarrow> event_loop" where
  "loop_run_functor body f rest s = s\<lparr>el_point := InFunctors rest, el_ran := el_ran s @ [f], el_calls := body\<rparr>"

definition loop_functors_done :: "event_loop \<Rightarrow> event_loop" where
  "loop_functors_done s = s\<lparr>el_callingPendingFunctors := False, el_point := AtTest\<rparr>"

section \<open>Steps\<close>

inductive el_step :: "event_loop \<Rightarrow> event_loop result \<Rightarrow> bool" where
  \<comment> \<open>the loop thread\<close>
  outside: "el_point s = Outside \<Longrightarrow> el_calls s = [] \<Longrightarrow> el_step s (Inr (s\<lparr>el_calls := body\<rparr>))"
| enter: "el_point s = Outside \<Longrightarrow> el_calls s = [] \<Longrightarrow> el_step s (loop_enter s)"
| call: "el_calls s = x # xs \<Longrightarrow> el_step s (loop_call x (s\<lparr>el_calls := xs\<rparr>))"
| test: "el_point s = AtTest \<Longrightarrow> el_step s (Inr (loop_test s))"
| polled: "el_point s = AtPoll \<Longrightarrow> el_step s (Inr (loop_polled active s))"
| dispatch: "el_point s = InEvents (c # rest) \<Longrightarrow> el_calls s = [] \<Longrightarrow> el_step s (Inr (loop_dispatch body c rest s))"
| take: "el_point s = InEvents [] \<Longrightarrow> el_calls s = [] \<Longrightarrow> el_step s (Inr (loop_take_functors s))"
| run: "el_point s = InFunctors (f # rest) \<Longrightarrow> el_calls s = [] \<Longrightarrow> el_step s (Inr (loop_run_functor body f rest s))"
| finish: "el_point s = InFunctors [] \<Longrightarrow> el_calls s = [] \<Longrightarrow> el_step s (Inr (loop_functors_done s))"
  \<comment> \<open>another thread: \<^verbatim>\<open>queueInLoop\<close> and \<^verbatim>\<open>quit\<close>, each with its \<^verbatim>\<open>wakeup\<close> later, and a \<^verbatim>\<open>wakeup\<close> of its own\<close>
| other_queue: "el_step s (Inr ((push_functor f s)\<lparr>el_wakers := el_wakers s + 1\<rparr>))"
| other_quit: "el_step s (Inr (s\<lparr>el_quit := True, el_wakers := el_wakers s + 1\<rparr>))"
| other_wakeup: "0 < el_wakers s \<Longrightarrow> el_step s (Inr (wakeup (s\<lparr>el_wakers := el_wakers s - 1\<rparr>)))"
| other_write: "el_step s (Inr (wakeup s))"

inductive el_reach :: "event_loop \<Rightarrow> bool" where
  start: "el_reach EventLoop_ctor"
| step: "el_reach s \<Longrightarrow> el_step s (Inr s') \<Longrightarrow> el_reach s'"

lemmas el_defs = wakeup_def loop_handleRead_def push_functor_def loop_queueInLoop_def loop_quit_def
  loop_removeChannel_def loop_enter_def loop_test_def loop_polled_def loop_dispatch_def loop_take_functors_def
  loop_run_functor_def loop_functors_done_def EventLoop_ctor_def Let_def

text \<open>The two steps of another thread are its call.\<close>

lemma other_thread_calls:
  "wakeup (push_functor f s) = loop_queueInLoop False f s" "wakeup (s\<lparr>el_quit := True\<rparr>) = loop_quit False s"
  by (simp_all add: loop_queueInLoop_def loop_quit_def Let_def)

section \<open>Invariant\<close>

definition taken :: "loop_point \<Rightarrow> nat list" where
  "taken p = (case p of InFunctors fs \<Rightarrow> fs | _ \<Rightarrow> [])"

definition in_events :: "loop_point \<Rightarrow> bool" where
  "in_events p \<longleftrightarrow> (case p of InEvents _ \<Rightarrow> True | _ \<Rightarrow> False)"

definition in_functors :: "loop_point \<Rightarrow> bool" where
  "in_functors p \<longleftrightarrow> (case p of InFunctors _ \<Rightarrow> True | _ \<Rightarrow> False)"

lemmas point_defs = taken_def in_events_def in_functors_def

definition will_wake :: "event_loop \<Rightarrow> bool" where
  "will_wake s \<longleftrightarrow> 0 < el_eventfd s \<or> 0 < el_wakers s"

definition el_inv :: "event_loop \<Rightarrow> bool" where
  "el_inv s \<longleftrightarrow>
     el_looping s = (el_point s \<noteq> Outside) \<and>
     el_eventHandling s = in_events (el_point s) \<and>
     el_callingPendingFunctors s = in_functors (el_point s) \<and>
     (el_point s \<in> {AtTest, AtPoll} \<longrightarrow> el_calls s = []) \<and>
     el_queued s = el_ran s @ taken (el_point s) @ el_pendingFunctors s \<and>
     (el_pendingFunctors s \<noteq> [] \<and> \<not> el_early s \<and> \<not> in_events (el_point s) \<longrightarrow> will_wake s) \<and>
     (el_point s = AtPoll \<and> el_quit s \<longrightarrow> will_wake s)"

lemma el_inv_ctor: "el_inv EventLoop_ctor"
  by (simp add: el_inv_def EventLoop_ctor_def point_defs)

lemma loop_removeChannel_Inr: "loop_removeChannel c s = Inr s' \<Longrightarrow> s' = s"
  by (auto simp: loop_removeChannel_def result_simps)

lemma loop_enter_Inr:
  "loop_enter s = Inr s' \<Longrightarrow> s' = s\<lparr>el_looping := True, el_quit := False, el_point := AtTest\<rparr>"
  by (auto simp: loop_enter_def result_simps)

lemma point_simps [simp]:
  "taken Outside = []" "taken AtTest = []" "taken AtPoll = []" "taken (InEvents cs) = []" "taken (InFunctors fs) = fs"
  "\<not> in_events Outside" "\<not> in_events AtTest" "\<not> in_events AtPoll" "in_events (InEvents cs)" "\<not> in_events (InFunctors fs)"
  "\<not> in_functors Outside" "\<not> in_functors AtTest" "\<not> in_functors AtPoll" "\<not> in_functors (InEvents cs)"
  "in_functors (InFunctors fs)"
  by (simp_all add: point_defs)

lemma wakeup_sel [simp]:
  "0 < el_eventfd (wakeup s)" "el_point (wakeup s) = el_point s" "el_looping (wakeup s) = el_looping s"
  "el_calls (wakeup s) = el_calls s" "el_queued (wakeup s) = el_queued s" "el_ran (wakeup s) = el_ran s"
  "el_pendingFunctors (wakeup s) = el_pendingFunctors s" "el_early (wakeup s) = el_early s"
  "el_eventHandling (wakeup s) = el_eventHandling s" "el_quit (wakeup s) = el_quit s"
  "el_callingPendingFunctors (wakeup s) = el_callingPendingFunctors s" "el_wakers (wakeup s) = el_wakers s"
  by (simp_all add: wakeup_def)

lemma push_functor_sel [simp]:
  "el_eventfd (push_functor f s) = el_eventfd s" "el_point (push_functor f s) = el_point s"
  "el_looping (push_functor f s) = el_looping s" "el_calls (push_functor f s) = el_calls s"
  "el_queued (push_functor f s) = el_queued s @ [f]" "el_ran (push_functor f s) = el_ran s"
  "el_pendingFunctors (push_functor f s) = el_pendingFunctors s @ [f]" "el_early (push_functor f s) = el_early s"
  "el_eventHandling (push_functor f s) = el_eventHandling s" "el_quit (push_functor f s) = el_quit s"
  "el_callingPendingFunctors (push_functor f s) = el_callingPendingFunctors s"
  "el_wakers (push_functor f s) = el_wakers s"
  by (simp_all add: push_functor_def)

lemma loop_call_inv:
  assumes "loop_call x (s\<lparr>el_calls := xs\<rparr>) = Inr s'" "el_calls s = x # xs" "el_inv s"
  shows "el_inv s'"
proof (cases x)
  case (RunInLoop f body)
  then have "s' = s\<lparr>el_calls := body @ xs\<rparr>" using assms(1) by simp
  then show ?thesis using assms(2,3) by (simp add: el_inv_def will_wake_def)
next
  case (QueueInLoop f)
  let ?s = "push_functor f (s\<lparr>el_calls := xs\<rparr>)"
  have pt: "el_point s \<noteq> AtTest" "el_point s \<noteq> AtPoll" using assms(2,3) by (auto simp: el_inv_def)
  have "s' = (if in_functors (el_point s) then wakeup ?s else if el_point s = Outside then ?s\<lparr>el_early := True\<rparr> else ?s)"
    using QueueInLoop assms(1,3) by (cases "el_point s") (auto simp: el_inv_def loop_queueInLoop_def Let_def)
  then show ?thesis using assms(3) pt by (cases "el_point s") (simp_all add: el_inv_def will_wake_def)
next
  case Quit
  then have "s' = s\<lparr>el_calls := xs, el_quit := True\<rparr>" using assms(1) by (simp add: loop_quit_def Let_def)
  then show ?thesis using assms(2,3) by (auto simp add: el_inv_def will_wake_def)
next
  case (RemoveChannel c)
  then have "s' = s\<lparr>el_calls := xs\<rparr>" using assms(1) by (auto dest: loop_removeChannel_Inr)
  then show ?thesis using assms(2,3) by (simp add: el_inv_def will_wake_def)
qed

lemma el_step_inv:
  assumes "el_step s (Inr s')" "el_inv s"
  shows "el_inv s'"
  using assms(1)
proof (cases rule: el_step.cases)
  case (call x xs)
  then show ?thesis using loop_call_inv[of x xs s s'] assms(2) by simp
next
  case enter
  then have "s' = s\<lparr>el_looping := True, el_quit := False, el_point := AtTest\<rparr>" using loop_enter_Inr[of s s'] by simp
  then show ?thesis using assms(2) enter by (simp add: el_inv_def will_wake_def)
next
  case other_queue
  then show ?thesis using assms(2) by (simp add: el_inv_def will_wake_def)
next
  case other_wakeup
  then show ?thesis using assms(2) by (simp add: el_inv_def will_wake_def)
next
  case other_write
  then show ?thesis using assms(2) by (simp add: el_inv_def will_wake_def)
next
  case (dispatch c rest body)
  then show ?thesis using assms(2) by (simp add: el_inv_def will_wake_def loop_dispatch_def loop_handleRead_def Let_def)
qed (use assms(2) in \<open>simp_all add: el_inv_def loop_test_def loop_polled_def loop_take_functors_def
  loop_run_functor_def loop_functors_done_def will_wake_def\<close>)

lemma el_reach_inv: "el_reach s \<Longrightarrow> el_inv s"
  by (induction rule: el_reach.induct) (simp_all add: el_inv_ctor el_step_inv)

lemma loop_call_fails:
  assumes "loop_call x s = Inl e"
  shows "\<exists>c. x = RemoveChannel c \<and> el_eventHandling s \<and> el_currentActiveChannel s \<noteq> Some c \<and>
    c \<in> set (el_activeChannels s)"
proof (cases x)
  case (RemoveChannel c)
  then show ?thesis using assms by (auto simp: loop_removeChannel_def check_def split: if_splits)
qed (use assms in \<open>simp_all add: Let_def\<close>)

lemma el_step_fails:
  assumes "el_step s (Inl e)" "el_inv s"
  shows "\<exists>c xs. el_calls s = RemoveChannel c # xs \<and> el_eventHandling s \<and>
    el_currentActiveChannel s \<noteq> Some c \<and> c \<in> set (el_activeChannels s)"
  using assms(1)
proof (cases rule: el_step.cases)
  case enter
  then have "\<not> el_looping s" using assms(2) by (simp add: el_inv_def)
  then show ?thesis using enter(1) by (simp add: loop_enter_def check_def)
next
  case (call x xs)
  then show ?thesis using loop_call_fails[of x "s\<lparr>el_calls := xs\<rparr>" e] by auto
qed


text \<open>A loop in \<^verbatim>\<open>poll\<close> when another thread has queued a functor and not yet woken it.\<close>

definition demo_polling :: event_loop where
  "demo_polling = loop_test (projr (loop_enter EventLoop_ctor))"

lemma demo_polling_reach: "el_reach demo_polling"
proof -
  have "el_reach (projr (loop_enter EventLoop_ctor))"
    using el_step.enter[of EventLoop_ctor] by (intro el_reach.step[OF el_reach.start]) (simp add: el_defs result_simps)
  from el_reach.step[OF this el_step.test] show ?thesis by (simp add: demo_polling_def el_defs result_simps)
qed


text \<open>Two ways to wait for nothing: \<^verbatim>\<open>loop()\<close> forgets a \<^verbatim>\<open>quit()\<close> that came before it, and a functor its own
  thread queued before it does not wake it.\<close>

lemma quit_before_loop_lost:
  "\<exists>s. loop_enter (loop_quit inLoopThread EventLoop_ctor) = Inr s \<and> \<not> el_quit s \<and> el_point (loop_test s) = AtPoll"
  by (simp add: el_defs result_simps)

lemma early_functor_waits:
  "\<exists>s. el_reach s \<and> el_point s = AtPoll \<and> el_pendingFunctors s = [f] \<and> el_eventfd s = 0 \<and> el_wakers s = 0"
proof -
  let ?a = "EventLoop_ctor\<lparr>el_calls := [QueueInLoop f]\<rparr>"
  let ?b = "projr (loop_call (QueueInLoop f) (?a\<lparr>el_calls := []\<rparr>))"
  let ?c = "projr (loop_enter ?b)"
  have "el_reach ?a" by (rule el_reach.step[OF el_reach.start el_step.outside]) (simp_all add: EventLoop_ctor_def)
  then have "el_reach ?b" by (rule el_reach.step) (use el_step.call[of ?a "QueueInLoop f" "[]"] in simp)
  then have "el_reach ?c"
    by (rule el_reach.step) (use el_step.enter[of ?b] in \<open>simp add: el_defs result_simps\<close>)
  from el_reach.step[OF this el_step.test] have "el_reach (loop_test ?c)" by (simp add: el_defs result_simps)
  moreover have "el_point (loop_test ?c) = AtPoll" "el_pendingFunctors (loop_test ?c) = [f]"
    "el_eventfd (loop_test ?c) = 0" "el_wakers (loop_test ?c) = 0" by (simp_all add: el_defs result_simps)
  ultimately show ?thesis by blast
qed

section \<open>Timers\<close>

text \<open>The timers of a loop, with the time and the delays in microseconds; an interval of 0 does not repeat.\<close>

definition runAt :: "allocator \<Rightarrow> int \<Rightarrow> timer_queue \<Rightarrow> (active_timer \<times> timer_queue) result" where
  "runAt new time q = addTimer new time 0 False q"

definition runAfter :: "allocator \<Rightarrow> int \<Rightarrow> int \<Rightarrow> timer_queue \<Rightarrow> (active_timer \<times> timer_queue) result" where
  "runAfter new now delay q = runAt new (addTime now delay) q"

definition runEvery :: "allocator \<Rightarrow> int \<Rightarrow> int \<Rightarrow> timer_queue \<Rightarrow> (active_timer \<times> timer_queue) result" where
  "runEvery new now interval q = addTimer new (addTime now interval) interval (0 < interval) q"

definition loop_cancel :: "active_timer \<Rightarrow> timer_queue \<Rightarrow> timer_queue result" where
  "loop_cancel tid q = cancelInLoop tid q"

text \<open>A delayed callback is in the queue for its time, and cancelling it takes it out.\<close>

lemma runAfter_cancel:
  assumes "tq_inv {} q" "new_ok new" "0 < now + delay"
  shows "safely (runAfter new now delay q) (\<lambda>(tid, q'). (now + delay, fst tid) \<in> set (tq_timers q') \<and>
    (\<exists>q''. loop_cancel tid q' = Inr q'' \<and> tid \<notin> set (tq_active q'')))"
  unfolding runAfter_def runAt_def loop_cancel_def addTime_def
  by (rule safely_mono[OF addTimer_ok[OF assms(1,2,3)]]) (auto dest: cancel_ok)

end
