(* ===== verification/Base_Queues.thy ===== *)
theory Base_Queues
  imports Prelude "HOL-Library.Multiset"
begin

text \<open>
  The monitors of \<^verbatim>\<open>base\<close>: \<^verbatim>\<open>BlockingQueue.h\<close>, \<^verbatim>\<open>BoundedBlockingQueue.h\<close>, the task queue of \<^verbatim>\<open>ThreadPool.{h,cc}\<close> and
  \<^verbatim>\<open>CountDownLatch.cc\<close>. A thread in one of their operations is at the lock, about to test its condition, or
  waits on a condition variable; threads are counted, those that put with their elements. A step is what one
  thread does while it holds the lock. Waking up without a notification is always possible.

  The three queues differ in when they are full and in whether they can be stopped: they are instances of
  the locale \<open>monitor_queue\<close>.
\<close>

section \<open>The monitor\<close>

record 'a monitor =
  mq_queue :: "'a list"
  mq_running :: bool
  mq_putting :: "'a multiset"    \<comment> \<open>at the lock, in \<^verbatim>\<open>put\<close> or \<^verbatim>\<open>run\<close>\<close>
  mq_putWait :: "'a multiset"    \<comment> \<open>waiting on \<^verbatim>\<open>notFull_\<close>\<close>
  mq_taking :: nat               \<comment> \<open>at the lock, in \<^verbatim>\<open>take\<close>\<close>
  mq_takeWait :: nat             \<comment> \<open>waiting on \<^verbatim>\<open>notEmpty_\<close>\<close>
  mq_added :: "'a list"          \<comment> \<open>every element added\<close>
  mq_taken :: "'a list"          \<comment> \<open>every element taken\<close>

definition monitor_init :: "'a monitor" where
  "monitor_init = \<lparr>mq_queue = [], mq_running = True, mq_putting = {#}, mq_putWait = {#}, mq_taking = 0,
     mq_takeWait = 0, mq_added = [], mq_taken = []\<rparr>"

text \<open>\<^verbatim>\<open>notify\<close> on \<^verbatim>\<open>notEmpty_\<close>: a waiting thread, if there is one, goes to the lock.\<close>

definition notify_notEmpty :: "'a monitor \<Rightarrow> 'a monitor" where
  "notify_notEmpty s = (if 0 < mq_takeWait s
     then s\<lparr>mq_takeWait := mq_takeWait s - 1, mq_taking := mq_taking s + 1\<rparr> else s)"

text \<open>\<^verbatim>\<open>notify\<close> on \<^verbatim>\<open>notFull_\<close>, which may wake any of the waiting threads: \<open>w\<close>.\<close>

definition notify_notFull :: "'a option \<Rightarrow> 'a monitor \<Rightarrow> 'a monitor" where
  "notify_notFull w s = (case w of None \<Rightarrow> s
   | Some y \<Rightarrow> s\<lparr>mq_putWait := mq_putWait s - {#y#}, mq_putting := mq_putting s + {#y#}\<rparr>)"

definition may_wake :: "'a option \<Rightarrow> 'a monitor \<Rightarrow> bool" where
  "may_wake w s = (case w of None \<Rightarrow> mq_putWait s = {#} | Some y \<Rightarrow> y \<in># mq_putWait s)"

text \<open>A thread at the lock puts: it waits while the queue is full.\<close>

definition monitor_put :: "('a list \<Rightarrow> bool) \<Rightarrow> 'a \<Rightarrow> 'a monitor \<Rightarrow> 'a monitor result" where
  "monitor_put full x s =
     (let s = s\<lparr>mq_putting := mq_putting s - {#x#}\<rparr>
      in if full (mq_queue s) then Inr (s\<lparr>mq_putWait := mq_putWait s + {#x#}\<rparr>)
         else andThen (check (\<not> full (mq_queue s))) (\<lambda>_.
              Inr (notify_notEmpty (s\<lparr>mq_queue := mq_queue s @ [x], mq_added := mq_added s @ [x]\<rparr>))))"

text \<open>A thread at the lock takes: it waits while the queue is empty and the pool runs. A queue always runs; one
  without a bound has no thread waiting for room, so that it makes no difference that it does not notify.\<close>

definition monitor_take :: "'a option \<Rightarrow> 'a monitor \<Rightarrow> 'a monitor result" where
  "monitor_take w s =
     (let s = s\<lparr>mq_taking := mq_taking s - 1\<rparr>
      in if mq_queue s = [] \<and> mq_running s then Inr (s\<lparr>mq_takeWait := mq_takeWait s + 1\<rparr>)
         else (case mq_queue s of [] \<Rightarrow> Inr s
               | y # ys \<Rightarrow> Inr (notify_notFull w (s\<lparr>mq_queue := ys, mq_taken := mq_taken s @ [y]\<rparr>))))"

section \<open>The queues\<close>

definition bounded_full :: "nat \<Rightarrow> 'a list \<Rightarrow> bool" where
  "bounded_full maxSize q \<longleftrightarrow> length q = maxSize"

definition blocking_full :: "'a list \<Rightarrow> bool" where
  "blocking_full q \<longleftrightarrow> False"

definition isFull :: "nat \<Rightarrow> 'a list \<Rightarrow> bool" where
  "isFull maxQueueSize q \<longleftrightarrow> 0 < maxQueueSize \<and> maxQueueSize \<le> length q"

text \<open>The operations of the queue without a bound and of the pool, as they are written: no test for room and no
  notification of producers, or only with a bound.\<close>

definition blocking_put :: "'a \<Rightarrow> 'a monitor \<Rightarrow> 'a monitor result" where
  "blocking_put x s = (let s = s\<lparr>mq_putting := mq_putting s - {#x#}\<rparr>
     in Inr (notify_notEmpty (s\<lparr>mq_queue := mq_queue s @ [x], mq_added := mq_added s @ [x]\<rparr>)))"

definition blocking_take :: "'a monitor \<Rightarrow> 'a monitor result" where
  "blocking_take s = (let s = s\<lparr>mq_taking := mq_taking s - 1\<rparr>
     in if mq_queue s = [] then Inr (s\<lparr>mq_takeWait := mq_takeWait s + 1\<rparr>)
        else andThen (check (mq_queue s \<noteq> [])) (\<lambda>_.
             Inr (s\<lparr>mq_queue := tl (mq_queue s), mq_taken := mq_taken s @ [hd (mq_queue s)]\<rparr>)))"

definition pool_run :: "nat \<Rightarrow> 'a \<Rightarrow> 'a monitor \<Rightarrow> 'a monitor result" where
  "pool_run maxQueueSize task s = (let s = s\<lparr>mq_putting := mq_putting s - {#task#}\<rparr>
     in if isFull maxQueueSize (mq_queue s) then Inr (s\<lparr>mq_putWait := mq_putWait s + {#task#}\<rparr>)
        else andThen (check (\<not> isFull maxQueueSize (mq_queue s))) (\<lambda>_.
             Inr (notify_notEmpty (s\<lparr>mq_queue := mq_queue s @ [task], mq_added := mq_added s @ [task]\<rparr>))))"

definition pool_take :: "nat \<Rightarrow> 'a option \<Rightarrow> 'a monitor \<Rightarrow> 'a monitor result" where
  "pool_take maxQueueSize w s = (let s = s\<lparr>mq_taking := mq_taking s - 1\<rparr>
     in if mq_queue s = [] \<and> mq_running s then Inr (s\<lparr>mq_takeWait := mq_takeWait s + 1\<rparr>)
        else if mq_queue s \<noteq> [] then
          let s = s\<lparr>mq_queue := tl (mq_queue s), mq_taken := mq_taken s @ [hd (mq_queue s)]\<rparr>
          in Inr (if 0 < maxQueueSize then notify_notFull w s else s)
        else Inr s)"

text \<open>\<^verbatim>\<open>stop\<close>: the consumers are woken, the producers are not.\<close>

definition pool_stop :: "'a monitor \<Rightarrow> 'a monitor" where
  "pool_stop s = s\<lparr>mq_running := False, mq_taking := mq_taking s + mq_takeWait s, mq_takeWait := 0\<rparr>"

section \<open>Steps\<close>

inductive mq_step :: "('a list \<Rightarrow> bool) \<Rightarrow> 'a monitor \<Rightarrow> 'a monitor result \<Rightarrow> bool" for full where
  call_put: "mq_step full s (Inr (s\<lparr>mq_putting := mq_putting s + {#x#}\<rparr>))"
| call_take: "mq_running s \<Longrightarrow> mq_step full s (Inr (s\<lparr>mq_taking := mq_taking s + 1\<rparr>))"
| put: "x \<in># mq_putting s \<Longrightarrow> mq_step full s (monitor_put full x s)"
| take: "0 < mq_taking s \<Longrightarrow> may_wake w s \<Longrightarrow> mq_step full s (monitor_take w s)"
| spurious_put: "x \<in># mq_putWait s \<Longrightarrow>
    mq_step full s (Inr (s\<lparr>mq_putWait := mq_putWait s - {#x#}, mq_putting := mq_putting s + {#x#}\<rparr>))"
| spurious_take: "0 < mq_takeWait s \<Longrightarrow>
    mq_step full s (Inr (s\<lparr>mq_takeWait := mq_takeWait s - 1, mq_taking := mq_taking s + 1\<rparr>))"

text \<open>A queue, and a pool, which can be stopped.\<close>

inductive queue_reach :: "('a list \<Rightarrow> bool) \<Rightarrow> 'a monitor \<Rightarrow> bool" for full where
  init: "queue_reach full monitor_init"
| step: "queue_reach full s \<Longrightarrow> mq_step full s (Inr s') \<Longrightarrow> queue_reach full s'"

inductive pool_reach :: "nat \<Rightarrow> 'a monitor \<Rightarrow> bool" for m where
  init: "pool_reach m monitor_init"
| step: "pool_reach m s \<Longrightarrow> mq_step (isFull m) s (Inr s') \<Longrightarrow> pool_reach m s'"
| stop: "pool_reach m s \<Longrightarrow> pool_reach m (pool_stop s)"

section \<open>The contract\<close>

text \<open>A queue with a capacity, or without one (\<open>None\<close>): it is full when the capacity is reached.\<close>

definition within :: "nat option \<Rightarrow> 'a list \<Rightarrow> bool" where
  "within cap q = (case cap of None \<Rightarrow> True | Some c \<Rightarrow> length q \<le> c)"

text \<open>Whenever threads wait for an element, the elements present have threads at the lock to take them; whenever
  threads wait for room, the room present has threads at the lock to fill it.\<close>

definition mq_inv :: "nat option \<Rightarrow> 'a monitor \<Rightarrow> bool" where
  "mq_inv cap s \<longleftrightarrow> mq_added s = mq_taken s @ mq_queue s \<and> within cap (mq_queue s) \<and>
     (0 < mq_takeWait s \<longrightarrow> length (mq_queue s) \<le> mq_taking s) \<and> (\<not> mq_running s \<longrightarrow> mq_takeWait s = 0) \<and>
     (mq_putWait s \<noteq> {#} \<longrightarrow> (case cap of None \<Rightarrow> False | Some c \<Rightarrow> c - length (mq_queue s) \<le> size (mq_putting s)))"

lemma mq_inv_init: "mq_inv cap monitor_init"
  by (simp add: mq_inv_def monitor_init_def within_def split: option.splits)

lemma mq_inv_stop: "mq_inv cap s \<Longrightarrow> mq_inv cap (pool_stop s)"
  by (simp add: mq_inv_def pool_stop_def split: option.splits)

locale monitor_queue =
  fixes full :: "'a list \<Rightarrow> bool" and cap :: "nat option"
  assumes full_cap: "within cap q \<Longrightarrow> full q \<longleftrightarrow> cap = Some (length q)"
begin

lemma put_ok:
  assumes "mq_inv cap s" "x \<in># mq_putting s"
  shows "\<exists>s'. monitor_put full x s = Inr s' \<and> mq_inv cap s'"
proof (cases "full (mq_queue s)")
  case True
  then have "cap = Some (length (mq_queue s))" using full_cap[of "mq_queue s"] assms(1) by (simp add: mq_inv_def)
  then show ?thesis using True assms(1) by (simp add: monitor_put_def mq_inv_def Let_def within_def)
next
  case False
  have w: "within cap (mq_queue s)" using assms(1) by (simp add: mq_inv_def)
  then have "cap \<noteq> Some (length (mq_queue s))" using full_cap False by blast
  then have "within cap (mq_queue s @ [x])" using w by (auto simp: within_def split: option.splits)
  moreover have "size (mq_putting s - {#x#}) = size (mq_putting s) - 1" using assms(2) by (simp add: size_Diff_singleton)
  ultimately show ?thesis using False assms(1)
    by (auto simp: monitor_put_def mq_inv_def Let_def notify_notEmpty_def split: option.splits)
qed

lemma take_ok:
  assumes inv: "mq_inv cap s" and "0 < mq_taking s" and w: "may_wake w s"
  shows "\<exists>s'. monitor_take w s = Inr s' \<and> mq_inv cap s'"
proof (cases "mq_queue s")
  case Nil
  then show ?thesis using inv by (auto simp: monitor_take_def mq_inv_def Let_def within_def split: option.splits)
next
  case (Cons y ys)
  have "within cap ys" using inv Cons by (auto simp: mq_inv_def within_def split: option.splits)
  then show ?thesis using inv w Cons
    by (auto simp: monitor_take_def mq_inv_def Let_def notify_notFull_def may_wake_def split: option.splits)
qed

lemma step_ok:
  assumes "mq_step full s r" "mq_inv cap s"
  shows "\<exists>s'. r = Inr s' \<and> mq_inv cap s'"
  using assms(1)
proof (cases rule: mq_step.cases)
  case (put x)
  then show ?thesis using put_ok[OF assms(2)] by simp
next
  case (take w)
  then show ?thesis using take_ok[OF assms(2)] by simp
next
  case (spurious_put x)
  then show ?thesis using assms(2) by (auto simp: mq_inv_def split: option.splits)
qed (use assms(2) in \<open>auto simp: mq_inv_def split: option.splits\<close>)

lemma queue_inv: "queue_reach full s \<Longrightarrow> mq_inv cap s"
proof (induction rule: queue_reach.induct)
  case (step s s')
  then show ?case using step_ok[OF step.hyps(2)] by auto
qed (simp add: mq_inv_init)

text \<open>What the invariant means: no element waits for a thread that sleeps, and no room does.\<close>

lemma no_lost_wakeup:
  assumes "mq_inv cap s"
  shows "mq_added s = mq_taken s @ mq_queue s" "within cap (mq_queue s)"
    "0 < mq_takeWait s \<and> mq_queue s \<noteq> [] \<longrightarrow> 0 < mq_taking s"
    "mq_putWait s \<noteq> {#} \<and> \<not> full (mq_queue s) \<longrightarrow> mq_putting s \<noteq> {#}"
  using assms full_cap[of "mq_queue s"] by (auto simp: mq_inv_def within_def split: option.splits)

end

interpretation bounded: monitor_queue "bounded_full m" "Some m" for m
  by unfold_locales (auto simp: bounded_full_def)

interpretation blocking: monitor_queue blocking_full None
  by unfold_locales (simp add: blocking_full_def)

definition pool_cap :: "nat \<Rightarrow> nat option" where
  "pool_cap m = (if 0 < m then Some m else None)"

interpretation pool: monitor_queue "isFull m" "pool_cap m" for m
  by unfold_locales (auto simp: isFull_def pool_cap_def within_def split: if_splits)

lemma pool_inv: "pool_reach m s \<Longrightarrow> mq_inv (pool_cap m) s"
proof (induction rule: pool_reach.induct)
  case (step s s')
  then show ?case using pool.step_ok[OF step.hyps(2)] by auto
qed (simp_all add: mq_inv_init mq_inv_stop)

text \<open>The operations of each class are steps of its monitor.\<close>

lemma class_operations:
  "pool_run m = monitor_put (isFull m)" "blocking_put = monitor_put blocking_full"
  "mq_inv (pool_cap m) s \<Longrightarrow> may_wake w s \<Longrightarrow> pool_take m w s = monitor_take w s"
  "mq_inv None s \<Longrightarrow> mq_running s \<Longrightarrow> may_wake w s \<Longrightarrow> blocking_take s = monitor_take w s"
proof -
  show "pool_run m = monitor_put (isFull m)" by (simp add: fun_eq_iff pool_run_def monitor_put_def)
  show "blocking_put = monitor_put blocking_full"
    by (simp add: fun_eq_iff blocking_put_def monitor_put_def blocking_full_def Let_def)
  have none: "notify_notFull w (s\<lparr>mq_taking := a, mq_queue := q, mq_taken := u\<rparr>) = s\<lparr>mq_taking := a, mq_queue := q, mq_taken := u\<rparr>"
    if "mq_inv None s" "may_wake w s" for s a q u
    using that by (auto simp: mq_inv_def may_wake_def notify_notFull_def split: option.splits)
  show "mq_inv (pool_cap m) s \<Longrightarrow> may_wake w s \<Longrightarrow> pool_take m w s = monitor_take w s"
    using none[of s] by (cases "m = 0") (auto simp: pool_take_def monitor_take_def pool_cap_def Let_def neq_Nil_conv split: list.splits)
  show "mq_inv None s \<Longrightarrow> mq_running s \<Longrightarrow> may_wake w s \<Longrightarrow> blocking_take s = monitor_take w s"
    using none[of s] by (auto simp: blocking_take_def monitor_take_def Let_def neq_Nil_conv split: list.splits)
qed

section \<open>Properties\<close>

text \<open>The guarantees of a monitor in a state.\<close>

definition monitor_ok :: "('a list \<Rightarrow> bool) \<Rightarrow> 'a monitor \<Rightarrow> bool" where
  "monitor_ok full s \<longleftrightarrow> (\<forall>r. mq_step full s r \<longrightarrow> (\<exists>s'. r = Inr s')) \<and> mq_added s = mq_taken s @ mq_queue s \<and>
     (0 < mq_takeWait s \<and> mq_queue s \<noteq> [] \<longrightarrow> 0 < mq_taking s) \<and>
     (mq_putWait s \<noteq> {#} \<and> \<not> full (mq_queue s) \<longrightarrow> mq_putting s \<noteq> {#})"

text \<open>(C33) The queues between threads, under every interleaving and with spurious wakeups: elements come out in
  the order they went in, the bounded queues never exceed their bound and no assertion fails. A single
  \<^verbatim>\<open>notify\<close> per operation is enough: when threads wait for an element and there is one, some thread is on its
  way to take it, and when threads wait for room and there is some, some thread is on its way to fill it. The
  pool without a bound never makes a producer wait.\<close>

theorem queues_lose_no_wakeup:
  "(queue_reach (bounded_full m) s \<longrightarrow> monitor_ok (bounded_full m) s \<and> length (mq_queue s) \<le> m) \<and>
   (queue_reach blocking_full s \<longrightarrow> monitor_ok blocking_full s \<and> mq_putWait s = {#}) \<and>
   (pool_reach m s \<longrightarrow> monitor_ok (isFull m) s \<and> (if m = 0 then mq_putWait s = {#} else length (mq_queue s) \<le> m))"
proof (intro conjI impI)
  assume "queue_reach (bounded_full m) s"
  then have inv: "mq_inv (Some m) s" by (rule bounded.queue_inv)
  show "monitor_ok (bounded_full m) s" "length (mq_queue s) \<le> m"
    using bounded.step_ok[OF _ inv] bounded.no_lost_wakeup[OF inv] by (auto simp: monitor_ok_def within_def)
next
  assume "queue_reach blocking_full s"
  then have inv: "mq_inv None s" by (rule blocking.queue_inv)
  show "monitor_ok blocking_full s"
    using blocking.step_ok[OF _ inv] blocking.no_lost_wakeup[OF inv] by (auto simp: monitor_ok_def)
  show "mq_putWait s = {#}" using inv by (simp add: mq_inv_def)
next
  assume "pool_reach m s"
  then have inv: "mq_inv (pool_cap m) s" by (rule pool_inv)
  show "monitor_ok (isFull m) s"
    using pool.step_ok[OF _ inv] pool.no_lost_wakeup[OF inv] by (auto simp: monitor_ok_def)
  show "if m = 0 then mq_putWait s = {#} else length (mq_queue s) \<le> m"
    using inv by (auto simp: mq_inv_def pool_cap_def within_def)
qed

text \<open>A bounded queue of one element with a consumer that waits, then an element put.\<close>

definition demo_waiting :: "nat monitor" where
  "demo_waiting = monitor_init\<lparr>mq_takeWait := 1, mq_putting := {#5#}\<rparr>"

lemma demo_put_reach: "queue_reach (bounded_full 1) (projr (monitor_put (bounded_full 1) 5 demo_waiting))"
proof -
  let ?a = "monitor_init\<lparr>mq_taking := 1\<rparr> :: nat monitor"
  have "mq_step (bounded_full 1) monitor_init (Inr ?a)"
    using mq_step.call_take[of monitor_init "bounded_full 1"] by (simp add: monitor_init_def)
  then have "queue_reach (bounded_full 1) ?a" by (rule queue_reach.step[OF queue_reach.init])
  moreover have "mq_step (bounded_full 1) ?a (monitor_take None ?a)"
    by (rule mq_step.take) (simp_all add: may_wake_def monitor_init_def)
  moreover have "monitor_take None ?a = Inr (monitor_init\<lparr>mq_takeWait := 1\<rparr>)" by (simp add: monitor_take_def monitor_init_def)
  ultimately have b: "queue_reach (bounded_full 1) (monitor_init\<lparr>mq_takeWait := 1\<rparr> :: nat monitor)"
    using queue_reach.step by metis
  have "queue_reach (bounded_full 1) demo_waiting"
    by (rule queue_reach.step[OF b])
      (use mq_step.call_put[of "bounded_full 1" "monitor_init\<lparr>mq_takeWait := 1\<rparr>" 5] in \<open>simp add: demo_waiting_def monitor_init_def\<close>)
  moreover have "mq_step (bounded_full 1) demo_waiting (monitor_put (bounded_full 1) 5 demo_waiting)"
    by (rule mq_step.put) (simp add: demo_waiting_def)
  ultimately show ?thesis
    by (auto simp: monitor_put_def demo_waiting_def bounded_full_def monitor_init_def elim!: queue_reach.step)
qed

theorem queues_lose_no_wakeup_witness:
  "mq_queue (projr (monitor_put (bounded_full 1) 5 demo_waiting)) = [5] \<and>
   monitor_ok (bounded_full 1) (projr (monitor_put (bounded_full 1) 5 demo_waiting))"
proof -
  have "mq_queue (projr (monitor_put (bounded_full 1) 5 demo_waiting)) = [5]"
    by (simp add: monitor_put_def demo_waiting_def bounded_full_def monitor_init_def notify_notEmpty_def)
  then show ?thesis using queues_lose_no_wakeup demo_put_reach by blast
qed

text \<open>A stopped pool with a full queue: the consumers have gone, and a producer still waits for room.\<close>

definition stranded :: "nat monitor" where
  "stranded = monitor_init\<lparr>mq_queue := [7], mq_added := [7], mq_putWait := {#2#}, mq_running := False\<rparr>"

lemma stop_strands_producer:
  "pool_reach 1 stranded" "mq_step (isFull 1) stranded (Inr s') \<Longrightarrow> mq_queue s' = [7]"
proof -
  let ?s1 = "monitor_init\<lparr>mq_putting := {#7#}\<rparr> :: nat monitor"
  let ?s2 = "monitor_init\<lparr>mq_queue := [7], mq_added := [7]\<rparr> :: nat monitor"
  let ?s3 = "?s2\<lparr>mq_putting := {#2#}\<rparr>"
  let ?s4 = "?s2\<lparr>mq_putWait := {#2#}\<rparr>"
  have 1: "pool_reach 1 ?s1"
    by (rule pool_reach.step[OF pool_reach.init]) (use mq_step.call_put[of "isFull 1" monitor_init "7 :: nat"] in \<open>simp add: monitor_init_def\<close>)
  have "monitor_put (isFull 1) 7 ?s1 = Inr ?s2" by (simp add: monitor_put_def isFull_def notify_notEmpty_def monitor_init_def)
  then have 2: "pool_reach 1 ?s2" using pool_reach.step[OF 1] mq_step.put[of 7 ?s1 "isFull 1"] by simp
  have 3: "pool_reach 1 ?s3"
    by (rule pool_reach.step[OF 2]) (use mq_step.call_put[of "isFull 1" ?s2 2] in \<open>simp add: monitor_init_def\<close>)
  have "monitor_put (isFull 1) 2 ?s3 = Inr ?s4" by (simp add: monitor_put_def isFull_def monitor_init_def)
  then have "pool_reach 1 ?s4" using pool_reach.step[OF 3] mq_step.put[of 2 ?s3 "isFull 1"] by simp
  from pool_reach.stop[OF this] show "pool_reach 1 stranded" by (simp add: pool_stop_def stranded_def monitor_init_def)
  show "mq_step (isFull 1) stranded (Inr s') \<Longrightarrow> mq_queue s' = [7]"
    by (erule mq_step.cases) (auto simp: stranded_def monitor_init_def)
qed

section \<open>The latch\<close>

record latch =
  cl_count :: int
  cl_atLock :: nat     \<comment> \<open>in \<^verbatim>\<open>wait\<close>, about to test\<close>
  cl_waiting :: nat

definition CountDownLatch_ctor :: "int \<Rightarrow> latch" where
  "CountDownLatch_ctor n = \<lparr>cl_count = n, cl_atLock = 0, cl_waiting = 0\<rparr>"

definition latch_wait :: "latch \<Rightarrow> latch" where
  "latch_wait s = (if 0 < cl_count s then s\<lparr>cl_atLock := cl_atLock s - 1, cl_waiting := cl_waiting s + 1\<rparr>
     else s\<lparr>cl_atLock := cl_atLock s - 1\<rparr>)"

definition countDown :: "latch \<Rightarrow> latch" where
  "countDown s = (let s = s\<lparr>cl_count := cl_count s - 1\<rparr>
     in if cl_count s = 0 then s\<lparr>cl_atLock := cl_atLock s + cl_waiting s, cl_waiting := 0\<rparr> else s)"

inductive latch_reach :: "int \<Rightarrow> nat \<Rightarrow> latch \<Rightarrow> bool" for n where
  ctor: "latch_reach n 0 (CountDownLatch_ctor n)"
| call: "latch_reach n k s \<Longrightarrow> latch_reach n k (s\<lparr>cl_atLock := cl_atLock s + 1\<rparr>)"
| test: "latch_reach n k s \<Longrightarrow> 0 < cl_atLock s \<Longrightarrow> latch_reach n k (latch_wait s)"
| spurious: "latch_reach n k s \<Longrightarrow> 0 < cl_waiting s \<Longrightarrow>
    latch_reach n k (s\<lparr>cl_waiting := cl_waiting s - 1, cl_atLock := cl_atLock s + 1\<rparr>)"
| count: "latch_reach n k s \<Longrightarrow> latch_reach n (Suc k) (countDown s)"

text \<open>After \<open>n\<close> counts nobody is left waiting, and nobody gets through before.\<close>

lemma latch_opens:
  assumes "latch_reach n k s"
  shows "cl_count s = n - int k" "n \<le> int k \<Longrightarrow> cl_waiting s = 0"
    "int k < n \<Longrightarrow> 0 < cl_atLock s \<Longrightarrow> cl_waiting (latch_wait s) = Suc (cl_waiting s)"
proof -
  have "cl_count s = n - int k \<and> (n \<le> int k \<longrightarrow> cl_waiting s = 0)" using assms
    by (induction rule: latch_reach.induct) (auto simp: CountDownLatch_ctor_def latch_wait_def countDown_def Let_def)
  then show "cl_count s = n - int k" "n \<le> int k \<Longrightarrow> cl_waiting s = 0"
    "int k < n \<Longrightarrow> 0 < cl_atLock s \<Longrightarrow> cl_waiting (latch_wait s) = Suc (cl_waiting s)"
    by (simp_all add: latch_wait_def)
qed

end
