(* ===== verification/Net_EventLoopThread.thy ===== *)
theory Net_EventLoopThread
  imports Net_EventLoop Base_Queues
begin

text \<open>
  \<^verbatim>\<open>net/EventLoopThread.{h,cc}\<close> with the \<^verbatim>\<open>Thread\<close> of \<^verbatim>\<open>base/Thread.{h,cc}\<close> it starts: a thread that runs one loop, and
  its owner, who starts it, waits for the loop and in the end makes it quit. Owner and thread interleave at
  the granularity of the locks; the thread runs the loop of \<open>Net_EventLoop\<close>, the latch is that of \<open>Base_Queues\<close>.
  Whether \<^verbatim>\<open>pthread_create\<close> succeeds and the number of the thread are parameters.
\<close>

section \<open>State\<close>

datatype owner_point =
    OIdle        \<comment> \<open>outside\<close>
  | OLatch       \<comment> \<open>in \<^verbatim>\<open>Thread::start\<close>, at the latch\<close>
  | OTest        \<comment> \<open>in \<^verbatim>\<open>startLoop\<close>, about to test \<^verbatim>\<open>loop_\<close>\<close>
  | OWait        \<comment> \<open>waiting on \<^verbatim>\<open>cond_\<close>\<close>
  | OReturned    \<comment> \<open>\<^verbatim>\<open>startLoop\<close> has returned the loop\<close>
  | OQuit        \<comment> \<open>in the destructor, which has seen a loop and is about to call its \<^verbatim>\<open>quit\<close>\<close>
  | OWake        \<comment> \<open>in that \<^verbatim>\<open>quit\<close>, before its \<^verbatim>\<open>wakeup\<close>\<close>
  | OJoin        \<comment> \<open>in the destructor, waiting for the thread\<close>
  | OGone

datatype child_point =
    NotCreated
  | CStarting    \<comment> \<open>before \<^verbatim>\<open>runInThread\<close> has announced its number\<close>
  | CInit        \<comment> \<open>in the callback\<close>
  | CPublish     \<comment> \<open>about to set \<^verbatim>\<open>loop_\<close>\<close>
  | CBeforeLoop  \<comment> \<open>\<^verbatim>\<open>loop_\<close> is set, \<^verbatim>\<open>loop()\<close> not yet called\<close>
  | CLooping
  | CClear       \<comment> \<open>\<^verbatim>\<open>loop()\<close> has returned\<close>
  | CEnded

record loop_thread =
  th_started :: bool
  th_joined :: bool
  th_tid :: int
  th_latch :: latch
  et_loop :: bool        \<comment> \<open>\<^verbatim>\<open>loop_\<close> is not null\<close>
  et_exiting :: bool
  et_el :: event_loop    \<comment> \<open>the loop on the thread's stack\<close>
  et_owner :: owner_point
  et_child :: child_point

definition EventLoopThread_ctor :: loop_thread where
  "EventLoopThread_ctor = \<lparr>th_started = False, th_joined = False, th_tid = 0, th_latch = CountDownLatch_ctor 1, et_loop = False,
     et_exiting = False, et_el = EventLoop_ctor, et_owner = OIdle, et_child = NotCreated\<rparr>"

section \<open>The owner\<close>

text \<open>\<^verbatim>\<open>Thread::start\<close> up to the latch, and the test at the latch with what follows it.\<close>

definition thread_start :: "bool \<Rightarrow> loop_thread \<Rightarrow> loop_thread result" where
  "thread_start created s = andThen (check (\<not> th_started s)) (\<lambda>_.
     if \<not> created then Inl LogFatal
     else Inr (s\<lparr>th_started := True, th_latch := (th_latch s)\<lparr>cl_atLock := cl_atLock (th_latch s) + 1\<rparr>,
                 et_owner := OLatch, et_child := CStarting\<rparr>))"

definition thread_latch :: "loop_thread \<Rightarrow> loop_thread result" where
  "thread_latch s =
     (let opened = cl_count (th_latch s) \<le> 0; s = s\<lparr>th_latch := latch_wait (th_latch s)\<rparr>
      in if opened then andThen (check (0 < th_tid s)) (\<lambda>_. Inr (s\<lparr>et_owner := OTest\<rparr>)) else Inr s)"

definition startLoop :: "bool \<Rightarrow> loop_thread \<Rightarrow> loop_thread result" where
  "startLoop created s = andThen (check (\<not> th_started s)) (\<lambda>_. thread_start created s)"

definition startLoop_test :: "loop_thread \<Rightarrow> loop_thread" where
  "startLoop_test s = (if et_loop s then s\<lparr>et_owner := OReturned\<rparr> else s\<lparr>et_owner := OWait\<rparr>)"

definition thread_join :: "loop_thread \<Rightarrow> loop_thread result" where
  "thread_join s = andThen (check (th_started s)) (\<lambda>_. andThen (check (\<not> th_joined s)) (\<lambda>_.
     Inr (s\<lparr>th_joined := True, et_owner := OJoin\<rparr>)))"

text \<open>The destructor tests \<^verbatim>\<open>loop_\<close> without the lock, and only then calls \<^verbatim>\<open>quit\<close>, which sets \<^verbatim>\<open>quit_\<close> and then wakes the
  loop. The thread may end in between, and the loop, which is on its stack, with it.\<close>

definition EventLoopThread_dtor :: "loop_thread \<Rightarrow> loop_thread" where
  "EventLoopThread_dtor s =
     (let s = s\<lparr>et_exiting := True\<rparr>
      in if et_loop s then s\<lparr>et_owner := OQuit\<rparr> else s\<lparr>et_owner := OGone\<rparr>)"

definition dtor_quit :: "loop_thread \<Rightarrow> loop_thread result" where
  "dtor_quit s =
     (if et_child s = CEnded then Inl SegFault
      else Inr (s\<lparr>et_el := (et_el s)\<lparr>el_quit := True, el_wakers := el_wakers (et_el s) + 1\<rparr>, et_owner := OWake\<rparr>))"

definition dtor_wakeup :: "loop_thread \<Rightarrow> loop_thread result" where
  "dtor_wakeup s =
     (if et_child s = CEnded then Inl SegFault
      else thread_join (s\<lparr>et_el := wakeup ((et_el s)\<lparr>el_wakers := el_wakers (et_el s) - 1\<rparr>)\<rparr>))"

section \<open>The thread\<close>

definition runInThread :: "int \<Rightarrow> loop_thread \<Rightarrow> loop_thread" where
  "runInThread tid s = s\<lparr>th_tid := tid, th_latch := countDown (th_latch s), et_child := CInit\<rparr>"

definition publish_loop :: "loop_thread \<Rightarrow> loop_thread" where
  "publish_loop s = s\<lparr>et_loop := True, et_child := CBeforeLoop, et_owner := (if et_owner s = OWait then OTest else et_owner s)\<rparr>"

definition call_loop :: "loop_thread \<Rightarrow> loop_thread result" where
  "call_loop s = andThen (loop_enter (et_el s)) (\<lambda>l. Inr (s\<lparr>et_el := l, et_child := CLooping\<rparr>))"

definition loop_returned :: "event_loop \<Rightarrow> loop_thread \<Rightarrow> loop_thread" where
  "loop_returned l s = s\<lparr>et_el := l, et_child := (if el_point l = Outside then CClear else CLooping)\<rparr>"

definition clear_loop :: "loop_thread \<Rightarrow> loop_thread" where
  "clear_loop s = s\<lparr>et_loop := False, et_child := CEnded\<rparr>"

section \<open>Steps\<close>

text \<open>Between the publication and \<^verbatim>\<open>loop()\<close> other threads may call the loop; their calls change neither its point nor
  what its thread does.\<close>

inductive et_step :: "loop_thread \<Rightarrow> loop_thread result \<Rightarrow> bool" where
  start: "et_owner s = OIdle \<Longrightarrow> et_step s (startLoop created s)"
| latch: "et_owner s = OLatch \<Longrightarrow> 0 < cl_atLock (th_latch s) \<Longrightarrow> et_step s (thread_latch s)"
| run: "et_child s = CStarting \<Longrightarrow> 0 < tid \<Longrightarrow> et_step s (Inr (runInThread tid s))"
| callback: "et_child s = CInit \<Longrightarrow> el_step (et_el s) (Inr l) \<Longrightarrow> el_point l = Outside \<Longrightarrow> et_step s (Inr (s\<lparr>et_el := l\<rparr>))"
| init_done: "et_child s = CInit \<Longrightarrow> el_calls (et_el s) = [] \<Longrightarrow> et_step s (Inr (s\<lparr>et_child := CPublish\<rparr>))"
| publish: "et_child s = CPublish \<Longrightarrow> et_step s (Inr (publish_loop s))"
| test: "et_owner s = OTest \<Longrightarrow> et_step s (Inr (startLoop_test s))"
| spurious: "et_owner s = OWait \<Longrightarrow> et_step s (Inr (s\<lparr>et_owner := OTest\<rparr>))"
| others: "et_child s = CBeforeLoop \<Longrightarrow> el_step (et_el s) (Inr l) \<Longrightarrow> el_point l = Outside \<Longrightarrow> el_calls l = [] \<Longrightarrow>
    et_step s (Inr (s\<lparr>et_el := l\<rparr>))"
| enter: "et_child s = CBeforeLoop \<Longrightarrow> et_step s (call_loop s)"
| looping: "et_child s = CLooping \<Longrightarrow> el_step (et_el s) (Inr l) \<Longrightarrow> et_step s (Inr (loop_returned l s))"
| loop_fails: "et_child s = CInit \<or> et_child s = CLooping \<Longrightarrow> el_step (et_el s) (Inl e) \<Longrightarrow> et_step s (Inl e)"
| clear: "et_child s = CClear \<Longrightarrow> et_step s (Inr (clear_loop s))"
| destroy: "et_owner s = OIdle \<or> et_owner s = OReturned \<Longrightarrow> et_step s (Inr (EventLoopThread_dtor s))"
| quit: "et_owner s = OQuit \<Longrightarrow> et_step s (dtor_quit s)"
| wake: "et_owner s = OWake \<Longrightarrow> et_step s (dtor_wakeup s)"
| joined: "et_owner s = OJoin \<Longrightarrow> et_child s = CEnded \<Longrightarrow> et_step s (Inr (s\<lparr>et_owner := OGone\<rparr>))"

inductive et_reach :: "loop_thread \<Rightarrow> bool" where
  ctor: "et_reach EventLoopThread_ctor"
| step: "et_reach s \<Longrightarrow> et_step s (Inr s') \<Longrightarrow> et_reach s'"

section \<open>The invariant\<close>

definition published :: "child_point \<Rightarrow> bool" where
  "published p \<longleftrightarrow> p \<in> {CBeforeLoop, CLooping, CClear}"

definition latch_inv :: "loop_thread \<Rightarrow> bool" where
  "latch_inv s \<longleftrightarrow> cl_count (th_latch s) = (if et_child s \<in> {NotCreated, CStarting} then 1 else 0) \<and>
     cl_atLock (th_latch s) + cl_waiting (th_latch s) = (if et_owner s = OLatch then 1 else 0) \<and>
     (cl_count (th_latch s) = 0 \<longrightarrow> cl_waiting (th_latch s) = 0)"

definition points_ok :: "owner_point \<Rightarrow> child_point \<Rightarrow> bool" where
  "points_ok p c = (case p of OIdle \<Rightarrow> c = NotCreated | OLatch \<Rightarrow> c \<noteq> NotCreated
     | OTest \<Rightarrow> c \<notin> {NotCreated, CStarting} | OWait \<Rightarrow> c \<in> {CInit, CPublish, CEnded}
     | OGone \<Rightarrow> True | _ \<Rightarrow> c \<in> {CBeforeLoop, CLooping, CClear, CEnded})"

definition owner_inv :: "loop_thread \<Rightarrow> bool" where
  "owner_inv s \<longleftrightarrow> points_ok (et_owner s) (et_child s) \<and> (th_joined s \<longrightarrow> et_owner s = OJoin \<or> et_owner s = OGone)"

definition child_inv :: "loop_thread \<Rightarrow> bool" where
  "child_inv s \<longleftrightarrow> th_started s = (et_child s \<noteq> NotCreated) \<and> (et_child s \<notin> {NotCreated, CStarting} \<longrightarrow> 0 < th_tid s) \<and>
     et_loop s = published (et_child s) \<and> (et_child s \<in> {CPublish, CBeforeLoop} \<longrightarrow> el_calls (et_el s) = []) \<and>
     (et_child s = CLooping) = (el_point (et_el s) \<noteq> Outside)"

definition et_inv :: "loop_thread \<Rightarrow> bool" where
  "et_inv s \<longleftrightarrow> el_reach (et_el s) \<and> latch_inv s \<and> owner_inv s \<and> child_inv s"

lemmas et_inv_defs = et_inv_def latch_inv_def owner_inv_def points_ok_def child_inv_def published_def

lemma et_inv_ctor: "et_inv EventLoopThread_ctor"
proof -
  have "el_point EventLoop_ctor = Outside" by (simp add: EventLoop_ctor_def)
  then show ?thesis by (simp add: et_inv_defs EventLoopThread_ctor_def CountDownLatch_ctor_def el_reach.start)
qed

lemma dtor_ok:
  assumes "et_inv s" "et_owner s = OIdle \<or> et_owner s = OReturned"
  shows "et_inv (EventLoopThread_dtor s)"
  using assms by (cases "et_child s"; cases "et_owner s"; simp add: et_inv_defs EventLoopThread_dtor_def Let_def)

lemma dtor_quit_ok:
  assumes "et_inv s" "et_owner s = OQuit" "et_child s \<noteq> CEnded"
  shows "\<exists>s'. dtor_quit s = Inr s' \<and> et_inv s'"
proof -
  have "el_reach ((et_el s)\<lparr>el_quit := True, el_wakers := el_wakers (et_el s) + 1\<rparr>)"
    using assms(1) el_reach.step el_step.other_quit by (auto simp: et_inv_def)
  then show ?thesis using assms by (cases "et_child s"; simp add: et_inv_defs dtor_quit_def)
qed

lemma dtor_wakeup_ok:
  assumes "et_inv s" "et_owner s = OWake" "et_child s \<noteq> CEnded"
  shows "\<exists>s'. dtor_wakeup s = Inr s' \<and> et_inv s'"
proof -
  have el: "el_reach (et_el s)" using assms(1) by (simp add: et_inv_def)
  have "el_reach (wakeup ((et_el s)\<lparr>el_wakers := el_wakers (et_el s) - 1\<rparr>))"
  proof (cases "el_wakers (et_el s)")
    case 0
    then have "(et_el s)\<lparr>el_wakers := el_wakers (et_el s) - 1\<rparr> = et_el s" by simp
    then show ?thesis using el_reach.step[OF el el_step.other_write] by simp
  next
    case (Suc n)
    then show ?thesis using el_reach.step[OF el el_step.other_wakeup] by simp
  qed
  then show ?thesis using assms by (cases "et_child s"; simp add: et_inv_defs dtor_wakeup_def thread_join_def)
qed

lemma call_loop_ok:
  assumes "et_inv s" "et_child s = CBeforeLoop"
  shows "\<exists>s'. call_loop s = Inr s' \<and> et_inv s'"
proof -
  have f: "el_reach (et_el s)" "el_calls (et_el s) = []" "el_point (et_el s) = Outside"
    using assms by (simp_all add: et_inv_defs)
  then have "\<not> el_looping (et_el s)" using el_reach_inv[OF f(1)] by (simp add: el_inv_def)
  then have e: "loop_enter (et_el s) = Inr ((et_el s)\<lparr>el_looping := True, el_quit := False, el_point := AtTest\<rparr>)"
    by (simp add: loop_enter_def)
  have "el_reach ((et_el s)\<lparr>el_looping := True, el_quit := False, el_point := AtTest\<rparr>)"
    using el_reach.step[OF f(1)] el_step.enter[OF f(3,2)] e by simp
  then show ?thesis using assms e by (cases "et_owner s"; simp add: call_loop_def et_inv_defs)
qed

lemma thread_latch_ok:
  assumes "et_inv s" "et_owner s = OLatch" "0 < cl_atLock (th_latch s)"
  shows "\<exists>s'. thread_latch s = Inr s' \<and> et_inv s'"
  using assms by (cases "et_child s"; simp add: thread_latch_def latch_wait_def Let_def et_inv_defs)

lemma et_step_ok:
  assumes "et_step s r" "et_inv s"
  shows "(\<exists>s'. r = Inr s' \<and> et_inv s') \<or> et_owner s = OIdle \<and> r = Inl LogFatal \<or>
    et_owner s \<in> {OQuit, OWake} \<and> et_child s = CEnded \<and> r = Inl SegFault \<or>
    (\<exists>e. r = Inl e \<and> (et_child s = CInit \<or> et_child s = CLooping) \<and> el_step (et_el s) (Inl e))"
  using assms(1)
proof (cases rule: et_step.cases)
  case (start created)
  then show ?thesis using assms(2)
    by (cases created) (cases "et_child s"; simp add: startLoop_def thread_start_def et_inv_defs)+
next
  case latch
  then show ?thesis using thread_latch_ok[OF assms(2)] by simp
next
  case (run tid)
  then show ?thesis using assms(2) by (cases "et_child s"; cases "et_owner s"; simp add: runInThread_def countDown_def Let_def et_inv_defs)
next
  case (callback l)
  then have "el_reach l" using assms(2) el_reach.step by (auto simp: et_inv_def)
  then show ?thesis using callback assms(2) by (cases "et_child s"; cases "et_owner s"; simp add: et_inv_defs)
next
  case init_done
  then show ?thesis using assms(2) by (cases "et_child s"; cases "et_owner s"; simp add: et_inv_defs)
next
  case publish
  then show ?thesis using assms(2) by (cases "et_child s"; cases "et_owner s"; simp add: et_inv_defs publish_loop_def)
next
  case test
  then show ?thesis using assms(2) by (cases "et_child s"; cases "et_owner s"; simp add: et_inv_defs startLoop_test_def)
next
  case spurious
  then show ?thesis using assms(2) by (cases "et_child s"; cases "et_owner s"; simp add: et_inv_defs)
next
  case (others l)
  then have "el_reach l" using assms(2) el_reach.step by (auto simp: et_inv_def)
  then show ?thesis using others assms(2) by (cases "et_child s"; cases "et_owner s"; simp add: et_inv_defs)
next
  case enter
  then show ?thesis using call_loop_ok[OF assms(2)] by simp
next
  case (looping l)
  then have "el_reach l" using assms(2) el_reach.step by (auto simp: et_inv_def)
  then show ?thesis using looping assms(2) by (cases "et_child s"; cases "et_owner s"; simp add: et_inv_defs loop_returned_def)
next
  case clear
  then show ?thesis using assms(2) by (cases "et_child s"; cases "et_owner s"; simp add: et_inv_defs clear_loop_def)
next
  case destroy
  then show ?thesis using dtor_ok[OF assms(2)] by simp
next
  case quit
  then show ?thesis using dtor_quit_ok[OF assms(2)] by (cases "et_child s = CEnded") (auto simp: dtor_quit_def)
next
  case wake
  then show ?thesis using dtor_wakeup_ok[OF assms(2)] by (cases "et_child s = CEnded") (auto simp: dtor_wakeup_def)
next
  case (loop_fails e)
  then show ?thesis by blast
next
  case joined
  then show ?thesis using assms(2) by (cases "et_child s"; cases "et_owner s"; simp add: et_inv_defs)
qed

lemma et_reach_inv: "et_reach s \<Longrightarrow> et_inv s"
proof (induction rule: et_reach.induct)
  case (step s s')
  then show ?case using et_step_ok[OF step.hyps(2)] by auto
qed (rule et_inv_ctor)

section \<open>Progress\<close>

definition child_rank :: "child_point \<Rightarrow> nat" where
  "child_rank c = (case c of NotCreated \<Rightarrow> 4 | CStarting \<Rightarrow> 3 | CInit \<Rightarrow> 2 | CPublish \<Rightarrow> 1 | _ \<Rightarrow> 0)"

definition owner_rank :: "loop_thread \<Rightarrow> nat" where
  "owner_rank s = (case et_owner s of OLatch \<Rightarrow> if 0 < cl_atLock (th_latch s) then 4 else 3 | OTest \<Rightarrow> 2 | OWait \<Rightarrow> 1 | _ \<Rightarrow> 0)"

definition handshake_rank :: "loop_thread \<Rightarrow> nat" where
  "handshake_rank s = 5 * child_rank (et_child s) + owner_rank s"

lemmas rank_defs = handshake_rank_def child_rank_def owner_rank_def

lemma owner_progress:
  assumes "et_inv s" "et_owner s = OTest \<or> et_owner s = OLatch \<and> 0 < cl_atLock (th_latch s)"
  shows "\<exists>s'. et_step s (Inr s') \<and> handshake_rank s' < handshake_rank s"
  using assms(2)
proof
  assume o: "et_owner s = OTest"
  have "handshake_rank (startLoop_test s) < handshake_rank s" using o by (simp add: startLoop_test_def rank_defs)
  then show ?thesis using et_step.test[OF o] by blast
next
  assume o: "et_owner s = OLatch \<and> 0 < cl_atLock (th_latch s)"
  then have st: "et_step s (thread_latch s)" by (simp add: et_step.latch)
  obtain s' where s': "thread_latch s = Inr s'" using thread_latch_ok[OF assms(1), OF conjunct1[OF o] conjunct2[OF o]] by (elim exE conjE)
  have l: "cl_atLock (th_latch s) = 1" using assms(1) o by (simp add: et_inv_def latch_inv_def)
  have "handshake_rank s' < handshake_rank s"
    using s' o l by (auto simp: thread_latch_def latch_wait_def Let_def result_simps rank_defs split: if_splits)
  then show ?thesis using st s' by auto
qed

lemma child_progress:
  assumes "et_inv s" "et_owner s = OWait \<or> et_owner s = OLatch \<and> cl_atLock (th_latch s) = 0"
    "et_child s \<noteq> CEnded" "et_child s = CInit \<longrightarrow> el_calls (et_el s) = []"
  shows "\<exists>s'. et_step s (Inr s') \<and> handshake_rank s' < handshake_rank s"
proof -
  have ow: "owner_rank s = 1 \<or> owner_rank s = 3" using assms(2) by (auto simp: owner_rank_def)
  have "et_child s \<in> {CStarting, CInit, CPublish}"
    using assms by (cases "et_child s"; cases "et_owner s"; simp add: et_inv_defs)
  then consider "et_child s = CStarting" | "et_child s = CInit" | "et_child s = CPublish" by blast
  then show ?thesis
  proof cases
    case 1
    have "handshake_rank (runInThread 1 s) < handshake_rank s"
      using 1 assms(2) by (auto simp: runInThread_def countDown_def Let_def rank_defs)
    then show ?thesis using et_step.run[OF 1, of 1] by auto
  next
    case 2
    have "handshake_rank (s\<lparr>et_child := CPublish\<rparr>) < handshake_rank s" using 2 by (simp add: rank_defs)
    then show ?thesis using et_step.init_done[OF 2] assms(4) 2 by blast
  next
    case 3
    have "handshake_rank (publish_loop s) < handshake_rank s" using 3 assms(2) by (auto simp: publish_loop_def rank_defs)
    then show ?thesis using et_step.publish[OF 3] by blast
  qed
qed

text \<open>A request to quit a running loop is not forgotten.\<close>

lemma quit_kept:
  assumes "el_step l (Inr l')" "el_quit l" "el_point l \<noteq> Outside"
  shows "el_quit l'"
  using assms(1)
proof (cases rule: el_step.cases)
  case (call x xs)
  then show ?thesis using assms(2)
    by (cases x) (auto simp: loop_queueInLoop_def loop_quit_def Let_def push_functor_def dest!: loop_removeChannel_Inr[OF sym] split: if_splits)
qed (use assms(2,3) in \<open>simp_all add: loop_test_def loop_polled_def loop_dispatch_def loop_handleRead_def loop_take_functors_def
  loop_run_functor_def loop_functors_done_def push_functor_def Let_def\<close>)

lemma join_waits_for_quit:
  assumes "et_step s (Inr s')" "et_inv s" "et_owner s \<in> {OWake, OJoin}" "et_child s = CLooping" "el_quit (et_el s)"
  shows "et_owner s' \<in> {OWake, OJoin} \<and> (et_child s' = CLooping \<and> el_quit (et_el s') \<or> et_child s' = CClear)"
proof -
  have pt: "el_point (et_el s) \<noteq> Outside" using assms(2,4) by (simp add: et_inv_defs)
  show ?thesis
    using assms(1)
  proof (cases rule: et_step.cases)
    case (looping l)
    then show ?thesis using quit_kept[OF looping(3) assms(5) pt] assms(3) by (simp add: loop_returned_def)
  next
    case wake
    then have "dtor_wakeup s = Inr s'" by simp
    then show ?thesis using assms(4,5) by (auto simp: dtor_wakeup_def thread_join_def result_simps)
  qed (use assms(3,4) in auto)
qed

text \<open>An owner that comes too late: the loop has ended, \<^verbatim>\<open>loop_\<close> is null again and stays so.\<close>

lemma late_owner_waits:
  assumes "et_step s (Inr s')" "et_inv s" "et_owner s \<in> {OTest, OWait}" "et_child s = CEnded"
  shows "et_owner s' \<in> {OTest, OWait} \<and> et_child s' = CEnded"
  using assms(1)
proof (cases rule: et_step.cases)
  case test
  then show ?thesis using assms(2,4) by (simp add: startLoop_test_def et_inv_defs)
qed (use assms(3,4) in auto)

section \<open>Properties\<close>


lemma et_reach_to: "et_reach s \<Longrightarrow> et_step s r \<Longrightarrow> r = Inr s' \<Longrightarrow> et_reach s'"
  using et_reach.step by blast

text \<open>The owner waits and the thread is about to publish its loop.\<close>

definition demo_started :: "owner_point \<Rightarrow> child_point \<Rightarrow> loop_thread" where
  "demo_started p c = EventLoopThread_ctor\<lparr>th_started := True, th_tid := 7, th_latch := \<lparr>cl_count = 0, cl_atLock = 0, cl_waiting = 0\<rparr>,
     et_owner := p, et_child := c\<rparr>"

lemma demo_waiting_reach: "et_reach (demo_started OWait CPublish)"
proof -
  let ?l = "\<lambda>n k. \<lparr>cl_count = n, cl_atLock = k, cl_waiting = 0\<rparr>"
  let ?a = "EventLoopThread_ctor\<lparr>th_started := True, th_latch := ?l 1 1, et_owner := OLatch, et_child := CStarting\<rparr>"
  let ?b = "?a\<lparr>th_tid := 7, th_latch := ?l 0 1, et_child := CInit\<rparr>"
  have "et_reach ?a" by (rule et_reach_to[OF et_reach.ctor et_step.start[of _ True]])
      (simp_all add: EventLoopThread_ctor_def startLoop_def thread_start_def CountDownLatch_ctor_def)
  then have "et_reach ?b" by (rule et_reach_to[OF _ et_step.run[of _ 7]]) (simp_all add: runInThread_def countDown_def)
  then have "et_reach (demo_started OTest CInit)" by (rule et_reach_to[OF _ et_step.latch])
      (simp_all add: thread_latch_def latch_wait_def demo_started_def)
  then have "et_reach (demo_started OTest CPublish)" by (rule et_reach_to[OF _ et_step.init_done])
      (simp_all add: demo_started_def EventLoopThread_ctor_def EventLoop_ctor_def)
  then show ?thesis by (rule et_reach_to[OF _ et_step.test])
      (simp_all add: demo_started_def EventLoopThread_ctor_def startLoop_test_def)
qed


text \<open>The destructor between the publication of the loop and \<^verbatim>\<open>loop()\<close>: its request to quit is forgotten, and it waits for
  a thread that goes on polling with nothing to wake it.\<close>

lemma et_looping:
  assumes "et_reach s" "et_child s = CLooping" "el_step (et_el s) (Inr l)" "el_point l \<noteq> Outside"
  shows "et_reach (s\<lparr>et_el := l\<rparr>)"
proof -
  have "s\<lparr>et_el := l, et_child := CLooping\<rparr> = s\<lparr>et_el := l\<rparr>" using assms(2) by (cases s) simp
  then show ?thesis using et_reach_to[OF assms(1) et_step.looping[OF assms(2,3)]] assms(4) by (simp add: loop_returned_def)
qed

text \<open>A round of the loop in which only the wakeup descriptor is readable.\<close>

lemma wakeup_round:
  assumes "et_reach s" "et_child s = CLooping" "el_point (et_el s) = AtPoll" "el_activeChannels (et_el s) = []"
    "el_calls (et_el s) = []" "el_pendingFunctors (et_el s) = []" "\<not> el_quit (et_el s)"
  shows "\<exists>l. et_reach (s\<lparr>et_el := l\<rparr>) \<and> el_point l = AtPoll \<and> \<not> el_quit l \<and> el_eventfd l = 0 \<and> el_pendingFunctors l = [] \<and>
    el_wakers l = el_wakers (et_el s)"
proof -
  define q where "q = loop_polled [0] (et_el s)"
  define r where "r = loop_dispatch [] 0 [] q"
  define t where "t = loop_take_functors r"
  define u where "u = loop_functors_done t"
  note D = u_def t_def r_def q_def el_defs
  have loops: "et_reach (s\<lparr>et_el := l\<rparr>) \<Longrightarrow> el_step l (Inr l') \<Longrightarrow> el_point l' \<noteq> Outside \<Longrightarrow> et_reach (s\<lparr>et_el := l'\<rparr>)" for l l'
    using et_looping[of "s\<lparr>et_el := l\<rparr>" l'] assms(2) by simp
  have "et_reach (s\<lparr>et_el := q\<rparr>)"
    using et_looping[OF assms(1,2) el_step.polled[OF assms(3), of "[0]"]] by (simp add: q_def loop_polled_def)
  moreover have qp: "el_point q = InEvents [0]" "el_calls q = []" using assms(4,5) by (simp_all add: D)
  ultimately have "et_reach (s\<lparr>et_el := r\<rparr>)" using loops[OF _ el_step.dispatch[OF qp, of "[]"]] by (simp add: D)
  moreover have rp: "el_point r = InEvents []" "el_calls r = []" using assms(5) by (simp_all add: D)
  ultimately have "et_reach (s\<lparr>et_el := t\<rparr>)" using loops[OF _ el_step.take[OF rp]] by (simp add: D)
  moreover have tp: "el_point t = InFunctors []" "el_calls t = []" using assms(5,6) by (simp_all add: D)
  ultimately have "et_reach (s\<lparr>et_el := u\<rparr>)" using loops[OF _ el_step.finish[OF tp]] by (simp add: D)
  moreover have up: "el_point u = AtTest" "\<not> el_quit u" using assms(7) by (simp_all add: D)
  ultimately have "et_reach (s\<lparr>et_el := loop_test u\<rparr>)" using loops[OF _ el_step.test[OF up(1)]] by (simp add: loop_test_def)
  moreover have "el_point (loop_test u) = AtPoll" "\<not> el_quit (loop_test u)" "el_eventfd (loop_test u) = 0"
    "el_pendingFunctors (loop_test u) = []" "el_wakers (loop_test u) = el_wakers (et_el s)"
    using up(2) assms(6,7) by (simp_all add: D)
  ultimately show ?thesis by blast
qed

lemma destructor_quit_forgotten:
  "\<exists>s. et_reach s \<and> et_owner s = OJoin \<and> et_child s = CLooping \<and> el_point (et_el s) = AtPoll \<and>
     \<not> el_quit (et_el s) \<and> el_eventfd (et_el s) = 0 \<and> el_wakers (et_el s) = 0 \<and> el_pendingFunctors (et_el s) = []"
proof -
  let ?l = "EventLoop_ctor\<lparr>el_looping := True, el_eventfd := 1, el_point := AtTest\<rparr>"
  let ?j = "(demo_started OJoin CLooping)\<lparr>th_joined := True, et_exiting := True, et_loop := True\<rparr>"
  let ?p = "?j\<lparr>et_el := loop_test ?l\<rparr>"
  have "et_reach ((demo_started OTest CBeforeLoop)\<lparr>et_loop := True\<rparr>)"
    by (rule et_reach_to[OF demo_waiting_reach et_step.publish]) (simp_all add: demo_started_def publish_loop_def EventLoopThread_ctor_def)
  then have "et_reach ((demo_started OReturned CBeforeLoop)\<lparr>et_loop := True\<rparr>)"
    by (rule et_reach_to[OF _ et_step.test]) (simp_all add: demo_started_def startLoop_test_def)
  then have "et_reach ((demo_started OQuit CBeforeLoop)\<lparr>et_exiting := True, et_loop := True\<rparr>)"
    by (rule et_reach_to[OF _ et_step.destroy])
      (simp_all add: demo_started_def EventLoopThread_ctor_def EventLoopThread_dtor_def Let_def)
  then have "et_reach ((demo_started OWake CBeforeLoop)\<lparr>et_exiting := True, et_loop := True, et_el := EventLoop_ctor\<lparr>el_quit := True, el_wakers := 1\<rparr>\<rparr>)"
    by (rule et_reach_to[OF _ et_step.quit])
      (simp_all add: demo_started_def EventLoopThread_ctor_def dtor_quit_def EventLoop_ctor_def)
  then have "et_reach ((demo_started OJoin CBeforeLoop)\<lparr>th_joined := True, et_exiting := True, et_loop := True, et_el := loop_quit False EventLoop_ctor\<rparr>)"
    by (rule et_reach_to[OF _ et_step.wake])
      (simp_all add: demo_started_def EventLoopThread_ctor_def dtor_wakeup_def thread_join_def el_defs)
  then have "et_reach (?j\<lparr>et_el := ?l\<rparr>)"
    by (rule et_reach_to[OF _ et_step.enter])
      (simp_all add: demo_started_def EventLoopThread_ctor_def call_loop_def el_defs)
  then have "et_reach ?p"
    using et_looping[of "?j\<lparr>et_el := ?l\<rparr>" "loop_test ?l"] el_step.test[of ?l] by (simp add: demo_started_def el_defs)
  moreover have "et_child ?p = CLooping" "el_point (et_el ?p) = AtPoll" "el_activeChannels (et_el ?p) = []" "el_calls (et_el ?p) = []"
    "el_pendingFunctors (et_el ?p) = []" "\<not> el_quit (et_el ?p)" by (simp_all add: demo_started_def el_defs)
  ultimately obtain l where l: "et_reach (?p\<lparr>et_el := l\<rparr>)" "el_point l = AtPoll" "\<not> el_quit l" "el_eventfd l = 0"
    "el_pendingFunctors l = []" "el_wakers l = el_wakers (et_el ?p)" using wakeup_round[of ?p] by blast
  have "el_wakers (et_el ?p) = 0" by (simp add: el_defs)
  then show ?thesis using l by (intro exI[of _ "?p\<lparr>et_el := l\<rparr>"]) (simp add: demo_started_def)
qed

end
