(* ===== verification/Net_Connector.thy ===== *)
theory Net_Connector
  imports Prelude
begin

text \<open>
  \<^verbatim>\<open>net/Connector.{h,cc}\<close>: the active side of a connection. It opens a socket, waits for the connection to
  be made, and either hands the socket to its owner or closes it and tries again after a growing delay.

  Its channel is the descriptor and whether the poller watches it; the functors queued in the loop, the
  timers that will call \<^verbatim>\<open>startInLoop\<close> and a trace of what happened to the sockets are part of the state.
  The results of \<^verbatim>\<open>socket\<close>, \<^verbatim>\<open>connect\<close> and \<^verbatim>\<open>getsockopt\<close> are parameters.
\<close>

section \<open>The connector\<close>

datatype ConnectorState = cDisconnected | cConnecting | cConnected

datatype conn_errno = CONNECT_OK | EINPROGRESS | EINTR | EISCONN
  | EAGAIN | EADDRINUSE | EADDRNOTAVAIL | ECONNREFUSED | ENETUNREACH
  | EACCES | EPERM | EAFNOSUPPORT | EALREADY | EBADF | EFAULT | ENOTSOCK | OtherConnErrno nat

datatype conn_functor = StopInLoop | ResetChannel

datatype connector_event = Opened int | Closed int | Handed int | ConnectFailed | RunAfterMs int

record connector =
  cn_connect :: bool
  cn_state :: ConnectorState
  cn_channel :: "(int \<times> bool) option"
  cn_retryDelayMs :: int
  cn_maxRetry :: int
  cn_pending :: "conn_functor list"
  cn_timers :: nat
  cn_trace :: "connector_event list"

definition kMaxRetryDelayMs :: int where "kMaxRetryDelayMs = 30 * 1000"
definition kInitRetryDelayMs :: int where "kInitRetryDelayMs = 500"

definition Connector_ctor :: connector where
  "Connector_ctor = \<lparr>cn_connect = False, cn_state = cDisconnected, cn_channel = None,
     cn_retryDelayMs = kInitRetryDelayMs, cn_maxRetry = -1, cn_pending = [], cn_timers = 0, cn_trace = []\<rparr>"

definition Connector_dtor :: "connector \<Rightarrow> unit result" where
  "Connector_dtor s = check (cn_channel s = None)"

definition setMaxRetry :: "int \<Rightarrow> connector \<Rightarrow> connector" where
  "setMaxRetry n s = s\<lparr>cn_maxRetry := n\<rparr>"

definition cn_emit :: "connector_event \<Rightarrow> connector \<Rightarrow> connector" where
  "cn_emit e s = s\<lparr>cn_trace := cn_trace s @ [e]\<rparr>"

definition cn_queue :: "conn_functor \<Rightarrow> connector \<Rightarrow> connector" where
  "cn_queue f s = s\<lparr>cn_pending := cn_pending s @ [f]\<rparr>"

definition cn_stop :: "connector \<Rightarrow> connector" where
  "cn_stop s = cn_queue StopInLoop (s\<lparr>cn_connect := False\<rparr>)"

definition cn_retry :: "int \<Rightarrow> connector \<Rightarrow> connector" where
  "cn_retry sockfd s =
     (let s1 = (cn_emit (Closed sockfd) s)\<lparr>cn_state := cDisconnected\<rparr>
      in if cn_connect s1 then
           if cn_maxRetry s1 = 0 then cn_emit ConnectFailed (cn_stop s1)
           else
             let s2 = cn_emit (RunAfterMs (cn_retryDelayMs s1)) (s1\<lparr>cn_timers := cn_timers s1 + 1\<rparr>);
                 s3 = s2\<lparr>cn_retryDelayMs := min (cn_retryDelayMs s2 * 2) kMaxRetryDelayMs\<rparr>
             in if 0 < cn_maxRetry s3 then s3\<lparr>cn_maxRetry := cn_maxRetry s3 - 1\<rparr> else s3
         else s1)"

definition connecting :: "int \<Rightarrow> connector \<Rightarrow> connector result" where
  "connecting sockfd s =
     andThen (check (cn_channel s = None)) (\<lambda>_.
     Inr (s\<lparr>cn_state := cConnecting, cn_channel := Some (sockfd, True)\<rparr>))"

text \<open>\<^verbatim>\<open>connect\<close>: \<open>sock\<close> is the result of \<^verbatim>\<open>createNonblockingOrDie\<close>, \<open>None\<close> when it dies, and \<open>err\<close> that of
  \<^verbatim>\<open>connect(2)\<close>.\<close>

definition cn_connect_op :: "int option \<Rightarrow> conn_errno \<Rightarrow> connector \<Rightarrow> connector result" where
  "cn_connect_op sock err s = (case sock of
     None \<Rightarrow> Inl LogFatal
   | Some sockfd \<Rightarrow>
       let s1 = cn_emit (Opened sockfd) s
       in if err \<in> {CONNECT_OK, EINPROGRESS, EINTR, EISCONN} then connecting sockfd s1
          else if err \<in> {EAGAIN, EADDRINUSE, EADDRNOTAVAIL, ECONNREFUSED, ENETUNREACH} then
            Inr (cn_retry sockfd s1)
          else Inr (cn_emit (Closed sockfd) s1))"

definition startInLoop :: "int option \<Rightarrow> conn_errno \<Rightarrow> connector \<Rightarrow> connector result" where
  "startInLoop sock err s =
     andThen (check (cn_state s = cDisconnected)) (\<lambda>_.
     if cn_connect s then cn_connect_op sock err s else Inr s)"

definition cn_start :: "int option \<Rightarrow> conn_errno \<Rightarrow> connector \<Rightarrow> connector result" where
  "cn_start sock err s = startInLoop sock err (s\<lparr>cn_connect := True\<rparr>)"

definition cn_restart :: "int option \<Rightarrow> conn_errno \<Rightarrow> connector \<Rightarrow> connector result" where
  "cn_restart sock err s =
     startInLoop sock err
       (s\<lparr>cn_state := cDisconnected, cn_retryDelayMs := kInitRetryDelayMs, cn_connect := True\<rparr>)"

definition removeAndResetChannel :: "connector \<Rightarrow> (int \<times> connector) result" where
  "removeAndResetChannel s = (case cn_channel s of
     None \<Rightarrow> Inl SegFault
   | Some (sockfd, _) \<Rightarrow> Inr (sockfd, cn_queue ResetChannel (s\<lparr>cn_channel := Some (sockfd, False)\<rparr>)))"

definition resetChannel :: "connector \<Rightarrow> connector" where
  "resetChannel s = s\<lparr>cn_channel := None\<rparr>"

definition stopInLoop :: "connector \<Rightarrow> connector result" where
  "stopInLoop s =
     (if cn_state s = cConnecting then
        andThen (removeAndResetChannel (s\<lparr>cn_state := cDisconnected\<rparr>)) (\<lambda>(sockfd, s1).
          Inr (cn_retry sockfd s1))
      else Inr s)"

text \<open>\<open>err\<close> is \<^verbatim>\<open>SO_ERROR\<close> of the socket, \<open>self\<close> whether it connected to itself.\<close>

definition cn_handleWrite :: "bool \<Rightarrow> bool \<Rightarrow> connector \<Rightarrow> connector result" where
  "cn_handleWrite err self s =
     (if cn_state s = cConnecting then
        andThen (removeAndResetChannel s) (\<lambda>(sockfd, s1).
          if err then Inr (cn_retry sockfd s1)
          else if self then Inr (cn_retry sockfd s1)
          else
            let s2 = s1\<lparr>cn_state := cConnected\<rparr>
            in Inr (if cn_connect s2 then cn_emit (Handed sockfd) s2 else cn_emit (Closed sockfd) s2))
      else andThen (check (cn_state s = cDisconnected)) (\<lambda>_. Inr s))"

definition cn_handleError :: "connector \<Rightarrow> connector result" where
  "cn_handleError s =
     (if cn_state s = cConnecting then
        andThen (removeAndResetChannel s) (\<lambda>(sockfd, s1). Inr (cn_retry sockfd s1))
      else Inr s)"

definition cn_run :: "conn_functor \<Rightarrow> connector \<Rightarrow> connector result" where
  "cn_run f s = (case f of StopInLoop \<Rightarrow> stopInLoop s | ResetChannel \<Rightarrow> Inr (resetChannel s))"

section \<open>Steps\<close>

text \<open>The owner starts the connector once and may stop it at any time. Events of the channel arrive while
  it is watched; an error and writability may be reported together, and the error is dispatched first. The
  loop runs all queued functors before it polls again, so a timer fires only when none is queued.\<close>

inductive cn_step :: "connector \<Rightarrow> connector result \<Rightarrow> bool" where
  stop: "cn_step s (Inr (cn_stop s))"
| error: "cn_channel s = Some (fd, True) \<Longrightarrow> cn_step s (cn_handleError s)"
| writable: "cn_channel s = Some (fd, True) \<Longrightarrow> cn_step s (cn_handleWrite err self s)"
| error_writable: "cn_channel s = Some (fd, True) \<Longrightarrow>
    cn_step s (andThen (cn_handleError s) (cn_handleWrite err self))"
| run: "cn_pending s = f # fs \<Longrightarrow> cn_step s (cn_run f (s\<lparr>cn_pending := fs\<rparr>))"
| timer: "cn_pending s = [] \<Longrightarrow> cn_timers s = Suc n \<Longrightarrow>
    cn_step s (startInLoop sock err (s\<lparr>cn_timers := n\<rparr>))"

inductive cn_reach :: "connector \<Rightarrow> connector \<Rightarrow> bool" for s0 where
  start: "cn_reach s0 s0"
| step: "cn_reach s0 s \<Longrightarrow> cn_step s (Inr s') \<Longrightarrow> cn_reach s0 s'"

section \<open>The invariant\<close>

definition opened :: "connector_event list \<Rightarrow> int list" where
  "opened tr = concat (map (\<lambda>e. case e of Opened fd \<Rightarrow> [fd] | _ \<Rightarrow> []) tr)"

definition closed_fds :: "connector_event list \<Rightarrow> int list" where
  "closed_fds tr = concat (map (\<lambda>e. case e of Closed fd \<Rightarrow> [fd] | _ \<Rightarrow> []) tr)"

definition handed :: "connector_event list \<Rightarrow> int list" where
  "handed tr = concat (map (\<lambda>e. case e of Handed fd \<Rightarrow> [fd] | _ \<Rightarrow> []) tr)"

definition delays :: "connector_event list \<Rightarrow> int list" where
  "delays tr = concat (map (\<lambda>e. case e of RunAfterMs d \<Rightarrow> [d] | _ \<Rightarrow> []) tr)"

lemma trace_simps [simp]:
  "opened [] = []" "opened (e # tr) = (case e of Opened fd \<Rightarrow> [fd] | _ \<Rightarrow> []) @ opened tr"
  "opened (tr @ tr') = opened tr @ opened tr'"
  "closed_fds [] = []" "closed_fds (e # tr) = (case e of Closed fd \<Rightarrow> [fd] | _ \<Rightarrow> []) @ closed_fds tr"
  "closed_fds (tr @ tr') = closed_fds tr @ closed_fds tr'"
  "handed [] = []" "handed (e # tr) = (case e of Handed fd \<Rightarrow> [fd] | _ \<Rightarrow> []) @ handed tr"
  "handed (tr @ tr') = handed tr @ handed tr'"
  "delays [] = []" "delays (e # tr) = (case e of RunAfterMs d \<Rightarrow> [d] | _ \<Rightarrow> []) @ delays tr"
  "delays (tr @ tr') = delays tr @ delays tr'"
  by (simp_all add: opened_def closed_fds_def handed_def delays_def)

text \<open>The delay before the retry number \<open>i\<close>: half a second, doubled each time up to thirty.\<close>

definition backoff :: "nat \<Rightarrow> int" where
  "backoff i = min (kInitRetryDelayMs * 2 ^ i) kMaxRetryDelayMs"

lemma backoff_Suc: "min (backoff i * 2) kMaxRetryDelayMs = backoff (Suc i)"
  by (simp add: backoff_def kInitRetryDelayMs_def kMaxRetryDelayMs_def min_def)

definition waiting :: "connector \<Rightarrow> int multiset" where
  "waiting s = (case cn_channel s of Some (fd, True) \<Rightarrow> {#fd#} | _ \<Rightarrow> {#})"

text \<open>Every socket that was opened has been closed, handed over or is the one being connected.\<close>

definition sockets_inv :: "connector \<Rightarrow> bool" where
  "sockets_inv s \<longleftrightarrow> mset (opened (cn_trace s)) =
     mset (closed_fds (cn_trace s)) + mset (handed (cn_trace s)) + waiting s"

definition channel_inv :: "connector \<Rightarrow> bool" where
  "channel_inv s \<longleftrightarrow> (cn_state s = cConnecting \<longleftrightarrow> (\<exists>fd. cn_channel s = Some (fd, True))) \<and>
     count (mset (cn_pending s)) ResetChannel = (if \<exists>fd. cn_channel s = Some (fd, False) then 1 else 0) \<and>
     (cn_timers s \<noteq> 0 \<longrightarrow> cn_state s = cDisconnected \<and> cn_timers s = 1)"

text \<open>The retries made so far, and how many are left of the \<open>n\<close> allowed ones; a negative \<open>n\<close> is no limit.\<close>

definition retry_inv :: "int \<Rightarrow> connector \<Rightarrow> bool" where
  "retry_inv n s \<longleftrightarrow> delays (cn_trace s) = map backoff [0..<length (delays (cn_trace s))] \<and>
     cn_retryDelayMs s = backoff (length (delays (cn_trace s))) \<and>
     cn_maxRetry s = (if 0 \<le> n then n - int (length (delays (cn_trace s))) else n) \<and>
     (0 \<le> n \<longrightarrow> int (length (delays (cn_trace s))) \<le> n) \<and>
     count (mset (cn_trace s)) ConnectFailed = (if ConnectFailed \<in> set (cn_trace s) then 1 else 0) \<and>
     (ConnectFailed \<in> set (cn_trace s) \<longrightarrow> \<not> cn_connect s \<and> int (length (delays (cn_trace s))) = n)"

lemma retry_retry_inv: "retry_inv n s \<Longrightarrow> retry_inv n (cn_retry fd s)"
  unfolding retry_inv_def cn_retry_def cn_stop_def Let_def
  by (auto simp: cn_emit_def cn_queue_def backoff_Suc count_eq_zero_iff)

text \<open>An owner that restarts the connector starts the delays anew; then nothing is claimed of them (\<open>None\<close>).\<close>

definition retry_ok :: "int option \<Rightarrow> connector \<Rightarrow> bool" where
  "retry_ok n s \<longleftrightarrow> (\<forall>k. n = Some k \<longrightarrow> retry_inv k s)"

definition cn_inv :: "int option \<Rightarrow> connector \<Rightarrow> bool" where
  "cn_inv n s \<longleftrightarrow> sockets_inv s \<and> channel_inv s \<and> retry_ok n s"

lemma retry_retry_ok: "retry_ok n s \<Longrightarrow> retry_ok n (cn_retry fd s)"
  by (simp add: retry_ok_def retry_retry_inv)

lemma retry_fields:
  "cn_channel (cn_retry fd s) = cn_channel s" "cn_state (cn_retry fd s) = cDisconnected"
  "count (mset (cn_pending (cn_retry fd s))) ResetChannel = count (mset (cn_pending s)) ResetChannel"
  "cn_timers (cn_retry fd s) \<le> cn_timers s + 1"
  "opened (cn_trace (cn_retry fd s)) = opened (cn_trace s)" "handed (cn_trace (cn_retry fd s)) = handed (cn_trace s)"
  "closed_fds (cn_trace (cn_retry fd s)) = closed_fds (cn_trace s) @ [fd]"
  by (simp_all add: cn_retry_def cn_stop_def cn_emit_def cn_queue_def Let_def)

text \<open>Retrying with a channel that is no longer watched and no timer pending.\<close>

lemma retry_inv_ok:
  assumes "mset (opened (cn_trace s)) = mset (closed_fds (cn_trace s)) + mset (handed (cn_trace s)) + {#fd#}"
    and "\<nexists>g. cn_channel s = Some (g, True)" "cn_timers s = 0" "retry_ok n s"
    and "count (mset (cn_pending s)) ResetChannel = (if \<exists>fd. cn_channel s = Some (fd, False) then 1 else 0)"
  shows "cn_inv n (cn_retry fd s)"
proof -
  have "waiting (cn_retry fd s) = {#}"
    using assms(2) by (auto simp: waiting_def retry_fields split: option.splits bool.splits)
  then have "sockets_inv (cn_retry fd s)" using assms(1) by (simp add: sockets_inv_def retry_fields)
  moreover have "channel_inv (cn_retry fd s)"
    using assms(2,3,5) retry_fields(4)[of fd s] by (auto simp: channel_inv_def retry_fields)
  ultimately show ?thesis using retry_retry_ok[OF assms(4)] by (simp add: cn_inv_def)
qed

lemma connecting_channel:
  assumes "cn_inv n s" "cn_state s = cConnecting"
  obtains fd where "cn_channel s = Some (fd, True)" "cn_timers s = 0"
    "count (mset (cn_pending s)) ResetChannel = 0"
    "mset (opened (cn_trace s)) = mset (closed_fds (cn_trace s)) + mset (handed (cn_trace s)) + {#fd#}"
  using assms by (auto simp: cn_inv_def channel_inv_def sockets_inv_def waiting_def)

text \<open>Taking the channel away and retrying, as \<^verbatim>\<open>handleError\<close>, \<^verbatim>\<open>handleWrite\<close> and \<^verbatim>\<open>stopInLoop\<close> do.\<close>

lemma remove_retry:
  assumes inv: "cn_inv n s" and st: "cn_state s = cConnecting"
  shows "\<exists>s'. andThen (removeAndResetChannel (s\<lparr>cn_state := st'\<rparr>)) (\<lambda>(sockfd, s1). Inr (cn_retry sockfd s1)) = Inr s' \<and>
    cn_inv n s' \<and> cn_state s' = cDisconnected"
proof -
  obtain fd where c: "cn_channel s = Some (fd, True)" "cn_timers s = 0"
    "count (mset (cn_pending s)) ResetChannel = 0"
    "mset (opened (cn_trace s)) = mset (closed_fds (cn_trace s)) + mset (handed (cn_trace s)) + {#fd#}"
    by (rule connecting_channel[OF inv st])
  let ?s = "cn_queue ResetChannel (s\<lparr>cn_state := st', cn_channel := Some (fd, False)\<rparr>)"
  have "cn_inv n (cn_retry fd ?s)"
    by (rule retry_inv_ok) (use c inv in \<open>auto simp: cn_queue_def cn_inv_def retry_ok_def retry_inv_def\<close>)
  then show ?thesis using c(1) by (simp add: removeAndResetChannel_def retry_fields)
qed

lemma handleError_ok:
  assumes "cn_inv n s" "cn_channel s = Some (fd, True)"
  shows "\<exists>s'. cn_handleError s = Inr s' \<and> cn_inv n s' \<and> cn_state s' = cDisconnected"
proof -
  have st: "cn_state s = cConnecting" using assms by (auto simp: cn_inv_def channel_inv_def)
  have "s\<lparr>cn_state := cConnecting\<rparr> = s" using st by simp
  with remove_retry[OF assms(1) st, of cConnecting] st show ?thesis by (simp add: cn_handleError_def)
qed

lemma handleWrite_ok:
  assumes inv: "cn_inv n s" and ch: "cn_channel s = Some (fd, True)"
  shows "\<exists>s'. cn_handleWrite err self s = Inr s' \<and> cn_inv n s'"
proof -
  have st: "cn_state s = cConnecting" using assms by (auto simp: cn_inv_def channel_inv_def)
  have s: "s\<lparr>cn_state := cConnecting\<rparr> = s" using st by simp
  show ?thesis
  proof (cases "err \<or> self")
    case True
    have "cn_handleWrite err self s = andThen (removeAndResetChannel s) (\<lambda>(sockfd, s1). Inr (cn_retry sockfd s1))"
      using st ch True by (auto simp: cn_handleWrite_def removeAndResetChannel_def)
    then show ?thesis using remove_retry[OF inv st, of cConnecting] s by auto
  next
    case False
    let ?s1 = "cn_queue ResetChannel (s\<lparr>cn_channel := Some (fd, False)\<rparr>)"
    let ?s2 = "?s1\<lparr>cn_state := cConnected\<rparr>"
    let ?s3 = "if cn_connect ?s2 then cn_emit (Handed fd) ?s2 else cn_emit (Closed fd) ?s2"
    have "cn_handleWrite err self s = Inr ?s3"
      using st ch False by (simp add: cn_handleWrite_def removeAndResetChannel_def Let_def)
    moreover have "cn_inv n ?s3"
      using inv st ch unfolding cn_inv_def sockets_inv_def channel_inv_def retry_ok_def retry_inv_def waiting_def
      by (auto simp: cn_emit_def cn_queue_def)
    ultimately show ?thesis by simp
  qed
qed

lemma startInLoop_ok:
  assumes inv: "cn_inv n s" and st: "cn_state s = cDisconnected" and ch: "cn_channel s = None" and t: "cn_timers s = 0"
  shows "(\<exists>s'. startInLoop sock err s = Inr s' \<and> cn_inv n s') \<or>
    sock = None \<and> cn_connect s \<and> startInLoop sock err s = Inl LogFatal"
proof (cases "cn_connect s \<and> sock \<noteq> None")
  case False
  then show ?thesis using inv st by (auto simp: startInLoop_def cn_connect_op_def)
next
  case go_on: True
  then have True: "cn_connect s" by simp
  obtain fd where fd: "sock = Some fd" using go_on by auto
  let ?s1 = "cn_emit (Opened fd) s"
  have acc: "mset (opened (cn_trace s)) = mset (closed_fds (cn_trace s)) + mset (handed (cn_trace s))"
    using inv ch by (simp add: cn_inv_def sockets_inv_def waiting_def)
  have pend: "count (mset (cn_pending s)) ResetChannel = 0" using inv ch by (simp add: cn_inv_def channel_inv_def)
  have r1: "retry_ok n ?s1" using inv by (simp add: cn_inv_def retry_ok_def retry_inv_def cn_emit_def)
  consider (go) "err \<in> {CONNECT_OK, EINPROGRESS, EINTR, EISCONN}"
    | (again) "err \<notin> {CONNECT_OK, EINPROGRESS, EINTR, EISCONN}"
        "err \<in> {EAGAIN, EADDRINUSE, EADDRNOTAVAIL, ECONNREFUSED, ENETUNREACH}"
    | (hard) "err \<notin> {CONNECT_OK, EINPROGRESS, EINTR, EISCONN}"
        "err \<notin> {EAGAIN, EADDRINUSE, EADDRNOTAVAIL, ECONNREFUSED, ENETUNREACH}" by blast
  then show ?thesis
  proof cases
    case go
    let ?s2 = "?s1\<lparr>cn_state := cConnecting, cn_channel := Some (fd, True)\<rparr>"
    have "startInLoop sock err s = Inr ?s2"
      using go True st ch fd by (simp add: startInLoop_def cn_connect_op_def connecting_def Let_def cn_emit_def)
    moreover have "cn_inv n ?s2" using acc pend t r1
      by (simp add: cn_inv_def sockets_inv_def channel_inv_def retry_ok_def retry_inv_def waiting_def cn_emit_def)
    ultimately show ?thesis by simp
  next
    case again
    have "cn_inv n (cn_retry fd ?s1)"
      by (rule retry_inv_ok) (use acc ch t r1 pend in \<open>simp_all add: cn_emit_def\<close>)
    then show ?thesis using again True st fd by (simp add: startInLoop_def cn_connect_op_def Let_def)
  next
    case hard
    have "cn_inv n (cn_emit (Closed fd) ?s1)" using acc pend t r1 ch st
      by (simp add: cn_inv_def sockets_inv_def channel_inv_def retry_ok_def retry_inv_def waiting_def cn_emit_def)
    then show ?thesis using hard True st fd by (simp add: startInLoop_def cn_connect_op_def Let_def)
  qed
qed

lemma run_ok:
  assumes inv: "cn_inv n s" and p: "cn_pending s = f # fs"
  shows "\<exists>s'. cn_run f (s\<lparr>cn_pending := fs\<rparr>) = Inr s' \<and> cn_inv n s'"
proof (cases f)
  case ResetChannel
  then have "cn_inv n (resetChannel (s\<lparr>cn_pending := fs\<rparr>))" using inv p
    unfolding cn_inv_def sockets_inv_def channel_inv_def retry_ok_def retry_inv_def waiting_def resetChannel_def
    by (auto split: if_splits)
  then show ?thesis by (simp add: cn_run_def ResetChannel)
next
  case StopInLoop
  let ?s = "s\<lparr>cn_pending := fs\<rparr>"
  have inv': "cn_inv n ?s" using inv p StopInLoop
    by (simp add: cn_inv_def sockets_inv_def channel_inv_def retry_ok_def retry_inv_def waiting_def)
  show ?thesis
  proof (cases "cn_state s = cConnecting")
    case True
    with remove_retry[OF inv', of cDisconnected] show ?thesis by (auto simp: cn_run_def StopInLoop stopInLoop_def)
  next
    case False
    then show ?thesis using inv' by (simp add: cn_run_def StopInLoop stopInLoop_def)
  qed
qed

lemma cn_step_inv:
  assumes "cn_step s r" "cn_inv n s"
  shows "(\<exists>s'. r = Inr s' \<and> cn_inv n s') \<or> r = Inl LogFatal \<and> 0 < cn_timers s \<and> cn_connect s"
  using assms
proof (induction rule: cn_step.cases)
  case (stop s)
  then show ?thesis
    by (auto simp: cn_stop_def cn_queue_def cn_inv_def sockets_inv_def channel_inv_def retry_ok_def retry_inv_def waiting_def)
next
  case (error s fd)
  then show ?thesis using handleError_ok by blast
next
  case (writable s fd err self)
  then show ?thesis using handleWrite_ok by blast
next
  case (error_writable s fd err self)
  obtain s1 where "cn_handleError s = Inr s1" "cn_inv n s1" "cn_state s1 = cDisconnected"
    using handleError_ok error_writable by blast
  then show ?thesis using error_writable by (simp add: cn_handleWrite_def)
next
  case (run s f fs)
  then show ?thesis using run_ok by blast
next
  case (timer s m sock err)
  let ?s = "s\<lparr>cn_timers := m\<rparr>"
  have "cn_state s = cDisconnected" "m = 0" "cn_channel s = None"
    using timer by (auto simp: cn_inv_def channel_inv_def split: if_splits) (metis (full_types) surj_pair not_None_eq)
  moreover have "cn_inv n ?s" using timer
    by (auto simp: cn_inv_def sockets_inv_def channel_inv_def retry_ok_def retry_inv_def waiting_def)
  ultimately show ?thesis using startInLoop_ok[of n ?s sock err] timer by auto
qed

lemma cn_reach_inv: "cn_reach s0 s \<Longrightarrow> cn_inv n s0 \<Longrightarrow> cn_inv n s"
proof (induction rule: cn_reach.induct)
  case (step s s')
  then show ?case using cn_step_inv[OF step.hyps(2)] by auto
qed

lemma ctor_cn_inv: "cn_inv (Some n) ((setMaxRetry n Connector_ctor)\<lparr>cn_connect := True\<rparr>)"
  by (simp add: cn_inv_def sockets_inv_def channel_inv_def retry_ok_def retry_inv_def waiting_def Connector_ctor_def
      setMaxRetry_def backoff_def kInitRetryDelayMs_def kMaxRetryDelayMs_def)

lemma cn_start_inv:
  "cn_start (Some fd) err (setMaxRetry n Connector_ctor) = Inr s0 \<Longrightarrow> cn_inv (Some n) s0"
  using startInLoop_ok[OF ctor_cn_inv[of n], of "Some fd" err]
  by (auto simp: cn_start_def setMaxRetry_def Connector_ctor_def)

section \<open>Properties\<close>


text \<open>With one retry allowed, two refused attempts.\<close>

definition demo_refused :: connector where
  "demo_refused = (case cn_start (Some 5) ECONNREFUSED (setMaxRetry 1 Connector_ctor) of Inr s \<Rightarrow> s)"

definition demo_gave_up :: connector where
  "demo_gave_up = (case startInLoop (Some 5) ECONNREFUSED (demo_refused\<lparr>cn_timers := 0\<rparr>) of Inr s \<Rightarrow> s)"

lemmas demo_connector_defs = demo_refused_def demo_gave_up_def cn_start_def startInLoop_def cn_connect_op_def
  cn_retry_def cn_emit_def cn_stop_def cn_queue_def setMaxRetry_def Connector_ctor_def kInitRetryDelayMs_def
  kMaxRetryDelayMs_def

lemma demo_gave_up_steps:
  "cn_start (Some 5) ECONNREFUSED (setMaxRetry 1 Connector_ctor) = Inr demo_refused"
  "cn_reach demo_refused demo_gave_up"
  "cn_trace demo_gave_up = [Opened 5, Closed 5, RunAfterMs 500, Opened 5, Closed 5, ConnectFailed]"
proof -
  show "cn_start (Some 5) ECONNREFUSED (setMaxRetry 1 Connector_ctor) = Inr demo_refused"
    by (simp add: demo_connector_defs)
  have "cn_step demo_refused (startInLoop (Some 5) ECONNREFUSED (demo_refused\<lparr>cn_timers := 0\<rparr>))"
    by (rule cn_step.timer) (simp_all add: demo_connector_defs)
  moreover have "startInLoop (Some 5) ECONNREFUSED (demo_refused\<lparr>cn_timers := 0\<rparr>) = Inr demo_gave_up"
    by (simp add: demo_connector_defs)
  ultimately show "cn_reach demo_refused demo_gave_up" using cn_reach.start cn_reach.step by metis
  show "cn_trace demo_gave_up = [Opened 5, Closed 5, RunAfterMs 500, Opened 5, Closed 5, ConnectFailed]"
    by (simp add: demo_connector_defs)
qed


end
