(* ===== verification/Net_TcpClient.thy ===== *)
theory Net_TcpClient
  imports Net_Connector
begin

text \<open>
  \<^verbatim>\<open>net/TcpClient.{h,cc}\<close>: a connector and the one connection it makes. A connection is known by its name and its
  descriptor; what the client asks of it is a trace. The text of the peer's address is a parameter, and so
  is what the connector's system calls return.
\<close>

section \<open>The client\<close>

datatype client_event =
    CEstablished string int   \<comment> \<open>\<^verbatim>\<open>connectEstablished\<close> of the connection on this socket\<close>
  | CCloseCallback string
  | CDestroyed string         \<comment> \<open>\<^verbatim>\<open>connectDestroyed\<close> is queued\<close>
  | CShutdown string
  | CSetClose string          \<comment> \<open>the close callback is replaced by \<^verbatim>\<open>detail::removeConnection\<close>\<close>
  | CForceClose string

record tcp_client =
  tc_name :: string
  tc_peer :: string           \<comment> \<open>\<^verbatim>\<open>peerAddr.toIpPort()\<close>\<close>
  tc_connector :: connector
  tc_retryTimes :: int
  tc_retry :: bool
  tc_connect :: bool
  tc_nextConnId :: int
  tc_connection :: "string option"
  tc_trace :: "client_event list"

definition TcpClient_ctor :: "string \<Rightarrow> string \<Rightarrow> int \<Rightarrow> tcp_client" where
  "TcpClient_ctor name peer maxRetry = \<lparr>tc_name = name, tc_peer = peer, tc_connector = setMaxRetry maxRetry Connector_ctor,
     tc_retryTimes = maxRetry, tc_retry = False, tc_connect = True, tc_nextConnId = 1, tc_connection = None, tc_trace = []\<rparr>"

definition enableRetry :: "tcp_client \<Rightarrow> tcp_client" where
  "enableRetry s = s\<lparr>tc_retry := True\<rparr>"

definition setMaxRetryTimes :: "int \<Rightarrow> tcp_client \<Rightarrow> tcp_client" where
  "setMaxRetryTimes n s = s\<lparr>tc_retryTimes := n, tc_connector := setMaxRetry n (tc_connector s)\<rparr>"

definition tc_emit :: "client_event \<Rightarrow> tcp_client \<Rightarrow> tcp_client" where
  "tc_emit e s = s\<lparr>tc_trace := tc_trace s @ [e]\<rparr>"

definition tc_connect_op :: "int option \<Rightarrow> conn_errno \<Rightarrow> tcp_client \<Rightarrow> tcp_client result" where
  "tc_connect_op sock err s = andThen (cn_start sock err (tc_connector s)) (\<lambda>c.
     Inr (s\<lparr>tc_connect := True, tc_connector := c\<rparr>))"

definition tc_disconnect :: "tcp_client \<Rightarrow> tcp_client" where
  "tc_disconnect s = (let s = s\<lparr>tc_connect := False\<rparr>
     in case tc_connection s of None \<Rightarrow> s | Some n \<Rightarrow> tc_emit (CShutdown n) s)"

definition tc_stop :: "tcp_client \<Rightarrow> tcp_client" where
  "tc_stop s = s\<lparr>tc_connect := False, tc_connector := cn_stop (tc_connector s)\<rparr>"

definition client_conn_name :: "tcp_client \<Rightarrow> int \<Rightarrow> string" where
  "client_conn_name s connId = tc_name s @ snprintf 32 ('':'' @ c_str (tc_peer s) @ ''#'' @ dec_int connId)"

definition tc_newConnection :: "int \<Rightarrow> tcp_client \<Rightarrow> tcp_client" where
  "tc_newConnection sockfd s =
     (let connName = client_conn_name s (tc_nextConnId s)
      in tc_emit (CEstablished connName sockfd)
           (s\<lparr>tc_nextConnId := tc_nextConnId s + 1, tc_connection := Some connName\<rparr>))"

definition tc_removeConnection :: "int option \<Rightarrow> conn_errno \<Rightarrow> string \<Rightarrow> tcp_client \<Rightarrow> tcp_client result" where
  "tc_removeConnection sock err conn s =
     (let s = tc_emit (CCloseCallback conn) s
      in andThen (check (tc_connection s = Some conn)) (\<lambda>_.
         let s = tc_emit (CDestroyed conn) (s\<lparr>tc_connection := None\<rparr>)
         in if tc_retry s \<and> tc_connect s
            then andThen (cn_restart sock err (tc_connector s)) (\<lambda>c. Inr (s\<lparr>tc_connector := c\<rparr>))
            else Inr s))"

text \<open>The destructor; \<open>unique\<close> is whether the client holds the last reference to the connection.\<close>

definition TcpClient_dtor :: "bool \<Rightarrow> tcp_client \<Rightarrow> tcp_client" where
  "TcpClient_dtor unique s = (case tc_connection s of
     Some n \<Rightarrow> (let s = tc_emit (CSetClose n) s in if unique then tc_emit (CForceClose n) s else s)
   | None \<Rightarrow> s\<lparr>tc_connector := cn_stop (tc_connector s)\<rparr>)"

section \<open>Steps\<close>

text \<open>The connections a client has made, and those it has been told are closed.\<close>

definition made :: "client_event list \<Rightarrow> (string \<times> int) list" where
  "made tr = concat (map (\<lambda>e. case e of CEstablished n fd \<Rightarrow> [(n, fd)] | _ \<Rightarrow> []) tr)"

definition dropped :: "client_event list \<Rightarrow> string list" where
  "dropped tr = concat (map (\<lambda>e. case e of CDestroyed n \<Rightarrow> [n] | _ \<Rightarrow> []) tr)"

lemma client_trace_simps [simp]:
  "made [] = []" "made (tr @ [e]) = made tr @ (case e of CEstablished n fd \<Rightarrow> [(n, fd)] | _ \<Rightarrow> [])"
  "dropped [] = []" "dropped (tr @ [e]) = dropped tr @ (case e of CDestroyed n \<Rightarrow> [n] | _ \<Rightarrow> [])"
  by (simp_all add: made_def dropped_def)


text \<open>A step of the connector, with the callback for the sockets it hands over.\<close>

definition newly_handed :: "connector \<Rightarrow> connector \<Rightarrow> int list" where
  "newly_handed c c' = drop (length (handed (cn_trace c))) (handed (cn_trace c'))"

definition tc_deliver :: "connector \<Rightarrow> tcp_client \<Rightarrow> tcp_client" where
  "tc_deliver c' s = fold tc_newConnection (newly_handed (tc_connector s) c') (s\<lparr>tc_connector := c'\<rparr>)"

text \<open>From \<^verbatim>\<open>connect\<close>, called once, to the destructor: steps of the connector, the close callback of a connection that was made
  and has not been closed, \<^verbatim>\<open>disconnect\<close> and \<^verbatim>\<open>stop\<close>. The close callback comes when the functor that frees the connector's channel has run: it
  was queued before anything the connection could queue.\<close>

inductive tc_step :: "tcp_client \<Rightarrow> tcp_client result \<Rightarrow> bool" where
  connector: "cn_step (tc_connector s) r \<Longrightarrow> tc_step s (andThen r (\<lambda>c. Inr (tc_deliver c s)))"
| closed: "n \<in># mset (map fst (made (tc_trace s))) - mset (dropped (tc_trace s)) \<Longrightarrow>
    ResetChannel \<notin> set (cn_pending (tc_connector s)) \<Longrightarrow>
    tc_step s (tc_removeConnection sock err n s)"
| disconnect: "tc_step s (Inr (tc_disconnect s))"
| stop: "tc_step s (Inr (tc_stop s))"

inductive tc_reach :: "tcp_client \<Rightarrow> tcp_client \<Rightarrow> bool" for s0 where
  start: "tc_reach s0 s0"
| step: "tc_reach s0 s \<Longrightarrow> tc_step s (Inr s') \<Longrightarrow> tc_reach s0 s'"

section \<open>The invariant\<close>

definition tc_inv :: "tcp_client \<Rightarrow> bool" where
  "tc_inv s \<longleftrightarrow> cn_inv None (tc_connector s) \<and>
     (tc_connection s \<noteq> None \<longrightarrow> cn_state (tc_connector s) = cConnected) \<and>
     (\<not> tc_retry s \<and> made (tc_trace s) \<noteq> [] \<longrightarrow> cn_state (tc_connector s) = cConnected \<and> length (made (tc_trace s)) = 1) \<and>
     map snd (made (tc_trace s)) = handed (cn_trace (tc_connector s)) \<and>
     map fst (made (tc_trace s)) = map (\<lambda>i. client_conn_name s (int i + 1)) [0..<length (made (tc_trace s))] \<and>
     tc_nextConnId s = int (length (made (tc_trace s))) + 1 \<and>
     dropped (tc_trace s) @ (case tc_connection s of None \<Rightarrow> [] | Some n \<Rightarrow> [n]) =
       map (\<lambda>i. client_conn_name s (int i + 1)) [0..<length (made (tc_trace s))]"

text \<open>A step of the connector hands over a socket only when it was connecting, and does not leave the connected state.\<close>

lemma retry_path:
  assumes "andThen (removeAndResetChannel c) (\<lambda>(sockfd, s1). Inr (cn_retry sockfd s1)) = Inr c'"
  shows "handed (cn_trace c') = handed (cn_trace c)" "cn_state c' = cDisconnected"
  using assms by (auto simp: removeAndResetChannel_def retry_fields cn_queue_def split: option.splits)

lemma handed_start:
  "startInLoop sock err c = Inr c' \<Longrightarrow> handed (cn_trace c') = handed (cn_trace c)"
  by (auto simp: startInLoop_def cn_connect_op_def connecting_def cn_emit_def retry_fields Let_def result_simps
      split: option.splits if_splits)

lemma handed_write:
  assumes "cn_handleWrite err self c = Inr c'" "cn_state c = cConnecting"
  shows "handed (cn_trace c') = handed (cn_trace c) \<or>
    (\<exists>fd. handed (cn_trace c') = handed (cn_trace c) @ [fd]) \<and> cn_state c' = cConnected"
  using assms by (auto simp: cn_handleWrite_def removeAndResetChannel_def cn_emit_def cn_queue_def retry_fields Let_def
      split: option.splits if_splits)

lemma handed_step:
  assumes "cn_step c (Inr c')" "cn_inv n c"
  shows "handed (cn_trace c') = handed (cn_trace c) \<and> (cn_state c = cConnected \<longrightarrow> cn_state c' = cConnected) \<or>
    (\<exists>fd. handed (cn_trace c') = handed (cn_trace c) @ [fd]) \<and> cn_state c = cConnecting \<and> cn_state c' = cConnected"
proof -
  have ch: "cn_state c = cConnecting" if "cn_channel c = Some (fd, True)" for fd
    using assms(2) that by (auto simp: cn_inv_def channel_inv_def)
  show ?thesis
    using assms(1)
  proof (cases rule: cn_step.cases)
    case stop
    then show ?thesis by (simp add: cn_stop_def cn_queue_def)
  next
    case (error fd)
    then show ?thesis using ch retry_path[of c c'] by (simp add: cn_handleError_def)
  next
    case (writable fd err self)
    then show ?thesis using ch handed_write[of err self c c'] by auto
  next
    case (error_writable fd err self)
    then obtain c1 where c1: "cn_handleError c = Inr c1" "cn_handleWrite err self c1 = Inr c'"
      by (metis andThen_Inr_iff)
    then have "handed (cn_trace c1) = handed (cn_trace c)" "cn_state c1 = cDisconnected"
      using ch[OF error_writable(2)] retry_path[of c c1] by (simp_all add: cn_handleError_def)
    then show ?thesis using c1(2) ch[OF error_writable(2)] by (simp add: cn_handleWrite_def)
  next
    case (run f fs)
    then show ?thesis using retry_path[of "c\<lparr>cn_pending := fs, cn_state := cDisconnected\<rparr>" c']
      by (cases f) (auto simp: cn_run_def resetChannel_def stopInLoop_def split: if_splits)
  next
    case (timer m sock err)
    then have "cn_state c = cDisconnected" using assms(2) by (simp add: cn_inv_def channel_inv_def)
    then show ?thesis using handed_start[of sock err "c\<lparr>cn_timers := m\<rparr>" c'] timer(1) by simp
  qed
qed

lemma client_conn_name_upd [simp]:
  "client_conn_name (s\<lparr>tc_connector := c\<rparr>) = client_conn_name s"
  "client_conn_name (s\<lparr>tc_nextConnId := i\<rparr>) = client_conn_name s"
  "client_conn_name (s\<lparr>tc_connection := n\<rparr>) = client_conn_name s"
  "client_conn_name (s\<lparr>tc_trace := tr\<rparr>) = client_conn_name s"
  "client_conn_name (s\<lparr>tc_connect := b\<rparr>) = client_conn_name s"
  by (simp_all add: client_conn_name_def fun_eq_iff)

lemma connector_step_ok:
  assumes "cn_step (tc_connector s) r" "tc_inv s"
  shows "(\<exists>c. r = Inr c \<and> tc_inv (tc_deliver c s)) \<or> r = Inl LogFatal"
proof -
  have inv: "cn_inv None (tc_connector s)" using assms(2) by (simp add: tc_inv_def)
  consider (ok) c where "r = Inr c" "cn_inv None c" | (dies) "r = Inl LogFatal" using cn_step_inv[OF assms(1) inv] by blast
  then show ?thesis
  proof cases
    case dies then show ?thesis by simp
  next
    case (ok c)
    note c = ok
    consider (same) "handed (cn_trace c) = handed (cn_trace (tc_connector s))"
        "cn_state (tc_connector s) = cConnected \<longrightarrow> cn_state c = cConnected"
      | (more) fd where "handed (cn_trace c) = handed (cn_trace (tc_connector s)) @ [fd]"
        "cn_state (tc_connector s) = cConnecting" "cn_state c = cConnected"
      using handed_step[OF assms(1)[unfolded c(1)] inv] by blast
    then have "tc_inv (tc_deliver c s)"
    proof cases
      case same
      then have d: "tc_deliver c s = s\<lparr>tc_connector := c\<rparr>" by (simp add: tc_deliver_def newly_handed_def)
      show ?thesis unfolding d using assms(2) same c(2) by (simp add: tc_inv_def split: option.splits)
    next
      case more
      have none: "tc_connection s = None" "\<not> tc_retry s \<longrightarrow> made (tc_trace s) = []"
        using assms(2) more(2) by (auto simp: tc_inv_def)
      let ?s = "s\<lparr>tc_connector := c, tc_nextConnId := tc_nextConnId s + 1, tc_connection := Some (client_conn_name s (tc_nextConnId s)),
        tc_trace := tc_trace s @ [CEstablished (client_conn_name s (tc_nextConnId s)) fd]\<rparr>"
      have d: "tc_deliver c s = ?s"
        using more(1) by (simp add: tc_deliver_def newly_handed_def tc_newConnection_def tc_emit_def Let_def)
      show ?thesis unfolding d using assms(2) more c(2) none by (simp add: tc_inv_def)
    qed
    then show ?thesis using c(1) by simp
  qed
qed

lemma closed_step_ok:
  assumes inv: "tc_inv s" and conn: "tc_connection s = Some n"
    and pend: "ResetChannel \<notin> set (cn_pending (tc_connector s))"
  shows "(\<exists>s'. tc_removeConnection sock err n s = Inr s' \<and> tc_inv s') \<or> tc_removeConnection sock err n s = Inl LogFatal"
proof -
  let ?c = "tc_connector s"
  let ?s = "s\<lparr>tc_connection := None, tc_trace := tc_trace s @ [CCloseCallback n, CDestroyed n]\<rparr>"
  have tr: "made (tc_trace s @ [CCloseCallback n, CDestroyed n]) = made (tc_trace s)"
    "dropped (tc_trace s @ [CCloseCallback n, CDestroyed n]) = dropped (tc_trace s) @ [n]"
    by (simp_all add: made_def dropped_def)
  have st: "cn_state ?c = cConnected" and cinv: "cn_inv None ?c" using inv conn by (auto simp: tc_inv_def)
  have ch: "channel_inv ?c" using cinv by (simp add: cn_inv_def)
  have "count (mset (cn_pending ?c)) ResetChannel = 0" using pend by (simp add: count_eq_zero_iff)
  then have "cn_channel ?c \<noteq> Some (fd, b)" for fd b
    using ch st unfolding channel_inv_def by (cases b) (auto split: if_splits)
  then have chan: "cn_channel ?c = None" "cn_timers ?c = 0"
    using ch st by (auto simp: channel_inv_def intro: option.exhaust)
  have base: "tc_inv ?s" using inv conn by (simp add: tc_inv_def tr)
  show ?thesis
  proof (cases "tc_retry s \<and> tc_connect s")
    case False
    then show ?thesis using base conn by (auto simp: tc_removeConnection_def tc_emit_def Let_def)
  next
    case True
    let ?d = "?c\<lparr>cn_state := cDisconnected, cn_retryDelayMs := kInitRetryDelayMs, cn_connect := True\<rparr>"
    have "cn_inv None ?d" using cinv chan st
      by (auto simp: cn_inv_def sockets_inv_def channel_inv_def retry_ok_def waiting_def)
    then consider (ok) c where "startInLoop sock err ?d = Inr c" "cn_inv None c" | (dies) "startInLoop sock err ?d = Inl LogFatal"
      using startInLoop_ok[of None ?d sock err] chan by auto
    then show ?thesis
    proof cases
      case ok
      have "handed (cn_trace c) = handed (cn_trace ?c)" using handed_start[OF ok(1)] by simp
      then have "tc_inv (?s\<lparr>tc_connector := c\<rparr>)" using inv conn True ok(2) by (simp add: tc_inv_def tr)
      then show ?thesis using True conn ok(1) by (simp add: tc_removeConnection_def tc_emit_def Let_def cn_restart_def)
    next
      case dies
      then show ?thesis using True conn by (simp add: tc_removeConnection_def tc_emit_def Let_def cn_restart_def)
    qed
  qed
qed

text \<open>The connection that is made and not closed is the current one.\<close>

lemma current_connection:
  assumes "tc_inv s" "n \<in># mset (map fst (made (tc_trace s))) - mset (dropped (tc_trace s))"
  shows "tc_connection s = Some n"
proof -
  have "map fst (made (tc_trace s)) = dropped (tc_trace s) @ (case tc_connection s of None \<Rightarrow> [] | Some n \<Rightarrow> [n])"
    using assms(1) unfolding tc_inv_def by argo
  with assms(2) show ?thesis by (cases "tc_connection s") simp_all
qed

lemma tc_step_ok:
  assumes "tc_step s r" "tc_inv s"
  shows "(\<exists>s'. r = Inr s' \<and> tc_inv s') \<or> r = Inl LogFatal"
  using assms(1)
proof (cases rule: tc_step.cases)
  case (connector r')
  then show ?thesis using connector_step_ok[OF _ assms(2)] by fastforce
next
  case (closed n sock err)
  then show ?thesis using closed_step_ok[OF assms(2) current_connection[OF assms(2)]] by blast
next
  case disconnect
  then show ?thesis using assms(2) by (cases "tc_connection s") (simp_all add: tc_disconnect_def tc_emit_def tc_inv_def Let_def)
next
  case stop
  have "cn_inv None (cn_stop (tc_connector s))" using cn_step_inv[OF cn_step.stop] assms(2) by (auto simp: tc_inv_def)
  then show ?thesis using stop assms(2) by (simp add: tc_stop_def tc_inv_def cn_stop_def cn_queue_def split: option.splits)
qed

lemma tc_reach_inv: "tc_reach s0 s \<Longrightarrow> tc_inv s0 \<Longrightarrow> tc_inv s"
proof (induction rule: tc_reach.induct)
  case (step s s')
  then show ?case using tc_step_ok[OF step.hyps(2)] by auto
qed

text \<open>A client that was constructed, given reconnection if \<open>retry\<close>, and told to connect.\<close>

definition client_up :: "string \<Rightarrow> string \<Rightarrow> int \<Rightarrow> bool \<Rightarrow> int \<Rightarrow> conn_errno \<Rightarrow> tcp_client result" where
  "client_up name peer maxRetry retry fd err =
     tc_connect_op (Some fd) err ((if retry then enableRetry else id) (TcpClient_ctor name peer maxRetry))"

lemma client_up_inv:
  assumes "client_up name peer maxRetry retry fd err = Inr s"
  shows "tc_inv s" "tc_retry s = retry"
proof -
  obtain c where c: "cn_start (Some fd) err (setMaxRetry maxRetry Connector_ctor) = Inr c"
    "s = ((if retry then enableRetry else id) (TcpClient_ctor name peer maxRetry))\<lparr>tc_connect := True, tc_connector := c\<rparr>"
    using assms by (cases retry) (auto simp: client_up_def tc_connect_op_def enableRetry_def TcpClient_ctor_def result_simps)
  have "cn_inv None c" using cn_start_inv[OF c(1)] by (simp add: cn_inv_def retry_ok_def)
  moreover have "handed (cn_trace c) = []"
    using handed_start[of "Some fd" err _ c] c(1) by (simp add: cn_start_def setMaxRetry_def Connector_ctor_def)
  ultimately show "tc_inv s" "tc_retry s = retry"
    using c(2) by (auto simp: tc_inv_def TcpClient_ctor_def enableRetry_def)
qed

section \<open>Properties\<close>


text \<open>A client whose socket becomes writable.\<close>

definition demo_client :: tcp_client where
  "demo_client = projr (client_up ''c'' ''h:1'' 3 False 5 EINPROGRESS)"

definition demo_connected :: tcp_client where
  "demo_connected = tc_deliver (projr (cn_handleWrite False False (tc_connector demo_client))) demo_client"

lemmas demo_client_defs = demo_client_def demo_connected_def client_up_def tc_connect_op_def TcpClient_ctor_def
  cn_start_def startInLoop_def cn_connect_op_def connecting_def cn_emit_def setMaxRetry_def Connector_ctor_def
  cn_handleWrite_def removeAndResetChannel_def cn_queue_def tc_deliver_def newly_handed_def tc_newConnection_def
  tc_emit_def Let_def

lemma demo_client_up: "client_up ''c'' ''h:1'' 3 False 5 EINPROGRESS = Inr demo_client"
  by (simp add: demo_client_defs)

lemma demo_connected_reach: "tc_reach demo_client demo_connected"
proof -
  have "cn_channel (tc_connector demo_client) = Some (5, True)" by (simp add: demo_client_defs)
  from tc_step.connector[OF cn_step.writable[OF this, of False False]]
  have "tc_step demo_client (Inr demo_connected)" by (simp add: demo_client_defs)
  then show ?thesis by (rule tc_reach.step[OF tc_reach.start])
qed


end
