(* ===== verification/Net_TcpServer.thy ===== *)
theory Net_TcpServer
  imports Prelude
begin

text \<open>
  \<^verbatim>\<open>net/EventLoopThreadPool.cc\<close>, \<^verbatim>\<open>net/Acceptor.cc\<close> and \<^verbatim>\<open>net/TcpServer.{h,cc}\<close>: how accepted sockets become
  connections, which loop each is given to, and the table of the open ones. A loop and a connection are
  known by a number and a name; the loops that started threads run are a parameter, as are the results of
  \<^verbatim>\<open>accept\<close> and \<^verbatim>\<open>open\<close>. What the server asks of the loops of its connections is a trace.
\<close>

section \<open>The pool of loops\<close>

record loop_pool =
  lp_baseLoop :: nat
  lp_name :: string
  lp_started :: bool
  lp_numThreads :: int
  lp_next :: int
  lp_loops :: "nat list"
  lp_inited :: "nat list"   \<comment> \<open>the loops the initialisation callback was called on\<close>

definition EventLoopThreadPool_ctor :: "nat \<Rightarrow> string \<Rightarrow> loop_pool" where
  "EventLoopThreadPool_ctor base name = \<lparr>lp_baseLoop = base, lp_name = name, lp_started = False,
     lp_numThreads = 0, lp_next = 0, lp_loops = [], lp_inited = []\<rparr>"

definition pool_setThreadNum :: "int \<Rightarrow> loop_pool \<Rightarrow> loop_pool" where
  "pool_setThreadNum n p = p\<lparr>lp_numThreads := n\<rparr>"

text \<open>\<^verbatim>\<open>start\<close>: \<open>startLoop i name\<close> is the loop of the thread number \<open>i\<close>, which is given this name and calls the
  callback, if there is one, before \<^verbatim>\<open>startLoop\<close> returns.\<close>

definition pool_start :: "(nat \<Rightarrow> string \<Rightarrow> nat) \<Rightarrow> bool \<Rightarrow> loop_pool \<Rightarrow> loop_pool result" where
  "pool_start startLoop cb p =
     andThen (check (\<not> lp_started p)) (\<lambda>_.
     let ls = map (\<lambda>i. startLoop i (snprintf (length (lp_name p) + 32) (c_str (lp_name p) @ dec_nat i)))
                [0..<nat (lp_numThreads p)]
     in Inr (p\<lparr>lp_started := True, lp_loops := lp_loops p @ ls,
               lp_inited := lp_inited p @ (if cb then ls @ (if lp_numThreads p = 0 then [lp_baseLoop p] else [])
                                           else [])\<rparr>))"

definition getNextLoop :: "loop_pool \<Rightarrow> (nat \<times> loop_pool) result" where
  "getNextLoop p =
     andThen (check (lp_started p)) (\<lambda>_.
     if lp_loops p \<noteq> [] then
       if 0 \<le> lp_next p \<and> lp_next p < int (length (lp_loops p)) then
         let loop = lp_loops p ! nat (lp_next p);
             n = lp_next p + 1
         in Inr (loop, p\<lparr>lp_next := if int (length (lp_loops p)) \<le> n then 0 else n\<rparr>)
       else Inl SegFault
     else Inr (lp_baseLoop p, p))"

definition getLoopForHash :: "nat \<Rightarrow> loop_pool \<Rightarrow> nat" where
  "getLoopForHash hashCode p =
     (if lp_loops p \<noteq> [] then lp_loops p ! (hashCode mod length (lp_loops p)) else lp_baseLoop p)"

definition getAllLoops :: "loop_pool \<Rightarrow> nat list result" where
  "getAllLoops p = andThen (check (lp_started p)) (\<lambda>_.
     Inr (if lp_loops p = [] then [lp_baseLoop p] else lp_loops p))"

section \<open>The acceptor\<close>

text \<open>\<^verbatim>\<open>sockets::accept\<close>: the descriptor the kernel gives, or one of the errors a server goes on after. On the others
  it ends the process.\<close>

datatype accept_errno = A_EAGAIN | A_ECONNABORTED | A_EINTR | A_EPROTO | A_EPERM | A_EMFILE
  | A_EBADF | A_EFAULT | A_EINVAL | A_ENFILE | A_ENOBUFS | A_ENOMEM | A_ENOTSOCK | A_EOPNOTSUPP | A_unknown

definition expected_accept_errors :: "accept_errno set" where
  "expected_accept_errors = {A_EAGAIN, A_ECONNABORTED, A_EINTR, A_EPROTO, A_EPERM, A_EMFILE}"

definition sockets_accept :: "int \<Rightarrow> accept_errno \<Rightarrow> (accept_errno + int) result" where
  "sockets_accept connfd savedErrno =
     (if connfd < 0 then
        if savedErrno \<in> expected_accept_errors then Inr (Inl savedErrno) else Inl LogFatal
      else Inr (Inr connfd))"

record acceptor =
  ac_listenning :: bool
  ac_hasCallback :: bool
  ac_idleFd :: int

datatype accept_action = NewConnection int | CloseFd int

definition Acceptor_ctor :: "int \<Rightarrow> acceptor result" where
  "Acceptor_ctor idle = andThen (check (0 \<le> idle)) (\<lambda>_.
     Inr \<lparr>ac_listenning = False, ac_hasCallback = False, ac_idleFd = idle\<rparr>)"

definition acceptor_listen :: "acceptor \<Rightarrow> acceptor" where
  "acceptor_listen a = a\<lparr>ac_listenning := True\<rparr>"

text \<open>\<^verbatim>\<open>handleRead\<close>: out of descriptors, the idle one is given up to accept and drop the pending connection.
  \<open>second\<close> is what that \<^verbatim>\<open>accept\<close> returns and \<open>reopened\<close> the new idle descriptor.\<close>

definition acceptor_handleRead :: "int \<Rightarrow> accept_errno \<Rightarrow> int \<Rightarrow> int \<Rightarrow> acceptor \<Rightarrow>
    (accept_action list \<times> acceptor) result" where
  "acceptor_handleRead connfd err second reopened a = andThen (sockets_accept connfd err) (\<lambda>res.
     Inr (case res of
       Inr fd \<Rightarrow> ([if ac_hasCallback a then NewConnection fd else CloseFd fd], a)
     | Inl e \<Rightarrow> if e = A_EMFILE then ([CloseFd (ac_idleFd a), CloseFd second], a\<lparr>ac_idleFd := reopened\<rparr>)
               else ([], a)))"

section \<open>The server\<close>

record server_conn =
  sc_name :: string
  sc_loop :: nat
  sc_sockfd :: int

datatype server_event =
    Establish nat string int   \<comment> \<open>\<^verbatim>\<open>connectEstablished\<close> run in this loop\<close>
  | Destroy nat string         \<comment> \<open>\<^verbatim>\<open>connectDestroyed\<close> queued in this loop\<close>
  | Closed int                 \<comment> \<open>a descriptor closed by the acceptor\<close>

record tcp_server =
  sv_name :: string
  sv_ipPort :: string
  sv_acceptor :: acceptor
  sv_pool :: loop_pool
  sv_started :: bool
  sv_nextConnId :: int
  sv_connections :: "(string \<times> server_conn) list"
  sv_trace :: "server_event list"

definition TcpServer_ctor :: "nat \<Rightarrow> string \<Rightarrow> string \<Rightarrow> int \<Rightarrow> tcp_server result" where
  "TcpServer_ctor loop ipPort name idle =
     andThen (Acceptor_ctor idle) (\<lambda>a.
     Inr \<lparr>sv_name = name, sv_ipPort = ipPort, sv_acceptor = a\<lparr>ac_hasCallback := True\<rparr>,
          sv_pool = EventLoopThreadPool_ctor loop name, sv_started = False, sv_nextConnId = 1,
          sv_connections = [], sv_trace = []\<rparr>)"

definition sv_setThreadNum :: "int \<Rightarrow> tcp_server \<Rightarrow> tcp_server result" where
  "sv_setThreadNum n s = andThen (check (0 \<le> n)) (\<lambda>_. Inr (s\<lparr>sv_pool := pool_setThreadNum n (sv_pool s)\<rparr>))"

definition sv_start :: "(nat \<Rightarrow> string \<Rightarrow> nat) \<Rightarrow> bool \<Rightarrow> tcp_server \<Rightarrow> tcp_server result" where
  "sv_start startLoop cb s =
     (if sv_started s then Inr s
      else andThen (pool_start startLoop cb (sv_pool s)) (\<lambda>p.
           andThen (check (\<not> ac_listenning (sv_acceptor s))) (\<lambda>_.
           Inr (s\<lparr>sv_started := True, sv_pool := p, sv_acceptor := acceptor_listen (sv_acceptor s)\<rparr>))))"

definition conn_name :: "tcp_server \<Rightarrow> int \<Rightarrow> string" where
  "conn_name s connId = sv_name s @ snprintf 64 (''-'' @ c_str (sv_ipPort s) @ ''#'' @ dec_int connId)"

definition newConnection :: "int \<Rightarrow> tcp_server \<Rightarrow> tcp_server result" where
  "newConnection sockfd s =
     andThen (getNextLoop (sv_pool s)) (\<lambda>(ioLoop, p).
     let connName = conn_name s (sv_nextConnId s);
         conn = \<lparr>sc_name = connName, sc_loop = ioLoop, sc_sockfd = sockfd\<rparr>
     in Inr (s\<lparr>sv_pool := p, sv_nextConnId := sv_nextConnId s + 1,
               sv_connections := omap_put connName conn (sv_connections s),
               sv_trace := sv_trace s @ [Establish ioLoop connName sockfd]\<rparr>))"

text \<open>The acceptor's read event: \<^verbatim>\<open>handleRead\<close> with \<^verbatim>\<open>newConnection\<close> as the callback.\<close>

primrec run_accept :: "accept_action list \<Rightarrow> tcp_server \<Rightarrow> tcp_server result" where
  "run_accept [] s = Inr s"
| "run_accept (x # xs) s = andThen (case x of
       NewConnection fd \<Rightarrow> newConnection fd s
     | CloseFd fd \<Rightarrow> Inr (s\<lparr>sv_trace := sv_trace s @ [Closed fd]\<rparr>)) (run_accept xs)"

definition sv_handleRead :: "int \<Rightarrow> accept_errno \<Rightarrow> int \<Rightarrow> int \<Rightarrow> tcp_server \<Rightarrow> tcp_server result" where
  "sv_handleRead connfd err second reopened s =
     andThen (acceptor_handleRead connfd err second reopened (sv_acceptor s)) (\<lambda>(acts, a).
     run_accept acts (s\<lparr>sv_acceptor := a\<rparr>))"

definition removeConnectionInLoop :: "server_conn \<Rightarrow> tcp_server \<Rightarrow> tcp_server result" where
  "removeConnectionInLoop conn s =
     (let conns = omap_erase (sc_name conn) (sv_connections s)
      in andThen (check (length (sv_connections s) = length conns + 1)) (\<lambda>_.
         Inr (s\<lparr>sv_connections := conns, sv_trace := sv_trace s @ [Destroy (sc_loop conn) (sc_name conn)]\<rparr>)))"

definition TcpServer_dtor :: "tcp_server \<Rightarrow> server_event list" where
  "TcpServer_dtor s = map (\<lambda>(_, conn). Destroy (sc_loop conn) (sc_name conn)) (sv_connections s)"

section \<open>Steps\<close>

definition established :: "server_event list \<Rightarrow> (nat \<times> string) list" where
  "established tr = concat (map (\<lambda>e. case e of Establish l n fd \<Rightarrow> [(l, n)] | _ \<Rightarrow> []) tr)"

definition destroyed :: "server_event list \<Rightarrow> (nat \<times> string) list" where
  "destroyed tr = concat (map (\<lambda>e. case e of Destroy l n \<Rightarrow> [(l, n)] | _ \<Rightarrow> []) tr)"

text \<open>The listening socket is readable, and \<^verbatim>\<open>accept\<close> gives a descriptor or any error; or the close callback of a connection arrives
  that was established and not yet destroyed. The identifiers fit an \<^verbatim>\<open>int\<close>.\<close>

inductive sv_step :: "tcp_server \<Rightarrow> tcp_server result \<Rightarrow> bool" where
  readable: "sv_nextConnId s < 2 ^ 31 - 1 \<Longrightarrow> sv_step s (sv_handleRead connfd err second reopened s)"
| closed: "(sc_loop conn, sc_name conn) \<in> set (established (sv_trace s)) - set (destroyed (sv_trace s)) \<Longrightarrow>
    sv_step s (removeConnectionInLoop conn s)"

inductive sv_reach :: "tcp_server \<Rightarrow> tcp_server \<Rightarrow> bool" for s0 where
  start: "sv_reach s0 s0"
| step: "sv_reach s0 s \<Longrightarrow> sv_step s (Inr s') \<Longrightarrow> sv_reach s0 s'"

text \<open>The loop of the connection number \<open>i\<close>.\<close>

definition round_robin :: "loop_pool \<Rightarrow> nat \<Rightarrow> nat" where
  "round_robin p i = (if lp_loops p = [] then lp_baseLoop p else lp_loops p ! (i mod length (lp_loops p)))"

lemma ev_simps [simp]:
  "established [] = []" "established (tr @ [e]) = established tr @ (case e of Establish l n fd \<Rightarrow> [(l, n)] | _ \<Rightarrow> [])"
  "destroyed [] = []" "destroyed (tr @ [e]) = destroyed tr @ (case e of Destroy l n \<Rightarrow> [(l, n)] | _ \<Rightarrow> [])"
  by (simp_all add: established_def destroyed_def)

definition sv_inv :: "tcp_server \<Rightarrow> tcp_server \<Rightarrow> bool" where
  "sv_inv s0 s \<longleftrightarrow> (let k = length (established (sv_trace s)); p = sv_pool s in
     sv_name s = sv_name s0 \<and> sv_ipPort s = sv_ipPort s0 \<and> lp_loops p = lp_loops (sv_pool s0) \<and>
     lp_baseLoop p = lp_baseLoop (sv_pool s0) \<and> lp_started p \<and> ac_hasCallback (sv_acceptor s) \<and>
     lp_next p = (if lp_loops p = [] then 0 else int (k mod length (lp_loops p))) \<and>
     sv_nextConnId s = int k + 1 \<and> sv_nextConnId s < 2 ^ 31 \<and>
     established (sv_trace s) = map (\<lambda>i. (round_robin p i, conn_name s0 (int i + 1))) [0..<k] \<and>
     omap_wf (sv_connections s) \<and> (\<forall>(n, conn) \<in> set (sv_connections s). sc_name conn = n) \<and>
     (\<lambda>(n, conn). (sc_loop conn, n)) ` set (sv_connections s) \<union> set (destroyed (sv_trace s)) =
       set (established (sv_trace s)) \<and>
     (\<lambda>(n, conn). (sc_loop conn, n)) ` set (sv_connections s) \<inter> set (destroyed (sv_trace s)) = {} \<and>
     distinct (destroyed (sv_trace s)))"

section \<open>Names are unique\<close>

lemma conn_name_inj:
  assumes "length (sv_ipPort s) \<le> 50" "0 < i" "i < 2 ^ 31" "0 < j" "j < 2 ^ 31" "conn_name s i = conn_name s j"
  shows "i = j"
proof -
  have len: "length (''-'' @ c_str (sv_ipPort s) @ ''#'' @ dec_int k) < 64" if "0 < k" "k < 2 ^ 31" for k
  proof -
    have "nat k < 10 ^ Suc 9" using that by simp
    from length_dec_nat[OF this] have "length (dec_int k) \<le> 10" using that by (simp add: dec_int_def)
    moreover have "length (c_str (sv_ipPort s)) \<le> 50"
      using assms(1) length_takeWhile_le[of _ "sv_ipPort s"] by (auto simp: c_str_def intro: order_trans)
    ultimately show ?thesis by simp
  qed
  have "dec_int i = dec_int j"
    using assms(6) len[OF assms(2,3)] len[OF assms(4,5)] by (simp add: conn_name_def snprintf_id)
  then show ?thesis using assms(2,4) dec_nat_inj[of "nat i" "nat j"] by (simp add: dec_int_def)
qed

lemma set_omap_put_new: "k \<notin> fst ` set m \<Longrightarrow> set (omap_put k v m) = insert (k, v) (set m)"
  by (induction k v m rule: omap_put.induct) auto

lemma fresh_name:
  assumes "length (sv_ipPort s0) \<le> 50" "int k + 1 < 2 ^ 31"
  shows "conn_name s0 (int k + 1) \<notin> snd ` set (map (\<lambda>i. (f i, conn_name s0 (int i + 1))) [0..<k])"
proof
  assume "conn_name s0 (int k + 1) \<in> snd ` set (map (\<lambda>i. (f i, conn_name s0 (int i + 1))) [0..<k])"
  then obtain i where i: "i < k" "conn_name s0 (int k + 1) = conn_name s0 (int i + 1)" by auto
  from conn_name_inj[OF assms(1) _ _ _ _ i(2)] i(1) assms(2) show False by auto
qed

section \<open>The invariant is kept\<close>

lemma getNextLoop_ok:
  assumes "lp_started p" "lp_next p = (if lp_loops p = [] then 0 else int (k mod length (lp_loops p)))"
  shows "getNextLoop p = Inr (round_robin p k,
    p\<lparr>lp_next := if lp_loops p = [] then 0 else int (Suc k mod length (lp_loops p))\<rparr>)"
proof (cases "lp_loops p = []")
  case True then show ?thesis using assms by (simp add: getNextLoop_def round_robin_def)
next
  case False
  then have lt: "k mod length (lp_loops p) < length (lp_loops p)" by simp
  have "(if int (length (lp_loops p)) \<le> int (k mod length (lp_loops p)) + 1 then 0
      else int (k mod length (lp_loops p)) + 1) = int (Suc k mod length (lp_loops p))"
    using lt by (auto simp: mod_Suc)
  then show ?thesis using assms False lt by (simp add: getNextLoop_def round_robin_def Let_def)
qed

lemma round_robin_next [simp]: "round_robin (p\<lparr>lp_next := n\<rparr>) = round_robin p"
  by (simp add: round_robin_def fun_eq_iff)

lemma newConnection_ok:
  assumes inv: "sv_inv s0 s" and len: "length (sv_ipPort s0) \<le> 50" and id: "sv_nextConnId s < 2 ^ 31 - 1"
  shows "\<exists>s'. newConnection sockfd s = Inr s' \<and> sv_inv s0 s'"
proof -
  define k where "k = length (established (sv_trace s))"
  have I: "sv_name s = sv_name s0" "sv_ipPort s = sv_ipPort s0" "lp_started (sv_pool s)"
    "lp_next (sv_pool s) = (if lp_loops (sv_pool s) = [] then 0 else int (k mod length (lp_loops (sv_pool s))))"
    "sv_nextConnId s = int k + 1"
    "established (sv_trace s) = map (\<lambda>i. (round_robin (sv_pool s) i, conn_name s0 (int i + 1))) [0..<k]"
    "(\<lambda>(n, conn). (sc_loop conn, n)) ` set (sv_connections s) \<union> set (destroyed (sv_trace s)) =
       set (established (sv_trace s))"
    using inv unfolding sv_inv_def Let_def k_def[symmetric] by blast+
  let ?n = "conn_name s0 (int k + 1)" and ?l = "round_robin (sv_pool s) k"
  let ?conn = "\<lparr>sc_name = ?n, sc_loop = ?l, sc_sockfd = sockfd\<rparr>"
  have name: "conn_name s (int k + 1) = ?n" using I(1,2) by (simp add: conn_name_def)
  have fresh: "?n \<notin> snd ` set (established (sv_trace s))"
    unfolding I(6) by (rule fresh_name[OF len]) (use id I(5) in simp)
  have new: "?n \<notin> fst ` set (sv_connections s)" "(l, ?n) \<notin> set (destroyed (sv_trace s))" for l
    using fresh I(7) by force+
  let ?s = "s\<lparr>sv_pool := (sv_pool s)\<lparr>lp_next := if lp_loops (sv_pool s) = [] then 0
      else int (Suc k mod length (lp_loops (sv_pool s)))\<rparr>, sv_nextConnId := int k + 1 + 1,
    sv_connections := omap_put ?n ?conn (sv_connections s), sv_trace := sv_trace s @ [Establish ?l ?n sockfd]\<rparr>"
  have run: "newConnection sockfd s = Inr ?s"
    using getNextLoop_ok[OF I(3,4)] I(5) name by (simp add: newConnection_def Let_def)
  have "(\<lambda>(n, conn). (sc_loop conn, n)) ` set (sv_connections ?s) =
      insert (?l, ?n) ((\<lambda>(n, conn). (sc_loop conn, n)) ` set (sv_connections s))"
    using set_omap_put_new[OF new(1), of ?conn] by simp
  moreover have "\<forall>(n, conn) \<in> set (sv_connections ?s). sc_name conn = n"
    using set_omap_put_new[OF new(1), of ?conn] inv by (simp add: sv_inv_def Let_def)
  moreover have "established (sv_trace ?s) =
      map (\<lambda>i. (round_robin (sv_pool ?s) i, conn_name s0 (int i + 1))) [0..<Suc k]"
    using I(6) by simp
  moreover have "omap_wf (sv_connections ?s)"
    using inv omap_wf_put[of "sv_connections s" ?n ?conn] by (simp add: sv_inv_def Let_def)
  ultimately have "sv_inv s0 ?s"
    using inv id I(5,7) new(2) unfolding sv_inv_def Let_def by (simp add: k_def[symmetric])
  then show ?thesis using run by blast
qed

lemma remove_ok:
  assumes inv: "sv_inv s0 s" and conn: "(sc_name conn, conn) \<in> set (sv_connections s)"
  shows "\<exists>s'. removeConnectionInLoop conn s = Inr s' \<and> sv_inv s0 s'"
proof -
  let ?f = "\<lambda>(n, conn). (sc_loop conn, n)"
  let ?e = "(sc_loop conn, sc_name conn)"
  have wf: "omap_wf (sv_connections s)" using inv by (simp add: sv_inv_def Let_def)
  have uniq: "c = conn" if "(sc_name conn, c) \<in> set (sv_connections s)" for c
    using eq_key_imp_eq_value[OF omap_wf_distinct[OF wf] that conn] .
  have set_: "set (omap_erase (sc_name conn) (sv_connections s)) = set (sv_connections s) - {(sc_name conn, conn)}"
    using uniq by (auto simp: omap_erase_def)
  have img: "?f ` (set (sv_connections s) - {(sc_name conn, conn)}) = ?f ` set (sv_connections s) - {?e}"
    using uniq conn by (auto simp: image_iff)
  have e: "?e \<in> ?f ` set (sv_connections s)" using conn by force
  let ?s = "s\<lparr>sv_connections := omap_erase (sc_name conn) (sv_connections s),
    sv_trace := sv_trace s @ [Destroy (sc_loop conn) (sc_name conn)]\<rparr>"
  have run: "removeConnectionInLoop conn s = Inr ?s"
    using length_omap_erase[OF wf map_of_is_SomeI[OF omap_wf_distinct[OF wf] conn]]
    by (simp add: removeConnectionInLoop_def Let_def)
  have img_: "?f ` set (sv_connections ?s) = ?f ` set (sv_connections s) - {?e}"
    using img set_ by simp
  have I: "?f ` set (sv_connections s) \<union> set (destroyed (sv_trace s)) = set (established (sv_trace s))"
    "?f ` set (sv_connections s) \<inter> set (destroyed (sv_trace s)) = {}" "distinct (destroyed (sv_trace s))"
    "\<forall>(n, conn) \<in> set (sv_connections s). sc_name conn = n"
    using inv unfolding sv_inv_def Let_def by blast+
  have "?f ` set (sv_connections ?s) \<union> set (destroyed (sv_trace ?s)) = set (established (sv_trace ?s))"
    unfolding img_ using I(1) e by simp blast
  moreover have "?f ` set (sv_connections ?s) \<inter> set (destroyed (sv_trace ?s)) = {}"
    unfolding img_ using I(2) by simp blast
  moreover have "distinct (destroyed (sv_trace ?s))" using I(2,3) e by simp blast
  moreover have "\<forall>(n, conn) \<in> set (sv_connections ?s). sc_name conn = n" using I(4) set_ by simp
  moreover have "omap_wf (sv_connections ?s)" using omap_wf_erase[OF wf] by simp
  ultimately have "sv_inv s0 ?s" using inv unfolding sv_inv_def Let_def by simp
  then show ?thesis using run by blast
qed

lemma sv_inv_closed [simp]:
  "sv_inv s0 (s\<lparr>sv_acceptor := a, sv_trace := sv_trace s @ [Closed x]\<rparr>) = sv_inv s0 (s\<lparr>sv_acceptor := a\<rparr>)"
  "sv_inv s0 (s\<lparr>sv_acceptor := a, sv_trace := sv_trace s @ [Closed x, Closed y]\<rparr>) = sv_inv s0 (s\<lparr>sv_acceptor := a\<rparr>)"
  using ev_simps(2)[of "sv_trace s @ [Closed x]" "Closed y"] ev_simps(4)[of "sv_trace s @ [Closed x]" "Closed y"]
  by (simp_all add: sv_inv_def)

lemma sv_handleRead_ok:
  assumes inv: "sv_inv s0 s" and len: "length (sv_ipPort s0) \<le> 50" and id: "sv_nextConnId s < 2 ^ 31 - 1"
  shows "if connfd < 0 \<and> err \<notin> expected_accept_errors then sv_handleRead connfd err second reopened s = Inl LogFatal
    else \<exists>s'. sv_handleRead connfd err second reopened s = Inr s' \<and> sv_inv s0 s'"
proof -
  have cb: "ac_hasCallback (sv_acceptor s)" using inv by (simp add: sv_inv_def Let_def)
  have idle: "sv_inv s0 (s\<lparr>sv_acceptor := (sv_acceptor s)\<lparr>ac_idleFd := reopened\<rparr>\<rparr>)"
    using inv by (simp add: sv_inv_def)
  show ?thesis
  proof (cases "0 \<le> connfd")
    case True
    from newConnection_ok[OF inv len id, of connfd] obtain s' where "newConnection connfd s = Inr s'" "sv_inv s0 s'" by blast
    then show ?thesis using True cb by (simp add: sv_handleRead_def acceptor_handleRead_def sockets_accept_def)
  next
    case False
    then show ?thesis using inv idle
      by (simp add: sv_handleRead_def acceptor_handleRead_def sockets_accept_def)
  qed
qed

text \<open>The entry of a connection that was established and not destroyed.\<close>

lemma live_connection:
  assumes "sv_inv s0 s" "(sc_loop conn, sc_name conn) \<in> set (established (sv_trace s)) - set (destroyed (sv_trace s))"
  obtains c where "(sc_name c, c) \<in> set (sv_connections s)" "sc_name c = sc_name conn" "sc_loop c = sc_loop conn"
proof -
  have "(\<lambda>(n, conn). (sc_loop conn, n)) ` set (sv_connections s) \<union> set (destroyed (sv_trace s)) =
       set (established (sv_trace s))" "\<forall>(n, conn) \<in> set (sv_connections s). sc_name conn = n"
    using assms(1) unfolding sv_inv_def Let_def by blast+
  moreover from this(1) assms(2) have "(sc_loop conn, sc_name conn) \<in> (\<lambda>(n, conn). (sc_loop conn, n)) ` set (sv_connections s)"
    by blast
  then obtain n c where "(n, c) \<in> set (sv_connections s)" "sc_loop c = sc_loop conn" "n = sc_name conn" by auto
  ultimately show ?thesis using that[of c] by auto
qed

lemma sv_step_inv:
  assumes "sv_step s r" "sv_inv s0 s" "length (sv_ipPort s0) \<le> 50"
  shows "(\<exists>s'. r = Inr s' \<and> sv_inv s0 s') \<or> r = Inl LogFatal"
  using assms(1)
proof (cases rule: sv_step.cases)
  case (readable connfd err second reopened)
  then show ?thesis using sv_handleRead_ok[OF assms(2,3), of connfd err second reopened] by (auto split: if_splits)
next
  case (closed conn)
  obtain c where c: "(sc_name c, c) \<in> set (sv_connections s)" "sc_name c = sc_name conn" "sc_loop c = sc_loop conn"
    using live_connection[OF assms(2) closed(2)] .
  then have "removeConnectionInLoop conn s = removeConnectionInLoop c s" by (simp add: removeConnectionInLoop_def)
  then show ?thesis using remove_ok[OF assms(2) c(1)] closed(1) by simp
qed

lemma sv_reach_inv: "sv_reach s0 s \<Longrightarrow> sv_inv s0 s0 \<Longrightarrow> length (sv_ipPort s0) \<le> 50 \<Longrightarrow> sv_inv s0 s"
proof (induction rule: sv_reach.induct)
  case (step s s')
  then show ?case using sv_step_inv[OF step.hyps(2)] by auto
qed

text \<open>A server that was constructed, given a number of threads and started.\<close>

definition server_up :: "nat \<Rightarrow> string \<Rightarrow> string \<Rightarrow> int \<Rightarrow> int \<Rightarrow> (nat \<Rightarrow> string \<Rightarrow> nat) \<Rightarrow> bool \<Rightarrow>
    tcp_server result" where
  "server_up loop ipPort name idle threads startLoop cb =
     andThen (TcpServer_ctor loop ipPort name idle) (\<lambda>s.
     andThen (sv_setThreadNum threads s) (sv_start startLoop cb))"

lemma server_up_inv:
  assumes "server_up loop ipPort name idle threads startLoop cb = Inr s0"
  shows "sv_inv s0 s0" "sv_ipPort s0 = ipPort" "length (lp_loops (sv_pool s0)) = nat threads"
  using assms
  by (auto simp: server_up_def TcpServer_ctor_def sv_setThreadNum_def sv_start_def pool_start_def sv_inv_def
      Acceptor_ctor_def EventLoopThreadPool_ctor_def pool_setThreadNum_def acceptor_listen_def result_simps Let_def)

lemma sv_inv_facts:
  assumes inv: "sv_inv s0 s" and len: "length (sv_ipPort s0) \<le> 50"
  shows "established (sv_trace s) = map (\<lambda>i. (round_robin (sv_pool s0) i, conn_name s0 (int i + 1)))
           [0..<length (established (sv_trace s))]"
    and "distinct (map snd (established (sv_trace s)))"
    and "set (map (\<lambda>(n, conn). (sc_loop conn, n)) (sv_connections s)) =
           set (established (sv_trace s)) - set (destroyed (sv_trace s))"
    and "set (destroyed (sv_trace s)) \<subseteq> set (established (sv_trace s))" "distinct (destroyed (sv_trace s))"
proof -
  have rr: "round_robin (sv_pool s) = round_robin (sv_pool s0)"
    using inv by (simp add: sv_inv_def Let_def round_robin_def fun_eq_iff)
  show est: "established (sv_trace s) = map (\<lambda>i. (round_robin (sv_pool s0) i, conn_name s0 (int i + 1)))
           [0..<length (established (sv_trace s))]"
    using inv unfolding rr[symmetric] sv_inv_def Let_def by blast
  have k: "int (length (established (sv_trace s))) + 1 < 2 ^ 31" using inv unfolding sv_inv_def Let_def by simp
  have "inj_on (\<lambda>i. conn_name s0 (int i + 1)) {..<length (established (sv_trace s))}"
    using k conn_name_inj[OF len] by (intro inj_onI) force
  then show "distinct (map snd (established (sv_trace s)))"
    by (subst est) (simp add: distinct_map comp_def lessThan_atLeast0 inj_on_def)
  have "(\<lambda>(n, conn). (sc_loop conn, n)) ` set (sv_connections s) \<union> set (destroyed (sv_trace s)) =
       set (established (sv_trace s))"
     "(\<lambda>(n, conn). (sc_loop conn, n)) ` set (sv_connections s) \<inter> set (destroyed (sv_trace s)) = {}"
    using inv unfolding sv_inv_def Let_def by blast+
  then show "set (map (\<lambda>(n, conn). (sc_loop conn, n)) (sv_connections s)) =
      set (established (sv_trace s)) - set (destroyed (sv_trace s))"
    "set (destroyed (sv_trace s)) \<subseteq> set (established (sv_trace s))" by auto
  show "distinct (destroyed (sv_trace s))" using inv unfolding sv_inv_def Let_def by blast
qed

text \<open>
  (C28) The connections of a server: once it is up, and as long as its connection numbers fit an \<^verbatim>\<open>int\<close>, no close callback of a connection
  that was established and not destroyed makes it fail, and an event of the listening socket does exactly when \<^verbatim>\<open>accept\<close>
  fails with an error other than \<^verbatim>\<open>EAGAIN\<close>, \<^verbatim>\<open>ECONNABORTED\<close>, \<^verbatim>\<open>EINTR\<close>, \<^verbatim>\<open>EPROTO\<close>, \<^verbatim>\<open>EPERM\<close> and \<^verbatim>\<open>EMFILE\<close>: then \<^verbatim>\<open>LOG_FATAL\<close> ends
  the process. Its connections are given to the loops of the pool in turn, each under a name of its own. The
  table holds the connections that were established and not yet destroyed, and each is destroyed at most
  once. The address text is at most 50 bytes, so that no name is cut by the 64 byte buffer.
\<close>

theorem server_connections_consistent:
  assumes "server_up loop ipPort name idle threads startLoop cb = Inr s0" "length ipPort \<le> 50" "sv_reach s0 s"
  shows "(\<forall>e. sv_step s (Inl e) \<longrightarrow> e = LogFatal) \<and>
    (sv_nextConnId s < 2 ^ 31 - 1 \<longrightarrow> (\<forall>connfd err second reopened.
      sv_handleRead connfd err second reopened s = Inl LogFatal \<longleftrightarrow>
      connfd < 0 \<and> err \<notin> {A_EAGAIN, A_ECONNABORTED, A_EINTR, A_EPROTO, A_EPERM, A_EMFILE})) \<and>
    (\<forall>conn. (sc_loop conn, sc_name conn) \<in> set (established (sv_trace s)) - set (destroyed (sv_trace s)) \<longrightarrow>
      (\<exists>s'. removeConnectionInLoop conn s = Inr s')) \<and>
    established (sv_trace s) = map (\<lambda>i. (round_robin (sv_pool s0) i, conn_name s0 (int i + 1)))
      [0..<length (established (sv_trace s))] \<and>
    distinct (map snd (established (sv_trace s))) \<and>
    set (map (\<lambda>(n, conn). (sc_loop conn, n)) (sv_connections s)) =
      set (established (sv_trace s)) - set (destroyed (sv_trace s)) \<and>
    set (destroyed (sv_trace s)) \<subseteq> set (established (sv_trace s)) \<and> distinct (destroyed (sv_trace s))"
proof -
  note up = server_up_inv[OF assms(1)]
  have len: "length (sv_ipPort s0) \<le> 50" using assms(2) up(2) by simp
  have inv: "sv_inv s0 s" by (rule sv_reach_inv[OF assms(3) up(1) len])
  have 1: "\<forall>e. sv_step s (Inl e) \<longrightarrow> e = LogFatal" using sv_step_inv[OF _ inv len] by blast
  have 2: "sv_handleRead connfd err second reopened s = Inl LogFatal \<longleftrightarrow>
      connfd < 0 \<and> err \<notin> {A_EAGAIN, A_ECONNABORTED, A_EINTR, A_EPROTO, A_EPERM, A_EMFILE}"
    if "sv_nextConnId s < 2 ^ 31 - 1" for connfd err second reopened
    using sv_handleRead_ok[OF inv len that, of connfd err second reopened]
    by (auto simp: expected_accept_errors_def split: if_splits)
  have 3: "\<exists>s'. removeConnectionInLoop conn s = Inr s'"
    if c: "(sc_loop conn, sc_name conn) \<in> set (established (sv_trace s)) - set (destroyed (sv_trace s))" for conn
  proof -
    obtain k where k: "(sc_name k, k) \<in> set (sv_connections s)" "sc_name k = sc_name conn" "sc_loop k = sc_loop conn"
      using live_connection[OF inv c] .
    then have "removeConnectionInLoop conn s = removeConnectionInLoop k s" by (simp add: removeConnectionInLoop_def)
    then show ?thesis using remove_ok[OF inv k(1)] by auto
  qed
  show ?thesis using 1 2 3 sv_inv_facts[OF inv len] by blast
qed

text \<open>A server of two loops: a connection, a second one, the first closes, and out of descriptors.\<close>

definition demo_server :: tcp_server where
  "demo_server = (case server_up 0 ''h:1'' ''S'' 3 2 (\<lambda>i _. 10 + i) False of Inr s \<Rightarrow> s)"

definition demo_two :: tcp_server where
  "demo_two = (case andThen (sv_handleRead 7 A_EAGAIN 0 0 demo_server) (sv_handleRead 8 A_EAGAIN 0 0) of Inr s \<Rightarrow> s)"

definition demo_one_left :: tcp_server where
  "demo_one_left = (case andThen (removeConnectionInLoop \<lparr>sc_name = ''S-h:1#1'', sc_loop = 10, sc_sockfd = 7\<rparr> demo_two)
     (sv_handleRead (- 1) A_EMFILE 4 3) of Inr s \<Rightarrow> s)"

lemma demo_server_up: "server_up 0 ''h:1'' ''S'' 3 2 (\<lambda>i _. 10 + i) False = Inr demo_server"
  by code_simp

lemma demo_one_left_reach: "sv_reach demo_server demo_one_left"
proof -
  have id: "sv_nextConnId demo_server < 2 ^ 31 - 1" by code_simp
  obtain s1 where s1: "sv_handleRead 7 A_EAGAIN 0 0 demo_server = Inr s1" "sv_handleRead 8 A_EAGAIN 0 0 s1 = Inr demo_two"
    "sv_nextConnId s1 = 2"
    by (rule that[of "projr (sv_handleRead 7 A_EAGAIN 0 0 demo_server)"]) code_simp+
  obtain s3 where s3: "removeConnectionInLoop \<lparr>sc_name = ''S-h:1#1'', sc_loop = 10, sc_sockfd = 7\<rparr> demo_two = Inr s3"
    "sv_handleRead (- 1) A_EMFILE 4 3 s3 = Inr demo_one_left" "sv_nextConnId s3 = 3"
    by (rule that[of "projr (removeConnectionInLoop \<lparr>sc_name = ''S-h:1#1'', sc_loop = 10, sc_sockfd = 7\<rparr> demo_two)"])
      code_simp+
  have m: "(10, ''S-h:1#1'') \<in> set (established (sv_trace demo_two)) - set (destroyed (sv_trace demo_two))"
    by code_simp
  have "sv_reach demo_server s1" using sv_reach.step[OF sv_reach.start, of demo_server s1] sv_step.readable[of demo_server 7 A_EAGAIN 0 0] id s1(1) by simp
  then have "sv_reach demo_server demo_two"
    using sv_reach.step sv_step.readable[of s1 8 A_EAGAIN 0 0] s1(2,3) by fastforce
  then have "sv_reach demo_server s3"
    using sv_reach.step sv_step.closed[of "\<lparr>sc_name = ''S-h:1#1'', sc_loop = 10, sc_sockfd = 7\<rparr>" demo_two] m s3(1)
    by fastforce
  then show ?thesis using sv_reach.step sv_step.readable[of s3 "- 1" A_EMFILE 4 3] s3(2,3) by (fastforce simp: expected_accept_errors_def)
qed

theorem server_connections_consistent_witness:
  "established (sv_trace demo_one_left) = [(10, ''S-h:1#1''), (11, ''S-h:1#2'')] \<and>
   destroyed (sv_trace demo_one_left) = [(10, ''S-h:1#1'')] \<and>
   set (map (\<lambda>(n, conn). (sc_loop conn, n)) (sv_connections demo_one_left)) =
     set (established (sv_trace demo_one_left)) - set (destroyed (sv_trace demo_one_left))"
proof -
  have "length ''h:1'' \<le> 50" by simp
  moreover have "established (sv_trace demo_one_left) = [(10, ''S-h:1#1''), (11, ''S-h:1#2'')]"
    "destroyed (sv_trace demo_one_left) = [(10, ''S-h:1#1'')]" by code_simp+
  ultimately show ?thesis
    using server_connections_consistent[OF demo_server_up _ demo_one_left_reach] by blast
qed

end
