(* ===== verification/Yaml_Stream.thy ===== *)
theory Yaml_Stream
  imports Prelude
begin

unbundle bit_operations_syntax

text \<open>
  The character stream of the vendored YAML library (\<^verbatim>\<open>src/lib/yaml-cpp/stream.cpp\<close>, \<^verbatim>\<open>stream.h\<close>): the encoding is
  guessed from the first bytes of the input, which are put back unless they are a byte order mark, and the text
  is handed out as UTF-8, one byte at a time.

  The input is the list of bytes not yet taken from the stream buffer. Reading past its end sets \<^verbatim>\<open>eofbit\<close>, the field
  \<open>s_good\<close>. An \<^verbatim>\<open>unsigned long\<close> that holds a code unit is a \<open>nat\<close>: no operation on one leaves its range.

  Theorems: what the stream delivers is the decoding of the bytes after the mark, followed by end markers
  (\<open>stream_delivers\<close>); for well-formed UTF-16 and UTF-32 in either byte order that is the UTF-8 encoding of the code
  points; the five byte order marks are recognised and taken.
\<close>

section \<open>Guessing the encoding\<close>

datatype intro_state =
    uis_start | uis_utfbe_b1 | uis_utf32be_b2 | uis_utf32be_bom3 | uis_utf32be | uis_utf16be | uis_utf16be_bom1
  | uis_utfle_bom1 | uis_utf16le_bom2 | uis_utf32le_bom3 | uis_utf16le | uis_utf32le | uis_utf8_imp
  | uis_utf16le_imp | uis_utf32le_imp3 | uis_utf8_bom1 | uis_utf8_bom2 | uis_utf8 | uis_error

datatype intro_char = uict00 | uictBB | uictBF | uictEF | uictFE | uictFF | uictAscii | uictOther

fun introFinalState :: "intro_state \<Rightarrow> bool" where
  "introFinalState uis_utf32be = True"
| "introFinalState uis_utf16be = True"
| "introFinalState uis_utf16le = True"
| "introFinalState uis_utf32le = True"
| "introFinalState uis_utf8 = True"
| "introFinalState uis_error = True"
| "introFinalState _ = False"

text \<open>The rows of the transition table, one entry per character class in the order of \<open>intro_char\<close>. There is no
  row for \<^verbatim>\<open>uis_error\<close>.\<close>

fun introTransitions :: "intro_state \<Rightarrow> intro_state list" where
  "introTransitions uis_start = [uis_utfbe_b1, uis_utf8, uis_utf8, uis_utf8_bom1, uis_utf16be_bom1,
     uis_utfle_bom1, uis_utf8_imp, uis_utf8]"
| "introTransitions uis_utfbe_b1 = [uis_utf32be_b2, uis_utf8, uis_utf8, uis_utf8, uis_utf8, uis_utf8, uis_utf16be, uis_utf8]"
| "introTransitions uis_utf32be_b2 = [uis_utf32be, uis_utf8, uis_utf8, uis_utf8, uis_utf32be_bom3, uis_utf8, uis_utf8, uis_utf8]"
| "introTransitions uis_utf32be_bom3 = [uis_utf8, uis_utf8, uis_utf8, uis_utf8, uis_utf8, uis_utf32be, uis_utf8, uis_utf8]"
| "introTransitions uis_utf32be = replicate 8 uis_utf32be"
| "introTransitions uis_utf16be = replicate 8 uis_utf16be"
| "introTransitions uis_utf16be_bom1 = [uis_utf8, uis_utf8, uis_utf8, uis_utf8, uis_utf8, uis_utf16be, uis_utf8, uis_utf8]"
| "introTransitions uis_utfle_bom1 = [uis_utf8, uis_utf8, uis_utf8, uis_utf8, uis_utf16le_bom2, uis_utf8, uis_utf8, uis_utf8]"
| "introTransitions uis_utf16le_bom2 = uis_utf32le_bom3 # replicate 7 uis_utf16le"
| "introTransitions uis_utf32le_bom3 = uis_utf32le # replicate 7 uis_utf16le"
| "introTransitions uis_utf16le = replicate 8 uis_utf16le"
| "introTransitions uis_utf32le = replicate 8 uis_utf32le"
| "introTransitions uis_utf8_imp = uis_utf16le_imp # replicate 7 uis_utf8"
| "introTransitions uis_utf16le_imp = uis_utf32le_imp3 # replicate 7 uis_utf16le"
| "introTransitions uis_utf32le_imp3 = uis_utf32le # replicate 7 uis_utf16le"
| "introTransitions uis_utf8_bom1 = [uis_utf8, uis_utf8_bom2, uis_utf8, uis_utf8, uis_utf8, uis_utf8, uis_utf8, uis_utf8]"
| "introTransitions uis_utf8_bom2 = replicate 8 uis_utf8"
| "introTransitions uis_utf8 = replicate 8 uis_utf8"
| "introTransitions uis_error = []"

fun introUngetCount :: "intro_state \<Rightarrow> nat list" where
  "introUngetCount uis_start = [0, 1, 1, 0, 0, 0, 0, 1]"
| "introUngetCount uis_utfbe_b1 = [0, 2, 2, 2, 2, 2, 2, 2]"
| "introUngetCount uis_utf32be_b2 = [3, 3, 3, 3, 0, 3, 3, 3]"
| "introUngetCount uis_utf32be_bom3 = [4, 4, 4, 4, 4, 0, 4, 4]"
| "introUngetCount uis_utf32be = replicate 8 1"
| "introUngetCount uis_utf16be = replicate 8 1"
| "introUngetCount uis_utf16be_bom1 = [2, 2, 2, 2, 2, 0, 2, 2]"
| "introUngetCount uis_utfle_bom1 = [2, 2, 2, 2, 0, 2, 2, 2]"
| "introUngetCount uis_utf16le_bom2 = [0, 1, 1, 1, 1, 1, 1, 1]"
| "introUngetCount uis_utf32le_bom3 = [0, 2, 2, 2, 2, 2, 2, 2]"
| "introUngetCount uis_utf16le = replicate 8 1"
| "introUngetCount uis_utf32le = replicate 8 1"
| "introUngetCount uis_utf8_imp = [0, 2, 2, 2, 2, 2, 2, 2]"
| "introUngetCount uis_utf16le_imp = [0, 3, 3, 3, 3, 3, 3, 3]"
| "introUngetCount uis_utf32le_imp3 = replicate 8 4"
| "introUngetCount uis_utf8_bom1 = [2, 0, 2, 2, 2, 2, 2, 2]"
| "introUngetCount uis_utf8_bom2 = [3, 3, 0, 3, 3, 3, 3, 3]"
| "introUngetCount uis_utf8 = replicate 8 1"
| "introUngetCount uis_error = []"

definition IntroCharTypeOf :: "char option \<Rightarrow> intro_char" where
  "IntroCharTypeOf c = (case c of
     None \<Rightarrow> uictOther
   | Some b \<Rightarrow> (let ch = of_char b :: nat in
       if ch = 0 then uict00 else if ch = 0xBB then uictBB else if ch = 0xBF then uictBF
       else if ch = 0xEF then uictEF else if ch = 0xFE then uictFE else if ch = 0xFF then uictFF
       else if 0 < ch \<and> ch < 0xFF then uictAscii else uictOther))"

fun char_index :: "intro_char \<Rightarrow> nat" where
  "char_index uict00 = 0" | "char_index uictBB = 1" | "char_index uictBF = 2" | "char_index uictEF = 3"
| "char_index uictFE = 4" | "char_index uictFF = 5" | "char_index uictAscii = 6" | "char_index uictOther = 7"

text \<open>One turn of the loop: a character is read (or the end is met), the last \<open>n\<close> of the characters read are put back. The
  end of the input is not put back; the stream is cleared whenever it may have been met.\<close>

definition intro_step :: "intro_state \<times> char option list \<times> string \<Rightarrow> intro_state \<times> char option list \<times> string" where
  "intro_step = (\<lambda>(state, intro, input).
     let ch = (case input of [] \<Rightarrow> None | c # _ \<Rightarrow> Some c);
         i = char_index (IntroCharTypeOf ch);
         seen = intro @ [ch];
         n = introUngetCount state ! i
     in (introTransitions state ! i, take (length seen - n) seen,
         map the (filter (\<lambda>c. c \<noteq> None) (drop (length seen - n) seen)) @ tl input))"

text \<open>The number of characters a state can still be away from a final one.\<close>

fun intro_rank :: "intro_state \<Rightarrow> nat" where
  "intro_rank uis_start = 4"
| "intro_rank uis_utfbe_b1 = 3" | "intro_rank uis_utf32be_b2 = 2" | "intro_rank uis_utf32be_bom3 = 1"
| "intro_rank uis_utf16be_bom1 = 1"
| "intro_rank uis_utfle_bom1 = 3" | "intro_rank uis_utf16le_bom2 = 2" | "intro_rank uis_utf32le_bom3 = 1"
| "intro_rank uis_utf8_imp = 3" | "intro_rank uis_utf16le_imp = 2" | "intro_rank uis_utf32le_imp3 = 1"
| "intro_rank uis_utf8_bom1 = 2" | "intro_rank uis_utf8_bom2 = 1"
| "intro_rank _ = 0"

lemma intro_step_rank:
  "\<not> introFinalState state \<Longrightarrow> intro_rank (fst (intro_step (state, intro, input))) < intro_rank state"
  by (cases state; cases "IntroCharTypeOf (case input of [] \<Rightarrow> None | c # _ \<Rightarrow> Some c)")
    (simp_all add: intro_step_def Let_def eval_nat_numeral)

function intro_loop :: "intro_state \<times> char option list \<times> string \<Rightarrow> intro_state \<times> char option list \<times> string" where
  "intro_loop s = (if introFinalState (fst s) then s else intro_loop (intro_step s))"
  by pat_completeness auto
termination
  by (relation "measure (\<lambda>s. intro_rank (fst s))") (auto simp: intro_step_rank)

declare intro_loop.simps [simp del]

datatype charset = utf8 | utf16le | utf16be | utf32le | utf32be

fun charset_of :: "intro_state \<Rightarrow> charset" where
  "charset_of uis_utf16le = utf16le"
| "charset_of uis_utf16be = utf16be"
| "charset_of uis_utf32le = utf32le"
| "charset_of uis_utf32be = utf32be"
| "charset_of _ = utf8"

definition detect :: "string \<Rightarrow> charset \<times> string" where
  "detect input = (case intro_loop (uis_start, [], input) of (state, _, rest) \<Rightarrow> (charset_of state, rest))"

section \<open>Writing UTF-8\<close>

definition Utf8Adjust :: "nat \<Rightarrow> nat \<Rightarrow> nat \<Rightarrow> char" where
  "Utf8Adjust ch lead_bits rshift =
     (let header = push_bit (8 - lead_bits) (push_bit lead_bits 1 - 1) mod 256;
          msk = drop_bit (lead_bits + 1) 0xFF
      in char_of (header OR (drop_bit rshift ch AND msk)))"

definition stream_eof :: char where
  "stream_eof = CHR 0x04"

definition CP_REPLACEMENT_CHARACTER :: nat where
  "CP_REPLACEMENT_CHARACTER = 0xFFFD"

definition QueueUnicodeCodepoint :: "string \<Rightarrow> nat \<Rightarrow> string" where
  "QueueUnicodeCodepoint q c =
     (let ch = (if of_char stream_eof = c then CP_REPLACEMENT_CHARACTER else c) in
      if ch < 0x80 then q @ [Utf8Adjust ch 0 0]
      else if ch < 0x800 then q @ [Utf8Adjust ch 2 6, Utf8Adjust ch 1 0]
      else if ch < 0x10000 then q @ [Utf8Adjust ch 3 12, Utf8Adjust ch 1 6, Utf8Adjust ch 1 0]
      else q @ [Utf8Adjust ch 4 18, Utf8Adjust ch 1 12, Utf8Adjust ch 1 6, Utf8Adjust ch 1 0])"

section \<open>The stream\<close>

record stream =
  s_input :: string
  s_good :: bool
  s_charSet :: charset
  s_readahead :: string
  s_prefetched :: string
  s_pos :: nat
  s_line :: nat
  s_column :: nat

definition prefetch_size :: nat where
  "prefetch_size = 2048"

text \<open>The prefetch buffer is refilled when it is used up; an empty refill is the end of the input.\<close>

definition GetNextByte :: "stream \<Rightarrow> nat \<times> stream" where
  "GetNextByte s =
     (let s1 = (if s_prefetched s = []
                then s\<lparr>s_prefetched := take prefetch_size (s_input s), s_input := drop prefetch_size (s_input s),
                       s_good := (s_good s \<and> s_input s \<noteq> [])\<rparr>
                else s)
      in case s_prefetched s1 of
           [] \<Rightarrow> (0, s1)
         | b # bs \<Rightarrow> (of_char b, s1\<lparr>s_prefetched := bs\<rparr>))"

definition unread :: "stream \<Rightarrow> string" where
  "unread s = s_prefetched s @ s_input s"

definition queue_code :: "nat \<Rightarrow> stream \<Rightarrow> stream" where
  "queue_code ch s = s\<lparr>s_readahead := QueueUnicodeCodepoint (s_readahead s) ch\<rparr>"

definition StreamInUtf8 :: "stream \<Rightarrow> stream" where
  "StreamInUtf8 s = (let (b, s1) = GetNextByte s in
     if s_good s1 then s1\<lparr>s_readahead := s_readahead s1 @ [char_of b]\<rparr> else s1)"

text \<open>Two bytes and the code unit they make.\<close>

definition next_unit :: "stream \<Rightarrow> nat \<times> stream" where
  "next_unit s =
     (let (b0, s1) = GetNextByte s; (b1, s2) = GetNextByte s1
      in (if s_charSet s = utf16be then push_bit 8 b0 OR b1 else push_bit 8 b1 OR b0, s2))"

lemma GetNextByte_unread:
  "GetNextByte s = (b, s') \<Longrightarrow> s_good s \<Longrightarrow>
   (case unread s of [] \<Rightarrow> \<not> s_good s' \<and> unread s' = [] | c # cs \<Rightarrow> s_good s' \<and> b = of_char c \<and> unread s' = cs)
   \<and> s_charSet s' = s_charSet s \<and> s_readahead s' = s_readahead s
   \<and> s_pos s' = s_pos s \<and> s_line s' = s_line s \<and> s_column s' = s_column s"
  by (cases "s_prefetched s"; cases "s_input s")
    (auto simp: GetNextByte_def unread_def prefetch_size_def Let_def split: list.splits)

lemma GetNextByte_bad: "GetNextByte s = (b, s') \<Longrightarrow> \<not> s_good s \<Longrightarrow> \<not> s_good s'"
  by (auto simp: GetNextByte_def Let_def split: list.splits if_splits)

lemma next_unit_less:
  assumes "next_unit s = (u, s')" "s_good s'"
  shows "length (unread s') < length (unread s)"
proof -
  obtain b0 s1 b1 where b: "GetNextByte s = (b0, s1)" "GetNextByte s1 = (b1, s')"
    using assms by (auto simp: next_unit_def Let_def split: prod.splits if_splits)
  then have "s_good s1" "s_good s"
    using assms(2) GetNextByte_bad by blast+
  then show ?thesis
    using GetNextByte_unread [OF b(1)] GetNextByte_unread [OF b(2)] assms(2) by (auto split: list.splits)
qed

text \<open>The loop that reads the trailing surrogate for the leading one \<open>ch\<close>.\<close>

function low_surrogate :: "nat \<Rightarrow> stream \<Rightarrow> stream" where
  "low_surrogate ch s =
     (let (chLow, s1) = next_unit s in
      if \<not> s_good s1 then queue_code CP_REPLACEMENT_CHARACTER s1
      else if chLow < 0xDC00 \<or> chLow \<ge> 0xE000 then
        (let s2 = queue_code CP_REPLACEMENT_CHARACTER s1 in
         if chLow < 0xD800 \<or> chLow \<ge> 0xE000 then queue_code ch s2 else low_surrogate chLow s2)
      else queue_code ((push_bit 10 (ch AND 0x3FF) OR (chLow AND 0x3FF)) + 0x10000) s1)"
  by pat_completeness auto
termination
  by (relation "measure (\<lambda>(_, s). length (unread s))")
    (auto dest!: next_unit_less [OF sym] simp: queue_code_def unread_def)

declare low_surrogate.simps [simp del]

definition StreamInUtf16 :: "stream \<Rightarrow> stream" where
  "StreamInUtf16 s = (let (ch, s1) = next_unit s in
     if \<not> s_good s1 then s1
     else if ch \<ge> 0xDC00 \<and> ch < 0xE000 then queue_code CP_REPLACEMENT_CHARACTER s1
     else if ch \<ge> 0xD800 \<and> ch < 0xDC00 then low_surrogate ch s1
     else queue_code ch s1)"

definition StreamInUtf32 :: "stream \<Rightarrow> stream" where
  "StreamInUtf32 s =
     (let (b0, s1) = GetNextByte s; (b1, s2) = GetNextByte s1; (b2, s3) = GetNextByte s2; (b3, s4) = GetNextByte s3 in
      if \<not> s_good s4 then s4
      else (let bytes = (if s_charSet s = utf32be then [b0, b1, b2, b3] else [b3, b2, b1, b0])
            in queue_code (foldl (\<lambda>ch b. push_bit 8 ch OR b) 0 bytes) s4))"

definition StreamIn :: "stream \<Rightarrow> stream" where
  "StreamIn s = (case s_charSet s of
     utf8 \<Rightarrow> StreamInUtf8 s
   | utf16le \<Rightarrow> StreamInUtf16 s | utf16be \<Rightarrow> StreamInUtf16 s
   | utf32le \<Rightarrow> StreamInUtf32 s | utf32be \<Rightarrow> StreamInUtf32 s)"

text \<open>A turn of \<^verbatim>\<open>_ReadAheadTo\<close> takes bytes or meets the end.\<close>

definition bytes_left :: "stream \<Rightarrow> nat" where
  "bytes_left s = (if s_good s then Suc (length (unread s)) else 0)"

lemma bytes_left_next_byte: "GetNextByte s = (b, s') \<Longrightarrow> s_good s \<Longrightarrow> bytes_left s' < bytes_left s"
  using GetNextByte_unread [of s b s'] by (auto simp: bytes_left_def split: list.splits)

lemma bytes_left_next_byte_le: "GetNextByte s = (b, s') \<Longrightarrow> bytes_left s' \<le> bytes_left s"
  using bytes_left_next_byte [of s b s'] GetNextByte_bad [of s b s'] by (cases "s_good s") (auto simp: bytes_left_def)

lemma bytes_left_queue [simp]: "bytes_left (queue_code ch s) = bytes_left s"
  by (simp add: bytes_left_def queue_code_def unread_def)

lemma bytes_left_next_unit:
  assumes "next_unit s = (u, s')"
  shows "bytes_left s' \<le> bytes_left s" "s_good s \<Longrightarrow> bytes_left s' < bytes_left s"
proof -
  obtain b0 s1 b1 where b: "GetNextByte s = (b0, s1)" "GetNextByte s1 = (b1, s')"
    using assms by (auto simp: next_unit_def Let_def split: prod.splits if_splits)
  show "bytes_left s' \<le> bytes_left s"
    using b [THEN bytes_left_next_byte_le] by simp
  show "bytes_left s' < bytes_left s" if "s_good s"
    using bytes_left_next_byte [OF b(1) that] bytes_left_next_byte_le [OF b(2)] by simp
qed

lemma bytes_left_low_surrogate: "bytes_left (low_surrogate ch s) \<le> bytes_left s"
proof (induction ch s rule: low_surrogate.induct)
  case (1 ch s)
  obtain u s1 where u: "next_unit s = (u, s1)"
    by (cases "next_unit s")
  have "bytes_left s1 \<le> bytes_left s"
    using bytes_left_next_unit(1) [OF u] .
  then show ?case
    using 1 [OF u [symmetric] refl] by (subst low_surrogate.simps) (auto simp: u Let_def)
qed

lemma bytes_left_StreamIn:
  assumes "s_good s"
  shows "bytes_left (StreamIn s) < bytes_left s"
proof -
  have byte: "bytes_left (StreamInUtf8 s) < bytes_left s"
    using bytes_left_next_byte [of s] assms
    by (cases "GetNextByte s") (auto simp: StreamInUtf8_def bytes_left_def unread_def)
  have unit: "bytes_left (StreamInUtf16 s) < bytes_left s"
    using bytes_left_next_unit(2) [of s] bytes_left_low_surrogate assms
    by (cases "next_unit s") (auto simp: StreamInUtf16_def intro: le_less_trans)
  have word: "bytes_left (StreamInUtf32 s) < bytes_left s"
  proof -
    obtain b0 s1 b1 s2 b2 s3 b3 s4 where b: "GetNextByte s = (b0, s1)" "GetNextByte s1 = (b1, s2)"
        "GetNextByte s2 = (b2, s3)" "GetNextByte s3 = (b3, s4)"
      by (meson surj_pair)
    have "bytes_left s4 < bytes_left s"
      using bytes_left_next_byte [OF b(1) assms] b(2-4) [THEN bytes_left_next_byte_le] by linarith
    then show ?thesis
      by (simp add: StreamInUtf32_def b Let_def)
  qed
  show ?thesis
    by (cases "s_charSet s") (simp_all add: StreamIn_def byte unit word)
qed

function read_while :: "nat \<Rightarrow> stream \<Rightarrow> stream" where
  "read_while i s = (if s_good s \<and> length (s_readahead s) \<le> i then read_while i (StreamIn s) else s)"
  by pat_completeness auto
termination
  by (relation "measure (\<lambda>(_, s). bytes_left s)") (simp_all add: bytes_left_StreamIn)

declare read_while.simps [simp del]

definition ReadAheadTo :: "nat \<Rightarrow> stream \<Rightarrow> bool \<times> stream" where
  "ReadAheadTo i s =
     (if length (s_readahead s) > i then (True, s)
      else (let s1 = read_while i s;
                s2 = (if s_good s1 then s1 else s1\<lparr>s_readahead := s_readahead s1 @ [stream_eof]\<rparr>)
            in (length (s_readahead s2) > i, s2)))"

definition Stream_ctor :: "bool \<Rightarrow> string \<Rightarrow> stream" where
  "Stream_ctor good input =
     (let s = \<lparr>s_input = input, s_good = good, s_charSet = utf8, s_readahead = [], s_prefetched = [],
               s_pos = 0, s_line = 0, s_column = 0\<rparr>
      in if \<not> good then s
         else (case detect input of (cs, rest) \<Rightarrow> snd (ReadAheadTo 0 (s\<lparr>s_charSet := cs, s_input := rest\<rparr>))))"

definition stream_peek :: "stream \<Rightarrow> char" where
  "stream_peek s = (case s_readahead s of [] \<Rightarrow> stream_eof | c # _ \<Rightarrow> c)"

definition stream_bool :: "stream \<Rightarrow> bool" where
  "stream_bool s \<longleftrightarrow> s_good s \<or> (s_readahead s \<noteq> [] \<and> hd (s_readahead s) \<noteq> stream_eof)"

definition AdvanceCurrent :: "stream \<Rightarrow> stream" where
  "AdvanceCurrent s = snd (ReadAheadTo 0 (case s_readahead s of
     [] \<Rightarrow> s | _ # cs \<Rightarrow> s\<lparr>s_readahead := cs, s_pos := s_pos s + 1\<rparr>))"

definition stream_get :: "stream \<Rightarrow> char \<times> stream" where
  "stream_get s =
     (let ch = stream_peek s; s1 = AdvanceCurrent s; s2 = s1\<lparr>s_column := s_column s1 + 1\<rparr>
      in (ch, if ch = CHR 0x0A then s2\<lparr>s_column := 0, s_line := s_line s2 + 1\<rparr> else s2))"

fun stream_get_n :: "nat \<Rightarrow> stream \<Rightarrow> string \<times> stream" where
  "stream_get_n 0 s = ([], s)"
| "stream_get_n (Suc n) s = (let (c, s1) = stream_get s; (cs, s2) = stream_get_n n s1 in (c # cs, s2))"

fun stream_eat :: "nat \<Rightarrow> stream \<Rightarrow> stream" where
  "stream_eat 0 s = s"
| "stream_eat (Suc n) s = stream_eat n (snd (stream_get s))"

section \<open>What the stream delivers\<close>

text \<open>The reference: bytes to code units, code units to UTF-8. A unit that is cut off is dropped.\<close>

fun units :: "charset \<Rightarrow> string \<Rightarrow> nat list" where
  "units cs (a # b # bs) =
     (if cs = utf16be then of_char a * 256 + of_char b else of_char b * 256 + of_char a) # units cs bs"
| "units cs _ = []"

fun words :: "charset \<Rightarrow> string \<Rightarrow> nat list" where
  "words cs (a # b # c # d # bs) =
     (if cs = utf32be then ((of_char a * 256 + of_char b) * 256 + of_char c) * 256 + of_char d
      else ((of_char d * 256 + of_char c) * 256 + of_char b) * 256 + of_char a) # words cs bs"
| "words cs _ = []"

abbreviation code :: "nat \<Rightarrow> string" where
  "code ch \<equiv> QueueUnicodeCodepoint [] ch"

abbreviation replacement :: string where
  "replacement \<equiv> code CP_REPLACEMENT_CHARACTER"

text \<open>\<open>decode_pair ch\<close> decodes what follows the leading surrogate \<open>ch\<close>. A unit that is no surrogate at all is lost there: the
  leading surrogate is written in its place.\<close>

fun decode_units :: "nat list \<Rightarrow> string" and decode_pair :: "nat \<Rightarrow> nat list \<Rightarrow> string" where
  "decode_units [] = []"
| "decode_units (u # us) =
     (if 0xDC00 \<le> u \<and> u < 0xE000 then replacement @ decode_units us
      else if 0xD800 \<le> u \<and> u < 0xDC00 then decode_pair u us
      else code u @ decode_units us)"
| "decode_pair ch [] = replacement"
| "decode_pair ch (u # us) =
     (if u < 0xD800 \<or> 0xE000 \<le> u then replacement @ code ch @ decode_units us
      else if u < 0xDC00 then replacement @ decode_pair u us
      else code ((ch mod 0x400) * 0x400 + u mod 0x400 + 0x10000) @ decode_units us)"

definition decode :: "charset \<Rightarrow> string \<Rightarrow> string" where
  "decode cs bs = (case cs of
     utf8 \<Rightarrow> bs
   | utf16le \<Rightarrow> decode_units (units cs bs) | utf16be \<Rightarrow> decode_units (units cs bs)
   | utf32le \<Rightarrow> concat (map code (words cs bs)) | utf32be \<Rightarrow> concat (map code (words cs bs)))"

text \<open>The characters that a stream will still deliver before the end markers.\<close>

definition pending :: "stream \<Rightarrow> string" where
  "pending s = s_readahead s @ (if s_good s then decode (s_charSet s) (unread s) else [])"

lemma QueueUnicodeCodepoint_append: "QueueUnicodeCodepoint q ch = q @ code ch"
  by (simp add: QueueUnicodeCodepoint_def Let_def)

lemma queue_code_fields [simp]:
  "s_readahead (queue_code ch s) = s_readahead s @ code ch" "s_good (queue_code ch s) = s_good s"
  "s_charSet (queue_code ch s) = s_charSet s" "unread (queue_code ch s) = unread s"
  by (simp_all add: queue_code_def unread_def) (rule QueueUnicodeCodepoint_append)

text \<open>The bit operations on units are arithmetic.\<close>

lemma or_shift:
  assumes "b < 2 ^ n"
  shows "push_bit n a OR b = a * 2 ^ n + (b :: nat)"
proof -
  have b: "b = take_bit n b"
    using assms by (simp add: take_bit_eq_mod)
  have "push_bit n a AND b = 0"
    by (subst b) (auto simp: bit_eq_iff bit_simps)
  then have "push_bit n a + b = push_bit n a OR b"
    by (rule disjunctive_add_eq_or)
  then show ?thesis
    by (simp add: push_bit_eq_mult)
qed

lemma of_char_less [simp]: "(of_char c :: nat) < 256"
  using of_char_mod_256 [of c] by (metis mod_less_divisor zero_less_numeral)

lemma or_byte: "push_bit 8 a OR of_char c = a * 256 + (of_char c :: nat)"
  using or_shift [of "of_char c" 8 a] by simp

lemma and_low_bits: "a AND mask n = a mod (2 ^ n :: nat)"
  by (simp add: take_bit_eq_mod flip: take_bit_eq_mask)

lemma and_3FF: "a AND 0x3FF = a mod (0x400 :: nat)"
  using and_low_bits [of a 10] by (simp add: mask_eq_exp_minus_1)

lemma surrogate_pair: "push_bit 10 (ch AND 0x3FF) OR (u AND 0x3FF) = (ch mod 0x400) * 0x400 + u mod (0x400 :: nat)"
  using or_shift [of "u mod 0x400" 10 "ch mod 0x400"] by (simp add: and_3FF)

text \<open>Reading a unit or a word, in terms of the bytes that are left.\<close>

lemma next_unit_units:
  assumes "next_unit s = (u, s')" "s_good s"
  shows "s_charSet s' = s_charSet s \<and> s_readahead s' = s_readahead s
    \<and> (case units (s_charSet s) (unread s) of [] \<Rightarrow> \<not> s_good s' | v # vs \<Rightarrow> s_good s' \<and> u = v \<and> units (s_charSet s) (unread s') = vs)"
proof -
  obtain b0 s1 b1 where b: "GetNextByte s = (b0, s1)" "GetNextByte s1 = (b1, s')"
      "u = (if s_charSet s = utf16be then push_bit 8 b0 OR b1 else push_bit 8 b1 OR b0)"
    using assms by (auto simp: next_unit_def Let_def split: prod.splits if_splits)
  note first = GetNextByte_unread [OF b(1) assms(2)]
  show ?thesis
  proof (cases "s_good s1")
    case True
    show ?thesis
      using first GetNextByte_unread [OF b(2) True] b(3) True
      by (cases "(s_charSet s, unread s)" rule: units.cases) (auto simp: or_byte split: list.splits)
  next
    case False
    then have "unread s = []"
      using first by (auto split: list.splits)
    moreover have "s_readahead s' = s_readahead s1" "s_charSet s' = s_charSet s1" "\<not> s_good s'"
      using b(2) False by (auto simp: GetNextByte_def Let_def split: list.splits if_splits)
    ultimately show ?thesis
      using first by simp
  qed
qed

lemma pending_queue_code: "pending (queue_code ch s) = s_readahead s @ code ch @ (if s_good s then decode (s_charSet s) (unread s) else [])"
  by (simp add: pending_def)

lemma pending_low_surrogate:
  assumes "s_good s" "s_charSet s = cs" "cs = utf16le \<or> cs = utf16be"
  shows "pending (low_surrogate ch s) = s_readahead s @ decode_pair ch (units cs (unread s))"
  using assms
proof (induction ch s rule: low_surrogate.induct)
  case (1 ch s)
  obtain u s1 where u: "next_unit s = (u, s1)"
    by (cases "next_unit s")
  note n = next_unit_units [OF u "1.prems"(1)]
  have dec: "decode cs (unread s1) = decode_units (units cs (unread s1))"
    using "1.prems"(3) by (auto simp: decode_def)
  have IH: "pending (low_surrogate u (queue_code CP_REPLACEMENT_CHARACTER s1)) =
      s_readahead s1 @ replacement @ decode_pair u (units cs (unread s1))"
    if "s_good s1" "u < 0xDC00 \<or> u \<ge> 0xE000" "\<not> (u < 0xD800 \<or> u \<ge> 0xE000)"
    using 1(1) [OF u [symmetric] refl] that n "1.prems" by simp
  show ?case
    using n "1.prems" IH
    by (subst low_surrogate.simps)
      (auto simp: u Let_def pending_queue_code dec surrogate_pair pending_def simp del: push_bit_and split: list.splits)
qed

lemma pending_StreamInUtf16:
  assumes "s_good s" "s_charSet s = cs" "cs = utf16le \<or> cs = utf16be"
  shows "pending (StreamInUtf16 s) = pending s"
proof -
  obtain u s1 where u: "next_unit s = (u, s1)"
    by (cases "next_unit s")
  note n = next_unit_units [OF u assms(1)]
  have dec: "decode cs bs = decode_units (units cs bs)" for bs
    using assms(3) by (auto simp: decode_def)
  show ?thesis
    using n assms dec pending_low_surrogate [of s1 cs u]
    by (auto simp: StreamInUtf16_def u pending_queue_code pending_def split: list.splits)
qed

lemma pending_StreamInUtf8:
  assumes "s_good s" "s_charSet s = utf8"
  shows "pending (StreamInUtf8 s) = pending s"
proof -
  obtain b s1 where b: "GetNextByte s = (b, s1)"
    by (cases "GetNextByte s")
  have "unread (s1\<lparr>s_readahead := r\<rparr>) = unread s1" for r
    by (simp add: unread_def)
  then show ?thesis
    using GetNextByte_unread [OF b assms(1)] assms by (auto simp: StreamInUtf8_def b pending_def decode_def split: list.splits)
qed

lemma GetNextByte_end:
  assumes "GetNextByte s = (b, s')" "\<not> s_good s"
  shows "\<not> s_good s' \<and> s_readahead s' = s_readahead s"
  using assms by (auto simp: GetNextByte_def Let_def split: list.splits if_splits)

lemma pending_StreamInUtf32:
  assumes "s_good s" "s_charSet s = cs" "cs = utf32le \<or> cs = utf32be"
  shows "pending (StreamInUtf32 s) = pending s"
proof -
  obtain b0 s1 b1 s2 b2 s3 b3 s4 where b: "GetNextByte s = (b0, s1)" "GetNextByte s1 = (b1, s2)"
      "GetNextByte s2 = (b2, s3)" "GetNextByte s3 = (b3, s4)"
    by (meson surj_pair)
  have dec: "decode cs bs = concat (map code (words cs bs))" for bs
    using assms(3) by (auto simp: decode_def)
  have result: "StreamInUtf32 s = (if \<not> s_good s4 then s4 else queue_code (foldl (\<lambda>ch b. push_bit 8 ch OR b) 0
      (if cs = utf32be then [b0, b1, b2, b3] else [b3, b2, b1, b0])) s4)"
    by (simp add: StreamInUtf32_def b assms(2) Let_def)
  show ?thesis
  proof (cases "s_good s4")
    case True
    then have good: "s_good s1" "s_good s2" "s_good s3"
      using b GetNextByte_end by blast+
    then obtain c0 c1 c2 c3 bs where bs: "unread s = c0 # c1 # c2 # c3 # bs" "unread s4 = bs"
        "b0 = of_char c0" "b1 = of_char c1" "b2 = of_char c2" "b3 = of_char c3"
      using GetNextByte_unread [OF b(1) assms(1)] GetNextByte_unread [OF b(2)] GetNextByte_unread [OF b(3)]
        GetNextByte_unread [OF b(4)] True by (auto split: list.splits)
    moreover have "s_charSet s4 = cs" "s_readahead s4 = s_readahead s"
      using GetNextByte_unread [OF b(1) assms(1)] GetNextByte_unread [OF b(2)] GetNextByte_unread [OF b(3)]
        GetNextByte_unread [OF b(4)] good assms(2) by simp_all
    ultimately show ?thesis
      using True assms(1,2) by (simp add: result pending_queue_code pending_def dec or_byte del: push_bit_or)
  next
    case False
    have "words cs (unread s) = [] \<and> s_readahead s4 = s_readahead s"
    proof (cases "s_good s3")
      case True
      then have "s_good s2" "s_good s1"
        using b GetNextByte_end by blast+
      then show ?thesis
        using True False GetNextByte_unread [OF b(1) assms(1)] GetNextByte_unread [OF b(2)] GetNextByte_unread [OF b(3)]
          GetNextByte_unread [OF b(4)] by (auto split: list.splits)
    next
      case s3: False
      show ?thesis
      proof (cases "s_good s2")
        case True
        then have "s_good s1"
          using b GetNextByte_end by blast
        then show ?thesis
          using True s3 GetNextByte_unread [OF b(1) assms(1)] GetNextByte_unread [OF b(2)] GetNextByte_unread [OF b(3)]
            GetNextByte_end [OF b(4)] by (auto split: list.splits)
      next
        case s2: False
        show ?thesis
          using s3 s2 GetNextByte_unread [OF b(1) assms(1)] GetNextByte_unread [OF b(2)] GetNextByte_end [OF b(2)]
            GetNextByte_end [OF b(3)] GetNextByte_end [OF b(4)] by (cases "s_good s1") (auto split: list.splits)
      qed
    qed
    then show ?thesis
      using False assms by (simp add: result pending_def dec)
  qed
qed

lemma pending_StreamIn: "s_good s \<Longrightarrow> pending (StreamIn s) = pending s"
  by (cases "s_charSet s") (simp_all add: StreamIn_def pending_StreamInUtf8 pending_StreamInUtf16 pending_StreamInUtf32)

lemma pending_read_while: "pending (read_while i s) = pending s"
  by (induction i s rule: read_while.induct) (subst read_while.simps, simp add: pending_StreamIn)

text \<open>The \<open>i\<close>-th character from here on.\<close>

definition stream_char :: "stream \<Rightarrow> nat \<Rightarrow> char" where
  "stream_char s i = (if i < length (pending s) then pending s ! i else stream_eof)"

definition stream_mark :: "stream \<Rightarrow> nat \<times> nat \<times> nat" where
  "stream_mark s = (s_pos s, s_line s, s_column s)"

lemma read_while_done: "s_good (read_while i s) \<Longrightarrow> i < length (s_readahead (read_while i s))"
proof (induction i s rule: read_while.induct)
  case (1 i s)
  then show ?case
    by (subst (asm) (2) read_while.simps, subst read_while.simps) (auto split: if_splits)
qed

lemma stream_mark_next_byte: "GetNextByte s = (b, s') \<Longrightarrow> stream_mark s' = stream_mark s"
  by (auto simp: GetNextByte_def Let_def stream_mark_def split: list.splits if_splits)

lemma stream_mark_queue [simp]: "stream_mark (queue_code ch s) = stream_mark s"
  by (simp add: queue_code_def stream_mark_def)

lemma stream_mark_next_unit: "next_unit s = (u, s') \<Longrightarrow> stream_mark s' = stream_mark s"
  by (auto simp: next_unit_def Let_def split: prod.splits if_splits dest!: stream_mark_next_byte)

lemma stream_mark_low_surrogate: "stream_mark (low_surrogate ch s) = stream_mark s"
proof (induction ch s rule: low_surrogate.induct)
  case (1 ch s)
  obtain u s1 where u: "next_unit s = (u, s1)"
    by (cases "next_unit s")
  show ?case
    using 1 [OF u [symmetric] refl] stream_mark_next_unit [OF u]
    by (subst low_surrogate.simps) (auto simp: u Let_def)
qed

lemma stream_mark_StreamIn: "stream_mark (StreamIn s) = stream_mark s"
proof -
  have "stream_mark (StreamInUtf8 s) = stream_mark s"
    using stream_mark_next_byte [of s] by (cases "GetNextByte s") (auto simp: StreamInUtf8_def stream_mark_def)
  moreover have "stream_mark (StreamInUtf16 s) = stream_mark s"
    using stream_mark_next_unit [of s] by (cases "next_unit s") (auto simp: StreamInUtf16_def stream_mark_low_surrogate)
  moreover have "stream_mark (StreamInUtf32 s) = stream_mark s"
    by (auto simp: StreamInUtf32_def Let_def split: prod.splits dest!: stream_mark_next_byte)
  ultimately show ?thesis
    by (cases "s_charSet s") (simp_all add: StreamIn_def)
qed

lemma stream_mark_read_while: "stream_mark (read_while i s) = stream_mark s"
  by (induction i s rule: read_while.induct) (subst read_while.simps, simp add: stream_mark_StreamIn)

lemma ReadAheadTo_0:
  assumes "ReadAheadTo 0 s = (b, s')"
  shows "s_readahead s' \<noteq> [] \<and> stream_char s' = stream_char s \<and> stream_mark s' = stream_mark s"
proof (cases "s_readahead s")
  case Nil
  let ?s1 = "read_while 0 s"
  have s': "s' = (if s_good ?s1 then ?s1 else ?s1\<lparr>s_readahead := s_readahead ?s1 @ [stream_eof]\<rparr>)"
    using assms Nil by (simp add: ReadAheadTo_def Let_def)
  have "pending s' = pending s \<or> pending s' = pending s @ [stream_eof]"
    using pending_read_while [of 0 s] by (auto simp: s' pending_def)
  then have "stream_char s' = stream_char s"
    by (auto simp: stream_char_def fun_eq_iff nth_append less_Suc_eq)
  moreover have "s_readahead s' \<noteq> []" "stream_mark s' = stream_mark s"
    using read_while_done [of 0 s] stream_mark_read_while [of 0 s] by (auto simp: s' stream_mark_def)
  ultimately show ?thesis
    by simp
qed (use assms in \<open>auto simp: ReadAheadTo_def\<close>)

lemma stream_get_char:
  assumes "s_readahead s \<noteq> []"
  shows "fst (stream_get s) = stream_char s 0"
    and "s_readahead (snd (stream_get s)) \<noteq> []"
    and "stream_char (snd (stream_get s)) = (\<lambda>i. stream_char s (Suc i))"
    and "stream_mark (snd (stream_get s)) = (if stream_char s 0 = CHR 0x0A then (Suc (s_pos s), Suc (s_line s), 0)
      else (Suc (s_pos s), s_line s, Suc (s_column s)))"
proof -
  obtain c cs where c: "s_readahead s = c # cs"
    using assms by (cases "s_readahead s") auto
  let ?s = "s\<lparr>s_readahead := cs, s_pos := s_pos s + 1\<rparr>"
  have pend: "pending s = c # pending ?s"
    using c by (simp add: pending_def unread_def)
  then have char: "stream_char ?s = (\<lambda>i. stream_char s (Suc i))" "stream_char s 0 = c"
    by (auto simp: stream_char_def)
  have adv: "s_readahead (AdvanceCurrent s) \<noteq> []" "stream_char (AdvanceCurrent s) = stream_char ?s"
      "stream_mark (AdvanceCurrent s) = stream_mark ?s"
    using ReadAheadTo_0 [OF prod.collapse [symmetric], of ?s] c by (simp_all add: AdvanceCurrent_def)
  have upd: "stream_char (s'\<lparr>s_column := x, s_line := y\<rparr>) = stream_char s'" "stream_char (s'\<lparr>s_column := x\<rparr>) = stream_char s'"
      for s' :: stream and x y
    by (simp_all add: stream_char_def pending_def unread_def fun_eq_iff)
  have peek: "stream_peek s = c"
    using c by (simp add: stream_peek_def)
  show "fst (stream_get s) = stream_char s 0"
    using peek char by (simp add: stream_get_def Let_def)
  show "s_readahead (snd (stream_get s)) \<noteq> []"
    using adv by (simp add: stream_get_def Let_def)
  show "stream_char (snd (stream_get s)) = (\<lambda>i. stream_char s (Suc i))"
    using adv char by (simp add: stream_get_def Let_def upd)
  show "stream_mark (snd (stream_get s)) = (if stream_char s 0 = CHR 0x0A then (Suc (s_pos s), Suc (s_line s), 0)
      else (Suc (s_pos s), s_line s, Suc (s_column s)))"
    using adv peek char by (simp add: stream_get_def Let_def stream_mark_def)
qed

text \<open>Line and column after the characters \<open>cs\<close>.\<close>

definition mark_after :: "string \<Rightarrow> nat \<times> nat \<times> nat" where
  "mark_after cs = (length cs, count_list cs (CHR 0x0A), length (takeWhile (\<lambda>c. c \<noteq> CHR 0x0A) (rev cs)))"

lemma mark_after_snoc:
  "mark_after cs = (p, l, k) \<Longrightarrow> mark_after (cs @ [c]) = (if c = CHR 0x0A then (Suc p, Suc l, 0) else (Suc p, l, Suc k))"
  by (auto simp: mark_after_def)

lemma stream_get_n_chars:
  assumes "s_readahead s \<noteq> []" "stream_mark s = mark_after cs"
  shows "fst (stream_get_n n s) = map (stream_char s) [0..<n]
    \<and> stream_mark (snd (stream_get_n n s)) = mark_after (cs @ map (stream_char s) [0..<n])"
  using assms
proof (induction n arbitrary: s cs)
  case (Suc n)
  let ?s = "snd (stream_get s)"
  note g = stream_get_char [OF Suc.prems(1)]
  have "stream_mark ?s = mark_after (cs @ [stream_char s 0])"
    using mark_after_snoc [of cs "s_pos s" "s_line s" "s_column s" "stream_char s 0"] Suc.prems(2) g(4)
    by (simp add: stream_mark_def)
  moreover have "stream_char s 0 # map (\<lambda>i. stream_char s (Suc i)) [0..<n] = map (stream_char s) [0..<Suc n]"
    by (simp only: upt_conv_Cons zero_less_Suc list.map map_Suc_upt [symmetric]) simp
  ultimately show ?case
    using Suc.IH [of ?s "cs @ [stream_char s 0]"] g by (simp add: Let_def case_prod_beta del: upt_Suc)
qed simp

text \<open>
  What the stream delivers: the first \<open>n\<close> characters read from an input are the first \<open>n\<close> of the decoded text, then end
  markers, and the mark counts them and their lines.
\<close>

theorem stream_delivers:
  assumes "detect input = (cs, bytes)"
  shows "fst (stream_get_n n (Stream_ctor True input)) = take n (decode cs bytes @ replicate n stream_eof)
    \<and> stream_mark (snd (stream_get_n n (Stream_ctor True input))) = mark_after (take n (decode cs bytes @ replicate n stream_eof))"
proof -
  let ?start = "\<lparr>s_input = bytes, s_good = True, s_charSet = cs, s_readahead = [], s_prefetched = [], s_pos = 0, s_line = 0, s_column = 0\<rparr>"
  let ?s = "Stream_ctor True input"
  have "?s = snd (ReadAheadTo 0 ?start)" "stream_mark ?start = mark_after []"
    using assms by (simp_all add: Stream_ctor_def stream_mark_def mark_after_def)
  then have s: "s_readahead ?s \<noteq> []" "stream_char ?s = stream_char ?start" "stream_mark ?s = mark_after []"
    using ReadAheadTo_0 [OF prod.collapse [symmetric], of ?start] by simp_all
  have "map (stream_char ?s) [0..<n] = take n (decode cs bytes @ replicate n stream_eof)"
    by (rule nth_equalityI) (auto simp: s(2) stream_char_def pending_def unread_def nth_append)
  then show ?thesis
    using stream_get_n_chars [OF s(1,3), of n] by simp
qed

section \<open>Encodings\<close>

subsection \<open>UTF-8\<close>

lemma Utf8Adjust_arith:
  "Utf8Adjust ch 0 r = char_of (ch div 2 ^ r mod 128)"
  "Utf8Adjust ch 1 r = char_of (128 + ch div 2 ^ r mod 64)"
  "Utf8Adjust ch 2 r = char_of (192 + ch div 2 ^ r mod 32)"
  "Utf8Adjust ch 3 r = char_of (224 + ch div 2 ^ r mod 16)"
  "Utf8Adjust ch 4 r = char_of (240 + ch div 2 ^ r mod 8)"
proof -
  let ?x = "ch div 2 ^ r"
  have msk: "?x AND 127 = ?x mod 128" "?x AND 63 = ?x mod 64" "?x AND 31 = ?x mod 32" "?x AND 15 = ?x mod 16"
      "?x AND 7 = ?x mod 8"
    using and_low_bits [of ?x 7] and_low_bits [of ?x 6] and_low_bits [of ?x 5] and_low_bits [of ?x 4] and_low_bits [of ?x 3]
    by (simp_all add: mask_eq_exp_minus_1)
  have hd: "128 OR ?x mod 64 = 128 + ?x mod 64" "192 OR ?x mod 32 = 192 + ?x mod 32" "224 OR ?x mod 16 = 224 + ?x mod 16"
      "240 OR ?x mod 8 = 240 + ?x mod 8"
    using or_shift [of "?x mod 64" 6 2] or_shift [of "?x mod 32" 5 6] or_shift [of "?x mod 16" 4 14] or_shift [of "?x mod 8" 3 30]
    by (simp_all add: push_bit_eq_mult)
  note defs = Utf8Adjust_def Let_def push_bit_eq_mult drop_bit_eq_div
  show "Utf8Adjust ch 0 r = char_of (?x mod 128)" by (simp add: defs msk)
  show "Utf8Adjust ch 1 r = char_of (128 + ?x mod 64)" by (simp add: defs msk hd)
  show "Utf8Adjust ch 2 r = char_of (192 + ?x mod 32)" by (simp add: defs msk hd)
  show "Utf8Adjust ch 3 r = char_of (224 + ?x mod 16)" by (simp add: defs msk hd)
  show "Utf8Adjust ch 4 r = char_of (240 + ?x mod 8)" by (simp add: defs msk hd)
qed

text \<open>A decoder of UTF-8, to read what is written.\<close>

fun utf8_read :: "nat list \<Rightarrow> nat list" where
  "utf8_read [] = []"
| "utf8_read (a # bs) =
     (if a < 0x80 then a # utf8_read bs
      else if a < 0xE0 then (case bs of b # rest \<Rightarrow> (a mod 32 * 64 + b mod 64) # utf8_read rest | _ \<Rightarrow> [])
      else if a < 0xF0 then (case bs of b # c # rest \<Rightarrow> ((a mod 16 * 64 + b mod 64) * 64 + c mod 64) # utf8_read rest | _ \<Rightarrow> [])
      else (case bs of b # c # d # rest \<Rightarrow>
        (((a mod 8 * 64 + b mod 64) * 64 + c mod 64) * 64 + d mod 64) # utf8_read rest | _ \<Rightarrow> []))"

definition queued :: "nat \<Rightarrow> nat" where
  "queued ch = (if ch = 4 then CP_REPLACEMENT_CHARACTER else ch)"

lemma code_cases:
  "code c = (let ch = queued c in
     if ch < 0x80 then [char_of ch]
     else if ch < 0x800 then [char_of (192 + ch div 64 mod 32), char_of (128 + ch mod 64)]
     else if ch < 0x10000 then [char_of (224 + ch div 4096 mod 16), char_of (128 + ch div 64 mod 64), char_of (128 + ch mod 64)]
     else [char_of (240 + ch div 262144 mod 8), char_of (128 + ch div 4096 mod 64), char_of (128 + ch div 64 mod 64),
           char_of (128 + ch mod 64)])"
  by (simp add: QueueUnicodeCodepoint_def queued_def stream_eof_def Utf8Adjust_arith Utf8Adjust_arith(2) [unfolded One_nat_def] Let_def)

lemma of_char_small: "n < 256 \<Longrightarrow> of_char (char_of n) = (n :: nat)"
  by (simp add: of_char_of)

lemma header_mod:
  "(192 + x) mod 32 = x mod (32 :: nat)" "(224 + x) mod 16 = x mod (16 :: nat)" "(240 + x) mod 8 = x mod (8 :: nat)"
  "(128 + x) mod 64 = x mod (64 :: nat)"
  using mod_mult_self3 [of 6 32 x] mod_mult_self3 [of 14 16 x] mod_mult_self3 [of 30 8 x] mod_mult_self3 [of 2 64 x]
  by simp_all

lemma utf8_read_code:
  assumes "ch < 0x200000"
  shows "utf8_read (map of_char (code ch) @ bs) = queued ch # utf8_read bs"
proof -
  define q where "q = queued ch"
  have q: "q < 0x200000"
    using assms by (simp add: q_def queued_def CP_REPLACEMENT_CHARACTER_def)
  have two: "q div 64 * 64 + q mod 64 = q"
    by simp
  have three: "(q div 4096 * 64 + q div 64 mod 64) * 64 + q mod 64 = q"
    by (simp add: div_mult2_eq [of q 64 64, simplified])
  have four: "((q div 262144 * 64 + q div 4096 mod 64) * 64 + q div 64 mod 64) * 64 + q mod 64 = q"
    by (simp add: div_mult2_eq [of q 64 64, simplified] div_mult2_eq [of q 4096 64, simplified])
  have code: "code ch = (if q < 0x80 then [char_of q]
     else if q < 0x800 then [char_of (192 + q div 64 mod 32), char_of (128 + q mod 64)]
     else if q < 0x10000 then [char_of (224 + q div 4096 mod 16), char_of (128 + q div 64 mod 64), char_of (128 + q mod 64)]
     else [char_of (240 + q div 262144 mod 8), char_of (128 + q div 4096 mod 64), char_of (128 + q div 64 mod 64),
           char_of (128 + q mod 64)])"
    by (simp add: code_cases q_def Let_def)
  have bounds: "x mod 64 < 64" for x :: nat
    by simp
  have byte: "of_char (char_of (128 + x mod 64)) = 128 + x mod (64 :: nat)" for x
    using bounds [of x] by (intro of_char_small) linarith
  consider "q < 0x80" | "0x80 \<le> q" "q < 0x800" | "0x800 \<le> q" "q < 0x10000" | "0x10000 \<le> q"
    by linarith
  then show ?thesis
  proof cases
    case 1
    then show ?thesis
      by (simp add: code of_char_small flip: q_def)
  next
    case 2
    then have lt: "q div 64 < 32"
      by (simp add: less_mult_imp_div_less)
    then have "map of_char (code ch) = [192 + q div 64, 128 + q mod 64]"
      using 2 of_char_small [of "192 + q div 64"] by (simp add: code byte del: of_char_of)
    then show ?thesis
      using two lt by (simp add: header_mod flip: q_def)
  next
    case 3
    then have lt: "q div 4096 < 16"
      by (simp add: less_mult_imp_div_less)
    then have "map of_char (code ch) = [224 + q div 4096, 128 + q div 64 mod 64, 128 + q mod 64]"
      using 3 of_char_small [of "224 + q div 4096"] by (simp add: code byte del: of_char_of)
    then show ?thesis
      using three lt by (simp add: header_mod flip: q_def)
  next
    case 4
    then have lt: "q div 262144 < 8"
      using q by (simp add: less_mult_imp_div_less)
    then have "map of_char (code ch) = [240 + q div 262144, 128 + q div 4096 mod 64, 128 + q div 64 mod 64, 128 + q mod 64]"
      using 4 of_char_small [of "240 + q div 262144"] by (simp add: code byte del: of_char_of)
    then show ?thesis
      using four lt by (simp add: header_mod flip: q_def)
  qed
qed

subsection \<open>UTF-16 and UTF-32\<close>

definition code_point :: "nat \<Rightarrow> bool" where
  "code_point cp \<longleftrightarrow> cp < 0x110000 \<and> \<not> (0xD800 \<le> cp \<and> cp < 0xE000)"

definition utf16_units :: "nat \<Rightarrow> nat list" where
  "utf16_units cp = (if cp < 0x10000 then [cp]
     else [0xD800 + (cp - 0x10000) div 0x400, 0xDC00 + (cp - 0x10000) mod 0x400])"

definition unit_bytes :: "charset \<Rightarrow> nat \<Rightarrow> string" where
  "unit_bytes cs u = (if cs = utf16be then [char_of (u div 256), char_of (u mod 256)]
     else [char_of (u mod 256), char_of (u div 256)])"

definition word_bytes :: "charset \<Rightarrow> nat \<Rightarrow> string" where
  "word_bytes cs u =
     (let bs = [char_of (u div 16777216), char_of (u div 65536 mod 256), char_of (u div 256 mod 256), char_of (u mod 256)]
      in if cs = utf32be then bs else rev bs)"

definition encode :: "charset \<Rightarrow> nat list \<Rightarrow> string" where
  "encode cs cps = (case cs of
     utf8 \<Rightarrow> concat (map code cps)
   | utf16le \<Rightarrow> concat (map (unit_bytes cs) (concat (map utf16_units cps)))
   | utf16be \<Rightarrow> concat (map (unit_bytes cs) (concat (map utf16_units cps)))
   | _ \<Rightarrow> concat (map (word_bytes cs) cps))"

lemma units_unit_bytes:
  "u < 0x10000 \<Longrightarrow> units cs (unit_bytes cs u @ bs) = u # units cs bs"
  by (simp add: unit_bytes_def of_char_small less_mult_imp_div_less)

lemma units_concat: "\<forall>u \<in> set us. u < 0x10000 \<Longrightarrow> units cs (concat (map (unit_bytes cs) us)) = us"
  by (induction us) (simp_all add: units_unit_bytes)

lemma words_word_bytes:
  assumes "u < 0x100000000"
  shows "words cs (word_bytes cs u @ bs) = u # words cs bs"
proof -
  have "((u div 16777216 * 256 + u div 65536 mod 256) * 256 + u div 256 mod 256) * 256 + u mod 256 = u"
    by (simp add: div_mult2_eq [of u 256 256, simplified] div_mult2_eq [of u 65536 256, simplified])
  moreover have "u div 16777216 < 256"
    using assms by (simp add: less_mult_imp_div_less)
  ultimately show ?thesis
    by (simp add: word_bytes_def of_char_small Let_def)
qed

lemma words_concat: "\<forall>u \<in> set us. u < 0x100000000 \<Longrightarrow> words cs (concat (map (word_bytes cs) us)) = us"
  by (induction us) (simp_all add: words_word_bytes)

lemma surrogate_bound: "code_point cp \<Longrightarrow> (cp - 0x10000) div 0x400 < 0x400"
proof (rule less_mult_imp_div_less)
  assume "code_point cp"
  then show "cp - 0x10000 < 0x400 * 0x400"
    by (auto simp: code_point_def)
qed

lemma utf16_units_bound:
  assumes "code_point cp" "u \<in> set (utf16_units cp)"
  shows "u < 0x10000"
proof -
  have "(cp - 0x10000) mod 0x400 < 0x400"
    by simp
  then show ?thesis
    using assms(2) surrogate_bound [OF assms(1)] by (auto simp: utf16_units_def split: if_splits)
qed

lemma decode_utf16_units:
  assumes "code_point cp"
  shows "decode_units (utf16_units cp @ us) = code cp @ decode_units us"
proof (cases "cp < 0x10000")
  case True
  then show ?thesis
    using assms by (auto simp: utf16_units_def code_point_def)
next
  case False
  define d where "d = cp - 0x10000"
  have d: "d div 0x400 < 0x400" "d mod 0x400 < 0x400" "cp = d div 0x400 * 0x400 + d mod 0x400 + 0x10000"
    using surrogate_bound [OF assms] False by (simp_all add: d_def)
  have "(0xD800 + d div 0x400) mod 0x400 = d div 0x400" "(0xDC00 + d mod 0x400) mod 0x400 = d mod 0x400"
    using mod_mult_self3 [of 54 1024 "d div 1024"] mod_mult_self3 [of 55 1024 "d mod 1024"] d(1) by simp_all
  moreover have "\<not> 0x400 \<le> d mod 0x400"
    by (simp add: not_le)
  ultimately show ?thesis
    using False d(1,3) by (simp add: utf16_units_def flip: d_def)
qed

lemma decode_encode:
  assumes "\<forall>cp \<in> set cps. code_point cp" "cs \<noteq> utf8"
  shows "decode cs (encode cs cps) = concat (map code cps)"
proof -
  have "decode_units (concat (map utf16_units cps)) = concat (map code cps)"
    using assms(1) by (induction cps) (simp_all add: decode_utf16_units)
  moreover have "\<forall>u \<in> set (concat (map utf16_units cps)). u < 0x10000"
    using assms(1) utf16_units_bound by auto
  moreover have "\<forall>u \<in> set cps. u < 0x100000000"
    using assms(1) by (auto simp: code_point_def)
  ultimately show ?thesis
    using assms(2) by (cases cs) (simp_all add: decode_def encode_def units_concat words_concat)
qed

subsection \<open>Byte order marks\<close>

definition bom :: "charset \<Rightarrow> string" where
  "bom cs = map char_of (case cs of
     utf8 \<Rightarrow> [0xEF, 0xBB, 0xBF :: nat]
   | utf16le \<Rightarrow> [0xFF, 0xFE] | utf16be \<Rightarrow> [0xFE, 0xFF]
   | utf32le \<Rightarrow> [0xFF, 0xFE, 0, 0] | utf32be \<Rightarrow> [0, 0, 0xFE, 0xFF])"

lemma intro_char_bytes [simp]:
  "IntroCharTypeOf None = uictOther"
  "IntroCharTypeOf (Some (char_of (0 :: nat))) = uict00" "IntroCharTypeOf (Some (char_of (0xBB :: nat))) = uictBB"
  "IntroCharTypeOf (Some (char_of (0xBF :: nat))) = uictBF" "IntroCharTypeOf (Some (char_of (0xEF :: nat))) = uictEF"
  "IntroCharTypeOf (Some (char_of (0xFE :: nat))) = uictFE" "IntroCharTypeOf (Some (char_of (0xFF :: nat))) = uictFF"
  by (simp_all add: IntroCharTypeOf_def of_char_small Let_def)

lemma intro_loop_step:
  "\<not> introFinalState state \<Longrightarrow> intro_loop (state, intro, input) = intro_loop (intro_step (state, intro, input))"
  "introFinalState state \<Longrightarrow> intro_loop (state, intro, input) = (state, intro, input)"
  by (subst intro_loop.simps, simp)+

lemma intro_step_Cons:
  "intro_step (state, intro, c # cs) =
     (let i = char_index (IntroCharTypeOf (Some c)); n = introUngetCount state ! i; k = Suc (length intro) - n
      in (introTransitions state ! i, take k (intro @ [Some c]), map the (filter (\<lambda>c. c \<noteq> None) (drop k (intro @ [Some c]))) @ cs))"
  "intro_step (state, intro, []) =
     (let i = 7; n = introUngetCount state ! i; k = Suc (length intro) - n
      in (introTransitions state ! i, take k (intro @ [None]), map the (filter (\<lambda>c. c \<noteq> None) (drop k (intro @ [None])))))"
  by (simp_all add: intro_step_def Let_def)

lemma IntroCharTypeOf_zero: "IntroCharTypeOf (Some c) = uict00 \<longleftrightarrow> c = char_of (0 :: nat)"
proof
  assume "IntroCharTypeOf (Some c) = uict00"
  then have "of_char c = (0 :: nat)"
    by (simp add: IntroCharTypeOf_def Let_def split: if_splits)
  then show "c = char_of (0 :: nat)"
    by (metis char_of_char)
qed simp

text \<open>After the mark of UTF-16LE the text must not start with the character 0: that is the mark of UTF-32LE.\<close>

lemma detect_bom:
  assumes "cs = utf16le \<Longrightarrow> take 2 bytes \<noteq> [char_of (0 :: nat), char_of (0 :: nat)]"
  shows "detect (bom cs @ bytes) = (cs, bytes)"
proof (cases "cs = utf16le")
  case False
  then show ?thesis
    by (cases cs) (simp_all add: detect_def bom_def intro_loop_step intro_step_Cons Let_def)
next
  case True
  have start: "detect (bom cs @ bytes) = (case intro_loop (uis_utf16le_bom2, map (Some \<circ> char_of) [0xFF, 0xFE :: nat], bytes) of
      (state, _, rest) \<Rightarrow> (charset_of state, rest))"
    by (simp add: detect_def bom_def True intro_loop_step(1) intro_step_Cons Let_def)
  show ?thesis
  proof (cases bytes)
    case Nil
    then show ?thesis
      unfolding start using True by (simp add: intro_loop_step intro_step_Cons Let_def)
  next
    case (Cons c cs')
    show ?thesis
    proof (cases "c = char_of (0 :: nat)")
      case True
      show ?thesis
      proof (cases cs')
        case Nil
        then show ?thesis
          unfolding start using \<open>cs = utf16le\<close> Cons True by (simp add: intro_loop_step intro_step_Cons Let_def)
      next
        case (Cons d ds)
        then have "IntroCharTypeOf (Some d) \<noteq> uict00"
          using assms \<open>cs = utf16le\<close> \<open>bytes = c # cs'\<close> True IntroCharTypeOf_zero [of d] by auto
        then show ?thesis
          unfolding start using \<open>cs = utf16le\<close> \<open>bytes = c # cs'\<close> Cons True
          by (cases "IntroCharTypeOf (Some d)") (simp_all add: intro_loop_step intro_step_Cons Let_def)
      qed
    next
      case False
      then show ?thesis
        unfolding start using \<open>cs = utf16le\<close> Cons IntroCharTypeOf_zero [of c]
        by (cases "IntroCharTypeOf (Some c)") (simp_all add: intro_loop_step intro_step_Cons Let_def)
    qed
  qed
qed

lemma encode_not_zero:
  assumes "\<forall>cp \<in> set cps. code_point cp" "take 1 cps \<noteq> [0]"
  shows "take 2 (encode utf16le cps) \<noteq> [char_of (0 :: nat), char_of (0 :: nat)]"
proof (cases cps)
  case (Cons cp rest)
  obtain u us where u: "utf16_units cp = u # us" "u \<noteq> 0" "u < 0x10000"
    using utf16_units_bound [of cp] assms Cons by (cases "cp < 0x10000") (auto simp: utf16_units_def)
  then have "take 2 (encode utf16le cps) = [char_of (u mod 256), char_of (u div 256)]"
    using Cons by (simp add: encode_def unit_bytes_def)
  moreover have "u mod 256 \<noteq> 0 \<or> u div 256 \<noteq> 0"
    using u(2) by (metis add_0 div_mult_mod_eq mult_0)
  ultimately show ?thesis
    using u(3) of_char_small [of "u mod 256"] of_char_small [of "u div 256"] of_char_small [of 0]
    by (auto simp: less_mult_imp_div_less dest!: arg_cong [of "char_of _" _ "of_char :: char \<Rightarrow> nat"])
qed (simp add: encode_def)

text \<open>
  (C38) Text in any of the five encodings: after its byte order mark the stream hands out the UTF-8 encoding of the code
  points, then end markers, and its mark counts characters, lines and columns. Reading UTF-8 back gives the code
  points, the end marker's own code point replaced.
\<close>

theorem stream_decodes_text:
  assumes "\<forall>cp \<in> set cps. code_point cp" and "cs = utf16le \<Longrightarrow> take 1 cps \<noteq> [0]"
  shows "fst (stream_get_n n (Stream_ctor True (bom cs @ encode cs cps))) =
      take n (concat (map code cps) @ replicate n stream_eof)
    \<and> stream_mark (snd (stream_get_n n (Stream_ctor True (bom cs @ encode cs cps)))) =
      mark_after (take n (concat (map code cps) @ replicate n stream_eof))
    \<and> utf8_read (map of_char (concat (map code cps))) = map queued cps"
proof -
  have "take 2 (encode cs cps) \<noteq> [char_of (0 :: nat), char_of (0 :: nat)]" if "cs = utf16le"
    using encode_not_zero assms that by blast
  then have "detect (bom cs @ encode cs cps) = (cs, encode cs cps)"
    by (rule detect_bom)
  moreover have "decode cs (encode cs cps) = concat (map code cps)"
    using decode_encode [OF assms(1)] by (cases "cs = utf8") (auto simp: decode_def encode_def)
  moreover have "utf8_read (map of_char (concat (map code cps))) = map queued cps"
    using assms(1)
  proof (induction cps)
    case (Cons cp cps)
    then show ?case
      using utf8_read_code [of cp "map of_char (concat (map code cps))"] by (simp add: code_point_def)
  qed simp
  ultimately show ?thesis
    using stream_delivers by metis
qed

theorem stream_decodes_text_witness:
  "fst (stream_get_n 5 (Stream_ctor True (bom utf16le @ encode utf16le [0x41, 0x20AC]))) =
      take 5 (concat (map code [0x41, 0x20AC]) @ replicate 5 stream_eof)
    \<and> utf8_read (map of_char (concat (map code [0x41, 0x20AC]))) = [0x41, 0x20AC]"
  using stream_decodes_text [of "[0x41, 0x20AC]" utf16le 5] by (simp add: code_point_def queued_def)

text \<open>A leading surrogate before a unit that is no surrogate: the unit is lost and the surrogate itself is written.\<close>

theorem unpaired_surrogate_loses_unit:
  assumes "0xD800 \<le> h" "h < 0xDC00" "u < 0xD800" "cs = utf16le \<or> cs = utf16be" "\<forall>u \<in> set us. u < 0x10000"
  shows "decode cs (concat (map (unit_bytes cs) (h # u # us))) = replacement @ code h @ decode cs (concat (map (unit_bytes cs) us))"
  using assms by (auto simp: decode_def units_concat units_unit_bytes)

end
