(* ===== verification/Yaml_Regex.thy ===== *)
theory Yaml_Regex
  imports Yaml_Stream
begin

text \<open>
  The simplified regular expressions of the vendored YAML library (\<^verbatim>\<open>src/lib/yaml-cpp/regex_yaml.{h,cpp}\<close>,
  \<^verbatim>\<open>regeximpl.h\<close>) and the expressions the scanner uses (\<^verbatim>\<open>exp.h\<close>).

  An expression is matched against the start of the text that is left in the character stream. The stream delivers end
  markers for ever after its last character, so that a source is always valid and \<open>[]\<close> stands for a source at which
  the end marker is read. A match gives the number of characters matched, \<open>None\<close> is the C++ value \<^verbatim>\<open>-1\<close>.
\<close>

section \<open>Expressions and matching\<close>

datatype regex =
    REGEX_EMPTY
  | REGEX_MATCH char
  | REGEX_RANGE char char
  | REGEX_OR "regex list"
  | REGEX_AND "regex list"
  | REGEX_NOT "regex list"
  | REGEX_SEQ "regex list"

definition char_at :: "string \<Rightarrow> nat \<Rightarrow> char" where
  "char_at cs i = (if i < length cs then cs ! i else stream_eof)"

definition first_char :: "string \<Rightarrow> char" where
  "first_char cs = (case cs of [] \<Rightarrow> stream_eof | c # _ \<Rightarrow> c)"

text \<open>\<^verbatim>\<open>char\<close> is signed.\<close>

definition schar :: "char \<Rightarrow> int" where
  "schar c = (let n = of_char c in if n < 128 then n else n - 256)"

fun Match :: "regex \<Rightarrow> string \<Rightarrow> nat option"
  and match_or :: "regex list \<Rightarrow> string \<Rightarrow> nat option"
  and match_all :: "regex list \<Rightarrow> string \<Rightarrow> bool"
  and match_seq :: "regex list \<Rightarrow> string \<Rightarrow> nat option" where
  "Match REGEX_EMPTY cs = (if first_char cs = stream_eof then Some 0 else None)"
| "Match (REGEX_MATCH a) cs = (if first_char cs = a then Some 1 else None)"
| "Match (REGEX_RANGE a z) cs = (if schar a > schar (first_char cs) \<or> schar z < schar (first_char cs) then None else Some 1)"
| "Match (REGEX_OR rs) cs = match_or rs cs"
| "Match (REGEX_AND rs) cs = (case rs of [] \<Rightarrow> None | r # rs' \<Rightarrow> if match_all rs' cs then Match r cs else None)"
| "Match (REGEX_NOT rs) cs = (case rs of [] \<Rightarrow> None | r # _ \<Rightarrow> if Match r cs = None then Some 1 else None)"
| "Match (REGEX_SEQ rs) cs = match_seq rs cs"
| "match_or [] cs = None"
| "match_or (r # rs) cs = (case Match r cs of Some n \<Rightarrow> Some n | None \<Rightarrow> match_or rs cs)"
| "match_all [] cs = True"
| "match_all (r # rs) cs = (Match r cs \<noteq> None \<and> match_all rs cs)"
| "match_seq [] cs = Some 0"
| "match_seq (r # rs) cs = (case Match r cs of
     None \<Rightarrow> None
   | Some n \<Rightarrow> map_option (\<lambda>m. n + m) (match_seq rs (drop n cs)))"

definition Matches :: "regex \<Rightarrow> string \<Rightarrow> bool" where
  "Matches r cs \<longleftrightarrow> Match r cs \<noteq> None"

abbreviation re :: "char \<Rightarrow> regex" where
  "re c \<equiv> REGEX_MATCH c"

definition re_chars :: "string \<Rightarrow> regex" where
  "re_chars s = REGEX_OR (map REGEX_MATCH s)"

definition re_string :: "string \<Rightarrow> regex" where
  "re_string s = REGEX_SEQ (map REGEX_MATCH s)"

definition re_or :: "regex \<Rightarrow> regex \<Rightarrow> regex" where
  "re_or a b = REGEX_OR [a, b]"

definition re_and :: "regex \<Rightarrow> regex \<Rightarrow> regex" where
  "re_and a b = REGEX_AND [a, b]"

definition re_seq :: "regex \<Rightarrow> regex \<Rightarrow> regex" where
  "re_seq a b = REGEX_SEQ [a, b]"

definition re_not :: "regex \<Rightarrow> regex" where
  "re_not a = REGEX_NOT [a]"

lemma re_simps [simp]:
  "Match (re_or a b) cs = (case Match a cs of Some n \<Rightarrow> Some n | None \<Rightarrow> Match b cs)"
  "Match (re_and a b) cs = (if Match b cs \<noteq> None then Match a cs else None)"
  "Match (re_not a) cs = (if Match a cs = None then Some 1 else None)"
  "Match (re_seq a b) cs = (case Match a cs of None \<Rightarrow> None | Some n \<Rightarrow> map_option (\<lambda>m. n + m) (Match b (drop n cs)))"
  by (auto simp: re_or_def re_and_def re_not_def re_seq_def option.map_comp comp_def split: option.splits)

lemma match_or_chars: "match_or (map REGEX_MATCH s) cs = (if first_char cs \<in> set s then Some 1 else None)"
  by (induction s) auto

lemma Match_chars [simp]: "Match (re_chars s) cs = (if first_char cs \<in> set s then Some 1 else None)"
  by (simp add: re_chars_def match_or_chars)

section \<open>The expressions of the scanner\<close>

definition Exp_Space :: regex where "Exp_Space = re CHR '' ''"
definition Exp_Tab :: regex where "Exp_Tab = re CHR 0x09"
definition Exp_Blank :: regex where "Exp_Blank = re_or Exp_Space Exp_Tab"
definition Exp_Break :: regex where "Exp_Break = re_or (re CHR 0x0A) (re_string [CHR 0x0D, CHR 0x0A])"
definition Exp_BlankOrBreak :: regex where "Exp_BlankOrBreak = re_or Exp_Blank Exp_Break"
definition Exp_Digit :: regex where "Exp_Digit = REGEX_RANGE CHR ''0'' CHR ''9''"
definition Exp_Alpha :: regex where "Exp_Alpha = re_or (REGEX_RANGE CHR ''a'' CHR ''z'') (REGEX_RANGE CHR ''A'' CHR ''Z'')"
definition Exp_AlphaNumeric :: regex where "Exp_AlphaNumeric = re_or Exp_Alpha Exp_Digit"
definition Exp_Word :: regex where "Exp_Word = re_or Exp_AlphaNumeric (re CHR ''-'')"
definition Exp_Hex :: regex where
  "Exp_Hex = re_or (re_or Exp_Digit (REGEX_RANGE CHR ''A'' CHR ''F'')) (REGEX_RANGE CHR ''a'' CHR ''f'')"
definition Exp_DocStart :: regex where
  "Exp_DocStart = re_seq (re_string ''---'') (re_or Exp_BlankOrBreak REGEX_EMPTY)"
definition Exp_DocEnd :: regex where
  "Exp_DocEnd = re_seq (re_string ''...'') (re_or Exp_BlankOrBreak REGEX_EMPTY)"
definition Exp_DocIndicator :: regex where "Exp_DocIndicator = re_or Exp_DocStart Exp_DocEnd"
definition Exp_BlockEntry :: regex where "Exp_BlockEntry = re_seq (re CHR ''-'') (re_or Exp_BlankOrBreak REGEX_EMPTY)"
definition Exp_Key :: regex where "Exp_Key = re_seq (re CHR ''?'') Exp_BlankOrBreak"
definition Exp_KeyInFlow :: regex where "Exp_KeyInFlow = re_seq (re CHR ''?'') Exp_BlankOrBreak"
definition Exp_Value :: regex where "Exp_Value = re_seq (re CHR '':'') (re_or Exp_BlankOrBreak REGEX_EMPTY)"
definition Exp_ValueInFlow :: regex where
  "Exp_ValueInFlow = re_seq (re CHR '':'') (re_or Exp_BlankOrBreak (re_chars '',}''))"
definition Exp_ValueInJSONFlow :: regex where "Exp_ValueInJSONFlow = re CHR '':''"
definition Exp_Comment :: regex where "Exp_Comment = re CHR ''#''"
definition Exp_Anchor :: regex where "Exp_Anchor = re_not (re_or (re_chars ''[]{},'') Exp_BlankOrBreak)"
definition Exp_AnchorEnd :: regex where "Exp_AnchorEnd = re_or (re_chars (''?:,]}%@'' @ [CHR 0x60])) Exp_BlankOrBreak"
definition Exp_percent :: regex where "Exp_percent = re_seq (re_seq (re CHR ''%'') Exp_Hex) Exp_Hex"
definition Exp_URI :: regex where
  "Exp_URI = re_or (re_or Exp_Word (re_chars (''#;/?:@&=+$,_.!~*'' @ [CHR 0x27] @ ''()[]''))) Exp_percent"
definition Exp_Tag :: regex where
  "Exp_Tag = re_or (re_or Exp_Word (re_chars (''#;/?:@&=+$_.~*'' @ [CHR 0x27] @ ''()''))) Exp_percent"
definition Exp_PlainScalar :: regex where
  "Exp_PlainScalar = re_not (re_or (re_or Exp_BlankOrBreak (re_chars ('',[]{}#&*!|>'' @ [CHR 0x27, CHR 0x22] @ ''%@'' @ [CHR 0x60])))
     (re_seq (re_chars ''-?:'') (re_or Exp_BlankOrBreak REGEX_EMPTY)))"
definition Exp_PlainScalarInFlow :: regex where
  "Exp_PlainScalarInFlow = re_not (re_or (re_or Exp_BlankOrBreak (re_chars (''?,[]{}#&*!|>'' @ [CHR 0x27, CHR 0x22] @ ''%@'' @ [CHR 0x60])))
     (re_seq (re_chars ''-:'') Exp_Blank))"
definition Exp_EndScalar :: regex where "Exp_EndScalar = re_seq (re CHR '':'') (re_or Exp_BlankOrBreak REGEX_EMPTY)"
definition Exp_EndScalarInFlow :: regex where
  "Exp_EndScalarInFlow = re_or (re_seq (re CHR '':'') (re_or (re_or Exp_BlankOrBreak REGEX_EMPTY) (re_chars '',]}'')))
     (re_chars '',?[]{}'')"
definition Exp_ScanScalarEndInFlow :: regex where
  "Exp_ScanScalarEndInFlow = re_or Exp_EndScalarInFlow (re_seq Exp_BlankOrBreak Exp_Comment)"
definition Exp_ScanScalarEnd :: regex where
  "Exp_ScanScalarEnd = re_or Exp_EndScalar (re_seq Exp_BlankOrBreak Exp_Comment)"
definition Exp_EscSingleQuote :: regex where "Exp_EscSingleQuote = re_string [CHR 0x27, CHR 0x27]"
definition Exp_EscBreak :: regex where "Exp_EscBreak = re_seq (re CHR 0x5C) Exp_Break"
definition Exp_ChompIndicator :: regex where "Exp_ChompIndicator = re_chars ''+-''"
definition Exp_Chomp :: regex where
  "Exp_Chomp = re_or (re_or (re_or (re_seq Exp_ChompIndicator Exp_Digit) (re_seq Exp_Digit Exp_ChompIndicator)) Exp_ChompIndicator) Exp_Digit"

text \<open>A match is never longer than the text, except by the end marker.\<close>

lemma Matches_Blank [simp]: "Matches Exp_Blank cs \<longleftrightarrow> cs \<noteq> [] \<and> (hd cs = CHR '' '' \<or> hd cs = CHR 0x09)"
  by (cases cs) (auto simp: Matches_def Exp_Blank_def Exp_Space_def Exp_Tab_def first_char_def stream_eof_def split: option.splits)

lemma Match_Break:
  "Match Exp_Break cs = (if first_char cs = CHR 0x0A then Some 1
     else if first_char cs = CHR 0x0D \<and> first_char (drop 1 cs) = CHR 0x0A then Some 2 else None)"
  by (auto simp: Exp_Break_def re_string_def)

lemma Match_Break_length: "Match Exp_Break cs = Some n \<Longrightarrow> 0 < n \<and> n \<le> length cs"
  by (cases cs) (auto simp: Match_Break first_char_def stream_eof_def Suc_le_eq split: if_splits list.splits)

end
