(* ===== verification/Yaml_Event.thy ===== *)
theory Yaml_Event
  imports Prelude
begin

text \<open>
  Events of the vendored YAML library (\<^verbatim>\<open>src/include/yaml-cpp/eventhandler.h\<close>) and the vocabulary
  its parser is written in.

  \<^item> A parser routine may throw or, as its loops are \<^verbatim>\<open>while (1)\<close>, not return: its value is a \<open>run\<close>,
    \<open>None\<close> when it does not return, otherwise a \<open>result\<close>. \<open>repeat\<close> is the one loop all of them use and
    \<open>runs_repeat\<close> the rule that gives total correctness from a decreasing measure.
  \<^item> \<open>event\<close> is one call of an \<^verbatim>\<open>EventHandler\<close> (positions in the text are left out).
  \<^item> \<open>advance\<close> is the protocol such calls follow: at most one root node, every collection closed, keys
    and values alternating, anchors numbered 1, 2, 3, \<open>\<dots>\<close> in the order in which they are anchor_opened and
    aliases referring to an anchor already opened.
  \<^item> The locale \<open>event_handler\<close> is the contract between the parser and a handler: a call that the
    protocol allows succeeds. What the parser needs of its handler is proved in it.
\<close>

section \<open>Runs\<close>

type_synonym 'a run = "'a result option"

definition ret :: "'a \<Rightarrow> 'a run" where
  "ret x = Some (Inr x)"

definition throw :: "fault \<Rightarrow> 'a run" where
  "throw e = Some (Inl e)"

definition bind_run :: "'a run \<Rightarrow> ('a \<Rightarrow> 'b run) \<Rightarrow> 'b run" where
  "bind_run r f = Option.bind r (\<lambda>x. case x of Inl e \<Rightarrow> Some (Inl e) | Inr y \<Rightarrow> f y)"

lemma bind_run_simps [simp]:
  "bind_run (ret x) f = f x"
  "bind_run (Some (Inr x)) f = f x"
  "bind_run (throw e) f = throw e"
  "bind_run (Some (Inl e)) f = throw e"
  "bind_run None f = None"
  by (simp_all add: bind_run_def ret_def throw_def)

lemma ret_inject [simp]: "ret x = ret y \<longleftrightarrow> x = y"
  by (simp add: ret_def)

lemma bind_run_assoc: "bind_run (bind_run r f) g = bind_run r (\<lambda>x. bind_run (f x) g)"
  by (cases r) (auto simp: bind_run_def split: sum.splits)

text \<open>One turn of a \<^verbatim>\<open>while (1)\<close> either leaves the loop (\<open>True\<close>) or goes round again.\<close>

partial_function (option) repeat :: "('s \<Rightarrow> (bool \<times> 's) run) \<Rightarrow> 's \<Rightarrow> 's run" where
  [code]: "repeat body s = Option.bind (body s) (\<lambda>r. case r of
     Inl e \<Rightarrow> Some (Inl e)
   | Inr (stop, s') \<Rightarrow> if stop then Some (Inr s') else repeat body s')"

lemma repeat_unfold:
  "repeat body s = bind_run (body s) (\<lambda>(stop, s'). if stop then ret s' else repeat body s')"
  by (subst repeat.simps, cases "body s") (auto simp: bind_run_def ret_def split: sum.splits)

text \<open>\<open>runs r Q E\<close>: the run returns; its value satisfies \<open>Q\<close>, or it throws a fault in \<open>E\<close>.\<close>

definition runs :: "'a run \<Rightarrow> ('a \<Rightarrow> bool) \<Rightarrow> (fault \<Rightarrow> bool) \<Rightarrow> bool" where
  "runs r Q E = (case r of None \<Rightarrow> False | Some (Inl e) \<Rightarrow> E e | Some (Inr x) \<Rightarrow> Q x)"

lemma runs_simps [simp]:
  "runs (ret x) Q E = Q x"
  "runs (throw e) Q E = E e"
  "runs (Some (Inr x)) Q E = Q x"
  "runs (Some (Inl e)) Q E = E e"
  "runs None Q E = False"
  by (simp_all add: runs_def ret_def throw_def)

lemma runs_mono:
  "runs r Q E \<Longrightarrow> (\<And>x. Q x \<Longrightarrow> Q' x) \<Longrightarrow> (\<And>e. E e \<Longrightarrow> E' e) \<Longrightarrow> runs r Q' E'"
  by (auto simp: runs_def split: option.splits sum.splits)

lemma runs_bind:
  "runs r (\<lambda>x. runs (f x) Q E) E \<Longrightarrow> runs (bind_run r f) Q E"
  by (auto simp: runs_def bind_run_def split: option.splits sum.splits)

lemma runs_bindI:
  "runs r P E \<Longrightarrow> (\<And>x. P x \<Longrightarrow> runs (f x) Q E) \<Longrightarrow> runs (bind_run r f) Q E"
  by (rule runs_bind) (erule runs_mono)

lemma runs_if: "(b \<Longrightarrow> runs r Q E) \<Longrightarrow> (\<not> b \<Longrightarrow> runs r' Q E) \<Longrightarrow> runs (if b then r else r') Q E"
  by simp

lemma runs_repeat:
  fixes m :: "'s \<Rightarrow> nat"
  assumes "I s"
    and body: "\<And>s. I s \<Longrightarrow> runs (body s) (\<lambda>(stop, s'). if stop then Q s' else I s' \<and> m s' < m s) E"
  shows "runs (repeat body s) Q E"
  using \<open>I s\<close>
proof (induction "m s" arbitrary: s rule: less_induct)
  case less
  show ?case
    by (subst repeat_unfold, rule runs_bindI [OF body [OF less.prems]])
      (auto split: prod.splits if_splits intro: less.hyps)
qed

text \<open>A loop that can always go round again does not return.\<close>

lemma repeat_diverges:
  assumes "\<And>s. I s \<Longrightarrow> \<exists>s'. body s = ret (False, s') \<and> I s'" and "I s"
  shows "repeat body s = None"
proof (rule ccontr)
  assume "repeat body s \<noteq> None"
  then obtain y where "repeat body s = Some y"
    by blast
  moreover have "b = body \<longrightarrow> \<not> I s" if "repeat b s = Some y" for b s y
  proof (rule repeat.raw_induct [where P = "\<lambda>b s _. b = body \<longrightarrow> \<not> I s", OF _ that], intro impI notI)
    fix rep b s y
    assume rep: "\<And>b s y. rep b s = Some y \<Longrightarrow> b = body \<longrightarrow> \<not> I s" and "b = body" "I s"
      and step: "Option.bind (b s) (\<lambda>r. case r of Inl e \<Rightarrow> Some (Inl e)
        | Inr (stop, s') \<Rightarrow> if stop then Some (Inr s') else rep b s') = Some y"
    from assms(1) \<open>I s\<close> obtain s' where s': "body s = ret (False, s')" "I s'"
      by blast
    then have "rep body s' = Some y"
      using step \<open>b = body\<close> by (simp add: ret_def)
    then show False
      using rep s'(2) by blast
  qed
  ultimately show False
    using \<open>I s\<close> by simp
qed

section \<open>Events\<close>

datatype emitter_style = Style_Default | Style_Block | Style_Flow

datatype event =
    OnDocumentStart
  | OnDocumentEnd
  | OnNull nat
  | OnAlias nat
  | OnScalar string nat string
  | OnAnchor string
  | OnSequenceStart string nat emitter_style
  | OnSequenceEnd
  | OnMapStart string nat emitter_style
  | OnMapEnd

section \<open>The protocol\<close>

text \<open>The open collections, the innermost first. A map waits for a key or for a value.\<close>

datatype open_frame = InSeq | AtKey | AtVal

datatype progress = Expect "open_frame list" | Finished

fun completed :: "open_frame list \<Rightarrow> progress" where
  "completed [] = Finished"
| "completed (InSeq # fs) = Expect (InSeq # fs)"
| "completed (AtKey # fs) = Expect (AtVal # fs)"
| "completed (AtVal # fs) = Expect (AtKey # fs)"

text \<open>\<open>anchor_opened a k\<close>: the number of anchors after a node with anchor \<open>a\<close> (0 for none) when \<open>k\<close> are
  known.\<close>

definition anchor_opened :: "nat \<Rightarrow> nat \<Rightarrow> nat option" where
  "anchor_opened a k = (if a = 0 then Some k else if a = Suc k then Some a else None)"

fun advance :: "event \<Rightarrow> progress \<times> nat \<Rightarrow> (progress \<times> nat) option" where
  "advance OnDocumentStart c = Some c"
| "advance OnDocumentEnd c = Some c"
| "advance (OnAnchor _) c = Some c"
| "advance (OnNull a) (Expect fs, k) = map_option (\<lambda>k'. (completed fs, k')) (anchor_opened a k)"
| "advance (OnScalar _ a _) (Expect fs, k) = map_option (\<lambda>k'. (completed fs, k')) (anchor_opened a k)"
| "advance (OnAlias a) (Expect fs, k) = (if 1 \<le> a \<and> a \<le> k then Some (completed fs, k) else None)"
| "advance (OnSequenceStart _ a _) (Expect fs, k) = map_option (\<lambda>k'. (Expect (InSeq # fs), k')) (anchor_opened a k)"
| "advance (OnMapStart _ a _) (Expect fs, k) = map_option (\<lambda>k'. (Expect (AtKey # fs), k')) (anchor_opened a k)"
| "advance OnSequenceEnd (Expect (InSeq # fs), k) = Some (completed fs, k)"
| "advance OnMapEnd (Expect (AtKey # fs), k) = Some (completed fs, k)"
| "advance _ _ = None"

lemma anchor_opened_0 [simp]: "anchor_opened 0 k = Some k"
  by (simp add: anchor_opened_def)

lemma completed_cases:
  obtains "fs = []" "completed fs = Finished"
    | f fs' where "fs = f # fs'" "completed fs = Expect ((case f of InSeq \<Rightarrow> InSeq | AtKey \<Rightarrow> AtVal | AtVal \<Rightarrow> AtKey) # fs')"
  by (cases fs rule: completed.cases) auto

section \<open>The contract of an event handler\<close>

text \<open>\<open>on\<close> is the handler's reaction to a call and \<open>ok c h\<close> says that the handler has followed the
  protocol up to \<open>c\<close>.\<close>

locale event_handler =
  fixes on :: "event \<Rightarrow> 'h \<Rightarrow> 'h result"
    and ok :: "progress \<times> nat \<Rightarrow> 'h \<Rightarrow> bool"
  assumes on_ok: "ok c h \<Longrightarrow> advance e c = Some c' \<Longrightarrow> \<exists>h'. on e h = Inr h' \<and> ok c' h'"
begin

lemma on_runs: "ok c h \<Longrightarrow> advance e c = Some c' \<Longrightarrow> runs (Some (on e h)) (ok c') E"
  using on_ok [of c h e c'] by auto

end

end
