(* ===== verification/Yaml_Node.thy ===== *)
theory Yaml_Node
  imports Yaml_Event
begin

text \<open>
  The node graph of the vendored YAML library: \<^verbatim>\<open>src/lib/yaml-cpp/node_data.cpp\<close>,
  \<^verbatim>\<open>src/include/yaml-cpp/node/detail/node.h\<close>, \<^verbatim>\<open>src/lib/yaml-cpp/memory.cpp\<close> and the builder that makes a
  graph from parser events, \<^verbatim>\<open>src/lib/yaml-cpp/nodebuilder.cpp\<close>.

  The memory of a document is the list of its nodes in the order of their creation and a pointer to a
  node is its position. A node made by \<^verbatim>\<open>create_node\<close> owns its \<^verbatim>\<open>node_ref\<close> and \<^verbatim>\<open>node_data\<close>, so the three
  C++ objects are one record here; \<^verbatim>\<open>set_ref\<close> and \<^verbatim>\<open>set_data\<close>, which make two nodes share them, belong to
  assignments through the \<^verbatim>\<open>Node\<close> interface and are not used while a document is loaded.

  Theorems: the builder keeps the contract of an event handler (\<open>nb\<close>, an interpretation of
  \<open>event_handler\<close>): no assertion of it fails on a protocol-conforming sequence of calls. For the operations of the
  graph: a subscript finds again the node it created, a sequence that becomes a map keeps its elements under
  their positions, a removed key is gone, and the size counts the defined entries.
\<close>

section \<open>Nodes\<close>

datatype node_type = NT_Undefined | NT_Null | NT_Scalar | NT_Sequence | NT_Map

record node =
  m_isDefined :: bool
  m_type :: node_type
  m_tag :: string
  m_style :: emitter_style
  m_scalar :: string
  m_sequence :: "nat list"
  m_seqSize :: nat
  m_map :: "(nat \<times> nat) list"
  m_undefinedPairs :: "(nat \<times> nat) list"
  m_dependencies :: "nat list"

type_synonym memory = "node list"

definition node_ctor :: node where
  "node_ctor = \<lparr>m_isDefined = False, m_type = NT_Null, m_tag = [], m_style = Style_Default, m_scalar = [],
     m_sequence = [], m_seqSize = 0, m_map = [], m_undefinedPairs = [], m_dependencies = []\<rparr>"

definition create_node :: "memory \<Rightarrow> nat \<times> memory" where
  "create_node mem = (length mem, mem @ [node_ctor])"

definition node_type_of :: "memory \<Rightarrow> nat \<Rightarrow> node_type" where
  "node_type_of mem i = m_type (mem ! i)"

definition is_defined :: "memory \<Rightarrow> nat \<Rightarrow> bool" where
  "is_defined mem i = m_isDefined (mem ! i)"

definition modify :: "nat \<Rightarrow> (node \<Rightarrow> node) \<Rightarrow> memory \<Rightarrow> memory" where
  "modify i f mem = mem[i := f (mem ! i)]"

subsection \<open>Operations on the data of one node\<close>

definition data_mark_defined :: "node \<Rightarrow> node" where
  "data_mark_defined n = n\<lparr>m_type := (if m_type n = NT_Undefined then NT_Null else m_type n), m_isDefined := True\<rparr>"

definition reset_sequence :: "node \<Rightarrow> node" where
  "reset_sequence n = n\<lparr>m_sequence := [], m_seqSize := 0\<rparr>"

definition reset_map :: "node \<Rightarrow> node" where
  "reset_map n = n\<lparr>m_map := [], m_undefinedPairs := []\<rparr>"

definition data_set_type :: "node_type \<Rightarrow> node \<Rightarrow> node" where
  "data_set_type t n =
     (if t = NT_Undefined then n\<lparr>m_type := t, m_isDefined := False\<rparr>
      else if t = m_type n then n\<lparr>m_isDefined := True\<rparr>
      else (let n1 = n\<lparr>m_isDefined := True, m_type := t\<rparr> in
        case t of
          NT_Scalar \<Rightarrow> n1\<lparr>m_scalar := []\<rparr>
        | NT_Sequence \<Rightarrow> reset_sequence n1
        | NT_Map \<Rightarrow> reset_map n1
        | _ \<Rightarrow> n1))"

definition data_set_null :: "node \<Rightarrow> node" where
  "data_set_null n = n\<lparr>m_isDefined := True, m_type := NT_Null\<rparr>"

definition data_set_scalar :: "string \<Rightarrow> node \<Rightarrow> node" where
  "data_set_scalar s n = n\<lparr>m_isDefined := True, m_type := NT_Scalar, m_scalar := s\<rparr>"

subsection \<open>Definedness\<close>

lemma undefined_count_less:
  "i < length mem \<Longrightarrow> \<not> m_isDefined (mem ! i) \<Longrightarrow> m_isDefined n \<Longrightarrow>
   length (filter (\<lambda>n. \<not> m_isDefined n) (mem[i := n])) < length (filter (\<lambda>n. \<not> m_isDefined n) mem)"
  by (induction mem arbitrary: i) (auto split: nat.splits)

text \<open>\<^verbatim>\<open>node::mark_defined\<close> recurs through the nodes that wait for this one; the recursion is a work list
  here. A node that is already defined is passed over, so it ends.\<close>

function mark_defined_all :: "nat list \<Rightarrow> memory \<Rightarrow> memory" where
  "mark_defined_all [] mem = mem"
| "mark_defined_all (i # is) mem =
     (if i < length mem \<and> \<not> is_defined mem i
      then mark_defined_all (m_dependencies (mem ! i) @ is)
             (modify i (\<lambda>n. (data_mark_defined n)\<lparr>m_dependencies := []\<rparr>) mem)
      else mark_defined_all is mem)"
  by pat_completeness auto

termination
  by (relation "measures [\<lambda>(_, mem). length (filter (\<lambda>n. \<not> m_isDefined n) mem), \<lambda>(is, _). length is]")
    (simp_all add: undefined_count_less modify_def is_defined_def data_mark_defined_def)

definition mark_defined :: "nat \<Rightarrow> memory \<Rightarrow> memory" where
  "mark_defined i mem = mark_defined_all [i] mem"

definition add_dependency :: "nat \<Rightarrow> nat \<Rightarrow> memory \<Rightarrow> memory" where
  "add_dependency i rhs mem =
     (if is_defined mem i then mark_defined rhs mem
      else modify i (\<lambda>n. n\<lparr>m_dependencies := List.insert rhs (m_dependencies n)\<rparr>) mem)"

definition node_set_type :: "nat \<Rightarrow> node_type \<Rightarrow> memory \<Rightarrow> memory" where
  "node_set_type i t mem =
     modify i (data_set_type t) (if t = NT_Undefined then mem else mark_defined i mem)"

definition node_set_null :: "nat \<Rightarrow> memory \<Rightarrow> memory" where
  "node_set_null i mem = modify i data_set_null (mark_defined i mem)"

definition node_set_scalar :: "nat \<Rightarrow> string \<Rightarrow> memory \<Rightarrow> memory" where
  "node_set_scalar i s mem = modify i (data_set_scalar s) (mark_defined i mem)"

definition node_set_tag :: "nat \<Rightarrow> string \<Rightarrow> memory \<Rightarrow> memory" where
  "node_set_tag i t mem = modify i (\<lambda>n. n\<lparr>m_tag := t\<rparr>) (mark_defined i mem)"

definition node_set_style :: "nat \<Rightarrow> emitter_style \<Rightarrow> memory \<Rightarrow> memory" where
  "node_set_style i s mem = modify i (\<lambda>n. n\<lparr>m_style := s\<rparr>) (mark_defined i mem)"

subsection \<open>Collections\<close>

definition data_push_back :: "nat \<Rightarrow> nat \<Rightarrow> memory \<Rightarrow> memory result" where
  "data_push_back i input mem =
     (let n = mem ! i;
          n1 = (if m_type n = NT_Undefined \<or> m_type n = NT_Null
                then reset_sequence (n\<lparr>m_type := NT_Sequence\<rparr>) else n)
      in if m_type n1 \<noteq> NT_Sequence then Inl BadPushback
         else Inr (mem[i := n1\<lparr>m_sequence := m_sequence n1 @ [input]\<rparr>]))"

definition insert_map_pair :: "nat \<Rightarrow> nat \<Rightarrow> nat \<Rightarrow> memory \<Rightarrow> memory" where
  "insert_map_pair i key val mem =
     modify i (\<lambda>n. n\<lparr>m_map := m_map n @ [(key, val)],
       m_undefinedPairs := m_undefinedPairs n @
         (if \<not> is_defined mem key \<or> \<not> is_defined mem val then [(key, val)] else [])\<rparr>) mem"

text \<open>The loop of \<^verbatim>\<open>convert_sequence_to_map\<close> over the elements from position \<open>p\<close>: every element gets a new
  scalar key, its position in decimal.\<close>

fun convert_elements :: "nat \<Rightarrow> nat \<Rightarrow> nat list \<Rightarrow> memory \<Rightarrow> memory" where
  "convert_elements i p [] mem = mem"
| "convert_elements i p (x # xs) mem =
     (let (key, mem1) = create_node mem
      in convert_elements i (Suc p) xs (insert_map_pair i key x (node_set_scalar key (dec_nat p) mem1)))"

definition convert_sequence_to_map :: "nat \<Rightarrow> memory \<Rightarrow> memory result" where
  "convert_sequence_to_map i mem =
     andThen (check (node_type_of mem i = NT_Sequence)) (\<lambda>_.
     let mem1 = convert_elements i 0 (m_sequence (mem ! i)) (modify i reset_map mem)
     in Inr (modify i (\<lambda>n. (reset_sequence n)\<lparr>m_type := NT_Map\<rparr>) mem1))"

definition convert_to_map :: "nat \<Rightarrow> memory \<Rightarrow> memory result" where
  "convert_to_map i mem = (case node_type_of mem i of
     NT_Undefined \<Rightarrow> Inr (modify i (\<lambda>n. (reset_map n)\<lparr>m_type := NT_Map\<rparr>) mem)
   | NT_Null \<Rightarrow> Inr (modify i (\<lambda>n. (reset_map n)\<lparr>m_type := NT_Map\<rparr>) mem)
   | NT_Sequence \<Rightarrow> convert_sequence_to_map i mem
   | NT_Map \<Rightarrow> Inr mem
   | NT_Scalar \<Rightarrow> Inl AssertFailed)"

definition data_insert :: "nat \<Rightarrow> nat \<Rightarrow> nat \<Rightarrow> memory \<Rightarrow> memory result" where
  "data_insert i key val mem = (case node_type_of mem i of
     NT_Map \<Rightarrow> Inr (insert_map_pair i key val mem)
   | NT_Scalar \<Rightarrow> Inl BadSubscript
   | _ \<Rightarrow> andThen (convert_to_map i mem) (\<lambda>mem1. Inr (insert_map_pair i key val mem1)))"

definition data_get_const :: "nat \<Rightarrow> nat \<Rightarrow> memory \<Rightarrow> nat option" where
  "data_get_const i key mem =
     (if node_type_of mem i \<noteq> NT_Map then None
      else map_option snd (List.find (\<lambda>(k, _). k = key) (m_map (mem ! i))))"

definition data_get :: "nat \<Rightarrow> nat \<Rightarrow> memory \<Rightarrow> (nat \<times> memory) result" where
  "data_get i key mem =
     andThen (case node_type_of mem i of NT_Map \<Rightarrow> Inr mem | NT_Scalar \<Rightarrow> Inl BadSubscript | _ \<Rightarrow> convert_to_map i mem)
     (\<lambda>mem1. case List.find (\<lambda>(k, _). k = key) (m_map (mem1 ! i)) of
       Some (_, v) \<Rightarrow> Inr (v, mem1)
     | None \<Rightarrow> (let (v, mem2) = create_node mem1 in Inr (v, insert_map_pair i key v mem2)))"

definition erase_first :: "('a \<Rightarrow> bool) \<Rightarrow> 'a list \<Rightarrow> 'a list" where
  "erase_first P xs = takeWhile (\<lambda>x. \<not> P x) xs @ drop 1 (dropWhile (\<lambda>x. \<not> P x) xs)"

definition data_remove :: "nat \<Rightarrow> nat \<Rightarrow> memory \<Rightarrow> bool \<times> memory" where
  "data_remove i key mem =
     (if node_type_of mem i \<noteq> NT_Map then (False, mem)
      else (\<exists>p \<in> set (m_map (mem ! i)). fst p = key,
            modify i (\<lambda>n. n\<lparr>m_undefinedPairs := filter (\<lambda>p. fst p \<noteq> key) (m_undefinedPairs n),
                            m_map := erase_first (\<lambda>p. fst p = key) (m_map n)\<rparr>) mem))"

definition compute_seq_size :: "nat \<Rightarrow> memory \<Rightarrow> memory" where
  "compute_seq_size i mem = modify i (\<lambda>n. n\<lparr>m_seqSize :=
     m_seqSize n + length (takeWhile (is_defined mem) (drop (m_seqSize n) (m_sequence n)))\<rparr>) mem"

definition compute_map_size :: "nat \<Rightarrow> memory \<Rightarrow> memory" where
  "compute_map_size i mem = modify i (\<lambda>n. n\<lparr>m_undefinedPairs :=
     filter (\<lambda>(k, v). \<not> (is_defined mem k \<and> is_defined mem v)) (m_undefinedPairs n)\<rparr>) mem"

definition data_size :: "nat \<Rightarrow> memory \<Rightarrow> nat \<times> memory" where
  "data_size i mem =
     (if \<not> is_defined mem i then (0, mem)
      else case node_type_of mem i of
        NT_Sequence \<Rightarrow> (let mem1 = compute_seq_size i mem in (m_seqSize (mem1 ! i), mem1))
      | NT_Map \<Rightarrow> (let mem1 = compute_map_size i mem
          in (length (m_map (mem1 ! i)) - length (m_undefinedPairs (mem1 ! i)), mem1))
      | _ \<Rightarrow> (0, mem))"

definition node_push_back :: "nat \<Rightarrow> nat \<Rightarrow> memory \<Rightarrow> memory result" where
  "node_push_back i input mem = andThen (data_push_back i input mem) (\<lambda>mem1. Inr (add_dependency input i mem1))"

definition node_insert :: "nat \<Rightarrow> nat \<Rightarrow> nat \<Rightarrow> memory \<Rightarrow> memory result" where
  "node_insert i key val mem =
     andThen (data_insert i key val mem) (\<lambda>mem1. Inr (add_dependency val i (add_dependency key i mem1)))"

definition node_get_or_create :: "nat \<Rightarrow> nat \<Rightarrow> memory \<Rightarrow> (nat \<times> memory) result" where
  "node_get_or_create i key mem =
     andThen (data_get i key mem) (\<lambda>(v, mem1). Inr (v, add_dependency v i (add_dependency key i mem1)))"

section \<open>The builder\<close>

text \<open>Stacks have their top first. \<open>nb_keys\<close> holds the keys whose value is not known yet: \<open>False\<close> while the
  key itself is being built.\<close>

record builder =
  nb_memory :: memory
  nb_root :: "nat option"
  nb_stack :: "nat list"
  nb_anchors :: "nat option list"
  nb_keys :: "(nat \<times> bool) list"
  nb_mapDepth :: nat

definition builder_ctor :: builder where
  "builder_ctor = \<lparr>nb_memory = [], nb_root = None, nb_stack = [], nb_anchors = [None], nb_keys = [], nb_mapDepth = 0\<rparr>"

definition NodeBuilder_RegisterAnchor :: "nat \<Rightarrow> nat \<Rightarrow> builder \<Rightarrow> builder result" where
  "NodeBuilder_RegisterAnchor anchor node b =
     (if anchor \<noteq> 0 then
        andThen (check (anchor = length (nb_anchors b))) (\<lambda>_. Inr (b\<lparr>nb_anchors := nb_anchors b @ [Some node]\<rparr>))
      else Inr b)"

definition Push_node :: "nat \<Rightarrow> builder \<Rightarrow> builder" where
  "Push_node node b =
     (let needsKey = (nb_stack b \<noteq> [] \<and> node_type_of (nb_memory b) (hd (nb_stack b)) = NT_Map
                      \<and> length (nb_keys b) < nb_mapDepth b);
          b1 = b\<lparr>nb_stack := node # nb_stack b\<rparr>
      in if needsKey then b1\<lparr>nb_keys := (node, False) # nb_keys b1\<rparr> else b1)"

definition Push_new :: "nat \<Rightarrow> builder \<Rightarrow> (nat \<times> builder) result" where
  "Push_new anchor b =
     (let (node, mem) = create_node (nb_memory b) in
      andThen (NodeBuilder_RegisterAnchor anchor node (b\<lparr>nb_memory := mem\<rparr>)) (\<lambda>b1.
      Inr (node, Push_node node b1)))"

definition Pop :: "builder \<Rightarrow> builder result" where
  "Pop b = (case nb_stack b of
     [] \<Rightarrow> Inl AssertFailed
   | [r] \<Rightarrow> Inr (b\<lparr>nb_root := Some r, nb_stack := []\<rparr>)
   | node # collection # rest \<Rightarrow>
       (let b1 = b\<lparr>nb_stack := collection # rest\<rparr> in
        case node_type_of (nb_memory b1) collection of
          NT_Sequence \<Rightarrow>
            andThen (node_push_back collection node (nb_memory b1)) (\<lambda>mem. Inr (b1\<lparr>nb_memory := mem\<rparr>))
        | NT_Map \<Rightarrow>
            (case nb_keys b1 of
               [] \<Rightarrow> Inl AssertFailed
             | (key, hasValue) # ks \<Rightarrow>
                 if hasValue
                 then andThen (node_insert collection key node (nb_memory b1)) (\<lambda>mem.
                      Inr (b1\<lparr>nb_memory := mem, nb_keys := ks\<rparr>))
                 else Inr (b1\<lparr>nb_keys := (key, True) # ks\<rparr>))
        | _ \<Rightarrow> Inl AssertFailed))"

definition nb_update :: "(memory \<Rightarrow> memory) \<Rightarrow> builder \<Rightarrow> builder" where
  "nb_update f b = b\<lparr>nb_memory := f (nb_memory b)\<rparr>"

definition NodeBuilder_OnNull :: "nat \<Rightarrow> builder \<Rightarrow> builder result" where
  "NodeBuilder_OnNull anchor b = andThen (Push_new anchor b) (\<lambda>(node, b1). Pop (nb_update (node_set_null node) b1))"

definition NodeBuilder_OnAlias :: "nat \<Rightarrow> builder \<Rightarrow> builder result" where
  "NodeBuilder_OnAlias anchor b =
     (if anchor < length (nb_anchors b) then
        (case nb_anchors b ! anchor of Some node \<Rightarrow> Pop (Push_node node b) | None \<Rightarrow> Inl SegFault)
      else Inl SegFault)"

definition NodeBuilder_OnScalar :: "string \<Rightarrow> nat \<Rightarrow> string \<Rightarrow> builder \<Rightarrow> builder result" where
  "NodeBuilder_OnScalar tag anchor val b =
     andThen (Push_new anchor b) (\<lambda>(node, b1).
     Pop (nb_update (node_set_tag node tag) (nb_update (node_set_scalar node val) b1)))"

definition NodeBuilder_OnSequenceStart :: "string \<Rightarrow> nat \<Rightarrow> emitter_style \<Rightarrow> builder \<Rightarrow> builder result" where
  "NodeBuilder_OnSequenceStart tag anchor style b =
     andThen (Push_new anchor b) (\<lambda>(node, b1).
     Inr (nb_update (node_set_style node style) (nb_update (node_set_type node NT_Sequence)
       (nb_update (node_set_tag node tag) b1))))"

definition NodeBuilder_OnSequenceEnd :: "builder \<Rightarrow> builder result" where
  "NodeBuilder_OnSequenceEnd b = Pop b"

definition NodeBuilder_OnMapStart :: "string \<Rightarrow> nat \<Rightarrow> emitter_style \<Rightarrow> builder \<Rightarrow> builder result" where
  "NodeBuilder_OnMapStart tag anchor style b =
     andThen (Push_new anchor b) (\<lambda>(node, b1).
     let b2 = nb_update (node_set_style node style) (nb_update (node_set_tag node tag)
       (nb_update (node_set_type node NT_Map) b1))
     in Inr (b2\<lparr>nb_mapDepth := nb_mapDepth b2 + 1\<rparr>))"

definition NodeBuilder_OnMapEnd :: "builder \<Rightarrow> builder result" where
  "NodeBuilder_OnMapEnd b = andThen (check (nb_mapDepth b > 0)) (\<lambda>_. Pop (b\<lparr>nb_mapDepth := nb_mapDepth b - 1\<rparr>))"

fun builder_on :: "event \<Rightarrow> builder \<Rightarrow> builder result" where
  "builder_on OnDocumentStart b = Inr b"
| "builder_on OnDocumentEnd b = Inr b"
| "builder_on (OnNull a) b = NodeBuilder_OnNull a b"
| "builder_on (OnAlias a) b = NodeBuilder_OnAlias a b"
| "builder_on (OnScalar t a v) b = NodeBuilder_OnScalar t a v b"
| "builder_on (OnAnchor _) b = Inr b"
| "builder_on (OnSequenceStart t a s) b = NodeBuilder_OnSequenceStart t a s b"
| "builder_on OnSequenceEnd b = NodeBuilder_OnSequenceEnd b"
| "builder_on (OnMapStart t a s) b = NodeBuilder_OnMapStart t a s b"
| "builder_on OnMapEnd b = NodeBuilder_OnMapEnd b"

section \<open>The node operations while a document is loaded\<close>

text \<open>Every node of a document being loaded is defined as soon as it is made, so that no dependency is ever
  recorded.\<close>

lemma mark_defined_defined [simp]: "is_defined mem i \<Longrightarrow> mark_defined i mem = mem"
  by (simp add: mark_defined_def)

lemma mark_defined_fresh [simp]:
  "mark_defined (length mem) (mem @ [node_ctor]) = mem @ [node_ctor\<lparr>m_isDefined := True\<rparr>]"
  by (simp add: mark_defined_def is_defined_def modify_def data_mark_defined_def node_ctor_def)

lemma is_defined_append [simp]:
  "is_defined (mem @ [n]) (length mem) = m_isDefined n"
  by (simp add: is_defined_def)

lemma modify_append [simp]: "modify (length mem) f (mem @ [n]) = mem @ [f n]"
  by (simp add: modify_def)

definition null_node :: node where
  "null_node = node_ctor\<lparr>m_isDefined := True\<rparr>"

definition scalar_node :: "string \<Rightarrow> string \<Rightarrow> node" where
  "scalar_node t v = node_ctor\<lparr>m_isDefined := True, m_type := NT_Scalar, m_tag := t, m_scalar := v\<rparr>"

definition collection_node :: "node_type \<Rightarrow> string \<Rightarrow> emitter_style \<Rightarrow> node" where
  "collection_node k t s = node_ctor\<lparr>m_isDefined := True, m_type := k, m_tag := t, m_style := s\<rparr>"

lemma fresh_null: "node_set_null (length mem) (mem @ [node_ctor]) = mem @ [null_node]"
  by (simp add: node_set_null_def null_node_def data_set_null_def) (simp add: node_ctor_def)

lemma fresh_scalar:
  "node_set_tag (length mem) t (node_set_scalar (length mem) v (mem @ [node_ctor])) = mem @ [scalar_node t v]"
  by (simp add: node_set_tag_def node_set_scalar_def scalar_node_def data_set_scalar_def)

lemma fresh_sequence:
  "node_set_style (length mem) s (node_set_type (length mem) NT_Sequence
     (node_set_tag (length mem) t (mem @ [node_ctor]))) = mem @ [collection_node NT_Sequence t s]"
  by (simp add: node_set_tag_def node_set_type_def node_set_style_def collection_node_def data_set_type_def)
    (simp add: node_ctor_def reset_sequence_def)

lemma fresh_map:
  "node_set_style (length mem) s (node_set_tag (length mem) t
     (node_set_type (length mem) NT_Map (mem @ [node_ctor]))) = mem @ [collection_node NT_Map t s]"
  by (simp add: node_set_tag_def node_set_type_def node_set_style_def collection_node_def data_set_type_def)
    (simp add: node_ctor_def reset_map_def)

lemma fresh_fields [simp]:
  "m_isDefined null_node" "m_isDefined (scalar_node t v)" "m_isDefined (collection_node k t s)"
  "m_type null_node = NT_Null" "m_type (scalar_node t v) = NT_Scalar" "m_type (collection_node k t s) = k"
  "m_scalar (scalar_node t v) = v" "m_sequence (collection_node k t s) = []" "m_map (collection_node k t s) = []"
  by (simp_all add: null_node_def scalar_node_def collection_node_def node_ctor_def)

definition all_defined :: "memory \<Rightarrow> bool" where
  "all_defined mem = list_all m_isDefined mem"

lemma all_defined_nth: "all_defined mem \<Longrightarrow> i < length mem \<Longrightarrow> is_defined mem i"
  by (simp add: all_defined_def list_all_length is_defined_def)

lemma all_defined_update [simp]:
  "all_defined mem \<Longrightarrow> m_isDefined n \<Longrightarrow> all_defined (mem[i := n])"
  by (auto simp: all_defined_def list_all_iff dest!: subsetD [OF set_update_subset_insert])

lemma all_defined_append [simp]: "all_defined (mem @ mem') \<longleftrightarrow> all_defined mem \<and> all_defined mem'"
  by (simp add: all_defined_def)

lemma all_defined_simps [simp]: "all_defined []" "all_defined [n] = m_isDefined n"
  by (simp_all add: all_defined_def)

lemma add_dependency_defined:
  "all_defined mem \<Longrightarrow> i < length mem \<Longrightarrow> j < length mem \<Longrightarrow> add_dependency i j mem = mem"
  by (simp add: add_dependency_def all_defined_nth)

lemma node_push_back_defined:
  assumes "all_defined mem" "i < length mem" "j < length mem" "m_type (mem ! i) = NT_Sequence"
  shows "node_push_back i j mem = Inr (mem[i := (mem ! i)\<lparr>m_sequence := m_sequence (mem ! i) @ [j]\<rparr>])"
proof -
  let ?n = "(mem ! i)\<lparr>m_sequence := m_sequence (mem ! i) @ [j]\<rparr>"
  have "m_isDefined ?n"
    using assms all_defined_nth [of mem i] by (simp add: is_defined_def)
  then show ?thesis
    using assms add_dependency_defined [of "mem[i := ?n]" j i] by (simp add: node_push_back_def data_push_back_def Let_def)
qed

lemma node_insert_defined:
  assumes "all_defined mem" "i < length mem" "key < length mem" "j < length mem" "m_type (mem ! i) = NT_Map"
  shows "node_insert i key j mem = Inr (mem[i := (mem ! i)\<lparr>m_map := m_map (mem ! i) @ [(key, j)]\<rparr>])"
proof -
  let ?n = "(mem ! i)\<lparr>m_map := m_map (mem ! i) @ [(key, j)]\<rparr>"
  have "m_isDefined ?n"
    using assms all_defined_nth [of mem i] by (simp add: is_defined_def)
  moreover have "(mem ! i)\<lparr>m_map := m_map (mem ! i) @ [(key, j)], m_undefinedPairs := m_undefinedPairs (mem ! i)\<rparr> = ?n"
    by simp
  ultimately show ?thesis
    using assms all_defined_nth [of mem] add_dependency_defined [of "mem[i := ?n]" key i]
      add_dependency_defined [of "mem[i := ?n]" j i]
    by (simp add: node_insert_def data_insert_def node_type_of_def insert_map_pair_def modify_def)
qed

section \<open>The builder follows the protocol\<close>

fun frame_type :: "open_frame \<Rightarrow> node_type" where
  "frame_type InSeq = NT_Sequence"
| "frame_type AtKey = NT_Map"
| "frame_type AtVal = NT_Map"

text \<open>What \<open>nb_keys\<close> records of the open collections while a node is being built in the innermost one.\<close>

fun key_flags :: "open_frame list \<Rightarrow> bool list" where
  "key_flags [] = []"
| "key_flags (InSeq # fs) = key_flags fs"
| "key_flags (AtKey # fs) = False # key_flags fs"
| "key_flags (AtVal # fs) = True # key_flags fs"

fun waiting_flags :: "open_frame list \<Rightarrow> bool list" where
  "waiting_flags (AtVal # fs) = True # key_flags fs"
| "waiting_flags (f # fs) = key_flags fs"
| "waiting_flags [] = []"

definition map_frames :: "open_frame list \<Rightarrow> nat" where
  "map_frames fs = length (filter (\<lambda>f. f \<noteq> InSeq) fs)"

lemma map_frames_simps [simp]:
  "map_frames [] = 0" "map_frames (InSeq # fs) = map_frames fs"
  "map_frames (AtKey # fs) = Suc (map_frames fs)" "map_frames (AtVal # fs) = Suc (map_frames fs)"
  by (simp_all add: map_frames_def)

lemma length_key_flags [simp]: "length (key_flags fs) = map_frames fs"
  by (induction fs rule: key_flags.induct) simp_all

definition anchors_ok :: "nat \<Rightarrow> builder \<Rightarrow> bool" where
  "anchors_ok k b \<longleftrightarrow> length (nb_anchors b) = Suc k \<and>
     (\<forall>j. 1 \<le> j \<and> j \<le> k \<longrightarrow> (\<exists>i. nb_anchors b ! j = Some i \<and> i < length (nb_memory b)))"

definition open_frames :: "builder \<Rightarrow> nat list \<Rightarrow> open_frame list \<Rightarrow> bool" where
  "open_frames b is fs = list_all2 (\<lambda>i f. i < length (nb_memory b) \<and> node_type_of (nb_memory b) i = frame_type f) is fs"

definition keys_ok :: "bool list \<Rightarrow> builder \<Rightarrow> bool" where
  "keys_ok flags b \<longleftrightarrow> map snd (nb_keys b) = flags \<and> (\<forall>x \<in> set (nb_keys b). fst x < length (nb_memory b))"

text \<open>\<open>pushed fs k b\<close>: a node is on the stack above the open collections \<open>fs\<close>.\<close>

definition pushed :: "open_frame list \<Rightarrow> nat \<Rightarrow> builder \<Rightarrow> bool" where
  "pushed fs k b \<longleftrightarrow> all_defined (nb_memory b) \<and> anchors_ok k b \<and> keys_ok (key_flags fs) b \<and> nb_mapDepth b = map_frames fs
     \<and> (\<exists>i is. nb_stack b = i # is \<and> i < length (nb_memory b) \<and> open_frames b is fs)"

fun builder_ok :: "progress \<times> nat \<Rightarrow> builder \<Rightarrow> bool" where
  "builder_ok (Expect fs, k) b \<longleftrightarrow> all_defined (nb_memory b) \<and> anchors_ok k b \<and> keys_ok (waiting_flags fs) b
     \<and> nb_mapDepth b = map_frames fs \<and> open_frames b (nb_stack b) fs"
| "builder_ok (Finished, k) b \<longleftrightarrow> all_defined (nb_memory b) \<and> anchors_ok k b \<and> nb_keys b = [] \<and> nb_mapDepth b = 0
     \<and> nb_stack b = [] \<and> (\<exists>i. nb_root b = Some i \<and> i < length (nb_memory b))"

lemma keys_ok_memory:
  "keys_ok flags b \<Longrightarrow> nb_keys b' = nb_keys b \<Longrightarrow> length (nb_memory b) \<le> length (nb_memory b') \<Longrightarrow> keys_ok flags b'"
  unfolding keys_ok_def by (metis order_less_le_trans)

lemma anchors_ok_memory:
  "anchors_ok k b \<Longrightarrow> nb_anchors b' = nb_anchors b \<Longrightarrow> length (nb_memory b) \<le> length (nb_memory b') \<Longrightarrow> anchors_ok k b'"
  unfolding anchors_ok_def by (metis order_less_le_trans)

lemma open_frames_memory:
  assumes "open_frames b is fs"
    and "\<And>i. i < length (nb_memory b) \<Longrightarrow> i < length (nb_memory b') \<and> node_type_of (nb_memory b') i = node_type_of (nb_memory b) i"
  shows "open_frames b' is fs"
  using assms unfolding open_frames_def by (auto elim: list_all2_mono)

lemma Push_node_pushed:
  assumes "builder_ok (Expect fs, k) b" "i < length (nb_memory b)"
  shows "pushed fs k (Push_node i b)"
proof (cases fs)
  case Nil
  then show ?thesis
    using assms by (auto simp: pushed_def Push_node_def anchors_ok_def keys_ok_def open_frames_def)
next
  case (Cons f fs')
  then obtain j js where "nb_stack b = j # js"
    using assms by (auto simp: open_frames_def list_all2_Cons2)
  moreover have "length (nb_keys b) = length (waiting_flags fs)"
    using assms by (metis builder_ok.simps(1) keys_ok_def length_map)
  ultimately show ?thesis
    using assms Cons by (cases f) (auto simp: pushed_def Push_node_def anchors_ok_def keys_ok_def open_frames_def)
qed

text \<open>Only the collection that receives the node changes, and it keeps its type.\<close>

lemma Pop_completed:
  assumes "pushed fs k b"
  shows "\<exists>b'. Pop b = Inr b' \<and> builder_ok (completed fs, k) b'"
proof -
  from assms obtain i "is" where b: "all_defined (nb_memory b)" "anchors_ok k b" "keys_ok (key_flags fs) b"
      "nb_mapDepth b = map_frames fs" "nb_stack b = i # is" "i < length (nb_memory b)" "open_frames b is fs"
    by (auto simp: pushed_def)
  show ?thesis
  proof (cases fs)
    case Nil
    then show ?thesis
      using b by (auto simp: Pop_def open_frames_def anchors_ok_def keys_ok_def)
  next
    case (Cons f fs')
    then obtain c cs where c: "is = c # cs" "c < length (nb_memory b)" "m_type (nb_memory b ! c) = frame_type f"
        "open_frames b cs fs'"
      using b by (auto simp: open_frames_def list_all2_Cons2 node_type_of_def)
    have def: "m_isDefined (nb_memory b ! c)"
      using b c all_defined_nth by (auto simp: is_defined_def)
    have same: "open_frames b' cs fs'" if "nb_memory b' = (nb_memory b)[c := n]" "m_type n = frame_type f" for b' n
      by (rule open_frames_memory [OF c(4)]) (use that c in \<open>auto simp: node_type_of_def nth_list_update\<close>)
    show ?thesis
    proof (cases f)
      case InSeq
      let ?n = "(nb_memory b ! c)\<lparr>m_sequence := m_sequence (nb_memory b ! c) @ [i]\<rparr>"
      let ?b = "b\<lparr>nb_stack := c # cs, nb_memory := (nb_memory b)[c := ?n]\<rparr>"
      have "Pop b = Inr ?b"
        using b c InSeq by (simp add: Pop_def node_type_of_def node_push_back_defined Let_def)
      moreover have "builder_ok (Expect (InSeq # fs'), k) ?b"
        using b c def Cons InSeq same [of ?b ?n] keys_ok_memory [of _ b ?b] anchors_ok_memory [of k b ?b]
        by (simp add: open_frames_def) (simp add: node_type_of_def)
      ultimately show ?thesis using Cons InSeq by simp
    next
      case AtKey
      with b Cons obtain key ks where ks: "nb_keys b = (key, False) # ks" "map snd ks = key_flags fs'"
        by (auto simp: keys_ok_def)
      let ?b = "b\<lparr>nb_stack := c # cs, nb_keys := (key, True) # ks\<rparr>"
      have "Pop b = Inr ?b"
        using b c AtKey ks by (simp add: Pop_def node_type_of_def)
      moreover have "builder_ok (Expect (AtVal # fs'), k) ?b"
        using b c Cons AtKey ks by (simp add: keys_ok_def anchors_ok_def open_frames_def node_type_of_def)
      ultimately show ?thesis using Cons AtKey by simp
    next
      case AtVal
      with b Cons obtain key ks where ks: "nb_keys b = (key, True) # ks" "map snd ks = key_flags fs'"
          "key < length (nb_memory b)"
        by (auto simp: keys_ok_def)
      let ?n = "(nb_memory b ! c)\<lparr>m_map := m_map (nb_memory b ! c) @ [(key, i)]\<rparr>"
      let ?b = "b\<lparr>nb_stack := c # cs, nb_memory := (nb_memory b)[c := ?n], nb_keys := ks\<rparr>"
      have "Pop b = Inr ?b"
        using b c AtVal ks by (simp add: Pop_def node_type_of_def node_insert_defined Let_def)
      moreover have "builder_ok (Expect (AtKey # fs'), k) ?b"
        using b c def Cons AtVal ks same [of ?b ?n] anchors_ok_memory [of k b ?b]
        by (simp add: open_frames_def keys_ok_def) (simp add: node_type_of_def)
      ultimately show ?thesis using Cons AtVal by simp
    qed
  qed
qed

text \<open>The builder with a new node \<open>n\<close> in its memory, known under the anchor \<open>a\<close> when there is one.\<close>

definition with_fresh :: "nat \<Rightarrow> node \<Rightarrow> builder \<Rightarrow> builder" where
  "with_fresh a n b = b\<lparr>nb_memory := nb_memory b @ [n],
     nb_anchors := nb_anchors b @ (if a = 0 then [] else [Some (length (nb_memory b))])\<rparr>"

definition push_fresh :: "nat \<Rightarrow> node \<Rightarrow> builder \<Rightarrow> builder" where
  "push_fresh a n b = Push_node (length (nb_memory b)) (with_fresh a n b)"

lemma with_fresh_fields [simp]:
  "nb_memory (with_fresh a n b) = nb_memory b @ [n]" "nb_keys (with_fresh a n b) = nb_keys b"
  "nb_stack (with_fresh a n b) = nb_stack b" "nb_mapDepth (with_fresh a n b) = nb_mapDepth b"
  by (simp_all add: with_fresh_def)

lemma nb_memory_Push_node [simp]: "nb_memory (Push_node i b) = nb_memory b"
  by (simp add: Push_node_def Let_def)

lemma with_fresh_ok:
  assumes b: "builder_ok (Expect fs, k) b" and k': "anchor_opened a k = Some k'" and n: "m_isDefined n"
  shows "builder_ok (Expect fs, k') (with_fresh a n b)"
proof -
  have "anchors_ok k' (with_fresh a n b)"
    using b k' by (auto simp: anchors_ok_def anchor_opened_def with_fresh_def nth_append less_Suc_eq_le le_Suc_eq split: if_splits)
  moreover have "open_frames (with_fresh a n b) (nb_stack b) fs"
    by (rule open_frames_memory [of b]) (use b in \<open>auto simp: node_type_of_def nth_append\<close>)
  ultimately show ?thesis
    using b n keys_ok_memory [of "waiting_flags fs" b "with_fresh a n b"] by simp
qed

lemma push_fresh_pushed:
  "builder_ok (Expect fs, k) b \<Longrightarrow> anchor_opened a k = Some k' \<Longrightarrow> m_isDefined n \<Longrightarrow> pushed fs k' (push_fresh a n b)"
  unfolding push_fresh_def by (rule Push_node_pushed [OF with_fresh_ok]) simp_all

lemma Push_new_fresh:
  assumes "builder_ok (Expect fs, k) b" "anchor_opened a k = Some k'"
  shows "Push_new a b = Inr (length (nb_memory b), push_fresh a node_ctor b)"
  using assms
  by (auto simp: Push_new_def create_node_def NodeBuilder_RegisterAnchor_def push_fresh_def with_fresh_def anchor_opened_def
      anchors_ok_def split: if_splits)

lemma update_fresh:
  assumes "builder_ok (Expect fs, k) b" "f (nb_memory b @ [node_ctor]) = nb_memory b @ [n]"
  shows "nb_update f (push_fresh a node_ctor b) = push_fresh a n b"
proof (cases "nb_stack b")
  case Nil
  then show ?thesis
    using assms by (simp add: nb_update_def push_fresh_def Push_node_def with_fresh_def)
next
  case (Cons j js)
  then have "j < length (nb_memory b)"
    using assms by (auto simp: open_frames_def list_all2_Cons1)
  then show ?thesis
    using assms Cons by (simp add: nb_update_def push_fresh_def Push_node_def with_fresh_def node_type_of_def nth_append Let_def)
qed

lemma nb_update_update: "nb_update f (nb_update g b) = nb_update (f \<circ> g) b"
  by (simp add: nb_update_def)

text \<open>The events that make a node, in terms of \<open>push_fresh\<close>.\<close>

lemma builder_on_fresh:
  assumes "builder_ok (Expect fs, k) b" "anchor_opened a k = Some k'"
  shows "builder_on (OnNull a) b = Pop (push_fresh a null_node b)"
    and "builder_on (OnScalar t a v) b = Pop (push_fresh a (scalar_node t v) b)"
    and "builder_on (OnSequenceStart t a s) b = Inr (push_fresh a (collection_node NT_Sequence t s) b)"
    and "builder_on (OnMapStart t a s) b =
      Inr ((push_fresh a (collection_node NT_Map t s) b)\<lparr>nb_mapDepth := Suc (nb_mapDepth b)\<rparr>)"
proof -
  have depth: "nb_mapDepth (push_fresh a n b) = nb_mapDepth b" for n
    by (simp add: push_fresh_def Push_node_def with_fresh_def Let_def)
  note [simp] = Push_new_fresh [OF assms] nb_update_update update_fresh [OF assms(1)]
    fresh_null fresh_scalar fresh_sequence fresh_map
  show "builder_on (OnNull a) b = Pop (push_fresh a null_node b)"
    by (simp add: NodeBuilder_OnNull_def)
  show "builder_on (OnScalar t a v) b = Pop (push_fresh a (scalar_node t v) b)"
    by (simp add: NodeBuilder_OnScalar_def)
  show "builder_on (OnSequenceStart t a s) b = Inr (push_fresh a (collection_node NT_Sequence t s) b)"
    by (simp add: NodeBuilder_OnSequenceStart_def)
  show "builder_on (OnMapStart t a s) b =
      Inr ((push_fresh a (collection_node NT_Map t s) b)\<lparr>nb_mapDepth := Suc (nb_mapDepth b)\<rparr>)"
    by (simp add: NodeBuilder_OnMapStart_def depth)
qed

lemma hd_stack_push_fresh [simp]: "hd (nb_stack (push_fresh a n b)) = length (nb_memory b)"
  and nb_memory_push_fresh [simp]: "nb_memory (push_fresh a n b) = nb_memory b @ [n]"
  and nb_mapDepth_push_fresh [simp]: "nb_mapDepth (push_fresh a n b) = nb_mapDepth b"
  by (simp_all add: push_fresh_def Push_node_def with_fresh_def Let_def)

text \<open>A collection on top of the stack may be seen as a node being built or as the innermost open one.\<close>

lemma pushed_sequence:
  "builder_ok (Expect (InSeq # fs), k) b \<longleftrightarrow>
   pushed fs k b \<and> node_type_of (nb_memory b) (hd (nb_stack b)) = NT_Sequence"
  by (auto simp: pushed_def open_frames_def list_all2_Cons2)

lemma pushed_map:
  "builder_ok (Expect (AtKey # fs), k) b \<longleftrightarrow> nb_mapDepth b > 0 \<and> pushed fs k (b\<lparr>nb_mapDepth := nb_mapDepth b - 1\<rparr>)
     \<and> node_type_of (nb_memory b) (hd (nb_stack b)) = NT_Map"
  by (auto simp: pushed_def open_frames_def list_all2_Cons2 keys_ok_def anchors_ok_def)

lemma sequence_start_ok:
  assumes "builder_ok (Expect fs, k) b" "anchor_opened a k = Some k'"
  shows "builder_ok (Expect (InSeq # fs), k') (push_fresh a (collection_node NT_Sequence t s) b)"
  using push_fresh_pushed [OF assms, of "collection_node NT_Sequence t s"]
  by (simp add: pushed_sequence node_type_of_def del: builder_ok.simps)

lemma map_start_ok:
  assumes "builder_ok (Expect fs, k) b" "anchor_opened a k = Some k'"
  shows "builder_ok (Expect (AtKey # fs), k')
    ((push_fresh a (collection_node NT_Map t s) b)\<lparr>nb_mapDepth := Suc (nb_mapDepth b)\<rparr>)"
proof -
  let ?b = "push_fresh a (collection_node NT_Map t s) b"
  have "?b\<lparr>nb_mapDepth := nb_mapDepth b\<rparr> = ?b"
    by (rule builder.equality) simp_all
  then have "pushed fs k' (?b\<lparr>nb_mapDepth := nb_mapDepth b\<rparr>)"
    using push_fresh_pushed [OF assms, of "collection_node NT_Map t s"] by (simp only: fresh_fields simp_thms)
  then show ?thesis
    by (simp add: pushed_map node_type_of_def del: builder_ok.simps)
qed

lemma sequence_end_ok:
  "builder_ok (Expect (InSeq # fs), k) b \<Longrightarrow> \<exists>b'. builder_on OnSequenceEnd b = Inr b' \<and> builder_ok (completed fs, k) b'"
  using Pop_completed [of fs k b] by (simp add: pushed_sequence NodeBuilder_OnSequenceEnd_def del: builder_ok.simps)

lemma map_end_ok:
  "builder_ok (Expect (AtKey # fs), k) b \<Longrightarrow> \<exists>b'. builder_on OnMapEnd b = Inr b' \<and> builder_ok (completed fs, k) b'"
  using Pop_completed [of fs k] by (simp add: pushed_map NodeBuilder_OnMapEnd_def del: builder_ok.simps)

lemma builder_on_ok:
  assumes "builder_ok c b" "advance e c = Some c'"
  shows "\<exists>b'. builder_on e b = Inr b' \<and> builder_ok c' b'"
  using assms(2, 1)
proof (cases "(e, c)" rule: advance.cases)
  case (6 a fs k)
  then obtain i where "nb_anchors b ! a = Some i" "i < length (nb_memory b)" "a < length (nb_anchors b)"
    using assms by (auto simp: anchors_ok_def less_Suc_eq_le split: if_splits)
  then show ?thesis
    using 6 assms Pop_completed [OF Push_node_pushed [of fs k b i]]
    by (simp add: NodeBuilder_OnAlias_def split: if_splits)
qed (use assms in \<open>auto simp: builder_on_fresh sequence_start_ok map_start_ok Pop_completed push_fresh_pushed
      sequence_end_ok map_end_ok simp del: builder_ok.simps builder_on.simps(3,5,7,8,9,10)\<close>)

interpretation nb: event_handler builder_on builder_ok
  by unfold_locales (rule builder_on_ok)

lemma builder_ctor_ok: "builder_ok (Expect [], 0) builder_ctor"
  by (simp add: builder_ctor_def anchors_ok_def keys_ok_def open_frames_def)

section \<open>Subscripts, removal and size\<close>

lemma length_modify [simp]: "length (modify i f mem) = length mem"
  by (simp add: modify_def)

lemma nth_modify: "i < length mem \<Longrightarrow> modify i f mem ! j = (if j = i then f (mem ! i) else mem ! j)"
  by (simp add: modify_def nth_list_update)

lemma length_insert_map_pair [simp]: "length (insert_map_pair i k v mem) = length mem"
  by (simp add: insert_map_pair_def)

lemma m_map_insert_map_pair:
  "i < length mem \<Longrightarrow> m_map (insert_map_pair i k v mem ! i) = m_map (mem ! i) @ [(k, v)]"
  by (simp add: insert_map_pair_def nth_modify)

lemma insert_map_pair_other:
  "i < length mem \<Longrightarrow> j \<noteq> i \<Longrightarrow> insert_map_pair i k v mem ! j = mem ! j"
  by (simp add: insert_map_pair_def nth_modify)

lemma insert_map_pair_keeps:
  "i < length mem \<Longrightarrow> m_type (insert_map_pair i k v mem ! i) = m_type (mem ! i)
    \<and> m_sequence (insert_map_pair i k v mem ! i) = m_sequence (mem ! i)"
  by (simp add: insert_map_pair_def nth_modify)

text \<open>A sequence that becomes a map keeps its elements in order, under their positions in decimal.\<close>

lemma fresh_key:
  "node_set_scalar (length mem) s (mem @ [node_ctor]) = mem @ [scalar_node [] s]"
  by (simp add: node_set_scalar_def data_set_scalar_def scalar_node_def) (simp add: node_ctor_def)

lemma convert_elements_map:
  assumes "i < length mem" "mem' = convert_elements i p xs mem"
  shows "length mem' = length mem + length xs
    \<and> m_map (mem' ! i) = m_map (mem ! i) @ zip [length mem..<length mem + length xs] xs
    \<and> (\<forall>j < length xs. m_scalar (mem' ! (length mem + j)) = dec_nat (p + j))
    \<and> (\<forall>j < length mem. j \<noteq> i \<longrightarrow> mem' ! j = mem ! j)"
  using assms
proof (induction xs arbitrary: p mem)
  case (Cons x xs)
  let ?mem = "insert_map_pair i (length mem) x (mem @ [scalar_node [] (dec_nat p)])"
  have step: "mem' = convert_elements i (Suc p) xs ?mem"
    using Cons.prems by (simp add: create_node_def fresh_key)
  have mem: "length ?mem = Suc (length mem)" "i < length ?mem"
      "m_map (?mem ! i) = m_map (mem ! i) @ [(length mem, x)]"
      "?mem ! length mem = scalar_node [] (dec_nat p)"
      "\<And>j. j < length mem \<Longrightarrow> j \<noteq> i \<Longrightarrow> ?mem ! j = mem ! j"
    using Cons.prems(1) by (simp_all add: m_map_insert_map_pair insert_map_pair_other nth_append)
  note IH = Cons.IH [OF mem(2) step, unfolded mem(1,3)]
  have "m_scalar (mem' ! (length mem + j)) = dec_nat (p + j)" if "j < length (x # xs)" for j
    using IH mem(4) Cons.prems(1) that by (cases j) auto
  moreover have "[length mem..<length mem + length (x # xs)] = length mem # [Suc (length mem)..<Suc (length mem) + length xs]"
    by (subst upt_conv_Cons) simp_all
  ultimately show ?case
    using IH mem(5) by (simp del: upt_Suc)
qed simp

lemma convert_sequence_to_map_keeps:
  assumes "i < length mem" "convert_sequence_to_map i mem = Inr mem'" "xs = m_sequence (mem ! i)"
  shows "m_type (mem' ! i) = NT_Map \<and> map snd (m_map (mem' ! i)) = xs
    \<and> (\<forall>j < length xs. m_scalar (mem' ! fst (m_map (mem' ! i) ! j)) = dec_nat j)
    \<and> length mem' = length mem + length xs"
proof -
  let ?mem = "modify i reset_map mem"
  let ?mem1 = "convert_elements i 0 xs ?mem"
  have mem1: "length ?mem1 = length mem + length xs" "m_map (?mem1 ! i) = zip [length mem..<length mem + length xs] xs"
      "\<forall>j < length xs. m_scalar (?mem1 ! (length mem + j)) = dec_nat j"
    using convert_elements_map [of i ?mem ?mem1 0 xs] assms(1) by (simp_all add: nth_modify) (simp_all add: reset_map_def)
  have "mem' = modify i (\<lambda>n. (reset_sequence n)\<lparr>m_type := NT_Map\<rparr>) ?mem1"
    using assms(2,3) by (auto simp: convert_sequence_to_map_def result_simps Let_def)
  then show ?thesis
    using assms(1) mem1 by (auto simp: nth_modify reset_sequence_def)
qed

text \<open>\<^verbatim>\<open>get\<close> finds the same node again, and a const subscript then finds it too.\<close>

lemma convert_to_map_type:
  assumes "i < length mem" "convert_to_map i mem = Inr mem'"
  shows "m_type (mem' ! i) = NT_Map \<and> length mem \<le> length mem'"
  using assms convert_sequence_to_map_keeps [OF assms(1)]
  by (auto simp: convert_to_map_def node_type_of_def nth_modify split: node_type.splits)

lemma find_snoc: "List.find P xs = None \<Longrightarrow> P y \<Longrightarrow> List.find P (xs @ [y]) = Some y"
  by (induction xs) (auto split: if_splits)

lemma data_get_again:
  assumes i: "i < length mem" and get: "data_get i key mem = Inr (v, mem')"
  shows "data_get i key mem' = Inr (v, mem') \<and> data_get_const i key mem' = Some v"
proof -
  obtain mem1 where mem1: "m_type (mem1 ! i) = NT_Map" "i < length mem1"
    and found: "(case List.find (\<lambda>(k, _). k = key) (m_map (mem1 ! i)) of Some (_, v) \<Rightarrow> Inr (v, mem1)
      | None \<Rightarrow> let (v, mem2) = create_node mem1 in Inr (v, insert_map_pair i key v mem2)) = (Inr (v, mem') :: (nat \<times> memory) result)"
    using get i convert_to_map_type [OF i]
    by (auto simp: data_get_def result_simps node_type_of_def split: node_type.splits)
  have "m_type (mem' ! i) = NT_Map \<and> (\<exists>k. List.find (\<lambda>(k, _). k = key) (m_map (mem' ! i)) = Some (k, v))"
  proof (cases "List.find (\<lambda>(k, _). k = key) (m_map (mem1 ! i))")
    case None
    let ?mem2 = "mem1 @ [node_ctor]"
    have mem': "mem' = insert_map_pair i key v ?mem2" "v = length mem1"
      using found None by (auto simp: create_node_def)
    then have "m_map (mem' ! i) = m_map (mem1 ! i) @ [(key, v)]" "m_type (mem' ! i) = NT_Map"
      using mem1 insert_map_pair_keeps [of i ?mem2 key v] by (simp_all add: m_map_insert_map_pair nth_append)
    then show ?thesis
      using None by (auto simp: find_snoc)
  next
    case (Some p)
    then show ?thesis
      using found mem1 by (cases p) auto
  qed
  then show ?thesis
    by (auto simp: data_get_def data_get_const_def node_type_of_def)
qed

text \<open>Removal: the key is gone when it was there once.\<close>

lemma find_erase_first:
  "distinct (map fst xs) \<Longrightarrow> List.find (\<lambda>(k, _). k = key) (erase_first (\<lambda>p. fst p = key) xs) = None"
  by (induction xs) (force simp: erase_first_def find_None_iff split: if_splits)+

lemma find_key_None: "List.find (\<lambda>(k, _). k = key) xs = None \<longleftrightarrow> (\<forall>p \<in> set xs. fst p \<noteq> key)"
  by (induction xs) auto

lemma data_remove_gone:
  assumes "i < length mem" "distinct (map fst (m_map (mem ! i)))"
  shows "(case data_remove i key mem of (removed, mem') \<Rightarrow>
    data_get_const i key mem' = None \<and> (removed \<longleftrightarrow> data_get_const i key mem \<noteq> None))"
  using assms
  by (simp add: data_remove_def data_get_const_def node_type_of_def nth_modify find_erase_first find_key_None del: not_None_eq)

text \<open>The size of a map is the number of its pairs that are fully defined. The list of pairs that were not when they
  were inserted is only pruned when a size is asked for.\<close>

definition pair_undefined :: "memory \<Rightarrow> nat \<times> nat \<Rightarrow> bool" where
  "pair_undefined mem p \<longleftrightarrow> \<not> (is_defined mem (fst p) \<and> is_defined mem (snd p))"

definition undefined_recorded :: "memory \<Rightarrow> nat \<Rightarrow> bool" where
  "undefined_recorded mem i \<longleftrightarrow>
     filter (pair_undefined mem) (m_undefinedPairs (mem ! i)) = filter (pair_undefined mem) (m_map (mem ! i))"

lemma insert_map_pair_recorded:
  assumes "i < length mem" "undefined_recorded mem i"
  shows "undefined_recorded (insert_map_pair i key val mem) i"
proof -
  have "is_defined (insert_map_pair i key val mem) j = is_defined mem j" for j
    using assms(1) by (simp add: is_defined_def insert_map_pair_def nth_modify)
  then have "pair_undefined (insert_map_pair i key val mem) = pair_undefined mem"
    by (simp add: pair_undefined_def fun_eq_iff)
  then show ?thesis
    using assms by (auto simp: undefined_recorded_def insert_map_pair_def nth_modify pair_undefined_def)
qed

lemma data_size_map:
  assumes "i < length mem" "undefined_recorded mem i" "is_defined mem i" "m_type (mem ! i) = NT_Map"
  shows "fst (data_size i mem) = length (filter (\<lambda>p. \<not> pair_undefined mem p) (m_map (mem ! i)))"
proof -
  have "(\<lambda>(k, v). \<not> (is_defined mem k \<and> is_defined mem v)) = pair_undefined mem"
    by (auto simp: pair_undefined_def fun_eq_iff)
  then have "fst (data_size i mem) = length (m_map (mem ! i)) - length (filter (pair_undefined mem) (m_map (mem ! i)))"
    using assms by (simp add: data_size_def node_type_of_def compute_map_size_def nth_modify undefined_recorded_def)
  then show ?thesis
    using sum_length_filter_compl [of "pair_undefined mem" "m_map (mem ! i)"] by linarith
qed

text \<open>The size of a sequence whose elements are all defined is their number.\<close>

lemma data_size_sequence:
  assumes "i < length mem" "is_defined mem i" "m_type (mem ! i) = NT_Sequence" "m_seqSize (mem ! i) \<le> length (m_sequence (mem ! i))"
    and "\<forall>j \<in> set (m_sequence (mem ! i)). is_defined mem j"
  shows "fst (data_size i mem) = length (m_sequence (mem ! i))"
proof -
  have "length (takeWhile (is_defined mem) (drop (m_seqSize (mem ! i)) (m_sequence (mem ! i)))) =
      length (m_sequence (mem ! i)) - m_seqSize (mem ! i)"
    using assms(5) by (subst takeWhile_eq_all_conv [THEN iffD2]) (auto dest: in_set_dropD)
  then show ?thesis
    using assms by (simp add: data_size_def node_type_of_def compute_seq_size_def nth_modify)
qed

end
