(* ===== verification/Yaml_Tree.thy ===== *)
theory Yaml_Tree
  imports Yaml_Node Server_Config
begin

text \<open>
  Trees and node graphs. \<open>doc\<close> is a document as its author sees it: null, plain and quoted scalars, and
  sequences and maps in block or flow style. It has a value, the tree \<open>yaml_of\<close> the configuration loader
  reads, and a sequence of parser events, \<open>events_of\<close>.

  \<open>represents mem i y\<close> says that node \<open>i\<close> of a graph is the root of the tree \<open>y\<close>; the children of a node come
  after it in the memory, so a represented tree has no cycle. The events of a document build a graph that
  represents its value, wherever in a document they occur (\<open>build_tree\<close>).
\<close>

section \<open>Documents\<close>

datatype doc =
    DNull
  | DPlain string
  | DQuoted string
  | DSeq bool "doc list"
  | DMap bool "(doc \<times> doc) list"

fun yaml_of :: "doc \<Rightarrow> yaml" where
  "yaml_of DNull = YNull"
| "yaml_of (DPlain s) = YScalar s"
| "yaml_of (DQuoted s) = YScalar s"
| "yaml_of (DSeq _ ds) = YSeq (map yaml_of ds)"
| "yaml_of (DMap _ kvs) = YMap (map (\<lambda>(k, v). (yaml_of k, yaml_of v)) kvs)"

definition style_of :: "bool \<Rightarrow> emitter_style" where
  "style_of flow = (if flow then Style_Flow else Style_Block)"

fun events_of :: "doc \<Rightarrow> event list" where
  "events_of DNull = [OnNull 0]"
| "events_of (DPlain s) = [OnScalar ''?'' 0 s]"
| "events_of (DQuoted s) = [OnScalar ''!'' 0 s]"
| "events_of (DSeq fl ds) =
     OnSequenceStart ''?'' 0 (style_of fl) # concat (map events_of ds) @ [OnSequenceEnd]"
| "events_of (DMap fl kvs) =
     OnMapStart ''?'' 0 (style_of fl) # concat (map (\<lambda>(k, v). events_of k @ events_of v) kvs) @ [OnMapEnd]"

section \<open>Graphs that represent trees\<close>

fun represents :: "memory \<Rightarrow> nat \<Rightarrow> yaml \<Rightarrow> bool" where
  "represents mem i YNull \<longleftrightarrow> i < length mem \<and> m_type (mem ! i) = NT_Null"
| "represents mem i (YScalar s) \<longleftrightarrow> i < length mem \<and> m_type (mem ! i) = NT_Scalar \<and> m_scalar (mem ! i) = s"
| "represents mem i (YSeq ys) \<longleftrightarrow> i < length mem \<and> m_type (mem ! i) = NT_Sequence
     \<and> list_all2 (\<lambda>y j. i < j \<and> represents mem j y) ys (m_sequence (mem ! i))"
| "represents mem i (YMap kvs) \<longleftrightarrow> i < length mem \<and> m_type (mem ! i) = NT_Map
     \<and> list_all2 (\<lambda>p q. i < fst q \<and> i < snd q \<and> represents mem (fst q) (fst p) \<and> represents mem (snd q) (snd p))
         kvs (m_map (mem ! i))"

lemma represents_bound: "represents mem i y \<Longrightarrow> i < length mem"
  by (cases y) simp_all

text \<open>Only the nodes from \<open>i\<close> on matter.\<close>

lemma represents_stable:
  assumes "represents mem i y" "\<And>j. i \<le> j \<Longrightarrow> j < length mem \<Longrightarrow> j < length mem' \<and> mem' ! j = mem ! j"
  shows "represents mem' i y"
  using assms
proof (induction y arbitrary: i)
  case (YSeq ys)
  then have "i < length mem'" "mem' ! i = mem ! i"
    by auto
  with YSeq show ?case
    by (auto elim!: list.rel_mono_strong)
next
  case (YMap kvs)
  then have "i < length mem'" "mem' ! i = mem ! i"
    by auto
  with YMap show ?case
    by (auto elim!: list.rel_mono_strong)
qed auto

section \<open>Building\<close>

text \<open>The effect of a whole node on the builder: nodes \<open>ext\<close> are added to the memory, and the first of them
  is pushed and popped.\<close>

definition grow :: "node list \<Rightarrow> builder \<Rightarrow> builder" where
  "grow ext b = b\<lparr>nb_memory := nb_memory b @ ext\<rparr>"

definition attach :: "node list \<Rightarrow> builder \<Rightarrow> builder result" where
  "attach ext b = Pop (Push_node (length (nb_memory b)) (grow ext b))"

definition builds :: "event list \<Rightarrow> yaml \<Rightarrow> builder \<Rightarrow> bool" where
  "builds es y b \<longleftrightarrow> (\<exists>ext. fold_result builder_on es b = attach ext b \<and> ext \<noteq> [] \<and> all_defined ext
     \<and> represents (nb_memory b @ ext) (length (nb_memory b)) y)"

lemma grow_fields [simp]:
  "nb_memory (grow ext b) = nb_memory b @ ext" "nb_stack (grow ext b) = nb_stack b"
  "nb_keys (grow ext b) = nb_keys b" "nb_mapDepth (grow ext b) = nb_mapDepth b"
  by (simp_all add: grow_def)

lemma grow_ok:
  assumes "builder_ok (Expect fs, k) b" "all_defined ext"
  shows "builder_ok (Expect fs, k) (grow ext b)"
proof -
  have "open_frames (grow ext b) (nb_stack b) fs"
    by (rule open_frames_memory [of b]) (use assms in \<open>auto simp: node_type_of_def nth_append\<close>)
  then show ?thesis
    using assms keys_ok_memory [of _ b "grow ext b"] anchors_ok_memory [of k b "grow ext b"]
    by (simp add: grow_def)
qed

lemma attach_ok:
  assumes "builder_ok (Expect fs, k) b" "all_defined ext" "ext \<noteq> []"
  shows "\<exists>b'. attach ext b = Inr b' \<and> builder_ok (completed fs, k) b'"
  unfolding attach_def
  by (rule Pop_completed [OF Push_node_pushed [OF grow_ok]]) (use assms in auto)

lemma push_fresh_grow: "push_fresh 0 n b = Push_node (length (nb_memory b)) (grow [n] b)"
  by (simp add: push_fresh_def with_fresh_def grow_def)

lemma andThen_fold_Nil [simp]: "andThen r (fold_result f []) = r"
  by (cases r) simp_all

lemma builds_leaf:
  assumes "builder_ok (Expect fs, k) b"
  shows "builds [OnNull 0] YNull b" "builds [OnScalar t 0 s] (YScalar s) b"
proof -
  have [simp]: "anchor_opened 0 k = Some k"
    by (simp add: anchor_opened_def)
  show "builds [OnNull 0] YNull b"
    unfolding builds_def attach_def
    by (rule exI [of _ "[null_node]"]) (simp add: builder_on_fresh [OF assms] push_fresh_grow del: builder_on.simps)
  show "builds [OnScalar t 0 s] (YScalar s) b"
    unfolding builds_def attach_def
    by (rule exI [of _ "[scalar_node t s]"]) (simp add: builder_on_fresh [OF assms] push_fresh_grow del: builder_on.simps)
qed

subsection \<open>Attaching to an open collection\<close>

definition set_node :: "nat \<Rightarrow> node \<Rightarrow> builder \<Rightarrow> builder" where
  "set_node i n b = b\<lparr>nb_memory := (nb_memory b)[i := n]\<rparr>"

lemma set_node_fields [simp]:
  "nb_memory (set_node i n b) = (nb_memory b)[i := n]" "nb_stack (set_node i n b) = nb_stack b"
  by (simp_all add: set_node_def)

lemma builder_ok_top:
  assumes "builder_ok (Expect (f # fs), k) b"
  obtains i "is" where "nb_stack b = i # is" "i < length (nb_memory b)" "m_type (nb_memory b ! i) = frame_type f"
  using assms by (auto simp: open_frames_def list_all2_Cons2 node_type_of_def)

lemma attach_sequence:
  assumes b: "builder_ok (Expect (InSeq # fs), k) b" and ext: "all_defined ext" "ext \<noteq> []" and i: "hd (nb_stack b) = i"
  shows "attach ext b = Inr (set_node i
    ((nb_memory b ! i)\<lparr>m_sequence := m_sequence (nb_memory b ! i) @ [length (nb_memory b)]\<rparr>) (grow ext b))"
proof -
  obtain "is" where stk: "nb_stack b = i # is" "i < length (nb_memory b)" "m_type (nb_memory b ! i) = NT_Sequence"
    using b i by (elim builder_ok_top) auto
  then show ?thesis
    using b ext by (simp add: attach_def Push_node_def node_type_of_def nth_append Pop_def node_push_back_defined Let_def)
      (simp add: set_node_def grow_def)
qed

lemma attach_key:
  assumes b: "builder_ok (Expect (AtKey # fs), k) b" and ext: "all_defined ext" "ext \<noteq> []"
  shows "attach ext b = Inr ((grow ext b)\<lparr>nb_keys := (length (nb_memory b), True) # nb_keys b\<rparr>)"
proof -
  obtain i "is" where "nb_stack b = i # is" "i < length (nb_memory b)" "m_type (nb_memory b ! i) = NT_Map"
    using b by (elim builder_ok_top) auto
  moreover have "length (nb_keys b) = map_frames fs"
    using b by (metis builder_ok.simps(1) keys_ok_def length_key_flags length_map waiting_flags.simps(3))
  ultimately show ?thesis
    using b by (simp add: attach_def Push_node_def node_type_of_def nth_append Pop_def Let_def grow_def)
qed

lemma attach_value:
  assumes b: "builder_ok (Expect (AtVal # fs), k) b" and ext: "all_defined ext" "ext \<noteq> []" and i: "hd (nb_stack b) = i"
    and key: "nb_keys b = (key, True) # ks"
  shows "attach ext b = Inr ((set_node i
    ((nb_memory b ! i)\<lparr>m_map := m_map (nb_memory b ! i) @ [(key, length (nb_memory b))]\<rparr>) (grow ext b))\<lparr>nb_keys := ks\<rparr>)"
proof -
  obtain "is" where "nb_stack b = i # is" "i < length (nb_memory b)" "m_type (nb_memory b ! i) = NT_Map"
    using b i by (elim builder_ok_top) auto
  moreover have "length ks = map_frames fs" "key < length (nb_memory b)"
    using b key by (auto simp: keys_ok_def simp flip: length_key_flags dest!: arg_cong [of "map snd ks" _ length])
  ultimately show ?thesis
    using b ext key by (simp add: attach_def Push_node_def node_type_of_def nth_append Pop_def node_insert_defined Let_def)
      (simp add: set_node_def grow_def)
qed

subsection \<open>Whole collections\<close>

declare builder_ok.simps [simp del] builder_on.simps [simp del]

definition buildable :: "doc \<Rightarrow> bool" where
  "buildable d \<longleftrightarrow> (\<forall>b fs k. builder_ok (Expect fs, k) b \<longrightarrow> builds (events_of d) (yaml_of d) b)"

lemma buildableD:
  assumes "buildable d" "builder_ok (Expect fs, k) b"
  obtains ext where "fold_result builder_on (events_of d) b = attach ext b" "ext \<noteq> []" "all_defined ext"
    "represents (nb_memory b @ ext) (length (nb_memory b)) (yaml_of d)"
  using assms unfolding buildable_def builds_def by blast

text \<open>The elements of a sequence, added to an open sequence \<open>i\<close>.\<close>

lemma build_elements:
  assumes "\<forall>d \<in> set ds. buildable d"
    and "builder_ok (Expect (InSeq # fs), k) b" "hd (nb_stack b) = i"
  shows "\<exists>ext js. fold_result builder_on (concat (map events_of ds)) b =
        Inr (set_node i ((nb_memory b ! i)\<lparr>m_sequence := m_sequence (nb_memory b ! i) @ js\<rparr>) (grow ext b))
      \<and> all_defined ext
      \<and> list_all2 (\<lambda>y j. length (nb_memory b) \<le> j \<and> represents (nb_memory b @ ext) j y) (map yaml_of ds) js"
  using assms
proof (induction ds arbitrary: b)
  case Nil
  show ?case
    by (rule exI [of _ "[]"], rule exI [of _ "[]"]) (simp add: set_node_def grow_def)
next
  case (Cons d ds)
  let ?L = "length (nb_memory b)"
  obtain "is" where stk: "nb_stack b = i # is" "i < ?L"
    using Cons.prems by (elim builder_ok_top) auto
  from Cons.prems(1) have "buildable d"
    by simp
  from this Cons.prems(2) obtain ext where ext: "fold_result builder_on (events_of d) b = attach ext b" "ext \<noteq> []"
      "all_defined ext" "represents (nb_memory b @ ext) ?L (yaml_of d)"
    by (rule buildableD)
  define b1 where "b1 = set_node i ((nb_memory b ! i)\<lparr>m_sequence := m_sequence (nb_memory b ! i) @ [?L]\<rparr>) (grow ext b)"
  have b1: "attach ext b = Inr b1" "builder_ok (Expect (InSeq # fs), k) b1"
    using attach_sequence [OF Cons.prems(2) ext(3,2) Cons.prems(3)] attach_ok [OF Cons.prems(2) ext(3,2)]
    by (auto simp: b1_def)
  have mem1: "nb_memory b1 = (nb_memory b @ ext)[i := (nb_memory b ! i)\<lparr>m_sequence := m_sequence (nb_memory b ! i) @ [?L]\<rparr>]"
      "hd (nb_stack b1) = i"
    using stk by (simp_all add: b1_def)
  from Cons.IH [OF _ b1(2) mem1(2)] Cons.prems(1) obtain ext' js where rest:
      "fold_result builder_on (concat (map events_of ds)) b1 =
        Inr (set_node i ((nb_memory b1 ! i)\<lparr>m_sequence := m_sequence (nb_memory b1 ! i) @ js\<rparr>) (grow ext' b1))"
      "all_defined ext'"
      "list_all2 (\<lambda>y j. length (nb_memory b1) \<le> j \<and> represents (nb_memory b1 @ ext') j y) (map yaml_of ds) js"
    by auto
  have "represents (nb_memory b @ ext @ ext') ?L (yaml_of d)"
    by (rule represents_stable [OF ext(4)]) (auto simp: nth_append)
  moreover have "list_all2 (\<lambda>y j. ?L \<le> j \<and> represents (nb_memory b @ ext @ ext') j y) (map yaml_of ds) js"
    by (rule list_all2_mono [OF rest(3)])
      (use stk in \<open>auto simp: mem1 nth_append nth_list_update elim!: represents_stable\<close>)
  ultimately have "list_all2 (\<lambda>y j. ?L \<le> j \<and> represents (nb_memory b @ ext @ ext') j y) (map yaml_of (d # ds)) (?L # js)"
    by simp
  moreover have "fold_result builder_on (concat (map events_of (d # ds))) b =
      Inr (set_node i ((nb_memory b ! i)\<lparr>m_sequence := m_sequence (nb_memory b ! i) @ ?L # js\<rparr>) (grow (ext @ ext') b))"
    using stk by (simp add: fold_result_append ext b1 rest mem1)
      (simp add: b1_def set_node_def grow_def list_update_append)
  ultimately show ?case
    using ext rest(2) by (intro exI [of _ "ext @ ext'"] exI [of _ "?L # js"]) simp
qed

text \<open>One pair, and all pairs, added to an open map \<open>i\<close>.\<close>

definition add_pairs :: "nat \<Rightarrow> (nat \<times> nat) list \<Rightarrow> node list \<Rightarrow> builder \<Rightarrow> builder" where
  "add_pairs i qs ext b = set_node i ((nb_memory b ! i)\<lparr>m_map := m_map (nb_memory b ! i) @ qs\<rparr>) (grow ext b)"

definition pair_represented :: "nat \<Rightarrow> memory \<Rightarrow> doc \<times> doc \<Rightarrow> nat \<times> nat \<Rightarrow> bool" where
  "pair_represented L mem p q \<longleftrightarrow> L \<le> fst q \<and> L \<le> snd q \<and> represents mem (fst q) (yaml_of (fst p))
     \<and> represents mem (snd q) (yaml_of (snd p))"

lemma pair_represented_stable:
  assumes "pair_represented L mem p q" "L' \<le> L" "\<And>j. L \<le> j \<Longrightarrow> j < length mem \<Longrightarrow> j < length mem' \<and> mem' ! j = mem ! j"
  shows "pair_represented L' mem' p q"
  using assms unfolding pair_represented_def by (auto elim!: represents_stable)

lemma build_pair:
  assumes "buildable kd" "buildable vd" and b: "builder_ok (Expect (AtKey # fs), k) b" and i: "hd (nb_stack b) = i"
  shows "\<exists>ext q. fold_result builder_on (events_of kd @ events_of vd) b = Inr (add_pairs i [q] ext b)
    \<and> builder_ok (Expect (AtKey # fs), k) (add_pairs i [q] ext b) \<and> all_defined ext
    \<and> pair_represented (length (nb_memory b)) (nb_memory b @ ext) (kd, vd) q"
proof -
  let ?L = "length (nb_memory b)"
  obtain "is" where stk: "nb_stack b = i # is" "i < ?L"
    using b i by (elim builder_ok_top) auto
  obtain ext1 where key: "fold_result builder_on (events_of kd) b = attach ext1 b" "ext1 \<noteq> []" "all_defined ext1"
      "represents (nb_memory b @ ext1) ?L (yaml_of kd)"
    using assms(1) b by (rule buildableD)
  define b1 where "b1 = (grow ext1 b)\<lparr>nb_keys := (?L, True) # nb_keys b\<rparr>"
  have b1: "attach ext1 b = Inr b1" "builder_ok (Expect (AtVal # fs), k) b1"
    using attach_key [OF b key(3,2)] attach_ok [OF b key(3,2)] by (auto simp: b1_def)
  have mem1: "nb_memory b1 = nb_memory b @ ext1" "hd (nb_stack b1) = i" "nb_keys b1 = (?L, True) # nb_keys b"
    using i by (simp_all add: b1_def)
  obtain ext2 where val: "fold_result builder_on (events_of vd) b1 = attach ext2 b1" "ext2 \<noteq> []" "all_defined ext2"
      "represents (nb_memory b1 @ ext2) (length (nb_memory b1)) (yaml_of vd)"
    using assms(2) b1(2) by (rule buildableD)
  let ?q = "(?L, ?L + length ext1)"
  have "attach ext2 b1 = Inr (add_pairs i [?q] (ext1 @ ext2) b)"
    using attach_value [OF b1(2) val(3,2) mem1(2,3)] stk
    by (simp add: mem1 nth_append) (simp add: add_pairs_def b1_def grow_def set_node_def)
  moreover have "builder_ok (Expect (AtKey # fs), k) (add_pairs i [?q] (ext1 @ ext2) b)"
    using attach_ok [OF b1(2) val(3,2)] calculation by auto
  moreover have "represents (nb_memory b @ ext1 @ ext2) ?L (yaml_of kd)"
    by (rule represents_stable [OF key(4)]) (auto simp: nth_append)
  ultimately show ?thesis
    using key val b1 mem1
    by (intro exI [of _ "ext1 @ ext2"] exI [of _ ?q]) (simp add: fold_result_append pair_represented_def)
qed

lemma build_pairs:
  assumes "\<forall>(kd, vd) \<in> set kvs. buildable kd \<and> buildable vd"
    and "builder_ok (Expect (AtKey # fs), k) b" "hd (nb_stack b) = i"
  shows "\<exists>ext qs. fold_result builder_on (concat (map (\<lambda>(kd, vd). events_of kd @ events_of vd) kvs)) b = Inr (add_pairs i qs ext b)
      \<and> all_defined ext \<and> list_all2 (pair_represented (length (nb_memory b)) (nb_memory b @ ext)) kvs qs"
  using assms
proof (induction kvs arbitrary: b)
  case Nil
  show ?case
    by (rule exI [of _ "[]"], rule exI [of _ "[]"]) (simp add: add_pairs_def set_node_def grow_def)
next
  case (Cons p kvs)
  let ?L = "length (nb_memory b)"
  obtain kd vd where p: "p = (kd, vd)" "buildable kd" "buildable vd"
    using Cons.prems(1) by (cases p) auto
  obtain "is" where stk: "nb_stack b = i # is" "i < ?L"
    using Cons.prems by (elim builder_ok_top) auto
  obtain ext q where one: "fold_result builder_on (events_of kd @ events_of vd) b = Inr (add_pairs i [q] ext b)"
      "builder_ok (Expect (AtKey # fs), k) (add_pairs i [q] ext b)" "all_defined ext"
      "pair_represented ?L (nb_memory b @ ext) (kd, vd) q"
    using build_pair [OF p(2,3) Cons.prems(2,3)] by blast
  let ?b = "add_pairs i [q] ext b"
  have top: "hd (nb_stack ?b) = i" and mem: "length (nb_memory ?b) = ?L + length ext"
    using stk by (simp_all add: add_pairs_def)
  from Cons.IH [OF _ one(2) top] Cons.prems(1) obtain ext' qs where rest:
      "fold_result builder_on (concat (map (\<lambda>(kd, vd). events_of kd @ events_of vd) kvs)) ?b = Inr (add_pairs i qs ext' ?b)"
      "all_defined ext'" "list_all2 (pair_represented (length (nb_memory ?b)) (nb_memory ?b @ ext')) kvs qs"
    by auto
  have "pair_represented ?L (nb_memory b @ ext @ ext') (kd, vd) q"
    by (rule pair_represented_stable [OF one(4)]) (auto simp: nth_append)
  moreover have "list_all2 (pair_represented ?L (nb_memory b @ ext @ ext')) kvs qs"
    by (rule list_all2_mono [OF rest(3)], erule pair_represented_stable)
      (use stk in \<open>auto simp: add_pairs_def nth_append nth_list_update\<close>)
  moreover have "add_pairs i qs ext' ?b = add_pairs i (q # qs) (ext @ ext') b"
    using stk by (simp add: add_pairs_def nth_append) (simp add: set_node_def grow_def list_update_append)
  moreover have "fold_result builder_on (concat (map (\<lambda>(kd, vd). events_of kd @ events_of vd) (p # kvs))) b =
      Inr (add_pairs i qs ext' ?b)"
    using fold_result_append [of builder_on "events_of kd @ events_of vd"] one(1) rest(1) p(1) by simp
  ultimately show ?case
    using one rest p by (intro exI [of _ "ext @ ext'"] exI [of _ "q # qs"]) simp
qed

text \<open>Opening a collection, filling it and then setting its contents is the same as pushing it filled.\<close>

lemma filled_collection:
  assumes "builder_ok (Expect fs, k) b"
  shows "set_node (length (nb_memory b)) n' (grow ext (push_fresh 0 n b)) =
    Push_node (length (nb_memory b)) (grow (n' # ext) b)"
proof (cases fs)
  case Nil
  then have "nb_stack b = []"
    using assms by (simp add: builder_ok.simps open_frames_def)
  then show ?thesis
    by (simp add: push_fresh_grow Push_node_def) (simp add: set_node_def grow_def)
next
  case (Cons f fs')
  then obtain j js where "nb_stack b = j # js" "j < length (nb_memory b)"
    using assms by (auto elim: builder_ok_top)
  then show ?thesis
    by (simp add: push_fresh_grow Push_node_def node_type_of_def nth_append Let_def) (simp add: set_node_def grow_def)
qed

lemma build_sequence:
  assumes "\<forall>d \<in> set ds. buildable d"
  shows "buildable (DSeq fl ds)"
  unfolding buildable_def
proof (intro allI impI)
  fix b fs k
  assume b: "builder_ok (Expect fs, k) b"
  let ?L = "length (nb_memory b)" and ?n = "collection_node NT_Sequence ''?'' (style_of fl)"
  have k: "anchor_opened 0 k = Some k"
    by (simp add: anchor_opened_def)
  note start = builder_on_fresh(3) [OF b k, of "''?''" "style_of fl"]
  from build_elements [OF assms sequence_start_ok [OF b k, of "''?''" "style_of fl"] hd_stack_push_fresh]
  obtain ext js where ext: "fold_result builder_on (concat (map events_of ds)) (push_fresh 0 ?n b) =
        Inr (set_node ?L (?n\<lparr>m_sequence := js\<rparr>) (grow ext (push_fresh 0 ?n b)))" "all_defined ext"
      "list_all2 (\<lambda>y j. Suc ?L \<le> j \<and> represents (nb_memory b @ ?n # ext) j y) (map yaml_of ds) js"
    by auto
  let ?n' = "?n\<lparr>m_sequence := js\<rparr>"
  have "fold_result builder_on (events_of (DSeq fl ds)) b = attach (?n' # ext) b"
    using ext(1) by (simp add: start fold_result_append filled_collection [OF b] builder_on.simps(8)
        NodeBuilder_OnSequenceEnd_def attach_def)
  moreover have "list_all2 (\<lambda>y j. ?L < j \<and> represents (nb_memory b @ ?n' # ext) j y) (map yaml_of ds) js"
    by (rule list_all2_mono [OF ext(3)]) (auto simp: nth_append nth_Cons' elim!: represents_stable)
  ultimately show "builds (events_of (DSeq fl ds)) (yaml_of (DSeq fl ds)) b"
    unfolding builds_def using ext(2) by (intro exI [of _ "?n' # ext"]) (simp add: all_defined_def)
qed

lemma build_map:
  assumes "\<forall>(kd, vd) \<in> set kvs. buildable kd \<and> buildable vd"
  shows "buildable (DMap fl kvs)"
  unfolding buildable_def
proof (intro allI impI)
  fix b fs k
  assume b: "builder_ok (Expect fs, k) b"
  let ?L = "length (nb_memory b)" and ?n = "collection_node NT_Map ''?'' (style_of fl)"
  let ?b = "(push_fresh 0 ?n b)\<lparr>nb_mapDepth := Suc (nb_mapDepth b)\<rparr>"
  have k: "anchor_opened 0 k = Some k"
    by (simp add: anchor_opened_def)
  note start = builder_on_fresh(4) [OF b k, of "''?''" "style_of fl"]
  have "hd (nb_stack ?b) = ?L"
    by simp
  from build_pairs [OF assms map_start_ok [OF b k, of "''?''" "style_of fl"] this]
  obtain ext qs where ext: "fold_result builder_on (concat (map (\<lambda>(kd, vd). events_of kd @ events_of vd) kvs)) ?b =
        Inr (add_pairs ?L qs ext ?b)" "all_defined ext"
      "list_all2 (pair_represented (Suc ?L) (nb_memory b @ ?n # ext)) kvs qs"
    by auto
  let ?n' = "?n\<lparr>m_map := qs\<rparr>"
  have "(add_pairs ?L qs ext ?b)\<lparr>nb_mapDepth := nb_mapDepth b\<rparr> = set_node ?L ?n' (grow ext (push_fresh 0 ?n b))"
    by (rule builder.equality) (simp_all add: add_pairs_def set_node_def grow_def)
  moreover have "nb_mapDepth (add_pairs ?L qs ext ?b) = Suc (nb_mapDepth b)"
    by (simp add: add_pairs_def set_node_def)
  ultimately have "fold_result builder_on (events_of (DMap fl kvs)) b = attach (?n' # ext) b"
    using ext(1) by (simp add: start fold_result_append filled_collection [OF b] builder_on.simps(10)
        NodeBuilder_OnMapEnd_def attach_def)
  moreover have "list_all2 (pair_represented (Suc ?L) (nb_memory b @ ?n' # ext)) kvs qs"
    by (rule list_all2_mono [OF ext(3)], erule pair_represented_stable) (auto simp: nth_append nth_Cons')
  then have "represents (nb_memory b @ ?n' # ext) ?L (yaml_of (DMap fl kvs))"
    by (auto simp: list_all2_map1 pair_represented_def Suc_le_eq elim!: list_all2_mono)
  ultimately show "builds (events_of (DMap fl kvs)) (yaml_of (DMap fl kvs)) b"
    unfolding builds_def using ext(2) by (intro exI [of _ "?n' # ext"]) (simp add: all_defined_def del: represents.simps yaml_of.simps)
qed

lemma build_tree: "buildable d"
proof (induction d)
  case (DSeq fl ds)
  then show ?case
    by (intro build_sequence) auto
next
  case (DMap fl kvs)
  then show ?case
    by (intro build_map) fastforce
qed (auto simp: buildable_def builds_leaf)

text \<open>A document built from scratch: the root represents its value.\<close>

lemma build_document:
  "\<exists>b. fold_result builder_on (events_of d) builder_ctor = Inr b \<and> nb_root b = Some 0 \<and> represents (nb_memory b) 0 (yaml_of d)"
proof -
  obtain ext where "fold_result builder_on (events_of d) builder_ctor = attach ext builder_ctor"
      "represents (nb_memory builder_ctor @ ext) (length (nb_memory builder_ctor)) (yaml_of d)"
    using build_tree builder_ctor_ok by (rule buildableD)
  then show ?thesis
    by (simp add: attach_def Push_node_def builder_ctor_def grow_def Pop_def)
qed

end
