(* ===== verification/Yaml_Parser.thy ===== *)
theory Yaml_Parser
  imports Yaml_Tree
begin

text \<open>
  The parser of the vendored YAML library: \<^verbatim>\<open>src/lib/yaml-cpp/singledocparser.cpp\<close>, \<^verbatim>\<open>parser.cpp\<close>,
  \<^verbatim>\<open>collectionstack.h\<close>, \<^verbatim>\<open>tag.cpp\<close>, \<^verbatim>\<open>directives.cpp\<close>, \<^verbatim>\<open>null.cpp\<close> and \<^verbatim>\<open>parse.cpp\<close>.

  The parser sees the scanner through \<^verbatim>\<open>empty\<close>, \<^verbatim>\<open>peek\<close> and \<^verbatim>\<open>pop\<close> only. What the scanner makes of a text
  is its tokens in order and, when it stops at an error, the exception it throws once they are used up: the
  fields \<open>p_tokens\<close> and \<open>p_end\<close> of the state. Each routine takes the handler's reaction \<open>on\<close>; the routines
  that parse a nested node take \<open>rec\<close>, the parser of one. \<open>HandleNode\<close> ties the knot over the levels
  \<^verbatim>\<open>DepthGuard\<close> leaves.

  Theorems: on every sequence of tokens parsing returns, no assertion fails, the collection stack is balanced
  and only \<^verbatim>\<open>ParserException\<close> is thrown, with any handler that keeps its contract; the tokens of a document
  load to a graph that represents it; \<^verbatim>\<open>LoadAll\<close> does not return on a text that starts with a comma.
\<close>

section \<open>Tokens and tags\<close>

datatype token_type =
    DIRECTIVE | DOC_START | DOC_END | BLOCK_SEQ_START | BLOCK_MAP_START | BLOCK_SEQ_END | BLOCK_MAP_END
  | BLOCK_ENTRY | FLOW_SEQ_START | FLOW_MAP_START | FLOW_SEQ_END | FLOW_MAP_END | FLOW_MAP_COMPACT
  | FLOW_ENTRY | KEY | VALUE | ANCHOR | ALIAS | TAG | PLAIN_SCALAR | NON_PLAIN_SCALAR

record token =
  tk_type :: token_type
  tk_value :: string
  tk_params :: "string list"
  tk_data :: nat

definition Token :: "token_type \<Rightarrow> token" where
  "Token t = \<lparr>tk_type = t, tk_value = [], tk_params = [], tk_data = 0\<rparr>"

record directives =
  dv_isDefault :: bool
  dv_major :: int
  dv_minor :: int
  dv_tags :: "string \<rightharpoonup> string"

definition directives_ctor :: directives where
  "directives_ctor = \<lparr>dv_isDefault = True, dv_major = 1, dv_minor = 2, dv_tags = Map.empty\<rparr>"

definition TranslateTagHandle :: "directives \<Rightarrow> string \<Rightarrow> string" where
  "TranslateTagHandle ds handle = (case dv_tags ds handle of
     None \<Rightarrow> if handle = ''!!'' then ''tag:yaml.org,2002:'' else handle
   | Some prefix \<Rightarrow> prefix)"

datatype tag_type = VERBATIM | PRIMARY_HANDLE | SECONDARY_HANDLE | NAMED_HANDLE | NON_SPECIFIC

definition tag_type_of :: "nat \<Rightarrow> tag_type option" where
  "tag_type_of n = (if n = 0 then Some VERBATIM else if n = 1 then Some PRIMARY_HANDLE
     else if n = 2 then Some SECONDARY_HANDLE else if n = 3 then Some NAMED_HANDLE
     else if n = 4 then Some NON_SPECIFIC else None)"

text \<open>\<^verbatim>\<open>Tag::Tag\<close>: the type, handle and value. \<^verbatim>\<open>params[0]\<close> of an empty vector reads past its end.\<close>

definition Tag_ctor :: "token \<Rightarrow> (tag_type \<times> string \<times> string) result" where
  "Tag_ctor tok = (case tag_type_of (tk_data tok) of
     None \<Rightarrow> Inl AssertFailed
   | Some NAMED_HANDLE \<Rightarrow>
       (case tk_params tok of [] \<Rightarrow> Inl SegFault | p # _ \<Rightarrow> Inr (NAMED_HANDLE, tk_value tok, p))
   | Some NON_SPECIFIC \<Rightarrow> Inr (NON_SPECIFIC, [], [])
   | Some t \<Rightarrow> Inr (t, [], tk_value tok))"

fun Tag_Translate :: "directives \<Rightarrow> tag_type \<times> string \<times> string \<Rightarrow> string" where
  "Tag_Translate ds (VERBATIM, _, val) = val"
| "Tag_Translate ds (PRIMARY_HANDLE, _, val) = TranslateTagHandle ds ''!'' @ val"
| "Tag_Translate ds (SECONDARY_HANDLE, _, val) = TranslateTagHandle ds ''!!'' @ val"
| "Tag_Translate ds (NAMED_HANDLE, handle, val) = TranslateTagHandle ds (''!'' @ handle @ ''!'') @ val"
| "Tag_Translate ds (NON_SPECIFIC, _, _) = ''!''"

definition IsNullString :: "string \<Rightarrow> bool" where
  "IsNullString s \<longleftrightarrow> s = [] \<or> s = ''~'' \<or> s = ''null'' \<or> s = ''Null'' \<or> s = ''NULL''"

section \<open>The parser of one document\<close>

datatype collection_type = NoCollection | BlockMap | BlockSeq | FlowMap | FlowSeq | CompactMap

record 'h pstate =
  p_tokens :: "token list"
  p_end :: "fault option"
  p_anchors :: "string \<rightharpoonup> nat"
  p_curAnchor :: nat
  p_collections :: "collection_type list"
  p_handler :: 'h

subsection \<open>What the parser calls\<close>

definition sc_empty :: "'h pstate \<Rightarrow> bool run" where
  "sc_empty st = (case p_tokens st of
     [] \<Rightarrow> (case p_end st of None \<Rightarrow> ret True | Some e \<Rightarrow> throw e)
   | _ # _ \<Rightarrow> ret False)"

definition sc_peek :: "'h pstate \<Rightarrow> token run" where
  "sc_peek st = (case p_tokens st of
     [] \<Rightarrow> (case p_end st of None \<Rightarrow> throw AssertFailed | Some e \<Rightarrow> throw e)
   | t # _ \<Rightarrow> ret t)"

definition sc_pop :: "'h pstate \<Rightarrow> 'h pstate run" where
  "sc_pop st = (case p_tokens st of
     [] \<Rightarrow> (case p_end st of None \<Rightarrow> ret st | Some e \<Rightarrow> throw e)
   | _ # ts \<Rightarrow> ret (st\<lparr>p_tokens := ts\<rparr>))"

text \<open>\<^verbatim>\<open>!m_scanner.empty() && m_scanner.peek().type == t\<close>\<close>

definition sc_next_is :: "token_type \<Rightarrow> 'h pstate \<Rightarrow> bool run" where
  "sc_next_is t st = bind_run (sc_empty st) (\<lambda>e.
     if e then ret False else bind_run (sc_peek st) (\<lambda>tok. ret (tk_type tok = t)))"

definition emit_event :: "(event \<Rightarrow> 'h \<Rightarrow> 'h result) \<Rightarrow> event \<Rightarrow> 'h pstate \<Rightarrow> 'h pstate run" where
  "emit_event on e st = bind_run (Some (on e (p_handler st))) (\<lambda>h. ret (st\<lparr>p_handler := h\<rparr>))"

definition GetCurCollectionType :: "'h pstate \<Rightarrow> collection_type" where
  "GetCurCollectionType st = (case p_collections st of [] \<Rightarrow> NoCollection | t # _ \<Rightarrow> t)"

definition PushCollectionType :: "collection_type \<Rightarrow> 'h pstate \<Rightarrow> 'h pstate" where
  "PushCollectionType t st = st\<lparr>p_collections := t # p_collections st\<rparr>"

definition PopCollectionType :: "collection_type \<Rightarrow> 'h pstate \<Rightarrow> 'h pstate run" where
  "PopCollectionType t st =
     (if t = GetCurCollectionType st then ret (st\<lparr>p_collections := tl (p_collections st)\<rparr>) else throw AssertFailed)"

subsection \<open>Node properties\<close>

definition RegisterAnchor :: "string \<Rightarrow> 'h pstate \<Rightarrow> nat \<times> 'h pstate" where
  "RegisterAnchor name st =
     (if name = [] then (0, st)
      else (let a = p_curAnchor st + 1 in (a, st\<lparr>p_curAnchor := a, p_anchors := (p_anchors st)(name \<mapsto> a)\<rparr>)))"

definition LookupAnchor :: "string \<Rightarrow> 'h pstate \<Rightarrow> nat run" where
  "LookupAnchor name st = (case p_anchors st name of
     None \<Rightarrow> throw (ParserException ''the referenced anchor is not defined'')
   | Some a \<Rightarrow> ret a)"

definition ParseTag :: "directives \<Rightarrow> string \<Rightarrow> 'h pstate \<Rightarrow> (string \<times> 'h pstate) run" where
  "ParseTag ds tag st = bind_run (sc_peek st) (\<lambda>tok.
     if tag \<noteq> [] then throw (ParserException ''cannot assign multiple tags to the same node'')
     else bind_run (Some (Tag_ctor tok)) (\<lambda>info. bind_run (sc_pop st) (\<lambda>st1. ret (Tag_Translate ds info, st1))))"

definition ParseAnchor :: "nat \<Rightarrow> 'h pstate \<Rightarrow> (nat \<times> string \<times> 'h pstate) run" where
  "ParseAnchor anchor st = bind_run (sc_peek st) (\<lambda>tok.
     if anchor \<noteq> 0 then throw (ParserException ''cannot assign multiple anchors to the same node'')
     else (let (a, st1) = RegisterAnchor (tk_value tok) st
           in bind_run (sc_pop st1) (\<lambda>st2. ret (a, tk_value tok, st2))))"

text \<open>One turn of the loop of \<^verbatim>\<open>ParseProperties\<close>.\<close>

definition properties_turn ::
    "directives \<Rightarrow> string \<times> nat \<times> string \<times> 'h pstate \<Rightarrow> (bool \<times> string \<times> nat \<times> string \<times> 'h pstate) run" where
  "properties_turn ds = (\<lambda>(tag, anchor, name, st).
     bind_run (sc_empty st) (\<lambda>e. if e then ret (True, tag, anchor, name, st) else
     bind_run (sc_peek st) (\<lambda>tok.
       if tk_type tok = TAG then bind_run (ParseTag ds tag st) (\<lambda>(tag', st1). ret (False, tag', anchor, name, st1))
       else if tk_type tok = ANCHOR then
         bind_run (ParseAnchor anchor st) (\<lambda>(anchor', name', st1). ret (False, tag, anchor', name', st1))
       else ret (True, tag, anchor, name, st))))"

definition ParseProperties :: "directives \<Rightarrow> 'h pstate \<Rightarrow> (string \<times> nat \<times> string \<times> 'h pstate) run" where
  "ParseProperties ds st = repeat (properties_turn ds) ([], 0, [], st)"

subsection \<open>Collections\<close>

definition block_sequence_turn ::
    "(event \<Rightarrow> 'h \<Rightarrow> 'h result) \<Rightarrow> ('h pstate \<Rightarrow> 'h pstate run) \<Rightarrow> 'h pstate \<Rightarrow> (bool \<times> 'h pstate) run" where
  "block_sequence_turn on rec st = bind_run (sc_empty st) (\<lambda>e.
     if e then throw (ParserException ''end of sequence not found'') else
     bind_run (sc_peek st) (\<lambda>tok.
     if tk_type tok \<noteq> BLOCK_ENTRY \<and> tk_type tok \<noteq> BLOCK_SEQ_END
     then throw (ParserException ''end of sequence not found'') else
     bind_run (sc_pop st) (\<lambda>st1.
     if tk_type tok = BLOCK_SEQ_END then ret (True, st1) else
     bind_run (sc_next_is BLOCK_ENTRY st1) (\<lambda>entry.
     bind_run (sc_next_is BLOCK_SEQ_END st1) (\<lambda>stop.
     if entry \<or> stop then bind_run (emit_event on (OnNull 0) st1) (\<lambda>st2. ret (False, st2))
     else bind_run (rec st1) (\<lambda>st2. ret (False, st2)))))))"

definition HandleBlockSequence ::
    "(event \<Rightarrow> 'h \<Rightarrow> 'h result) \<Rightarrow> ('h pstate \<Rightarrow> 'h pstate run) \<Rightarrow> 'h pstate \<Rightarrow> 'h pstate run" where
  "HandleBlockSequence on rec st = bind_run (sc_pop st) (\<lambda>st1.
     bind_run (repeat (block_sequence_turn on rec) (PushCollectionType BlockSeq st1)) (PopCollectionType BlockSeq))"

definition flow_sequence_turn ::
    "('h pstate \<Rightarrow> 'h pstate run) \<Rightarrow> 'h pstate \<Rightarrow> (bool \<times> 'h pstate) run" where
  "flow_sequence_turn rec st = bind_run (sc_empty st) (\<lambda>e.
     if e then throw (ParserException ''end of sequence flow not found'') else
     bind_run (sc_peek st) (\<lambda>tok.
     if tk_type tok = FLOW_SEQ_END then bind_run (sc_pop st) (\<lambda>st1. ret (True, st1)) else
     bind_run (rec st) (\<lambda>st1.
     bind_run (sc_empty st1) (\<lambda>e.
     if e then throw (ParserException ''end of sequence flow not found'') else
     bind_run (sc_peek st1) (\<lambda>tok.
     if tk_type tok = FLOW_ENTRY then bind_run (sc_pop st1) (\<lambda>st2. ret (False, st2))
     else if tk_type tok \<noteq> FLOW_SEQ_END then throw (ParserException ''end of sequence flow not found'')
     else ret (False, st1))))))"

definition HandleFlowSequence :: "('h pstate \<Rightarrow> 'h pstate run) \<Rightarrow> 'h pstate \<Rightarrow> 'h pstate run" where
  "HandleFlowSequence rec st = bind_run (sc_pop st) (\<lambda>st1.
     bind_run (repeat (flow_sequence_turn rec) (PushCollectionType FlowSeq st1)) (PopCollectionType FlowSeq))"

definition HandleSequence ::
    "(event \<Rightarrow> 'h \<Rightarrow> 'h result) \<Rightarrow> ('h pstate \<Rightarrow> 'h pstate run) \<Rightarrow> 'h pstate \<Rightarrow> 'h pstate run" where
  "HandleSequence on rec st = bind_run (sc_peek st) (\<lambda>tok.
     if tk_type tok = BLOCK_SEQ_START then HandleBlockSequence on rec st
     else if tk_type tok = FLOW_SEQ_START then HandleFlowSequence rec st
     else ret st)"

text \<open>The optional value of a pair, which all four kinds of map share: what follows a value indicator, or
  null.\<close>

definition pair_value ::
    "(event \<Rightarrow> 'h \<Rightarrow> 'h result) \<Rightarrow> ('h pstate \<Rightarrow> 'h pstate run) \<Rightarrow> 'h pstate \<Rightarrow> 'h pstate run" where
  "pair_value on rec st = bind_run (sc_next_is VALUE st) (\<lambda>v.
     if v then bind_run (sc_pop st) rec else emit_event on (OnNull 0) st)"

definition pair_key ::
    "(event \<Rightarrow> 'h \<Rightarrow> 'h result) \<Rightarrow> ('h pstate \<Rightarrow> 'h pstate run) \<Rightarrow> token \<Rightarrow> 'h pstate \<Rightarrow> 'h pstate run" where
  "pair_key on rec tok st =
     (if tk_type tok = KEY then bind_run (sc_pop st) rec else emit_event on (OnNull 0) st)"

definition block_map_turn ::
    "(event \<Rightarrow> 'h \<Rightarrow> 'h result) \<Rightarrow> ('h pstate \<Rightarrow> 'h pstate run) \<Rightarrow> 'h pstate \<Rightarrow> (bool \<times> 'h pstate) run" where
  "block_map_turn on rec st = bind_run (sc_empty st) (\<lambda>e.
     if e then throw (ParserException ''end of map not found'') else
     bind_run (sc_peek st) (\<lambda>tok.
     if tk_type tok \<noteq> KEY \<and> tk_type tok \<noteq> VALUE \<and> tk_type tok \<noteq> BLOCK_MAP_END
     then throw (ParserException ''end of map not found'')
     else if tk_type tok = BLOCK_MAP_END then bind_run (sc_pop st) (\<lambda>st1. ret (True, st1))
     else bind_run (pair_key on rec tok st) (\<lambda>st1.
          bind_run (pair_value on rec st1) (\<lambda>st2. ret (False, st2)))))"

definition HandleBlockMap ::
    "(event \<Rightarrow> 'h \<Rightarrow> 'h result) \<Rightarrow> ('h pstate \<Rightarrow> 'h pstate run) \<Rightarrow> 'h pstate \<Rightarrow> 'h pstate run" where
  "HandleBlockMap on rec st = bind_run (sc_pop st) (\<lambda>st1.
     bind_run (repeat (block_map_turn on rec) (PushCollectionType BlockMap st1)) (PopCollectionType BlockMap))"

definition flow_map_turn ::
    "(event \<Rightarrow> 'h \<Rightarrow> 'h result) \<Rightarrow> ('h pstate \<Rightarrow> 'h pstate run) \<Rightarrow> 'h pstate \<Rightarrow> (bool \<times> 'h pstate) run" where
  "flow_map_turn on rec st = bind_run (sc_empty st) (\<lambda>e.
     if e then throw (ParserException ''end of map flow not found'') else
     bind_run (sc_peek st) (\<lambda>tok.
     if tk_type tok = FLOW_MAP_END then bind_run (sc_pop st) (\<lambda>st1. ret (True, st1)) else
     bind_run (pair_key on rec tok st) (\<lambda>st1.
     bind_run (pair_value on rec st1) (\<lambda>st2.
     bind_run (sc_empty st2) (\<lambda>e.
     if e then throw (ParserException ''end of map flow not found'') else
     bind_run (sc_peek st2) (\<lambda>tok.
     if tk_type tok = FLOW_ENTRY then bind_run (sc_pop st2) (\<lambda>st3. ret (False, st3))
     else if tk_type tok \<noteq> FLOW_MAP_END then throw (ParserException ''end of map flow not found'')
     else ret (False, st2)))))))"

definition HandleFlowMap ::
    "(event \<Rightarrow> 'h \<Rightarrow> 'h result) \<Rightarrow> ('h pstate \<Rightarrow> 'h pstate run) \<Rightarrow> 'h pstate \<Rightarrow> 'h pstate run" where
  "HandleFlowMap on rec st = bind_run (sc_pop st) (\<lambda>st1.
     bind_run (repeat (flow_map_turn on rec) (PushCollectionType FlowMap st1)) (PopCollectionType FlowMap))"

definition HandleCompactMap ::
    "(event \<Rightarrow> 'h \<Rightarrow> 'h result) \<Rightarrow> ('h pstate \<Rightarrow> 'h pstate run) \<Rightarrow> 'h pstate \<Rightarrow> 'h pstate run" where
  "HandleCompactMap on rec st =
     bind_run (sc_pop (PushCollectionType CompactMap st)) (\<lambda>st1.
     bind_run (rec st1) (\<lambda>st2.
     bind_run (pair_value on rec st2) (PopCollectionType CompactMap)))"

definition HandleCompactMapWithNoKey ::
    "(event \<Rightarrow> 'h \<Rightarrow> 'h result) \<Rightarrow> ('h pstate \<Rightarrow> 'h pstate run) \<Rightarrow> 'h pstate \<Rightarrow> 'h pstate run" where
  "HandleCompactMapWithNoKey on rec st =
     bind_run (emit_event on (OnNull 0) (PushCollectionType CompactMap st)) (\<lambda>st1.
     bind_run (sc_pop st1) (\<lambda>st2.
     bind_run (rec st2) (PopCollectionType CompactMap)))"

definition HandleMap ::
    "(event \<Rightarrow> 'h \<Rightarrow> 'h result) \<Rightarrow> ('h pstate \<Rightarrow> 'h pstate run) \<Rightarrow> 'h pstate \<Rightarrow> 'h pstate run" where
  "HandleMap on rec st = bind_run (sc_peek st) (\<lambda>tok.
     if tk_type tok = BLOCK_MAP_START then HandleBlockMap on rec st
     else if tk_type tok = FLOW_MAP_START then HandleFlowMap on rec st
     else if tk_type tok = KEY then HandleCompactMap on rec st
     else if tk_type tok = VALUE then HandleCompactMapWithNoKey on rec st
     else ret st)"

subsection \<open>Nodes\<close>

text \<open>A collection between its start and end events.\<close>

definition sequence_node ::
    "(event \<Rightarrow> 'h \<Rightarrow> 'h result) \<Rightarrow> ('h pstate \<Rightarrow> 'h pstate run) \<Rightarrow> string \<Rightarrow> nat \<Rightarrow> emitter_style \<Rightarrow> 'h pstate \<Rightarrow> 'h pstate run" where
  "sequence_node on rec tag anchor style st =
     bind_run (emit_event on (OnSequenceStart tag anchor style) st) (\<lambda>st1.
     bind_run (HandleSequence on rec st1) (emit_event on OnSequenceEnd))"

definition map_node ::
    "(event \<Rightarrow> 'h \<Rightarrow> 'h result) \<Rightarrow> ('h pstate \<Rightarrow> 'h pstate run) \<Rightarrow> string \<Rightarrow> nat \<Rightarrow> emitter_style \<Rightarrow> 'h pstate \<Rightarrow> 'h pstate run" where
  "map_node on rec tag anchor style st =
     bind_run (emit_event on (OnMapStart tag anchor style) st) (\<lambda>st1.
     bind_run (HandleMap on rec st1) (emit_event on OnMapEnd))"

text \<open>The end of \<^verbatim>\<open>HandleNode\<close>: the split on the kind of the node, its tag known.\<close>

definition node_content ::
    "(event \<Rightarrow> 'h \<Rightarrow> 'h result) \<Rightarrow> ('h pstate \<Rightarrow> 'h pstate run) \<Rightarrow> string \<Rightarrow> nat \<Rightarrow> token \<Rightarrow> 'h pstate \<Rightarrow> 'h pstate run" where
  "node_content on rec tag anchor tok st =
     (if tk_type tok = PLAIN_SCALAR \<or> tk_type tok = NON_PLAIN_SCALAR
      then bind_run (emit_event on (OnScalar tag anchor (tk_value tok)) st) sc_pop
      else if tk_type tok = FLOW_SEQ_START then sequence_node on rec tag anchor Style_Flow st
      else if tk_type tok = BLOCK_SEQ_START then sequence_node on rec tag anchor Style_Block st
      else if tk_type tok = FLOW_MAP_START then map_node on rec tag anchor Style_Flow st
      else if tk_type tok = BLOCK_MAP_START then map_node on rec tag anchor Style_Block st
      else if tk_type tok = KEY \<and> GetCurCollectionType st = FlowSeq then map_node on rec tag anchor Style_Flow st
      else if tag = ''?'' then emit_event on (OnNull anchor) st
      else emit_event on (OnScalar tag anchor []) st)"

definition node_with_properties ::
    "directives \<Rightarrow> (event \<Rightarrow> 'h \<Rightarrow> 'h result) \<Rightarrow> ('h pstate \<Rightarrow> 'h pstate run) \<Rightarrow> 'h pstate \<Rightarrow> 'h pstate run" where
  "node_with_properties ds on rec st =
     bind_run (ParseProperties ds st) (\<lambda>(tag, anchor, name, st1).
     bind_run (if name \<noteq> [] then emit_event on (OnAnchor name) st1 else ret st1) (\<lambda>st2.
     bind_run (sc_empty st2) (\<lambda>e.
     if e then emit_event on (OnNull anchor) st2 else
     bind_run (sc_peek st2) (\<lambda>tok.
     if tk_type tok = PLAIN_SCALAR \<and> IsNullString (tk_value tok)
     then bind_run (emit_event on (OnNull anchor) st2) sc_pop
     else node_content on rec
            (if tag = [] then (if tk_type tok = NON_PLAIN_SCALAR then ''!'' else ''?'') else tag) anchor tok st2))))"

definition node_body ::
    "directives \<Rightarrow> (event \<Rightarrow> 'h \<Rightarrow> 'h result) \<Rightarrow> ('h pstate \<Rightarrow> 'h pstate run) \<Rightarrow> 'h pstate \<Rightarrow> 'h pstate run" where
  "node_body ds on rec st =
     bind_run (sc_empty st) (\<lambda>e.
     if e then emit_event on (OnNull 0) st else
     bind_run (sc_peek st) (\<lambda>tok.
     if tk_type tok = VALUE then map_node on rec ''?'' 0 Style_Default st
     else if tk_type tok = ALIAS then
       bind_run (LookupAnchor (tk_value tok) st) (\<lambda>a. bind_run (emit_event on (OnAlias a) st) sc_pop)
     else node_with_properties ds on rec st))"

text \<open>The argument is the number of levels \<^verbatim>\<open>DepthGuard<2000>\<close> still allows.\<close>

primrec HandleNode ::
    "nat \<Rightarrow> directives \<Rightarrow> (event \<Rightarrow> 'h \<Rightarrow> 'h result) \<Rightarrow> 'h pstate \<Rightarrow> 'h pstate run" where
  "HandleNode 0 ds on st = throw (ParserException ''bad file'')"
| "HandleNode (Suc n) ds on st = node_body ds on (HandleNode n ds on) st"

definition max_depth :: nat where
  "max_depth = 2000"

definition doc_end_turn :: "'h pstate \<Rightarrow> (bool \<times> 'h pstate) run" where
  "doc_end_turn st = bind_run (sc_next_is DOC_END st) (\<lambda>b.
     if b then bind_run (sc_pop st) (\<lambda>st1. ret (False, st1)) else ret (True, st))"

definition HandleDocument :: "directives \<Rightarrow> (event \<Rightarrow> 'h \<Rightarrow> 'h result) \<Rightarrow> 'h pstate \<Rightarrow> 'h pstate run" where
  "HandleDocument ds on st =
     bind_run (sc_empty st) (\<lambda>e.
     if e \<or> p_curAnchor st \<noteq> 0 then throw AssertFailed else
     bind_run (emit_event on OnDocumentStart st) (\<lambda>st1.
     bind_run (sc_peek st1) (\<lambda>tok.
     bind_run (if tk_type tok = DOC_START then sc_pop st1 else ret st1) (\<lambda>st2.
     bind_run (HandleNode (max_depth - 1) ds on st2) (\<lambda>st3.
     bind_run (emit_event on OnDocumentEnd st3) (repeat doc_end_turn))))))"

section \<open>Directives and documents\<close>

record parser =
  y_tokens :: "token list"
  y_end :: "fault option"
  y_directives :: directives

text \<open>\<^verbatim>\<open>stream >> i\<close> for an \<^verbatim>\<open>int\<close> in decimal: white space is skipped, a value out of range fails.\<close>

definition extract_int :: "string \<Rightarrow> (int \<times> string) option" where
  "extract_int s =
     (let t = dropWhile isspace s;
          neg = (take 1 t = ''-'');
          u = (if take 1 t = ''-'' \<or> take 1 t = ''+'' then tl t else t);
          digits = takeWhile isdigit u;
          n = int (base_val 10 digits);
          v = (if neg then - n else n)
      in if digits = [] \<or> v < - (2 ^ 31) \<or> 2 ^ 31 \<le> v then None else Some (v, dropWhile isdigit u))"

text \<open>The version: an integer, any one character, an integer, and nothing else.\<close>

definition read_version :: "string \<Rightarrow> (int \<times> int) option" where
  "read_version s = (case extract_int s of
     None \<Rightarrow> None
   | Some (_, []) \<Rightarrow> None
   | Some (major, _ # rest) \<Rightarrow>
       (case extract_int rest of Some (minor, []) \<Rightarrow> Some (major, minor) | _ \<Rightarrow> None))"

definition HandleYamlDirective :: "token \<Rightarrow> directives \<Rightarrow> directives run" where
  "HandleYamlDirective tok ds = (case tk_params tok of
     [v] \<Rightarrow>
       (if \<not> dv_isDefault ds then throw (ParserException ''repeated YAML directive'')
        else case read_version v of
          None \<Rightarrow> throw (ParserException (''bad YAML version: '' @ v))
        | Some (major, minor) \<Rightarrow>
            if major > 1 then throw (ParserException ''YAML major version too large'')
            else ret (ds\<lparr>dv_major := major, dv_minor := minor, dv_isDefault := False\<rparr>))
   | _ \<Rightarrow> throw (ParserException ''YAML directives must have exactly one argument''))"

definition HandleTagDirective :: "token \<Rightarrow> directives \<Rightarrow> directives run" where
  "HandleTagDirective tok ds = (case tk_params tok of
     [handle, prefix] \<Rightarrow>
       (if dv_tags ds handle \<noteq> None then throw (ParserException ''repeated TAG directive'')
        else ret (ds\<lparr>dv_tags := (dv_tags ds)(handle \<mapsto> prefix)\<rparr>))
   | _ \<Rightarrow> throw (ParserException ''TAG directives must have exactly two arguments''))"

definition HandleDirective :: "token \<Rightarrow> directives \<Rightarrow> directives run" where
  "HandleDirective tok ds =
     (if tk_value tok = ''YAML'' then HandleYamlDirective tok ds
      else if tk_value tok = ''TAG'' then HandleTagDirective tok ds
      else ret ds)"

text \<open>The parser as the scanner's client: a state without handler.\<close>

definition scan_of :: "parser \<Rightarrow> 'h \<Rightarrow> 'h pstate" where
  "scan_of y h = \<lparr>p_tokens = y_tokens y, p_end = y_end y, p_anchors = Map.empty, p_curAnchor = 0,
     p_collections = [], p_handler = h\<rparr>"

definition directives_turn :: "bool \<times> parser \<Rightarrow> (bool \<times> bool \<times> parser) run" where
  "directives_turn = (\<lambda>(readDirective, y).
     bind_run (sc_next_is DIRECTIVE (scan_of y ())) (\<lambda>b.
     if \<not> b then ret (True, readDirective, y) else
     bind_run (sc_peek (scan_of y ())) (\<lambda>tok.
     bind_run (HandleDirective tok (if readDirective then y_directives y else directives_ctor)) (\<lambda>ds.
     bind_run (sc_pop (scan_of y ())) (\<lambda>st. ret (False, True, y\<lparr>y_directives := ds, y_tokens := p_tokens st\<rparr>))))))"

definition ParseDirectives :: "parser \<Rightarrow> parser run" where
  "ParseDirectives y = bind_run (repeat directives_turn (False, y)) (\<lambda>(_, y'). ret y')"

definition HandleNextDocument ::
    "(event \<Rightarrow> 'h \<Rightarrow> 'h result) \<Rightarrow> parser \<Rightarrow> 'h \<Rightarrow> (bool \<times> parser \<times> 'h) run" where
  "HandleNextDocument on y h = bind_run (ParseDirectives y) (\<lambda>y1.
     bind_run (sc_empty (scan_of y1 h)) (\<lambda>e.
     if e then ret (False, y1, h) else
     bind_run (HandleDocument (y_directives y1) on (scan_of y1 h)) (\<lambda>st.
     ret (True, y1\<lparr>y_tokens := p_tokens st\<rparr>, p_handler st))))"

section \<open>Loading\<close>

text \<open>\<^verbatim>\<open>Load\<close>: the memory and the root of the first document, \<open>None\<close> for the default \<^verbatim>\<open>Node()\<close>.\<close>

definition parser_of :: "token list \<Rightarrow> fault option \<Rightarrow> parser" where
  "parser_of toks e = \<lparr>y_tokens = toks, y_end = e, y_directives = directives_ctor\<rparr>"

definition Root :: "builder \<Rightarrow> (memory \<times> nat) option" where
  "Root b = map_option (\<lambda>r. (nb_memory b, r)) (nb_root b)"

definition Load :: "token list \<Rightarrow> fault option \<Rightarrow> (memory \<times> nat) option run" where
  "Load toks e = bind_run (HandleNextDocument builder_on (parser_of toks e) builder_ctor) (\<lambda>(more, _, b).
     ret (if more then Root b else None))"

definition load_all_turn ::
    "(memory \<times> nat) option list \<times> parser \<Rightarrow> (bool \<times> (memory \<times> nat) option list \<times> parser) run" where
  "load_all_turn = (\<lambda>(docs, y). bind_run (HandleNextDocument builder_on y builder_ctor) (\<lambda>(more, y1, b).
     ret (if more then (False, docs @ [Root b], y1) else (True, docs, y1))))"

definition LoadAll :: "token list \<Rightarrow> fault option \<Rightarrow> (memory \<times> nat) option list run" where
  "LoadAll toks e = bind_run (repeat load_all_turn ([], parser_of toks e)) (\<lambda>(docs, _). ret docs)"

section \<open>Parsing any tokens with any handler\<close>

definition parser_fault :: "fault \<Rightarrow> bool" where
  "parser_fault e \<longleftrightarrow> (\<exists>m. e = ParserException m)"

text \<open>What the parser relies on in the scanner's output: a tag token has one of the five tag types and, for a
  named handle, its suffix; the scanner stops with a \<^verbatim>\<open>ParserException\<close> if it stops early.\<close>

definition token_ok :: "token \<Rightarrow> bool" where
  "token_ok tok \<longleftrightarrow> (tk_type tok = TAG \<longrightarrow> tk_data tok \<le> 4 \<and> (tk_data tok = 3 \<longrightarrow> tk_params tok \<noteq> []))"

definition scan_ok :: "token list \<Rightarrow> fault option \<Rightarrow> bool" where
  "scan_ok toks e \<longleftrightarrow> list_all token_ok toks \<and> (case e of None \<Rightarrow> True | Some f \<Rightarrow> parser_fault f)"

definition wf_parse :: "'h pstate \<Rightarrow> bool" where
  "wf_parse st \<longleftrightarrow> scan_ok (p_tokens st) (p_end st)
     \<and> (\<forall>name a. p_anchors st name = Some a \<longrightarrow> 1 \<le> a \<and> a \<le> p_curAnchor st)"

definition remaining :: "'h pstate \<Rightarrow> nat" where
  "remaining st = length (p_tokens st)"

text \<open>Every routine leaves the tokens alone or takes at least one.\<close>

definition consumed :: "'h pstate \<Rightarrow> 'h pstate \<Rightarrow> bool" where
  "consumed st st' \<longleftrightarrow> p_tokens st' = p_tokens st \<or> remaining st' < remaining st"

lemma consumed_refl [simp]: "consumed st st"
  by (simp add: consumed_def)

lemma consumed_trans [trans]: "consumed st st' \<Longrightarrow> consumed st' st'' \<Longrightarrow> consumed st st''"
  by (auto simp: consumed_def remaining_def)

lemma parser_fault_simps [simp]: "parser_fault (ParserException m)"
  by (simp add: parser_fault_def)

lemma wf_parse_tokens: "wf_parse st \<Longrightarrow> p_tokens st = t # ts \<Longrightarrow> token_ok t \<and> wf_parse (st\<lparr>p_tokens := ts\<rparr>)"
  by (simp add: wf_parse_def scan_ok_def)

lemma wf_parse_update [simp]:
  "wf_parse (st\<lparr>p_handler := h\<rparr>) = wf_parse st" "wf_parse (st\<lparr>p_collections := cs\<rparr>) = wf_parse st"
  "wf_parse (PushCollectionType c st) = wf_parse st"
  "remaining (st\<lparr>p_handler := h\<rparr>) = remaining st" "remaining (st\<lparr>p_collections := cs\<rparr>) = remaining st"
  "remaining (PushCollectionType c st) = remaining st" "remaining (st\<lparr>p_tokens := ts\<rparr>) = length ts"
  by (simp_all add: wf_parse_def remaining_def PushCollectionType_def)

text \<open>The scanner's three calls, as rules for \<open>runs\<close>.\<close>

lemma runs_sc_empty:
  "wf_parse st \<Longrightarrow> (remaining st = 0 \<Longrightarrow> Q True) \<Longrightarrow> (remaining st > 0 \<Longrightarrow> Q False) \<Longrightarrow> runs (sc_empty st) Q parser_fault"
  by (auto simp: sc_empty_def remaining_def wf_parse_def scan_ok_def split: list.splits option.splits)

lemma runs_sc_peek:
  "remaining st > 0 \<Longrightarrow> Q (hd (p_tokens st)) \<Longrightarrow> runs (sc_peek st) Q E"
  by (auto simp: sc_peek_def remaining_def split: list.splits)

lemma runs_sc_pop:
  "remaining st > 0 \<Longrightarrow> Q (st\<lparr>p_tokens := tl (p_tokens st)\<rparr>) \<Longrightarrow> runs (sc_pop st) Q E"
  by (auto simp: sc_pop_def remaining_def split: list.splits)

lemma runs_sc_next_is:
  "wf_parse st \<Longrightarrow> Q (remaining st > 0 \<and> tk_type (hd (p_tokens st)) = t) \<Longrightarrow> runs (sc_next_is t st) Q parser_fault"
  unfolding sc_next_is_def
  by (auto simp: sc_empty_def sc_peek_def remaining_def wf_parse_def scan_ok_def split: list.splits option.splits)

lemma wf_parse_pop:
  "wf_parse st \<Longrightarrow> remaining st > 0 \<Longrightarrow> wf_parse (st\<lparr>p_tokens := tl (p_tokens st)\<rparr>)"
  by (auto simp: wf_parse_def scan_ok_def remaining_def neq_Nil_conv)

lemma token_ok_hd: "wf_parse st \<Longrightarrow> remaining st > 0 \<Longrightarrow> token_ok (hd (p_tokens st))"
  by (auto simp: wf_parse_def scan_ok_def remaining_def neq_Nil_conv)

lemma remaining_pop: "remaining st > 0 \<Longrightarrow> length (tl (p_tokens st)) < remaining st"
  by (auto simp: remaining_def neq_Nil_conv)

subsection \<open>Node properties\<close>

text \<open>\<open>propertied st (tag, anchor, name, st')\<close>: the handler is untouched, and the anchor is the next number when
  there is one.\<close>

definition propertied :: "'h pstate \<Rightarrow> string \<times> nat \<times> string \<times> 'h pstate \<Rightarrow> bool" where
  "propertied st = (\<lambda>(_, anchor, _, st'). wf_parse st' \<and> p_handler st' = p_handler st
     \<and> p_collections st' = p_collections st \<and> consumed st st'
     \<and> anchor_opened anchor (p_curAnchor st) = Some (p_curAnchor st'))"

lemma runs_Tag_ctor: "token_ok tok \<Longrightarrow> tk_type tok = TAG \<Longrightarrow> \<exists>info. Tag_ctor tok = Inr info"
  by (auto simp: token_ok_def Tag_ctor_def tag_type_of_def split: list.splits tag_type.splits)

lemma RegisterAnchor_wf:
  assumes "wf_parse st" "RegisterAnchor name st = (a, st')"
  shows "wf_parse st' \<and> p_handler st' = p_handler st \<and> p_collections st' = p_collections st
    \<and> p_tokens st' = p_tokens st \<and> anchor_opened a (p_curAnchor st) = Some (p_curAnchor st')"
  using assms by (auto simp: RegisterAnchor_def wf_parse_def anchor_opened_def Let_def split: if_splits) force+

lemma properties_turn_ok:
  assumes "propertied st0 s"
  shows "runs (properties_turn ds s) (\<lambda>(stop, s'). if stop then propertied st0 s'
    else propertied st0 s' \<and> remaining (snd (snd (snd s'))) < remaining (snd (snd (snd s)))) parser_fault"
proof -
  obtain tag anchor name st where s: "s = (tag, anchor, name, st)"
    by (cases s)
  have st: "wf_parse st"
    using assms by (simp add: s propertied_def)
  show ?thesis
  proof (cases "p_tokens st")
    case Nil
    then show ?thesis
      using assms st by (auto simp: s properties_turn_def sc_empty_def wf_parse_def scan_ok_def split: option.splits)
  next
    case (Cons tok toks)
    then have tok: "token_ok tok" "wf_parse (st\<lparr>p_tokens := toks\<rparr>)" "remaining st = Suc (length toks)"
      using wf_parse_tokens [OF st Cons] by (simp_all add: remaining_def)
    have pop: "sc_pop st' = ret (st'\<lparr>p_tokens := toks\<rparr>)" if "p_tokens st' = p_tokens st" for st' :: "'a pstate"
      using that Cons by (simp add: sc_pop_def)
    have less: "consumed st0 (st'\<lparr>p_tokens := toks\<rparr>)" for st' :: "'a pstate"
      using assms arg_cong [OF Cons, of length] by (auto simp: s propertied_def consumed_def remaining_def)
    consider (tag) "tk_type tok = TAG" | (anchor) "tk_type tok = ANCHOR" | (other) "tk_type tok \<noteq> TAG" "tk_type tok \<noteq> ANCHOR"
      by blast
    then show ?thesis
    proof cases
      case tag
      then show ?thesis
        using assms tok Cons runs_Tag_ctor [OF tok(1)]
        by (auto simp: s properties_turn_def sc_empty_def sc_peek_def ParseTag_def pop propertied_def less)
    next
      case anchor
      obtain a st1 where reg: "RegisterAnchor (tk_value tok) st = (a, st1)"
        by (cases "RegisterAnchor (tk_value tok) st")
      note wf1 = RegisterAnchor_wf [OF st reg]
      have "wf_parse (st1\<lparr>p_tokens := toks\<rparr>)"
        using wf1 wf_parse_tokens [of st1 tok toks] Cons by simp
      then show ?thesis
        using assms tok Cons anchor reg wf1
        by (auto simp: s properties_turn_def sc_empty_def sc_peek_def ParseAnchor_def pop propertied_def anchor_opened_def less
            split: if_splits)
    next
      case other
      then show ?thesis
        using assms Cons by (simp add: s properties_turn_def sc_empty_def sc_peek_def)
    qed
  qed
qed

lemma ParseProperties_ok:
  assumes "wf_parse st"
  shows "runs (ParseProperties ds st) (propertied st) parser_fault"
  unfolding ParseProperties_def
proof (rule runs_repeat [where I = "propertied st" and m = "\<lambda>s. remaining (snd (snd (snd s)))"])
  show "propertied st ([], 0, [], st)"
    using assms by (simp add: propertied_def anchor_opened_def)
qed (rule properties_turn_ok)

subsection \<open>The protocol is followed\<close>

definition parsing :: "(progress \<times> nat \<Rightarrow> 'h \<Rightarrow> bool) \<Rightarrow> progress \<Rightarrow> 'h pstate \<Rightarrow> bool" where
  "parsing ok c st \<longleftrightarrow> wf_parse st \<and> ok (c, p_curAnchor st) (p_handler st)"

text \<open>From \<open>st\<close> the parser has come to \<open>st'\<close>, where the protocol has come to \<open>c\<close>; the collection stack is as it
  was.\<close>

definition reached :: "(progress \<times> nat \<Rightarrow> 'h \<Rightarrow> bool) \<Rightarrow> progress \<Rightarrow> 'h pstate \<Rightarrow> 'h pstate \<Rightarrow> bool" where
  "reached ok c st st' \<longleftrightarrow> parsing ok c st' \<and> p_collections st' = p_collections st \<and> consumed st st'"

definition parses_node :: "(progress \<times> nat \<Rightarrow> 'h \<Rightarrow> bool) \<Rightarrow> ('h pstate \<Rightarrow> 'h pstate run) \<Rightarrow> bool" where
  "parses_node ok rec \<longleftrightarrow>
     (\<forall>fs st. parsing ok (Expect fs) st \<longrightarrow> runs (rec st) (reached ok (completed fs) st) parser_fault)"

lemma parsingD: "parsing ok c st \<Longrightarrow> wf_parse st"
  by (simp add: parsing_def)

lemma parsing_push [simp]: "parsing ok c (PushCollectionType t st) = parsing ok c st"
  by (simp add: parsing_def PushCollectionType_def wf_parse_def)

lemma runs_pop:
  assumes "parsing ok c st" "remaining st > 0"
  shows "runs (sc_pop st) (\<lambda>st'. reached ok c st st' \<and> remaining st' < remaining st) E"
  using assms remaining_pop [OF assms(2)]
  by (intro runs_sc_pop) (simp_all add: reached_def parsing_def consumed_def wf_parse_pop)

lemma reached_trans: "reached ok c st st' \<Longrightarrow> reached ok c' st' st'' \<Longrightarrow> reached ok c' st st''"
  by (auto simp: reached_def intro: consumed_trans)

lemma runs_pop_collection:
  assumes "reached ok c (PushCollectionType t st) st'"
  shows "runs (PopCollectionType t st') (reached ok c st) E"
  using assms
  by (simp add: PopCollectionType_def GetCurCollectionType_def reached_def parsing_def consumed_def PushCollectionType_def
      remaining_def)

context event_handler
begin

lemma runs_emit:
  assumes "parsing ok c st" "advance e (c, p_curAnchor st) = Some (c', p_curAnchor st)"
  shows "runs (emit_event on e st) (\<lambda>st'. reached ok c' st st' \<and> p_tokens st' = p_tokens st) E"
  unfolding emit_event_def
  by (rule runs_bindI [OF on_runs [OF _ assms(2)]])
    (use assms in \<open>simp_all add: parsing_def reached_def consumed_def\<close>)

lemma runs_emit_anchor:
  assumes "wf_parse st" "ok (c, k) (p_handler st)" "advance e (c, k) = Some (c', p_curAnchor st)"
  shows "runs (emit_event on e st) (\<lambda>st'. reached ok c' st st' \<and> p_tokens st' = p_tokens st) E"
  unfolding emit_event_def
  by (rule runs_bindI [OF on_runs [OF _ assms(3)]])
    (use assms in \<open>simp_all add: parsing_def reached_def consumed_def\<close>)

lemma runs_node:
  "parses_node ok rec \<Longrightarrow> parsing ok (Expect fs) st \<Longrightarrow> runs (rec st) (reached ok (completed fs) st) parser_fault"
  by (simp add: parses_node_def)

lemma runs_pop_node:
  assumes "parses_node ok rec" "parsing ok (Expect fs) st" "remaining st > 0"
  shows "runs (bind_run (sc_pop st) rec)
    (\<lambda>st'. reached ok (completed fs) st st' \<and> remaining st' < remaining st) parser_fault"
proof (rule runs_bindI [OF runs_pop [OF assms(2,3)]])
  fix st1
  assume st1: "reached ok (Expect fs) st st1 \<and> remaining st1 < remaining st"
  then have "runs (rec st1) (reached ok (completed fs) st1) parser_fault"
    using runs_node [OF assms(1)] by (simp add: reached_def)
  then show "runs (rec st1) (\<lambda>st'. reached ok (completed fs) st st' \<and> remaining st' < remaining st) parser_fault"
    by (rule runs_mono) (use st1 in \<open>auto intro: reached_trans simp: reached_def consumed_def remaining_def\<close>)
qed

lemma runs_null:
  "parsing ok (Expect fs) st \<Longrightarrow>
   runs (emit_event on (OnNull 0) st) (\<lambda>st'. reached ok (completed fs) st st' \<and> p_tokens st' = p_tokens st) E"
  by (rule runs_emit [of "Expect fs"]) simp_all

lemma pair_key_ok:
  assumes "parses_node ok rec" "parsing ok (Expect (AtKey # fs)) st" "remaining st > 0"
  shows "runs (pair_key on rec tok st)
    (\<lambda>st'. reached ok (Expect (AtVal # fs)) st st' \<and> (tk_type tok = KEY \<longrightarrow> remaining st' < remaining st)) parser_fault"
  using runs_pop_node [OF assms] runs_null [OF assms(2), of parser_fault]
  by (auto simp: pair_key_def elim: runs_mono)

lemma pair_value_ok:
  assumes "parses_node ok rec" "parsing ok (Expect (AtVal # fs)) st"
  shows "runs (pair_value on rec st) (\<lambda>st'. reached ok (Expect (AtKey # fs)) st st'
    \<and> (remaining st > 0 \<and> tk_type (hd (p_tokens st)) = VALUE \<longrightarrow> remaining st' < remaining st)) parser_fault"
  unfolding pair_value_def
proof (rule runs_bind, rule runs_sc_next_is [OF parsingD [OF assms(2)]], rule runs_if)
  assume v: "0 < remaining st \<and> tk_type (hd (p_tokens st)) = VALUE"
  then show "runs (bind_run (sc_pop st) rec) (\<lambda>st'. reached ok (Expect (AtKey # fs)) st st'
    \<and> (remaining st > 0 \<and> tk_type (hd (p_tokens st)) = VALUE \<longrightarrow> remaining st' < remaining st)) parser_fault"
    using runs_pop_node [OF assms] by (auto elim: runs_mono)
qed (use runs_null [OF assms(2), of parser_fault] in \<open>auto elim: runs_mono\<close>)

end

text \<open>A turn of a loop keeps \<open>c\<close> and, unless it is the last, takes a token.\<close>

definition turn_ok :: "(progress \<times> nat \<Rightarrow> 'h \<Rightarrow> bool) \<Rightarrow> progress \<Rightarrow> ('h pstate \<Rightarrow> (bool \<times> 'h pstate) run) \<Rightarrow> bool" where
  "turn_ok ok c turn \<longleftrightarrow> (\<forall>st. parsing ok c st \<longrightarrow>
     runs (turn st) (\<lambda>(stop, st'). reached ok c st st' \<and> (\<not> stop \<longrightarrow> remaining st' < remaining st)) parser_fault)"

lemma turn_okI:
  assumes "\<And>st. parsing ok c st \<Longrightarrow> p_tokens st = [] \<Longrightarrow> \<exists>m. turn st = bind_run (sc_empty st) (\<lambda>e. if e then throw (ParserException m) else f st)"
    and "\<And>st t ts st1. parsing ok c st \<Longrightarrow> p_tokens st = t # ts \<Longrightarrow> sc_empty st = ret False \<Longrightarrow> sc_peek st = ret t \<Longrightarrow>
      sc_pop st = ret st1 \<Longrightarrow> st1 = st\<lparr>p_tokens := ts\<rparr> \<Longrightarrow> reached ok c st st1 \<Longrightarrow> remaining st1 < remaining st \<Longrightarrow>
      runs (turn st) (\<lambda>(stop, st'). reached ok c st st' \<and> (\<not> stop \<longrightarrow> remaining st' < remaining st)) parser_fault"
  shows "turn_ok ok c turn"
  unfolding turn_ok_def
proof (intro allI impI)
  fix st
  assume st: "parsing ok c st"
  show "runs (turn st) (\<lambda>(stop, st'). reached ok c st st' \<and> (\<not> stop \<longrightarrow> remaining st' < remaining st)) parser_fault"
  proof (cases "p_tokens st")
    case Nil
    then show ?thesis
      using assms(1) [OF st Nil] parsingD [OF st]
      by (auto simp: sc_empty_def wf_parse_def scan_ok_def split: option.splits)
  next
    case (Cons t ts)
    then show ?thesis
      using st wf_parse_tokens [OF parsingD [OF st] Cons]
      by (intro assms(2) [OF st Cons, of "st\<lparr>p_tokens := ts\<rparr>"])
        (simp_all add: sc_empty_def sc_peek_def sc_pop_def reached_def parsing_def consumed_def remaining_def)
  qed
qed

lemma reached_less: "reached ok c st st1 \<Longrightarrow> remaining st1 < remaining st \<Longrightarrow> reached ok c' st1 st2 \<Longrightarrow>
    reached ok c' st st2 \<and> remaining st2 < remaining st"
  using reached_trans [of ok c st st1 c' st2] by (auto simp: reached_def consumed_def remaining_def)

context event_handler
begin

lemma block_sequence_turn_ok:
  assumes rec: "parses_node ok rec"
  shows "turn_ok ok (Expect (InSeq # fs)) (block_sequence_turn on rec)"
proof (rule turn_okI)
  show "\<exists>m. block_sequence_turn on rec st = bind_run (sc_empty st) (\<lambda>e. if e then throw (ParserException m) else
      block_sequence_turn on rec st)" if "p_tokens st = []" for st
    using that by (auto simp: block_sequence_turn_def sc_empty_def split: option.splits)
next
  fix st t ts st1
  assume st: "sc_empty st = ret False" "sc_peek st = ret t" "sc_pop st = ret st1"
    and st1: "reached ok (Expect (InSeq # fs)) st st1" "remaining st1 < remaining st"
  let ?Q = "\<lambda>(stop, st'). reached ok (Expect (InSeq # fs)) st st' \<and> (\<not> stop \<longrightarrow> remaining st' < remaining st)"
  have st1': "parsing ok (Expect (InSeq # fs)) st1"
    using st1 by (simp add: reached_def)
  have "runs (bind_run (sc_next_is BLOCK_ENTRY st1) (\<lambda>entry. bind_run (sc_next_is BLOCK_SEQ_END st1) (\<lambda>stop.
      if entry \<or> stop then bind_run (emit_event on (OnNull 0) st1) (\<lambda>st2. ret (False, st2))
      else bind_run (rec st1) (\<lambda>st2. ret (False, st2))))) ?Q parser_fault"
    by (intro runs_bind [of "sc_next_is _ _"] runs_sc_next_is parsingD [OF st1'] runs_if
        runs_bindI [OF runs_null [OF st1']] runs_bindI [OF runs_node [OF rec st1']])
      (use reached_less [OF st1] in auto)
  then show "runs (block_sequence_turn on rec st) ?Q parser_fault"
    using st st1 by (simp add: block_sequence_turn_def)
qed

lemma flow_sequence_turn_ok:
  assumes rec: "parses_node ok rec"
  shows "turn_ok ok (Expect (InSeq # fs)) (flow_sequence_turn rec)"
proof (rule turn_okI)
  show "\<exists>m. flow_sequence_turn rec st = bind_run (sc_empty st) (\<lambda>e. if e then throw (ParserException m) else
      flow_sequence_turn rec st)" if "p_tokens st = []" for st
    using that by (auto simp: flow_sequence_turn_def sc_empty_def split: option.splits)
next
  fix st t ts st1
  assume st: "parsing ok (Expect (InSeq # fs)) st" "p_tokens st = t # ts"
      "sc_empty st = ret False" "sc_peek st = ret t" "sc_pop st = ret st1"
    and st1: "reached ok (Expect (InSeq # fs)) st st1" "remaining st1 < remaining st"
  let ?Q = "\<lambda>(stop, st'). reached ok (Expect (InSeq # fs)) st st' \<and> (\<not> stop \<longrightarrow> remaining st' < remaining st)"
  have "runs (bind_run (rec st) (\<lambda>st1. bind_run (sc_empty st1) (\<lambda>e.
      if e then throw (ParserException ''end of sequence flow not found'') else
      bind_run (sc_peek st1) (\<lambda>tok. if tk_type tok = FLOW_ENTRY then bind_run (sc_pop st1) (\<lambda>st2. ret (False, st2))
      else if tk_type tok \<noteq> FLOW_SEQ_END then throw (ParserException ''end of sequence flow not found'')
      else ret (False, st1))))) ?Q parser_fault" (is "runs (bind_run _ ?rest) _ _") if "tk_type t \<noteq> FLOW_SEQ_END"
  proof (rule runs_bindI [OF runs_node [OF rec st(1)]])
    fix st2
    assume st2: "reached ok (completed (InSeq # fs)) st st2"
    then have "runs (?rest st2) (\<lambda>(stop, st'). reached ok (Expect (InSeq # fs)) st2 st' \<and> \<not> stop
        \<and> (remaining st' < remaining st2 \<or> p_tokens st' = p_tokens st2 \<and> tk_type (hd (p_tokens st2)) = FLOW_SEQ_END)) parser_fault"
      by (intro runs_bind [of "sc_empty _"] runs_sc_empty runs_bind [of "sc_peek _"] runs_sc_peek runs_if
          runs_bindI [OF runs_pop]) (auto simp: reached_def parsing_def)
    then show "runs (?rest st2) ?Q parser_fault"
      by (rule runs_mono)
        (use st2 st that in \<open>auto intro: reached_trans simp: reached_def consumed_def remaining_def\<close>)
  qed
  then show "runs (flow_sequence_turn rec st) ?Q parser_fault"
    using st st1 by (simp add: flow_sequence_turn_def)
qed

lemma block_map_turn_ok:
  assumes rec: "parses_node ok rec"
  shows "turn_ok ok (Expect (AtKey # fs)) (block_map_turn on rec)"
proof (rule turn_okI)
  show "\<exists>m. block_map_turn on rec st = bind_run (sc_empty st) (\<lambda>e. if e then throw (ParserException m) else
      block_map_turn on rec st)" if "p_tokens st = []" for st
    using that by (auto simp: block_map_turn_def sc_empty_def split: option.splits)
next
  fix st t ts st1
  assume st: "parsing ok (Expect (AtKey # fs)) st" "p_tokens st = t # ts"
      "sc_empty st = ret False" "sc_peek st = ret t" "sc_pop st = ret st1"
    and st1: "reached ok (Expect (AtKey # fs)) st st1" "remaining st1 < remaining st"
  let ?Q = "\<lambda>(stop, st'). reached ok (Expect (AtKey # fs)) st st' \<and> (\<not> stop \<longrightarrow> remaining st' < remaining st)"
  have "runs (bind_run (pair_key on rec t st) (\<lambda>st1. bind_run (pair_value on rec st1) (\<lambda>st2. ret (False, st2)))) ?Q parser_fault"
    if "tk_type t = KEY \<or> tk_type t = VALUE"
  proof (rule runs_bindI [OF pair_key_ok [OF rec st(1)]])
    fix st2
    assume st2: "reached ok (Expect (AtVal # fs)) st st2 \<and> (tk_type t = KEY \<longrightarrow> remaining st2 < remaining st)"
    then have "parsing ok (Expect (AtVal # fs)) st2"
      by (simp add: reached_def)
    then show "runs (bind_run (pair_value on rec st2) (\<lambda>st3. ret (False, st3))) ?Q parser_fault"
      by (intro runs_bindI [OF pair_value_ok [OF rec]])
        (use st2 st that in \<open>auto intro: reached_trans simp: reached_def consumed_def remaining_def\<close>)
  qed (use st in \<open>simp add: remaining_def\<close>)
  then show "runs (block_map_turn on rec st) ?Q parser_fault"
    using st st1 by (auto simp: block_map_turn_def)
qed

lemma flow_map_turn_ok:
  assumes rec: "parses_node ok rec"
  shows "turn_ok ok (Expect (AtKey # fs)) (flow_map_turn on rec)"
proof (rule turn_okI)
  show "\<exists>m. flow_map_turn on rec st = bind_run (sc_empty st) (\<lambda>e. if e then throw (ParserException m) else
      flow_map_turn on rec st)" if "p_tokens st = []" for st
    using that by (auto simp: flow_map_turn_def sc_empty_def split: option.splits)
next
  fix st t ts st1
  assume st: "parsing ok (Expect (AtKey # fs)) st" "p_tokens st = t # ts"
      "sc_empty st = ret False" "sc_peek st = ret t" "sc_pop st = ret st1"
    and st1: "reached ok (Expect (AtKey # fs)) st st1" "remaining st1 < remaining st"
  let ?Q = "\<lambda>(stop, st'). reached ok (Expect (AtKey # fs)) st st' \<and> (\<not> stop \<longrightarrow> remaining st' < remaining st)"
  let ?rest = "\<lambda>st2. bind_run (sc_empty st2) (\<lambda>e.
      if e then throw (ParserException ''end of map flow not found'') else
      bind_run (sc_peek st2) (\<lambda>tok. if tk_type tok = FLOW_ENTRY then bind_run (sc_pop st2) (\<lambda>st3. ret (False, st3))
      else if tk_type tok \<noteq> FLOW_MAP_END then throw (ParserException ''end of map flow not found'')
      else ret (False, st2)))"
  have rest: "runs (?rest st2) ?Q parser_fault"
    if "reached ok (Expect (AtKey # fs)) st st2" "tk_type t \<noteq> FLOW_MAP_END" for st2
  proof (rule runs_mono)
    show "runs (?rest st2) (\<lambda>(stop, st'). reached ok (Expect (AtKey # fs)) st2 st' \<and> \<not> stop
        \<and> (remaining st' < remaining st2 \<or> p_tokens st' = p_tokens st2 \<and> tk_type (hd (p_tokens st2)) = FLOW_MAP_END)) parser_fault"
      using that by (intro runs_bind [of "sc_empty _"] runs_sc_empty runs_bind [of "sc_peek _"] runs_sc_peek runs_if
          runs_bindI [OF runs_pop]) (auto simp: reached_def parsing_def)
  qed (use that st in \<open>auto intro: reached_trans simp: reached_def consumed_def remaining_def\<close>)
  have "runs (bind_run (pair_key on rec t st) (\<lambda>st1. bind_run (pair_value on rec st1) ?rest)) ?Q parser_fault"
    if "tk_type t \<noteq> FLOW_MAP_END"
  proof (rule runs_bindI [OF pair_key_ok [OF rec st(1)]])
    fix st2
    assume st2: "reached ok (Expect (AtVal # fs)) st st2 \<and> (tk_type t = KEY \<longrightarrow> remaining st2 < remaining st)"
    then have "parsing ok (Expect (AtVal # fs)) st2"
      by (simp add: reached_def)
    then show "runs (bind_run (pair_value on rec st2) ?rest) ?Q parser_fault"
      by (intro runs_bindI [OF pair_value_ok [OF rec]]) (use st2 that in \<open>auto intro!: rest intro: reached_trans\<close>)
  qed (use st in \<open>simp add: remaining_def\<close>)
  then show "runs (flow_map_turn on rec st) ?Q parser_fault"
    using st st1 by (auto simp: flow_map_turn_def)
qed

text \<open>A bracketed loop: the start token is taken, the collection type is on the stack while the loop runs.\<close>

lemma collection_loop_ok:
  assumes turn: "turn_ok ok c turn" and st: "parsing ok c st" "remaining st > 0"
  shows "runs (bind_run (sc_pop st) (\<lambda>st1. bind_run (repeat turn (PushCollectionType t st1)) (PopCollectionType t)))
    (reached ok c st) parser_fault"
proof (rule runs_bindI [OF runs_pop [OF st]])
  fix st1
  assume st1: "reached ok c st st1 \<and> remaining st1 < remaining st"
  let ?st = "PushCollectionType t st1"
  have "runs (repeat turn ?st) (reached ok c ?st) parser_fault"
  proof (rule runs_repeat [where I = "reached ok c ?st" and m = remaining])
    show "reached ok c ?st ?st"
      using st1 by (simp add: reached_def)
    show "runs (turn s) (\<lambda>(stop, s'). if stop then reached ok c ?st s' else reached ok c ?st s' \<and> remaining s' < remaining s)
        parser_fault" if "reached ok c ?st s" for s
    proof (rule runs_mono)
      show "runs (turn s) (\<lambda>(stop, s'). reached ok c s s' \<and> (\<not> stop \<longrightarrow> remaining s' < remaining s)) parser_fault"
        using turn that unfolding turn_ok_def by (simp add: reached_def [of ok c ?st])
    qed (use that in \<open>auto intro: reached_trans\<close>)
  qed
  then have "runs (bind_run (repeat turn ?st) (PopCollectionType t)) (reached ok c st1) parser_fault"
    by (rule runs_bindI) (rule runs_pop_collection)
  then show "runs (bind_run (repeat turn ?st) (PopCollectionType t)) (reached ok c st) parser_fault"
    by (rule runs_mono) (use st1 in \<open>auto intro: reached_trans\<close>)
qed

lemma HandleSequence_ok:
  assumes rec: "parses_node ok rec" and st: "parsing ok (Expect (InSeq # fs)) st" "remaining st > 0"
  shows "runs (HandleSequence on rec st) (reached ok (Expect (InSeq # fs)) st) parser_fault"
  unfolding HandleSequence_def HandleBlockSequence_def HandleFlowSequence_def
  by (intro runs_bind [of "sc_peek _"] runs_sc_peek runs_if st collection_loop_ok [OF _ st]
      block_sequence_turn_ok [OF rec] flow_sequence_turn_ok [OF rec])
    (use st in \<open>simp add: reached_def\<close>)

lemma HandleCompactMap_ok:
  assumes rec: "parses_node ok rec" and st: "parsing ok (Expect (AtKey # fs)) st" "remaining st > 0"
  shows "runs (HandleCompactMap on rec st) (reached ok (Expect (AtKey # fs)) st) parser_fault"
  unfolding HandleCompactMap_def bind_run_assoc [symmetric, of "sc_pop _" rec]
proof (rule runs_bindI [OF runs_pop_node [OF rec]])
  let ?st = "PushCollectionType CompactMap st"
  show "parsing ok (Expect (AtKey # fs)) ?st" "remaining ?st > 0"
    using st by simp_all
  fix st1
  assume "reached ok (completed (AtKey # fs)) ?st st1 \<and> remaining st1 < remaining ?st"
  then have st1: "reached ok (Expect (AtVal # fs)) ?st st1" "parsing ok (Expect (AtVal # fs)) st1"
    by (simp_all add: reached_def)
  show "runs (bind_run (pair_value on rec st1) (PopCollectionType CompactMap)) (reached ok (Expect (AtKey # fs)) st) parser_fault"
    by (rule runs_bindI [OF pair_value_ok [OF rec st1(2)]])
      (use st1 in \<open>auto intro!: runs_pop_collection intro: reached_trans\<close>)
qed

lemma HandleCompactMapWithNoKey_ok:
  assumes rec: "parses_node ok rec" and st: "parsing ok (Expect (AtKey # fs)) st" "remaining st > 0"
  shows "runs (HandleCompactMapWithNoKey on rec st) (reached ok (Expect (AtKey # fs)) st) parser_fault"
  unfolding HandleCompactMapWithNoKey_def
proof (rule runs_bindI [OF runs_null])
  let ?st = "PushCollectionType CompactMap st"
  show "parsing ok (Expect (AtKey # fs)) ?st"
    using st by simp
  fix st1
  assume "reached ok (completed (AtKey # fs)) ?st st1 \<and> p_tokens st1 = p_tokens ?st"
  then have st1: "reached ok (Expect (AtVal # fs)) ?st st1" "parsing ok (Expect (AtVal # fs)) st1" "remaining st1 > 0"
    using st by (simp_all add: reached_def remaining_def PushCollectionType_def)
  have "runs (bind_run (bind_run (sc_pop st1) rec) (PopCollectionType CompactMap)) (reached ok (Expect (AtKey # fs)) st) parser_fault"
    by (rule runs_bindI [OF runs_pop_node [OF rec st1(2,3)]])
      (use st1 in \<open>auto intro!: runs_pop_collection intro: reached_trans\<close>)
  then show "runs (bind_run (sc_pop st1) (\<lambda>st2. bind_run (rec st2) (PopCollectionType CompactMap)))
      (reached ok (Expect (AtKey # fs)) st) parser_fault"
    by (simp add: bind_run_assoc)
qed

lemma HandleMap_ok:
  assumes rec: "parses_node ok rec" and st: "parsing ok (Expect (AtKey # fs)) st" "remaining st > 0"
  shows "runs (HandleMap on rec st) (reached ok (Expect (AtKey # fs)) st) parser_fault"
  unfolding HandleMap_def HandleBlockMap_def HandleFlowMap_def
  by (intro runs_bind [of "sc_peek _"] runs_sc_peek runs_if st collection_loop_ok [OF _ st]
      block_map_turn_ok [OF rec] flow_map_turn_ok [OF rec] HandleCompactMap_ok [OF rec st]
      HandleCompactMapWithNoKey_ok [OF rec st])
    (use st in \<open>simp add: reached_def\<close>)

text \<open>The parser has read the properties of a node that the handler does not know of yet.\<close>

lemma sequence_node_ok:
  assumes rec: "parses_node ok rec" and st: "wf_parse st" "ok (Expect fs, k) (p_handler st)" "remaining st > 0"
    and anchor: "anchor_opened anchor k = Some (p_curAnchor st)"
  shows "runs (sequence_node on rec tag anchor style st) (reached ok (completed fs) st) parser_fault"
  unfolding sequence_node_def
proof (rule runs_bindI [OF runs_emit_anchor [OF st(1,2), of _ "Expect (InSeq # fs)"]])
  fix st1
  assume "reached ok (Expect (InSeq # fs)) st st1 \<and> p_tokens st1 = p_tokens st"
  then have st1: "reached ok (Expect (InSeq # fs)) st st1" "parsing ok (Expect (InSeq # fs)) st1" "remaining st1 > 0"
    using st by (simp_all add: reached_def remaining_def)
  show "runs (bind_run (HandleSequence on rec st1) (emit_event on OnSequenceEnd)) (reached ok (completed fs) st) parser_fault"
  proof (rule runs_bindI [OF HandleSequence_ok [OF rec st1(2,3)]])
    fix st2
    assume st2: "reached ok (Expect (InSeq # fs)) st1 st2"
    then have "runs (emit_event on OnSequenceEnd st2) (\<lambda>st'. reached ok (completed fs) st2 st' \<and> p_tokens st' = p_tokens st2) parser_fault"
      by (intro runs_emit [of "Expect (InSeq # fs)"]) (simp_all add: reached_def)
    then show "runs (emit_event on OnSequenceEnd st2) (reached ok (completed fs) st) parser_fault"
      by (rule runs_mono) (use st1 st2 in \<open>auto intro: reached_trans\<close>)
  qed
qed (simp add: anchor)

lemma map_node_ok:
  assumes rec: "parses_node ok rec" and st: "wf_parse st" "ok (Expect fs, k) (p_handler st)" "remaining st > 0"
    and anchor: "anchor_opened anchor k = Some (p_curAnchor st)"
  shows "runs (map_node on rec tag anchor style st) (reached ok (completed fs) st) parser_fault"
  unfolding map_node_def
proof (rule runs_bindI [OF runs_emit_anchor [OF st(1,2), of _ "Expect (AtKey # fs)"]])
  fix st1
  assume "reached ok (Expect (AtKey # fs)) st st1 \<and> p_tokens st1 = p_tokens st"
  then have st1: "reached ok (Expect (AtKey # fs)) st st1" "parsing ok (Expect (AtKey # fs)) st1" "remaining st1 > 0"
    using st by (simp_all add: reached_def remaining_def)
  show "runs (bind_run (HandleMap on rec st1) (emit_event on OnMapEnd)) (reached ok (completed fs) st) parser_fault"
  proof (rule runs_bindI [OF HandleMap_ok [OF rec st1(2,3)]])
    fix st2
    assume st2: "reached ok (Expect (AtKey # fs)) st1 st2"
    then have "runs (emit_event on OnMapEnd st2) (\<lambda>st'. reached ok (completed fs) st2 st' \<and> p_tokens st' = p_tokens st2) parser_fault"
      by (intro runs_emit [of "Expect (AtKey # fs)"]) (simp_all add: reached_def)
    then show "runs (emit_event on OnMapEnd st2) (reached ok (completed fs) st) parser_fault"
      by (rule runs_mono) (use st1 st2 in \<open>auto intro: reached_trans\<close>)
  qed
qed (simp add: anchor)

text \<open>A node of one event, without and with its token.\<close>

lemma leaf_ok:
  assumes st: "wf_parse st" "ok (Expect fs, k) (p_handler st)" and e: "advance e (Expect fs, k) = Some (completed fs, p_curAnchor st)"
  shows "runs (emit_event on e st) (reached ok (completed fs) st) parser_fault"
    and "remaining st > 0 \<Longrightarrow> runs (bind_run (emit_event on e st) sc_pop) (reached ok (completed fs) st) parser_fault"
proof -
  note emit_event = runs_emit_anchor [OF st e, of parser_fault]
  show "runs (emit_event on e st) (reached ok (completed fs) st) parser_fault"
    using emit_event by (rule runs_mono) simp_all
  show "runs (bind_run (emit_event on e st) sc_pop) (reached ok (completed fs) st) parser_fault" if "remaining st > 0"
  proof (rule runs_bindI [OF emit_event])
    fix st1
    assume st1: "reached ok (completed fs) st st1 \<and> p_tokens st1 = p_tokens st"
    then have "runs (sc_pop st1) (\<lambda>st'. reached ok (completed fs) st1 st' \<and> remaining st' < remaining st1) parser_fault"
      using that by (intro runs_pop) (simp_all add: reached_def remaining_def)
    then show "runs (sc_pop st1) (reached ok (completed fs) st) parser_fault"
      by (rule runs_mono) (use st1 in \<open>auto intro: reached_trans\<close>)
  qed
qed

lemma node_content_ok:
  assumes rec: "parses_node ok rec" and st: "wf_parse st" "ok (Expect fs, k) (p_handler st)" "remaining st > 0"
    and anchor: "anchor_opened anchor k = Some (p_curAnchor st)"
  shows "runs (node_content on rec tag anchor tok st) (reached ok (completed fs) st) parser_fault"
  unfolding node_content_def
  by (intro runs_if sequence_node_ok [OF assms] map_node_ok [OF assms] leaf_ok [OF st(1,2)] st(3)) (simp_all add: anchor)

lemma node_with_properties_ok:
  assumes rec: "parses_node ok rec" and st: "parsing ok (Expect fs) st"
  shows "runs (node_with_properties ds on rec st) (reached ok (completed fs) st) parser_fault"
  unfolding node_with_properties_def
proof (rule runs_bindI [OF ParseProperties_ok [OF parsingD [OF st]]], clarify)
  fix tag anchor name st1
  assume read: "propertied st (tag, anchor, name, st1)"
  let ?k = "p_curAnchor st"
  let ?I = "\<lambda>st'. wf_parse st' \<and> ok (Expect fs, ?k) (p_handler st') \<and> anchor_opened anchor ?k = Some (p_curAnchor st')
    \<and> p_collections st' = p_collections st \<and> consumed st st'"
  have lift: "runs r (reached ok (completed fs) st) parser_fault"
    if "?I st2" and "runs r (reached ok (completed fs) st2) parser_fault" for r st2
    using that(2) by (rule runs_mono) (use that in \<open>auto simp: reached_def intro: consumed_trans\<close>)
  have "runs (if name \<noteq> [] then emit_event on (OnAnchor name) st1 else ret st1) ?I parser_fault"
    using read st on_ok [of "(Expect fs, ?k)" "p_handler st1" "OnAnchor name"]
    by (auto simp: propertied_def parsing_def emit_event_def consumed_def remaining_def)
  then show "runs (bind_run (if name \<noteq> [] then emit_event on (OnAnchor name) st1 else ret st1) (\<lambda>st2.
      bind_run (sc_empty st2) (\<lambda>e. if e then emit_event on (OnNull anchor) st2 else bind_run (sc_peek st2) (\<lambda>tok.
      if tk_type tok = PLAIN_SCALAR \<and> IsNullString (tk_value tok) then bind_run (emit_event on (OnNull anchor) st2) sc_pop
      else node_content on rec (if tag = [] then (if tk_type tok = NON_PLAIN_SCALAR then ''!'' else ''?'') else tag)
        anchor tok st2)))) (reached ok (completed fs) st) parser_fault"
  proof (rule runs_bindI)
    fix st2
    assume inv: "?I st2"
    then have st2: "wf_parse st2" "ok (Expect fs, ?k) (p_handler st2)" "anchor_opened anchor ?k = Some (p_curAnchor st2)"
      by simp_all
    show "runs (bind_run (sc_empty st2) (\<lambda>e. if e then emit_event on (OnNull anchor) st2 else bind_run (sc_peek st2) (\<lambda>tok.
      if tk_type tok = PLAIN_SCALAR \<and> IsNullString (tk_value tok) then bind_run (emit_event on (OnNull anchor) st2) sc_pop
      else node_content on rec (if tag = [] then (if tk_type tok = NON_PLAIN_SCALAR then ''!'' else ''?'') else tag)
        anchor tok st2))) (reached ok (completed fs) st) parser_fault"
      by (rule lift [OF inv], rule runs_bind, rule runs_sc_empty [OF st2(1)], simp_all)
        (use st2 in \<open>auto intro!: leaf_ok [where k = ?k] node_content_ok [OF rec, where k = ?k] runs_bind [of "sc_peek _"] runs_sc_peek\<close>)
  qed
qed

lemma alias_ok:
  assumes st: "parsing ok (Expect fs) st" "remaining st > 0"
  shows "runs (bind_run (LookupAnchor name st) (\<lambda>a. bind_run (emit_event on (OnAlias a) st) sc_pop))
    (reached ok (completed fs) st) parser_fault"
proof (cases "p_anchors st name")
  case None
  then show ?thesis
    by (simp add: LookupAnchor_def)
next
  case (Some a)
  then have "1 \<le> a" "a \<le> p_curAnchor st"
    using st by (auto simp: parsing_def wf_parse_def)
  then show ?thesis
    using Some st by (auto simp: LookupAnchor_def parsing_def intro!: leaf_ok)
qed

lemma node_body_ok:
  assumes rec: "parses_node ok rec"
  shows "parses_node ok (node_body ds on rec)"
  unfolding parses_node_def node_body_def
proof (intro allI impI)
  fix fs st
  assume st: "parsing ok (Expect fs) st"
  then have st': "wf_parse st" "ok (Expect fs, p_curAnchor st) (p_handler st)"
    by (simp_all add: parsing_def)
  show "runs (bind_run (sc_empty st) (\<lambda>e. if e then emit_event on (OnNull 0) st else bind_run (sc_peek st) (\<lambda>tok.
      if tk_type tok = VALUE then map_node on rec ''?'' 0 Style_Default st
      else if tk_type tok = ALIAS then bind_run (LookupAnchor (tk_value tok) st) (\<lambda>a. bind_run (emit_event on (OnAlias a) st) sc_pop)
      else node_with_properties ds on rec st))) (reached ok (completed fs) st) parser_fault"
    by (rule runs_bind, rule runs_sc_empty [OF st'(1)], simp_all)
      (use st st' in \<open>auto intro!: leaf_ok map_node_ok [OF rec] alias_ok node_with_properties_ok [OF rec]
        runs_bind [of "sc_peek _"] runs_sc_peek\<close>)
qed

lemma HandleNode_ok: "parses_node ok (HandleNode n ds on)"
proof (induction n)
  case 0
  show ?case
    by (simp add: parses_node_def)
next
  case (Suc n)
  have "HandleNode (Suc n) ds on = node_body ds on (HandleNode n ds on)"
    by (rule ext) simp
  then show ?case
    using node_body_ok [OF Suc] by simp
qed

lemma doc_ends_ok:
  assumes "parsing ok c st"
  shows "runs (repeat doc_end_turn st) (reached ok c st) parser_fault"
proof (rule runs_repeat [where I = "reached ok c st" and m = remaining])
  show "reached ok c st st"
    using assms by (simp add: reached_def)
  fix s
  assume s: "reached ok c st s"
  then have s': "parsing ok c s"
    by (simp add: reached_def)
  show "runs (doc_end_turn s) (\<lambda>(stop, s'). if stop then reached ok c st s' else reached ok c st s' \<and> remaining s' < remaining s)
      parser_fault"
    unfolding doc_end_turn_def
    by (rule runs_bind, rule runs_sc_next_is [OF parsingD [OF s']], rule runs_if)
      (use s in \<open>auto intro!: runs_bindI [OF runs_pop [OF s']] intro: reached_trans\<close>)
qed

text \<open>A whole document: the handler has seen exactly one root node, and the collection stack is empty again.\<close>

lemma HandleDocument_ok:
  assumes "parsing ok (Expect []) st" "remaining st > 0" "p_curAnchor st = 0"
  shows "runs (HandleDocument ds on st) (reached ok Finished st) parser_fault"
proof -
  have rest: "runs (bind_run (HandleNode (max_depth - 1) ds on st2) (\<lambda>st3. bind_run (emit_event on OnDocumentEnd st3) (repeat doc_end_turn)))
      (reached ok Finished st) parser_fault" if st2: "reached ok (Expect []) st st2" for st2
  proof (rule runs_bindI [OF runs_node [OF HandleNode_ok]])
    show "parsing ok (Expect []) st2"
      using st2 by (simp add: reached_def)
    fix st3
    assume st3: "reached ok (completed []) st2 st3"
    show "runs (bind_run (emit_event on OnDocumentEnd st3) (repeat doc_end_turn)) (reached ok Finished st) parser_fault"
    proof (rule runs_bindI [OF runs_emit [of Finished]])
      fix st4
      assume st4: "reached ok Finished st3 st4 \<and> p_tokens st4 = p_tokens st3"
      then have "runs (repeat doc_end_turn st4) (reached ok Finished st4) parser_fault"
        by (intro doc_ends_ok) (simp add: reached_def)
      then show "runs (repeat doc_end_turn st4) (reached ok Finished st) parser_fault"
        by (rule runs_mono) (use st2 st3 st4 in \<open>auto intro: reached_trans\<close>)
    qed (use st3 in \<open>simp_all add: reached_def\<close>)
  qed
  have "runs (bind_run (emit_event on OnDocumentStart st) (\<lambda>st1. bind_run (sc_peek st1) (\<lambda>tok.
      bind_run (if tk_type tok = DOC_START then sc_pop st1 else ret st1) (\<lambda>st2.
      bind_run (HandleNode (max_depth - 1) ds on st2) (\<lambda>st3. bind_run (emit_event on OnDocumentEnd st3) (repeat doc_end_turn))))))
      (reached ok Finished st) parser_fault"
  proof (rule runs_bindI [OF runs_emit [OF assms(1), of _ "Expect []"]])
    fix st1
    assume st1: "reached ok (Expect []) st st1 \<and> p_tokens st1 = p_tokens st"
    then have st1': "parsing ok (Expect []) st1" "remaining st1 > 0"
      using assms by (simp_all add: reached_def remaining_def)
    have "runs (if b then sc_pop st1 else ret st1) (reached ok (Expect []) st) parser_fault" for b
      using st1 runs_pop [OF st1', of parser_fault] by (auto elim!: runs_mono intro: reached_trans)
    then show "runs (bind_run (sc_peek st1) (\<lambda>tok. bind_run (if tk_type tok = DOC_START then sc_pop st1 else ret st1) (\<lambda>st2.
        bind_run (HandleNode (max_depth - 1) ds on st2) (\<lambda>st3. bind_run (emit_event on OnDocumentEnd st3) (repeat doc_end_turn)))))
        (reached ok Finished st) parser_fault"
      by (intro runs_bind [of "sc_peek _"] runs_sc_peek st1' runs_bindI [OF _ rest])
  qed simp
  moreover have "sc_empty st = ret False"
    using assms(2) by (simp add: sc_empty_def remaining_def split: list.splits)
  ultimately show ?thesis
    using assms(3) by (simp add: HandleDocument_def)
qed

end

subsection \<open>Documents after directives\<close>

lemma HandleDirective_ok: "runs (HandleDirective tok ds) (\<lambda>_. True) parser_fault"
  by (simp add: HandleDirective_def HandleYamlDirective_def HandleTagDirective_def split: list.splits option.splits)

lemma wf_scan_of: "scan_ok (y_tokens y) (y_end y) \<Longrightarrow> wf_parse (scan_of y h)"
  by (simp add: wf_parse_def scan_of_def)

lemma ParseDirectives_ok:
  assumes "scan_ok (y_tokens y) (y_end y)"
  shows "runs (ParseDirectives y) (\<lambda>y'. scan_ok (y_tokens y') (y_end y')) parser_fault"
  unfolding ParseDirectives_def
proof (rule runs_bindI [OF runs_repeat [where I = "\<lambda>(_, y). scan_ok (y_tokens y) (y_end y)"
        and m = "\<lambda>(_, y). length (y_tokens y)" and Q = "\<lambda>(_, y). scan_ok (y_tokens y) (y_end y)"]])
  show "case (False, y) of (_, y) \<Rightarrow> scan_ok (y_tokens y) (y_end y)"
    using assms by simp
next
  fix s :: "bool \<times> parser"
  obtain rd z where s: "s = (rd, z)"
    by (cases s)
  let ?st = "scan_of z ()"
  assume "case s of (_, y) \<Rightarrow> scan_ok (y_tokens y) (y_end y)"
  then have z: "scan_ok (y_tokens z) (y_end z)" "wf_parse ?st"
    by (simp_all add: s wf_scan_of)
  have more: "runs (bind_run (sc_peek ?st) (\<lambda>tok. bind_run (HandleDirective tok (ds rd)) (\<lambda>ds.
      bind_run (sc_pop ?st) (\<lambda>st. ret (False, True, z\<lparr>y_directives := ds, y_tokens := p_tokens st\<rparr>)))))
      (\<lambda>(stop, _, y). scan_ok (y_tokens y) (y_end y) \<and> \<not> stop \<and> length (y_tokens y) < length (y_tokens z)) parser_fault"
    if "remaining ?st > 0" for ds
    by (intro runs_bind [of "sc_peek _"] runs_sc_peek that runs_bindI [OF HandleDirective_ok] runs_bind [of "sc_pop _"] runs_sc_pop)
      (use z that in \<open>auto simp: scan_of_def remaining_def scan_ok_def neq_Nil_conv\<close>)
  show "runs (directives_turn s) (\<lambda>(stop, s'). if stop then case s' of (_, y) \<Rightarrow> scan_ok (y_tokens y) (y_end y)
      else (case s' of (_, y) \<Rightarrow> scan_ok (y_tokens y) (y_end y)) \<and> (case s' of (_, y) \<Rightarrow> length (y_tokens y)) < (case s of (_, y) \<Rightarrow> length (y_tokens y))) parser_fault"
    unfolding directives_turn_def s prod.case
    by (rule runs_bind, rule runs_sc_next_is [OF z(2)], rule runs_if)
      (use z in \<open>auto intro!: runs_mono [OF more]\<close>)
qed auto

context event_handler
begin

lemma HandleNextDocument_ok:
  assumes "scan_ok (y_tokens y) (y_end y)" "ok (Expect [], 0) h"
  shows "runs (HandleNextDocument on y h)
    (\<lambda>(more, y', h'). scan_ok (y_tokens y') (y_end y') \<and> (if more then \<exists>k. ok (Finished, k) h' else h' = h)) parser_fault"
  unfolding HandleNextDocument_def
proof (rule runs_bindI [OF ParseDirectives_ok [OF assms(1)]])
  fix y1 :: parser
  assume y1: "scan_ok (y_tokens y1) (y_end y1)"
  let ?st = "scan_of y1 h"
  have st: "parsing ok (Expect []) ?st" "p_curAnchor ?st = 0"
    using y1 assms(2) by (simp_all add: parsing_def wf_scan_of) (simp_all add: scan_of_def)
  have "runs (bind_run (HandleDocument ds on ?st) (\<lambda>st. ret (True, y1\<lparr>y_tokens := p_tokens st\<rparr>, p_handler st)))
      (\<lambda>(more, y', h'). scan_ok (y_tokens y') (y_end y') \<and> (if more then \<exists>k. ok (Finished, k) h' else h' = h)) parser_fault"
    if "remaining ?st > 0" for ds
    by (rule runs_bindI [OF HandleDocument_ok [OF st(1) that st(2)]])
      (use y1 in \<open>auto simp: reached_def parsing_def wf_parse_def scan_ok_def\<close>)
  then show "runs (bind_run (sc_empty ?st) (\<lambda>e. if e then ret (False, y1, h) else
      bind_run (HandleDocument (y_directives y1) on ?st) (\<lambda>st. ret (True, y1\<lparr>y_tokens := p_tokens st\<rparr>, p_handler st))))
      (\<lambda>(more, y', h'). scan_ok (y_tokens y') (y_end y') \<and> (if more then \<exists>k. ok (Finished, k) h' else h' = h)) parser_fault"
    using y1 by (intro runs_bind [of "sc_empty _"] runs_sc_empty wf_scan_of) simp_all
qed

end

end
