(* ===== verification/Yaml_Input.thy ===== *)
theory Yaml_Input
  imports "HOL-Library.Sublist" Yaml_Regex Yaml_Parser
begin

text \<open>
  The character input of the YAML scanner and the small routines that read it: \<^verbatim>\<open>src/lib/yaml-cpp/exp.cpp\<close>
  (escape sequences) and \<^verbatim>\<open>scantag.cpp\<close> (tags).

  The scanner reads a \<^verbatim>\<open>Stream\<close> through \<^verbatim>\<open>peek\<close>, \<^verbatim>\<open>get\<close>, \<^verbatim>\<open>eat\<close>, the conversion to \<^verbatim>\<open>bool\<close> and the marks. The
  locale \<open>char_source\<close> says what it relies on: a source \<open>sees\<close> an \<open>input\<close>, which is the decoded text that is left
  and the position. The stream of \<open>Yaml_Stream\<close> is such a source as long as the text does not hold the end marker
  itself (byte 4, which a UTF-8 text may hold and the stream then takes for the end or not, depending on how
  much it has read ahead).
\<close>

section \<open>The input\<close>

record input =
  in_rest :: string
  in_pos :: nat
  in_line :: nat
  in_column :: nat

definition in_good :: "input \<Rightarrow> bool" where
  "in_good i \<longleftrightarrow> in_rest i \<noteq> []"

definition in_peek :: "input \<Rightarrow> char" where
  "in_peek i = first_char (in_rest i)"

definition in_next :: "input \<Rightarrow> input" where
  "in_next i = (let i1 = i\<lparr>in_rest := tl (in_rest i), in_pos := in_pos i + 1\<rparr>
     in if in_peek i = CHR 0x0A then i1\<lparr>in_line := in_line i + 1, in_column := 0\<rparr> else i1\<lparr>in_column := in_column i + 1\<rparr>)"

definition in_get :: "input \<Rightarrow> char \<times> input" where
  "in_get i = (in_peek i, in_next i)"

fun in_get_n :: "nat \<Rightarrow> input \<Rightarrow> string \<times> input" where
  "in_get_n 0 i = ([], i)"
| "in_get_n (Suc n) i = (let (c, i1) = in_get i; (cs, i2) = in_get_n n i1 in (c # cs, i2))"

fun in_eat :: "nat \<Rightarrow> input \<Rightarrow> input" where
  "in_eat 0 i = i"
| "in_eat (Suc n) i = in_eat n (in_next i)"

definition in_reset_column :: "input \<Rightarrow> input" where
  "in_reset_column i = i\<lparr>in_column := 0\<rparr>"

definition in_match :: "regex \<Rightarrow> input \<Rightarrow> nat option" where
  "in_match r i = Match r (in_rest i)"

definition in_matches :: "regex \<Rightarrow> input \<Rightarrow> bool" where
  "in_matches r i \<longleftrightarrow> Matches r (in_rest i)"

definition text_input :: "string \<Rightarrow> input" where
  "text_input cs = \<lparr>in_rest = cs, in_pos = 0, in_line = 0, in_column = 0\<rparr>"

abbreviation left :: "input \<Rightarrow> nat" where
  "left i \<equiv> length (in_rest i)"

lemma in_next_rest [simp]: "in_rest (in_next i) = tl (in_rest i)"
  by (simp add: in_next_def Let_def)

lemma in_get_simps [simp]: "fst (in_get i) = in_peek i" "snd (in_get i) = in_next i"
  by (simp_all add: in_get_def)

lemma in_eat_rest [simp]: "in_rest (in_eat n i) = drop n (in_rest i)"
  by (induction n arbitrary: i) (simp_all add: drop_Suc)

lemma in_get_n_eat: "snd (in_get_n n i) = in_eat n i"
  by (induction n arbitrary: i) (simp_all add: in_get_def case_prod_beta)

lemma in_get_n_chars: "n \<le> left i \<Longrightarrow> fst (in_get_n n i) = take n (in_rest i)"
proof (induction n arbitrary: i)
  case (Suc n)
  then show ?case
    by (cases "in_rest i") (simp_all add: in_get_def case_prod_beta in_peek_def first_char_def)
qed simp

section \<open>Sources of characters\<close>

locale char_source =
  fixes sees :: "'s \<Rightarrow> input \<Rightarrow> bool"
    and peek :: "'s \<Rightarrow> char" and get :: "'s \<Rightarrow> char \<times> 's" and good :: "'s \<Rightarrow> bool" and mark :: "'s \<Rightarrow> nat \<times> nat \<times> nat"
  assumes peek_sees: "sees s i \<Longrightarrow> peek s = in_peek i"
    and good_sees: "sees s i \<Longrightarrow> good s \<longleftrightarrow> in_good i"
    and mark_sees: "sees s i \<Longrightarrow> mark s = (in_pos i, in_line i, in_column i)"
    and get_sees: "sees s i \<Longrightarrow> fst (get s) = in_peek i \<and> sees (snd (get s)) (in_next i)"
begin

lemma iterate_sees: "sees s i \<Longrightarrow> sees (((\<lambda>s. snd (get s)) ^^ n) s) (in_eat n i)"
  by (induction n arbitrary: s i) (simp_all add: get_sees funpow_Suc_right del: funpow.simps(2))

lemma get_all:
  assumes "sees s i"
  shows "map (\<lambda>k. fst (get (((\<lambda>s. snd (get s)) ^^ k) s))) [0..<left i] = in_rest i
    \<and> \<not> good (((\<lambda>s. snd (get s)) ^^ left i) s)"
proof
  have "fst (get (((\<lambda>s. snd (get s)) ^^ k) s)) = in_rest i ! k" if "k < left i" for k
    using get_sees [OF iterate_sees [OF assms, of k]] that
    by (simp add: in_peek_def first_char_def Cons_nth_drop_Suc [symmetric])
  then show "map (\<lambda>k. fst (get (((\<lambda>s. snd (get s)) ^^ k) s))) [0..<left i] = in_rest i"
    by (intro nth_equalityI) simp_all
  show "\<not> good (((\<lambda>s. snd (get s)) ^^ left i) s)"
    using good_sees [OF iterate_sees [OF assms, of "left i"]] by (simp add: in_good_def)
qed

end

text \<open>The stream.\<close>

definition stream_sees :: "stream \<Rightarrow> input \<Rightarrow> bool" where
  "stream_sees s i \<longleftrightarrow> s_readahead s \<noteq> [] \<and> stream_char s = char_at (in_rest i)
     \<and> stream_mark s = (in_pos i, in_line i, in_column i)
     \<and> stream_eof \<notin> set (in_rest i) \<and> (s_good s \<longrightarrow> stream_eof \<notin> set (pending s))"

lemma char_at_0: "char_at cs 0 = first_char cs"
  by (simp add: char_at_def first_char_def split: list.splits)

lemma char_at_tl: "char_at (tl cs) k = char_at cs (Suc k)"
  by (cases cs) (simp_all add: char_at_def)

lemma read_while_good: "s_good (read_while k s) \<Longrightarrow> s_good s"
  by (subst (asm) read_while.simps) (auto split: if_splits)

lemma ReadAheadTo_pending:
  assumes "ReadAheadTo k s = (b, s')"
  shows "stream_char s' = stream_char s" "stream_mark s' = stream_mark s" "s_good s' \<Longrightarrow> s_good s \<and> pending s' = pending s"
    and "s_readahead s \<noteq> [] \<Longrightarrow> s_readahead s' \<noteq> []" "b \<Longrightarrow> s_readahead s' ! k = stream_char s k"
proof -
  let ?s = "read_while k s"
  have s': "s' = (if length (s_readahead s) > k then s
      else if s_good ?s then ?s else ?s\<lparr>s_readahead := s_readahead ?s @ [stream_eof]\<rparr>)"
    and b: "b \<longleftrightarrow> k < length (s_readahead s')"
    using assms by (auto simp: ReadAheadTo_def Let_def split: if_splits)
  have pend: "pending s' = pending s \<or> (\<not> s_good s' \<and> pending s' = pending s @ [stream_eof])"
    using pending_read_while [of k s] by (auto simp: s' pending_def)
  then show char: "stream_char s' = stream_char s"
    by (auto simp: stream_char_def fun_eq_iff nth_append less_Suc_eq)
  show "stream_mark s' = stream_mark s"
    using stream_mark_read_while [of k s] by (auto simp: s' stream_mark_def)
  show "s_good s \<and> pending s' = pending s" if "s_good s'"
    using that pend read_while_good [of k s] by (auto simp: s' split: if_splits)
  show "s_readahead s' ! k = stream_char s k" if b
    using that char b by (metis (no_types, lifting) nth_append pending_def stream_char_def length_append trans_less_add1)
  show "s_readahead s' \<noteq> []" if "s_readahead s \<noteq> []"
    using that read_while_done [of k s] by (auto simp: s' split: if_splits)
qed

lemma stream_sees_bool:
  assumes "stream_sees s i"
  shows "stream_bool s \<longleftrightarrow> in_good i"
proof -
  obtain c cs where c: "s_readahead s = c # cs"
    using assms by (cases "s_readahead s") (auto simp: stream_sees_def)
  then have "first_char (in_rest i) = c"
    using assms char_at_0 [of "in_rest i"] by (auto simp: stream_sees_def stream_char_def pending_def fun_eq_iff dest!: spec [of _ 0])
  moreover have "s_good s \<Longrightarrow> c \<noteq> stream_eof"
    using assms c by (auto simp: stream_sees_def pending_def)
  ultimately show ?thesis
    using assms c by (auto simp: stream_bool_def in_good_def first_char_def stream_sees_def split: list.splits)
qed

lemma stream_sees_get:
  assumes "stream_sees s i"
  shows "stream_sees (snd (stream_get s)) (in_next i)"
proof -
  have ra: "s_readahead s \<noteq> []"
    using assms by (simp add: stream_sees_def)
  obtain c cs where c: "s_readahead s = c # cs"
    using ra by (cases "s_readahead s") auto
  let ?s = "s\<lparr>s_readahead := cs, s_pos := s_pos s + 1\<rparr>" and ?s' = "snd (stream_get s)"
  have "s_good ?s' \<longleftrightarrow> s_good (AdvanceCurrent s)" "pending ?s' = pending (AdvanceCurrent s)"
    by (simp_all add: stream_get_def Let_def pending_def unread_def)
  moreover have "s_good s \<and> pending (AdvanceCurrent s) = pending ?s" if "s_good (AdvanceCurrent s)"
    using ReadAheadTo_pending(3) [OF prod.collapse [symmetric], of 0 ?s] that c by (simp add: AdvanceCurrent_def)
  moreover have "pending s = c # pending ?s"
    using c by (simp add: pending_def unread_def)
  ultimately have "s_good ?s' \<longrightarrow> stream_eof \<notin> set (pending ?s')"
    using assms by (auto simp: stream_sees_def)
  moreover have "stream_eof \<notin> set (tl (in_rest i))"
    using assms by (cases "in_rest i") (auto simp: stream_sees_def)
  ultimately show ?thesis
    using assms stream_get_char [OF ra] char_at_tl [of "in_rest i"]
    by (auto simp: stream_sees_def in_next_def in_peek_def char_at_0 stream_mark_def fun_eq_iff Let_def split: if_splits)
qed

interpretation stream: char_source stream_sees stream_peek stream_get stream_bool stream_mark
proof
  fix s i
  assume s: "stream_sees s i"
  then have ra: "s_readahead s \<noteq> []"
    by (simp add: stream_sees_def)
  then have "stream_peek s = stream_char s 0"
    by (cases "s_readahead s") (auto simp: stream_peek_def stream_char_def pending_def)
  moreover have "stream_char s 0 = in_peek i"
    using s by (simp add: stream_sees_def in_peek_def char_at_0)
  ultimately show "stream_peek s = in_peek i"
      "fst (stream_get s) = in_peek i \<and> stream_sees (snd (stream_get s)) (in_next i)"
    using stream_get_char(1) [OF ra] stream_sees_get [OF s] by simp_all
  show "stream_bool s \<longleftrightarrow> in_good i"
    using s by (rule stream_sees_bool)
  show "stream_mark s = (in_pos i, in_line i, in_column i)"
    using s by (simp add: stream_sees_def)
qed

lemma Stream_ctor_sees:
  assumes "detect bytes = (cs, body)" "stream_eof \<notin> set (decode cs body)"
  shows "stream_sees (Stream_ctor True bytes) (text_input (decode cs body))"
proof -
  let ?start = "\<lparr>s_input = body, s_good = True, s_charSet = cs, s_readahead = [], s_prefetched = [], s_pos = 0, s_line = 0, s_column = 0\<rparr>"
  let ?s = "Stream_ctor True bytes"
  have s: "?s = snd (ReadAheadTo 0 ?start)"
    using assms by (simp add: Stream_ctor_def)
  note start = ReadAheadTo_0 [OF prod.collapse [symmetric], of ?start, folded s]
    ReadAheadTo_pending(3) [OF prod.collapse [symmetric], of 0 ?start, folded s]
  have pend: "pending ?start = decode cs body"
    by (simp add: pending_def unread_def)
  then have "stream_char ?s = char_at (decode cs body)"
    using start(1) by (simp add: stream_char_def char_at_def fun_eq_iff)
  then show ?thesis
    using start pend assms by (auto simp: stream_sees_def text_input_def stream_mark_def)
qed

text \<open>Looking ahead (\<^verbatim>\<open>StreamCharSource\<close>) changes nothing the scanner can see.\<close>

lemma lookahead_sees:
  assumes "stream_sees s i" "ReadAheadTo k s = (b, s')"
  shows "stream_sees s' i" "b \<Longrightarrow> s_readahead s' ! k = char_at (in_rest i) k"
  using assms ReadAheadTo_pending [OF assms(2)] by (auto simp: stream_sees_def)

lemma stream_eat_sees: "stream_sees s i \<Longrightarrow> stream_sees (stream_eat n s) (in_eat n i)"
  by (induction n arbitrary: s i) (simp_all add: stream.get_sees)

section \<open>Reading loops\<close>

text \<open>\<^verbatim>\<open>while (INPUT && P) result += INPUT.get()\<close>\<close>

function get_while :: "(input \<Rightarrow> bool) \<Rightarrow> input \<Rightarrow> string \<times> input" where
  "get_while P i =
     (if in_good i \<and> P i then (let (cs, i') = get_while P (in_next i) in (in_peek i # cs, i')) else ([], i))"
  by auto
termination by (relation "measure (\<lambda>(P, i). left i)") (auto simp: in_good_def)

declare get_while.simps [simp del]

abbreviation eat_while :: "(input \<Rightarrow> bool) \<Rightarrow> input \<Rightarrow> input" where
  "eat_while P i \<equiv> snd (get_while P i)"

lemma get_while_rest: "get_while P i = (cs, i') \<Longrightarrow> in_rest i = cs @ in_rest i'"
proof (induction P i arbitrary: cs rule: get_while.induct)
  case (1 P i)
  show ?case
  proof (cases "in_good i \<and> P i")
    case True
    then obtain ds where ds: "get_while P (in_next i) = (ds, i')" "cs = in_peek i # ds"
      using 1(2) by (subst (asm) get_while.simps) (auto split: prod.splits)
    then show ?thesis
      using 1(1) [OF True ds(1)] True by (cases "in_rest i") (auto simp: in_good_def in_peek_def first_char_def)
  qed (use 1(2) in \<open>simp add: get_while.simps split: if_splits\<close>)
qed

lemma get_while_stops: "\<not> (in_good (eat_while P i) \<and> P (eat_while P i))"
  by (induction P i rule: get_while.induct) (subst (1 2) get_while.simps, auto split: prod.splits)

lemma eat_while_left: "left (eat_while P i) \<le> left i"
  using get_while_rest [of P i "fst (get_while P i)" "eat_while P i"] by simp

lemma left_next: "in_good i \<Longrightarrow> left (in_next i) < left i"
  by (simp add: in_good_def)

section \<open>Escape sequences\<close>

definition INVALID_HEX :: fault where
  "INVALID_HEX = ParserException ''bad character found while scanning hex number''"

definition hex_digit :: "char \<Rightarrow> nat option" where
  "hex_digit ch = (let n = of_char ch in
     if 0x61 \<le> n \<and> n \<le> 0x66 then Some (n - 0x61 + 10)
     else if 0x41 \<le> n \<and> n \<le> 0x46 then Some (n - 0x41 + 10)
     else if 0x30 \<le> n \<and> n \<le> 0x39 then Some (n - 0x30)
     else None)"

primrec ParseHex_from :: "32 word \<Rightarrow> string \<Rightarrow> 32 word run" where
  "ParseHex_from v [] = ret v"
| "ParseHex_from v (ch # cs) = (case hex_digit ch of
     None \<Rightarrow> throw INVALID_HEX
   | Some d \<Rightarrow> ParseHex_from (push_bit 4 v + of_nat d) cs)"

definition ParseHex :: "string \<Rightarrow> 32 word run" where
  "ParseHex s = ParseHex_from 0 s"

definition Str :: "32 word \<Rightarrow> string" where
  "Str ch = [char_of (unat ch)]"

definition Escape_code :: "nat \<Rightarrow> input \<Rightarrow> (string \<times> input) run" where
  "Escape_code codeLength i =
     (let (str, i1) = in_get_n codeLength i in bind_run (ParseHex str) (\<lambda>v.
        if (0xD800 \<le> v \<and> v \<le> 0xDFFF) \<or> v > 0x10FFFF
        then throw (ParserException (''invalid unicode: '' @ dec_nat (unat v)))
        else ret (if v \<le> 0x7F then Str v
          else if v \<le> 0x7FF then Str (0xC0 + drop_bit 6 v) @ Str (0x80 + (v AND 0x3F))
          else if v \<le> 0xFFFF then Str (0xE0 + drop_bit 12 v) @ Str (0x80 + (drop_bit 6 v AND 0x3F)) @ Str (0x80 + (v AND 0x3F))
          else Str (0xF0 + drop_bit 18 v) @ Str (0x80 + (drop_bit 12 v AND 0x3F)) @ Str (0x80 + (drop_bit 6 v AND 0x3F))
            @ Str (0x80 + (v AND 0x3F)), i1)))"

text \<open>The escapes that stand for fixed text.\<close>

definition simple_escape :: "char \<Rightarrow> string option" where
  "simple_escape ch =
     (if ch = CHR ''0'' then Some [CHR 0x00]
      else if ch = CHR ''a'' then Some [CHR 0x07]
      else if ch = CHR ''b'' then Some [CHR 0x08]
      else if ch = CHR ''t'' \<or> ch = CHR 0x09 then Some [CHR 0x09]
      else if ch = CHR ''n'' then Some [CHR 0x0A]
      else if ch = CHR ''v'' then Some [CHR 0x0B]
      else if ch = CHR ''f'' then Some [CHR 0x0C]
      else if ch = CHR ''r'' then Some [CHR 0x0D]
      else if ch = CHR ''e'' then Some [CHR 0x1B]
      else if ch = CHR '' '' then Some '' ''
      else if ch = CHR 0x22 then Some [CHR 0x22]
      else if ch = CHR 0x27 then Some [CHR 0x27]
      else if ch = CHR 0x5C then Some [CHR 0x5C]
      else if ch = CHR ''/'' then Some ''/''
      else if ch = CHR ''N'' then Some [CHR 0x85]
      else if ch = CHR ''_'' then Some [CHR 0xA0]
      else if ch = CHR ''L'' then Some [CHR 0xE2, CHR 0x80, CHR 0xA8]
      else if ch = CHR ''P'' then Some [CHR 0xE2, CHR 0x80, CHR 0xA9]
      else None)"

definition Escape :: "input \<Rightarrow> (string \<times> input) run" where
  "Escape i =
     (let (escape, i1) = in_get i; (ch, i2) = in_get i1
      in if escape = CHR 0x27 \<and> ch = CHR 0x27 then ret ([CHR 0x27], i2)
         else (case simple_escape ch of
           Some s \<Rightarrow> ret (s, i2)
         | None \<Rightarrow>
             if ch = CHR ''x'' then Escape_code 2 i2
             else if ch = CHR ''u'' then Escape_code 4 i2
             else if ch = CHR ''U'' then Escape_code 8 i2
             else throw (ParserException (''unknown escape character: '' @ [ch]))))"

section \<open>Tags\<close>

text \<open>The characters that an expression matches are taken over; \<^verbatim>\<open>n <= 0\<close> is no match.\<close>

definition get_match :: "regex \<Rightarrow> input \<Rightarrow> (string \<times> input) option" where
  "get_match r i = (case in_match r i of
     None \<Rightarrow> None | Some 0 \<Rightarrow> None | Some (Suc n) \<Rightarrow> Some (in_get_n (Suc n) i))"

definition END_OF_VERBATIM_TAG :: fault where
  "END_OF_VERBATIM_TAG = ParserException ''end of verbatim tag not found''"

definition verbatim_turn :: "string \<times> input \<Rightarrow> (bool \<times> string \<times> input) run" where
  "verbatim_turn = (\<lambda>(tag, i).
     if \<not> in_good i then throw END_OF_VERBATIM_TAG
     else if in_peek i = CHR ''>'' then ret (True, tag, in_next i)
     else (case get_match Exp_URI i of
       None \<Rightarrow> throw END_OF_VERBATIM_TAG
     | Some (cs, i') \<Rightarrow> ret (False, tag @ cs, i')))"

definition ScanVerbatimTag :: "input \<Rightarrow> (string \<times> input) run" where
  "ScanVerbatimTag i = repeat verbatim_turn ([], in_next i)"

definition handle_turn :: "string \<times> bool \<times> input \<Rightarrow> (bool \<times> string \<times> bool \<times> input) run" where
  "handle_turn = (\<lambda>(tag, canBeHandle, i).
     if \<not> in_good i then ret (True, tag, canBeHandle, i)
     else if in_peek i = CHR ''!'' then
       (if \<not> canBeHandle then throw (ParserException ''illegal character found while scanning tag handle'')
        else ret (True, tag, canBeHandle, i))
     else
       (let word = (if canBeHandle then get_match Exp_Word i else None);
            can = (canBeHandle \<and> word \<noteq> None)
        in case (if can then word else get_match Exp_Tag i) of
             None \<Rightarrow> ret (True, tag, can, i)
           | Some (cs, i') \<Rightarrow> ret (False, tag @ cs, can, i')))"

definition ScanTagHandle :: "input \<Rightarrow> (string \<times> bool \<times> input) run" where
  "ScanTagHandle i = repeat handle_turn ([], True, i)"

definition suffix_turn :: "string \<times> input \<Rightarrow> (bool \<times> string \<times> input) run" where
  "suffix_turn = (\<lambda>(tag, i).
     if \<not> in_good i then ret (True, tag, i)
     else (case get_match Exp_Tag i of
       None \<Rightarrow> ret (True, tag, i)
     | Some (cs, i') \<Rightarrow> ret (False, tag @ cs, i')))"

definition ScanTagSuffix :: "input \<Rightarrow> (string \<times> input) run" where
  "ScanTagSuffix i = bind_run (repeat suffix_turn ([], i)) (\<lambda>(tag, i').
     if tag = [] then throw (ParserException ''tag handle with no suffix'') else ret (tag, i'))"

section \<open>Every routine returns\<close>

text \<open>Reading leaves a suffix of the text, a shorter one where something is read for certain.\<close>

definition after :: "input \<Rightarrow> input \<Rightarrow> bool" where
  "after i i' \<longleftrightarrow> suffix (in_rest i') (in_rest i)"

definition well_after :: "input \<Rightarrow> input \<Rightarrow> bool" where
  "well_after i i' \<longleftrightarrow> strict_suffix (in_rest i') (in_rest i)"

lemma after_refl [simp]: "after i i"
  by (simp add: after_def)

lemma after_trans [trans]: "after i i' \<Longrightarrow> after i' i'' \<Longrightarrow> after i i''"
  unfolding after_def by (rule suffix_order.trans)

lemma well_after_trans [trans]: "well_after i i' \<Longrightarrow> after i' i'' \<Longrightarrow> well_after i i''"
  unfolding after_def well_after_def by (rule suffix_order.le_less_trans)

lemma after_well_trans [trans]: "after i i' \<Longrightarrow> well_after i' i'' \<Longrightarrow> well_after i i''"
  unfolding after_def well_after_def by (rule suffix_order.less_le_trans)

lemma well_after_left: "well_after i i' \<Longrightarrow> left i' < left i"
  unfolding well_after_def by (rule suffix_length_less)

lemma after_left: "after i i' \<Longrightarrow> left i' \<le> left i"
  unfolding after_def by (rule suffix_length_le)

lemma well_after_after: "well_after i i' \<Longrightarrow> after i i'"
  by (simp add: after_def well_after_def strict_suffix_def)

lemma after_next [simp]: "after i (in_next i)" and after_eat [simp]: "after i (in_eat n i)"
  by (simp_all add: after_def suffix_tl suffix_drop)

lemma after_eat_while [simp]: "after i (eat_while P i)"
  using get_while_rest [of P i "fst (get_while P i)" "eat_while P i"] by (simp add: after_def suffix_def)

lemma well_after_next: "in_good i \<Longrightarrow> well_after i (in_next i)"
  by (simp add: well_after_def in_good_def)

lemma well_after_eat: "in_good i \<Longrightarrow> 0 < n \<Longrightarrow> well_after i (in_eat n i)"
  by (cases n) (auto simp: well_after_def in_good_def drop_Suc intro: drop_strict_suffix)

lemma after_nextI: "after i i' \<Longrightarrow> after i (in_next i')"
  using after_next after_trans by blast

lemma after_eatI: "after i i' \<Longrightarrow> after i (in_eat n i')"
  using after_eat after_trans by blast

lemma after_eat_whileI: "after i i' \<Longrightarrow> after i (eat_while P i')"
  using after_eat_while after_trans by blast

lemma well_afterI: "after i i' \<Longrightarrow> well_after i' i'' \<Longrightarrow> after i i''"
  using well_after_after after_trans by blast

lemma well_after_eat_while:
  assumes "in_good i" "P i"
  shows "well_after i (eat_while P i)"
proof -
  have "eat_while P i = eat_while P (in_next i)"
    using assms by (subst get_while.simps) (simp add: case_prod_beta Let_def)
  then show ?thesis
    using well_after_trans [OF well_after_next [OF assms(1)] after_eat_while] by simp
qed

lemmas reading = well_after_left after_nextI after_eatI after_eat_whileI well_afterI

lemma runs_ParseHex: "runs (ParseHex s) (\<lambda>_. True) parser_fault"
proof -
  have "runs (ParseHex_from v s) (\<lambda>_. True) parser_fault" for v
    by (induction s arbitrary: v) (auto simp: INVALID_HEX_def parser_fault_def split: option.splits)
  then show ?thesis
    by (simp add: ParseHex_def)
qed

lemma runs_Escape_code: "runs (Escape_code n i) (\<lambda>(_, i'). i' = in_eat n i) parser_fault"
  unfolding Escape_code_def Let_def case_prod_beta
  by (rule runs_bindI [OF runs_ParseHex]) (auto simp: parser_fault_def in_get_n_eat)

lemma runs_Escape:
  assumes "in_good i"
  shows "runs (Escape i) (\<lambda>(_, i'). well_after i i') parser_fault"
proof -
  let ?i = "in_next (in_next i)"
  have step: "well_after i (in_eat n ?i)" for n
    using assms by (meson well_after_next after_next after_eat well_after_trans)
  have "runs (Escape_code n ?i) (\<lambda>(_, i'). well_after i i') parser_fault" for n
    by (rule runs_mono [OF runs_Escape_code]) (use step in auto)
  then show ?thesis
    using step [of 0] by (auto simp: Escape_def in_get_def parser_fault_def split: option.splits)
qed

lemma get_match_after: "get_match r i = Some (cs, i') \<Longrightarrow> in_good i \<Longrightarrow> well_after i i' \<and> cs \<noteq> []"
  using well_after_eat [of i "Suc _"] in_get_n_eat [of "Suc _" i]
  by (auto simp: get_match_def in_get_def case_prod_beta split: option.splits nat.splits)

lemma runs_ScanVerbatimTag: "runs (ScanVerbatimTag i) (\<lambda>(_, i'). after i i') parser_fault"
  unfolding ScanVerbatimTag_def
proof (rule runs_repeat [where I = "\<lambda>(_, i'). after i i'" and m = "\<lambda>(_, i). left i"])
  fix s :: "string \<times> input"
  assume "case s of (_, i') \<Rightarrow> after i i'"
  then show "runs (verbatim_turn s) (\<lambda>(stop, s'). if stop then case s' of (_, i') \<Rightarrow> after i i'
      else (case s' of (_, i') \<Rightarrow> after i i') \<and> (case s' of (_, i) \<Rightarrow> left i) < (case s of (_, i) \<Rightarrow> left i)) parser_fault"
    using get_match_after [of Exp_URI "snd s"]
    by (auto simp: verbatim_turn_def parser_fault_def END_OF_VERBATIM_TAG_def split: option.splits)
        (auto intro: reading)
qed simp

lemma runs_ScanTagHandle: "runs (ScanTagHandle i) (\<lambda>(_, _, i'). after i i') parser_fault"
  unfolding ScanTagHandle_def
proof (rule runs_repeat [where I = "\<lambda>(_, _, i'). after i i'" and m = "\<lambda>(_, _, i). left i"])
  fix s :: "string \<times> bool \<times> input"
  assume "case s of (_, _, i') \<Rightarrow> after i i'"
  then show "runs (handle_turn s) (\<lambda>(stop, s'). if stop then case s' of (_, _, i') \<Rightarrow> after i i'
      else (case s' of (_, _, i') \<Rightarrow> after i i') \<and> (case s' of (_, _, i) \<Rightarrow> left i) < (case s of (_, _, i) \<Rightarrow> left i)) parser_fault"
    using get_match_after [of Exp_Tag "snd (snd s)"] get_match_after [of Exp_Word "snd (snd s)"]
    by (auto simp: handle_turn_def parser_fault_def Let_def split: option.splits) (auto intro: reading)
qed simp

lemma runs_ScanTagSuffix: "runs (ScanTagSuffix i) (\<lambda>(tag, i'). after i i' \<and> tag \<noteq> []) parser_fault"
proof -
  have "runs (repeat suffix_turn ([], i)) (\<lambda>(_, i'). after i i') parser_fault"
  proof (rule runs_repeat [where I = "\<lambda>(_, i'). after i i'" and m = "\<lambda>(_, i). left i"])
    fix s :: "string \<times> input"
    assume "case s of (_, i') \<Rightarrow> after i i'"
    then show "runs (suffix_turn s) (\<lambda>(stop, s'). if stop then case s' of (_, i') \<Rightarrow> after i i'
        else (case s' of (_, i') \<Rightarrow> after i i') \<and> (case s' of (_, i) \<Rightarrow> left i) < (case s of (_, i) \<Rightarrow> left i)) parser_fault"
      using get_match_after [of Exp_Tag "snd s"]
      by (auto simp: suffix_turn_def split: option.splits) (auto intro: reading)
  qed simp
  then show ?thesis
    unfolding ScanTagSuffix_def by (rule runs_bindI) (auto simp: parser_fault_def split: prod.splits)
qed

end
