(* ===== verification/Yaml_Scalar.thy ===== *)
theory Yaml_Scalar
  imports Yaml_Input
begin

text \<open>
  Scalars of the YAML scanner (\<^verbatim>\<open>src/lib/yaml-cpp/scanscalar.{h,cpp}\<close>): plain, quoted and block scalars are read by one
  routine, driven by its parameters. A line is read (\<open>scan_line\<close>), its break eaten, the indentation of the next line
  skipped (\<open>skip_indent\<close>) and the break folded or kept (\<open>fold_break\<close>); at the end the scalar is trimmed.

  It returns on every text, throws nothing but \<^verbatim>\<open>ParserException\<close> (\<^verbatim>\<open>std::string::erase\<close> never leaves its range) and reads
  something wherever its end expression does not match.
\<close>

section \<open>Parameters and state\<close>

datatype chomp = STRIP | CLIP | KEEP
datatype action = Act_NONE | Act_BREAK | Act_THROW
datatype folding = DONT_FOLD | FOLD_BLOCK | FOLD_FLOW

record scan_params =
  sp_end :: "regex option"
  sp_eatEnd :: bool
  sp_indent :: int
  sp_detectIndent :: bool
  sp_eatLeadingWhitespace :: bool
  sp_escape :: char
  sp_fold :: folding
  sp_trimTrailingSpaces :: bool
  sp_chomp :: chomp
  sp_onDocIndicator :: action
  sp_onTabInIndentation :: action
  sp_leadingSpaces :: bool

definition ScanScalarParams_ctor :: scan_params where
  "ScanScalarParams_ctor = \<lparr>sp_end = None, sp_eatEnd = False, sp_indent = 0, sp_detectIndent = False,
     sp_eatLeadingWhitespace = False, sp_escape = CHR 0x00, sp_fold = DONT_FOLD, sp_trimTrailingSpaces = False,
     sp_chomp = CLIP, sp_onDocIndicator = Act_NONE, sp_onTabInIndentation = Act_NONE, sp_leadingSpaces = False\<rparr>"

definition end_of :: "scan_params \<Rightarrow> regex" where
  "end_of p = (case sp_end p of None \<Rightarrow> REGEX_EMPTY | Some r \<Rightarrow> r)"

text \<open>The locals of the loop; \<open>None\<close> is \<^verbatim>\<open>std::string::npos\<close>.\<close>

record scalar_state =
  ss_in :: input
  ss_params :: scan_params
  ss_scalar :: string
  ss_foundNonEmptyLine :: bool
  ss_pastOpeningBreak :: bool
  ss_emptyLine :: bool
  ss_moreIndented :: bool
  ss_foldedNewlineCount :: nat
  ss_foldedNewlineStartedMoreIndented :: bool
  ss_lastEscapedChar :: "nat option"
  ss_lastNonWhitespaceChar :: nat
  ss_escapedNewline :: bool

definition erase_from :: "nat \<Rightarrow> string \<Rightarrow> string run" where
  "erase_from pos s = (if pos \<le> length s then ret (take pos s) else throw OutOfRange)"

section \<open>One line\<close>

definition at_doc_indicator :: "input \<Rightarrow> bool" where
  "at_doc_indicator i \<longleftrightarrow> in_column i = 0 \<and> in_matches Exp_DocIndicator i"

definition line_turn :: "scalar_state \<Rightarrow> (bool \<times> scalar_state) run" where
  "line_turn st =
     (let i = ss_in st; p = ss_params st; scalar = ss_scalar st;
          st1 = st\<lparr>ss_foundNonEmptyLine := True, ss_pastOpeningBreak := True\<rparr>
      in if in_matches (end_of p) i \<or> in_matches Exp_Break i then ret (True, st)
         else if \<not> in_good i then ret (True, st)
         else if at_doc_indicator i \<and> sp_onDocIndicator p = Act_BREAK then ret (True, st)
         else if at_doc_indicator i \<and> sp_onDocIndicator p = Act_THROW
         then throw (ParserException ''illegal document indicator in scalar'')
         else if sp_escape p = CHR 0x5C \<and> in_matches Exp_EscBreak i
         then ret (True, st1\<lparr>ss_in := in_next i, ss_lastNonWhitespaceChar := length scalar,
                             ss_lastEscapedChar := Some (length scalar), ss_escapedNewline := True\<rparr>)
         else if in_peek i = sp_escape p
         then bind_run (Escape i) (\<lambda>(cs, i').
           ret (False, st1\<lparr>ss_in := i', ss_scalar := scalar @ cs, ss_lastNonWhitespaceChar := length (scalar @ cs),
                           ss_lastEscapedChar := Some (length (scalar @ cs))\<rparr>))
         else (let ch = in_peek i; scalar1 = scalar @ [ch]; st2 = st1\<lparr>ss_in := in_next i, ss_scalar := scalar1\<rparr>
               in ret (False, if ch \<noteq> CHR '' '' \<and> ch \<noteq> CHR 0x09 then st2\<lparr>ss_lastNonWhitespaceChar := length scalar1\<rparr> else st2)))"

definition scan_line :: "scalar_state \<Rightarrow> scalar_state run" where
  "scan_line st = repeat line_turn (st\<lparr>ss_lastNonWhitespaceChar := length (ss_scalar st), ss_escapedNewline := False\<rparr>)"

section \<open>Between lines\<close>

definition blank_turn :: "scan_params \<Rightarrow> input \<Rightarrow> (bool \<times> input) run" where
  "blank_turn p i =
     (if \<not> in_matches Exp_Blank i then ret (True, i)
      else if in_peek i = CHR 0x09 \<and> int (in_column i) < sp_indent p \<and> sp_onTabInIndentation p = Act_THROW
      then throw (ParserException ''illegal tab when looking for indentation'')
      else if \<not> sp_eatLeadingWhitespace p then ret (True, i)
      else if in_matches (end_of p) i then ret (True, i)
      else ret (False, in_next i))"

definition skip_indent :: "scalar_state \<Rightarrow> scalar_state run" where
  "skip_indent st =
     (let p = ss_params st;
          i1 = eat_while (\<lambda>i. in_peek i = CHR '' ''
             \<and> (int (in_column i) < sp_indent p \<or> (sp_detectIndent p \<and> \<not> ss_foundNonEmptyLine st))
             \<and> \<not> in_matches (end_of p) i) (ss_in st);
          p1 = (if sp_detectIndent p \<and> \<not> ss_foundNonEmptyLine st
                then p\<lparr>sp_indent := max (sp_indent p) (int (in_column i1))\<rparr> else p)
      in bind_run (repeat (blank_turn p1) i1) (\<lambda>i2. ret (st\<lparr>ss_in := i2, ss_params := p1\<rparr>)))"

definition newline :: string where
  "newline = [CHR 0x0A]"

text \<open>What becomes of the line break, given what the next line starts with.\<close>

definition fold_break :: "bool \<Rightarrow> bool \<Rightarrow> scalar_state \<Rightarrow> scalar_state" where
  "fold_break nextEmptyLine nextMoreIndented st =
     (let scalar = ss_scalar st; count = ss_foldedNewlineCount st in
      case sp_fold (ss_params st) of
        DONT_FOLD \<Rightarrow> st\<lparr>ss_scalar := scalar @ newline\<rparr>
      | FOLD_BLOCK \<Rightarrow>
          (let st1 = (if \<not> ss_emptyLine st \<and> \<not> nextEmptyLine \<and> \<not> ss_moreIndented st \<and> \<not> nextMoreIndented
                         \<and> int (in_column (ss_in st)) \<ge> sp_indent (ss_params st)
                      then st\<lparr>ss_scalar := scalar @ '' ''\<rparr>
                      else if nextEmptyLine then st\<lparr>ss_foldedNewlineCount := count + 1\<rparr>
                      else st\<lparr>ss_scalar := scalar @ newline\<rparr>)
           in if \<not> nextEmptyLine \<and> ss_foldedNewlineCount st1 > 0
              then st1\<lparr>ss_scalar := ss_scalar st1 @ replicate (ss_foldedNewlineCount st1 - 1) (CHR 0x0A)
                     @ (if ss_foldedNewlineStartedMoreIndented st1 \<or> nextMoreIndented \<or> \<not> ss_foundNonEmptyLine st1
                        then newline else []),
                   ss_foldedNewlineCount := 0\<rparr>
              else st1)
      | FOLD_FLOW \<Rightarrow>
          (if nextEmptyLine then st\<lparr>ss_scalar := scalar @ newline\<rparr>
           else if \<not> ss_emptyLine st \<and> \<not> ss_escapedNewline st then st\<lparr>ss_scalar := scalar @ '' ''\<rparr>
           else st))"

definition next_line :: "scalar_state \<Rightarrow> (bool \<times> scalar_state) run" where
  "next_line st = bind_run (skip_indent st) (\<lambda>st1.
     let i = ss_in st1; nextEmptyLine = in_matches Exp_Break i; nextMoreIndented = in_matches Exp_Blank i;
         st2 = (if sp_fold (ss_params st1) = FOLD_BLOCK \<and> ss_foldedNewlineCount st1 = 0 \<and> nextEmptyLine
                then st1\<lparr>ss_foldedNewlineStartedMoreIndented := ss_moreIndented st1\<rparr> else st1);
         st3 = (if ss_pastOpeningBreak st2 then fold_break nextEmptyLine nextMoreIndented st2 else st2);
         st4 = st3\<lparr>ss_emptyLine := nextEmptyLine, ss_moreIndented := nextMoreIndented, ss_pastOpeningBreak := True\<rparr>
     in if \<not> nextEmptyLine \<and> int (in_column i) < sp_indent (ss_params st4)
        then ret (True, st4\<lparr>ss_params := (ss_params st4)\<lparr>sp_leadingSpaces := True\<rparr>\<rparr>)
        else ret (False, st4))"

section \<open>The loop\<close>

definition eat_match :: "regex \<Rightarrow> input \<Rightarrow> input" where
  "eat_match r i = (case in_match r i of None \<Rightarrow> i | Some n \<Rightarrow> in_eat n i)"

definition scalar_turn :: "scalar_state \<Rightarrow> (bool \<times> scalar_state) run" where
  "scalar_turn st =
     (if \<not> in_good (ss_in st) then ret (True, st)
      else bind_run (scan_line st) (\<lambda>st1.
        let i = ss_in st1; p = ss_params st1 in
        if \<not> in_good i
        then (if sp_eatEnd p then throw (ParserException ''illegal EOF in scalar'') else ret (True, st1))
        else if sp_onDocIndicator p = Act_BREAK \<and> at_doc_indicator i then ret (True, st1)
        else if in_matches (end_of p) i
        then ret (True, if sp_eatEnd p then st1\<lparr>ss_in := eat_match (end_of p) i\<rparr> else st1)
        else bind_run (if sp_fold p = FOLD_FLOW then erase_from (ss_lastNonWhitespaceChar st1) (ss_scalar st1)
                       else ret (ss_scalar st1)) (\<lambda>scalar.
          next_line (st1\<lparr>ss_scalar := scalar, ss_in := eat_match Exp_Break i\<rparr>))))"

section \<open>Trimming\<close>

definition find_last_not :: "char \<Rightarrow> string \<Rightarrow> nat option" where
  "find_last_not c s = (let k = length (dropWhile (\<lambda>x. x = c) (rev s)) in if k = 0 then None else Some (k - 1))"

text \<open>An escaped character is never trimmed.\<close>

definition keep_escaped :: "nat option \<Rightarrow> nat option \<Rightarrow> nat option" where
  "keep_escaped lastEscapedChar pos = (case lastEscapedChar of
     None \<Rightarrow> pos
   | Some e \<Rightarrow> (case pos of None \<Rightarrow> Some e | Some k \<Rightarrow> if k < e then Some e else Some k))"

definition trim_spaces :: "nat option \<Rightarrow> string \<Rightarrow> string run" where
  "trim_spaces lastEscapedChar s = (case keep_escaped lastEscapedChar (find_last_not (CHR '' '') s) of
     None \<Rightarrow> ret s
   | Some pos \<Rightarrow> if pos < length s then erase_from (pos + 1) s else ret s)"

definition chomp_breaks :: "chomp \<Rightarrow> nat option \<Rightarrow> string \<Rightarrow> string run" where
  "chomp_breaks ch lastEscapedChar s =
     (let pos = keep_escaped lastEscapedChar (find_last_not (CHR 0x0A) s) in
      case ch of
        CLIP \<Rightarrow> (case pos of None \<Rightarrow> ret [] | Some k \<Rightarrow> if k + 1 < length s then erase_from (k + 2) s else ret s)
      | STRIP \<Rightarrow> (case pos of None \<Rightarrow> ret [] | Some k \<Rightarrow> if k < length s then erase_from (k + 1) s else ret s)
      | KEEP \<Rightarrow> ret s)"

definition ScanScalar :: "input \<Rightarrow> scan_params \<Rightarrow> (string \<times> scan_params \<times> input) run" where
  "ScanScalar i p =
     bind_run (repeat scalar_turn
       \<lparr>ss_in = i, ss_params = p\<lparr>sp_leadingSpaces := False, sp_end := Some (end_of p)\<rparr>, ss_scalar = [],
        ss_foundNonEmptyLine = False, ss_pastOpeningBreak = (sp_fold p = FOLD_FLOW), ss_emptyLine = False,
        ss_moreIndented = False, ss_foldedNewlineCount = 0, ss_foldedNewlineStartedMoreIndented = False,
        ss_lastEscapedChar = None, ss_lastNonWhitespaceChar = 0, ss_escapedNewline = False\<rparr>) (\<lambda>st.
     bind_run (if sp_trimTrailingSpaces p then trim_spaces (ss_lastEscapedChar st) (ss_scalar st) else ret (ss_scalar st)) (\<lambda>s.
     bind_run (chomp_breaks (sp_chomp p) (ss_lastEscapedChar st) s) (\<lambda>s'. ret (s', ss_params st, ss_in st))))"

section \<open>Scanning returns\<close>

text \<open>Where the reading of a line stops.\<close>

definition line_over :: "scan_params \<Rightarrow> input \<Rightarrow> bool" where
  "line_over p i \<longleftrightarrow> in_matches (end_of p) i \<or> in_matches Exp_Break i \<or> \<not> in_good i
     \<or> (at_doc_indicator i \<and> sp_onDocIndicator p = Act_BREAK)"

lemma in_matches_EscBreak: "in_matches Exp_EscBreak i \<Longrightarrow> in_matches Exp_Break (in_next i)"
  by (cases "in_rest i") (auto simp: in_matches_def Matches_def Exp_EscBreak_def split: if_splits option.splits)

lemma runs_line_turn:
  assumes "ss_lastNonWhitespaceChar st \<le> length (ss_scalar st)"
  shows "runs (line_turn st) (\<lambda>(stop, st'). ss_lastNonWhitespaceChar st' \<le> length (ss_scalar st') \<and> ss_params st' = ss_params st
    \<and> after (ss_in st) (ss_in st') \<and> (stop \<longrightarrow> line_over (ss_params st) (ss_in st'))
    \<and> (\<not> stop \<or> \<not> line_over (ss_params st) (ss_in st) \<longrightarrow> well_after (ss_in st) (ss_in st'))) parser_fault"
proof (cases "line_over (ss_params st) (ss_in st)")
  case True
  then have "line_turn st = ret (True, st)"
    by (auto simp: line_over_def line_turn_def Let_def)
  then show ?thesis
    using assms True by simp
next
  case False
  let ?i = "ss_in st"
  have good: "in_good ?i" and next_i: "well_after ?i (in_next ?i)"
    using False well_after_next by (auto simp: line_over_def)
  show ?thesis
    unfolding line_turn_def Let_def
    using False assms good next_i in_matches_EscBreak [of ?i] well_after_after [OF next_i]
    by (auto simp: line_over_def parser_fault_def intro!: runs_bindI [OF runs_Escape [OF good]] dest: well_after_after)
qed

lemma runs_scan_line:
  "runs (scan_line st) (\<lambda>st'. ss_lastNonWhitespaceChar st' \<le> length (ss_scalar st') \<and> ss_params st' = ss_params st
    \<and> after (ss_in st) (ss_in st') \<and> line_over (ss_params st) (ss_in st')
    \<and> (line_over (ss_params st) (ss_in st) \<or> well_after (ss_in st) (ss_in st'))) parser_fault"
proof -
  let ?ok = "\<lambda>st'. ss_lastNonWhitespaceChar st' \<le> length (ss_scalar st') \<and> ss_params st' = ss_params st
    \<and> (ss_in st' = ss_in st \<or> well_after (ss_in st) (ss_in st'))"
  show ?thesis
    unfolding scan_line_def
  proof (rule runs_repeat [where I = ?ok and m = "\<lambda>st. left (ss_in st)"])
    fix s :: scalar_state
    assume s: "?ok s"
    then show "runs (line_turn s) (\<lambda>(stop, st'). if stop
        then ss_lastNonWhitespaceChar st' \<le> length (ss_scalar st') \<and> ss_params st' = ss_params st
          \<and> after (ss_in st) (ss_in st') \<and> line_over (ss_params st) (ss_in st')
          \<and> (line_over (ss_params st) (ss_in st) \<or> well_after (ss_in st) (ss_in st'))
        else ?ok st' \<and> left (ss_in st') < left (ss_in s)) parser_fault"
      by (intro runs_mono [OF runs_line_turn])
        (auto dest: well_after_left intro: well_after_trans after_well_trans after_trans well_after_after)
  qed simp
qed

lemma in_matches_Blank: "in_matches Exp_Blank i \<Longrightarrow> in_good i"
  by (simp add: in_matches_def in_good_def)

text \<open>The parameters that a turn of the loop leaves alone.\<close>

definition same_params :: "scan_params \<Rightarrow> scan_params \<Rightarrow> bool" where
  "same_params p p' \<longleftrightarrow> p'\<lparr>sp_indent := sp_indent p, sp_leadingSpaces := sp_leadingSpaces p\<rparr> = p"

lemma same_params_fields:
  assumes "same_params p p'"
  shows "sp_end p' = sp_end p" "sp_eatEnd p' = sp_eatEnd p" "sp_onDocIndicator p' = sp_onDocIndicator p"
  using assms by (cases p; cases p'; simp add: same_params_def)+

lemma same_params_refl [simp]: "same_params p p"
  by (simp add: same_params_def)

lemma same_params_trans: "same_params p p' \<Longrightarrow> same_params p' p'' \<Longrightarrow> same_params p p''"
  by (cases p; cases p'; cases p'') (simp add: same_params_def)

lemma same_params_line_over: "same_params p p' \<Longrightarrow> line_over p' = line_over p"
  by (auto simp: line_over_def end_of_def fun_eq_iff same_params_fields)

lemma runs_skip_indent:
  "runs (skip_indent st) (\<lambda>st'. after (ss_in st) (ss_in st') \<and> same_params (ss_params st) (ss_params st')) parser_fault"
proof -
  have "runs (repeat (blank_turn p) i) (after i) parser_fault" for p i
    by (rule runs_repeat [where I = "after i" and m = left])
      (auto simp: blank_turn_def parser_fault_def in_good_def intro: reading dest: in_matches_Blank)
  then show ?thesis
    unfolding skip_indent_def Let_def
    by (rule runs_bindI) (auto simp: same_params_def intro: after_trans [OF after_eat_while])
qed

lemma fold_break_keeps [simp]: "ss_in (fold_break e m st) = ss_in st" "ss_params (fold_break e m st) = ss_params st"
  by (auto simp: fold_break_def Let_def split: folding.splits)

lemma runs_next_line:
  "runs (next_line st) (\<lambda>(_, st'). after (ss_in st) (ss_in st') \<and> same_params (ss_params st) (ss_params st')) parser_fault"
  unfolding next_line_def
  by (rule runs_bindI [OF runs_skip_indent]) (auto simp: Let_def intro: same_params_trans simp: same_params_def)

lemma in_matches_Break: "in_matches Exp_Break i \<Longrightarrow> well_after i (eat_match Exp_Break i)"
  using Match_Break_length [of "in_rest i"]
  by (auto simp: in_matches_def Matches_def eat_match_def in_match_def in_good_def intro!: well_after_eat)

lemma eat_match_after [simp]: "after i (eat_match r i)"
  by (simp add: eat_match_def split: option.splits)

lemma runs_scalar_turn:
  "runs (scalar_turn st) (\<lambda>(stop, st'). after (ss_in st) (ss_in st') \<and> same_params (ss_params st) (ss_params st')
    \<and> (\<not> stop \<or> \<not> line_over (ss_params st) (ss_in st) \<longrightarrow> well_after (ss_in st) (ss_in st'))) parser_fault"
proof (cases "in_good (ss_in st)")
  case True
  have "runs (bind_run (if b then erase_from k s else ret s) (\<lambda>s. next_line (st1\<lparr>ss_scalar := s, ss_in := i\<rparr>)))
      (\<lambda>(stop, st'). after i (ss_in st') \<and> same_params (ss_params st1) (ss_params st')) parser_fault"
    if "k \<le> length s" for b k s st1 i
    using that runs_next_line [of "st1\<lparr>ss_scalar := s', ss_in := i\<rparr>" for s'] by (simp add: erase_from_def)
  note next_turn = this
  let ?Q = "\<lambda>(stop, st'). after (ss_in st) (ss_in st') \<and> same_params (ss_params st) (ss_params st')
    \<and> (\<not> stop \<or> \<not> line_over (ss_params st) (ss_in st) \<longrightarrow> well_after (ss_in st) (ss_in st'))"
  have "runs (scalar_turn st) ?Q parser_fault"
    unfolding scalar_turn_def Let_def
  proof (simp only: True not_True_eq_False if_False, rule runs_bindI [OF runs_scan_line], elim conjE, intro runs_if)
    fix st1 :: scalar_state
    let ?i = "ss_in st1" and ?p = "ss_params st1"
    assume st1: "ss_lastNonWhitespaceChar st1 \<le> length (ss_scalar st1)" "?p = ss_params st" "after (ss_in st) ?i"
      "line_over (ss_params st) (ss_in st1)" "line_over (ss_params st) (ss_in st) \<or> well_after (ss_in st) ?i"
    show "runs (throw (ParserException ''illegal EOF in scalar'')) ?Q parser_fault"
      by (simp add: parser_fault_def)
    show "runs (ret (True, st1)) ?Q parser_fault" "runs (ret (True, st1)) ?Q parser_fault"
      using st1 by auto
    show "runs (ret (True, if sp_eatEnd ?p then st1\<lparr>ss_in := eat_match (end_of ?p) ?i\<rparr> else st1)) ?Q parser_fault"
      using st1 after_trans [OF st1(3) eat_match_after] well_after_trans [OF _ eat_match_after, of "ss_in st" ?i] by auto
    assume "\<not> \<not> in_good ?i" "\<not> (sp_onDocIndicator ?p = Act_BREAK \<and> at_doc_indicator ?i)" "\<not> in_matches (end_of ?p) ?i"
    then have "in_matches Exp_Break ?i"
      using st1 by (auto simp: line_over_def)
    then have "well_after (ss_in st) (eat_match Exp_Break ?i)"
      using after_well_trans [OF st1(3) in_matches_Break] by blast
    then show "runs (bind_run (if sp_fold ?p = FOLD_FLOW then erase_from (ss_lastNonWhitespaceChar st1) (ss_scalar st1)
        else ret (ss_scalar st1)) (\<lambda>scalar. next_line (st1\<lparr>ss_scalar := scalar, ss_in := eat_match Exp_Break ?i\<rparr>))) ?Q parser_fault"
      by (intro runs_mono [OF next_turn [OF st1(1)]]) (use st1(2) in \<open>auto intro: well_after_trans well_after_after\<close>)
  qed
  then show ?thesis .
qed (simp add: scalar_turn_def line_over_def)

lemma runs_trim_spaces: "runs (trim_spaces e s) (\<lambda>_. True) E"
  by (auto simp: trim_spaces_def erase_from_def split: option.splits)

lemma runs_chomp_breaks: "runs (chomp_breaks c e s) (\<lambda>_. True) E"
  by (auto simp: chomp_breaks_def erase_from_def Let_def split: option.splits chomp.splits)

theorem runs_ScanScalar:
  "runs (ScanScalar i p) (\<lambda>(_, _, i'). after i i' \<and> (line_over p i \<or> well_after i i')) parser_fault"
  unfolding ScanScalar_def
proof (rule runs_bindI [OF runs_repeat])
  let ?p = "p\<lparr>sp_leadingSpaces := False, sp_end := Some (end_of p)\<rparr>"
  let ?I = "\<lambda>st. same_params ?p (ss_params st) \<and> (ss_in st = i \<or> well_after i (ss_in st))"
  let ?Q = "\<lambda>st. after i (ss_in st) \<and> (line_over p i \<or> well_after i (ss_in st))"
  have p: "line_over ?p = line_over p"
    by (simp add: line_over_def end_of_def fun_eq_iff)
  show "runs (scalar_turn st) (\<lambda>(stop, st'). if stop then ?Q st' else ?I st' \<and> left (ss_in st') < left (ss_in st)) parser_fault"
    if "?I st" for st
    using that same_params_line_over [of ?p "ss_params st"] p
    by (intro runs_mono [OF runs_scalar_turn])
      (auto intro: same_params_trans well_after_trans after_well_trans well_after_after after_trans dest: well_after_left)
  fix st
  assume "?Q st"
  then show "runs (bind_run (if sp_trimTrailingSpaces p then trim_spaces (ss_lastEscapedChar st) (ss_scalar st) else ret (ss_scalar st))
      (\<lambda>s. bind_run (chomp_breaks (sp_chomp p) (ss_lastEscapedChar st) s) (\<lambda>s'. ret (s', ss_params st, ss_in st))))
      (\<lambda>(_, _, i'). after i i' \<and> (line_over p i \<or> well_after i i')) parser_fault"
    by (intro runs_bindI [OF runs_chomp_breaks] runs_bindI [where P = "\<lambda>_. True"]) (simp_all add: runs_trim_spaces)
qed simp

text \<open>
  At the end of the text the loop is not entered, and its test for a missing end is not made: a scalar that is cut off
  right after its opening quote is accepted as the empty one.
\<close>

theorem unterminated_scalar_accepted:
  assumes "\<not> in_good i" "sp_eatEnd p"
  shows "\<exists>p'. ScanScalar i p = ret ([], p', i)"
proof -
  have "trim_spaces None [] = ret []" "chomp_breaks c None [] = ret []" for c
    by (simp_all add: trim_spaces_def chomp_breaks_def keep_escaped_def find_last_not_def split: chomp.splits)
  then show ?thesis
    unfolding ScanScalar_def by (subst repeat_unfold) (simp add: scalar_turn_def assms)
qed

end
