(* ===== verification/Yaml_Scanner.thy ===== *)
theory Yaml_Scanner
  imports Yaml_Scalar
begin

text \<open>
  The YAML scanner: \<^verbatim>\<open>src/lib/yaml-cpp/scanner.{h,cpp}\<close>, \<^verbatim>\<open>simplekey.cpp\<close> and \<^verbatim>\<open>scantoken.cpp\<close>.

  A token may be queued before it is known to be one: a potential simple key. The scanner keeps pointers to such
  tokens in the queue and to indentation markers, and validates or invalidates them later. A pointer to a token is its
  number since the start (\<open>sn_popped\<close> is the number of the front of the queue); writing through a pointer to a token
  that has left the queue is \<open>SegFault\<close>. Markers are never freed; a pointer to one is its index.
\<close>

section \<open>State\<close>

datatype token_status = VALID | INVALID | UNVERIFIED

datatype indent_type = MAP | SEQ | NONE
datatype indent_status = Ind_VALID | Ind_INVALID | Ind_UNKNOWN
datatype flow_marker = FLOW_MAP | FLOW_SEQ

record indent_marker =
  im_column :: int
  im_type :: indent_type
  im_status :: indent_status
  im_pStartToken :: "nat option"

definition IndentMarker_ctor :: "int \<Rightarrow> indent_type \<Rightarrow> indent_marker" where
  "IndentMarker_ctor column t = \<lparr>im_column = column, im_type = t, im_status = Ind_VALID, im_pStartToken = None\<rparr>"

record simple_key =
  sk_line :: nat
  sk_pos :: nat
  sk_flowLevel :: nat
  sk_pIndent :: "nat option"
  sk_pMapStart :: "nat option"
  sk_pKey :: "nat option"

record scanner =
  sn_in :: input
  sn_tokens :: "(token \<times> token_status) list"
  sn_popped :: nat
  sn_startedStream :: bool
  sn_endedStream :: bool
  sn_simpleKeyAllowed :: bool
  sn_canBeJSONFlow :: bool
  sn_simpleKeys :: "simple_key list"
  sn_indents :: "nat list"
  sn_indentRefs :: "indent_marker list"
  sn_flows :: "flow_marker list"

definition Scanner_ctor :: "input \<Rightarrow> scanner" where
  "Scanner_ctor i = \<lparr>sn_in = i, sn_tokens = [], sn_popped = 0, sn_startedStream = False, sn_endedStream = False,
     sn_simpleKeyAllowed = False, sn_canBeJSONFlow = False, sn_simpleKeys = [], sn_indents = [], sn_indentRefs = [],
     sn_flows = []\<rparr>"

definition InBlockContext :: "scanner \<Rightarrow> bool" where
  "InBlockContext s \<longleftrightarrow> sn_flows s = []"

abbreviation InFlowContext :: "scanner \<Rightarrow> bool" where
  "InFlowContext s \<equiv> \<not> InBlockContext s"

definition GetFlowLevel :: "scanner \<Rightarrow> nat" where
  "GetFlowLevel s = length (sn_flows s)"

definition push_token :: "token \<Rightarrow> token_status \<Rightarrow> scanner \<Rightarrow> scanner" where
  "push_token tok status s = s\<lparr>sn_tokens := sn_tokens s @ [(tok, status)]\<rparr>"

text \<open>The pointer to the last token of the queue.\<close>

definition last_token :: "scanner \<Rightarrow> nat" where
  "last_token s = sn_popped s + length (sn_tokens s) - 1"

definition set_token_status :: "nat option \<Rightarrow> token_status \<Rightarrow> scanner \<Rightarrow> scanner run" where
  "set_token_status ptr status s = (case ptr of
     None \<Rightarrow> ret s
   | Some k \<Rightarrow>
       if sn_popped s \<le> k \<and> k - sn_popped s < length (sn_tokens s)
       then ret (s\<lparr>sn_tokens := (sn_tokens s)[k - sn_popped s := (fst (sn_tokens s ! (k - sn_popped s)), status)]\<rparr>)
       else throw SegFault)"

definition set_indent_status :: "nat option \<Rightarrow> indent_status \<Rightarrow> scanner \<Rightarrow> scanner run" where
  "set_indent_status ptr status s = (case ptr of
     None \<Rightarrow> ret s
   | Some k \<Rightarrow>
       if k < length (sn_indentRefs s)
       then ret (s\<lparr>sn_indentRefs := (sn_indentRefs s)[k := (sn_indentRefs s ! k)\<lparr>im_status := status\<rparr>]\<rparr>)
       else throw SegFault)"

section \<open>Simple keys\<close>

definition SimpleKey_mark :: "indent_status \<Rightarrow> token_status \<Rightarrow> simple_key \<Rightarrow> scanner \<Rightarrow> scanner run" where
  "SimpleKey_mark ind tok key s =
     bind_run (set_indent_status (sk_pIndent key) ind s) (\<lambda>s1.
     bind_run (set_token_status (sk_pMapStart key) tok s1) (set_token_status (sk_pKey key) tok))"

definition SimpleKey_Validate :: "simple_key \<Rightarrow> scanner \<Rightarrow> scanner run" where
  "SimpleKey_Validate = SimpleKey_mark Ind_VALID VALID"

definition SimpleKey_Invalidate :: "simple_key \<Rightarrow> scanner \<Rightarrow> scanner run" where
  "SimpleKey_Invalidate = SimpleKey_mark Ind_INVALID INVALID"

definition ExistsActiveSimpleKey :: "scanner \<Rightarrow> bool" where
  "ExistsActiveSimpleKey s = (case sn_simpleKeys s of [] \<Rightarrow> False | key # _ \<Rightarrow> sk_flowLevel key = GetFlowLevel s)"

definition CanInsertPotentialSimpleKey :: "scanner \<Rightarrow> bool" where
  "CanInsertPotentialSimpleKey s \<longleftrightarrow> sn_simpleKeyAllowed s \<and> \<not> ExistsActiveSimpleKey s"

definition GetStartTokenFor :: "indent_type \<Rightarrow> token_type run" where
  "GetStartTokenFor t = (case t of SEQ \<Rightarrow> ret BLOCK_SEQ_START | MAP \<Rightarrow> ret BLOCK_MAP_START | NONE \<Rightarrow> throw AssertFailed)"

definition top_indent :: "scanner \<Rightarrow> indent_marker run" where
  "top_indent s = (case sn_indents s of
     [] \<Rightarrow> throw SegFault
   | k # _ \<Rightarrow> if k < length (sn_indentRefs s) then ret (sn_indentRefs s ! k) else throw SegFault)"

definition PushIndentTo :: "nat \<Rightarrow> indent_type \<Rightarrow> scanner \<Rightarrow> (nat option \<times> scanner) run" where
  "PushIndentTo column t s =
     (if InFlowContext s then ret (None, s)
      else bind_run (top_indent s) (\<lambda>lastIndent.
        if int column < im_column lastIndent then ret (None, s)
        else if int column = im_column lastIndent \<and> \<not> (t = SEQ \<and> im_type lastIndent = MAP) then ret (None, s)
        else bind_run (GetStartTokenFor t) (\<lambda>tt.
          let s1 = push_token (Token tt) VALID s;
              indent = (IndentMarker_ctor (int column) t)\<lparr>im_pStartToken := Some (last_token s1)\<rparr>;
              k = length (sn_indentRefs s1)
          in ret (Some k, s1\<lparr>sn_indents := k # sn_indents s1, sn_indentRefs := sn_indentRefs s1 @ [indent]\<rparr>))))"

definition InsertPotentialSimpleKey :: "scanner \<Rightarrow> scanner run" where
  "InsertPotentialSimpleKey s =
     (if \<not> CanInsertPotentialSimpleKey s then ret s
      else
        (let key = \<lparr>sk_line = in_line (sn_in s), sk_pos = in_pos (sn_in s), sk_flowLevel = GetFlowLevel s,
                    sk_pIndent = None, sk_pMapStart = None, sk_pKey = None\<rparr>
         in bind_run
           (if InBlockContext s then
              bind_run (PushIndentTo (in_column (sn_in s)) MAP s) (\<lambda>(pIndent, s1). case pIndent of
                None \<Rightarrow> ret (key, s1)
              | Some k \<Rightarrow>
                  bind_run (set_indent_status (Some k) Ind_UNKNOWN s1) (\<lambda>s2.
                  let start = im_pStartToken (sn_indentRefs s2 ! k) in
                  bind_run (set_token_status start UNVERIFIED s2) (\<lambda>s3.
                  ret (key\<lparr>sk_pIndent := Some k, sk_pMapStart := start\<rparr>, s3))))
            else ret (key, s)) (\<lambda>(key1, s4).
           let s5 = push_token (Token KEY) UNVERIFIED s4
           in ret (s5\<lparr>sn_simpleKeys := key1\<lparr>sk_pKey := Some (last_token s5)\<rparr> # sn_simpleKeys s5\<rparr>))))"

definition InvalidateSimpleKey :: "scanner \<Rightarrow> scanner run" where
  "InvalidateSimpleKey s = (case sn_simpleKeys s of
     [] \<Rightarrow> ret s
   | key # keys \<Rightarrow>
       if sk_flowLevel key \<noteq> GetFlowLevel s then ret s
       else bind_run (SimpleKey_Invalidate key s) (\<lambda>s1. ret (s1\<lparr>sn_simpleKeys := keys\<rparr>)))"

definition VerifySimpleKey :: "scanner \<Rightarrow> (bool \<times> scanner) run" where
  "VerifySimpleKey s = (case sn_simpleKeys s of
     [] \<Rightarrow> ret (False, s)
   | key # keys \<Rightarrow>
       if sk_flowLevel key \<noteq> GetFlowLevel s then ret (False, s)
       else
         (let s1 = s\<lparr>sn_simpleKeys := keys\<rparr>;
              isValid = (\<not> (in_line (sn_in s) \<noteq> sk_line key \<or> int (in_pos (sn_in s)) - int (sk_pos key) > 1024))
          in bind_run (if isValid then SimpleKey_Validate key s1 else SimpleKey_Invalidate key s1) (\<lambda>s2. ret (isValid, s2))))"

definition PopAllSimpleKeys :: "scanner \<Rightarrow> scanner" where
  "PopAllSimpleKeys s = s\<lparr>sn_simpleKeys := []\<rparr>"

section \<open>Indentation\<close>

definition PopIndent :: "scanner \<Rightarrow> scanner run" where
  "PopIndent s = bind_run (top_indent s) (\<lambda>indent.
     let s1 = s\<lparr>sn_indents := tl (sn_indents s)\<rparr>
     in if im_status indent \<noteq> Ind_VALID then InvalidateSimpleKey s1
        else ret (case im_type indent of
          SEQ \<Rightarrow> push_token (Token BLOCK_SEQ_END) VALID s1
        | MAP \<Rightarrow> push_token (Token BLOCK_MAP_END) VALID s1
        | NONE \<Rightarrow> s1))"

definition here_turn :: "scanner \<Rightarrow> (bool \<times> scanner) run" where
  "here_turn s =
     (if sn_indents s = [] then ret (True, s)
      else bind_run (top_indent s) (\<lambda>indent.
        if im_column indent < int (in_column (sn_in s)) then ret (True, s)
        else if im_column indent = int (in_column (sn_in s))
          \<and> \<not> (im_type indent = SEQ \<and> \<not> in_matches Exp_BlockEntry (sn_in s)) then ret (True, s)
        else bind_run (PopIndent s) (\<lambda>s1. ret (False, s1))))"

definition invalid_turn :: "scanner \<Rightarrow> (bool \<times> scanner) run" where
  "invalid_turn s =
     (if sn_indents s = [] then ret (True, s)
      else bind_run (top_indent s) (\<lambda>indent.
        if im_status indent \<noteq> Ind_INVALID then ret (True, s) else bind_run (PopIndent s) (\<lambda>s1. ret (False, s1))))"

definition PopIndentToHere :: "scanner \<Rightarrow> scanner run" where
  "PopIndentToHere s =
     (if InFlowContext s then ret s else bind_run (repeat here_turn s) (repeat invalid_turn))"

definition all_turn :: "scanner \<Rightarrow> (bool \<times> scanner) run" where
  "all_turn s =
     (if sn_indents s = [] then ret (True, s)
      else bind_run (top_indent s) (\<lambda>indent.
        if im_type indent = NONE then ret (True, s) else bind_run (PopIndent s) (\<lambda>s1. ret (False, s1))))"

definition PopAllIndents :: "scanner \<Rightarrow> scanner run" where
  "PopAllIndents s = (if InFlowContext s then ret s else repeat all_turn s)"

definition GetTopIndent :: "scanner \<Rightarrow> int run" where
  "GetTopIndent s = (if sn_indents s = [] then ret 0 else bind_run (top_indent s) (\<lambda>indent. ret (im_column indent)))"

section \<open>Between tokens\<close>

definition IsWhitespaceToBeEaten :: "char \<Rightarrow> bool" where
  "IsWhitespaceToBeEaten ch \<longleftrightarrow> ch = CHR '' '' \<or> ch = CHR 0x09"

definition white_turn :: "scanner \<Rightarrow> (bool \<times> scanner) run" where
  "white_turn s =
     (if in_good (sn_in s) \<and> IsWhitespaceToBeEaten (in_peek (sn_in s))
      then (let s1 = (if InBlockContext s \<and> in_matches Exp_Tab (sn_in s) then s\<lparr>sn_simpleKeyAllowed := False\<rparr> else s)
            in ret (False, s1\<lparr>sn_in := in_next (sn_in s1)\<rparr>))
      else ret (True, s))"

definition eat_comment :: "input \<Rightarrow> input" where
  "eat_comment i = (if in_matches Exp_Comment i then eat_while (\<lambda>i. \<not> in_matches Exp_Break i) i else i)"

definition next_token_turn :: "scanner \<Rightarrow> (bool \<times> scanner) run" where
  "next_token_turn s = bind_run (repeat white_turn s) (\<lambda>s1.
     let s2 = s1\<lparr>sn_in := eat_comment (sn_in s1)\<rparr>
     in if \<not> in_matches Exp_Break (sn_in s2) then ret (True, s2)
        else bind_run (InvalidateSimpleKey (s2\<lparr>sn_in := eat_match Exp_Break (sn_in s2)\<rparr>)) (\<lambda>s3.
          ret (False, if InBlockContext s3 then s3\<lparr>sn_simpleKeyAllowed := True\<rparr> else s3)))"

definition ScanToNextToken :: "scanner \<Rightarrow> scanner run" where
  "ScanToNextToken = repeat next_token_turn"

definition GetValueRegex :: "scanner \<Rightarrow> regex" where
  "GetValueRegex s = (if InBlockContext s then Exp_Value else if sn_canBeJSONFlow s then Exp_ValueInJSONFlow else Exp_ValueInFlow)"

definition StartStream :: "scanner \<Rightarrow> scanner" where
  "StartStream s = s\<lparr>sn_startedStream := True, sn_simpleKeyAllowed := True,
     sn_indents := length (sn_indentRefs s) # sn_indents s,
     sn_indentRefs := sn_indentRefs s @ [IndentMarker_ctor (- 1) NONE]\<rparr>"

definition EndStream :: "scanner \<Rightarrow> scanner run" where
  "EndStream s =
     (let s1 = (if in_column (sn_in s) > 0 then s\<lparr>sn_in := in_reset_column (sn_in s)\<rparr> else s)
      in bind_run (PopAllIndents s1) (\<lambda>s2.
        ret ((PopAllSimpleKeys s2)\<lparr>sn_simpleKeyAllowed := False, sn_endedStream := True\<rparr>)))"

section \<open>Tokens\<close>

definition set_flags :: "bool \<Rightarrow> bool \<Rightarrow> scanner \<Rightarrow> scanner" where
  "set_flags simpleKeyAllowed canBeJSONFlow s = s\<lparr>sn_simpleKeyAllowed := simpleKeyAllowed, sn_canBeJSONFlow := canBeJSONFlow\<rparr>"

text \<open>Read \<open>n\<close> characters, then queue the token.\<close>

definition eat_and_push :: "nat \<Rightarrow> token_type \<Rightarrow> scanner \<Rightarrow> scanner" where
  "eat_and_push n t s = push_token (Token t) VALID (s\<lparr>sn_in := in_eat n (sn_in s)\<rparr>)"

text \<open>The parameters of a directive.\<close>

definition param_turn :: "string list \<times> input \<Rightarrow> (bool \<times> string list \<times> input) run" where
  "param_turn = (\<lambda>(params, i).
     let i1 = eat_while (in_matches Exp_Blank) i
     in if \<not> in_good i1 \<or> in_matches Exp_Break i1 \<or> in_matches Exp_Comment i1 then ret (True, params, i1)
        else (let (param, i2) = get_while (\<lambda>i. \<not> in_matches Exp_BlankOrBreak i) i1 in ret (False, params @ [param], i2)))"

definition ScanDirective :: "scanner \<Rightarrow> scanner run" where
  "ScanDirective s = bind_run (PopAllIndents s) (\<lambda>s1.
     let s2 = set_flags False False (PopAllSimpleKeys s1);
         (name, i1) = get_while (\<lambda>i. \<not> in_matches Exp_BlankOrBreak i) (in_next (sn_in s2))
     in bind_run (repeat param_turn ([], i1)) (\<lambda>(params, i2).
       ret (push_token ((Token DIRECTIVE)\<lparr>tk_value := name, tk_params := params\<rparr>) VALID (s2\<lparr>sn_in := i2\<rparr>))))"

definition ScanDocMark :: "token_type \<Rightarrow> scanner \<Rightarrow> scanner run" where
  "ScanDocMark t s = bind_run (PopAllIndents s) (\<lambda>s1. ret (eat_and_push 3 t (set_flags False False (PopAllSimpleKeys s1))))"

definition ScanDocStart :: "scanner \<Rightarrow> scanner run" where
  "ScanDocStart = ScanDocMark DOC_START"

definition ScanDocEnd :: "scanner \<Rightarrow> scanner run" where
  "ScanDocEnd = ScanDocMark DOC_END"

definition ScanFlowStart :: "scanner \<Rightarrow> scanner run" where
  "ScanFlowStart s = bind_run (InsertPotentialSimpleKey s) (\<lambda>s1.
     let s2 = set_flags True False s1;
         flowType = (if in_peek (sn_in s2) = CHR ''['' then FLOW_SEQ else FLOW_MAP)
     in ret (eat_and_push 1 (if flowType = FLOW_SEQ then FLOW_SEQ_START else FLOW_MAP_START)
          (s2\<lparr>sn_flows := flowType # sn_flows s2\<rparr>)))"

text \<open>A solo entry of a flow collection: a key without a value in a map, no key at all in a sequence.\<close>

definition solo_entry :: "scanner \<Rightarrow> scanner run" where
  "solo_entry s = (case sn_flows s of
     [] \<Rightarrow> ret s
   | FLOW_MAP # _ \<Rightarrow> bind_run (VerifySimpleKey s) (\<lambda>(b, s1). ret (if b then push_token (Token VALUE) VALID s1 else s1))
   | FLOW_SEQ # _ \<Rightarrow> InvalidateSimpleKey s)"

definition FLOW_END :: fault where
  "FLOW_END = ParserException ''illegal flow end''"

definition ScanFlowEnd :: "scanner \<Rightarrow> scanner run" where
  "ScanFlowEnd s =
     (if InBlockContext s then throw FLOW_END
      else bind_run (solo_entry s) (\<lambda>s1.
        let s2 = set_flags False True s1;
            flowType = (if in_peek (sn_in s2) = CHR '']'' then FLOW_SEQ else FLOW_MAP)
        in if hd (sn_flows s2) \<noteq> flowType then throw FLOW_END
           else ret (eat_and_push 1 (if flowType = FLOW_SEQ then FLOW_SEQ_END else FLOW_MAP_END)
             (s2\<lparr>sn_flows := tl (sn_flows s2)\<rparr>))))"

definition ScanFlowEntry :: "scanner \<Rightarrow> scanner run" where
  "ScanFlowEntry s = bind_run (solo_entry s) (\<lambda>s1. ret (eat_and_push 1 FLOW_ENTRY (set_flags True False s1)))"

definition ScanBlockEntry :: "scanner \<Rightarrow> scanner run" where
  "ScanBlockEntry s =
     (if InFlowContext s \<or> \<not> sn_simpleKeyAllowed s then throw (ParserException ''illegal block entry'')
      else bind_run (PushIndentTo (in_column (sn_in s)) SEQ s) (\<lambda>(_, s1).
        ret (eat_and_push 1 BLOCK_ENTRY (set_flags True False s1))))"

definition ScanKey :: "scanner \<Rightarrow> scanner run" where
  "ScanKey s = bind_run
     (if InBlockContext s then
        if \<not> sn_simpleKeyAllowed s then throw (ParserException ''illegal map key'')
        else bind_run (PushIndentTo (in_column (sn_in s)) MAP s) (\<lambda>(_, s1). ret s1)
      else ret s) (\<lambda>s1.
     ret (eat_and_push 1 KEY (s1\<lparr>sn_simpleKeyAllowed := InBlockContext s1\<rparr>)))"

definition ScanValue :: "scanner \<Rightarrow> scanner run" where
  "ScanValue s = bind_run (VerifySimpleKey s) (\<lambda>(isSimpleKey, s1).
     let s2 = s1\<lparr>sn_canBeJSONFlow := False\<rparr> in
     bind_run
       (if isSimpleKey then ret (s2\<lparr>sn_simpleKeyAllowed := False\<rparr>)
        else bind_run
          (if InBlockContext s2 then
             if \<not> sn_simpleKeyAllowed s2 then throw (ParserException ''illegal map value'')
             else bind_run (PushIndentTo (in_column (sn_in s2)) MAP s2) (\<lambda>(_, s3). ret s3)
           else ret s2) (\<lambda>s3. ret (s3\<lparr>sn_simpleKeyAllowed := InBlockContext s3\<rparr>))) (\<lambda>s4.
     ret (eat_and_push 1 VALUE s4)))"

definition ScanAnchorOrAlias :: "scanner \<Rightarrow> scanner run" where
  "ScanAnchorOrAlias s = bind_run (InsertPotentialSimpleKey s) (\<lambda>s1.
     let s2 = set_flags False False s1;
         (indicator, i1) = in_get (sn_in s2);
         alias = (indicator = CHR ''*'');
         (name, i2) = get_while (in_matches Exp_Anchor) i1
     in if name = [] then throw (ParserException (if alias then ''alias not found after *'' else ''anchor not found after &''))
        else if in_good i2 \<and> \<not> in_matches Exp_AnchorEnd i2
        then throw (ParserException (if alias then ''illegal character found while scanning alias''
                                     else ''illegal character found while scanning anchor''))
        else ret (push_token ((Token (if alias then ALIAS else ANCHOR))\<lparr>tk_value := name\<rparr>) VALID (s2\<lparr>sn_in := i2\<rparr>)))"

text \<open>The number of a tag type, as the parser reads it back.\<close>

definition tag_data :: "tag_type \<Rightarrow> nat" where
  "tag_data t = (case t of VERBATIM \<Rightarrow> 0 | PRIMARY_HANDLE \<Rightarrow> 1 | SECONDARY_HANDLE \<Rightarrow> 2 | NAMED_HANDLE \<Rightarrow> 3 | NON_SPECIFIC \<Rightarrow> 4)"

definition scan_tag_token :: "input \<Rightarrow> (token \<times> input) run" where
  "scan_tag_token i =
     (if in_good i \<and> in_peek i = CHR ''<''
      then bind_run (ScanVerbatimTag i) (\<lambda>(tag, i1). ret ((Token TAG)\<lparr>tk_value := tag, tk_data := tag_data VERBATIM\<rparr>, i1))
      else bind_run (ScanTagHandle i) (\<lambda>(handle, canBeHandle, i1).
        let tok = (Token TAG)\<lparr>tk_value := handle, tk_data := tag_data
              (if \<not> canBeHandle \<and> handle = [] then NON_SPECIFIC else if handle = [] then SECONDARY_HANDLE else PRIMARY_HANDLE)\<rparr>
        in if canBeHandle \<and> in_peek i1 = CHR ''!''
           then bind_run (ScanTagSuffix (in_next i1)) (\<lambda>(suffix, i2).
             ret (tok\<lparr>tk_params := tk_params tok @ [suffix], tk_data := tag_data NAMED_HANDLE\<rparr>, i2))
           else ret (tok, i1)))"

definition ScanTag :: "scanner \<Rightarrow> scanner run" where
  "ScanTag s = bind_run (InsertPotentialSimpleKey s) (\<lambda>s1.
     let s2 = set_flags False False s1 in
     bind_run (scan_tag_token (in_next (sn_in s2))) (\<lambda>(tok, i1). ret (push_token tok VALID (s2\<lparr>sn_in := i1\<rparr>))))"

text \<open>The scalars; \<open>plain_params\<close> and \<open>quoted_params\<close> are the parameters set up for \<open>ScanScalar\<close>.\<close>

definition plain_params :: "bool \<Rightarrow> int \<Rightarrow> scan_params" where
  "plain_params flow topIndent = ScanScalarParams_ctor
     \<lparr>sp_end := Some (if flow then Exp_ScanScalarEndInFlow else Exp_ScanScalarEnd), sp_eatEnd := False,
      sp_indent := (if flow then 0 else topIndent + 1), sp_fold := FOLD_FLOW, sp_eatLeadingWhitespace := True,
      sp_trimTrailingSpaces := True, sp_chomp := STRIP, sp_onDocIndicator := Act_BREAK, sp_onTabInIndentation := Act_THROW\<rparr>"

definition ScanPlainScalar :: "scanner \<Rightarrow> scanner run" where
  "ScanPlainScalar s = bind_run (GetTopIndent s) (\<lambda>top.
     let params = plain_params (InFlowContext s) top in
     bind_run (InsertPotentialSimpleKey s) (\<lambda>s1.
     bind_run (ScanScalar (sn_in s1) params) (\<lambda>(scalar, params', i1).
     ret (push_token ((Token PLAIN_SCALAR)\<lparr>tk_value := scalar\<rparr>) VALID
       (set_flags (sp_leadingSpaces params') False (s1\<lparr>sn_in := i1\<rparr>))))))"

definition quoted_params :: "char \<Rightarrow> scan_params" where
  "quoted_params quote =
     (let single = (quote = CHR 0x27) in ScanScalarParams_ctor
      \<lparr>sp_end := Some (if single then re_and (re quote) (re_not Exp_EscSingleQuote) else re quote), sp_eatEnd := True,
       sp_escape := (if single then CHR 0x27 else CHR 0x5C), sp_indent := 0, sp_fold := FOLD_FLOW,
       sp_eatLeadingWhitespace := True, sp_trimTrailingSpaces := False, sp_chomp := CLIP, sp_onDocIndicator := Act_THROW\<rparr>)"

definition ScanQuotedScalar :: "scanner \<Rightarrow> scanner run" where
  "ScanQuotedScalar s =
     (let params = quoted_params (in_peek (sn_in s)) in
      bind_run (InsertPotentialSimpleKey s) (\<lambda>s1.
      bind_run (ScanScalar (in_next (sn_in s1)) params) (\<lambda>(scalar, _, i1).
      ret (push_token ((Token NON_PLAIN_SCALAR)\<lparr>tk_value := scalar\<rparr>) VALID (set_flags False True (s1\<lparr>sn_in := i1\<rparr>))))))"

text \<open>The chomping and indentation indicators of a block scalar.\<close>

fun block_indicators :: "string \<Rightarrow> scan_params \<Rightarrow> scan_params run" where
  "block_indicators [] p = ret p"
| "block_indicators (ch # cs) p =
     (if ch = CHR ''+'' then block_indicators cs (p\<lparr>sp_chomp := KEEP\<rparr>)
      else if ch = CHR ''-'' then block_indicators cs (p\<lparr>sp_chomp := STRIP\<rparr>)
      else if Matches Exp_Digit [ch] then
        if ch = CHR ''0'' then throw (ParserException ''cannot set zero indentation for a block scalar'')
        else block_indicators cs (p\<lparr>sp_indent := of_char ch - 48, sp_detectIndent := False\<rparr>)
      else block_indicators cs p)"

definition ScanBlockScalar :: "scanner \<Rightarrow> scanner run" where
  "ScanBlockScalar s =
     (let (indicator, i1) = in_get (sn_in s);
          params = ScanScalarParams_ctor\<lparr>sp_indent := 1, sp_detectIndent := True,
            sp_fold := (if indicator = CHR ''>'' then FOLD_BLOCK else DONT_FOLD), sp_chomp := CLIP\<rparr>;
          (cs, i2) = in_get_n (case in_match Exp_Chomp i1 of None \<Rightarrow> 0 | Some n \<Rightarrow> n) i1
      in bind_run (block_indicators cs params) (\<lambda>params1.
        let i3 = eat_comment (eat_while (in_matches Exp_Blank) i2)
        in if in_good i3 \<and> \<not> in_matches Exp_Break i3 then throw (ParserException ''unexpected character in block scalar'')
           else bind_run (GetTopIndent s) (\<lambda>top.
             let params2 = params1\<lparr>sp_indent := (if top \<ge> 0 then sp_indent params1 + top else sp_indent params1),
                   sp_eatLeadingWhitespace := False, sp_trimTrailingSpaces := False, sp_onTabInIndentation := Act_THROW\<rparr>
             in bind_run (ScanScalar i3 params2) (\<lambda>(scalar, _, i4).
               ret (push_token ((Token NON_PLAIN_SCALAR)\<lparr>tk_value := scalar\<rparr>) VALID (set_flags True False (s\<lparr>sn_in := i4\<rparr>)))))))"

section \<open>The scanner\<close>

definition scan_token :: "scanner \<Rightarrow> scanner run" where
  "scan_token s =
     (let i = sn_in s; c = in_peek i in
      if \<not> in_good i then EndStream s
      else if in_column i = 0 \<and> c = CHR ''%'' then ScanDirective s
      else if in_column i = 0 \<and> in_matches Exp_DocStart i then ScanDocStart s
      else if in_column i = 0 \<and> in_matches Exp_DocEnd i then ScanDocEnd s
      else if c = CHR ''['' \<or> c = CHR ''{'' then ScanFlowStart s
      else if c = CHR '']'' \<or> c = CHR ''}'' then ScanFlowEnd s
      else if c = CHR '','' then ScanFlowEntry s
      else if in_matches Exp_BlockEntry i then ScanBlockEntry s
      else if in_matches (if InBlockContext s then Exp_Key else Exp_KeyInFlow) i then ScanKey s
      else if in_matches (GetValueRegex s) i then ScanValue s
      else if c = CHR ''*'' \<or> c = CHR ''&'' then ScanAnchorOrAlias s
      else if c = CHR ''!'' then ScanTag s
      else if InBlockContext s \<and> (c = CHR ''|'' \<or> c = CHR ''>'') then ScanBlockScalar s
      else if c = CHR 0x27 \<or> c = CHR 0x22 then ScanQuotedScalar s
      else if in_matches (if InBlockContext s then Exp_PlainScalar else Exp_PlainScalarInFlow) i then ScanPlainScalar s
      else throw (ParserException ''unknown token''))"

definition ScanNextToken :: "scanner \<Rightarrow> scanner run" where
  "ScanNextToken s =
     (if sn_endedStream s then ret s
      else if \<not> sn_startedStream s then ret (StartStream s)
      else bind_run (ScanToNextToken s) (\<lambda>s1. bind_run (PopIndentToHere s1) scan_token))"

definition pop_token :: "scanner \<Rightarrow> scanner" where
  "pop_token s = s\<lparr>sn_tokens := tl (sn_tokens s), sn_popped := sn_popped s + 1\<rparr>"

definition ensure_turn :: "scanner \<Rightarrow> (bool \<times> scanner) run" where
  "ensure_turn s = (case sn_tokens s of
     (_, VALID) # _ \<Rightarrow> ret (True, s)
   | (_, INVALID) # _ \<Rightarrow> ret (False, pop_token s)
   | _ \<Rightarrow> if sn_endedStream s then ret (True, s) else bind_run (ScanNextToken s) (\<lambda>s1. ret (False, s1)))"

definition EnsureTokensInQueue :: "scanner \<Rightarrow> scanner run" where
  "EnsureTokensInQueue = repeat ensure_turn"

definition Scanner_empty :: "scanner \<Rightarrow> (bool \<times> scanner) run" where
  "Scanner_empty s = bind_run (EnsureTokensInQueue s) (\<lambda>s1. ret (sn_tokens s1 = [], s1))"

definition Scanner_pop :: "scanner \<Rightarrow> scanner run" where
  "Scanner_pop s = bind_run (EnsureTokensInQueue s) (\<lambda>s1. ret (if sn_tokens s1 = [] then s1 else pop_token s1))"

definition Scanner_peek :: "scanner \<Rightarrow> (token \<times> scanner) run" where
  "Scanner_peek s = bind_run (EnsureTokensInQueue s) (\<lambda>s1. case sn_tokens s1 of
     [] \<Rightarrow> throw AssertFailed
   | (tok, _) # _ \<Rightarrow> ret (tok, s1))"

end
