(* ===== verification/Yaml_Load.thy ===== *)
theory Yaml_Load
  imports Yaml_Parser
begin

text \<open>
  Loading a document: the parser of \<open>Yaml_Parser\<close> with the builder of \<open>Yaml_Node\<close> as its handler
  (\<^verbatim>\<open>src/lib/yaml-cpp/parse.cpp\<close>).

  \<open>tokens_of\<close> writes a document as the scanner delivers it. Parsing these tokens calls the handler with
  \<open>events_of\<close> the document, in that order, whatever the handler is (\<open>HandleNode_document\<close>); with the builder,
  the graph that results represents the document's value.
\<close>

section \<open>Tokens of a document\<close>

definition scalar_token :: "token_type \<Rightarrow> string \<Rightarrow> token" where
  "scalar_token t s = (Token t)\<lparr>tk_value := s\<rparr>"

lemma tk_type_Token [simp]: "tk_type (Token t) = t"
  by (simp add: Token_def)

fun join :: "'a \<Rightarrow> 'a list list \<Rightarrow> 'a list" where
  "join sep [] = []"
| "join sep [xs] = xs"
| "join sep (xs # ys # zss) = xs @ sep # join sep (ys # zss)"

fun tokens_of :: "doc \<Rightarrow> token list" where
  "tokens_of DNull = [scalar_token PLAIN_SCALAR ''~'']"
| "tokens_of (DPlain s) = [scalar_token PLAIN_SCALAR s]"
| "tokens_of (DQuoted s) = [scalar_token NON_PLAIN_SCALAR s]"
| "tokens_of (DSeq fl ds) =
     (if fl then Token FLOW_SEQ_START # join (Token FLOW_ENTRY) (map tokens_of ds) @ [Token FLOW_SEQ_END]
      else Token BLOCK_SEQ_START # concat (map (\<lambda>d. Token BLOCK_ENTRY # tokens_of d) ds) @ [Token BLOCK_SEQ_END])"
| "tokens_of (DMap fl kvs) =
     (if fl then Token FLOW_MAP_START #
        join (Token FLOW_ENTRY) (map (\<lambda>(k, v). Token KEY # tokens_of k @ Token VALUE # tokens_of v) kvs) @ [Token FLOW_MAP_END]
      else Token BLOCK_MAP_START #
        concat (map (\<lambda>(k, v). Token KEY # tokens_of k @ Token VALUE # tokens_of v) kvs) @ [Token BLOCK_MAP_END])"

fun nesting :: "doc \<Rightarrow> nat" where
  "nesting (DSeq _ ds) = Suc (Max (insert 0 (set (map nesting ds))))"
| "nesting (DMap _ kvs) = Suc (Max (insert 0 (set (map (\<lambda>(k, v). max (nesting k) (nesting v)) kvs))))"
| "nesting _ = 1"

text \<open>A plain scalar must not be one of the words for null.\<close>

fun writable :: "doc \<Rightarrow> bool" where
  "writable (DPlain s) \<longleftrightarrow> \<not> IsNullString s"
| "writable (DSeq _ ds) \<longleftrightarrow> (\<forall>d \<in> set ds. writable d)"
| "writable (DMap _ kvs) \<longleftrightarrow> (\<forall>(k, v) \<in> set kvs. writable k \<and> writable v)"
| "writable _ \<longleftrightarrow> True"

section \<open>Replaying events\<close>

text \<open>The parser after it has called the handler with \<open>es\<close> and left the tokens \<open>rest\<close>.\<close>

definition replay :: "(event \<Rightarrow> 'h \<Rightarrow> 'h result) \<Rightarrow> event list \<Rightarrow> token list \<Rightarrow> 'h pstate \<Rightarrow> 'h pstate run" where
  "replay on es rest st = bind_run (Some (fold_result on es (p_handler st))) (\<lambda>h. ret (st\<lparr>p_tokens := rest, p_handler := h\<rparr>))"

lemma replay_bind:
  assumes "\<And>h. f (st\<lparr>p_tokens := r, p_handler := h\<rparr>) = replay on es' r' (st\<lparr>p_tokens := r, p_handler := h\<rparr>)"
  shows "bind_run (replay on es r st) f = replay on (es @ es') r' st"
  using assms by (cases "fold_result on es (p_handler st)") (simp_all add: replay_def fold_result_append)

lemma replay_bind_update:
  assumes "\<And>h. f (st\<lparr>p_tokens := r, p_handler := h\<rparr>) = ret (g (st\<lparr>p_tokens := r, p_handler := h\<rparr>))"
  shows "bind_run (replay on es r st) f = bind_run (replay on es r st) (\<lambda>st'. ret (g st'))"
  using assms by (cases "fold_result on es (p_handler st)") (simp_all add: replay_def)

lemma p_update_swap: "st\<lparr>p_handler := h, p_tokens := ts\<rparr> = st\<lparr>p_tokens := ts, p_handler := h\<rparr>"
  by (cases st) simp

lemma emit_replay: "emit_event on e st = replay on [e] (p_tokens st) st"
  by (cases "on e (p_handler st)") (simp_all add: emit_event_def replay_def)

definition replays_doc :: "(event \<Rightarrow> 'h \<Rightarrow> 'h result) \<Rightarrow> ('h pstate \<Rightarrow> 'h pstate run) \<Rightarrow> doc \<Rightarrow> bool" where
  "replays_doc on rec d \<longleftrightarrow> (\<forall>st rest. p_tokens st = tokens_of d @ rest \<longrightarrow> rec st = replay on (events_of d) rest st)"

definition starts_node :: "token_type \<Rightarrow> bool" where
  "starts_node t \<longleftrightarrow> t \<in> {PLAIN_SCALAR, NON_PLAIN_SCALAR, FLOW_SEQ_START, BLOCK_SEQ_START, FLOW_MAP_START, BLOCK_MAP_START}"

lemma tokens_of_Cons:
  obtains t ts where "tokens_of d = t # ts" "starts_node (tk_type t)"
proof -
  have "\<exists>t ts. tokens_of d = t # ts \<and> starts_node (tk_type t)"
    by (cases d) (auto simp: starts_node_def scalar_token_def Token_def)
  then show ?thesis
    using that by blast
qed

lemma scan_Cons [simp]:
  "p_tokens st = t # ts \<Longrightarrow> sc_empty st = ret False"
  "p_tokens st = t # ts \<Longrightarrow> sc_peek st = ret t"
  "p_tokens st = t # ts \<Longrightarrow> sc_pop st = ret (st\<lparr>p_tokens := ts\<rparr>)"
  "p_tokens st = t # ts \<Longrightarrow> sc_next_is k st = ret (tk_type t = k)"
  by (simp_all add: sc_empty_def sc_peek_def sc_pop_def sc_next_is_def)

lemma starts_node_plain: "starts_node t \<Longrightarrow> t \<notin> {TAG, ANCHOR, VALUE, ALIAS}"
  by (auto simp: starts_node_def)

lemma node_body_plain:
  assumes "p_tokens st = t # ts" "tk_type t \<notin> {TAG, ANCHOR, VALUE, ALIAS}"
  shows "node_body ds on rec st =
    (if tk_type t = PLAIN_SCALAR \<and> IsNullString (tk_value t) then bind_run (emit_event on (OnNull 0) st) sc_pop
     else node_content on rec (if tk_type t = NON_PLAIN_SCALAR then ''!'' else ''?'') 0 t st)"
proof -
  have "ParseProperties ds st = ret ([], 0, [], st)"
    using assms unfolding ParseProperties_def by (subst repeat_unfold) (simp add: properties_turn_def)
  then show ?thesis
    using assms by (simp add: node_body_def node_with_properties_def)
qed

lemmas node_body_start = node_body_plain [OF _ starts_node_plain]

lemma emit_pop:
  assumes "p_tokens st = t # ts"
  shows "bind_run (emit_event on e st) sc_pop = replay on [e] ts st"
  using assms by (cases "on e (p_handler st)") (simp_all add: emit_event_def replay_def sc_pop_def p_update_swap)

subsection \<open>Sequences\<close>

lemma replay_block_sequence:
  assumes "\<forall>d \<in> set ds. replays_doc on rec d"
    and "p_tokens st = concat (map (\<lambda>d. Token BLOCK_ENTRY # tokens_of d) ds) @ Token BLOCK_SEQ_END # rest"
  shows "repeat (block_sequence_turn on rec) st = replay on (concat (map events_of ds)) rest st"
  using assms
proof (induction ds arbitrary: st)
  case Nil
  then show ?case
    by (subst repeat_unfold) (simp add: block_sequence_turn_def Token_def replay_def)
next
  case (Cons d ds)
  let ?r = "concat (map (\<lambda>d. Token BLOCK_ENTRY # tokens_of d) ds) @ Token BLOCK_SEQ_END # rest"
  obtain t ts where t: "tokens_of d = t # ts" "starts_node (tk_type t)"
    by (rule tokens_of_Cons)
  let ?st1 = "st\<lparr>p_tokens := tokens_of d @ ?r\<rparr>"
  have next_tok: "sc_next_is k ?st1 = ret (tk_type t = k)" for k
    using t(1) by (intro scan_Cons(4)) simp
  have "rec ?st1 = replay on (events_of d) ?r ?st1"
    using Cons.prems(1) by (simp add: replays_doc_def)
  moreover have "repeat (block_sequence_turn on rec) (?st1\<lparr>p_tokens := ?r, p_handler := h\<rparr>) =
      replay on (concat (map events_of ds)) rest (?st1\<lparr>p_tokens := ?r, p_handler := h\<rparr>)" for h
    using Cons.prems(1) by (intro Cons.IH) simp_all
  ultimately have "bind_run (rec ?st1) (repeat (block_sequence_turn on rec)) =
      replay on (events_of d @ concat (map events_of ds)) rest ?st1"
    by (simp only: replay_bind)
  moreover have "block_sequence_turn on rec st = bind_run (rec ?st1) (\<lambda>st2. ret (False, st2))"
    using Cons.prems(2) t by (auto simp: block_sequence_turn_def next_tok Token_def starts_node_def)
  ultimately show ?case
    by (subst repeat_unfold) (simp add: bind_run_assoc, simp add: replay_def)
qed

lemma replay_tokens [simp]: "replay on es rest (st\<lparr>p_tokens := r\<rparr>) = replay on es rest st"
  by (simp add: replay_def)

text \<open>A turn of a flow collection replays \<open>es\<close> when \<open>x\<close> is before the separator or the end.\<close>

definition flow_turn_replays ::
    "(event \<Rightarrow> 'h \<Rightarrow> 'h result) \<Rightarrow> token_type \<Rightarrow> ('h pstate \<Rightarrow> (bool \<times> 'h pstate) run) \<Rightarrow> token list \<Rightarrow> event list \<Rightarrow> bool" where
  "flow_turn_replays on stop turn x es \<longleftrightarrow> (\<forall>st r. (p_tokens st = x @ Token FLOW_ENTRY # r \<longrightarrow>
       turn st = bind_run (replay on es r st) (\<lambda>st'. ret (False, st')))
     \<and> (p_tokens st = x @ Token stop # r \<longrightarrow>
       turn st = bind_run (replay on es (Token stop # r) st) (\<lambda>st'. ret (False, st'))))"

lemma replay_flow:
  assumes "list_all2 (flow_turn_replays on stop turn) xs ess"
    and stop: "\<And>st r. p_tokens st = Token stop # r \<Longrightarrow> turn st = ret (True, st\<lparr>p_tokens := r\<rparr>)"
    and "p_tokens st = join (Token FLOW_ENTRY) xs @ Token stop # rest"
  shows "repeat turn st = replay on (concat ess) rest st"
  using assms(1,3)
proof (induction "Token FLOW_ENTRY" xs arbitrary: ess st rule: join.induct)
  case 1
  then show ?case
    by (subst repeat_unfold) (simp add: stop replay_def)
next
  case (2 x)
  then obtain es where es: "ess = [es]" "flow_turn_replays on stop turn x es"
    by (auto simp: list_all2_Cons1)
  then have turn: "turn st = bind_run (replay on es (Token stop # rest) st) (\<lambda>st'. ret (False, st'))"
    using 2 by (simp add: flow_turn_replays_def)
  have "repeat turn (st\<lparr>p_tokens := Token stop # rest, p_handler := h\<rparr>) =
      replay on [] rest (st\<lparr>p_tokens := Token stop # rest, p_handler := h\<rparr>)" for h
    by (subst repeat_unfold) (simp add: stop replay_def p_update_swap)
  then have "bind_run (replay on es (Token stop # rest) st) (repeat turn) = replay on (es @ []) rest st"
    by (rule replay_bind)
  then show ?case
    by (subst repeat_unfold) (simp add: turn bind_run_assoc es)
next
  case (3 x y zs)
  then obtain es ess' where es: "ess = es # ess'" "flow_turn_replays on stop turn x es"
      "list_all2 (flow_turn_replays on stop turn) (y # zs) ess'"
    by (auto simp: list_all2_Cons1)
  let ?r = "join (Token FLOW_ENTRY) (y # zs) @ Token stop # rest"
  have turn: "turn st = bind_run (replay on es ?r st) (\<lambda>st'. ret (False, st'))"
    using 3 es by (simp add: flow_turn_replays_def)
  have "repeat turn (st\<lparr>p_tokens := ?r, p_handler := h\<rparr>) = replay on (concat ess') rest (st\<lparr>p_tokens := ?r, p_handler := h\<rparr>)" for h
    using es by (intro "3.hyps") simp_all
  then have "bind_run (replay on es ?r st) (repeat turn) = replay on (es @ concat ess') rest st"
    by (rule replay_bind)
  then show ?case
    by (subst repeat_unfold) (simp add: turn bind_run_assoc es)
qed

lemma flow_sequence_turn_replays:
  assumes "replays_doc on rec d"
  shows "flow_turn_replays on FLOW_SEQ_END (flow_sequence_turn rec) (tokens_of d) (events_of d)"
proof -
  obtain t ts where t: "tokens_of d = t # ts" "starts_node (tk_type t)"
    by (rule tokens_of_Cons)
  have turn: "flow_sequence_turn rec st = bind_run (replay on (events_of d) r st) (\<lambda>st1. bind_run (sc_empty st1) (\<lambda>e.
      if e then throw (ParserException ''end of sequence flow not found'') else bind_run (sc_peek st1) (\<lambda>tok.
      if tk_type tok = FLOW_ENTRY then bind_run (sc_pop st1) (\<lambda>st2. ret (False, st2))
      else if tk_type tok \<noteq> FLOW_SEQ_END then throw (ParserException ''end of sequence flow not found'')
      else ret (False, st1))))" if "p_tokens st = tokens_of d @ r" for st r
    using that t assms by (auto simp: flow_sequence_turn_def starts_node_def replays_doc_def)
  show ?thesis
    unfolding flow_turn_replays_def
  proof (intro allI conjI impI)
    fix st :: "'a pstate" and r
    assume st: "p_tokens st = tokens_of d @ Token FLOW_ENTRY # r"
    show "flow_sequence_turn rec st = bind_run (replay on (events_of d) r st) (\<lambda>st'. ret (False, st'))"
      by (cases "fold_result on (events_of d) (p_handler st)")
        (simp_all add: turn [OF st] replay_def p_update_swap)
  next
    fix st :: "'a pstate" and r
    assume st: "p_tokens st = tokens_of d @ Token FLOW_SEQ_END # r"
    show "flow_sequence_turn rec st = bind_run (replay on (events_of d) (Token FLOW_SEQ_END # r) st) (\<lambda>st'. ret (False, st'))"
      by (cases "fold_result on (events_of d) (p_handler st)")
        (simp_all add: turn [OF st] replay_def)
  qed
qed

subsection \<open>Maps\<close>

abbreviation pair_tokens :: "doc \<Rightarrow> doc \<Rightarrow> token list" where
  "pair_tokens k v \<equiv> Token KEY # tokens_of k @ Token VALUE # tokens_of v"

lemma replay_pair:
  assumes "replays_doc on rec k" "replays_doc on rec v" "p_tokens st = pair_tokens k v @ r"
  shows "bind_run (pair_key on rec (Token KEY) st) (pair_value on rec) = replay on (events_of k @ events_of v) r st"
proof -
  let ?r = "Token VALUE # tokens_of v @ r"
  have "pair_key on rec (Token KEY) st = replay on (events_of k) ?r st"
    using assms by (simp add: pair_key_def replays_doc_def)
  moreover have "pair_value on rec (st\<lparr>p_tokens := ?r, p_handler := h\<rparr>) =
      replay on (events_of v) r (st\<lparr>p_tokens := ?r, p_handler := h\<rparr>)" for h
  proof -
    let ?st = "st\<lparr>p_tokens := ?r, p_handler := h\<rparr>"
    have "pair_value on rec ?st = rec (?st\<lparr>p_tokens := tokens_of v @ r\<rparr>)"
      by (simp add: pair_value_def)
    then show ?thesis
      using assms(2) by (simp only: replays_doc_def) (simp add: replay_def p_update_swap)
  qed
  ultimately show ?thesis
    by (simp add: replay_bind)
qed

lemma replay_block_map:
  assumes "\<forall>(k, v) \<in> set kvs. replays_doc on rec k \<and> replays_doc on rec v"
    and "p_tokens st = concat (map (\<lambda>(k, v). pair_tokens k v) kvs) @ Token BLOCK_MAP_END # rest"
  shows "repeat (block_map_turn on rec) st = replay on (concat (map (\<lambda>(k, v). events_of k @ events_of v) kvs)) rest st"
  using assms
proof (induction kvs arbitrary: st)
  case Nil
  then show ?case
    by (subst repeat_unfold) (simp add: block_map_turn_def Token_def replay_def)
next
  case (Cons p kvs)
  obtain k v where p: "p = (k, v)" "replays_doc on rec k" "replays_doc on rec v"
    using Cons.prems(1) by (cases p) auto
  let ?r = "concat (map (\<lambda>(k, v). pair_tokens k v) kvs) @ Token BLOCK_MAP_END # rest"
  have st: "p_tokens st = pair_tokens k v @ ?r"
    using Cons.prems(2) p(1) by simp
  have "block_map_turn on rec st = bind_run (bind_run (pair_key on rec (Token KEY) st) (pair_value on rec)) (\<lambda>st2. ret (False, st2))"
    using st by (simp add: block_map_turn_def bind_run_assoc)
  then have turn: "block_map_turn on rec st = bind_run (replay on (events_of k @ events_of v) ?r st) (\<lambda>st2. ret (False, st2))"
    by (simp only: replay_pair [OF p(2,3) st])
  have "repeat (block_map_turn on rec) (st\<lparr>p_tokens := ?r, p_handler := h\<rparr>) =
      replay on (concat (map (\<lambda>(k, v). events_of k @ events_of v) kvs)) rest (st\<lparr>p_tokens := ?r, p_handler := h\<rparr>)" for h
    using Cons.prems(1) by (intro Cons.IH) simp_all
  then have "bind_run (replay on (events_of k @ events_of v) ?r st) (repeat (block_map_turn on rec)) =
      replay on ((events_of k @ events_of v) @ concat (map (\<lambda>(k, v). events_of k @ events_of v) kvs)) rest st"
    by (rule replay_bind)
  then show ?case
    by (subst repeat_unfold) (simp add: turn bind_run_assoc p(1))
qed

lemma flow_map_turn_replays:
  assumes "replays_doc on rec k" "replays_doc on rec v"
  shows "flow_turn_replays on FLOW_MAP_END (flow_map_turn on rec) (pair_tokens k v) (events_of k @ events_of v)"
proof -
  let ?es = "events_of k @ events_of v"
  have turn: "flow_map_turn on rec st = bind_run (replay on ?es r st) (\<lambda>st2. bind_run (sc_empty st2) (\<lambda>e.
      if e then throw (ParserException ''end of map flow not found'') else bind_run (sc_peek st2) (\<lambda>tok.
      if tk_type tok = FLOW_ENTRY then bind_run (sc_pop st2) (\<lambda>st3. ret (False, st3))
      else if tk_type tok \<noteq> FLOW_MAP_END then throw (ParserException ''end of map flow not found'')
      else ret (False, st2))))" if st: "p_tokens st = pair_tokens k v @ r" for st r
    unfolding replay_pair [OF assms st, symmetric]
    using st by (simp add: flow_map_turn_def bind_run_assoc)
  show ?thesis
    unfolding flow_turn_replays_def
  proof (intro allI conjI impI)
    fix st :: "'a pstate" and r
    assume st: "p_tokens st = pair_tokens k v @ Token FLOW_ENTRY # r"
    show "flow_map_turn on rec st = bind_run (replay on ?es r st) (\<lambda>st'. ret (False, st'))"
      by (cases "fold_result on ?es (p_handler st)")
        (simp_all add: turn [OF st] replay_def p_update_swap)
  next
    fix st :: "'a pstate" and r
    assume st: "p_tokens st = pair_tokens k v @ Token FLOW_MAP_END # r"
    show "flow_map_turn on rec st = bind_run (replay on ?es (Token FLOW_MAP_END # r) st) (\<lambda>st'. ret (False, st'))"
      by (cases "fold_result on ?es (p_handler st)")
        (simp_all add: turn [OF st] replay_def)
  qed
qed

subsection \<open>Nodes\<close>

lemma replay_collection:
  assumes "p_tokens st = t # ts"
    and "\<And>st. p_tokens st = ts \<Longrightarrow> repeat turn st = replay on es rest st"
  shows "bind_run (sc_pop st) (\<lambda>st1. bind_run (repeat turn (PushCollectionType c st1)) (PopCollectionType c)) = replay on es rest st"
proof -
  have "repeat turn (PushCollectionType c (st\<lparr>p_tokens := ts\<rparr>)) = replay on es rest (PushCollectionType c (st\<lparr>p_tokens := ts\<rparr>))"
    by (rule assms(2)) (simp add: PushCollectionType_def)
  then show ?thesis
    using assms(1)
    by (cases "fold_result on es (p_handler st)")
      (simp_all add: replay_def PushCollectionType_def PopCollectionType_def GetCurCollectionType_def)
qed

lemma replay_bracket:
  assumes "\<And>st. p_tokens st = toks \<Longrightarrow> F st = replay on es rest st" "p_tokens st = toks"
  shows "bind_run (emit_event on s st) (\<lambda>st1. bind_run (F st1) (emit_event on e)) = replay on (s # es @ [e]) rest st"
proof -
  have "bind_run (replay on es rest st1) (emit_event on e) = replay on (es @ [e]) rest st1" for st1
    by (rule replay_bind) (simp add: emit_replay)
  then have "bind_run (F (st\<lparr>p_tokens := toks, p_handler := h\<rparr>)) (emit_event on e) =
      replay on (es @ [e]) rest (st\<lparr>p_tokens := toks, p_handler := h\<rparr>)" for h
    using assms(1) [of "st\<lparr>p_tokens := toks, p_handler := h\<rparr>"] by simp
  from replay_bind [of "\<lambda>st1. bind_run (F st1) (emit_event on e)", OF this, of "[s]"] show ?thesis
    using assms(2) by (simp add: emit_replay)
qed

lemma HandleSequence_replays:
  assumes ds: "\<forall>d \<in> set ds. replays_doc on rec d" and st: "p_tokens st = tokens_of (DSeq fl ds) @ rest"
  shows "HandleSequence on rec st = replay on (concat (map events_of ds)) rest st"
proof (cases fl)
  case True
  let ?ts = "join (Token FLOW_ENTRY) (map tokens_of ds) @ Token FLOW_SEQ_END # rest"
  have "HandleSequence on rec st = HandleFlowSequence rec st"
    using st True by (simp add: HandleSequence_def)
  also have "\<dots> = replay on (concat (map events_of ds)) rest st"
    unfolding HandleFlowSequence_def
  proof (rule replay_collection)
    show "p_tokens st = Token FLOW_SEQ_START # ?ts"
      using st True by simp
    show "repeat (flow_sequence_turn rec) st = replay on (concat (map events_of ds)) rest st" if "p_tokens st = ?ts" for st
      by (rule replay_flow [OF _ _ that])
        (use ds in \<open>auto simp: list_all2_map1 list_all2_map2 list_all2_same flow_sequence_turn_replays
          flow_sequence_turn_def\<close>)
  qed
  finally show ?thesis .
next
  case False
  let ?ts = "concat (map (\<lambda>d. Token BLOCK_ENTRY # tokens_of d) ds) @ Token BLOCK_SEQ_END # rest"
  have "HandleSequence on rec st = HandleBlockSequence on rec st"
    using st False by (simp add: HandleSequence_def)
  also have "\<dots> = replay on (concat (map events_of ds)) rest st"
    unfolding HandleBlockSequence_def
  proof (rule replay_collection)
    show "p_tokens st = Token BLOCK_SEQ_START # ?ts"
      using st False by simp
  qed (rule replay_block_sequence [OF ds])
  finally show ?thesis .
qed

lemma HandleMap_replays:
  assumes kvs: "\<forall>(k, v) \<in> set kvs. replays_doc on rec k \<and> replays_doc on rec v"
    and st: "p_tokens st = tokens_of (DMap fl kvs) @ rest"
  shows "HandleMap on rec st = replay on (concat (map (\<lambda>(k, v). events_of k @ events_of v) kvs)) rest st"
proof (cases fl)
  case True
  let ?ts = "join (Token FLOW_ENTRY) (map (\<lambda>(k, v). pair_tokens k v) kvs) @ Token FLOW_MAP_END # rest"
  have "HandleMap on rec st = HandleFlowMap on rec st"
    using st True by (simp add: HandleMap_def)
  also have "\<dots> = replay on (concat (map (\<lambda>(k, v). events_of k @ events_of v) kvs)) rest st"
    unfolding HandleFlowMap_def
  proof (rule replay_collection)
    show "p_tokens st = Token FLOW_MAP_START # ?ts"
      using st True by simp
    show "repeat (flow_map_turn on rec) st = replay on (concat (map (\<lambda>(k, v). events_of k @ events_of v) kvs)) rest st"
      if "p_tokens st = ?ts" for st
      by (rule replay_flow [OF _ _ that])
        (use kvs in \<open>auto simp: list_all2_map1 list_all2_map2 list_all2_same flow_map_turn_replays flow_map_turn_def\<close>)
  qed
  finally show ?thesis .
next
  case False
  let ?ts = "concat (map (\<lambda>(k, v). pair_tokens k v) kvs) @ Token BLOCK_MAP_END # rest"
  have "HandleMap on rec st = HandleBlockMap on rec st"
    using st False by (simp add: HandleMap_def)
  also have "\<dots> = replay on (concat (map (\<lambda>(k, v). events_of k @ events_of v) kvs)) rest st"
    unfolding HandleBlockMap_def
  proof (rule replay_collection)
    show "p_tokens st = Token BLOCK_MAP_START # ?ts"
      using st False by simp
  qed (rule replay_block_map [OF kvs])
  finally show ?thesis .
qed

lemma replays_docI:
  assumes "\<And>st rest. p_tokens st = tokens_of d @ rest \<Longrightarrow> node_body ds on (HandleNode n ds on) st = replay on (events_of d) rest st"
  shows "replays_doc on (HandleNode (Suc n) ds on) d"
  using assms by (simp add: replays_doc_def)

lemma nesting_pos: "0 < nesting d"
  by (cases d) simp_all

lemma scalar_replays:
  assumes "tokens_of d = [scalar_token t s]" "t = PLAIN_SCALAR \<or> t = NON_PLAIN_SCALAR" "1 \<le> n"
    and "events_of d = [if t = PLAIN_SCALAR \<and> IsNullString s then OnNull 0
      else OnScalar (if t = NON_PLAIN_SCALAR then ''!'' else ''?'') 0 s]"
  shows "replays_doc on (HandleNode n ds on) d"
proof (cases n)
  case (Suc m)
  show ?thesis
    unfolding Suc
  proof (rule replays_docI)
    fix st :: "'a pstate" and rest
    assume "p_tokens st = tokens_of d @ rest"
    then have st: "p_tokens st = scalar_token t s # rest"
      using assms(1) by simp
    moreover have "tk_type (scalar_token t s) = t" "tk_value (scalar_token t s) = s"
      by (simp_all add: scalar_token_def Token_def)
    ultimately show "node_body ds on (HandleNode m ds on) st = replay on (events_of d) rest st"
      using assms(2) by (auto simp: node_body_start [OF st] starts_node_def node_content_def assms(4) emit_pop [OF st])
  qed
qed (use assms in simp)

lemma HandleNode_document:
  "writable d \<Longrightarrow> nesting d \<le> n \<Longrightarrow> replays_doc on (HandleNode n ds on) d"
proof (induction d arbitrary: n)
  case (DSeq fl dcs)
  then obtain m where m: "n = Suc m"
    using nesting_pos [of "DSeq fl dcs"] by (cases n) auto
  have sub: "\<forall>d \<in> set dcs. replays_doc on (HandleNode m ds on) d"
    using DSeq m by auto
  show ?case
    unfolding m
  proof (rule replays_docI)
    fix st :: "'a pstate" and rest
    let ?seq = "HandleSequence on (HandleNode m ds on)"
    assume st: "p_tokens st = tokens_of (DSeq fl dcs) @ rest"
    have "node_body ds on (HandleNode m ds on) st = sequence_node on (HandleNode m ds on) ''?'' 0 (style_of fl) st"
      using st by (cases fl) (simp_all add: node_body_start starts_node_def node_content_def style_of_def)
    also have "\<dots> = replay on (events_of (DSeq fl dcs)) rest st"
      unfolding sequence_node_def events_of.simps
      by (rule replay_bracket [OF HandleSequence_replays [OF sub] st])
    finally show "node_body ds on (HandleNode m ds on) st = replay on (events_of (DSeq fl dcs)) rest st" .
  qed
next
  case (DMap fl kvs)
  then obtain m where m: "n = Suc m"
    using nesting_pos [of "DMap fl kvs"] by (cases n) auto
  have sub: "\<forall>(k, v) \<in> set kvs. replays_doc on (HandleNode m ds on) k \<and> replays_doc on (HandleNode m ds on) v"
    using DMap m by fastforce
  show ?case
    unfolding m
  proof (rule replays_docI)
    fix st :: "'a pstate" and rest
    assume st: "p_tokens st = tokens_of (DMap fl kvs) @ rest"
    have "node_body ds on (HandleNode m ds on) st = map_node on (HandleNode m ds on) ''?'' 0 (style_of fl) st"
      using st by (cases fl) (simp_all add: node_body_start starts_node_def node_content_def style_of_def)
    also have "\<dots> = replay on (events_of (DMap fl kvs)) rest st"
      unfolding map_node_def events_of.simps
      by (rule replay_bracket [OF HandleMap_replays [OF sub] st])
    finally show "node_body ds on (HandleNode m ds on) st = replay on (events_of (DMap fl kvs)) rest st" .
  qed
next
  case DNull
  then show ?case
    by (intro scalar_replays [of _ PLAIN_SCALAR "''~''"]) (simp_all add: IsNullString_def)
next
  case (DPlain s)
  then show ?case
    by (intro scalar_replays [of _ PLAIN_SCALAR s]) simp_all
next
  case (DQuoted s)
  then show ?case
    by (intro scalar_replays [of _ NON_PLAIN_SCALAR s]) simp_all
qed

section \<open>Loading\<close>

text \<open>A document that follows no directive and, unless it is the last, is closed by an end marker.\<close>

lemma HandleDocument_document:
  assumes d: "writable d" "nesting d < max_depth" and st: "p_tokens st = tokens_of d @ replicate n (Token DOC_END)"
    and "p_end st = None" "p_curAnchor st = 0"
  shows "HandleDocument ds on st = replay on (OnDocumentStart # events_of d @ [OnDocumentEnd]) [] st"
proof -
  obtain t ts where t: "tokens_of d = t # ts" "starts_node (tk_type t)"
    by (rule tokens_of_Cons)
  have ends: "repeat doc_end_turn st' = replay on [] [] st'"
    if "p_tokens st' = replicate n (Token DOC_END)" "p_end st' = None" for st' :: "'a pstate"
    using that
  proof (induction n arbitrary: st')
    case 0
    then show ?case
      by (subst repeat_unfold) (cases st', simp add: doc_end_turn_def sc_next_is_def sc_empty_def replay_def)
  next
    case (Suc n)
    then have "doc_end_turn st' = ret (False, st'\<lparr>p_tokens := replicate n (Token DOC_END)\<rparr>)"
      by (simp add: doc_end_turn_def)
    with Suc show ?case
      by (subst repeat_unfold) simp
  qed
  let ?ends = "replicate n (Token DOC_END)"
  have tail: "bind_run (emit_event on OnDocumentEnd st') (repeat doc_end_turn) = replay on ([OnDocumentEnd] @ []) [] st'"
    if "p_tokens st' = ?ends" "p_end st' = None" for st' :: "'a pstate"
    unfolding emit_replay by (rule replay_bind) (simp add: ends that)
  have node: "bind_run (HandleNode (max_depth - 1) ds on st') (\<lambda>st3. bind_run (emit_event on OnDocumentEnd st3) (repeat doc_end_turn)) =
      replay on (events_of d @ [OnDocumentEnd]) [] st'"
    if "p_tokens st' = p_tokens st" "p_end st' = None" for st' :: "'a pstate"
  proof -
    have "replays_doc on (HandleNode (max_depth - 1) ds on) d"
      using d by (intro HandleNode_document) simp_all
    then have "HandleNode (max_depth - 1) ds on st' = replay on (events_of d) ?ends st'"
      using that st by (simp add: replays_doc_def)
    moreover have "bind_run (replay on (events_of d) ?ends st') (\<lambda>st3. bind_run (emit_event on OnDocumentEnd st3) (repeat doc_end_turn)) =
        replay on (events_of d @ [OnDocumentEnd] @ []) [] st'"
      by (rule replay_bind, rule tail) (simp_all add: that)
    ultimately show ?thesis
      by simp
  qed
  have "HandleDocument ds on st = bind_run (emit_event on OnDocumentStart st) (\<lambda>st1. bind_run (sc_peek st1) (\<lambda>tok.
      bind_run (if tk_type tok = DOC_START then sc_pop st1 else ret st1) (\<lambda>st2.
      bind_run (HandleNode (max_depth - 1) ds on st2) (\<lambda>st3. bind_run (emit_event on OnDocumentEnd st3) (repeat doc_end_turn)))))"
    using st t assms(5) by (simp add: HandleDocument_def)
  also have "\<dots> = replay on ([OnDocumentStart] @ (events_of d @ [OnDocumentEnd])) [] st"
    unfolding emit_replay [of on OnDocumentStart]
    by (rule replay_bind) (use st t assms(4) in \<open>auto simp: node [unfolded One_nat_def] starts_node_def\<close>)
  finally show ?thesis
    by simp
qed

lemma HandleNextDocument_document:
  assumes d: "writable d" "nesting d < max_depth"
  shows "HandleNextDocument on (parser_of (tokens_of d @ replicate n (Token DOC_END)) None) h =
    bind_run (Some (fold_result on (OnDocumentStart # events_of d @ [OnDocumentEnd]) h)) (\<lambda>h'. ret (True, parser_of [] None, h'))"
proof -
  let ?y = "parser_of (tokens_of d @ replicate n (Token DOC_END)) None"
  let ?es = "OnDocumentStart # events_of d @ [OnDocumentEnd]"
  obtain t ts where t: "tokens_of d = t # ts" "starts_node (tk_type t)"
    by (rule tokens_of_Cons)
  have "directives_turn (False, ?y) = ret (True, False, ?y)"
    using t by (auto simp: directives_turn_def sc_next_is_def sc_empty_def sc_peek_def scan_of_def parser_of_def starts_node_def)
  then have "ParseDirectives ?y = ret ?y"
    unfolding ParseDirectives_def by (subst repeat_unfold) simp
  moreover have "sc_empty (scan_of ?y h) = ret False"
    using t by (simp add: sc_empty_def scan_of_def parser_of_def)
  moreover have "HandleDocument (y_directives ?y) on (scan_of ?y h) = replay on ?es [] (scan_of ?y h)"
    by (rule HandleDocument_document [OF d]) (simp_all add: scan_of_def parser_of_def)
  ultimately show ?thesis
    by (cases "fold_result on ?es h")
      (simp_all add: HandleNextDocument_def replay_def scan_of_def parser_of_def)
qed

text \<open>\<^verbatim>\<open>LoadFile\<close>: the contents of the file, if it can be read, and what the scanner makes of them.\<close>

definition LoadFile :: "(string \<Rightarrow> token list \<times> fault option) \<Rightarrow> string option \<Rightarrow> (memory \<times> nat) option run" where
  "LoadFile scan contents = (case contents of
     None \<Rightarrow> throw BadFile
   | Some s \<Rightarrow> (case scan s of (toks, e) \<Rightarrow> Load toks e))"

text \<open>
  Loading returns for every sequence of tokens, even one cut off by a scanner error: it gives a document
  whose nodes are all defined and whose root is one of them, or the empty document, or it throws a
  \<^verbatim>\<open>ParserException\<close>. No assertion of the parser, of its collection stack or of the builder fails, no anchor is
  looked up that was not built, and no loop of the parser goes on for ever.
\<close>

theorem load_returns:
  assumes "scan_ok toks e"
  shows "(\<exists>m. Load toks e = Some (Inl (ParserException m)))
    \<or> Load toks e = Some (Inr None)
    \<or> (\<exists>mem r. Load toks e = Some (Inr (Some (mem, r))) \<and> r < length mem \<and> all_defined mem)"
proof -
  have "runs (Load toks e) (\<lambda>r. r = None \<or> (\<exists>mem i. r = Some (mem, i) \<and> i < length mem \<and> all_defined mem)) parser_fault"
    unfolding Load_def
    by (rule runs_bindI [OF nb.HandleNextDocument_ok [OF _ builder_ctor_ok]])
      (use assms in \<open>auto simp: parser_of_def Root_def builder_ok.simps\<close>)
  then show ?thesis
    by (auto simp: runs_def parser_fault_def split: option.splits sum.splits)
qed

lemma load_document_graph:
  assumes "writable d" "nesting d < max_depth"
  shows "\<exists>mem. Load (tokens_of d @ replicate n (Token DOC_END)) None = Some (Inr (Some (mem, 0))) \<and> represents mem 0 (yaml_of d)"
proof -
  obtain b where b: "fold_result builder_on (events_of d) builder_ctor = Inr b" "nb_root b = Some 0"
      "represents (nb_memory b) 0 (yaml_of d)"
    using build_document by blast
  then have "fold_result builder_on (OnDocumentStart # events_of d @ [OnDocumentEnd]) builder_ctor = Inr b"
    by (simp add: fold_result_append builder_on.simps(1,2))
  then have "Load (tokens_of d @ replicate n (Token DOC_END)) None = ret (Root b)"
    by (simp only: Load_def HandleNextDocument_document [OF assms]) simp
  then show ?thesis
    using b by (simp add: Root_def ret_def)
qed

text \<open>
  (C36) Round trip of documents: the tokens of a document of plain and quoted scalars, nulls and sequences and maps
  in block or flow style, nested less than 2000 deep, load to a graph whose root represents the document's
  value. Any number of document end markers may follow.
\<close>

theorem load_document:
  assumes "writable d" "nesting d < max_depth"
  shows "\<exists>mem. Load (tokens_of d @ replicate n (Token DOC_END)) None = Some (Inr (Some (mem, 0))) \<and> represents mem 0 (yaml_of d)"
  using assms by (rule load_document_graph)

theorem load_document_witness:
  "\<exists>mem. Load (tokens_of (DMap False [(DPlain ''a'', DSeq True [DNull, DQuoted ''b''])]) @ replicate 1 (Token DOC_END)) None =
      Some (Inr (Some (mem, 0)))
    \<and> represents mem 0 (YMap [(YScalar ''a'', YSeq [YNull, YScalar ''b''])])"
  using load_document [of "DMap False [(DPlain ''a'', DSeq True [DNull, DQuoted ''b''])]" 1]
  by (simp add: max_depth_def IsNullString_def)

theorem load_returns_witness:
  "scan_ok [Token FLOW_SEQ_START, scalar_token ALIAS ''a''] (Some (ParserException ''illegal EOF in scalar'')) \<and>
   ((\<exists>m. Load [Token FLOW_SEQ_START, scalar_token ALIAS ''a''] (Some (ParserException ''illegal EOF in scalar'')) = Some (Inl (ParserException m)))
    \<or> Load [Token FLOW_SEQ_START, scalar_token ALIAS ''a''] (Some (ParserException ''illegal EOF in scalar'')) = Some (Inr None)
    \<or> (\<exists>mem r. Load [Token FLOW_SEQ_START, scalar_token ALIAS ''a''] (Some (ParserException ''illegal EOF in scalar'')) = Some (Inr (Some (mem, r)))
        \<and> r < length mem \<and> all_defined mem))"
proof -
  have "scan_ok [Token FLOW_SEQ_START, scalar_token ALIAS ''a''] (Some (ParserException ''illegal EOF in scalar''))"
    by (simp add: scan_ok_def token_ok_def scalar_token_def Token_def)
  from load_returns [OF this] this show ?thesis
    by blast
qed

section \<open>The configuration file\<close>

text \<open>The tree below a node, read through its sequence and map entries. Children come after their parents, so
  the number of nodes is enough fuel.\<close>

fun read_tree :: "nat \<Rightarrow> memory \<Rightarrow> nat \<Rightarrow> yaml option" where
  "read_tree 0 mem i = None"
| "read_tree (Suc n) mem i = (case m_type (mem ! i) of
     NT_Scalar \<Rightarrow> Some (YScalar (m_scalar (mem ! i)))
   | NT_Sequence \<Rightarrow> map_option YSeq (those (map (read_tree n mem) (m_sequence (mem ! i))))
   | NT_Map \<Rightarrow> map_option YMap (those (map (\<lambda>(k, v).
       Option.bind (read_tree n mem k) (\<lambda>ky. map_option (Pair ky) (read_tree n mem v))) (m_map (mem ! i))))
   | _ \<Rightarrow> Some YNull)"

lemma those_map_list_all2:
  "list_all2 (\<lambda>y j. f j = Some y) ys js \<Longrightarrow> those (map f js) = Some ys"
  by (induction rule: list_all2_induct) simp_all

lemma read_represented:
  assumes "represents mem i y" "length mem \<le> i + n"
  shows "read_tree n mem i = Some y"
  using assms
proof (induction y arbitrary: i n)
  case (YSeq ys)
  then obtain m where m: "n = Suc m"
    by (cases n) auto
  with YSeq have "list_all2 (\<lambda>y j. read_tree m mem j = Some y) ys (m_sequence (mem ! i))"
    by (auto elim!: list.rel_mono_strong)
  then show ?case
    using YSeq.prems m by (simp add: those_map_list_all2)
next
  case (YMap kvs)
  then obtain m where m: "n = Suc m"
    by (cases n) auto
  let ?f = "\<lambda>(k, v). Option.bind (read_tree m mem k) (\<lambda>ky. map_option (Pair ky) (read_tree m mem v))"
  have "list_all2 (\<lambda>p q. ?f q = Some p) kvs (m_map (mem ! i))"
    using YMap m by (auto elim!: list.rel_mono_strong)
  then show ?case
    using YMap.prems m by (simp add: those_map_list_all2)
next
  case YNull
  then show ?case
    by (cases n) simp_all
next
  case (YScalar s)
  then show ?case
    by (cases n) simp_all
qed

text \<open>Every tree can be written, in block style, with a scalar that reads as null in quotes.\<close>

fun block_doc :: "yaml \<Rightarrow> doc" where
  "block_doc YNull = DNull"
| "block_doc (YScalar s) = (if IsNullString s then DQuoted s else DPlain s)"
| "block_doc (YSeq ys) = DSeq False (map block_doc ys)"
| "block_doc (YMap kvs) = DMap False (map (\<lambda>(k, v). (block_doc k, block_doc v)) kvs)"

lemma yaml_of_block_doc [simp]: "yaml_of (block_doc y) = y"
  by (induction y) (auto intro!: map_idI)

lemma writable_block_doc [simp]: "writable (block_doc y)"
  by (induction y) auto

text \<open>What \<^verbatim>\<open>YamlLoader::loadFile\<close> gets from \<^verbatim>\<open>YAML::LoadFile\<close>: a tree, or an exception, which it catches.\<close>

definition yaml_file :: "(string \<Rightarrow> token list \<times> fault option) \<Rightarrow> (string \<Rightarrow> string option) \<Rightarrow> string \<Rightarrow> yaml option" where
  "yaml_file scan files path = (case LoadFile scan (files path) of
     Some (Inr (Some (mem, r))) \<Rightarrow> read_tree (length mem) mem r
   | Some (Inr None) \<Rightarrow> Some YNull
   | _ \<Rightarrow> None)"

lemma yaml_file_document:
  assumes "files path = Some s" "scan s = (tokens_of d, None)" "writable d" "nesting d < max_depth"
  shows "yaml_file scan files path = Some (yaml_of d)"
proof -
  obtain mem where mem: "Load (tokens_of d) None = Some (Inr (Some (mem, 0)))" "represents mem 0 (yaml_of d)"
    using load_document_graph [OF assms(3,4), of 0] by auto
  then show ?thesis
    using assms(1,2) read_represented [OF mem(2)] by (simp add: yaml_file_def LoadFile_def)
qed



section \<open>Loading all documents\<close>

text \<open>A parser at a token that starts no node and ends no document takes no token: the document is null, and the
  next one starts at the same token. The scanner delivers such a token for a comma outside flow collections.\<close>

lemma comma_document:
  assumes "y_tokens y = Token FLOW_ENTRY # ts"
  shows "\<exists>b. HandleNextDocument builder_on y builder_ctor = ret (True, y, b) \<and> nb_root b = Some 0"
proof -
  let ?st = "scan_of y builder_ctor"
  have toks: "p_tokens ?st = Token FLOW_ENTRY # ts" "p_tokens (scan_of y ()) = Token FLOW_ENTRY # ts"
    using assms by (simp_all add: scan_of_def)
  have "directives_turn (False, y) = ret (True, False, y)"
    using toks by (simp add: directives_turn_def)
  then have dirs: "ParseDirectives y = ret y"
    unfolding ParseDirectives_def by (subst repeat_unfold) simp
  obtain b where b: "builder_on (OnNull 0) builder_ctor = Inr b" and root: "nb_root b = Some 0"
    using build_document [of DNull] by (auto simp: result_simps)
  have "node_body ds builder_on rec ?st = ret (?st\<lparr>p_handler := b\<rparr>)" for ds rec
    using toks b by (simp add: node_body_plain node_content_def emit_event_def) (simp add: scan_of_def)
  then have node: "HandleNode (max_depth - 1) ds builder_on ?st = ret (?st\<lparr>p_handler := b\<rparr>)" for ds
    by (simp add: max_depth_def eval_nat_numeral)
  have "doc_end_turn (?st\<lparr>p_handler := b\<rparr>) = ret (True, ?st\<lparr>p_handler := b\<rparr>)"
    using toks by (simp add: doc_end_turn_def)
  then have "repeat doc_end_turn (?st\<lparr>p_handler := b\<rparr>) = ret (?st\<lparr>p_handler := b\<rparr>)"
    by (subst repeat_unfold) simp
  then have "HandleDocument ds builder_on ?st = ret (?st\<lparr>p_handler := b\<rparr>)" for ds
    using toks node [of ds] by (simp add: HandleDocument_def emit_event_def builder_on.simps(1,2)) (simp add: scan_of_def)
  moreover have "y\<lparr>y_tokens := Token FLOW_ENTRY # ts\<rparr> = y"
    using assms by (cases y) simp
  ultimately show ?thesis
    using toks dirs root by (simp add: HandleNextDocument_def)
qed

text \<open>
  (C0) \<^verbatim>\<open>LoadAll\<close> does not return on a text that starts with a comma, whatever follows: every turn of its loop adds
  a null document and stays at the comma. \<^verbatim>\<open>Load\<close>, which the program uses, returns the null document.
\<close>

theorem load_all_diverges:
  "LoadAll (Token FLOW_ENTRY # ts) e = None \<and> (\<exists>mem. Load (Token FLOW_ENTRY # ts) e = Some (Inr (Some (mem, 0))))"
proof
  let ?I = "\<lambda>s :: (memory \<times> nat) option list \<times> parser. y_tokens (snd s) = Token FLOW_ENTRY # ts"
  have "\<exists>s'. load_all_turn s = ret (False, s') \<and> ?I s'" if "?I s" for s
    using comma_document [OF that] that by (cases s) (auto simp: load_all_turn_def)
  then have "repeat load_all_turn ([], parser_of (Token FLOW_ENTRY # ts) e) = None"
    by (rule repeat_diverges [of ?I]) (auto simp: parser_of_def)
  then show "LoadAll (Token FLOW_ENTRY # ts) e = None"
    by (simp add: LoadAll_def)
  show "\<exists>mem. Load (Token FLOW_ENTRY # ts) e = Some (Inr (Some (mem, 0)))"
    using comma_document [of "parser_of (Token FLOW_ENTRY # ts) e" ts] by (auto simp: Load_def Root_def parser_of_def ret_def)
qed

end
