(* ===== verification/Yaml_Scan.thy ===== *)
theory Yaml_Scan
  imports Yaml_Scanner Yaml_Load
begin

text \<open>
  What the YAML scanner guarantees.

  \<open>sn_ok\<close> is its invariant: every pointer that a potential simple key holds refers to a token that is still in the
  queue and still unverified, no token is referred to twice, and the stack of indentations ends in the base marker.
  It is kept by every operation, so that no dangling pointer is written through and no assertion fails.
\<close>

section \<open>The invariant\<close>

definition ptr_list :: "nat option \<Rightarrow> nat list" where
  "ptr_list ptr = (case ptr of None \<Rightarrow> [] | Some k \<Rightarrow> [k])"

definition key_ptrs :: "simple_key \<Rightarrow> nat list" where
  "key_ptrs key = ptr_list (sk_pMapStart key) @ ptr_list (sk_pKey key)"

definition unverified :: "scanner \<Rightarrow> nat \<Rightarrow> bool" where
  "unverified s k \<longleftrightarrow> sn_popped s \<le> k \<and> k - sn_popped s < length (sn_tokens s)
     \<and> snd (sn_tokens s ! (k - sn_popped s)) = UNVERIFIED"

definition keys_ok :: "scanner \<Rightarrow> bool" where
  "keys_ok s \<longleftrightarrow> distinct (concat (map key_ptrs (sn_simpleKeys s)))
     \<and> (\<forall>key \<in> set (sn_simpleKeys s). \<forall>k \<in> set (key_ptrs key). unverified s k)"

definition marker_ok :: "scanner \<Rightarrow> nat \<Rightarrow> bool" where
  "marker_ok s k \<longleftrightarrow> 0 < k \<and> k < length (sn_indentRefs s) \<and> im_type (sn_indentRefs s ! k) \<noteq> NONE"

definition indents_ok :: "scanner \<Rightarrow> bool" where
  "indents_ok s \<longleftrightarrow> sn_indents s \<noteq> [] \<and> last (sn_indents s) = 0 \<and> list_all (marker_ok s) (butlast (sn_indents s))
     \<and> sn_indentRefs s \<noteq> [] \<and> sn_indentRefs s ! 0 = IndentMarker_ctor (- 1) NONE
     \<and> (\<forall>key \<in> set (sn_simpleKeys s). list_all (marker_ok s) (ptr_list (sk_pIndent key)))"

definition sn_ok :: "scanner \<Rightarrow> bool" where
  "sn_ok s \<longleftrightarrow> list_all (\<lambda>(tok, _). token_ok tok) (sn_tokens s) \<and> keys_ok s
     \<and> (if sn_startedStream s then indents_ok s
        else sn_simpleKeys s = [] \<and> sn_indents s = [] \<and> sn_indentRefs s = [] \<and> sn_tokens s = [] \<and> \<not> sn_endedStream s)
     \<and> (sn_endedStream s \<longrightarrow> sn_simpleKeys s = [])"

definition place :: "scanner \<Rightarrow> input \<times> flow_marker list \<times> bool \<times> bool" where
  "place s = (sn_in s, sn_flows s, sn_startedStream s, sn_endedStream s)"

lemmas sn_defs = sn_ok_def keys_ok_def unverified_def indents_ok_def marker_ok_def

lemma sn_ok_irrelevant [simp]:
  "sn_ok (s\<lparr>sn_in := i\<rparr>) = sn_ok s" "sn_ok (s\<lparr>sn_simpleKeyAllowed := b\<rparr>) = sn_ok s"
  "sn_ok (s\<lparr>sn_canBeJSONFlow := b\<rparr>) = sn_ok s" "sn_ok (s\<lparr>sn_flows := fs\<rparr>) = sn_ok s"
  "sn_ok (set_flags a b s) = sn_ok s"
  by (simp_all add: sn_defs set_flags_def fun_eq_iff cong: list.pred_cong)

lemma place_irrelevant [simp]:
  "place (s\<lparr>sn_simpleKeyAllowed := b\<rparr>) = place s" "place (s\<lparr>sn_canBeJSONFlow := b\<rparr>) = place s"
  "place (set_flags a b s) = place s" "place (push_token t st s) = place s"
  by (simp_all add: place_def set_flags_def push_token_def)

lemma sn_ok_Ctor [simp]: "sn_ok (Scanner_ctor i)"
  by (simp add: sn_defs Scanner_ctor_def)

lemma sn_ok_StartStream: "sn_ok s \<Longrightarrow> \<not> sn_startedStream s \<Longrightarrow> sn_ok (StartStream s)"
  by (simp add: sn_defs StartStream_def)

lemma token_ok_Token [simp]: "token_ok (Token t)"
  by (simp add: token_ok_def Token_def)

lemma unverified_push: "unverified s k \<Longrightarrow> unverified (push_token t st s) k"
  by (auto simp: unverified_def push_token_def nth_append)

lemma sn_ok_push: "sn_ok s \<Longrightarrow> sn_startedStream s \<Longrightarrow> token_ok t \<Longrightarrow> sn_ok (push_token t st s)"
  using unverified_push [of s _ t st]
  by (auto simp: sn_ok_def keys_ok_def indents_ok_def marker_ok_def push_token_def cong: list.pred_cong)

section \<open>Simple keys\<close>

text \<open>\<open>s'\<close> is \<open>s\<close> with the status of some markers and of the tokens \<open>ks\<close> changed.\<close>

definition marked :: "nat list \<Rightarrow> scanner \<Rightarrow> scanner \<Rightarrow> bool" where
  "marked ks s s' \<longleftrightarrow> (\<exists>toks refs. s' = s\<lparr>sn_tokens := toks, sn_indentRefs := refs\<rparr>
     \<and> map fst toks = map fst (sn_tokens s) \<and> map im_type refs = map im_type (sn_indentRefs s)
     \<and> (refs \<noteq> [] \<longrightarrow> refs ! 0 = sn_indentRefs s ! 0)
     \<and> (\<forall>k. k \<notin> set ks \<longrightarrow> unverified s k \<longrightarrow> unverified s' k))"

lemma marked_refl: "marked [] s s"
  unfolding marked_def by (rule exI [of _ "sn_tokens s"], rule exI [of _ "sn_indentRefs s"]) simp

lemma marked_trans:
  assumes "marked ks s s'" "marked ks' s' s''"
  shows "marked (ks @ ks') s s''"
proof -
  obtain toks refs where a: "s' = s\<lparr>sn_tokens := toks, sn_indentRefs := refs\<rparr>" "map fst toks = map fst (sn_tokens s)"
      "map im_type refs = map im_type (sn_indentRefs s)" "refs \<noteq> [] \<longrightarrow> refs ! 0 = sn_indentRefs s ! 0"
      "\<forall>k. k \<notin> set ks \<longrightarrow> unverified s k \<longrightarrow> unverified s' k"
    using assms(1) unfolding marked_def by blast
  obtain toks' refs' where b: "s'' = s'\<lparr>sn_tokens := toks', sn_indentRefs := refs'\<rparr>" "map fst toks' = map fst (sn_tokens s')"
      "map im_type refs' = map im_type (sn_indentRefs s')" "refs' \<noteq> [] \<longrightarrow> refs' ! 0 = sn_indentRefs s' ! 0"
      "\<forall>k. k \<notin> set ks' \<longrightarrow> unverified s' k \<longrightarrow> unverified s'' k"
    using assms(2) unfolding marked_def by blast
  have "refs' \<noteq> [] \<longrightarrow> refs \<noteq> []"
    using b(3) a(1) by auto
  then show ?thesis
    unfolding marked_def using a b by (intro exI [of _ toks'] exI [of _ refs']) auto
qed

lemma map_update_same: "f y = f (xs ! k) \<Longrightarrow> map f (xs[k := y]) = map f xs"
  by (cases "k < length xs") (auto intro!: nth_equalityI simp: nth_list_update)

lemma set_token_status_marked:
  assumes "list_all (unverified s) (ptr_list ptr)"
  shows "\<exists>s'. set_token_status ptr st s = ret s' \<and> marked (ptr_list ptr) s s'"
proof (cases ptr)
  case None
  then show ?thesis
    using marked_refl by (simp add: set_token_status_def ptr_list_def)
next
  case (Some k)
  let ?j = "k - sn_popped s" and ?toks = "sn_tokens s"
  have k: "sn_popped s \<le> k" "?j < length ?toks"
    using assms Some by (simp_all add: ptr_list_def unverified_def)
  let ?s = "s\<lparr>sn_tokens := ?toks[?j := (fst (?toks ! ?j), st)]\<rparr>"
  have "marked [k] s ?s"
    unfolding marked_def using k
    by (intro exI [of _ "?toks[?j := (fst (?toks ! ?j), st)]"] exI [of _ "sn_indentRefs s"])
      (auto simp: unverified_def nth_list_update map_update_same)
  then show ?thesis
    using Some k by (simp add: set_token_status_def ptr_list_def)
qed

lemma set_indent_status_marked:
  assumes "list_all (marker_ok s) (ptr_list ptr)"
  shows "\<exists>s'. set_indent_status ptr st s = ret s' \<and> marked [] s s'"
proof (cases ptr)
  case None
  then show ?thesis
    using marked_refl by (simp add: set_indent_status_def)
next
  case (Some k)
  let ?refs = "sn_indentRefs s"
  have k: "0 < k" "k < length ?refs"
    using assms Some by (simp_all add: ptr_list_def marker_ok_def)
  have "map im_type (?refs[k := (?refs ! k)\<lparr>im_status := st\<rparr>]) = map im_type ?refs"
    by (simp add: map_update_same)
  then have "marked [] s (s\<lparr>sn_indentRefs := ?refs[k := (?refs ! k)\<lparr>im_status := st\<rparr>]\<rparr>)"
    unfolding marked_def using k
    by (intro exI [of _ "sn_tokens s"] exI [of _ "?refs[k := (?refs ! k)\<lparr>im_status := st\<rparr>]"]) (simp add: unverified_def)
  then show ?thesis
    using Some k by (simp add: set_indent_status_def)
qed


lemma marked_keeps:
  assumes "marked ks s s'"
  shows "list_all (marker_ok s) = list_all (marker_ok s')" "place s' = place s" "sn_indents s' = sn_indents s"
    "sn_simpleKeys s' = sn_simpleKeys s" "k \<notin> set ks \<Longrightarrow> unverified s k \<Longrightarrow> unverified s' k"
proof -
  obtain toks refs where a: "s' = s\<lparr>sn_tokens := toks, sn_indentRefs := refs\<rparr>"
      "map im_type refs = map im_type (sn_indentRefs s)" "\<forall>k. k \<notin> set ks \<longrightarrow> unverified s k \<longrightarrow> unverified s' k"
    using assms unfolding marked_def by blast
  have "length refs = length (sn_indentRefs s)"
    using a(2) map_eq_imp_length_eq by blast
  then have "marker_ok s = marker_ok s'"
    using a by (auto simp: marker_ok_def fun_eq_iff) (metis nth_map)+
  then show "list_all (marker_ok s) = list_all (marker_ok s')" "place s' = place s" "sn_indents s' = sn_indents s"
      "sn_simpleKeys s' = sn_simpleKeys s" "k \<notin> set ks \<Longrightarrow> unverified s k \<Longrightarrow> unverified s' k"
    using a by (auto simp: place_def)
qed

lemma SimpleKey_mark_marked:
  assumes "sn_ok s" "sn_startedStream s" "sn_simpleKeys s = key # keys"
  shows "\<exists>s'. SimpleKey_mark ind tok key s = ret s' \<and> marked (key_ptrs key) s s'"
proof -
  have key: "list_all (marker_ok s) (ptr_list (sk_pIndent key))" "list_all (unverified s) (key_ptrs key)" "distinct (key_ptrs key)"
    using assms by (auto simp: sn_ok_def keys_ok_def indents_ok_def list_all_iff)
  obtain s1 where s1: "set_indent_status (sk_pIndent key) ind s = ret s1" "marked [] s s1"
    using set_indent_status_marked [OF key(1)] by blast
  have u1: "list_all (unverified s1) (key_ptrs key)"
    using key(2) marked_keeps(5) [OF s1(2)] by (auto simp: list_all_iff)
  obtain s2 where s2: "set_token_status (sk_pMapStart key) tok s1 = ret s2" "marked (ptr_list (sk_pMapStart key)) s1 s2"
    using set_token_status_marked [of s1 "sk_pMapStart key" tok] u1 by (auto simp: key_ptrs_def)
  have "list_all (unverified s2) (ptr_list (sk_pKey key))"
    using key(3) u1 marked_keeps(5) [OF s2(2)] by (auto simp: list_all_iff key_ptrs_def)
  then obtain s3 where "set_token_status (sk_pKey key) tok s2 = ret s3" "marked (ptr_list (sk_pKey key)) s2 s3"
    using set_token_status_marked by blast
  then show ?thesis
    using s1 s2 marked_trans [OF marked_trans [OF s1(2) s2(2)]] by (simp add: SimpleKey_mark_def key_ptrs_def)
qed

text \<open>Once its tokens are marked the key is dropped.\<close>

lemma sn_ok_drop_key:
  assumes "sn_ok s" "sn_simpleKeys s = key # keys" "marked (key_ptrs key) s s'"
  shows "sn_ok (s'\<lparr>sn_simpleKeys := keys\<rparr>)"
proof -
  obtain toks refs where a: "s' = s\<lparr>sn_tokens := toks, sn_indentRefs := refs\<rparr>" "map fst toks = map fst (sn_tokens s)"
      "map im_type refs = map im_type (sn_indentRefs s)" "refs \<noteq> [] \<longrightarrow> refs ! 0 = sn_indentRefs s ! 0"
    using assms(3) unfolding marked_def by blast
  have started: "sn_startedStream s"
    using assms(1,2) by (auto simp: sn_ok_def split: if_splits)
  have "list_all (\<lambda>(tok, _). token_ok tok) xs \<longleftrightarrow> list_all token_ok (map fst xs)" for xs :: "(token \<times> token_status) list"
    by (simp add: list_all_iff case_prod_beta)
  then have "list_all (\<lambda>(tok, _). token_ok tok) toks"
    using a assms(1) by (simp add: sn_ok_def)
  moreover have "unverified s' k" if "key' \<in> set keys" "k \<in> set (key_ptrs key')" for key' k
    using assms that marked_keeps(5) [OF assms(3)] by (fastforce simp: sn_ok_def keys_ok_def)
  then have "keys_ok (s'\<lparr>sn_simpleKeys := keys\<rparr>)"
    using assms(1,2) by (auto simp: sn_ok_def keys_ok_def unverified_def)
  moreover have "refs \<noteq> []"
    using a(3) assms(1) started by (auto simp: sn_ok_def indents_ok_def)
  then have "indents_ok (s'\<lparr>sn_simpleKeys := keys\<rparr>)"
    using assms(1,2) started marked_keeps(1) [OF assms(3)] a
    by (auto simp: sn_ok_def indents_ok_def marker_ok_def [abs_def])
  ultimately show ?thesis
    using a started assms(1,2) by (simp add: sn_ok_def)
qed

lemma SimpleKey_mark_drop:
  "SimpleKey_mark ind tok key (s\<lparr>sn_simpleKeys := ks\<rparr>) = bind_run (SimpleKey_mark ind tok key s) (\<lambda>s'. ret (s'\<lparr>sn_simpleKeys := ks\<rparr>))"
  by (auto simp: SimpleKey_mark_def set_indent_status_def set_token_status_def split: option.splits)

text \<open>The state keeps its place and its indentations.\<close>

definition stays :: "scanner \<Rightarrow> scanner \<Rightarrow> bool" where
  "stays s s' \<longleftrightarrow> sn_ok s' \<and> place s' = place s \<and> sn_indents s' = sn_indents s"

lemma mark_and_drop:
  assumes "sn_ok s" "sn_simpleKeys s = key # keys"
  shows "\<exists>s'. SimpleKey_mark ind tok key s = ret s' \<and> stays s (s'\<lparr>sn_simpleKeys := keys\<rparr>)"
proof -
  have "sn_startedStream s"
    using assms by (auto simp: sn_ok_def split: if_splits)
  then obtain s' where s': "SimpleKey_mark ind tok key s = ret s'" "marked (key_ptrs key) s s'"
    using SimpleKey_mark_marked [OF assms(1) _ assms(2)] by blast
  then show ?thesis
    using sn_ok_drop_key [OF assms s'(2)] marked_keeps(2,3) [OF s'(2)] by (auto simp: stays_def place_def)
qed

lemma stays_refl: "sn_ok s \<Longrightarrow> stays s s"
  by (simp add: stays_def)

lemma runs_InvalidateSimpleKey:
  assumes "sn_ok s"
  shows "runs (InvalidateSimpleKey s) (stays s) E"
proof (cases "sn_simpleKeys s")
  case (Cons key keys)
  show ?thesis
    using mark_and_drop [OF assms Cons, of Ind_INVALID INVALID] stays_refl [OF assms]
    by (auto simp: InvalidateSimpleKey_def SimpleKey_Invalidate_def Cons)
qed (use assms in \<open>simp add: InvalidateSimpleKey_def stays_def\<close>)

lemma runs_VerifySimpleKey:
  assumes "sn_ok s"
  shows "runs (VerifySimpleKey s) (\<lambda>(_, s'). stays s s') E"
proof (cases "sn_simpleKeys s")
  case (Cons key keys)
  show ?thesis
    using mark_and_drop [OF assms Cons, of Ind_INVALID INVALID] mark_and_drop [OF assms Cons, of Ind_VALID VALID] stays_refl [OF assms]
    by (auto simp: VerifySimpleKey_def SimpleKey_Invalidate_def SimpleKey_Validate_def SimpleKey_mark_drop Let_def Cons)
qed (use assms in \<open>simp add: VerifySimpleKey_def stays_def\<close>)

section \<open>Indentation\<close>

lemma top_indent_ok:
  assumes "sn_ok s" "sn_startedStream s"
  shows "\<exists>k. sn_indents s = k # tl (sn_indents s) \<and> top_indent s = ret (sn_indentRefs s ! k) \<and> k < length (sn_indentRefs s)
    \<and> (if tl (sn_indents s) = [] then k = 0 else marker_ok s k)"
proof -
  have "indents_ok s"
    using assms by (simp add: sn_ok_def)
  then show ?thesis
    by (cases "sn_indents s") (auto simp: indents_ok_def top_indent_def marker_ok_def split: if_splits)
qed

lemma sn_ok_tl_indents: "sn_ok s \<Longrightarrow> tl (sn_indents s) \<noteq> [] \<Longrightarrow> sn_ok (s\<lparr>sn_indents := tl (sn_indents s)\<rparr>)"
  by (cases "sn_indents s") (auto simp: sn_ok_def keys_ok_def unverified_def indents_ok_def marker_ok_def [abs_def] split: if_splits)

lemma runs_PopIndent:
  assumes "sn_ok s" "sn_startedStream s" "tl (sn_indents s) \<noteq> []"
  shows "runs (PopIndent s) (\<lambda>s'. sn_ok s' \<and> place s' = place s \<and> sn_indents s' = tl (sn_indents s)) E"
proof -
  let ?s = "s\<lparr>sn_indents := tl (sn_indents s)\<rparr>"
  obtain k where k: "top_indent s = ret (sn_indentRefs s ! k)"
    using top_indent_ok [OF assms(1,2)] by blast
  have ok: "sn_ok ?s" "place ?s = place s" "sn_startedStream ?s"
    using sn_ok_tl_indents [OF assms(1,3)] assms(2) by (simp_all add: place_def)
  have "runs (InvalidateSimpleKey ?s) (\<lambda>s'. sn_ok s' \<and> place s' = place s \<and> sn_indents s' = tl (sn_indents s)) E"
    using ok by (intro runs_mono [OF runs_InvalidateSimpleKey [OF ok(1)]]) (auto simp: stays_def)
  moreover have "sn_ok (push_token (Token t) VALID ?s) \<and> place (push_token (Token t) VALID ?s) = place s" for t
    using ok sn_ok_push by simp
  ultimately show ?thesis
    using k ok by (auto simp: PopIndent_def Let_def push_token_def split: indent_type.splits)
qed

text \<open>Popping stops at the base marker.\<close>

lemma runs_pop_loop:
  assumes "sn_ok s" "sn_startedStream s"
    and turn: "\<And>s indent. turn s = (if sn_indents s = [] then ret (True, s)
      else bind_run (top_indent s) (\<lambda>indent. if stop s indent then ret (True, s) else bind_run (PopIndent s) (\<lambda>s1. ret (False, s1))))"
    and base: "\<And>s. stop s (IndentMarker_ctor (- 1) NONE)"
  shows "runs (repeat turn s) (\<lambda>s'. sn_ok s' \<and> place s' = place s) E"
proof (rule runs_repeat [where I = "\<lambda>s'. sn_ok s' \<and> place s' = place s" and m = "\<lambda>s. length (sn_indents s)"])
  fix s1
  assume s1: "sn_ok s1 \<and> place s1 = place s"
  then have started: "sn_startedStream s1"
    using assms(2) by (simp add: place_def)
  obtain k where k: "sn_indents s1 = k # tl (sn_indents s1)" "top_indent s1 = ret (sn_indentRefs s1 ! k)"
      "if tl (sn_indents s1) = [] then k = 0 else marker_ok s1 k"
    using top_indent_ok started s1 by blast
  have "sn_indentRefs s1 ! 0 = IndentMarker_ctor (- 1) NONE" "sn_indents s1 \<noteq> []"
    using s1 started by (simp_all add: sn_ok_def indents_ok_def)
  moreover have "length (tl (sn_indents s1)) < length (sn_indents s1)"
    using k(1) by (metis length_Cons lessI)
  moreover have "tl (sn_indents s1) \<noteq> []" if "\<not> stop s1 (sn_indentRefs s1 ! k)"
    using that k(3) base calculation(1) by auto
  then have "runs (bind_run (PopIndent s1) (\<lambda>s2. ret (False, s2))) (\<lambda>(stop, s'). \<not> stop \<and> sn_ok s' \<and> place s' = place s \<and> sn_indents s' = tl (sn_indents s1)) E"
    if "\<not> stop s1 (sn_indentRefs s1 ! k)"
    using that s1 by (intro runs_bindI [OF runs_PopIndent [OF _ started]]) auto
  ultimately show "runs (turn s1) (\<lambda>(stop, s'). if stop then sn_ok s' \<and> place s' = place s
      else (sn_ok s' \<and> place s' = place s) \<and> length (sn_indents s') < length (sn_indents s1)) E"
    using s1 by (cases "stop s1 (sn_indentRefs s1 ! k)") (auto simp: turn k(2) elim!: runs_mono)
qed (use assms in simp)

lemma runs_PopAllIndents:
  assumes "sn_ok s" "sn_startedStream s"
  shows "runs (PopAllIndents s) (\<lambda>s'. sn_ok s' \<and> place s' = place s) E"
  using runs_pop_loop [OF assms, of all_turn "\<lambda>s indent. im_type indent = NONE"] assms
  by (auto simp: PopAllIndents_def all_turn_def IndentMarker_ctor_def)

lemma runs_PopIndentToHere:
  assumes "sn_ok s" "sn_startedStream s"
  shows "runs (PopIndentToHere s) (\<lambda>s'. sn_ok s' \<and> place s' = place s) E"
proof -
  have here: "runs (repeat here_turn s) (\<lambda>s'. sn_ok s' \<and> place s' = place s) E"
    by (rule runs_pop_loop [OF assms, of here_turn "\<lambda>s indent. im_column indent < int (in_column (sn_in s))
        \<or> im_column indent = int (in_column (sn_in s)) \<and> \<not> (im_type indent = SEQ \<and> \<not> in_matches Exp_BlockEntry (sn_in s))"])
      (auto simp: here_turn_def IndentMarker_ctor_def intro!: arg_cong [of _ _ "bind_run _"])
  moreover have "runs (repeat invalid_turn s') (\<lambda>s'. sn_ok s' \<and> place s' = place s) E" if "sn_ok s'" "place s' = place s" for s'
    using runs_pop_loop [OF that(1), of invalid_turn "\<lambda>s indent. im_status indent \<noteq> Ind_INVALID"] that assms(2)
    by (auto simp: invalid_turn_def IndentMarker_ctor_def place_def)
  ultimately show ?thesis
    using assms by (auto simp: PopIndentToHere_def intro: runs_bindI [OF here])
qed

text \<open>A new marker, and a new key with its tokens.\<close>

definition add_marker :: "indent_marker \<Rightarrow> scanner \<Rightarrow> scanner" where
  "add_marker m s = s\<lparr>sn_indents := length (sn_indentRefs s) # sn_indents s, sn_indentRefs := sn_indentRefs s @ [m]\<rparr>"

lemma sn_ok_add_marker:
  assumes "sn_ok s" "sn_startedStream s" "im_type m \<noteq> NONE"
  shows "sn_ok (add_marker m s)" "marker_ok (add_marker m s) (length (sn_indentRefs s))"
proof -
  have "marker_ok s k \<Longrightarrow> marker_ok (add_marker m s) k" for k
    by (auto simp: marker_ok_def add_marker_def nth_append)
  moreover show "marker_ok (add_marker m s) (length (sn_indentRefs s))"
    using assms by (auto simp: marker_ok_def add_marker_def sn_ok_def indents_ok_def)
  ultimately show "sn_ok (add_marker m s)"
    using assms by (auto simp: sn_ok_def keys_ok_def indents_ok_def unverified_def add_marker_def nth_append list_all_iff)
qed

lemma PushIndentTo_cases:
  assumes "sn_ok s" "sn_startedStream s" "t \<noteq> NONE"
  obtains "PushIndentTo c t s = ret (None, s)"
  | m tt where "im_type m = t" "im_pStartToken m = Some (sn_popped s + length (sn_tokens s))"
      "PushIndentTo c t s = ret (Some (length (sn_indentRefs s)), add_marker m (push_token (Token tt) VALID s))"
proof -
  obtain tt where "GetStartTokenFor t = ret tt"
    using assms(3) by (cases t) (auto simp: GetStartTokenFor_def)
  moreover obtain k where "top_indent s = ret (sn_indentRefs s ! k)"
    using top_indent_ok [OF assms(1,2)] by blast
  moreover define m where "m = (IndentMarker_ctor (int c) t)\<lparr>im_pStartToken := Some (sn_popped s + length (sn_tokens s))\<rparr>"
  ultimately have "PushIndentTo c t s = ret (None, s)
    \<or> PushIndentTo c t s = ret (Some (length (sn_indentRefs s)), add_marker m (push_token (Token tt) VALID s))"
    by (simp add: PushIndentTo_def Let_def add_marker_def push_token_def last_token_def)
  then show ?thesis
    using that(1) that(2) [of m tt] by (auto simp: m_def IndentMarker_ctor_def)
qed

lemma runs_PushIndentTo:
  assumes "sn_ok s" "sn_startedStream s" "t \<noteq> NONE"
  shows "runs (PushIndentTo c t s) (\<lambda>(_, s'). sn_ok s' \<and> place s' = place s) E"
proof (rule PushIndentTo_cases [OF assms, of c])
  fix m tt
  assume *: "im_type m = t" "PushIndentTo c t s = ret (Some (length (sn_indentRefs s)), add_marker m (push_token (Token tt) VALID s))"
  then show ?thesis
    using sn_ok_add_marker(1) [of "push_token (Token tt) VALID s" m] sn_ok_push [OF assms(1,2)] assms
    by (simp add: add_marker_def place_def push_token_def)
qed (use assms in simp)

lemma sn_ok_add_key:
  assumes "sn_ok s" "sn_startedStream s" "\<not> sn_endedStream s"
    and "list_all (\<lambda>(t, st). token_ok t \<and> st = UNVERIFIED) ts"
    and "key_ptrs key = map ((+) (sn_popped s + length (sn_tokens s))) [0..<length ts]"
    and "list_all (marker_ok s) (ptr_list (sk_pIndent key))"
  shows "sn_ok (s\<lparr>sn_tokens := sn_tokens s @ ts, sn_simpleKeys := key # sn_simpleKeys s\<rparr>)" (is "sn_ok ?s")
proof -
  have old: "k < sn_popped s + length (sn_tokens s)" "unverified ?s k"
    if "key' \<in> set (sn_simpleKeys s)" "k \<in> set (key_ptrs key')" for key' k
  proof -
    have "unverified s k"
      using assms(1) that by (auto simp: sn_ok_def keys_ok_def)
    then show "k < sn_popped s + length (sn_tokens s)" "unverified ?s k"
      by (auto simp: unverified_def nth_append)
  qed
  have "unverified ?s k" if k: "k \<in> set (key_ptrs key)" for k
  proof -
    obtain j where "k = sn_popped s + length (sn_tokens s) + j" "j < length ts"
      using k unfolding assms(5) by (auto simp del: image_add_atLeastLessThan)
    moreover have "snd (ts ! j) = UNVERIFIED"
      using assms(4) calculation(2) by (auto simp: list_all_length case_prod_beta)
    ultimately show ?thesis
      by (simp add: unverified_def nth_append)
  qed
  moreover have "distinct (key_ptrs key)"
    using assms(5) by (simp add: distinct_map)
  moreover have "set (key_ptrs key) \<inter> set (concat (map key_ptrs (sn_simpleKeys s))) = {}"
    using old(1) assms(5) by fastforce
  ultimately have "keys_ok ?s"
    using old(2) assms(1) by (auto simp: sn_ok_def keys_ok_def)
  moreover have "indents_ok ?s"
    using assms(1,2,6) by (auto simp: sn_ok_def indents_ok_def marker_ok_def [abs_def])
  moreover have "list_all (\<lambda>(tok, _). token_ok tok) ts"
    using assms(4) by (auto simp: list_all_iff)
  ultimately show ?thesis
    using assms(1-3) by (simp add: sn_ok_def)
qed

lemma runs_InsertPotentialSimpleKey:
  assumes "sn_ok s" "sn_startedStream s" "\<not> sn_endedStream s"
  shows "runs (InsertPotentialSimpleKey s) (\<lambda>s'. sn_ok s' \<and> place s' = place s) E"
proof -
  let ?n = "sn_popped s + length (sn_tokens s)"
  define key where "key = \<lparr>sk_line = in_line (sn_in s), sk_pos = in_pos (sn_in s), sk_flowLevel = GetFlowLevel s,
    sk_pIndent = None, sk_pMapStart = None, sk_pKey = None\<rparr>"
  let ?simple = "s\<lparr>sn_tokens := sn_tokens s @ [(Token KEY, UNVERIFIED)], sn_simpleKeys := key\<lparr>sk_pKey := Some ?n\<rparr> # sn_simpleKeys s\<rparr>"
  have simple: "sn_ok ?simple"
    using assms by (intro sn_ok_add_key) (simp_all add: key_ptrs_def ptr_list_def key_def)
  have insert_simple: "push_token (Token KEY) UNVERIFIED s\<lparr>sn_simpleKeys := key\<lparr>sk_pKey := Some (last_token (push_token (Token KEY) UNVERIFIED s))\<rparr>
      # sn_simpleKeys (push_token (Token KEY) UNVERIFIED s)\<rparr> = ?simple"
    by (simp add: push_token_def last_token_def)
  have ins: "InsertPotentialSimpleKey s = (if \<not> CanInsertPotentialSimpleKey s then ret s else bind_run
      (if InBlockContext s then bind_run (PushIndentTo (in_column (sn_in s)) MAP s) (\<lambda>(pIndent, s1). case pIndent of
          None \<Rightarrow> ret (key, s1)
        | Some k \<Rightarrow> bind_run (set_indent_status (Some k) Ind_UNKNOWN s1) (\<lambda>s2.
            let start = im_pStartToken (sn_indentRefs s2 ! k) in
            bind_run (set_token_status start UNVERIFIED s2) (\<lambda>s3. ret (key\<lparr>sk_pIndent := Some k, sk_pMapStart := start\<rparr>, s3))))
       else ret (key, s)) (\<lambda>(key1, s4). let s5 = push_token (Token KEY) UNVERIFIED s4
         in ret (s5\<lparr>sn_simpleKeys := key1\<lparr>sk_pKey := Some (last_token s5)\<rparr> # sn_simpleKeys s5\<rparr>)))"
    by (simp only: InsertPotentialSimpleKey_def key_def Let_def)
  show ?thesis
  proof (rule PushIndentTo_cases [OF assms(1,2), of MAP "in_column (sn_in s)"])
    assume "PushIndentTo (in_column (sn_in s)) MAP s = ret (None, s)"
    then show ?thesis
      using assms simple by (auto simp: ins Let_def insert_simple place_def)
  next
    fix m tt
    assume m: "im_type m = MAP" "im_pStartToken m = Some ?n"
      "PushIndentTo (in_column (sn_in s)) MAP s = ret (Some (length (sn_indentRefs s)), add_marker m (push_token (Token tt) VALID s))"
    let ?k = "length (sn_indentRefs s)"
    define t where "t = add_marker (m\<lparr>im_status := Ind_UNKNOWN\<rparr>) s"
    let ?key = "key\<lparr>sk_pIndent := Some ?k, sk_pMapStart := Some ?n, sk_pKey := Some (Suc ?n)\<rparr>"
    let ?t = "t\<lparr>sn_tokens := sn_tokens t @ [(Token tt, UNVERIFIED), (Token KEY, UNVERIFIED)], sn_simpleKeys := ?key # sn_simpleKeys t\<rparr>"
    have t: "sn_ok t" "marker_ok t ?k" "sn_tokens t = sn_tokens s" "sn_popped t = sn_popped s" "place t = place s"
      using sn_ok_add_marker [OF assms(1,2), of "m\<lparr>im_status := Ind_UNKNOWN\<rparr>"] m(1) by (simp_all add: t_def add_marker_def place_def)
    have "sn_ok ?t"
      by (rule sn_ok_add_key) (use t assms in \<open>auto simp: key_ptrs_def ptr_list_def place_def upt_rec\<close>)
    moreover have "place ?t = place s"
      using t(5) by (simp add: place_def)
    moreover have "InsertPotentialSimpleKey s = ret ?t" if "CanInsertPotentialSimpleKey s" "InBlockContext s"
      using that m by (simp add: ins set_indent_status_def set_token_status_def add_marker_def push_token_def last_token_def t_def)
    moreover have "InsertPotentialSimpleKey s = ret ?simple" if "CanInsertPotentialSimpleKey s" "InFlowContext s"
      using that by (simp add: ins insert_simple Let_def)
    moreover have "InsertPotentialSimpleKey s = ret s" if "\<not> CanInsertPotentialSimpleKey s"
      using that by (simp add: ins)
    ultimately show ?thesis
      using assms simple by (cases "CanInsertPotentialSimpleKey s"; cases "InBlockContext s") (auto simp: place_def)
  qed simp
qed

section \<open>Tokens\<close>

definition ready :: "scanner \<Rightarrow> bool" where
  "ready s \<longleftrightarrow> sn_ok s \<and> sn_startedStream s \<and> \<not> sn_endedStream s"

text \<open>A flow collection is entered by its opening bracket only.\<close>

definition opens_flow :: "char \<Rightarrow> bool" where
  "opens_flow c \<longleftrightarrow> c = CHR ''['' \<or> c = CHR ''{''"

definition flow_kept :: "scanner \<Rightarrow> scanner \<Rightarrow> bool" where
  "flow_kept s s' \<longleftrightarrow> (sn_flows s = [] \<longrightarrow> sn_flows s' = [] \<or> (in_good (sn_in s) \<and> opens_flow (in_peek (sn_in s))))"

definition moved :: "scanner \<Rightarrow> scanner \<Rightarrow> bool" where
  "moved s s' \<longleftrightarrow> ready s' \<and> after (sn_in s) (sn_in s') \<and> flow_kept s s'"

definition advanced :: "scanner \<Rightarrow> scanner \<Rightarrow> bool" where
  "advanced s s' \<longleftrightarrow> ready s' \<and> well_after (sn_in s) (sn_in s') \<and> flow_kept s s'"

text \<open>What an operation that stays in place leaves.\<close>

definition remains :: "scanner \<Rightarrow> scanner \<Rightarrow> bool" where
  "remains s s' \<longleftrightarrow> ready s' \<and> sn_in s' = sn_in s \<and> sn_flows s' = sn_flows s"

lemma remainsI: "ready s \<Longrightarrow> sn_ok s' \<Longrightarrow> place s' = place s \<Longrightarrow> remains s s'"
  by (simp add: remains_def ready_def place_def)

lemma runs_remains:
  assumes "ready s"
  shows "runs (InvalidateSimpleKey s) (remains s) E" "runs (VerifySimpleKey s) (\<lambda>(_, s'). remains s s') E"
    "runs (PopAllIndents s) (remains s) E" "runs (PopIndentToHere s) (remains s) E"
    "runs (InsertPotentialSimpleKey s) (remains s) E"
    "t \<noteq> NONE \<Longrightarrow> runs (PushIndentTo c t s) (\<lambda>(_, s'). remains s s') E"
proof -
  have s: "sn_ok s" "sn_startedStream s" "\<not> sn_endedStream s"
    using assms by (simp_all add: ready_def)
  note remains = remainsI [OF assms]
  show "runs (InvalidateSimpleKey s) (remains s) E"
    by (rule runs_mono [OF runs_InvalidateSimpleKey [OF s(1)]]) (auto simp: stays_def intro: remains)
  show "runs (VerifySimpleKey s) (\<lambda>(_, s'). remains s s') E"
    by (rule runs_mono [OF runs_VerifySimpleKey [OF s(1)]]) (auto simp: stays_def intro: remains)
  show "runs (PopAllIndents s) (remains s) E"
    by (rule runs_mono [OF runs_PopAllIndents [OF s(1,2)]]) (auto intro: remains)
  show "runs (PopIndentToHere s) (remains s) E"
    by (rule runs_mono [OF runs_PopIndentToHere [OF s(1,2)]]) (auto intro: remains)
  show "runs (InsertPotentialSimpleKey s) (remains s) E"
    by (rule runs_mono [OF runs_InsertPotentialSimpleKey [OF s]]) (auto intro: remains)
  show "runs (PushIndentTo c t s) (\<lambda>(_, s'). remains s s') E" if "t \<noteq> NONE"
    by (rule runs_mono [OF runs_PushIndentTo [OF s(1,2) that]]) (auto intro: remains)
qed

lemma ready_irrelevant [simp]:
  "ready (s\<lparr>sn_in := i\<rparr>) = ready s" "ready (s\<lparr>sn_simpleKeyAllowed := b\<rparr>) = ready s"
  "ready (s\<lparr>sn_canBeJSONFlow := b\<rparr>) = ready s" "ready (s\<lparr>sn_flows := fs\<rparr>) = ready s" "ready (set_flags a b s) = ready s"
  by (simp_all add: ready_def) (simp_all add: set_flags_def)

lemma set_flags_in [simp]: "sn_in (set_flags a b s) = sn_in s" "sn_flows (set_flags a b s) = sn_flows s"
  by (simp_all add: set_flags_def)

lemma push_token_in [simp]: "sn_in (push_token t st s) = sn_in s" "sn_flows (push_token t st s) = sn_flows s"
  by (simp_all add: push_token_def)

lemma ready_push [simp]: "ready s \<Longrightarrow> token_ok t \<Longrightarrow> ready (push_token t st s)"
  by (simp add: ready_def sn_ok_push) (simp add: push_token_def)

lemma ready_drop_keys [simp]: "ready s \<Longrightarrow> ready (PopAllSimpleKeys s)"
  by (auto simp: ready_def sn_ok_def keys_ok_def indents_ok_def marker_ok_def [abs_def] PopAllSimpleKeys_def)

lemma PopAllSimpleKeys_in [simp]: "sn_in (PopAllSimpleKeys s) = sn_in s" "sn_flows (PopAllSimpleKeys s) = sn_flows s"
  by (simp_all add: PopAllSimpleKeys_def)

lemma ready_eat_and_push: "ready s \<Longrightarrow> ready (eat_and_push n t s)"
  by (simp add: eat_and_push_def)

lemma in_eat_and_push [simp]: "sn_in (eat_and_push n t s) = in_eat n (sn_in s)" "sn_flows (eat_and_push n t s) = sn_flows s"
  by (simp_all add: eat_and_push_def)

lemma advanced_eat_and_push:
  "ready s' \<Longrightarrow> sn_in s' = sn_in s \<Longrightarrow> in_good (sn_in s) \<Longrightarrow> 0 < n \<Longrightarrow> flow_kept s s' \<Longrightarrow> advanced s (eat_and_push n t s')"
  by (simp add: advanced_def ready_eat_and_push well_after_eat flow_kept_def)

lemmas token_simps = advanced_eat_and_push parser_fault_def remains_def FLOW_END_def flow_kept_def

lemma runs_solo_entry:
  assumes "ready s"
  shows "runs (solo_entry s) (remains s) parser_fault"
proof -
  have "runs (bind_run (VerifySimpleKey s) (\<lambda>(b, s1). ret (if b then push_token (Token VALUE) VALID s1 else s1))) (remains s) parser_fault"
    by (rule runs_bindI [OF runs_remains(2) [OF assms]]) (auto simp: remains_def)
  then show ?thesis
    using runs_remains(1) [OF assms] assms by (auto simp: solo_entry_def remains_def split: list.splits flow_marker.splits)
qed

lemma runs_flow_tokens:
  assumes "ready s" "in_good (sn_in s)"
  shows "opens_flow (in_peek (sn_in s)) \<Longrightarrow> runs (ScanFlowStart s) (advanced s) parser_fault" "runs (ScanFlowEnd s) (advanced s) parser_fault"
    "runs (ScanFlowEntry s) (advanced s) parser_fault"
proof -
  show "runs (ScanFlowStart s) (advanced s) parser_fault" if "opens_flow (in_peek (sn_in s))"
    unfolding ScanFlowStart_def by (rule runs_bindI [OF runs_remains(5)]) (use assms that in \<open>auto simp: token_simps Let_def\<close>)
  show "runs (ScanFlowEnd s) (advanced s) parser_fault"
    unfolding ScanFlowEnd_def by (intro runs_if runs_bindI [OF runs_solo_entry]) (use assms in \<open>auto simp: token_simps Let_def InBlockContext_def\<close>)
  show "runs (ScanFlowEntry s) (advanced s) parser_fault"
    unfolding ScanFlowEntry_def by (rule runs_bindI [OF runs_solo_entry]) (use assms in \<open>auto simp: token_simps\<close>)
qed

lemma runs_push_map:
  assumes "ready s"
  shows "runs (if InBlockContext s then if \<not> sn_simpleKeyAllowed s then throw (ParserException m)
      else bind_run (PushIndentTo c MAP s) (\<lambda>(_, s1). ret s1) else ret s) (remains s) parser_fault"
  using assms by (intro runs_if runs_bindI [OF runs_remains(6)]) (auto simp: token_simps)

lemma runs_block_tokens:
  assumes "ready s" "in_good (sn_in s)"
  shows "runs (ScanBlockEntry s) (advanced s) parser_fault" "runs (ScanKey s) (advanced s) parser_fault"
    "runs (ScanValue s) (advanced s) parser_fault" "runs (ScanDocMark t s) (advanced s) parser_fault"
proof -
  show "runs (ScanBlockEntry s) (advanced s) parser_fault"
    unfolding ScanBlockEntry_def
    by (intro runs_if runs_bindI [OF runs_remains(6)]) (use assms in \<open>auto simp: token_simps\<close>)
  show "runs (ScanKey s) (advanced s) parser_fault"
    unfolding ScanKey_def by (rule runs_bindI [OF runs_push_map]) (use assms in \<open>auto simp: token_simps\<close>)
  show "runs (ScanDocMark t s) (advanced s) parser_fault"
    unfolding ScanDocMark_def by (rule runs_bindI [OF runs_remains(3)]) (use assms in \<open>auto simp: token_simps\<close>)
  show "runs (ScanValue s) (advanced s) parser_fault"
    unfolding ScanValue_def Let_def
  proof (rule runs_bindI [OF runs_remains(2) [OF assms(1)]], clarify)
    fix b s1
    assume "remains s s1"
    then have s1: "ready (s1\<lparr>sn_canBeJSONFlow := False\<rparr>)" "sn_in s1 = sn_in s" "sn_flows s1 = sn_flows s"
      by (simp_all add: remains_def)
    show "runs (bind_run (if b then ret (s1\<lparr>sn_canBeJSONFlow := False, sn_simpleKeyAllowed := False\<rparr>)
        else bind_run (if InBlockContext (s1\<lparr>sn_canBeJSONFlow := False\<rparr>) then
            if \<not> sn_simpleKeyAllowed (s1\<lparr>sn_canBeJSONFlow := False\<rparr>) then throw (ParserException ''illegal map value'')
            else bind_run (PushIndentTo (in_column (sn_in (s1\<lparr>sn_canBeJSONFlow := False\<rparr>))) MAP (s1\<lparr>sn_canBeJSONFlow := False\<rparr>))
              (\<lambda>(_, s3). ret s3)
          else ret (s1\<lparr>sn_canBeJSONFlow := False\<rparr>)) (\<lambda>s3. ret (s3\<lparr>sn_simpleKeyAllowed := InBlockContext s3\<rparr>)))
        (\<lambda>s4. ret (eat_and_push 1 VALUE s4))) (advanced s) parser_fault"
      by (rule runs_bindI [where P = "\<lambda>s'. ready s' \<and> sn_in s' = sn_in s \<and> sn_flows s' = sn_flows s"], intro runs_if runs_bindI [OF runs_push_map [OF s1(1)]])
        (use s1 assms in \<open>auto simp: token_simps\<close>)
  qed
qed

lemma runs_ScanDirective:
  assumes "ready s" "in_good (sn_in s)"
  shows "runs (ScanDirective s) (advanced s) parser_fault"
proof -
  have params: "runs (repeat param_turn ([], i)) (\<lambda>(_, i'). after i i') parser_fault" for i
  proof (rule runs_repeat [where I = "\<lambda>(_, i'). after i i'" and m = "\<lambda>(_, i). left i"])
    fix st :: "string list \<times> input"
    assume st: "case st of (_, i') \<Rightarrow> after i i'"
    obtain ps j where st_eq: "st = (ps, j)"
      by (cases st)
    let ?blank = "eat_while (in_matches Exp_Blank) j"
    obtain param j' where j': "get_while (\<lambda>i. \<not> in_matches Exp_BlankOrBreak i) ?blank = (param, j')"
      by (cases "get_while (\<lambda>i. \<not> in_matches Exp_BlankOrBreak i) ?blank")
    have "after i ?blank" "after ?blank j'"
      using st st_eq after_eat_while [of ?blank "\<lambda>i. \<not> in_matches Exp_BlankOrBreak i"] by (auto simp: j' intro: reading)
    moreover have "well_after ?blank j'" if "in_good ?blank" "\<not> in_matches Exp_Break ?blank"
    proof -
      have "\<not> in_matches Exp_Blank ?blank"
        using get_while_stops [of "in_matches Exp_Blank" j] that(1) by auto
      then have "\<not> in_matches Exp_BlankOrBreak ?blank"
        using that(2) by (auto simp: in_matches_def Matches_def Exp_BlankOrBreak_def split: option.splits)
      then show ?thesis
        using well_after_eat_while [of ?blank "\<lambda>i. \<not> in_matches Exp_BlankOrBreak i"] that(1) by (simp add: j')
    qed
    ultimately show "runs (param_turn st) (\<lambda>(stop, s'). if stop then case s' of (_, i') \<Rightarrow> after i i'
        else (case s' of (_, i') \<Rightarrow> after i i') \<and> (case s' of (_, i) \<Rightarrow> left i) < (case st of (_, i) \<Rightarrow> left i)) parser_fault"
      using eat_while_left [of "in_matches Exp_Blank" j]
      by (auto simp: param_turn_def st_eq j' Let_def intro: after_trans dest!: well_after_left)
  qed simp
  show ?thesis
    unfolding ScanDirective_def
  proof (rule runs_bindI [OF runs_remains(3) [OF assms(1)]])
    fix s1
    assume s1: "remains s s1"
    obtain name i1 where i1: "get_while (\<lambda>i. \<not> in_matches Exp_BlankOrBreak i) (in_next (sn_in s)) = (name, i1)"
      by (cases "get_while (\<lambda>i. \<not> in_matches Exp_BlankOrBreak i) (in_next (sn_in s))")
    have "after (in_next (sn_in s)) i1"
      using after_eat_while [of "in_next (sn_in s)" "\<lambda>i. \<not> in_matches Exp_BlankOrBreak i"] by (simp add: i1)
    then have "well_after (sn_in s) i1"
      using well_after_next [OF assms(2)] well_after_trans by blast
    then show "runs (let s2 = set_flags False False (PopAllSimpleKeys s1);
        (name, i1) = get_while (\<lambda>i. \<not> in_matches Exp_BlankOrBreak i) (in_next (sn_in s2))
      in bind_run (repeat param_turn ([], i1)) (\<lambda>(params, i2).
        ret (push_token ((Token DIRECTIVE)\<lparr>tk_value := name, tk_params := params\<rparr>) VALID (s2\<lparr>sn_in := i2\<rparr>)))) (advanced s) parser_fault"
      using s1 i1 by (auto simp: Let_def remains_def advanced_def flow_kept_def token_ok_def Token_def
          intro!: runs_bindI [OF params] intro: well_after_trans)
  qed
qed

lemma runs_ScanAnchorOrAlias:
  assumes "ready s" "in_good (sn_in s)"
  shows "runs (ScanAnchorOrAlias s) (advanced s) parser_fault"
  unfolding ScanAnchorOrAlias_def
proof (rule runs_bindI [OF runs_remains(5) [OF assms(1)]])
  fix s1
  assume s1: "remains s s1"
  obtain name i1 where i1: "get_while (in_matches Exp_Anchor) (in_next (sn_in s)) = (name, i1)"
    by (cases "get_while (in_matches Exp_Anchor) (in_next (sn_in s))")
  have "after (in_next (sn_in s)) i1"
    using after_eat_while [of "in_next (sn_in s)" "in_matches Exp_Anchor"] by (simp add: i1)
  then have "well_after (sn_in s) i1"
    using well_after_next [OF assms(2)] well_after_trans by blast
  then show "runs (let s2 = set_flags False False s1; (indicator, i1) = in_get (sn_in s2); alias = (indicator = CHR ''*'');
      (name, i2) = get_while (in_matches Exp_Anchor) i1
    in if name = [] then throw (ParserException (if alias then ''alias not found after *'' else ''anchor not found after &''))
       else if in_good i2 \<and> \<not> in_matches Exp_AnchorEnd i2
       then throw (ParserException (if alias then ''illegal character found while scanning alias''
                                    else ''illegal character found while scanning anchor''))
       else ret (push_token ((Token (if alias then ALIAS else ANCHOR))\<lparr>tk_value := name\<rparr>) VALID (s2\<lparr>sn_in := i2\<rparr>)))
    (advanced s) parser_fault"
    using s1 i1 by (auto simp: Let_def in_get_def remains_def advanced_def flow_kept_def token_ok_def Token_def parser_fault_def)
qed

lemma runs_scan_tag_token: "runs (scan_tag_token i) (\<lambda>(tok, i'). after i i' \<and> token_ok tok) parser_fault"
proof -
  have verbatim: "runs (bind_run (ScanVerbatimTag i) (\<lambda>(tag, i1). ret ((Token TAG)\<lparr>tk_value := tag, tk_data := tag_data VERBATIM\<rparr>, i1)))
      (\<lambda>(tok, i'). after i i' \<and> token_ok tok) parser_fault"
    by (rule runs_bindI [OF runs_ScanVerbatimTag]) (auto simp: token_ok_def Token_def tag_data_def)
  have suffix: "runs (bind_run (ScanTagSuffix j) (\<lambda>(suffix, i2). ret (tok\<lparr>tk_params := tk_params tok @ [suffix], tk_data := tag_data NAMED_HANDLE\<rparr>, i2)))
      (\<lambda>(tok, i'). after i i' \<and> token_ok tok) parser_fault" if "after i j" for j and tok :: token
    by (rule runs_bindI [OF runs_ScanTagSuffix]) (use that in \<open>auto simp: token_ok_def tag_data_def intro: after_trans\<close>)
  show ?thesis
    unfolding scan_tag_token_def Let_def
  proof (intro runs_if verbatim runs_bindI [OF runs_ScanTagHandle], clarify, intro runs_if suffix)
    fix handle :: string and can :: bool and i1
    assume i1: "after i i1"
    then show "after i (in_next i1)"
      by (rule after_nextI)
    show "runs (ret ((Token TAG)\<lparr>tk_value := handle, tk_data := tag_data
        (if \<not> can \<and> handle = [] then NON_SPECIFIC else if handle = [] then SECONDARY_HANDLE else PRIMARY_HANDLE)\<rparr>, i1))
      (\<lambda>(tok, i'). after i i' \<and> token_ok tok) parser_fault"
      using i1 by (simp add: token_ok_def Token_def tag_data_def)
  qed
qed

lemma runs_ScanTag:
  assumes "ready s" "in_good (sn_in s)"
  shows "runs (ScanTag s) (advanced s) parser_fault"
  unfolding ScanTag_def Let_def
  by (rule runs_bindI [OF runs_remains(5) [OF assms(1)]], rule runs_bindI [OF runs_scan_tag_token])
    (use assms in \<open>auto simp: remains_def advanced_def flow_kept_def intro: well_after_trans [OF well_after_next]\<close>)

subsection \<open>Scalars\<close>

lemma GetTopIndent_ready: "ready s \<Longrightarrow> \<exists>k. GetTopIndent s = ret k"
  using top_indent_ok [of s] by (auto simp: GetTopIndent_def ready_def)

lemma token_ok_scalar [simp]: "t \<noteq> TAG \<Longrightarrow> token_ok ((Token t)\<lparr>tk_value := v\<rparr>)"
  by (simp add: token_ok_def Token_def)

lemma runs_ScanQuotedScalar:
  assumes "ready s" "in_good (sn_in s)"
  shows "runs (ScanQuotedScalar s) (advanced s) parser_fault"
  unfolding ScanQuotedScalar_def Let_def
  by (rule runs_bindI [OF runs_remains(5) [OF assms(1)]], rule runs_bindI [OF runs_ScanScalar])
    (use assms in \<open>auto simp: remains_def advanced_def flow_kept_def intro: well_after_trans [OF well_after_next]\<close>)

lemma eat_comment_after [simp]: "after i (eat_comment i)"
  by (simp add: eat_comment_def)

lemma runs_block_indicators: "runs (block_indicators cs p) (\<lambda>_. True) parser_fault"
  by (induction cs p rule: block_indicators.induct) (simp_all add: parser_fault_def)

lemma runs_ScanBlockScalar:
  assumes "ready s" "in_good (sn_in s)"
  shows "runs (ScanBlockScalar s) (advanced s) parser_fault"
proof -
  obtain top where top: "GetTopIndent s = ret top"
    using GetTopIndent_ready [OF assms(1)] by blast
  have after: "well_after (sn_in s) (eat_comment (eat_while P (in_eat n (in_next (sn_in s)))))" for P n
    by (meson well_after_trans well_after_next assms(2) after_trans after_eat after_eat_while eat_comment_after)
  have "runs (bind_run (ScanScalar i p) (\<lambda>(scalar, _, i4).
      ret (push_token ((Token NON_PLAIN_SCALAR)\<lparr>tk_value := scalar\<rparr>) VALID (set_flags True False (s\<lparr>sn_in := i4\<rparr>))))) (advanced s) parser_fault"
    if "well_after (sn_in s) i" for i p
    by (rule runs_bindI [OF runs_ScanScalar]) (use assms that in \<open>auto simp: advanced_def flow_kept_def intro: well_after_trans\<close>)
  then show ?thesis
    unfolding ScanBlockScalar_def in_get_def Let_def case_prod_beta
    by (intro runs_bindI [OF runs_block_indicators]) (auto simp: top in_get_n_eat parser_fault_def after case_prod_beta)
qed

text \<open>A plain scalar may read nothing: if its end expression matches at once.\<close>

definition plain_over :: "bool \<Rightarrow> input \<Rightarrow> bool" where
  "plain_over flow i \<longleftrightarrow> line_over (plain_params flow 0) i"

lemma runs_ScanPlainScalar:
  assumes "ready s"
  shows "runs (ScanPlainScalar s) (\<lambda>s'. moved s s' \<and> (plain_over (InFlowContext s) (sn_in s) \<or> advanced s s')) parser_fault"
proof -
  obtain top where top: "GetTopIndent s = ret top"
    using GetTopIndent_ready [OF assms] by blast
  have "line_over (plain_params f top) i = plain_over f i" for f i
    by (simp add: plain_over_def line_over_def plain_params_def end_of_def)
  then show ?thesis
    unfolding ScanPlainScalar_def Let_def top bind_run_simps
    by (intro runs_bindI [OF runs_remains(5) [OF assms]] runs_bindI [OF runs_ScanScalar])
      (auto simp: remains_def advanced_def flow_kept_def moved_def)
qed

definition colon_stuck :: "string \<Rightarrow> bool" where
  "colon_stuck cs \<longleftrightarrow> first_char cs = CHR '':'' \<and> (first_char (tl cs) = stream_eof \<or> first_char (tl cs) = CHR '']'')"

lemma plain_block_reads:
  "Matches Exp_PlainScalar cs \<Longrightarrow> \<not> Matches Exp_ScanScalarEnd cs \<and> \<not> Matches Exp_Break cs"
  by (auto simp: Matches_def Exp_PlainScalar_def Exp_ScanScalarEnd_def Exp_EndScalar_def Exp_BlankOrBreak_def
      split: option.splits if_splits)

lemma plain_flow_reads:
  assumes "Matches Exp_PlainScalarInFlow cs" "\<not> Matches Exp_ValueInFlow cs" "\<not> colon_stuck cs"
  shows "\<not> Matches Exp_ScanScalarEndInFlow cs \<and> \<not> Matches Exp_Break cs"
  using assms
  by (auto simp: Matches_def Exp_PlainScalarInFlow_def Exp_ScanScalarEndInFlow_def Exp_EndScalarInFlow_def Exp_ValueInFlow_def
      Exp_BlankOrBreak_def colon_stuck_def drop_Suc stream_eof_def split: option.splits if_splits)

section \<open>Scanning\<close>

lemma runs_ScanToNextToken:
  assumes "ready s"
  shows "runs (ScanToNextToken s) (\<lambda>s'. ready s' \<and> after (sn_in s) (sn_in s') \<and> sn_flows s' = sn_flows s) parser_fault"
proof -
  let ?at = "\<lambda>s s'. ready s' \<and> after (sn_in s) (sn_in s') \<and> sn_flows s' = sn_flows s"
  have white: "runs (repeat white_turn s) (?at s) parser_fault" if "ready s" for s
    by (rule runs_repeat [where I = "?at s" and m = "\<lambda>s. left (sn_in s)"])
      (use that in \<open>auto simp: white_turn_def Let_def in_good_def intro: reading\<close>)
  have turn: "runs (next_token_turn s) (\<lambda>(stop, s'). ?at s s' \<and> (\<not> stop \<longrightarrow> left (sn_in s') < left (sn_in s))) parser_fault"
    if "ready s" for s
    unfolding next_token_turn_def Let_def
  proof (rule runs_bindI [OF white [OF that]], intro runs_if)
    fix s1
    assume s1: "?at s s1"
    let ?i = "eat_comment (sn_in s1)"
    have i: "after (sn_in s) ?i"
      using s1 after_trans eat_comment_after by blast
    then show "runs (ret (True, s1\<lparr>sn_in := ?i\<rparr>)) (\<lambda>(stop, s'). ?at s s' \<and> (\<not> stop \<longrightarrow> left (sn_in s') < left (sn_in s))) parser_fault"
      using s1 by simp
    let ?s = "s1\<lparr>sn_in := eat_match Exp_Break ?i\<rparr>"
    assume "\<not> \<not> in_matches Exp_Break (sn_in (s1\<lparr>sn_in := ?i\<rparr>))"
    then have "well_after (sn_in s) (sn_in ?s)"
      using after_well_trans [OF i in_matches_Break] by simp
    then have "after (sn_in s) (sn_in ?s)" "left (sn_in ?s) < left (sn_in s)"
      using well_after_left well_after_after by blast+
    then have "runs (bind_run (InvalidateSimpleKey ?s) (\<lambda>s3. ret (False, if InBlockContext s3 then s3\<lparr>sn_simpleKeyAllowed := True\<rparr> else s3)))
        (\<lambda>(stop, s'). ?at s s' \<and> (\<not> stop \<longrightarrow> left (sn_in s') < left (sn_in s))) parser_fault"
      by (intro runs_bindI [OF runs_remains(1)]) (use s1 in \<open>auto simp: remains_def\<close>)
    then show "runs (bind_run (InvalidateSimpleKey (s1\<lparr>sn_in := ?i, sn_in := eat_match Exp_Break (sn_in (s1\<lparr>sn_in := ?i\<rparr>))\<rparr>))
        (\<lambda>s3. ret (False, if InBlockContext s3 then s3\<lparr>sn_simpleKeyAllowed := True\<rparr> else s3)))
        (\<lambda>(stop, s'). ?at s s' \<and> (\<not> stop \<longrightarrow> left (sn_in s') < left (sn_in s))) parser_fault"
      by simp
  qed
  show ?thesis
    unfolding ScanToNextToken_def
    by (rule runs_repeat [where I = "?at s" and m = "\<lambda>s. left (sn_in s)"], use assms in simp)
      (rule runs_mono [OF turn], auto intro: after_trans)
qed

definition finished :: "scanner \<Rightarrow> bool" where
  "finished s \<longleftrightarrow> sn_ok s \<and> sn_startedStream s \<and> sn_endedStream s"

lemma finished_end:
  assumes "ready s"
  shows "finished ((PopAllSimpleKeys s)\<lparr>sn_simpleKeyAllowed := False, sn_endedStream := True\<rparr>)"
  using assms by (auto simp: finished_def ready_def sn_ok_def keys_ok_def indents_ok_def marker_ok_def [abs_def] PopAllSimpleKeys_def)

lemma runs_EndStream: "ready s \<Longrightarrow> runs (EndStream s) finished parser_fault"
  unfolding EndStream_def Let_def
  by (rule runs_bindI [OF runs_remains(3)]) (auto simp: remains_def intro: finished_end)

text \<open>One token, the stream's end, or the place where nothing is read.\<close>

definition progress_from :: "scanner \<Rightarrow> scanner \<Rightarrow> bool" where
  "progress_from s s' \<longleftrightarrow> finished s' \<or> advanced s s' \<or> (moved s s' \<and> sn_flows s \<noteq> [] \<and> colon_stuck (in_rest (sn_in s)))"

lemma runs_scan_token:
  assumes "ready s"
  shows "runs (scan_token s) (progress_from s) parser_fault"
proof -
  let ?i = "sn_in s"
  have adv: "runs r (progress_from s) parser_fault" if "runs r (advanced s) parser_fault" for r
    by (rule runs_mono [OF that]) (simp_all add: progress_from_def)
  have plain: "runs (ScanPlainScalar s) (progress_from s) parser_fault"
    if "\<not> at_doc_indicator ?i" "\<not> in_matches (GetValueRegex s) ?i" "in_good ?i"
      "in_matches (if InBlockContext s then Exp_PlainScalar else Exp_PlainScalarInFlow) ?i"
  proof (rule runs_mono [OF runs_ScanPlainScalar [OF assms]])
    fix s'
    assume s': "moved s s' \<and> (plain_over (InFlowContext s) ?i \<or> advanced s s')"
    have jf: "\<not> in_matches Exp_ValueInFlow ?i" if "InFlowContext s"
      using that \<open>\<not> in_matches (GetValueRegex s) ?i\<close>
      by (auto simp: GetValueRegex_def in_matches_def Matches_def Exp_ValueInFlow_def Exp_ValueInJSONFlow_def split: if_splits)
    have "plain_over (InFlowContext s) ?i \<Longrightarrow> sn_flows s \<noteq> [] \<and> colon_stuck (in_rest ?i)"
      using that plain_block_reads [of "in_rest ?i"] plain_flow_reads [of "in_rest ?i"] jf
      by (cases "InBlockContext s")
        (auto simp: plain_over_def line_over_def plain_params_def end_of_def in_matches_def InBlockContext_def ScanScalarParams_ctor_def)
    then show "progress_from s s'"
      using s' by (auto simp: progress_from_def)
  qed simp
  have "at_doc_indicator ?i \<Longrightarrow> in_column ?i = 0 \<and> (in_matches Exp_DocStart ?i \<or> in_matches Exp_DocEnd ?i)"
    by (auto simp: at_doc_indicator_def Exp_DocIndicator_def in_matches_def Matches_def split: option.splits)
  moreover have ends: "runs (EndStream s) (progress_from s) parser_fault"
    by (rule runs_mono [OF runs_EndStream [OF assms]]) (simp_all add: progress_from_def)
  ultimately show ?thesis
    unfolding scan_token_def Let_def
    by (intro runs_if plain ends)
      (auto simp: assms ScanDocStart_def ScanDocEnd_def parser_fault_def opens_flow_def
        intro!: adv runs_flow_tokens runs_block_tokens runs_ScanDirective runs_ScanTag runs_ScanAnchorOrAlias
          runs_ScanBlockScalar runs_ScanQuotedScalar)
qed

section \<open>Texts on which scanning ends\<close>

fun scannable :: "string \<Rightarrow> bool" where
  "scannable [] = True"
| "scannable (c # cs) \<longleftrightarrow> \<not> colon_stuck (c # cs) \<and> scannable cs"

definition hang_free_text :: "bool \<Rightarrow> string \<Rightarrow> bool" where
  "hang_free_text flow cs \<longleftrightarrow> scannable cs \<or> (\<not> flow \<and> \<not> list_ex opens_flow cs)"

definition hang_free :: "scanner \<Rightarrow> bool" where
  "hang_free s \<longleftrightarrow> sn_endedStream s \<or> hang_free_text (InFlowContext s) (in_rest (sn_in s))"

lemma scannable_suffix: "suffix cs' cs \<Longrightarrow> scannable cs \<Longrightarrow> scannable cs' \<and> \<not> colon_stuck cs'"
  by (induction cs) (auto simp: suffix_Cons colon_stuck_def first_char_def stream_eof_def)

lemma hang_free_after:
  assumes "hang_free_text (sn_flows s \<noteq> []) (in_rest (sn_in s))" "after (sn_in s) i" "sn_flows s' = [] \<or> sn_flows s \<noteq> []"
  shows "hang_free_text (sn_flows s' \<noteq> []) (in_rest i)"
  using assms scannable_suffix [of "in_rest i" "in_rest (sn_in s)"] set_mono_suffix [of "in_rest i" "in_rest (sn_in s)"]
  by (auto simp: hang_free_text_def after_def list_ex_iff)

lemma hang_free_step:
  assumes "hang_free_text (sn_flows s \<noteq> []) (in_rest (sn_in s))" "after (sn_in s) i" "flow_kept s s'"
  shows "hang_free_text (sn_flows s' \<noteq> []) (in_rest i)"
proof (cases "sn_flows s' = [] \<or> sn_flows s \<noteq> []")
  case False
  then have "in_good (sn_in s)" "opens_flow (in_peek (sn_in s))"
    using assms(3) by (auto simp: flow_kept_def)
  then have "list_ex opens_flow (in_rest (sn_in s))"
    by (cases "in_rest (sn_in s)") (auto simp: in_good_def in_peek_def first_char_def)
  then show ?thesis
    using assms scannable_suffix [of "in_rest i" "in_rest (sn_in s)"] by (auto simp: hang_free_text_def after_def)
qed (use assms hang_free_after in blast)

lemma runs_ScanNextToken:
  assumes "sn_ok s" "\<not> sn_endedStream s"
  shows "runs (ScanNextToken s) (\<lambda>s'. if sn_startedStream s
      then \<exists>s1. ready s1 \<and> after (sn_in s) (sn_in s1) \<and> sn_flows s1 = sn_flows s \<and> progress_from s1 s'
      else s' = StartStream s) parser_fault"
proof (cases "sn_startedStream s")
  case True
  then have "ready s"
    using assms by (simp add: ready_def)
  have "runs (bind_run (PopIndentToHere s1) scan_token)
      (\<lambda>s'. \<exists>s1. ready s1 \<and> after (sn_in s) (sn_in s1) \<and> sn_flows s1 = sn_flows s \<and> progress_from s1 s') parser_fault"
    if s1: "ready s1" "after (sn_in s) (sn_in s1)" "sn_flows s1 = sn_flows s" for s1
  proof (rule runs_bindI [OF runs_remains(4) [OF s1(1)]])
    fix s2
    assume "remains s1 s2"
    then show "runs (scan_token s2)
        (\<lambda>s'. \<exists>s1. ready s1 \<and> after (sn_in s) (sn_in s1) \<and> sn_flows s1 = sn_flows s \<and> progress_from s1 s') parser_fault"
      using s1 by (intro runs_mono [OF runs_scan_token]) (auto simp: remains_def intro!: exI [of _ s2])
  qed
  then show ?thesis
    using True assms(2) by (auto simp: ScanNextToken_def intro: runs_bindI [OF runs_ScanToNextToken [OF \<open>ready s\<close>]])
qed (use assms in \<open>simp add: ScanNextToken_def\<close>)

text \<open>What is left to do: the stream to start and to end, the text, the tokens in the queue.\<close>

definition to_scan :: "scanner \<Rightarrow> nat" where
  "to_scan s = (if sn_endedStream s then 0 else left (sn_in s) + (if sn_startedStream s then 1 else 2))"

definition less_to_do :: "(scanner \<times> scanner) set" where
  "less_to_do = measures [to_scan, \<lambda>s. length (sn_tokens s)]"

lemma less_to_do_wf: "wf less_to_do" and less_to_do_trans: "trans less_to_do"
  by (auto simp: less_to_do_def trans_def)

lemma runs_repeat_wf:
  assumes "wf r" "I s" "\<And>s. I s \<Longrightarrow> runs (body s) (\<lambda>(stop, s'). if stop then Q s' else I s' \<and> (s', s) \<in> r) E"
  shows "runs (repeat body s) Q E"
  using assms(1,2)
proof (induction s rule: wf_induct_rule)
  case (less s)
  show ?case
    by (subst repeat_unfold, rule runs_bindI [OF assms(3) [OF less.prems]]) (auto split: prod.splits if_splits intro: less.IH)
qed

lemma sn_ok_pop:
  assumes "sn_ok s" "sn_tokens s = (t, st) # ts" "st \<noteq> UNVERIFIED \<or> sn_endedStream s"
  shows "sn_ok (pop_token s)"
proof -
  have started: "sn_startedStream s"
    using assms(1,2) by (auto simp: sn_ok_def split: if_splits)
  have "unverified (pop_token s) k" if "unverified s k" "st \<noteq> UNVERIFIED" for k
    using that assms(2) by (cases "k - sn_popped s") (auto simp: unverified_def pop_token_def diff_Suc)
  then have "keys_ok (pop_token s)"
    using assms(1,3) by (auto simp: sn_ok_def keys_ok_def) (auto simp: pop_token_def)
  then show ?thesis
    using assms(1,2) started by (auto simp: sn_ok_def indents_ok_def marker_ok_def [abs_def] pop_token_def)
qed

text \<open>The front of the queue is ready to be taken, or there is nothing more.\<close>

definition settled :: "scanner \<Rightarrow> bool" where
  "settled s \<longleftrightarrow> sn_ok s \<and> hang_free s \<and> (sn_endedStream s \<or> (\<exists>t ts. sn_tokens s = (t, VALID) # ts))"

lemma runs_ensure_turn:
  assumes "sn_ok s" "hang_free s"
  shows "runs (ensure_turn s) (\<lambda>(stop, s'). if stop then s' = s \<and> settled s
    else sn_ok s' \<and> hang_free s' \<and> (s', s) \<in> less_to_do) parser_fault"
proof -
  have scan: "runs (ScanNextToken s) (\<lambda>s'. sn_ok s' \<and> hang_free s' \<and> (s', s) \<in> less_to_do) parser_fault" if "\<not> sn_endedStream s"
  proof (rule runs_mono [OF runs_ScanNextToken [OF assms(1) that]])
    fix s'
    assume s': "if sn_startedStream s
        then \<exists>s1. ready s1 \<and> after (sn_in s) (sn_in s1) \<and> sn_flows s1 = sn_flows s \<and> progress_from s1 s'
        else s' = StartStream s"
    show "sn_ok s' \<and> hang_free s' \<and> (s', s) \<in> less_to_do"
    proof (cases "sn_startedStream s")
      case True
      then obtain s1 where s1: "ready s1" "after (sn_in s) (sn_in s1)" "sn_flows s1 = sn_flows s" "progress_from s1 s'"
        using s' by auto
      have free: "hang_free_text (sn_flows s1 \<noteq> []) (in_rest (sn_in s1))"
        using assms(2) that s1(2,3) hang_free_after [of s "sn_in s1" s1] by (simp add: hang_free_def InBlockContext_def)
      then have "\<not> (sn_flows s1 \<noteq> [] \<and> colon_stuck (in_rest (sn_in s1)))"
        using scannable_suffix [of "in_rest (sn_in s1)"] by (auto simp: hang_free_text_def)
      then consider "finished s'" | "advanced s1 s'"
        using s1(4) by (auto simp: progress_from_def)
      then show ?thesis
      proof cases
        case 1
        then show ?thesis
          using that True by (simp add: finished_def hang_free_def less_to_do_def to_scan_def)
      next
        case 2
        then have "hang_free_text (sn_flows s' \<noteq> []) (in_rest (sn_in s'))"
          using hang_free_step [OF free] by (auto simp: advanced_def dest: well_after_after)
        moreover have "left (sn_in s') < left (sn_in s)"
          using 2 s1(2) well_after_left [of "sn_in s1" "sn_in s'"] after_left [of "sn_in s" "sn_in s1"] by (simp add: advanced_def)
        ultimately show ?thesis
          using 2 that True by (simp add: advanced_def ready_def hang_free_def less_to_do_def to_scan_def InBlockContext_def)
      qed
    next
      case False
      then show ?thesis
        using s' assms sn_ok_StartStream that by (simp add: hang_free_def less_to_do_def to_scan_def) (simp add: StartStream_def InBlockContext_def)
    qed
  qed simp
  have pop: "sn_ok (pop_token s) \<and> hang_free (pop_token s) \<and> (pop_token s, s) \<in> less_to_do"
    if "sn_tokens s = (t, INVALID) # ts" for t ts
    using sn_ok_pop [OF assms(1) that] assms(2) that
    by (simp add: hang_free_def less_to_do_def to_scan_def) (auto simp: pop_token_def InBlockContext_def)
  have "runs (bind_run (ScanNextToken s) (\<lambda>s1. ret (False, s1)))
      (\<lambda>(stop, s'). \<not> stop \<and> sn_ok s' \<and> hang_free s' \<and> (s', s) \<in> less_to_do) parser_fault"
    if "\<not> sn_endedStream s"
    by (rule runs_bindI [OF scan [OF that]]) simp
  then show ?thesis
    using assms pop by (auto simp: ensure_turn_def settled_def split: list.splits token_status.splits elim!: runs_mono)
qed

end
