(* ===== verification/Yaml_Text.thy ===== *)
theory Yaml_Text
  imports Yaml_Scan
begin

text \<open>
  From text to documents: the scanner as the source of the parser's tokens.

  The parser calls \<^verbatim>\<open>empty\<close>, \<^verbatim>\<open>peek\<close> and \<^verbatim>\<open>pop\<close>, and the scanner reads on only when it has to. \<open>scan_all\<close> is what it
  delivers in the end, the tokens and the exception it stops with; the locale \<open>token_source\<close> says that the calls give just
  that, one token at a time, and the scanner is an interpretation of it. So a text loads as its tokens load.
\<close>

section \<open>The front of the queue\<close>

lemma runs_EnsureTokensInQueue:
  assumes "sn_ok s" "hang_free s"
  shows "runs (EnsureTokensInQueue s) (\<lambda>s'. settled s' \<and> (s' = s \<or> (s', s) \<in> less_to_do)) parser_fault"
  unfolding EnsureTokensInQueue_def
proof (rule runs_repeat_wf [OF less_to_do_wf, where I = "\<lambda>s'. sn_ok s' \<and> hang_free s' \<and> (s' = s \<or> (s', s) \<in> less_to_do)"])
  fix s1
  assume s1: "sn_ok s1 \<and> hang_free s1 \<and> (s1 = s \<or> (s1, s) \<in> less_to_do)"
  then show "runs (ensure_turn s1) (\<lambda>(stop, s'). if stop then settled s' \<and> (s' = s \<or> (s', s) \<in> less_to_do)
      else (sn_ok s' \<and> hang_free s' \<and> (s' = s \<or> (s', s) \<in> less_to_do)) \<and> (s', s1) \<in> less_to_do) parser_fault"
    by (intro runs_mono [OF runs_ensure_turn]) (auto dest: transD [OF less_to_do_trans])
qed (use assms in simp)

text \<open>A loop is left in a state in which its body stops.\<close>

lemma repeat_stopped:
  assumes "repeat body s = Some (Inr s')"
  shows "\<exists>s0. body s0 = ret (True, s')"
proof -
  have stopped: "\<forall>s'. y = Inr s' \<longrightarrow> (\<exists>s0. b s0 = ret (True, s'))" if "repeat b s = Some y" for b s y
  proof (rule repeat.raw_induct [where P = "\<lambda>b s y. \<forall>s'. y = Inr s' \<longrightarrow> (\<exists>s0. b s0 = ret (True, s'))", OF _ that])
    fix rep b s y
    assume IH: "\<And>b s y. rep b s = Some y \<Longrightarrow> \<forall>s'. y = Inr s' \<longrightarrow> (\<exists>s0. b s0 = ret (True, s'))"
      and step: "Option.bind (b s) (\<lambda>r. case r of Inl e \<Rightarrow> Some (Inl e)
        | Inr (stop, s') \<Rightarrow> if stop then Some (Inr s') else rep b s') = Some y"
    then obtain r where r: "b s = Some r"
      by (auto simp: bind_eq_Some_conv)
    show "\<forall>s'. y = Inr s' \<longrightarrow> (\<exists>s0. b s0 = ret (True, s'))"
    proof (cases r)
      case (Inr p)
      obtain stop s1 where "p = (stop, s1)"
        by (cases p)
      then show ?thesis
        using step IH [of b s1 y] r Inr by (cases stop) (auto simp: ret_def)
    qed (use step r in auto)
  qed
  show ?thesis
    using stopped [OF assms] by simp
qed

lemma ensure_turn_stop:
  assumes "ensure_turn s = ret (True, s')"
  shows "s' = s"
proof -
  have "bind_run r (\<lambda>s1. ret (False, s1)) \<noteq> ret (True, s')" for r
    by (cases r; cases "the r") (auto simp: ret_def throw_def)
  then show ?thesis
    using assms by (auto simp: ensure_turn_def split: list.splits token_status.splits if_splits)
qed

lemma EnsureTokensInQueue_idem:
  assumes "EnsureTokensInQueue s = ret s'"
  shows "EnsureTokensInQueue s' = ret s'"
proof -
  obtain s0 where s0: "ensure_turn s0 = ret (True, s')"
    using repeat_stopped [of ensure_turn s s'] assms by (auto simp: EnsureTokensInQueue_def ret_def)
  then have "ensure_turn s' = ret (True, s')"
    using ensure_turn_stop by blast
  then show ?thesis
    unfolding EnsureTokensInQueue_def by (subst repeat_unfold) simp
qed

section \<open>What the scanner delivers\<close>

partial_function (option) scan_all :: "scanner \<Rightarrow> (token list \<times> fault option) option" where
  [code]: "scan_all s = Option.bind (EnsureTokensInQueue s) (\<lambda>r. case r of
     Inl e \<Rightarrow> Some ([], Some e)
   | Inr s1 \<Rightarrow> (case sn_tokens s1 of
       [] \<Rightarrow> Some ([], None)
     | t # _ \<Rightarrow> Option.bind (scan_all (pop_token s1)) (\<lambda>(ts, e). Some (fst t # ts, e))))"

locale token_source =
  fixes delivers :: "'s \<Rightarrow> token list \<Rightarrow> fault option \<Rightarrow> bool"
    and empty :: "'s \<Rightarrow> (bool \<times> 's) run" and peek :: "'s \<Rightarrow> (token \<times> 's) run" and pop :: "'s \<Rightarrow> 's run"
  assumes empty_more: "delivers s (t # ts) e \<Longrightarrow> \<exists>s'. empty s = ret (False, s') \<and> delivers s' (t # ts) e"
    and empty_end: "delivers s [] None \<Longrightarrow> \<exists>s'. empty s = ret (True, s') \<and> delivers s' [] None"
    and empty_fault: "delivers s [] (Some f) \<Longrightarrow> empty s = throw f"
    and peek_more: "delivers s (t # ts) e \<Longrightarrow> \<exists>s'. peek s = ret (t, s') \<and> delivers s' (t # ts) e"
    and peek_fault: "delivers s [] (Some f) \<Longrightarrow> peek s = throw f"
    and pop_more: "delivers s (t # ts) e \<Longrightarrow> \<exists>s'. pop s = ret s' \<and> delivers s' ts e"
    and pop_fault: "delivers s [] (Some f) \<Longrightarrow> pop s = throw f"
begin

text \<open>Taking token after token gives them in order, and the end or the exception after the last one.\<close>

primrec take_tokens :: "nat \<Rightarrow> 's \<Rightarrow> (token list \<times> 's) run" where
  "take_tokens 0 s = ret ([], s)"
| "take_tokens (Suc n) s = bind_run (peek s) (\<lambda>(t, s1). bind_run (pop s1) (\<lambda>s2.
     bind_run (take_tokens n s2) (\<lambda>(ts, s3). ret (t # ts, s3))))"

lemma take_delivered:
  "delivers s (ts @ us) e \<Longrightarrow> \<exists>s'. take_tokens (length ts) s = ret (ts, s') \<and> delivers s' us e"
proof (induction ts arbitrary: s)
  case (Cons t ts)
  obtain s1 where s1: "peek s = ret (t, s1)" "delivers s1 (t # ts @ us) e"
    using peek_more Cons.prems by fastforce
  then obtain s2 where "pop s1 = ret s2" "delivers s2 (ts @ us) e"
    using pop_more by blast
  then show ?case
    using Cons.IH s1(1) by fastforce
qed simp

lemma take_all:
  assumes "delivers s ts e"
  shows "\<exists>s'. take_tokens (length ts) s = ret (ts, s')
    \<and> (case e of None \<Rightarrow> \<exists>s''. empty s' = ret (True, s'') | Some f \<Rightarrow> empty s' = throw f)"
  using take_delivered [of s ts "[]" e] assms empty_end empty_fault by (fastforce split: option.splits)

end

definition scanner_delivers :: "scanner \<Rightarrow> token list \<Rightarrow> fault option \<Rightarrow> bool" where
  "scanner_delivers s ts e \<longleftrightarrow> scan_all s = Some (ts, e)"

lemma scanner_delivers_cases:
  assumes "scanner_delivers s ts e"
  obtains f where "EnsureTokensInQueue s = throw f" "ts = []" "e = Some f"
  | s1 where "EnsureTokensInQueue s = ret s1" "sn_tokens s1 = []" "ts = []" "e = None" "scanner_delivers s1 ts e"
  | s1 t st toks ts' where "EnsureTokensInQueue s = ret s1" "sn_tokens s1 = (t, st) # toks" "ts = t # ts'"
      "scanner_delivers s1 ts e" "scanner_delivers (pop_token s1) ts' e"
proof -
  have ts: "scan_all s = Some (ts, e)"
    using assms by (simp add: scanner_delivers_def)
  then obtain r where r: "EnsureTokensInQueue s = Some r"
    by (subst (asm) scan_all.simps) (auto simp: bind_eq_Some_conv)
  show ?thesis
  proof (cases r)
    case (Inl f)
    then show ?thesis
      using that(1) r ts by (subst (asm) scan_all.simps) (simp add: throw_def)
  next
    case (Inr s1)
    then have s1: "EnsureTokensInQueue s = ret s1"
      using r by (simp add: ret_def)
    then have same: "scanner_delivers s1 ts e"
      using ts EnsureTokensInQueue_idem [OF s1] unfolding scanner_delivers_def
      by (subst scan_all.simps, subst (asm) scan_all.simps) (simp add: ret_def)
    show ?thesis
    proof (cases "sn_tokens s1")
      case Nil
      then show ?thesis
        using that(2) [OF s1] ts same s1 by (subst (asm) scan_all.simps) (simp add: ret_def)
    next
      case (Cons t toks)
      then obtain ts' where "scan_all (pop_token s1) = Some (ts', e)" "ts = fst t # ts'"
        using ts s1 by (subst (asm) scan_all.simps) (auto simp: ret_def bind_eq_Some_conv)
      then show ?thesis
        using that(3) [OF s1, of "fst t" "snd t" toks ts'] Cons same by (simp add: scanner_delivers_def)
    qed
  qed
qed

interpretation scanner: token_source scanner_delivers Scanner_empty Scanner_peek Scanner_pop
  by unfold_locales
    (erule scanner_delivers_cases; auto simp: Scanner_empty_def Scanner_peek_def Scanner_pop_def)+

section \<open>Every hang-free text is scanned\<close>

lemma settled_pop:
  assumes "settled s" "sn_tokens s = (t, st) # toks"
  shows "sn_ok (pop_token s)" "hang_free (pop_token s)" "(pop_token s, s) \<in> less_to_do" "token_ok t"
proof -
  have s: "sn_ok s" "hang_free s" "st \<noteq> UNVERIFIED \<or> sn_endedStream s"
    using assms by (auto simp: settled_def)
  show "sn_ok (pop_token s)"
    using sn_ok_pop [OF s(1) assms(2) s(3)] .
  show "hang_free (pop_token s)" "(pop_token s, s) \<in> less_to_do" "token_ok t"
    using s(1,2) assms(2) by (auto simp: hang_free_def InBlockContext_def less_to_do_def to_scan_def pop_token_def sn_ok_def)
qed

lemma scan_all_ok: "sn_ok s \<Longrightarrow> hang_free s \<Longrightarrow> \<exists>ts e. scan_all s = Some (ts, e) \<and> scan_ok ts e"
proof (induction s rule: wf_induct_rule [OF less_to_do_wf])
  case (1 s)
  have "runs (EnsureTokensInQueue s) (\<lambda>s'. settled s' \<and> (s' = s \<or> (s', s) \<in> less_to_do)) parser_fault"
    using 1(2,3) by (rule runs_EnsureTokensInQueue)
  then consider f where "EnsureTokensInQueue s = throw f" "parser_fault f"
    | s1 where "EnsureTokensInQueue s = ret s1" "settled s1" "s1 = s \<or> (s1, s) \<in> less_to_do"
    by (auto simp: runs_def ret_def throw_def split: option.splits sum.splits)
  then show ?case
  proof cases
    case (1 f)
    then show ?thesis
      by (subst scan_all.simps) (simp add: throw_def scan_ok_def)
  next
    case (2 s1)
    show ?thesis
    proof (cases "sn_tokens s1")
      case Nil
      then show ?thesis
        using 2(1) by (subst scan_all.simps) (simp add: ret_def scan_ok_def)
    next
      case (Cons tok toks)
      obtain t st where tok: "tok = (t, st)"
        by (cases tok)
      note pop = settled_pop [OF 2(2) Cons [unfolded tok]]
      have "(pop_token s1, s) \<in> less_to_do"
        using pop(3) 2(3) transD [OF less_to_do_trans] by blast
      then obtain ts e where "scan_all (pop_token s1) = Some (ts, e)" "scan_ok ts e"
        using "1.IH" pop(1,2) by blast
      then show ?thesis
        using 2(1) Cons tok pop(4) by (subst scan_all.simps) (simp add: ret_def scan_ok_def)
    qed
  qed
qed

text \<open>The text of a document, from its bytes on.\<close>

definition LoadText :: "string \<Rightarrow> (memory \<times> nat) option run" where
  "LoadText bytes = (case detect bytes of (cs, body) \<Rightarrow>
     Option.bind (scan_all (Scanner_ctor (text_input (decode cs body)))) (\<lambda>(toks, e). Load toks e))"



section \<open>A text on which scanning does not end\<close>

text \<open>
  In a flow collection a plain scalar may start with a colon that no blank, comma or closing brace follows, but such a colon ends
  a plain scalar if a closing bracket or the end of the text follows. There the scanner reads nothing and queues an empty
  scalar, again and again.
\<close>

lemma colon_stuck_matches:
  assumes "colon_stuck (in_rest i)"
  shows "in_good i" "in_peek i = CHR '':''" "\<not> in_matches Exp_Break i" "\<not> in_matches Exp_Blank i" "\<not> in_matches Exp_Comment i" "\<not> in_matches Exp_BlockEntry i"
    "\<not> in_matches Exp_KeyInFlow i" "\<not> in_matches Exp_ValueInFlow i" "in_matches Exp_PlainScalarInFlow i"
    "in_matches Exp_ScanScalarEndInFlow i" "\<not> in_matches Exp_DocStart i" "\<not> in_matches Exp_DocEnd i" "\<not> at_doc_indicator i"
proof -
  obtain r where r: "in_rest i = CHR '':'' # r" "first_char r = stream_eof \<or> first_char r = CHR '']''"
    using assms by (cases "in_rest i") (auto simp: colon_stuck_def first_char_def stream_eof_def)
  note defs = in_matches_def Matches_def r(1) first_char_def
  have blank: "Match Exp_BlankOrBreak r = None" "Match Exp_Blank r = None"
    using r(2) by (auto simp: Exp_BlankOrBreak_def Exp_Blank_def Exp_Space_def Exp_Tab_def Match_Break stream_eof_def)
  show "in_good i" "in_peek i = CHR '':''"
    by (simp_all add: in_good_def in_peek_def r first_char_def)
  show brk: "\<not> in_matches Exp_Break i" "\<not> in_matches Exp_Blank i"
    by (simp_all add: in_matches_def Matches_def Match_Break r(1) first_char_def Exp_Blank_def Exp_Space_def Exp_Tab_def)
  show "\<not> in_matches Exp_Comment i" "\<not> in_matches Exp_BlockEntry i" "\<not> in_matches Exp_KeyInFlow i"
    by (simp_all add: defs Exp_Comment_def Exp_BlockEntry_def Exp_KeyInFlow_def)
  show doc: "\<not> in_matches Exp_DocStart i" "\<not> in_matches Exp_DocEnd i"
    by (simp_all add: defs Exp_DocStart_def Exp_DocEnd_def re_string_def)
  then show "\<not> at_doc_indicator i"
    by (auto simp: at_doc_indicator_def Exp_DocIndicator_def in_matches_def Matches_def split: option.splits)
  show "\<not> in_matches Exp_ValueInFlow i"
    using r(2) blank by (auto simp: in_matches_def Matches_def r(1) first_char_def [of "_ # _"] Exp_ValueInFlow_def stream_eof_def)
  have "Match Exp_BlankOrBreak (CHR '':'' # r) = None"
    using brk by (simp add: in_matches_def Matches_def r(1) Exp_BlankOrBreak_def)
  then show "in_matches Exp_PlainScalarInFlow i"
    using blank by (simp add: in_matches_def Matches_def r(1) first_char_def [of "_ # _"] Exp_PlainScalarInFlow_def)
  show "in_matches Exp_ScanScalarEndInFlow i"
    using r(2) blank by (auto simp: in_matches_def Matches_def r(1) first_char_def [of "_ # _"] Exp_ScanScalarEndInFlow_def Exp_EndScalarInFlow_def)
qed

lemma ScanScalar_stuck:
  assumes "colon_stuck (in_rest i)"
  shows "ScanScalar i (plain_params True k) = ret ([], (plain_params True k)\<lparr>sp_leadingSpaces := False\<rparr>, i)"
proof -
  note m = colon_stuck_matches [OF assms]
  have fields: "end_of (plain_params True k) = Exp_ScanScalarEndInFlow" "sp_end (plain_params True k) = Some Exp_ScanScalarEndInFlow"
      "sp_eatEnd (plain_params True k) = False" "sp_fold (plain_params True k) = FOLD_FLOW"
    by (simp_all add: plain_params_def end_of_def)
  show ?thesis
    unfolding ScanScalar_def
    by (simp add: repeat_unfold [of scalar_turn] repeat_unfold [of line_turn] scalar_turn_def scan_line_def line_turn_def m fields
        end_of_def trim_spaces_def chomp_breaks_def find_last_not_def keep_escaped_def plain_params_def Let_def split: chomp.splits)
qed


definition stuck :: "scanner \<Rightarrow> bool" where
  "stuck s \<longleftrightarrow> sn_startedStream s \<and> \<not> sn_endedStream s \<and> (\<exists>k. GetTopIndent s = ret k) \<and> sn_flows s \<noteq> []
     \<and> \<not> sn_canBeJSONFlow s \<and> colon_stuck (in_rest (sn_in s)) \<and> (\<exists>t toks. sn_tokens s = (t, UNVERIFIED) # toks)"

lemma ScanToNextToken_stuck:
  assumes "colon_stuck (in_rest (sn_in s))"
  shows "ScanToNextToken s = ret s"
proof -
  note m = colon_stuck_matches [OF assms]
  have "repeat white_turn s = ret s"
    by (subst repeat_unfold) (simp add: white_turn_def m IsWhitespaceToBeEaten_def)
  then have "next_token_turn s = ret (True, s)"
    by (simp add: next_token_turn_def eat_comment_def m)
  then show ?thesis
    unfolding ScanToNextToken_def by (subst repeat_unfold) simp
qed

lemma scan_token_stuck:
  assumes "stuck s"
  shows "scan_token s = ScanPlainScalar s"
proof -
  have m: "colon_stuck (in_rest (sn_in s))" "\<not> InBlockContext s" "\<not> sn_canBeJSONFlow s"
    using assms by (auto simp: stuck_def InBlockContext_def)
  show ?thesis
    using m by (simp add: scan_token_def colon_stuck_matches [OF m(1)] GetValueRegex_def)
qed

lemma GetTopIndent_other [simp]:
  "GetTopIndent (s\<lparr>sn_tokens := a\<rparr>) = GetTopIndent s" "GetTopIndent (s\<lparr>sn_simpleKeys := b\<rparr>) = GetTopIndent s"
  "GetTopIndent (s\<lparr>sn_in := i\<rparr>) = GetTopIndent s" "GetTopIndent (set_flags c d s) = GetTopIndent s"
  by (simp_all add: GetTopIndent_def top_indent_def set_flags_def split: list.splits)

lemma insert_stuck:
  assumes "stuck s"
  shows "\<exists>s'. InsertPotentialSimpleKey s = ret s' \<and> stuck s' \<and> sn_in s' = sn_in s"
  using assms
  by (auto simp: InsertPotentialSimpleKey_def Let_def InBlockContext_def stuck_def push_token_def)

lemma ensure_turn_stuck:
  assumes "stuck s"
  shows "\<exists>s'. ensure_turn s = ret (False, s') \<and> stuck s'"
proof -
  obtain k t toks where s: "GetTopIndent s = ret k" "sn_tokens s = (t, UNVERIFIED) # toks" "sn_startedStream s" "\<not> sn_endedStream s"
      "colon_stuck (in_rest (sn_in s))" "\<not> InBlockContext s"
    using assms by (auto simp: stuck_def InBlockContext_def)
  obtain s1 where s1: "InsertPotentialSimpleKey s = ret s1" "stuck s1" "sn_in s1 = sn_in s"
    using insert_stuck [OF assms] by blast
  let ?s = "push_token ((Token PLAIN_SCALAR)\<lparr>tk_value := []\<rparr>) VALID (set_flags False False (s1\<lparr>sn_in := sn_in s\<rparr>))"
  have "ScanPlainScalar s = ret ?s"
    using s s1 by (simp add: ScanPlainScalar_def ScanScalar_stuck)
  then have "ensure_turn s = ret (False, ?s)"
    using s by (simp add: ensure_turn_def ScanNextToken_def ScanToNextToken_stuck PopIndentToHere_def scan_token_stuck [OF assms])
  moreover have "stuck ?s"
    using s1 by (auto simp: stuck_def push_token_def) (auto simp: set_flags_def)
  ultimately show ?thesis
    by blast
qed

lemma stuck_diverges: "stuck s \<Longrightarrow> EnsureTokensInQueue s = None"
  unfolding EnsureTokensInQueue_def using ensure_turn_stuck by (rule repeat_diverges)

lemma flow_start_stuck:
  assumes "colon_stuck cs"
  shows "EnsureTokensInQueue (Scanner_ctor (text_input (CHR ''['' # cs))) = None"
proof -
  let ?s = "Scanner_ctor (text_input (CHR ''['' # cs))"
  let ?i = "text_input (CHR ''['' # cs)"
  have m: "in_good ?i" "in_peek ?i = CHR ''[''" "\<not> in_matches Exp_Break ?i" "\<not> in_matches Exp_Comment ?i"
      "\<not> in_matches Exp_DocStart ?i" "\<not> in_matches Exp_DocEnd ?i"
    by (simp_all add: text_input_def in_good_def in_peek_def first_char_def in_matches_def Matches_def Match_Break Exp_Comment_def
        Exp_DocStart_def Exp_DocEnd_def re_string_def)
  define s1 where "s1 = StartStream ?s"
  have s1: "sn_in s1 = ?i" "sn_startedStream s1" "\<not> sn_endedStream s1" "sn_flows s1 = []" "sn_tokens s1 = []" "sn_simpleKeyAllowed s1"
      "sn_simpleKeys s1 = []" "sn_indents s1 = [0]" "sn_indentRefs s1 = [IndentMarker_ctor (- 1) NONE]" "sn_popped s1 = 0"
    by (simp_all add: s1_def StartStream_def Scanner_ctor_def)
  have "repeat white_turn s1 = ret s1"
    by (subst repeat_unfold) (simp add: white_turn_def m s1 IsWhitespaceToBeEaten_def)
  then have "next_token_turn s1 = ret (True, s1)"
    by (simp add: next_token_turn_def eat_comment_def m s1)
  then have to_next: "ScanToNextToken s1 = ret s1"
    unfolding ScanToNextToken_def by (subst repeat_unfold) simp
  have pop: "PopIndentToHere s1 = ret s1"
    by (simp add: PopIndentToHere_def InBlockContext_def s1 repeat_unfold [of here_turn] repeat_unfold [of invalid_turn]
        here_turn_def invalid_turn_def top_indent_def IndentMarker_ctor_def)
  obtain s2 where s2: "ScanFlowStart s1 = ret s2" "stuck s2"
    using assms
    by (auto simp: ScanFlowStart_def InsertPotentialSimpleKey_def CanInsertPotentialSimpleKey_def ExistsActiveSimpleKey_def s1 m InBlockContext_def
        PushIndentTo_def top_indent_def IndentMarker_ctor_def GetStartTokenFor_def push_token_def last_token_def set_indent_status_def
        set_token_status_def Let_def set_flags_def eat_and_push_def stuck_def GetTopIndent_def text_input_def)
  have "ensure_turn ?s = ret (False, s1)"
    by (simp add: ensure_turn_def ScanNextToken_def Scanner_ctor_def s1_def)
  moreover have "ensure_turn s1 = ret (False, s2)"
    using s2 by (simp add: ensure_turn_def ScanNextToken_def s1 to_next pop scan_token_def m)
  ultimately show ?thesis
    using stuck_diverges [OF s2(2)] unfolding EnsureTokensInQueue_def
    by (subst repeat_unfold, simp, subst repeat_unfold, simp)
qed

text \<open>
  (C40) Loading a text that starts with a flow sequence and a colon right before its closing bracket, or with a colon at the end
  of the text, does not return: the scanner queues empty scalars for ever.
\<close>

theorem flow_colon_hangs:
  assumes "r = [] \<or> hd r = CHR '']''"
  shows "LoadText (''[:'' @ r) = None"
proof -
  have "detect (''[:'' @ r) = (utf8, ''[:'' @ r)"
    by (simp add: detect_def intro_loop_step intro_step_Cons IntroCharTypeOf_def Let_def)
  moreover have "colon_stuck (CHR '':'' # r)"
    using assms by (cases r) (auto simp: colon_stuck_def first_char_def)
  then have "scan_all (Scanner_ctor (text_input (''[:'' @ r))) = None"
    by (subst scan_all.simps) (simp add: flow_start_stuck)
  ultimately show ?thesis
    by (simp add: LoadText_def decode_def)
qed

theorem flow_colon_hangs_witness: "LoadText ''[:]'' = None"
  using flow_colon_hangs [of "'']''"] by simp

end
