(* ===== verification/Spec2Isabelle.thy ===== *)
theory Spec2Isabelle
  imports Http_Timer Server_Config Base_Logging Base_LogFile Base_StringPiece Net_Inet Net_TcpConnection Net_EventLoopThread
    Net_TcpClient Net_TcpServer Yaml_Text
begin

text \<open>
  A verification development of CuBer, an event-driven HTTP server and reverse proxy written in C++
  on a reactor network library.

  \<^bold>\<open>The program.\<close> A loop per thread polls file descriptors (\<^verbatim>\<open>net/poller\<close>) and dispatches their events
  through channels (\<^verbatim>\<open>net/Channel\<close>) to connections (\<^verbatim>\<open>net/TcpConnection\<close>), which read into and write
  from byte buffers (\<^verbatim>\<open>net/Buffer\<close>). The server (\<^verbatim>\<open>http/HttpServer\<close>) feeds the input buffer to a request
  parser (\<^verbatim>\<open>http/HttpContext\<close>) and runs the finished request through a chain of handlers
  (\<^verbatim>\<open>http/HttpHandler\<close>, \<^verbatim>\<open>http/HttpProxyHandler\<close>) chosen by the configuration (\<^verbatim>\<open>config/ServerConfig\<close>):
  static files, or forwarding to an upstream, whose answer comes back through a response parser
  (\<^verbatim>\<open>http/HttpResponseContext\<close>). Filters add headers, send and log the response. Two timers drive the
  rest: the timer queue of the loop (\<^verbatim>\<open>net/TimerQueue\<close>) and the keep-alive timer (\<^verbatim>\<open>http/HttpTimer\<close>).

  \<^bold>\<open>The theories.\<close>
  \<^item> \<open>Prelude\<close>: faults and results, strings, decimal numbers, the standard library's maps with their
    interface \<open>assoc_map\<close>.
  \<^item> \<open>Net_Buffer\<close> (\<^verbatim>\<open>net/Buffer.{h,cc}\<close>, \<^verbatim>\<open>net/Endian.h\<close>): the buffer refines a byte queue, the locale
    \<open>byte_fifo\<close>; reading from a descriptor appends exactly the bytes read; network-order integers
    round trip.
  \<^item> \<open>Net_Channel\<close>, \<open>Net_Poller\<close>, \<open>Net_PollPoller\<close>, \<open>Net_EPollPoller\<close> (\<^verbatim>\<open>net/Channel.{h,cc}\<close>, \<^verbatim>\<open>net/Poller.h\<close>,
    \<^verbatim>\<open>net/poller\<close>): event masks and dispatch, and the two pollers as interpretations of one contract, the
    locale \<open>poller\<close>; both carry a channel through its life without failing an assertion, and \<^verbatim>\<open>poll\<close> returns
    the ready channels.
  \<^item> \<open>Net_TcpConnection\<close> (\<^verbatim>\<open>net/TcpConnection.{h,cc}\<close>): the connection as a step relation; no reachable step
    faults, bytes are delivered in order, the write side is shut down only after the last byte, and what
    destroying a connection does in each state. Its lemmas are proved in the locale \<open>poller\<close>.
  \<^item> \<open>Net_TimerQueue\<close> (\<^verbatim>\<open>net/Timer.{h,cc}\<close>, \<^verbatim>\<open>net/TimerQueue.{h,cc}\<close>): the two ordered sets stay consistent
    under callbacks that add and cancel timers, no timer is forgotten, an expiry runs exactly the due timers.
  \<^item> \<open>Net_EventLoop\<close> (\<^verbatim>\<open>net/EventLoop.{h,cc}\<close>): the phases of the loop and the functor queue as a step relation that
    interleaves with other threads; functors run once and in order and no wakeup is lost.
  \<^item> \<open>Net_EventLoopThread\<close> (\<^verbatim>\<open>net/EventLoopThread\<close>, starting and joining of \<^verbatim>\<open>base/Thread\<close>): the handshake between the owner and
    the thread of a loop; no wakeup is lost, and when the destructor's request to quit is.
  \<^item> \<open>Net_Connector\<close> (\<^verbatim>\<open>net/Connector.{h,cc}\<close>): connecting with retries; every socket is handed over, closed or
    waiting, and the delays double up to their limit.
  \<^item> \<open>Net_TcpClient\<close> (\<^verbatim>\<open>net/TcpClient.{h,cc}\<close>): one connection at a time, numbered in order, each destroyed before the
    next is made.
  \<^item> \<open>Net_TcpServer\<close> (\<^verbatim>\<open>net/EventLoopThreadPool\<close>, \<^verbatim>\<open>net/Acceptor\<close>, \<^verbatim>\<open>net/TcpServer\<close>): connections are named uniquely,
    go to the loops in turn, and leave the table once.
  \<^item> \<open>Net_Inet\<close> (\<^verbatim>\<open>net/InetAddress\<close>, parts of \<^verbatim>\<open>net/SocketsOps\<close>): IPv4 addresses and their text form.
  \<^item> \<open>Http_Request\<close>, \<open>Http_Context\<close> (\<^verbatim>\<open>http/HttpRequest.h\<close>, \<^verbatim>\<open>http/HttpContext\<close>): the request and its parser;
    total, safe, independent of how the bytes are cut into reads, inverse of the printer.
  \<^item> \<open>Http_Response\<close>, \<open>Http_ResponseContext\<close> (\<^verbatim>\<open>http/HttpResponse\<close>, \<^verbatim>\<open>http/HttpResponseContext\<close>): the same for
    responses; when the parser returns and when it does not.
  \<^item> \<open>Server_Config\<close> (\<^verbatim>\<open>config/ServerConfig\<close>): the tables, the loader over a YAML tree, and the consistency of
    what it loads.
  \<^item> \<open>Yaml_Event\<close>, \<open>Yaml_Node\<close>, \<open>Yaml_Tree\<close>, \<open>Yaml_Parser\<close>, \<open>Yaml_Load\<close> (\<^verbatim>\<open>lib/yaml-cpp\<close>: \<^verbatim>\<open>singledocparser\<close>, \<^verbatim>\<open>parser\<close>, \<^verbatim>\<open>parse\<close>,
    \<^verbatim>\<open>nodebuilder\<close>, \<^verbatim>\<open>node_data\<close>, \<^verbatim>\<open>tag\<close>, \<^verbatim>\<open>directives\<close>): how the vendored library turns the tokens of the configuration file
    into the tree the loader reads. The parser drives an event handler under the contract \<open>event_handler\<close>, which the builder
    of the node graph is an interpretation of; loading returns on all tokens without a failed assertion, and the tokens of a
    document load to a graph that represents it.
  \<^item> \<open>Yaml_Stream\<close> (\<^verbatim>\<open>lib/yaml-cpp/stream\<close>): the characters of a text in UTF-8, UTF-16 or UTF-32, recognised by its byte order
    mark, are delivered as UTF-8.
  \<^item> \<open>Yaml_Regex\<close>, \<open>Yaml_Input\<close>, \<open>Yaml_Scalar\<close>, \<open>Yaml_Scanner\<close>, \<open>Yaml_Scan\<close>, \<open>Yaml_Text\<close> (\<^verbatim>\<open>lib/yaml-cpp\<close>: \<^verbatim>\<open>regex_yaml\<close>, \<^verbatim>\<open>exp\<close>, \<^verbatim>\<open>scantag\<close>, \<^verbatim>\<open>scanscalar\<close>,
    \<^verbatim>\<open>simplekey\<close>, \<^verbatim>\<open>scantoken\<close>, \<^verbatim>\<open>scanner\<close>): the scanner between the character stream, which is an interpretation of
    \<open>char_source\<close>, and the parser, to which the scanner is a \<open>token_source\<close>. No pointer into its token queue dangles, it throws nothing but \<^verbatim>\<open>ParserException\<close>, and it returns on
    every text in which no colon of a flow collection stands right before a closing bracket or the end; there it does not return.
  \<^item> \<open>Base_Date\<close>, \<open>Base_TimeZone\<close> (\<^verbatim>\<open>base/Date\<close>, \<^verbatim>\<open>base/TimeZone\<close>, \<^verbatim>\<open>base/Timestamp\<close>): dates and day numbers, universal
    and local time convert into each other; zone files are read as written.
  \<^item> \<open>Base_StringPiece\<close> (\<^verbatim>\<open>base/StringPiece.h\<close>, parts of \<^verbatim>\<open>base/ProcessInfo\<close>): comparisons of byte windows are the order of
    strings; what is picked out of the process file system's text.
  \<^item> \<open>File_Util\<close> (\<^verbatim>\<open>base/FileUtil\<close>), \<open>Log_Stream\<close> (\<^verbatim>\<open>base/LogStream\<close>): files over an operating system given as a
    parameter, and the fixed buffer of a log line.
  \<^item> \<open>Base_AsyncLogging\<close>, \<open>Base_LogFile\<close> (\<^verbatim>\<open>base/AsyncLogging\<close>, \<^verbatim>\<open>base/LogFile\<close>): the buffers between the logging threads and the
    writing one lose nothing without a note, and the files hold whole lines in order under distinct names.
  \<^item> \<open>Base_Logging\<close> (\<^verbatim>\<open>base/Logging\<close>, \<^verbatim>\<open>base/FileLogging\<close>, thread numbers of \<^verbatim>\<open>base/CurrentThread\<close>): the line of a log statement
    with the time and number cached per thread, and the loggers with a name.
  \<^item> \<open>Base_Queues\<close> (\<^verbatim>\<open>base/BlockingQueue\<close>, \<^verbatim>\<open>base/BoundedBlockingQueue\<close>, \<^verbatim>\<open>base/ThreadPool\<close>, \<^verbatim>\<open>base/CountDownLatch\<close>): the queues
    between threads as interpretations of \<open>monitor_queue\<close>; first in first out, and no wakeup is lost.
  \<^item> \<open>Http_Proxy\<close>, \<open>Http_Handler\<close> (\<^verbatim>\<open>http/HttpProxy\<close>, \<^verbatim>\<open>http/HttpHandler\<close>, \<^verbatim>\<open>http/HttpProxyHandler\<close>): the handlers
    as interpretations of \<open>handler_contract\<close>, which location is selected, that handling ends, and what is
    served.
  \<^item> \<open>Http_Server\<close>, \<open>Http_Timer\<close> (\<^verbatim>\<open>http/HttpServer\<close>, \<^verbatim>\<open>http/HttpFilter\<close>, \<^verbatim>\<open>http/HttpTimer\<close>): the callbacks of the
    server, that every complete request is answered once, the connection limit, and the keep-alive timer.

  \<^bold>\<open>Conventions.\<close> A failed assertion, an uncaught exception, a fatal log line or an access through a dead
  pointer is a value of the type \<open>fault\<close>; the asserts are compiled in. \<^verbatim>\<open>size_t\<close> is \<open>nat\<close> where an invariant
  keeps it from wrapping and reduced modulo \<open>2 ^ 64\<close> where it can wrap; event masks are machine words. Times
  are microseconds. Loops that end are \<open>fun\<close> or \<open>function\<close> with a termination proof; the response parser,
  whose loop need not end, and the loops of the YAML scanner and parser, which are one loop combinator \<open>repeat\<close>, are partial functions
  whose value \<open>None\<close> is not returning. Only \<open>read_tree\<close>, which reads a tree off a node graph, has fuel: the number of nodes,
  enough because children come after their parents (\<open>read_represented\<close>). The nesting that the YAML parser's depth guard allows is
  an argument of \<open>HandleNode\<close>.
  Objects that are shared through pointers, the channels and the timers, live in explicit heaps.

  \<^bold>\<open>Parameters.\<close> System calls (\<^verbatim>\<open>readv\<close>, \<^verbatim>\<open>write\<close>, \<^verbatim>\<open>poll\<close>, \<^verbatim>\<open>epoll_ctl\<close>, \<^verbatim>\<open>epoll_wait\<close>, file access), the allocator of
  timers, the clock, in \<open>LoadFile\<close> the tokens of a file's text, and the iteration order of unordered maps are
  arguments of the definitions. What is assumed of them is named: \<open>kernel_ok\<close>, \<open>write_ok\<close>, \<open>new_ok\<close>, \<open>scan_ok\<close>.

  \<^bold>\<open>Not modelled.\<close> Of the YAML library under \<^verbatim>\<open>lib\<close> and \<^verbatim>\<open>include\<close>, which is third-party code, the emitter and the
  \<^verbatim>\<open>Node\<close> interface. Mutexes and condition variables are wrappers of the operating system: they are the points at which the
  steps of threads interleave. Floating point output, IPv6, name resolution, and the socket system calls themselves are left out.
\<close>

end
